(* ===== verification/Prelude.thy ===== *)
theory Prelude
  imports Main "HOL-Library.Word" "HOL-Library.Signed_Division"
begin

text \<open>
  Shared ground of the development: how a failing operation of the C++ code is
  represented, the byte strings and the C library functions the code calls on
  them, fixed-width integers, and generic lemmas on lists.

  A C++ call either returns a value, throws an exception that carries a
  message, or does something the language leaves undefined (dereferences a
  null pointer, reads or writes outside an array, fails an \<open>assert\<close>). The
  last two are the constructors of \<open>failure\<close>.
\<close>

named_theorems result_simps "evaluation of sequenced operations that may fail"
named_theorems cstring_simps "C library functions on byte strings without the byte zero"

section \<open>Results\<close>

datatype failure = Throw string | Abort

type_synonym 'a result = "failure + 'a"

definition bind_result :: "'a result \<Rightarrow> ('a \<Rightarrow> 'b result) \<Rightarrow> 'b result" where
  "bind_result r f = (case r of Inl e \<Rightarrow> Inl e | Inr x \<Rightarrow> f x)"

lemma bind_result_simps [simp, result_simps]:
  "bind_result (Inl e) f = Inl e"
  "bind_result (Inr x) f = f x"
  by (simp_all add: bind_result_def)

lemma bind_result_Inr_iff:
  "bind_result r f = Inr y \<longleftrightarrow> (\<exists>x. r = Inr x \<and> f x = Inr y)"
  by (cases r) simp_all

lemma bind_result_assoc:
  "bind_result (bind_result r f) g = bind_result r (\<lambda>x. bind_result (f x) g)"
  by (cases r) simp_all

lemma bind_result_cong [fundef_cong]:
  "r = r' \<Longrightarrow> (\<And>x. r' = Inr x \<Longrightarrow> f x = f' x) \<Longrightarrow> bind_result r f = bind_result r' f'"
  by (cases r') simp_all

section \<open>Integers\<close>

text \<open>Conversion of a wider integer to the 32-bit \<open>int\<close> (two's complement).\<close>

definition to_int32 :: "int \<Rightarrow> int" where
  "to_int32 x = (x + 2 ^ 31) mod 2 ^ 32 - 2 ^ 31"

lemma to_int32_id [simp]: "- (2 ^ 31) \<le> x \<Longrightarrow> x < 2 ^ 31 \<Longrightarrow> to_int32 x = x"
  by (simp add: to_int32_def)

lemma to_int32_range: "- (2 ^ 31) \<le> to_int32 x \<and> to_int32 x < 2 ^ 31"
proof -
  have "0 \<le> (x + 2 ^ 31) mod 2 ^ 32" "(x + 2 ^ 31) mod 2 ^ 32 < 2 ^ 32" by simp_all
  then show ?thesis unfolding to_int32_def by simp
qed

section \<open>Byte strings and the C library\<close>

text \<open>
  A byte string is the content of a buffer up to, and without, the terminating
  zero byte the code keeps behind it. Each function below sees what the C
  function sees: it stops at the first zero byte, or at the terminator.
\<close>

abbreviation NUL :: char where "NUL \<equiv> CHR 0x00"

definition cstr :: "string \<Rightarrow> string" where
  "cstr s = takeWhile (\<lambda>c. c \<noteq> NUL) s"

definition nul_free :: "string \<Rightarrow> bool" where
  "nul_free s \<longleftrightarrow> NUL \<notin> set s"

lemma nul_free_simps [simp]:
  "nul_free []"
  "nul_free (c # s) \<longleftrightarrow> c \<noteq> NUL \<and> nul_free s"
  "nul_free (s @ t) \<longleftrightarrow> nul_free s \<and> nul_free t"
  by (auto simp: nul_free_def)

lemma nul_free_subset: "nul_free s \<Longrightarrow> set t \<subseteq> set s \<Longrightarrow> nul_free t"
  by (auto simp: nul_free_def)

lemma nul_free_take [simp]: "nul_free s \<Longrightarrow> nul_free (take n s)"
  and nul_free_drop [simp]: "nul_free s \<Longrightarrow> nul_free (drop n s)"
  and nul_free_filter [simp]: "nul_free s \<Longrightarrow> nul_free (filter P s)"
  by (auto simp: nul_free_def dest: in_set_takeD in_set_dropD)

lemma cstr_nul_free [simp, cstring_simps]: "nul_free s \<Longrightarrow> cstr s = s"
  by (simp add: cstr_def nul_free_def takeWhile_eq_all_conv)
     (metis)

lemma nul_free_cstr [simp]: "nul_free (cstr s)"
  by (auto simp: cstr_def nul_free_def dest: set_takeWhileD)

definition byte_at :: "string \<Rightarrow> nat \<Rightarrow> char" where
  \<comment> \<open>a read at an offset that is at most the length: the terminator is there\<close>
  "byte_at s i = (if i < length s then s ! i else NUL)"

fun strchr :: "string \<Rightarrow> char \<Rightarrow> nat option" where
  "strchr [] c = (if c = NUL then Some 0 else None)"
| "strchr (x # xs) c =
     (if x = c then Some 0 else if x = NUL then None else map_option Suc (strchr xs c))"

fun strrchr :: "string \<Rightarrow> char \<Rightarrow> nat option" where
  "strrchr [] c = (if c = NUL then Some 0 else None)"
| "strrchr (x # xs) c =
     (if x = NUL then (if c = NUL then Some 0 else None)
      else case strrchr xs c of
        Some i \<Rightarrow> Some (Suc i)
      | None \<Rightarrow> if x = c then Some 0 else None)"

fun prefixb :: "string \<Rightarrow> string \<Rightarrow> bool" where
  "prefixb [] _ = True"
| "prefixb (_ # _) [] = False"
| "prefixb (x # xs) (y # ys) = (x = y \<and> prefixb xs ys)"

fun strstr :: "string \<Rightarrow> string \<Rightarrow> nat option" where
  \<comment> \<open>\<open>strstr s needle\<close> on the bytes before the first zero byte of each\<close>
  "strstr [] n = (if n = [] then Some 0 else None)"
| "strstr (x # xs) n =
     (if prefixb n (x # xs) then Some 0 else map_option Suc (strstr xs n))"

lemma prefixb_append: "prefixb xs ys \<longleftrightarrow> (\<exists>zs. ys = xs @ zs)"
  by (induction xs ys rule: prefixb.induct) auto

lemma prefixb_take: "prefixb xs ys \<longleftrightarrow> take (length xs) ys = xs"
  by (induction xs ys rule: prefixb.induct) auto

lemma prefixb_self_append [simp]: "prefixb xs (xs @ ys)"
  by (auto simp: prefixb_append)

lemma strchr_None [cstring_simps]:
  "nul_free s \<Longrightarrow> c \<noteq> NUL \<Longrightarrow> strchr s c = None \<longleftrightarrow> c \<notin> set s"
  by (induction s) auto

lemma strchr_Some_D:
  "strchr s c = Some i \<Longrightarrow> c \<noteq> NUL \<Longrightarrow>
     i < length s \<and> s ! i = c \<and> c \<notin> set (take i s)"
  by (induction s arbitrary: i) (auto split: if_splits)

lemma strchr_split:
  "nul_free a \<Longrightarrow> c \<notin> set a \<Longrightarrow> strchr (a @ c # b) c = Some (length a)"
  by (induction a) auto

lemma strchr_notin [simp]:
  "c \<noteq> NUL \<Longrightarrow> c \<notin> set s \<Longrightarrow> strchr s c = None"
  by (induction s) auto

lemma strrchr_Some_D:
  "strrchr s c = Some i \<Longrightarrow> c \<noteq> NUL \<Longrightarrow> nul_free s \<Longrightarrow>
     i < length s \<and> s ! i = c \<and> c \<notin> set (drop (Suc i) s)"
proof (induction s arbitrary: i)
  case (Cons x xs)
  show ?case
  proof (cases "strrchr xs c")
    case None
    then have "c \<notin> set xs"
      using Cons.prems by (induction xs) (auto split: option.splits if_splits)
    with None Cons.prems show ?thesis by (auto split: if_splits)
  next
    case (Some j)
    with Cons show ?thesis by (auto split: if_splits)
  qed
qed (simp split: if_splits)

lemma strrchr_None:
  "nul_free s \<Longrightarrow> c \<noteq> NUL \<Longrightarrow> strrchr s c = None \<longleftrightarrow> c \<notin> set s"
  by (induction s) (auto split: option.splits)

lemma strrchr_split:
  "nul_free (a @ c # b) \<Longrightarrow> c \<notin> set b \<Longrightarrow> strrchr (a @ c # b) c = Some (length a)"
proof (induction a)
  case Nil
  then have "strrchr b c = None" by (simp add: strrchr_None)
  with Nil show ?case by simp
qed simp

lemma strstr_Some_D:
  "strstr s n = Some i \<Longrightarrow> i \<le> length s \<and> take (length n) (drop i s) = n"
  by (induction s arbitrary: i) (auto simp: prefixb_take split: if_splits)

lemma strstr_least:
  "strstr s n = Some i \<Longrightarrow> j < i \<Longrightarrow> take (length n) (drop j s) \<noteq> n"
proof (induction s arbitrary: i j)
  case (Cons x xs)
  then show ?case
    by (cases j) (auto simp: prefixb_take split: if_splits)
qed (simp split: if_splits)

lemma strstr_None_D:
  "strstr s n = None \<Longrightarrow> take (length n) (drop j s) \<noteq> n"
proof (induction s arbitrary: j)
  case (Cons x xs)
  then show ?case
    by (cases j) (auto simp: prefixb_take split: if_splits)
qed (simp split: if_splits)

section \<open>Decimal numbers\<close>

definition digit :: "nat \<Rightarrow> char" where
  "digit n = char_of (48 + n mod 10)"

definition is_digit :: "char \<Rightarrow> bool" where
  "is_digit c \<longleftrightarrow> 48 \<le> (of_char c :: nat) \<and> (of_char c :: nat) \<le> 57"

definition digit_val :: "char \<Rightarrow> nat" where
  "digit_val c = of_char c - 48"

definition is_space :: "char \<Rightarrow> bool" where
  \<comment> \<open>\<open>isspace\<close> in the C locale\<close>
  "is_space c \<longleftrightarrow> (of_char c :: nat) = 32 \<or> (9 \<le> (of_char c :: nat) \<and> (of_char c :: nat) \<le> 13)"

lemma of_char_digit [simp]: "(of_char (digit n) :: nat) = 48 + n mod 10"
proof -
  have "n mod 10 < 10" by simp
  then show ?thesis unfolding digit_def of_char_of by simp
qed

lemma is_digit_digit [simp]: "is_digit (digit n)"
proof -
  have "n mod 10 < 10" by simp
  then show ?thesis by (simp add: is_digit_def)
qed

lemma digit_val_digit [simp]: "digit_val (digit n) = n mod 10"
  by (simp add: digit_val_def)

lemma is_digit_not_space [simp]: "is_digit c \<Longrightarrow> \<not> is_space c"
  by (auto simp: is_digit_def is_space_def)

lemma is_digit_not_NUL [simp]: "is_digit c \<Longrightarrow> c \<noteq> NUL"
  by (auto simp: is_digit_def)

lemma is_digit_not_sign [simp]:
  "is_digit c \<Longrightarrow> c \<noteq> CHR ''-''" "is_digit c \<Longrightarrow> c \<noteq> CHR ''+''"
  by (auto simp: is_digit_def)

fun show_nat :: "nat \<Rightarrow> string" where
  "show_nat n = (if n < 10 then [digit n] else show_nat (n div 10) @ [digit n])"

declare show_nat.simps [simp del]

definition show_int :: "int \<Rightarrow> string" where
  \<comment> \<open>\<open>%d\<close>, \<open>%ld\<close>, \<open>%lld\<close>\<close>
  "show_int i = (if i < 0 then CHR ''-'' # show_nat (nat (- i)) else show_nat (nat i))"

definition digits_val :: "string \<Rightarrow> nat" where
  "digits_val ds = foldl (\<lambda>n c. 10 * n + digit_val c) 0 ds"

lemma digits_val_simps [simp]:
  "digits_val [] = 0"
  "digits_val (ds @ [c]) = 10 * digits_val ds + digit_val c"
  by (simp_all add: digits_val_def)

lemma show_nat_digits: "\<forall>c \<in> set (show_nat n). is_digit c"
proof (induction n rule: show_nat.induct)
  case (1 n)
  then show ?case by (subst show_nat.simps) auto
qed

lemma show_nat_not_Nil [simp]: "show_nat n \<noteq> []"
  by (subst show_nat.simps) simp

lemma digits_val_show_nat [simp]: "digits_val (show_nat n) = n"
proof (induction n rule: show_nat.induct)
  case (1 n)
  then show ?case
    by (cases "n < 10") (simp_all add: show_nat.simps [of n] digits_val_def)
qed

lemma nul_free_digits: "\<forall>c \<in> set s. is_digit c \<Longrightarrow> nul_free s"
  by (auto simp: nul_free_def is_digit_def)

lemma nul_free_show_nat [simp]: "nul_free (show_nat n)"
  using show_nat_digits nul_free_digits by blast

lemma nul_free_show_int [simp]: "nul_free (show_int i)"
  by (simp add: show_int_def)

lemma show_int_not_Nil [simp]: "show_int i \<noteq> []"
  by (simp add: show_int_def)

lemma set_show_int: "c \<in> set (show_int i) \<Longrightarrow> is_digit c \<or> c = CHR ''-''"
  using show_nat_digits by (auto simp: show_int_def split: if_splits)

lemma takeWhile_digits_append [simp]:
  "takeWhile is_digit (show_nat n @ t) = show_nat n @ takeWhile is_digit t"
  "dropWhile is_digit (show_nat n @ t) = dropWhile is_digit t"
  using show_nat_digits [of n] by (simp_all add: takeWhile_append dropWhile_append)

lemma length_show_nat_le: "n < 10 ^ k \<Longrightarrow> 0 < k \<Longrightarrow> length (show_nat n) \<le> k"
proof (induction k arbitrary: n)
  case (Suc k)
  show ?case
  proof (cases "n < 10")
    case True
    then show ?thesis by (simp add: show_nat.simps [of n])
  next
    case False
    with Suc.prems have "n div 10 < 10 ^ k" "0 < k"
      by (auto simp: less_mult_imp_div_less mult.commute intro: gr0I)
    with Suc.IH have "length (show_nat (n div 10)) \<le> k" by blast
    with False show ?thesis by (simp add: show_nat.simps [of n])
  qed
qed simp

text \<open>
  \<open>strtol\<close> in base 10: leading white space, an optional sign, digits; the value
  is clamped to the range of the result type, and the second component is what
  \<open>endptr\<close> is left pointing to (the whole string when there is no number).
\<close>

definition strtol_in :: "int \<Rightarrow> int \<Rightarrow> string \<Rightarrow> int \<times> string" where
  "strtol_in lo hi str =
     (let s = cstr str; t = dropWhile is_space s;
          neg = (case t of c # _ \<Rightarrow> c = CHR ''-'' | [] \<Rightarrow> False);
          u = (case t of c # r \<Rightarrow> if c = CHR ''-'' \<or> c = CHR ''+'' then r else t | [] \<Rightarrow> t);
          ds = takeWhile is_digit u
      in if ds = [] then (0, s)
         else (let v = int (digits_val ds)
               in (max lo (min hi (if neg then - v else v)), dropWhile is_digit u)))"

abbreviation strtol :: "string \<Rightarrow> int \<times> string" where
  "strtol \<equiv> strtol_in (- (2 ^ 63)) (2 ^ 63 - 1)"

lemma show_nat_Cons: "\<exists>c r. show_nat n = c # r \<and> is_digit c"
  using show_nat_digits [of n] by (cases "show_nat n") auto

lemma strtol_in_show_int:
  assumes "lo \<le> i" "i \<le> hi" "nul_free t" "t = [] \<or> \<not> is_digit (hd t)"
  shows "strtol_in lo hi (show_int i @ t) = (i, t)"
proof -
  have t: "takeWhile is_digit t = []" "dropWhile is_digit t = t"
    using assms(4) by (cases t; simp)+
  show ?thesis
  proof (cases "i < 0")
    case True
    then show ?thesis
      using assms by (simp add: strtol_in_def show_int_def t is_space_def)
  next
    case False
    obtain c r where c: "show_nat (nat i) = c # r" "is_digit c"
      using show_nat_Cons by blast
    have "show_int i @ t = c # (r @ t)" using False c by (simp add: show_int_def)
    moreover have "takeWhile is_digit (c # r @ t) = show_nat (nat i)"
      "dropWhile is_digit (c # r @ t) = t"
      using takeWhile_digits_append [of "nat i" t] t c(1) by simp_all
    moreover have "nul_free (c # (r @ t))"
      using assms(3) c(1) nul_free_show_nat [of "nat i"] by simp
    ultimately show ?thesis
      using assms c(2) False by (simp add: strtol_in_def Let_def)
  qed
qed

section \<open>Lists\<close>

fun join :: "'a \<Rightarrow> 'a list list \<Rightarrow> 'a list" where
  "join c [] = []"
| "join c [x] = x"
| "join c (x # y # r) = x @ c # join c (y # r)"

lemma join_Cons: "join c (x # xs) = (if xs = [] then x else x @ c # join c xs)"
  by (cases xs) auto

lemma nul_free_join:
  "(\<forall>x \<in> set xs. nul_free x) \<Longrightarrow> c \<noteq> NUL \<Longrightarrow> nul_free (join c xs)"
  by (induction c xs rule: join.induct) auto

lemma take_append_exact: "length xs = n \<Longrightarrow> take n (xs @ ys) = xs"
  by simp

lemma list_update_middle: "length xs = n \<Longrightarrow> (xs @ y # ys)[n := x] = xs @ x # ys"
  by (auto simp: list_update_append)

lemma takeWhile_split:
  "c \<notin> set a \<Longrightarrow> takeWhile (\<lambda>x. x \<noteq> c) (a @ c # b) = a"
  by (induction a) auto

lemma list_all2_update:
  "list_all2 P xs ys \<Longrightarrow> P a b \<Longrightarrow> list_all2 P (xs[i := a]) (ys[i := b])"
  by (simp add: list_all2_update_cong)

end
