(* ===== verification/ZString.thy ===== *)
theory ZString
  imports Prelude
begin

text \<open>
  \<open>zmm::String\<close> (src/zmm/strings.h, src/zmm/strings.cc): a counted reference to
  a byte buffer, or null. A value is \<open>None\<close> for the null reference and
  \<open>Some s\<close> for a buffer with the bytes \<open>s\<close> and the length field
  \<open>length s\<close>; the code keeps a zero byte behind \<open>s\<close>. Strings are immutable
  once built, so sharing of buffers is not visible and not modelled. An operation
  that dereferences the null reference is \<open>Inl Abort\<close>.

  The first group of lemmas says what each operation computes on strings without
  the byte zero; the second is about the in-place algorithm \<open>reduce\<close>.
\<close>

type_synonym zstring = "string option"

definition strncmp_eq :: "string \<Rightarrow> string \<Rightarrow> nat \<Rightarrow> bool" where
  \<comment> \<open>\<open>strncmp(a, b, n) == 0\<close>\<close>
  "strncmp_eq a b n \<longleftrightarrow>
     take n (cstr a @ [NUL]) = take n (cstr b @ [NUL])"

definition strncpy :: "nat \<Rightarrow> string \<Rightarrow> string" where
  \<comment> \<open>the \<open>n\<close> bytes that \<open>strncpy(_, s, n)\<close> stores\<close>
  "strncpy n s = take n (cstr s) @ replicate (n - length (cstr s)) NUL"

lemma strncpy_take [simp, cstring_simps]:
  "nul_free s \<Longrightarrow> n \<le> length s \<Longrightarrow> strncpy n s = take n s"
  by (simp add: strncpy_def)

lemma strncmp_eq_prefix:
  assumes "nul_free a" "nul_free b"
  shows "strncmp_eq a b (length b) \<longleftrightarrow> prefixb b a"
proof -
  have "take (length b) (b @ [NUL]) = b" by simp
  moreover have "take (length b) (a @ [NUL]) = b \<longleftrightarrow> take (length b) a = b"
  proof (cases "length b \<le> length a")
    case False
    then have "take (length b) (a @ [NUL]) = a @ [NUL]" by simp
    moreover have "a @ [NUL] \<noteq> b" using assms(2) by auto
    moreover have "take (length b) a \<noteq> b"
      using False by (metis leI length_take min.absorb_iff2 nat_le_linear)
    ultimately show ?thesis by simp
  qed simp
  ultimately show ?thesis
    using assms by (simp add: strncmp_eq_def prefixb_take)
qed

section \<open>Operations\<close>

definition z_length :: "zstring \<Rightarrow> int" where
  "z_length z = (case z of None \<Rightarrow> 0 | Some s \<Rightarrow> int (length s))"

definition z_startsWith :: "zstring \<Rightarrow> zstring \<Rightarrow> bool result" where
  "z_startsWith z other =
     (case (z, other) of
        (Some s, Some t) \<Rightarrow> Inr (strncmp_eq s t (length t))
      | _ \<Rightarrow> Inl Abort)"

definition z_append :: "zstring \<Rightarrow> zstring \<Rightarrow> zstring" where
  "z_append z other =
     (case other of
        None \<Rightarrow> z
      | Some t \<Rightarrow> (case z of None \<Rightarrow> other | Some s \<Rightarrow> Some (cstr s @ cstr t)))"

definition z_append_char :: "zstring \<Rightarrow> char \<Rightarrow> zstring" where
  "z_append_char z c = z_append z (Some (cstr [c]))"

definition z_from :: "int \<Rightarrow> zstring" where
  "z_from x = Some (show_int x)"

definition z_append_int :: "zstring \<Rightarrow> int \<Rightarrow> zstring" where
  "z_append_int z x = z_append z (z_from x)"

definition z_from_ulong :: "64 word \<Rightarrow> zstring" where
  \<comment> \<open>\<open>sprintf(_, "%ld", x)\<close> of an \<open>unsigned long\<close>\<close>
  "z_from_ulong x = Some (show_int (sint x))"

definition z_eq :: "zstring \<Rightarrow> zstring \<Rightarrow> bool" where
  "z_eq z other =
     (case (z, other) of
        (None, None) \<Rightarrow> True
      | (Some s, Some t) \<Rightarrow> cstr s = cstr t
      | _ \<Rightarrow> False)"

definition z_eq_char :: "zstring \<Rightarrow> char \<Rightarrow> bool" where
  "z_eq_char z c =
     (case z of None \<Rightarrow> False | Some s \<Rightarrow> length s = 1 \<and> byte_at s 0 = c)"

definition tolower :: "char \<Rightarrow> char" where
  "tolower c = (let n = of_char c :: nat
                in if 65 \<le> n \<and> n \<le> 90 then char_of (n + 32) else c)"

definition toupper :: "char \<Rightarrow> char" where
  "toupper c = (let n = of_char c :: nat
                in if 97 \<le> n \<and> n \<le> 122 then char_of (n - 32) else c)"

definition z_equals :: "zstring \<Rightarrow> zstring \<Rightarrow> bool \<Rightarrow> bool" where
  "z_equals z other ignoreCase =
     (if z = None \<and> other = None then True
      else if ignoreCase then
        (case (z, other) of
           (Some s, Some t) \<Rightarrow> map tolower (cstr s) = map tolower (cstr t)
         | _ \<Rightarrow> False)
      else z_eq z other)"

definition z_toLower :: "zstring \<Rightarrow> zstring" where
  "z_toLower z = map_option (map tolower) z"

definition z_toUpper :: "zstring \<Rightarrow> zstring" where
  "z_toUpper z = map_option (map toupper) z"

definition z_toLong :: "zstring \<Rightarrow> int" where
  "z_toLong z =
     (case z of
        None \<Rightarrow> 0
      | Some s \<Rightarrow> (let (res, endptr) = strtol s; res = to_int32 res
                  in if endptr \<noteq> [] then 0 else res))"

definition z_toInt :: "zstring \<Rightarrow> int" where
  "z_toInt z = to_int32 (z_toLong z)"

definition z_toOFF_T :: "zstring \<Rightarrow> int" where
  \<comment> \<open>the branch of a build with a 64-bit \<open>off_t\<close>\<close>
  "z_toOFF_T z =
     (case z of
        None \<Rightarrow> 0
      | Some s \<Rightarrow> (let (res, endptr) = strtol s in if endptr \<noteq> [] then 0 else res))"

definition z_substring :: "zstring \<Rightarrow> int \<Rightarrow> int \<Rightarrow> zstring result" where
  "z_substring z from count =
     (case z of
        None \<Rightarrow> Inr None
      | Some s \<Rightarrow>
          if count < 0 then Inr None
          else if count = 0 then Inr (Some '''')
          else (let count' = (if from + count > int (length s) then int (length s) - from else count)
                in if from < 0 \<or> count' < 0 then Inl Abort
                   else Inr (Some (strncpy (nat count') (drop (nat from) s)))))"

definition z_substring_from :: "zstring \<Rightarrow> int \<Rightarrow> zstring result" where
  "z_substring_from z from =
     (case z of None \<Rightarrow> Inr None | Some s \<Rightarrow> z_substring z from (int (length s) - from))"

definition index_from :: "string \<Rightarrow> int \<Rightarrow> char \<Rightarrow> int" where
  "index_from s start ch =
     (if start < 0 \<or> start + 1 > int (length s) then -1
      else case strchr (drop (nat start) s) ch of
             None \<Rightarrow> -1 | Some i \<Rightarrow> start + int i)"

definition z_index :: "zstring \<Rightarrow> int \<Rightarrow> char \<Rightarrow> int" where
  "z_index z start ch = (case z of None \<Rightarrow> -1 | Some s \<Rightarrow> index_from s start ch)"

definition z_rindex :: "zstring \<Rightarrow> char \<Rightarrow> int" where
  "z_rindex z ch =
     (case z of None \<Rightarrow> -1
      | Some s \<Rightarrow> (case strrchr s ch of None \<Rightarrow> -1 | Some i \<Rightarrow> int i))"

fun rindex_scan :: "string \<Rightarrow> nat \<Rightarrow> char \<Rightarrow> int" where
  \<comment> \<open>the loop of \<open>rindex(end, ch)\<close>: the argument is one more than the position looked at\<close>
  "rindex_scan s 0 ch = -1"
| "rindex_scan s (Suc p) ch = (if byte_at s p = ch then int p else rindex_scan s p ch)"

definition z_rindex_end :: "zstring \<Rightarrow> int \<Rightarrow> char \<Rightarrow> int" where
  "z_rindex_end z end ch =
     (case z of None \<Rightarrow> -1
      | Some s \<Rightarrow> if end < 0 \<or> end + 1 > int (length s) then -1
                 else rindex_scan s (nat end + 1) ch)"

definition z_find :: "zstring \<Rightarrow> zstring \<Rightarrow> int result" where
  "z_find z needle =
     (case needle of None \<Rightarrow> Inl Abort
      | Some n \<Rightarrow> (case z of None \<Rightarrow> Inr (-1)
          | Some s \<Rightarrow> Inr (case strstr (cstr s) (cstr n) of None \<Rightarrow> -1 | Some i \<Rightarrow> int i)))"

definition z_replace :: "zstring \<Rightarrow> zstring \<Rightarrow> zstring \<Rightarrow> zstring" where
  "z_replace z needle replacement =
     (case (replacement, needle) of
        (Some r, Some n) \<Rightarrow>
          (case z of
             None \<Rightarrow> None
           | Some s \<Rightarrow>
               (case strstr (cstr s) (cstr n) of
                  None \<Rightarrow> Some s
                | Some pos \<Rightarrow>
                    Some (strncpy pos s @ strncpy (length r) r
                          @ strncpy (length s - pos - length n) (drop (pos + length n) s))))
      | _ \<Rightarrow> None)"

definition z_replaceChar :: "zstring \<Rightarrow> char \<Rightarrow> char \<Rightarrow> zstring result" where
  "z_replaceChar z needle replacement =
     (if needle = NUL \<or> replacement = NUL then Inr z
      else case z of None \<Rightarrow> Inl Abort
        | Some s \<Rightarrow> Inr (Some (map (\<lambda>c. if c = needle then replacement else c) s)))"

definition string_ok :: "zstring \<Rightarrow> bool" where
  "string_ok z \<longleftrightarrow> \<not> (z_eq z None \<or> z_eq z (Some ''''))"

definition string_ok_ex :: "zstring \<Rightarrow> unit result" where
  "string_ok_ex z =
     (if z_eq z None \<or> z_eq z (Some '''') then Inl (Throw ''Empty string'') else Inr ())"

definition fallbackString :: "zstring \<Rightarrow> zstring \<Rightarrow> zstring" where
  "fallbackString first fallback = (if z_eq first None then fallback else first)"

definition validateYesNo :: "zstring \<Rightarrow> bool" where
  "validateYesNo value =
     (if \<not> z_eq value (Some ''yes'') \<and> \<not> z_eq value (Some ''no'') then False else True)"

section \<open>What the operations compute\<close>

definition z_ok :: "zstring \<Rightarrow> bool" where
  \<comment> \<open>the length field is the length of the C string\<close>
  "z_ok z \<longleftrightarrow> (case z of None \<Rightarrow> True | Some s \<Rightarrow> nul_free s)"

lemma z_ok_simps [simp]: "z_ok None" "z_ok (Some s) \<longleftrightarrow> nul_free s"
  by (simp_all add: z_ok_def)

lemma z_eq_iff [cstring_simps]: "z_ok a \<Longrightarrow> z_ok b \<Longrightarrow> z_eq a b \<longleftrightarrow> a = b"
  by (auto simp: z_eq_def split: option.splits)

lemma z_eq_None [simp]: "z_eq z None \<longleftrightarrow> z = None" "z_eq None z \<longleftrightarrow> z = None"
  by (auto simp: z_eq_def split: option.splits)

lemma z_eq_refl [simp]: "z_eq z z"
  by (simp add: z_eq_def split: option.splits)

lemma z_eq_sym: "z_eq a b \<longleftrightarrow> z_eq b a"
  by (auto simp: z_eq_def split: option.splits)

lemma z_eq_trans: "z_eq a b \<Longrightarrow> z_eq b c \<Longrightarrow> z_eq a c"
  by (auto simp: z_eq_def split: option.splits)

lemma string_ok_Some [cstring_simps]: "nul_free s \<Longrightarrow> string_ok (Some s) \<longleftrightarrow> s \<noteq> []"
  by (auto simp: string_ok_def z_eq_def)

lemma string_ok_None [simp]: "\<not> string_ok None" "string_ok (Some []) \<longleftrightarrow> False"
  by (auto simp: string_ok_def z_eq_def)

lemma z_append_Some [cstring_simps]:
  "nul_free s \<Longrightarrow> nul_free t \<Longrightarrow> z_append (Some s) (Some t) = Some (s @ t)"
  by (simp add: z_append_def)

lemma z_substring_Some [cstring_simps]:
  assumes "nul_free s" "0 \<le> i" "0 \<le> n" "i + n \<le> int (length s)"
  shows "z_substring (Some s) i n = Inr (Some (take (nat n) (drop (nat i) s)))"
  using assms by (auto simp: z_substring_def)

lemma index_from_range: "c \<noteq> NUL \<Longrightarrow> index_from s i c = -1 \<or>
    (i \<le> index_from s i c \<and> index_from s i c < int (length s) \<and> 0 \<le> i)"
  by (auto simp: index_from_def split: option.splits dest!: strchr_Some_D)

lemma index_from_None:
  assumes "nul_free s" "c \<noteq> NUL" "c \<notin> set (drop (nat i) s)"
  shows "index_from s i c = -1"
  using assms by (auto simp: index_from_def split: option.splits dest!: strchr_Some_D)

lemma index_from_split:
  assumes "nul_free (a @ b)" "c \<notin> set b" "c \<noteq> NUL"
  shows "index_from (a @ b @ c # d) (int (length a)) c = int (length a + length b)"
  using assms strchr_split [of b c d] by (simp add: index_from_def)

lemma z_toInt_from:
  assumes "- (2 ^ 31) \<le> i" "i < 2 ^ 31"
  shows "z_toInt (z_from i) = i"
proof -
  have "strtol (show_int i @ []) = (i, [])"
    by (rule strtol_in_show_int) (use assms in auto)
  then show ?thesis using assms by (simp add: z_toInt_def z_toLong_def z_from_def)
qed

lemma tolower_idem [simp]: "tolower (tolower c) = tolower c"
proof -
  have "(of_char c :: nat) \<le> 90 \<Longrightarrow> (of_char (char_of ((of_char c :: nat) + 32) :: char) :: nat) = of_char c + 32"
    unfolding of_char_of by simp
  then show ?thesis by (auto simp: tolower_def Let_def)
qed

lemma strstr_Some_split:
  assumes "strstr s n = Some i"
  shows "s = take i s @ n @ drop (i + length n) s"
proof -
  have "s = take i s @ take (length n) (drop i s) @ drop (length n) (drop i s)"
    by (simp only: append_take_drop_id)
  with strstr_Some_D [OF assms] show ?thesis by (metis drop_drop add.commute)
qed

lemma z_replace_found:
  assumes "nul_free s" "nul_free r" "nul_free n" "strstr s n = Some i"
  shows "z_replace (Some s) (Some n) (Some r) = Some (take i s @ r @ drop (i + length n) s)"
proof -
  have "length s = i + length n + (length s - i - length n)" "i \<le> length s"
    using arg_cong [OF strstr_Some_split [OF assms(4)], of length] strstr_Some_D [OF assms(4)]
    by auto
  then show ?thesis using assms by (simp add: z_replace_def)
qed

section \<open>The run-length reduction\<close>

definition strchr_from :: "string \<Rightarrow> nat \<Rightarrow> char \<Rightarrow> nat option" where
  "strchr_from s i c = map_option ((+) i) (strchr (drop i s) c)"

definition skip_run :: "string \<Rightarrow> char \<Rightarrow> nat \<Rightarrow> nat" where
  \<comment> \<open>\<open>while (*pos == ch) pos++\<close>\<close>
  "skip_run s ch pos = pos + length (takeWhile (\<lambda>c. c = ch) (drop pos s))"

lemma skip_run_ge: "pos \<le> skip_run s ch pos"
  by (simp add: skip_run_def)

lemma strchr_from_ge: "strchr_from s i c = Some p \<Longrightarrow> i \<le> p"
  by (auto simp: strchr_from_def)

lemma byte_at_neq_NUL: "byte_at s i \<noteq> NUL \<Longrightarrow> i < length s"
  by (auto simp: byte_at_def split: if_splits)

lemma byte_at_NUL: "nul_free s \<Longrightarrow> byte_at s i = NUL \<longleftrightarrow> length s \<le> i"
  by (auto simp: byte_at_def nul_free_def) (metis not_less nth_mem)

lemma strchr_hd: "strchr s c = Some 0 \<Longrightarrow> s \<noteq> [] \<Longrightarrow> hd s = c"
  by (cases s) (auto split: if_splits)

lemma strchr_from_self:
  "strchr_from s i c = Some i \<Longrightarrow> i < length s \<Longrightarrow> s ! i = c"
  by (auto simp: strchr_from_def dest!: strchr_hd simp: hd_drop_conv_nth)

lemma skip_run_gt: "pos < length s \<Longrightarrow> s ! pos = ch \<Longrightarrow> pos < skip_run s ch pos"
  by (simp add: skip_run_def Cons_nth_drop_Suc [symmetric])

text \<open>
  The loop of \<open>String::reduce\<close>: \<open>pos\<close> is at an occurrence of \<open>ch\<close>,
  \<open>pos3\<close> is the start of what is not copied yet, \<open>out\<close> is what \<open>pos2\<close> has
  passed in the result. The loop ends with the values of \<open>pos3\<close> and the result.
\<close>

function reduce_loop :: "string \<Rightarrow> char \<Rightarrow> nat \<Rightarrow> nat \<Rightarrow> string \<Rightarrow> nat \<times> string" where
  "reduce_loop s ch pos pos3 out =
     (if byte_at s (pos + 1) = ch then
        (let out = (if pos = pos3 then out @ [ch]
                    else out @ strncpy (pos - pos3 + 1) (drop pos3 s));
             pos = skip_run s ch pos;
             pos3 = pos
         in if byte_at s pos = NUL then (pos3, out)
            else case strchr_from s pos ch of
                   None \<Rightarrow> (pos3, out)
                 | Some p \<Rightarrow> reduce_loop s ch p pos3 out)
      else if byte_at s (pos + 1) = NUL then (pos3, out)
      else case strchr_from s (pos + 1) ch of
             None \<Rightarrow> (pos3, out)
           | Some p \<Rightarrow> reduce_loop s ch p pos3 out)"
  by pat_completeness auto
termination
proof (relation "measure (\<lambda>(s, ch, pos, pos3, out). length s - pos)", goal_cases)
  case 1
  show ?case by simp
next
  case (2 s ch pos pos3 out x xa xb p)
  let ?q = "skip_run s ch pos"
  have q: "?q < length s" using 2 byte_at_neq_NUL by auto
  have p: "?q \<le> p" "strchr_from s ?q ch = Some p" using 2 strchr_from_ge by auto
  have "pos < p"
  proof (rule ccontr)
    assume "\<not> pos < p"
    then have "p = pos" "?q = pos" using p skip_run_ge [of pos s ch] by auto
    then show False using p q strchr_from_self skip_run_gt [of pos s ch] by auto
  qed
  with q skip_run_ge [of pos s ch] show ?case by auto
next
  case (3 s ch pos pos3 out p)
  then show ?case using byte_at_neq_NUL [of s "pos + 1"] strchr_from_ge by fastforce
qed

declare reduce_loop.simps [simp del]

definition z_reduce :: "zstring \<Rightarrow> char \<Rightarrow> zstring result" where
  "z_reduce z ch =
     (case z of
        None \<Rightarrow> Inr None
      | Some s \<Rightarrow>
          if ch = NUL then Inl Abort
          else case strchr s ch of
            None \<Rightarrow> Inr (Some s)
          | Some pos \<Rightarrow>
              (case reduce_loop s ch pos 0 '''' of (pos3, out) \<Rightarrow>
                 Inr (Some (cstr (out @ strncpy (length s - pos3) (drop pos3 s))))))"

text \<open>The specification: every run of \<open>c\<close> becomes a single \<open>c\<close>.\<close>

fun squeeze :: "'a \<Rightarrow> 'a list \<Rightarrow> 'a list" where
  "squeeze c (x # y # r) = (if x = c \<and> y = c then squeeze c (y # r) else x # squeeze c (y # r))"
| "squeeze c s = s"

lemma squeeze_notin: "c \<notin> set s \<Longrightarrow> squeeze c s = s"
  by (induction c s rule: squeeze.induct) auto

lemma squeeze_prefix:
  "c \<notin> set a \<Longrightarrow> squeeze c (a @ b) = a @ squeeze c b"
proof (induction a)
  case (Cons x a)
  then show ?case by (cases "a @ b") auto
qed simp

lemma squeeze_take:
  "c \<notin> set (take j t) \<Longrightarrow> squeeze c t = take j t @ squeeze c (drop j t)"
  by (metis squeeze_prefix append_take_drop_id)

lemma squeeze_Cons_other: "s = [] \<or> hd s \<noteq> c \<Longrightarrow> squeeze c (c # s) = c # squeeze c s"
  by (cases s) auto

lemma squeeze_run:
  "squeeze c (c # s) = c # squeeze c (dropWhile (\<lambda>x. x = c) s)"
proof (induction s)
  case (Cons x s)
  then show ?case by (cases "x = c") (auto simp: squeeze_Cons_other)
qed simp

lemma set_squeeze: "set (squeeze c s) \<subseteq> set s"
  by (induction c s rule: squeeze.induct) auto

lemma squeeze_no_run:
  "Suc i < length (squeeze c s) \<Longrightarrow> \<not> (squeeze c s ! i = c \<and> squeeze c s ! Suc i = c)"
proof (induction c s arbitrary: i rule: squeeze.induct)
  case (1 c x y r)
  show ?case
  proof (cases "x = c \<and> y = c")
    case True
    with 1 show ?thesis by simp
  next
    case False
    have hd: "squeeze c (y # r) ! 0 = y" by (induction r arbitrary: y) auto
    from False 1 hd show ?thesis by (cases i) auto
  qed
qed auto

lemma drop_skip_run: "drop (skip_run s ch pos) s = dropWhile (\<lambda>c. c = ch) (drop pos s)"
  by (simp add: skip_run_def dropWhile_eq_drop add.commute)

lemma reduce_loop_correct:
  assumes "nul_free s" "ch \<noteq> NUL" "pos3 \<le> pos" "pos < length s" "s ! pos = ch"
    and "squeeze ch (drop pos3 s) = take (pos - pos3) (drop pos3 s) @ squeeze ch (drop pos s)"
    and "reduce_loop s ch pos pos3 out = (q, out')"
  shows "out' @ drop q s = out @ squeeze ch (drop pos3 s)"
  using assms
proof (induction s ch pos pos3 out arbitrary: q out' rule: reduce_loop.induct)
  case (1 s ch pos pos3 out)
  note prems = "1.prems"
  have seg: "take (pos - pos3 + 1) (drop pos3 s) = take (pos - pos3) (drop pos3 s) @ [ch]"
    using prems(3-5) by (simp add: take_Suc_conv_app_nth)
  have cpy: "strncpy (pos - pos3 + 1) (drop pos3 s) = take (pos - pos3) (drop pos3 s) @ [ch]"
    using prems(1,3,4) seg by (subst strncpy_take) auto
  have dpos: "drop pos s = ch # drop (Suc pos) s"
    using prems(4,5) by (simp add: Cons_nth_drop_Suc [symmetric])
  have tail: "out @ squeeze ch (drop pos3 s)
      = (if pos = pos3 then out @ [ch] else out @ strncpy (pos - pos3 + 1) (drop pos3 s))
        @ squeeze ch (dropWhile (\<lambda>c. c = ch) (drop pos s))"
    using prems(6) cpy dpos squeeze_run [of ch "drop (Suc pos) s"] by auto
  show ?case
  proof (cases "byte_at s (pos + 1) = ch")
    case True
    let ?q = "skip_run s ch pos"
    let ?o = "if pos = pos3 then out @ [ch] else out @ strncpy (pos - pos3 + 1) (drop pos3 s)"
    have tail': "out @ squeeze ch (drop pos3 s) = ?o @ squeeze ch (drop ?q s)"
      using tail by (simp add: drop_skip_run)
    consider (stop) "byte_at s ?q = NUL" | (none) "byte_at s ?q \<noteq> NUL" "strchr_from s ?q ch = None"
      | (some) p where "byte_at s ?q \<noteq> NUL" "strchr_from s ?q ch = Some p"
      by (cases "strchr_from s ?q ch") auto
    then show ?thesis
    proof cases
      case stop
      then have "drop ?q s = []"
        using prems(1) by (simp add: byte_at_NUL)
      then show ?thesis
        using stop True prems(7) tail' by (simp add: reduce_loop.simps [of s ch pos] Let_def)
    next
      case none
      have "ch \<notin> set (drop ?q s)"
        using none(2) prems(1,2) by (simp add: strchr_from_def strchr_None)
      then show ?thesis
        using none True prems(7) tail'
        by (simp add: reduce_loop.simps [of s ch pos] Let_def squeeze_notin)
    next
      case some
      then obtain j where j: "p = ?q + j" "strchr (drop ?q s) ch = Some j"
        by (auto simp: strchr_from_def)
      note jD = strchr_Some_D [OF j(2) prems(2)]
      have inv: "squeeze ch (drop ?q s) = take (p - ?q) (drop ?q s) @ squeeze ch (drop p s)"
        using squeeze_take [of ch j "drop ?q s"] jD j(1) by (simp add: add.commute)
      have "out' @ drop q s = ?o @ squeeze ch (drop ?q s)"
      proof (rule "1.IH"(1) [OF True refl refl refl some])
        show "reduce_loop s ch p ?q ?o = (q, out')"
          using some True prems(7) by (simp add: reduce_loop.simps [of s ch pos] Let_def)
      qed (use prems jD j inv in auto)
      then show ?thesis using tail' by simp
    qed
  next
    case False
    have sq: "squeeze ch (drop pos s) = ch # squeeze ch (drop (Suc pos) s)"
      using False dpos prems(1)
      by (cases "Suc pos < length s") (auto simp: byte_at_def squeeze_Cons_other hd_drop_conv_nth)
    consider (stop) "byte_at s (pos + 1) = NUL" | (none) "byte_at s (pos + 1) \<noteq> NUL" "strchr_from s (pos + 1) ch = None"
      | (some) p where "byte_at s (pos + 1) \<noteq> NUL" "strchr_from s (pos + 1) ch = Some p"
      by (cases "strchr_from s (pos + 1) ch") auto
    then show ?thesis
    proof cases
      case stop
      then have "length s = Suc pos"
        using prems(1,4) by (simp add: byte_at_NUL)
      then have "squeeze ch (drop pos3 s) = drop pos3 s"
        using prems(6) sq dpos seg prems(3) by simp
      then show ?thesis
        using stop False prems(7) by (simp add: reduce_loop.simps [of s ch pos])
    next
      case none
      have "ch \<notin> set (drop (Suc pos) s)"
        using none(2) prems(1,2) by (simp add: strchr_from_def strchr_None)
      then have "squeeze ch (drop pos s) = drop pos s" using sq dpos squeeze_notin by simp
      then have "squeeze ch (drop pos3 s) = drop pos3 s"
        using prems(3,6) by (metis append_take_drop_id drop_drop le_add_diff_inverse2)
      then show ?thesis
        using none False prems(7) by (simp add: reduce_loop.simps [of s ch pos])
    next
      case some
      then obtain j where j: "p = Suc pos + j" "strchr (drop (Suc pos) s) ch = Some j"
        by (auto simp: strchr_from_def)
      note jD = strchr_Some_D [OF j(2) prems(2)]
      have "squeeze ch (drop (Suc pos) s) = take j (drop (Suc pos) s) @ squeeze ch (drop p s)"
        using squeeze_take [of ch j "drop (Suc pos) s"] jD j(1) by (simp add: add.commute)
      moreover have "take (p - pos3) (drop pos3 s)
          = take (pos - pos3) (drop pos3 s) @ ch # take j (drop (Suc pos) s)"
      proof -
        have "p - pos3 = (pos - pos3) + Suc j" using prems(3) j(1) by simp
        then have "take (p - pos3) (drop pos3 s)
            = take (pos - pos3) (drop pos3 s) @ take (Suc j) (drop pos s)"
          using prems(3) by (simp only: take_add drop_drop) simp
        then show ?thesis using dpos by simp
      qed
      ultimately have inv: "squeeze ch (drop pos3 s) = take (p - pos3) (drop pos3 s) @ squeeze ch (drop p s)"
        using prems(6) sq by simp
      show ?thesis
      proof (rule "1.IH"(2) [OF False some])
        show "reduce_loop s ch p pos3 out = (q, out')"
          using some False prems(7) by (simp add: reduce_loop.simps [of s ch pos])
      qed (use prems jD j inv in auto)
    qed
  qed
qed

lemma z_reduce_squeeze:
  assumes "nul_free s" "ch \<noteq> NUL"
  shows "z_reduce (Some s) ch = Inr (Some (squeeze ch s))"
proof (cases "strchr s ch")
  case None
  then show ?thesis using assms by (simp add: z_reduce_def strchr_None squeeze_notin)
next
  case (Some pos)
  obtain q out where qo: "reduce_loop s ch pos 0 '''' = (q, out)" by fastforce
  note pD = strchr_Some_D [OF Some assms(2)]
  have "squeeze ch (take pos s @ drop pos s) = take pos s @ squeeze ch (drop pos s)"
    by (rule squeeze_prefix) (use pD in auto)
  then have "out @ drop q s = squeeze ch s"
    using reduce_loop_correct [OF assms le0 _ _ _ qo] pD by simp
  moreover have "strncpy (length s - q) (drop q s) = drop q s" using assms(1) by simp
  moreover have "nul_free (squeeze ch s)"
    using assms(1) set_squeeze [of ch s] by (rule nul_free_subset)
  ultimately show ?thesis using Some assms(2) qo by (simp add: z_reduce_def)
qed

lemma index_from_first:
  assumes "nul_free s" "c \<noteq> NUL" "0 \<le> i" "index_from s i c = q"
  shows "(q = -1 \<and> c \<notin> set (drop (nat i) s))
    \<or> (i \<le> q \<and> q < int (length s) \<and> s ! nat q = c \<and> c \<notin> set (take (nat (q - i)) (drop (nat i) s)))"
proof (cases "strchr (drop (nat i) s) c")
  case None
  then have "index_from s i c = -1" by (simp add: index_from_def)
  moreover have "c \<notin> set (drop (nat i) s)" using assms None by (simp add: strchr_None)
  ultimately show ?thesis using assms(4) by simp
next
  case (Some k)
  then have k: "k < length s - nat i" "drop (nat i) s ! k = c" "c \<notin> set (take k (drop (nat i) s))"
    using strchr_Some_D [OF Some assms(2)] by auto
  then have "q = i + int k" using Some assms by (auto simp: index_from_def)
  then show ?thesis using k assms(3) by (auto simp: nat_add_distrib)
qed

end
