(* ===== verification/Containers.thy ===== *)
theory Containers
  imports ZString
begin

text \<open>
  The growing array \<open>BaseArray\<close> of src/zmm/base_array.h, and the cells and interfaces it
  shares with the stack and the ring buffer of theory \<open>Queues\<close>. A container is a block of cells obtained from \<open>MALLOC\<close> and
  enlarged by \<open>REALLOC\<close>: a cell is \<open>None\<close> until the code has written to it,
  and every read or write outside the block, or of an unwritten cell, is
  \<open>Inl Abort\<close>. For each container an invariant \<open>_inv\<close> and an abstraction to
  lists are given, and the interfaces \<open>sequence\<close>, \<open>stack\<close> and \<open>fifo\<close> state
  what the rest of the program relies on; the interpretations show that the
  cell-level code keeps these promises, without any invalid memory access.
\<close>

section \<open>Blocks of cells\<close>

type_synonym 'a cells = "'a option list"

definition cell_read :: "'a cells \<Rightarrow> int \<Rightarrow> 'a result" where
  "cell_read d i =
     (if 0 \<le> i \<and> i < int (length d) then
        (case d ! nat i of None \<Rightarrow> Inl Abort | Some x \<Rightarrow> Inr x)
      else Inl Abort)"

definition cell_write :: "'a cells \<Rightarrow> int \<Rightarrow> 'a \<Rightarrow> 'a cells result" where
  "cell_write d i x =
     (if 0 \<le> i \<and> i < int (length d) then Inr (d[nat i := Some x]) else Inl Abort)"

definition cell_move :: "'a cells \<Rightarrow> int \<Rightarrow> int \<Rightarrow> int \<Rightarrow> 'a cells result" where
  \<comment> \<open>\<open>memmove\<close> of \<open>n\<close> cells inside one block\<close>
  "cell_move d dst src n =
     (if 0 \<le> dst \<and> 0 \<le> src \<and> 0 \<le> n \<and> dst + n \<le> int (length d) \<and> src + n \<le> int (length d)
      then Inr (take (nat dst) d @ take (nat n) (drop (nat src) d) @ drop (nat dst + nat n) d)
      else Inl Abort)"

definition cell_realloc :: "'a cells \<Rightarrow> nat \<Rightarrow> 'a cells" where
  "cell_realloc d n = take n d @ replicate (n - length d) None"

lemma length_cell_realloc [simp]: "length (cell_realloc d n) = n"
  by (simp add: cell_realloc_def)

lemma cell_realloc_nth:
  "length d \<le> n \<Longrightarrow> i < n \<Longrightarrow> cell_realloc d n ! i = (if i < length d then d ! i else None)"
  by (simp add: cell_realloc_def nth_append)

lemma take_cell_realloc [simp]:
  "k \<le> length d \<Longrightarrow> length d \<le> n \<Longrightarrow> take k (cell_realloc d n) = take k d"
  by (simp add: cell_realloc_def)

lemma cell_write_nat [simp]:
  "i < length d \<Longrightarrow> cell_write d (int i) x = Inr (d[i := Some x])"
  by (simp add: cell_write_def)

lemma cell_move_nat:
  "dst + n \<le> length d \<Longrightarrow> src + n \<le> length d \<Longrightarrow>
     cell_move d (int dst) (int src) (int n)
     = Inr (take dst d @ take n (drop src d) @ drop (dst + n) d)"
  by (simp add: cell_move_def)

definition filled :: "'a cells \<Rightarrow> bool" where
  "filled d \<longleftrightarrow> (\<forall>c \<in> set d. c \<noteq> None)"

lemma filled_simps [simp]:
  "filled []" "filled (c # d) \<longleftrightarrow> c \<noteq> None \<and> filled d"
  "filled (d @ e) \<longleftrightarrow> filled d \<and> filled e"
  by (auto simp: filled_def)

lemma filled_map_Some [simp]: "filled (map Some s)"
  by (simp add: filled_def)

lemma filled_subset: "filled d \<Longrightarrow> set e \<subseteq> set d \<Longrightarrow> filled e"
  by (auto simp: filled_def)

lemma filled_take [simp]: "filled d \<Longrightarrow> filled (take n d)"
  and filled_drop [simp]: "filled d \<Longrightarrow> filled (drop n d)"
  and filled_update [simp]: "filled d \<Longrightarrow> filled (d[i := Some x])"
  by (auto simp: filled_def dest: in_set_takeD in_set_dropD set_update_subset_insert [THEN subsetD])

lemma filled_take_le: "filled (take n d) \<Longrightarrow> m \<le> n \<Longrightarrow> filled (take m d)"
  by (erule filled_subset) (rule set_take_subset_set_take)

lemma filled_nth: "filled d \<Longrightarrow> i < length d \<Longrightarrow> d ! i = Some (the (d ! i))"
  by (auto simp: filled_def dest!: nth_mem)

section \<open>Interfaces\<close>

locale sequence =
  fixes inv :: "'s \<Rightarrow> bool"
    and abs :: "'s \<Rightarrow> 'a list"
    and append_op :: "'s \<Rightarrow> 'a \<Rightarrow> 's result"
    and get_op :: "'s \<Rightarrow> int \<Rightarrow> 'a result"
    and set_op :: "'s \<Rightarrow> 'a \<Rightarrow> int \<Rightarrow> 's result"
    and remove_op :: "'s \<Rightarrow> int \<Rightarrow> int \<Rightarrow> 's result"
    and size_op :: "'s \<Rightarrow> int"
  assumes size_law: "inv s \<Longrightarrow> size_op s = int (length (abs s))"
    and append_law: "inv s \<Longrightarrow> \<exists>s'. append_op s x = Inr s' \<and> inv s' \<and> abs s' = abs s @ [x]"
    and get_law: "inv s \<Longrightarrow> i < length (abs s) \<Longrightarrow> get_op s (int i) = Inr (abs s ! i)"
    and set_law: "inv s \<Longrightarrow> i < length (abs s) \<Longrightarrow>
        \<exists>s'. set_op s x (int i) = Inr s' \<and> inv s' \<and> abs s' = (abs s)[i := x]"
    and remove_law: "inv s \<Longrightarrow> i + n \<le> length (abs s) \<Longrightarrow> 0 < n \<Longrightarrow>
        \<exists>s'. remove_op s (int i) (int n) = Inr s' \<and> inv s'
           \<and> abs s' = take i (abs s) @ drop (i + n) (abs s)"
begin

primrec append_all :: "'s \<Rightarrow> 'a list \<Rightarrow> 's result" where
  "append_all s [] = Inr s"
| "append_all s (x # xs) = bind_result (append_op s x) (\<lambda>s'. append_all s' xs)"

lemma append_all_law:
  "inv s \<Longrightarrow> \<exists>s'. append_all s xs = Inr s' \<and> inv s' \<and> abs s' = abs s @ xs"
proof (induction xs arbitrary: s)
  case (Cons x xs)
  obtain s1 where s1: "append_op s x = Inr s1" "inv s1" "abs s1 = abs s @ [x]"
    using append_law [OF Cons.prems] by blast
  then show ?case using Cons.IH [OF s1(2)] by auto
qed simp

lemma append_then_get:
  assumes "inv s" "append_op s x = Inr s'"
  shows "get_op s' (size_op s) = Inr x"
proof -
  have "inv s'" "abs s' = abs s @ [x]" using append_law [OF assms(1), of x] assms(2) by auto
  then show ?thesis
    using get_law [of s' "length (abs s)"] size_law [OF assms(1)] by simp
qed

lemma clear_all:
  assumes "inv s" "abs s \<noteq> []"
  shows "\<exists>s'. remove_op s 0 (size_op s) = Inr s' \<and> inv s' \<and> abs s' = []"
  using remove_law [OF assms(1), of 0 "length (abs s)"] assms size_law [OF assms(1)] by simp

end

locale stack =
  fixes inv :: "'s \<Rightarrow> bool"
    and abs :: "'s \<Rightarrow> 'a list"
    and push_op :: "'s \<Rightarrow> 'a \<Rightarrow> 's result"
    and pop_op :: "'s \<Rightarrow> ('a \<times> 's) result"
    and empty_value :: "'s \<Rightarrow> 'a"
  assumes push_law: "inv s \<Longrightarrow> \<exists>s'. push_op s x = Inr s' \<and> inv s' \<and> abs s' = x # abs s
        \<and> empty_value s' = empty_value s"
    and pop_law: "inv s \<Longrightarrow> \<exists>s'. pop_op s = Inr (case abs s of [] \<Rightarrow> empty_value s | x # _ \<Rightarrow> x, s')
        \<and> inv s' \<and> abs s' = tl (abs s) \<and> empty_value s' = empty_value s"
begin

lemma push_pop:
  assumes "inv s"
  shows "\<exists>s' s''. push_op s x = Inr s' \<and> pop_op s' = Inr (x, s'') \<and> inv s'' \<and> abs s'' = abs s"
  using push_law [OF assms, of x] pop_law by fastforce

end

locale fifo =
  fixes inv :: "'q \<Rightarrow> bool"
    and abs :: "'q \<Rightarrow> 'a list"
    and enq_op :: "'q \<Rightarrow> 'a \<Rightarrow> 'q result"
    and deq_op :: "'q \<Rightarrow> ('a \<times> 'q) result"
    and size_op :: "'q \<Rightarrow> nat"
    and get_op :: "'q \<Rightarrow> nat \<Rightarrow> 'a result"
    and empty_value :: "'q \<Rightarrow> 'a"
  assumes enq_law: "inv q \<Longrightarrow> \<exists>q'. enq_op q x = Inr q' \<and> inv q' \<and> abs q' = abs q @ [x]
        \<and> empty_value q' = empty_value q"
    and deq_law: "inv q \<Longrightarrow> \<exists>q'. deq_op q = Inr (case abs q of [] \<Rightarrow> empty_value q | x # _ \<Rightarrow> x, q')
        \<and> inv q' \<and> abs q' = tl (abs q) \<and> empty_value q' = empty_value q"
    and size_law: "inv q \<Longrightarrow> size_op q = length (abs q)"
    and get_law: "inv q \<Longrightarrow> i < length (abs q) \<Longrightarrow> get_op q i = Inr (abs q ! i)"
begin

primrec enq_all :: "'q \<Rightarrow> 'a list \<Rightarrow> 'q result" where
  "enq_all q [] = Inr q"
| "enq_all q (x # xs) = bind_result (enq_op q x) (\<lambda>q'. enq_all q' xs)"

primrec deq_many :: "'q \<Rightarrow> nat \<Rightarrow> ('a list \<times> 'q) result" where
  "deq_many q 0 = Inr ([], q)"
| "deq_many q (Suc n) =
     bind_result (deq_op q) (\<lambda>(x, q'). bind_result (deq_many q' n) (\<lambda>(xs, q''). Inr (x # xs, q'')))"

lemma enq_all_law:
  "inv q \<Longrightarrow> \<exists>q'. enq_all q xs = Inr q' \<and> inv q' \<and> abs q' = abs q @ xs"
proof (induction xs arbitrary: q)
  case (Cons x xs)
  obtain q1 where q1: "enq_op q x = Inr q1" "inv q1" "abs q1 = abs q @ [x]"
    using enq_law [OF Cons.prems] by blast
  then show ?case using Cons.IH [OF q1(2)] by auto
qed simp

lemma deq_many_law:
  "inv q \<Longrightarrow> n \<le> length (abs q) \<Longrightarrow>
     \<exists>q'. deq_many q n = Inr (take n (abs q), q') \<and> inv q' \<and> abs q' = drop n (abs q)"
proof (induction n arbitrary: q)
  case (Suc n)
  obtain x xs where x: "abs q = x # xs" using Suc.prems(2) by (cases "abs q") auto
  obtain q1 where q1: "deq_op q = Inr (x, q1)" "inv q1" "abs q1 = xs"
    using deq_law [OF Suc.prems(1)] x by auto
  then show ?case using Suc.IH [OF q1(2)] Suc.prems x by auto
qed simp

text \<open>What goes in comes out, in the order it went in.\<close>

lemma fifo_order:
  assumes "inv q"
  shows "\<exists>q' q''. enq_all q xs = Inr q'
     \<and> deq_many q' (length (abs q) + length xs) = Inr (abs q @ xs, q'') \<and> abs q'' = []"
  using enq_all_law [OF assms, of xs] deq_many_law by fastforce

end

section \<open>BaseArray\<close>

record 'a base_array =
  ba_arr :: "'a cells"
  ba_siz :: int
  ba_capacity :: int

definition ba_init :: "int \<Rightarrow> 'a base_array" where
  "ba_init capacity =
     \<lparr>ba_arr = replicate (nat capacity) None, ba_siz = 0, ba_capacity = capacity\<rparr>"

definition ba_resize :: "'a base_array \<Rightarrow> int \<Rightarrow> 'a base_array" where
  "ba_resize a requiredSize =
     (if requiredSize > ba_capacity a then
        (let newCapacity = ba_siz a + (ba_siz a sdiv 2);
             newCapacity = (if requiredSize > newCapacity then requiredSize else newCapacity)
         in a\<lparr>ba_capacity := newCapacity, ba_arr := cell_realloc (ba_arr a) (nat newCapacity)\<rparr>)
      else a)"

definition ba_append :: "'a base_array \<Rightarrow> 'a \<Rightarrow> 'a base_array result" where
  "ba_append a el =
     (let a = ba_resize a (ba_siz a + 1)
      in bind_result (cell_write (ba_arr a) (ba_siz a) el)
           (\<lambda>d. Inr (a\<lparr>ba_arr := d, ba_siz := ba_siz a + 1\<rparr>)))"

definition ba_set :: "'a base_array \<Rightarrow> 'a \<Rightarrow> int \<Rightarrow> 'a base_array result" where
  "ba_set a el index =
     bind_result (cell_write (ba_arr a) index el) (\<lambda>d. Inr (a\<lparr>ba_arr := d\<rparr>))"

definition ba_get :: "'a base_array \<Rightarrow> int \<Rightarrow> 'a result" where
  "ba_get a index = cell_read (ba_arr a) index"

definition ba_remove :: "'a base_array \<Rightarrow> int \<Rightarrow> int \<Rightarrow> 'a base_array result" where
  "ba_remove a index count =
     (if index < 0 \<or> index \<ge> ba_siz a then Inr a
      else
        (let max = index + count;
             max = (if max > ba_siz a then ba_siz a else max)
         in if max \<le> index then Inr a
            else
              (let move = ba_siz a - max
               in bind_result
                    (if move \<noteq> 0 then cell_move (ba_arr a) index (index + count) move
                     else Inr (ba_arr a))
                    (\<lambda>d. Inr (a\<lparr>ba_arr := d, ba_siz := ba_siz a - count\<rparr>)))))"

definition ba_removeUnordered :: "'a base_array \<Rightarrow> int \<Rightarrow> 'a base_array result" where
  "ba_removeUnordered a index =
     (if index < 0 \<or> index \<ge> ba_siz a then Inr a
      else
        (let siz = ba_siz a - 1
         in bind_result (cell_read (ba_arr a) siz)
              (\<lambda>x. bind_result (cell_write (ba_arr a) index x)
                (\<lambda>d. Inr (a\<lparr>ba_arr := d, ba_siz := siz\<rparr>)))))"

definition ba_insert :: "'a base_array \<Rightarrow> int \<Rightarrow> 'a \<Rightarrow> 'a base_array result" where
  "ba_insert a index el =
     (let a = ba_resize a (ba_siz a + 1)
      in bind_result (cell_move (ba_arr a) (index + 1) index (ba_siz a - index))
           (\<lambda>d. bind_result (cell_write d index el)
             (\<lambda>d. Inr (a\<lparr>ba_arr := d, ba_siz := ba_siz a + 1\<rparr>))))"

definition ba_size :: "'a base_array \<Rightarrow> int" where
  "ba_size a = ba_siz a"

definition ba_inv :: "'a base_array \<Rightarrow> bool" where
  "ba_inv a \<longleftrightarrow> 0 \<le> ba_siz a \<and> ba_siz a \<le> ba_capacity a
     \<and> length (ba_arr a) = nat (ba_capacity a) \<and> filled (take (nat (ba_siz a)) (ba_arr a))"

definition ba_list :: "'a base_array \<Rightarrow> 'a list" where
  "ba_list a = map the (take (nat (ba_siz a)) (ba_arr a))"

lemma ba_list_upd [simp]:
  "ba_list (a\<lparr>ba_arr := d, ba_siz := int k\<rparr>) = map the (take k d)"
  by (simp add: ba_list_def)

lemma ba_inv_upd:
  "ba_inv a \<Longrightarrow> length d = length (ba_arr a) \<Longrightarrow> int k \<le> ba_capacity a \<Longrightarrow> filled (take k d)
     \<Longrightarrow> ba_inv (a\<lparr>ba_arr := d, ba_siz := int k\<rparr>)"
  by (simp add: ba_inv_def)

lemma ba_inv_init: "0 \<le> n \<Longrightarrow> ba_inv (ba_init n) \<and> ba_list (ba_init n) = []"
  by (simp add: ba_inv_def ba_init_def ba_list_def)

lemma ba_inv_siz: "ba_inv a \<Longrightarrow> nat (ba_siz a) \<le> length (ba_arr a)"
  by (simp add: ba_inv_def nat_mono)

lemma length_ba_list: "ba_inv a \<Longrightarrow> length (ba_list a) = nat (ba_siz a)"
  using ba_inv_siz [of a] by (simp add: ba_list_def)

lemma ba_inv_size [simp]: "ba_inv a \<Longrightarrow> 0 \<le> ba_siz a"
  by (simp add: ba_inv_def)

lemma ba_resize_eq:
  "\<exists>c. ba_capacity a \<le> c \<and> n \<le> c
     \<and> ba_resize a n = a\<lparr>ba_capacity := c, ba_arr := cell_realloc (ba_arr a) (nat c)\<rparr>"
  if "ba_inv a"
proof (cases "n > ba_capacity a")
  case True
  then show ?thesis
    by (intro exI [of _ "max n (ba_siz a + (ba_siz a sdiv 2))"])
      (simp add: ba_resize_def Let_def max_def)
next
  case False
  have "cell_realloc (ba_arr a) (nat (ba_capacity a)) = ba_arr a"
    using that by (simp add: cell_realloc_def ba_inv_def)
  with False show ?thesis by (intro exI [of _ "ba_capacity a"]) (simp add: ba_resize_def)
qed

lemma ba_resize_props:
  assumes "ba_inv a"
  shows "ba_inv (ba_resize a n)" "ba_list (ba_resize a n) = ba_list a"
    "ba_siz (ba_resize a n) = ba_siz a" "n \<le> ba_capacity (ba_resize a n)"
proof -
  obtain c where c: "ba_capacity a \<le> c" "n \<le> c"
    "ba_resize a n = a\<lparr>ba_capacity := c, ba_arr := cell_realloc (ba_arr a) (nat c)\<rparr>"
    using ba_resize_eq [OF assms] by blast
  have t: "take (nat (ba_siz a)) (cell_realloc (ba_arr a) (nat c)) = take (nat (ba_siz a)) (ba_arr a)"
    using assms c(1) ba_inv_siz [OF assms] by (intro take_cell_realloc) (simp_all add: ba_inv_def nat_mono)
  show "ba_inv (ba_resize a n)" using assms c(1) t by (simp add: c(3) ba_inv_def)
  show "ba_list (ba_resize a n) = ba_list a" by (simp add: c(3) ba_list_def t)
  show "ba_siz (ba_resize a n) = ba_siz a" by (simp add: c(3))
  show "n \<le> ba_capacity (ba_resize a n)" using c(2) by (simp add: c(3))
qed

lemma ba_append_law:
  assumes "ba_inv a"
  shows "\<exists>a'. ba_append a x = Inr a' \<and> ba_inv a' \<and> ba_list a' = ba_list a @ [x]"
proof -
  let ?b = "ba_resize a (ba_siz a + 1)"
  note b = ba_resize_props [OF assms, of "ba_siz a + 1"]
  have len: "nat (ba_siz a) < length (ba_arr ?b)"
    using b assms by (simp add: ba_inv_def)
  then have w: "take (nat (ba_siz a + 1)) ((ba_arr ?b)[nat (ba_siz a) := Some x])
      = take (nat (ba_siz a)) (ba_arr ?b) @ [Some x]"
    using assms by (simp add: ba_inv_def nat_add_distrib take_Suc_conv_app_nth)
  show ?thesis
    using b assms len w
    by (simp add: ba_append_def cell_write_def Let_def ba_inv_def ba_list_def)
qed

lemma ba_get_law: "ba_inv a \<Longrightarrow> i < length (ba_list a) \<Longrightarrow> ba_get a (int i) = Inr (ba_list a ! i)"
  using filled_nth [of "take (nat (ba_siz a)) (ba_arr a)" i]
  by (auto simp: ba_get_def cell_read_def ba_list_def ba_inv_def split: option.splits)

lemma ba_set_law:
  "ba_inv a \<Longrightarrow> i < length (ba_list a) \<Longrightarrow>
     \<exists>a'. ba_set a x (int i) = Inr a' \<and> ba_inv a' \<and> ba_list a' = (ba_list a)[i := x]"
  by (auto simp: ba_set_def cell_write_def ba_list_def ba_inv_def take_update_swap map_update)

lemma ba_remove_law:
  assumes "ba_inv a" "i + n \<le> length (ba_list a)" "0 < n"
  shows "\<exists>a'. ba_remove a (int i) (int n) = Inr a' \<and> ba_inv a'
           \<and> ba_list a' = take i (ba_list a) @ drop (i + n) (ba_list a)"
proof -
  define s where "s = nat (ba_siz a)"
  have s: "ba_siz a = int s" "i + n \<le> s" "s \<le> length (ba_arr a)"
    using assms ba_inv_siz [OF assms(1)] by (simp_all add: s_def ba_inv_def length_ba_list)
  have f: "filled (take s (ba_arr a))" using assms(1) by (simp add: ba_inv_def s_def)
  have t: "take (s - n) (take i (ba_arr a) @ take (s - (i + n)) (drop (i + n) (ba_arr a))
       @ drop (i + (s - (i + n))) (ba_arr a))
     = take i (take s (ba_arr a)) @ drop (i + n) (take s (ba_arr a))"
  proof -
    let ?x = "take i (ba_arr a) @ take (s - (i + n)) (drop (i + n) (ba_arr a))"
    have "length ?x = s - n" using s by simp
    then have "take (s - n) (?x @ drop (i + (s - (i + n))) (ba_arr a)) = ?x"
      by (rule take_append_exact)
    moreover have "?x = take i (take s (ba_arr a)) @ drop (i + n) (take s (ba_arr a))"
      using s by (simp add: min_def drop_take)
    ultimately show ?thesis by (metis append_assoc)
  qed
  show ?thesis
  proof (cases "s = i + n")
    case True
    then have "ba_remove a (int i) (int n) = Inr (a\<lparr>ba_siz := int i\<rparr>)"
      using assms(3) s(1) by (simp add: ba_remove_def Let_def)
    moreover have "filled (take i (ba_arr a))" using filled_take_le [OF f] True by simp
    then have "ba_inv (a\<lparr>ba_siz := int i\<rparr>)"
      using assms(1) s True by (simp add: ba_inv_def)
    moreover have "ba_list (a\<lparr>ba_siz := int i\<rparr>) = take i (ba_list a) @ drop (i + n) (ba_list a)"
      using s True by (simp add: ba_list_def take_map nat_add_distrib min_def)
    ultimately show ?thesis by blast
  next
    case False
    let ?d = "take i (ba_arr a) @ take (s - (i + n)) (drop (i + n) (ba_arr a))
        @ drop (i + (s - (i + n))) (ba_arr a)"
    let ?a = "a\<lparr>ba_arr := ?d, ba_siz := int (s - n)\<rparr>"
    have "cell_move (ba_arr a) (int i) (int i + int n) (int s - (int i + int n)) = Inr ?d"
      using cell_move_nat [of i "s - (i + n)" "ba_arr a" "i + n"] s by (simp add: of_nat_diff)
    then have "ba_remove a (int i) (int n) = Inr ?a"
      using assms(3) s(1,2) False by (simp add: ba_remove_def Let_def of_nat_diff)
    moreover have "ba_inv ?a"
    proof (rule ba_inv_upd [OF assms(1)])
      show "filled (take (s - n) ?d)"
        unfolding t filled_simps using filled_take [OF f, of i] filled_drop [OF f, of "i + n"] by simp
      show "length ?d = length (ba_arr a)" using s(2,3) by simp
      have "int s \<le> ba_capacity a" using assms(1) s(1) by (simp add: ba_inv_def)
      moreover have "int (s - n) \<le> int s" by simp
      ultimately show "int (s - n) \<le> ba_capacity a" by (rule order.trans [rotated])
    qed
    moreover have "ba_list ?a = take i (ba_list a) @ drop (i + n) (ba_list a)"
    proof -
      have "ba_list a = map the (take s (ba_arr a))" by (simp only: ba_list_def s_def)
      then show ?thesis unfolding ba_list_upd t by (simp only: map_append take_map drop_map)
    qed
    ultimately show ?thesis by blast
  qed
qed

interpretation array: sequence ba_inv ba_list ba_append ba_get ba_set ba_remove ba_size
  by unfold_locales
    (simp_all add: length_ba_list ba_size_def ba_inv_size ba_append_law ba_get_law ba_set_law ba_remove_law)

lemma ba_remove_overshoot:
  assumes "ba_inv a" "0 \<le> i" "i < ba_siz a" "ba_siz a \<le> i + n"
  shows "ba_remove a i n = Inr (a\<lparr>ba_siz := ba_siz a - n\<rparr>)"
  using assms by (auto simp: ba_remove_def Let_def)

lemma ba_removeUnordered_law:
  assumes "ba_inv a" "i < length (ba_list a)"
  shows "\<exists>a'. ba_removeUnordered a (int i) = Inr a' \<and> ba_inv a'
     \<and> ba_list a' = butlast ((ba_list a)[i := last (ba_list a)])"
proof -
  define s where "s = nat (ba_siz a)"
  have s: "ba_siz a = int s" "i < s" "s \<le> length (ba_arr a)" "filled (take s (ba_arr a))"
    using assms ba_inv_siz [OF assms(1)] by (simp_all add: s_def ba_inv_def length_ba_list)
  have l: "ba_list a \<noteq> []" using assms(2) by auto
  obtain x where x: "ba_arr a ! (s - 1) = Some x" "x = last (ba_list a)"
    using filled_nth [OF s(4), of "s - 1"] s l
    by (simp add: last_conv_nth ba_list_def s_def [symmetric])
  have n: "nat (int s - 1) = s - 1" by simp
  have "ba_removeUnordered a (int i) = Inr (a\<lparr>ba_arr := (ba_arr a)[i := Some x], ba_siz := int s - 1\<rparr>)"
    using s x n by (simp add: ba_removeUnordered_def Let_def cell_read_def cell_write_def)
  moreover have "ba_inv (a\<lparr>ba_arr := (ba_arr a)[i := Some x], ba_siz := int s - 1\<rparr>)"
  proof -
    have "filled (take (s - 1) (take s (ba_arr a)))" using s(4) by (rule filled_take)
    then have "filled (take (s - 1) ((ba_arr a)[i := Some x]))"
      by (simp add: take_update_swap min_def split: if_splits)
    then show ?thesis using assms(1) s n by (simp add: ba_inv_def)
  qed
  moreover have "ba_list (a\<lparr>ba_arr := (ba_arr a)[i := Some x], ba_siz := int s - 1\<rparr>)
      = butlast ((ba_list a)[i := last (ba_list a)])"
    using s n x(2)
    by (simp add: ba_list_def s_def [symmetric] butlast_conv_take take_update_swap map_update
        take_map min_def)
  ultimately show ?thesis by blast
qed

lemma ba_insert_law:
  assumes "ba_inv a" "i \<le> length (ba_list a)"
  shows "\<exists>a'. ba_insert a (int i) x = Inr a' \<and> ba_inv a'
     \<and> ba_list a' = take i (ba_list a) @ x # drop i (ba_list a)"
proof -
  let ?b = "ba_resize a (ba_siz a + 1)"
  note b = ba_resize_props [OF assms(1), of "ba_siz a + 1"]
  define s where "s = nat (ba_siz a)"
  define d where "d = ba_arr ?b"
  have s: "ba_siz a = int s" "i \<le> s" "s < length d" "filled (take s d)" "ba_list a = map the (take s d)"
    "length d = nat (ba_capacity ?b)"
    using assms b by (auto simp: s_def d_def ba_inv_def length_ba_list ba_list_def)
  have n: "nat (int s - int i) = s - i" "nat (int s + 1) = Suc s" by simp_all
  let ?e = "(take (Suc i) d @ take (s - i) (drop i d) @ drop (Suc i + (s - i)) d)[i := Some x]"
  have d: "ba_arr (ba_resize a (int s + 1)) = d" using s(1) by (simp add: d_def)
  have mv: "cell_move d (int i + 1) (int i) (int s - int i)
      = Inr (take (Suc i) d @ take (s - i) (drop i d) @ drop (Suc i + (s - i)) d)"
    using cell_move_nat [of "Suc i" "s - i" d i] s by (simp add: of_nat_diff add.commute)
  have "length (take (Suc i) d @ take (s - i) (drop i d) @ drop (Suc i + (s - i)) d) = length d"
    using s by simp
  then have ins: "ba_insert a (int i) x = Inr (?b\<lparr>ba_arr := ?e, ba_siz := int s + 1\<rparr>)"
    unfolding ba_insert_def Let_def using s b(3) d mv by (simp only: s(1) bind_result_simps) simp
  have e: "take (Suc s) ?e = take i (take s d) @ Some x # drop i (take s d)"
  proof -
    have "i < length d" using s by simp
    then have "take (Suc i) d = take i d @ [d ! i]" by (rule take_Suc_conv_app_nth)
    moreover have "Suc i + (s - i) = Suc s" using s by simp
    ultimately have "?e = (take i d @ d ! i # take (s - i) (drop i d) @ drop (Suc s) d)[i := Some x]"
      by (simp only: append_assoc append.simps)
    also have "\<dots> = take i d @ Some x # take (s - i) (drop i d) @ drop (Suc s) d"
      by (rule list_update_middle) (use s in simp)
    finally have "?e = (take i d @ Some x # take (s - i) (drop i d)) @ drop (Suc s) d"
      by (simp only: append_assoc append.simps)
    moreover have "length (take i d @ Some x # take (s - i) (drop i d)) = Suc s" using s by simp
    ultimately have "take (Suc s) ?e = take i d @ Some x # take (s - i) (drop i d)"
      by (simp only: take_append_exact)
    moreover have "take i (take s d) = take i d" using s(2) by (simp add: min_absorb1)
    moreover have "drop i (take s d) = take (s - i) (drop i d)" by (rule drop_take)
    ultimately show ?thesis by (simp only:)
  qed
  have "filled (take i (take s d) @ Some x # drop i (take s d))"
    using filled_take [OF s(4), of i] filled_drop [OF s(4), of i] by (simp only: filled_simps) simp
  note fl = this
  define E where "E = ?e"
  have lenE: "length E = length d" unfolding E_def using s(2,3) by simp
  have tkE: "take (Suc s) E = take i (take s d) @ Some x # drop i (take s d)"
    unfolding E_def by (rule e)
  have E: "filled (take (Suc s) E)" "length E = nat (ba_capacity ?b)"
    "take (Suc s) E = take i (take s d) @ Some x # drop i (take s d)"
    using fl tkE lenE s(6) by (simp_all only:)
  have "ba_inv (?b\<lparr>ba_arr := E, ba_siz := int s + 1\<rparr>)"
    using E(1,2) s(1) n(2) b(1,4) by (simp add: ba_inv_def)
  moreover have "ba_list (?b\<lparr>ba_arr := E, ba_siz := int s + 1\<rparr>)
      = take i (ba_list a) @ x # drop i (ba_list a)"
    using E(3) s(5) n(2) by (simp add: ba_list_def take_map drop_map)
  moreover have "ba_insert a (int i) x = Inr (?b\<lparr>ba_arr := E, ba_siz := int s + 1\<rparr>)"
    using ins by (simp only: E_def)
  ultimately show ?thesis by blast
qed

end
