(* ===== verification/Queues.thy ===== *)
theory Queues
  imports Containers
begin

text \<open>
  The stack \<open>BaseStack\<close> (src/zmm/base_stack.h) and the ring buffer
  \<open>BaseQueue\<close> (src/zmm/base_queue.h), with the proof that they implement the
  interfaces \<open>stack\<close> and \<open>fifo\<close>. The capacity, the count and the two ring
  positions are never negative in the code, so they are natural numbers here.
\<close>

section \<open>BaseStack\<close>

record 'a base_stack =
  st_data :: "'a cells"
  st_emptyType :: 'a
  st_capacity :: nat
  st_count :: nat

definition bs_init :: "nat \<Rightarrow> 'a \<Rightarrow> 'a base_stack" where
  "bs_init initialCapacity emptyType =
     \<lparr>st_data = replicate initialCapacity None, st_emptyType = emptyType,
      st_capacity = initialCapacity, st_count = 0\<rparr>"

definition bs_size :: "'a base_stack \<Rightarrow> nat" where
  "bs_size s = st_count s"

definition bs_isEmpty :: "'a base_stack \<Rightarrow> bool" where
  "bs_isEmpty s = (st_count s = 0)"

definition bs_resize :: "'a base_stack \<Rightarrow> nat \<Rightarrow> 'a base_stack" where
  "bs_resize s requiredSize =
     (if requiredSize > st_capacity s then
        (let capacity = st_count s + (st_count s div 2);
             capacity = (if requiredSize > capacity then requiredSize else capacity)
         in s\<lparr>st_capacity := capacity, st_data := cell_realloc (st_data s) capacity\<rparr>)
      else s)"

definition bs_push :: "'a base_stack \<Rightarrow> 'a \<Rightarrow> 'a base_stack result" where
  "bs_push s element =
     (let s = (if st_count s = st_capacity s then bs_resize s (st_count s + 1) else s)
      in bind_result (cell_write (st_data s) (int (st_count s)) element)
           (\<lambda>d. Inr (s\<lparr>st_data := d, st_count := st_count s + 1\<rparr>)))"

definition bs_pop :: "'a base_stack \<Rightarrow> ('a \<times> 'a base_stack) result" where
  "bs_pop s =
     (if st_count s < 1 then Inr (st_emptyType s, s)
      else bind_result (cell_read (st_data s) (int (st_count s) - 1))
             (\<lambda>x. Inr (x, s\<lparr>st_count := st_count s - 1\<rparr>)))"

definition bs_inv :: "'a base_stack \<Rightarrow> bool" where
  "bs_inv s \<longleftrightarrow> st_count s \<le> st_capacity s \<and> length (st_data s) = st_capacity s
     \<and> filled (take (st_count s) (st_data s))"

definition bs_list :: "'a base_stack \<Rightarrow> 'a list" where
  \<comment> \<open>the top of the stack first\<close>
  "bs_list s = rev (map the (take (st_count s) (st_data s)))"

lemma bs_inv_init: "bs_inv (bs_init n e) \<and> bs_list (bs_init n e) = []"
  by (simp add: bs_inv_def bs_init_def bs_list_def)

lemma bs_push_law:
  assumes "bs_inv s"
  shows "\<exists>s'. bs_push s x = Inr s' \<and> bs_inv s' \<and> bs_list s' = x # bs_list s
     \<and> st_emptyType s' = st_emptyType s"
proof -
  define t where "t = (if st_count s = st_capacity s then bs_resize s (st_count s + 1) else s)"
  have t: "bs_inv t" "bs_list t = bs_list s" "st_count t = st_count s"
    "st_count t < length (st_data t)" "st_emptyType t = st_emptyType s"
    using assms by (auto simp: t_def bs_resize_def bs_inv_def bs_list_def Let_def)
  then have w: "take (Suc (st_count s)) ((st_data t)[st_count s := Some x])
      = take (st_count s) (st_data t) @ [Some x]"
    by (simp add: take_Suc_conv_app_nth)
  have "bs_push s x = Inr (t\<lparr>st_data := (st_data t)[st_count s := Some x], st_count := st_count s + 1\<rparr>)"
    using t by (simp add: bs_push_def t_def [symmetric])
  then show ?thesis using t w by (simp add: bs_inv_def bs_list_def)
qed

lemma bs_pop_law:
  assumes "bs_inv s"
  shows "\<exists>s'. bs_pop s = Inr (case bs_list s of [] \<Rightarrow> st_emptyType s | x # _ \<Rightarrow> x, s')
     \<and> bs_inv s' \<and> bs_list s' = tl (bs_list s) \<and> st_emptyType s' = st_emptyType s"
proof (cases "st_count s")
  case 0
  then show ?thesis using assms by (simp add: bs_pop_def bs_list_def)
next
  case (Suc n)
  have len: "n < length (st_data s)" using assms Suc by (simp add: bs_inv_def)
  then obtain x where x: "st_data s ! n = Some x"
    using assms Suc filled_nth [of "take (Suc n) (st_data s)" n] by (auto simp: bs_inv_def)
  have tk: "take (Suc n) (st_data s) = take n (st_data s) @ [Some x]"
    using len x by (simp add: take_Suc_conv_app_nth)
  show ?thesis
    using assms Suc len x tk
    by (simp add: bs_pop_def cell_read_def bs_inv_def bs_list_def)
qed

interpretation bstack: stack bs_inv bs_list bs_push bs_pop st_emptyType
  by unfold_locales (simp_all add: bs_push_law bs_pop_law)

section \<open>BaseQueue\<close>

record 'a base_queue =
  q_data :: "'a cells"
  q_emptyType :: 'a
  q_capacity :: nat
  q_begin :: nat
  q_end :: nat
  q_overlap :: bool

definition bq_init :: "nat \<Rightarrow> 'a \<Rightarrow> 'a base_queue" where
  "bq_init initialCapacity emptyType =
     \<lparr>q_data = replicate initialCapacity None, q_emptyType = emptyType,
      q_capacity = initialCapacity, q_begin = 0, q_end = 0, q_overlap = False\<rparr>"

definition bq_size :: "'a base_queue \<Rightarrow> nat" where
  "bq_size q =
     (if q_overlap q then q_capacity q
      else if q_begin q \<le> q_end q then q_end q - q_begin q
      else q_capacity q - q_begin q + q_end q)"

definition bq_isEmpty :: "'a base_queue \<Rightarrow> bool" where
  "bq_isEmpty q = (\<not> q_overlap q \<and> q_end q = q_begin q)"

definition bq_resize :: "'a base_queue \<Rightarrow> nat \<Rightarrow> 'a base_queue result" where
  "bq_resize q requiredSize =
     (if requiredSize > q_capacity q then
        (let count = bq_size q;
             oldCapacity = q_capacity q;
             capacity = count + (count div 2);
             capacity = (if requiredSize > capacity then requiredSize else capacity);
             data = cell_realloc (q_data q) capacity
         in if (q_overlap q \<and> q_end q \<noteq> 0) \<or> q_begin q > q_end q then
              (let moveAmount = oldCapacity - q_begin q;
                   newQueueBegin = capacity - moveAmount
               in bind_result (cell_move data (int newQueueBegin) (int (q_begin q)) (int moveAmount))
                    (\<lambda>data. Inr (q\<lparr>q_capacity := capacity, q_data := data,
                                  q_begin := newQueueBegin, q_overlap := False\<rparr>)))
            else if q_end q = 0 then
              Inr (q\<lparr>q_capacity := capacity, q_data := data, q_end := oldCapacity,
                     q_overlap := False\<rparr>)
            else Inr (q\<lparr>q_capacity := capacity, q_data := data, q_overlap := False\<rparr>))
      else Inr q)"

definition bq_enqueue :: "'a base_queue \<Rightarrow> 'a \<Rightarrow> 'a base_queue result" where
  "bq_enqueue q element =
     bind_result (if q_overlap q then bq_resize q (bq_size q + 1) else Inr q)
       (\<lambda>q. bind_result (cell_write (q_data q) (int (q_end q)) element)
         (\<lambda>d. let qe = (if q_end q + 1 = q_capacity q then 0 else q_end q + 1)
              in Inr (q\<lparr>q_data := d, q_end := qe,
                        q_overlap := (if qe = q_begin q then True else q_overlap q)\<rparr>)))"

definition bq_dequeue :: "'a base_queue \<Rightarrow> ('a \<times> 'a base_queue) result" where
  "bq_dequeue q =
     (if bq_isEmpty q then Inr (q_emptyType q, q)
      else bind_result (cell_read (q_data q) (int (q_begin q)))
             (\<lambda>ret. let qb = q_begin q + 1
                in Inr (ret, q\<lparr>q_begin := (if qb = q_capacity q then 0 else qb),
                               q_overlap := False\<rparr>)))"

definition bq_get :: "'a base_queue \<Rightarrow> nat \<Rightarrow> 'a result" where
  "bq_get q index = cell_read (q_data q) (int ((q_begin q + index) mod q_capacity q))"

subsection \<open>The ring invariant\<close>

definition ring :: "'a base_queue \<Rightarrow> nat \<Rightarrow> bool" where
  "ring q n \<longleftrightarrow> 0 < q_capacity q \<and> length (q_data q) = q_capacity q \<and> q_begin q < q_capacity q
     \<and> n \<le> q_capacity q \<and> q_end q = (q_begin q + n) mod q_capacity q
     \<and> (q_overlap q \<longleftrightarrow> n = q_capacity q)
     \<and> (\<forall>i < n. q_data q ! ((q_begin q + i) mod q_capacity q) \<noteq> None)"

definition bq_inv :: "'a base_queue \<Rightarrow> bool" where
  "bq_inv q \<longleftrightarrow> ring q (bq_size q)"

definition bq_nth :: "'a base_queue \<Rightarrow> nat \<Rightarrow> 'a" where
  "bq_nth q i = the (q_data q ! ((q_begin q + i) mod q_capacity q))"

definition bq_list :: "'a base_queue \<Rightarrow> 'a list" where
  "bq_list q = map (bq_nth q) [0..<bq_size q]"

lemma mod_ring:
  "b < c \<Longrightarrow> n \<le> c \<Longrightarrow> (b + n) mod c = (if b + n < c then b + n else b + n - (c::nat))"
  by (auto simp: le_mod_geq)

lemma ring_size: "ring q n \<Longrightarrow> bq_size q = n"
  by (auto simp: ring_def bq_size_def mod_ring split: if_splits)

lemma ring_list: "ring q n \<Longrightarrow> bq_list q = map (bq_nth q) [0..<n]"
  by (simp add: bq_list_def ring_size)

lemma ring_inv: "ring q n \<Longrightarrow> bq_inv q"
  by (simp add: bq_inv_def ring_size)

lemma bq_inv_init: "0 < c \<Longrightarrow> bq_inv (bq_init c e) \<and> bq_list (bq_init c e) = []"
  by (simp add: bq_inv_def bq_init_def bq_list_def ring_def bq_size_def)

lemma ring_enq:
  assumes r: "ring q n" and "\<not> q_overlap q"
  shows "\<exists>q'. bq_enqueue q x = Inr q' \<and> ring q' (Suc n) \<and> bq_list q' = bq_list q @ [x]
     \<and> q_emptyType q' = q_emptyType q"
proof -
  let ?c = "q_capacity q" and ?b = "q_begin q"
  let ?e = "(?b + n) mod ?c"
  let ?qe = "if ?e + 1 = ?c then 0 else ?e + 1"
  let ?q = "q\<lparr>q_data := (q_data q)[?e := Some x], q_end := ?qe,
              q_overlap := (if ?qe = ?b then True else q_overlap q)\<rparr>"
  have f: "0 < ?c" "length (q_data q) = ?c" "?b < ?c" "n < ?c" "q_end q = ?e"
    using assms by (auto simp: ring_def)
  have e: "?e < ?c" using f by simp
  have eq: "bq_enqueue q x = Inr ?q"
    using assms(2) f e by (simp add: bq_enqueue_def Let_def)
  have ne: "(?b + i) mod ?c \<noteq> ?e" if "i < n" for i
    using f that by (simp add: mod_ring) linarith
  have qe: "?qe = (?b + Suc n) mod ?c"
    using f mod_ring [of ?b ?c n] mod_ring [of ?b ?c "Suc n"] by auto
  have ov: "q_overlap ?q \<longleftrightarrow> Suc n = ?c"
    using assms(2) f by (auto simp: mod_ring)
  have data: "(q_data ?q) ! ((?b + i) mod ?c) =
      (if i = n then Some x else q_data q ! ((?b + i) mod ?c))" if "i < Suc n" for i
    using that ne [of i] f e by auto
  have "ring ?q (Suc n)"
    unfolding ring_def
  proof (intro conjI allI impI)
    show "q_data ?q ! ((q_begin ?q + i) mod q_capacity ?q) \<noteq> None" if "i < Suc n" for i
      using data [OF that] r that by (auto simp: ring_def less_Suc_eq)
    show "q_end ?q = (q_begin ?q + Suc n) mod q_capacity ?q" using qe by simp
    show "q_overlap ?q \<longleftrightarrow> Suc n = q_capacity ?q" using ov by simp
  qed (use f in auto)
  moreover have "bq_nth ?q i = (if i = n then x else bq_nth q i)" if "i < Suc n" for i
    using data [OF that] by (simp add: bq_nth_def)
  then have "map (bq_nth ?q) [0..<Suc n] = map (bq_nth q) [0..<n] @ [x]" by simp
  ultimately show ?thesis
    using eq ring_list [OF r] ring_list [of ?q "Suc n"] by (intro exI [of _ ?q]) simp
qed

lemma ring_grow:
  assumes r: "ring q n" and full: "q_overlap q"
  shows "\<exists>q'. bq_resize q (bq_size q + 1) = Inr q' \<and> ring q' n \<and> \<not> q_overlap q'
     \<and> bq_list q' = bq_list q \<and> q_emptyType q' = q_emptyType q"
proof -
  have f: "0 < n" "q_capacity q = n" "length (q_data q) = n" "q_begin q < n" "q_end q = q_begin q"
    "bq_size q = n"
    using r full by (auto simp: ring_def bq_size_def)
  have cells: "i < n \<Longrightarrow> q_data q ! ((q_begin q + i) mod n) \<noteq> None" for i
    using r f by (auto simp: ring_def)
  define c where "c = (if n + 1 > n + n div 2 then n + 1 else n + n div 2)"
  have c: "n < c" using f(1) by (auto simp: c_def)
  let ?d = "cell_realloc (q_data q) c"
  show ?thesis
  proof (cases "q_end q = 0")
    case True
    let ?q = "q\<lparr>q_capacity := c, q_data := ?d, q_end := n, q_overlap := False\<rparr>"
    have "bq_resize q (bq_size q + 1) = Inr ?q"
      using True f full by (simp add: bq_resize_def Let_def c_def)
    moreover have "ring ?q n"
      using f c True cells by (auto simp: ring_def cell_realloc_nth)
    moreover have "bq_nth ?q i = bq_nth q i" if "i < n" for i
      using that f True c by (simp add: bq_nth_def cell_realloc_nth)
    ultimately show ?thesis
      using ring_list [OF r] ring_list [of ?q n] by (intro exI [of _ ?q]) simp
  next
    case False
    let ?b = "q_begin q"
    let ?m = "n - ?b"
    let ?nb = "c - ?m"
    let ?e = "take ?nb ?d @ take ?m (drop ?b ?d)"
    let ?q = "q\<lparr>q_capacity := c, q_data := ?e, q_begin := ?nb, q_overlap := False\<rparr>"
    have mv: "cell_move ?d (int ?nb) (int ?b) (int ?m) = Inr ?e"
      using cell_move_nat [of ?nb ?m ?d ?b] f c by simp
    have cc: "(let capacity = n + n div 2 in if n + 1 > capacity then n + 1 else capacity) = c"
      by (simp add: c_def)
    have "bq_resize q (bq_size q + 1) = Inr ?q"
      unfolding bq_resize_def using False f full mv c
      by (simp only: f cc [unfolded Let_def] Let_def bind_result_simps) simp
    moreover have nth: "?e ! ((?nb + i) mod c) = q_data q ! ((?b + i) mod n)" if "i < n" for i
    proof (cases "i < ?m")
      case True
      then have bi: "?b + i < n" by simp
      then have "(?nb + i) mod c = ?nb + i" "(?b + i) mod n = ?b + i" using True c by auto
      moreover have "?d ! (?b + i) = q_data q ! (?b + i)"
        using bi f c by (simp add: cell_realloc_nth)
      moreover have "length (take ?nb ?d) = ?nb" by simp
      then have "?e ! (?nb + i) = take ?m (drop ?b ?d) ! i" by (metis nth_append_length_plus)
      moreover have "take ?m (drop ?b ?d) ! i = ?d ! (?b + i)" using True bi f(4) c by simp
      ultimately show ?thesis by (simp only:)
    next
      case no: False
      then have "(?nb + i) mod c = i - ?m" "(?b + i) mod n = i - ?m"
        using f c that by (simp_all add: le_mod_geq)
      moreover have "i - ?m < ?nb" "i - ?m < n" using f c that no by auto
      ultimately show ?thesis using f c by (simp add: nth_append cell_realloc_nth)
    qed
    moreover have "ring ?q n"
      unfolding ring_def
    proof (intro conjI allI impI)
      show "q_data ?q ! ((q_begin ?q + i) mod q_capacity ?q) \<noteq> None" if "i < n" for i
        using nth [OF that] cells [OF that] by simp
      show "q_end ?q = (q_begin ?q + n) mod q_capacity ?q"
        using f c by (simp add: le_mod_geq)
    qed (use f c in auto)
    moreover have "bq_nth ?q i = bq_nth q i" if "i < n" for i
      using nth [OF that] f by (simp add: bq_nth_def)
    ultimately show ?thesis
      using ring_list [OF r] ring_list [of ?q n] by (intro exI [of _ ?q]) simp
  qed
qed

lemma bq_enqueue_law:
  assumes "bq_inv q"
  shows "\<exists>q'. bq_enqueue q x = Inr q' \<and> bq_inv q' \<and> bq_list q' = bq_list q @ [x]
     \<and> q_emptyType q' = q_emptyType q"
proof -
  have r: "ring q (bq_size q)" using assms by (simp add: bq_inv_def)
  show ?thesis
  proof (cases "q_overlap q")
    case False
    obtain q' where "bq_enqueue q x = Inr q'" "ring q' (Suc (bq_size q))"
      "bq_list q' = bq_list q @ [x]" "q_emptyType q' = q_emptyType q"
      using ring_enq [OF r False, of x] by blast
    then show ?thesis using ring_inv by (intro exI [of _ q']) simp
  next
    case True
    obtain p where p: "bq_resize q (bq_size q + 1) = Inr p" "ring p (bq_size q)" "\<not> q_overlap p"
      "bq_list p = bq_list q" "q_emptyType p = q_emptyType q"
      using ring_grow [OF r True] by blast
    obtain q' where "bq_enqueue p x = Inr q'" "ring q' (Suc (bq_size q))"
      "bq_list q' = bq_list p @ [x]" "q_emptyType q' = q_emptyType p"
      using ring_enq [OF p(2,3), of x] by blast
    moreover have "bq_enqueue q x = bq_enqueue p x"
      using True p(1,3) unfolding bq_enqueue_def by (simp only: if_True if_False bind_result_simps)
    ultimately show ?thesis using p(4,5) ring_inv by (intro exI [of _ q']) simp
  qed
qed

lemma bq_dequeue_law:
  assumes "bq_inv q"
  shows "\<exists>q'. bq_dequeue q = Inr (case bq_list q of [] \<Rightarrow> q_emptyType q | x # _ \<Rightarrow> x, q')
     \<and> bq_inv q' \<and> bq_list q' = tl (bq_list q) \<and> q_emptyType q' = q_emptyType q"
proof -
  define n where "n = bq_size q"
  have r: "ring q n" using assms by (simp add: bq_inv_def n_def)
  have f: "0 < q_capacity q" "q_begin q < q_capacity q" "n \<le> q_capacity q"
    using r by (auto simp: ring_def)
  have em: "bq_isEmpty q \<longleftrightarrow> n = 0"
    using r f by (auto simp: bq_isEmpty_def ring_def mod_ring split: if_splits)
  show ?thesis
  proof (cases n)
    case 0
    then show ?thesis using em assms ring_list [OF r] by (simp add: bq_dequeue_def)
  next
    case (Suc m)
    let ?nb = "if q_begin q + 1 = q_capacity q then 0 else q_begin q + 1"
    let ?q = "q\<lparr>q_begin := ?nb, q_overlap := False\<rparr>"
    obtain x where x: "q_data q ! q_begin q = Some x" "bq_nth q 0 = x"
      using r Suc f by (force simp: ring_def bq_nth_def)
    have sh: "(?nb + i) mod q_capacity q = (q_begin q + Suc i) mod q_capacity q" if "i < n" for i
      using f that mod_ring [of "q_begin q" "q_capacity q" "Suc i"] mod_ring [of ?nb "q_capacity q" i]
      by auto
    have "bq_dequeue q = Inr (x, ?q)"
      using Suc em r x f by (simp add: bq_dequeue_def cell_read_def ring_def Let_def)
    moreover have "ring ?q m"
      unfolding ring_def
    proof (intro conjI allI impI)
      show "q_data ?q ! ((q_begin ?q + i) mod q_capacity ?q) \<noteq> None" if "i < m" for i
      proof -
        have "q_data q ! ((q_begin q + Suc i) mod q_capacity q) \<noteq> None"
        proof -
          have "Suc i < n" using Suc that by simp
          then show ?thesis using r unfolding ring_def by blast
        qed
        then show ?thesis using sh [of i] Suc that by simp
      qed
      show "q_end ?q = (q_begin ?q + m) mod q_capacity ?q"
        using sh [of m] r Suc by (simp add: ring_def)
    qed (use r f Suc in \<open>auto simp: ring_def\<close>)
    moreover have "bq_nth ?q i = bq_nth q (Suc i)" if "i < m" for i
      using sh [of i] Suc that by (simp add: bq_nth_def)
    then have "bq_list ?q = map (\<lambda>i. bq_nth q (Suc i)) [0..<m]"
      using ring_list [OF \<open>ring ?q m\<close>] by simp
    moreover have "bq_list q = x # map (\<lambda>i. bq_nth q (Suc i)) [0..<m]"
      using ring_list [OF r] Suc x(2) map_upt_Suc by metis
    moreover have "q_emptyType ?q = q_emptyType q" by simp
    moreover have "bq_inv ?q" using \<open>ring ?q m\<close> by (rule ring_inv)
    ultimately show ?thesis by (intro exI [of _ ?q]) (simp only: list.case list.sel base_queue.simps simp_thms)
  qed
qed

lemma bq_get_law:
  assumes "bq_inv q" "i < length (bq_list q)"
  shows "bq_get q i = Inr (bq_list q ! i)"
proof -
  have r: "ring q (bq_size q)" "i < bq_size q" using assms by (simp_all add: bq_inv_def bq_list_def)
  then have "q_data q ! ((q_begin q + i) mod q_capacity q) \<noteq> None" by (simp add: ring_def)
  then show ?thesis
    using r by (auto simp: bq_get_def cell_read_def bq_list_def bq_nth_def ring_def)
qed

interpretation bqueue: fifo bq_inv bq_list bq_enqueue bq_dequeue bq_size bq_get q_emptyType
  by unfold_locales
    (simp_all add: bq_enqueue_law bq_dequeue_law bq_get_law, simp add: bq_list_def)

text \<open>
  Growing an empty ring whose end is at 0 by a direct call of \<open>resize\<close>, which
  the class offers publicly, makes the unwritten cells part of the queue.
\<close>

lemma bq_resize_empty:
  assumes "0 < c" "c < n"
  shows "\<exists>q'. bq_resize (bq_init c e) n = Inr q' \<and> bq_size q' = c"
  using assms by (simp add: bq_resize_def bq_init_def bq_size_def Let_def)

end
