(* ===== verification/ZBuffer.thy ===== *)
theory ZBuffer
  imports Queues
begin

text \<open>
  \<open>zmm::StringBuffer\<close> (src/zmm/stringbuffer.cc) and \<open>zmm::StringTokenizer\<close>
  (src/zmm/stringtokenizer.cc). The buffer is a block of \<open>capacity + 1\<close> cells
  with the length kept apart; the invariant \<open>sb_inv\<close> says that the written part
  is a zero-terminated string inside the block, and the abstraction \<open>sb_string\<close> is
  that string. The interface \<open>text_buffer\<close> is what the rest of the program uses:
  writing never leaves the block and appends exactly the bytes written. This is why
  the other theories model text that is assembled in a \<open>StringBuffer\<close> by
  appending lists.
\<close>

section \<open>Interface\<close>

locale text_buffer =
  fixes inv :: "'b \<Rightarrow> bool"
    and abs :: "'b \<Rightarrow> string"
    and put :: "'b \<Rightarrow> string \<Rightarrow> 'b result"
    and put_char :: "'b \<Rightarrow> char \<Rightarrow> 'b result"
  assumes put_law: "inv b \<Longrightarrow> nul_free s \<Longrightarrow> \<exists>b'. put b s = Inr b' \<and> inv b' \<and> abs b' = abs b @ s"
    and put_char_law: "inv b \<Longrightarrow> \<exists>b'. put_char b c = Inr b' \<and> inv b' \<and> abs b' = abs b @ [c]"
begin

primrec put_all :: "'b \<Rightarrow> string list \<Rightarrow> 'b result" where
  "put_all b [] = Inr b"
| "put_all b (s # ss) = bind_result (put b s) (\<lambda>b'. put_all b' ss)"

fun put_joined :: "'b \<Rightarrow> char \<Rightarrow> string list \<Rightarrow> 'b result" where
  "put_joined b c [] = Inr b"
| "put_joined b c [s] = put b s"
| "put_joined b c (s # t # ss) =
     bind_result (put b s) (\<lambda>b'. bind_result (put_char b' c) (\<lambda>b'. put_joined b' c (t # ss)))"

lemma put_all_law:
  "inv b \<Longrightarrow> (\<forall>s \<in> set ss. nul_free s) \<Longrightarrow>
     \<exists>b'. put_all b ss = Inr b' \<and> inv b' \<and> abs b' = abs b @ concat ss"
proof (induction ss arbitrary: b)
  case (Cons s ss)
  obtain b1 where b1: "put b s = Inr b1" "inv b1" "abs b1 = abs b @ s"
    using put_law [of b s] Cons.prems by auto
  then show ?case using Cons.IH [OF b1(2)] Cons.prems(2) by auto
qed simp

lemma put_joined_law:
  "inv b \<Longrightarrow> (\<forall>s \<in> set ss. nul_free s) \<Longrightarrow>
     \<exists>b'. put_joined b c ss = Inr b' \<and> inv b' \<and> abs b' = abs b @ join c ss"
proof (induction b c ss rule: put_joined.induct)
  case (2 b c s)
  then show ?case using put_law [of b s] by auto
next
  case (3 b c s t ss)
  obtain b1 where b1: "put b s = Inr b1" "inv b1" "abs b1 = abs b @ s"
    using put_law [of b s] "3.prems" by auto
  obtain b2 where b2: "put_char b1 c = Inr b2" "inv b2" "abs b2 = abs b1 @ [c]"
    using put_char_law [OF b1(2)] by blast
  then show ?case using "3.IH" [OF b1(1) b2(1,2)] "3.prems"(2) b1 b2 by auto
qed simp

end

section \<open>StringBuffer\<close>

record string_buffer =
  sb_data :: "char cells"
  sb_capacity :: int
  sb_len :: int

definition cells_write :: "'a cells \<Rightarrow> int \<Rightarrow> 'a list \<Rightarrow> 'a cells result" where
  "cells_write d i xs =
     (if 0 \<le> i \<and> i + int (length xs) \<le> int (length d)
      then Inr (take (nat i) d @ map Some xs @ drop (nat i + length xs) d)
      else Inl Abort)"

definition sb_init :: "int \<Rightarrow> string_buffer" where
  "sb_init capacity =
     \<lparr>sb_data = (replicate (nat (capacity + 1)) None)[0 := Some NUL],
      sb_capacity = capacity, sb_len = 0\<rparr>"

definition sb_ensureCapacity :: "string_buffer \<Rightarrow> int \<Rightarrow> string_buffer" where
  "sb_ensureCapacity b neededCapacity =
     (if neededCapacity > sb_capacity b then
        (let newCapacity = sb_capacity b * 5 div 4;
             newCapacity = (if neededCapacity > newCapacity then neededCapacity else newCapacity)
         in b\<lparr>sb_capacity := newCapacity, sb_data := cell_realloc (sb_data b) (nat (newCapacity + 1))\<rparr>)
      else b)"

definition sb_addCapacity :: "string_buffer \<Rightarrow> int \<Rightarrow> string_buffer" where
  "sb_addCapacity b increment = sb_ensureCapacity b (sb_len b + increment)"

definition sb_put :: "string_buffer \<Rightarrow> string \<Rightarrow> string_buffer result" where
  \<comment> \<open>\<open>operator<<(const char *)\<close> for a string that is not null\<close>
  "sb_put b str =
     (let otherLen = int (length (cstr str))
      in if otherLen \<noteq> 0 then
           (let b = sb_addCapacity b otherLen
            in bind_result (cells_write (sb_data b) (sb_len b) (cstr str @ [NUL]))
                 (\<lambda>d. Inr (b\<lparr>sb_data := d, sb_len := sb_len b + otherLen\<rparr>)))
         else Inr b)"

definition sb_put_String :: "string_buffer \<Rightarrow> zstring \<Rightarrow> string_buffer result" where
  "sb_put_String b other =
     (let otherLen = z_length other
      in if otherLen > 0 then
           (let b = sb_addCapacity b otherLen
            in bind_result (cells_write (sb_data b) (sb_len b) (cstr (the other) @ [NUL]))
                 (\<lambda>d. Inr (b\<lparr>sb_data := d, sb_len := sb_len b + otherLen\<rparr>)))
         else Inr b)"

definition sb_put_char :: "string_buffer \<Rightarrow> char \<Rightarrow> string_buffer result" where
  "sb_put_char b chr =
     (let b = sb_addCapacity b 1
      in bind_result (cell_write (sb_data b) (sb_len b) chr)
           (\<lambda>d. bind_result (cell_write d (sb_len b + 1) NUL)
             (\<lambda>d. Inr (b\<lparr>sb_data := d, sb_len := sb_len b + 1\<rparr>))))"

definition sb_put_int :: "string_buffer \<Rightarrow> int \<Rightarrow> string_buffer result" where
  "sb_put_int b x =
     (let b = sb_addCapacity b 12
      in bind_result (cells_write (sb_data b) (sb_len b) (show_int x @ [NUL]))
           (\<lambda>d. Inr (b\<lparr>sb_data := d, sb_len := sb_len b + int (length (show_int x))\<rparr>)))"

definition sb_setLength :: "string_buffer \<Rightarrow> int \<Rightarrow> string_buffer result" where
  "sb_setLength b newLength =
     (let b = (if newLength > sb_len b then sb_ensureCapacity b newLength else b)
      in bind_result (cell_write (sb_data b) newLength NUL)
           (\<lambda>d. Inr (b\<lparr>sb_data := d, sb_len := newLength\<rparr>)))"

definition cells_string :: "char cells \<Rightarrow> int \<Rightarrow> int \<Rightarrow> string result" where
  \<comment> \<open>\<open>n\<close> bytes from offset \<open>i\<close>, all of which must have been written\<close>
  "cells_string d i n =
     (let c = take (nat n) (drop (nat i) d)
      in if 0 \<le> i \<and> 0 \<le> n \<and> i + n \<le> int (length d) \<and> list_all (\<lambda>x. x \<noteq> None) c
         then Inr (map the c) else Inl Abort)"

definition sb_toString :: "string_buffer \<Rightarrow> string result" where
  "sb_toString b = cells_string (sb_data b) 0 (sb_len b)"

definition sb_toString_from :: "string_buffer \<Rightarrow> int \<Rightarrow> string result" where
  "sb_toString_from b offset =
     (if offset > sb_len b \<or> offset < 0 then Inl (Throw ''illegal offset'')
      else cells_string (sb_data b) offset (sb_len b - offset))"

definition sb_concat_str :: "string_buffer \<Rightarrow> zstring \<Rightarrow> int \<Rightarrow> string_buffer result" where
  "sb_concat_str b str n =
     (if str \<noteq> None \<and> n \<noteq> 0 then
        (let b = sb_addCapacity b n
         in if n < 0 then Inl Abort
            else bind_result (cells_write (sb_data b) (sb_len b) (strncpy (nat n) (the str)))
             (\<lambda>d. bind_result (cell_write d (sb_len b + n) NUL)
               (\<lambda>d. Inr (b\<lparr>sb_data := d, sb_len := sb_len b + n\<rparr>))))
      else Inr b)"

definition sb_concat :: "string_buffer \<Rightarrow> string_buffer \<Rightarrow> int \<Rightarrow> string_buffer result" where
  "sb_concat b other offset =
     (let otherLen = sb_len other
      in if otherLen > 0 then
           (if offset \<ge> otherLen then Inl (Throw ''illegal offset'')
            else bind_result (cells_string (sb_data other) offset (otherLen - offset))
              (\<lambda>src. let b = sb_addCapacity b (otherLen - offset)
                 in bind_result (cells_write (sb_data b) (sb_len b) (cstr src @ [NUL]))
                      (\<lambda>d. Inr (b\<lparr>sb_data := d, sb_len := sb_len b + (otherLen - offset)\<rparr>))))
         else Inr b)"

definition sb_setCharAt :: "string_buffer \<Rightarrow> int \<Rightarrow> char \<Rightarrow> string_buffer result" where
  "sb_setCharAt b index c =
     (if index > sb_len b \<or> index < 0 then Inl (Throw ''illegal index'')
      else bind_result (cell_write (sb_data b) index c) (\<lambda>d. Inr (b\<lparr>sb_data := d\<rparr>)))"

definition sb_clear :: "string_buffer \<Rightarrow> string_buffer result" where
  "sb_clear b =
     bind_result (cell_write (sb_data b) 0 NUL) (\<lambda>d. Inr (b\<lparr>sb_data := d, sb_len := 0\<rparr>))"

subsection \<open>Invariant and abstraction\<close>

definition sb_inv :: "string_buffer \<Rightarrow> bool" where
  "sb_inv b \<longleftrightarrow> 0 \<le> sb_len b \<and> sb_len b \<le> sb_capacity b
     \<and> length (sb_data b) = nat (sb_capacity b + 1)
     \<and> filled (take (nat (sb_len b)) (sb_data b))
     \<and> sb_data b ! nat (sb_len b) = Some NUL"

definition sb_string :: "string_buffer \<Rightarrow> string" where
  "sb_string b = map the (take (nat (sb_len b)) (sb_data b))"

lemma sb_inv_init: "0 \<le> n \<Longrightarrow> sb_inv (sb_init n) \<and> sb_string (sb_init n) = []"
  by (simp add: sb_inv_def sb_init_def sb_string_def nat_add_distrib)

lemma sb_addCapacity_props:
  assumes "sb_inv b" "0 \<le> n"
  shows "\<exists>k d. sb_addCapacity b n = b\<lparr>sb_capacity := k, sb_data := d\<rparr>
     \<and> length d = nat (k + 1) \<and> sb_len b + n \<le> k
     \<and> take (nat (sb_len b)) d = take (nat (sb_len b)) (sb_data b)"
proof (cases "sb_len b + n > sb_capacity b")
  case True
  define k where "k = (if sb_len b + n > sb_capacity b * 5 div 4 then sb_len b + n
                       else sb_capacity b * 5 div 4)"
  have k: "sb_capacity b \<le> k" "sb_len b + n \<le> k" using True by (auto simp: k_def)
  have "take (nat (sb_len b)) (cell_realloc (sb_data b) (nat (k + 1))) = take (nat (sb_len b)) (sb_data b)"
    by (rule take_cell_realloc) (use assms(1) k(1) in \<open>simp_all add: sb_inv_def nat_mono\<close>)
  moreover have "sb_addCapacity b n
      = b\<lparr>sb_capacity := k, sb_data := cell_realloc (sb_data b) (nat (k + 1))\<rparr>"
    using True by (simp add: sb_addCapacity_def sb_ensureCapacity_def Let_def k_def)
  ultimately show ?thesis
    using k(2)
    by (intro exI [of _ k] exI [of _ "cell_realloc (sb_data b) (nat (k + 1))"]) simp
next
  case False
  then show ?thesis
    using assms(1) by (intro exI [of _ "sb_capacity b"] exI [of _ "sb_data b"])
      (simp add: sb_addCapacity_def sb_ensureCapacity_def sb_inv_def)
qed

text \<open>Every write of text followed by the terminator ends in this shape.\<close>

lemma sb_written:
  assumes "sb_inv b" "length d = nat (k + 1)" "sb_len b + int (length s) \<le> k"
    "take (nat (sb_len b)) d = take (nat (sb_len b)) (sb_data b)"
  shows "\<exists>d'. cells_write d (sb_len b) (s @ [NUL]) = Inr d'
     \<and> sb_inv (b\<lparr>sb_capacity := k, sb_data := d', sb_len := sb_len b + int (length s)\<rparr>)
     \<and> sb_string (b\<lparr>sb_capacity := k, sb_data := d', sb_len := sb_len b + int (length s)\<rparr>)
       = sb_string b @ s"
proof -
  define l where "l = nat (sb_len b)"
  define d' where "d' = take l d @ map Some (s @ [NUL]) @ drop (l + length s + 1) d"
  have l: "sb_len b = int l" "l + length s + 1 \<le> length d"
    using assms(1-3) by (auto simp: l_def sb_inv_def)
  have tk: "length (take l d) = l" using l(2) by simp
  have "d' = (take l d @ map Some s) @ Some NUL # drop (l + length s + 1) d"
    by (simp add: d'_def)
  moreover have "length (take l d @ map Some s) = l + length s" using tk by simp
  ultimately have t: "take (l + length s) d' = take l d @ map Some s" "d' ! (l + length s) = Some NUL"
    by (metis take_append_exact, metis nth_append_length)
  have "filled (take l (sb_data b))" using assms(1) by (simp add: sb_inv_def l_def)
  then have f: "filled (take l d @ map Some s)" using assms(4) by (simp add: l_def)
  have len: "length d' = length d" using l(2) by (simp add: d'_def)
  have nl: "nat (sb_len b + int (length s)) = l + length s" using l(1) by simp
  have "cells_write d (sb_len b) (s @ [NUL]) = Inr d'"
    using l by (simp add: cells_write_def d'_def)
  moreover have "sb_inv (b\<lparr>sb_capacity := k, sb_data := d', sb_len := sb_len b + int (length s)\<rparr>)"
    using f t len l(1) assms(2,3) nl by (simp add: sb_inv_def)
  moreover have "sb_string (b\<lparr>sb_capacity := k, sb_data := d', sb_len := sb_len b + int (length s)\<rparr>)
      = map the (take l d @ map Some s)"
    using t(1) nl by (simp add: sb_string_def)
  moreover have "map the (take l d) = sb_string b"
    using assms(4) by (simp only: sb_string_def l_def)
  ultimately show ?thesis by (simp add: comp_def)
qed

lemma sb_put_law:
  assumes "sb_inv b" "nul_free s"
  shows "\<exists>b'. sb_put b s = Inr b' \<and> sb_inv b' \<and> sb_string b' = sb_string b @ s"
proof (cases "s = []")
  case False
  obtain k d where kd: "sb_addCapacity b (int (length s)) = b\<lparr>sb_capacity := k, sb_data := d\<rparr>"
    "length d = nat (k + 1)" "sb_len b + int (length s) \<le> k"
    "take (nat (sb_len b)) d = take (nat (sb_len b)) (sb_data b)"
    using sb_addCapacity_props [OF assms(1), of "int (length s)"] by auto
  then show ?thesis
    using sb_written [OF assms(1) kd(2-4)] False assms(2) by (auto simp: sb_put_def Let_def)
qed (use assms in \<open>simp add: sb_put_def\<close>)

lemma sb_put_String_eq: "nul_free s \<Longrightarrow> sb_put_String b (Some s) = sb_put b s"
  by (simp add: sb_put_String_def sb_put_def z_length_def Let_def)

lemma cells_write_two:
  assumes "i + 1 < int (length d)" "0 \<le> i"
  shows "bind_result (cell_write d i x) (\<lambda>d. cell_write d (i + 1) y) = cells_write d i [x, y]"
proof -
  define j where "j = nat i"
  have j: "i = int j" "Suc j < length d" using assms by (auto simp: j_def)
  then have d: "d = take j d @ d ! j # d ! Suc j # drop (Suc (Suc j)) d"
    by (simp add: Cons_nth_drop_Suc)
  have "length (take j d) = j" "length (take j d @ [Some x]) = Suc j" using j(2) by simp_all
  note u = list_update_middle [OF this(1)] list_update_middle [OF this(2)]
  have "d[j := Some x] = (take j d @ [Some x]) @ d ! Suc j # drop (Suc (Suc j)) d"
    using arg_cong [OF d, of "\<lambda>d. d[j := Some x]"] by (simp only: u append_assoc append.simps)
  then have "d[j := Some x, Suc j := Some y] = take j d @ Some x # Some y # drop (Suc (Suc j)) d"
    by (simp only: u) simp
  then show ?thesis
    using j by (simp add: cell_write_def cells_write_def nat_add_distrib)
qed

lemma sb_put_char_law:
  assumes "sb_inv b"
  shows "\<exists>b'. sb_put_char b c = Inr b' \<and> sb_inv b' \<and> sb_string b' = sb_string b @ [c]"
proof -
  obtain k d where kd: "sb_addCapacity b 1 = b\<lparr>sb_capacity := k, sb_data := d\<rparr>"
    "length d = nat (k + 1)" "sb_len b + int (length [c]) \<le> k"
    "take (nat (sb_len b)) d = take (nat (sb_len b)) (sb_data b)"
    using sb_addCapacity_props [OF assms, of 1] by auto
  note w = sb_written [OF assms kd(2-4)]
  have l: "0 \<le> sb_len b" "sb_len b + 1 < int (length d)" using assms kd(2,3) by (auto simp: sb_inv_def)
  have "sb_put_char b c = bind_result (bind_result (cell_write d (sb_len b) c) (\<lambda>d. cell_write d (sb_len b + 1) NUL))
      (\<lambda>d. Inr (b\<lparr>sb_capacity := k, sb_data := d, sb_len := sb_len b + 1\<rparr>))"
    using kd(1) by (cases "cell_write d (sb_len b) c") (simp_all add: sb_put_char_def Let_def)
  then show ?thesis
    using w unfolding cells_write_two [OF l(2) l(1)] by auto
qed

interpretation sbuf: text_buffer sb_inv sb_string sb_put sb_put_char
  by unfold_locales (simp_all add: sb_put_law sb_put_char_law)

lemma length_show_int32:
  assumes "- (2 ^ 31) \<le> i" "i < 2 ^ 31"
  shows "length (show_int i) \<le> 11"
proof -
  have "length (show_nat (nat (if i < 0 then - i else i))) \<le> 10"
    by (rule length_show_nat_le) (use assms in auto)
  then show ?thesis by (simp add: show_int_def split: if_splits)
qed

lemma sb_put_int_law:
  assumes "sb_inv b" "- (2 ^ 31) \<le> i" "i < 2 ^ 31"
  shows "\<exists>b'. sb_put_int b i = Inr b' \<and> sb_inv b' \<and> sb_string b' = sb_string b @ show_int i"
proof -
  obtain k d where kd: "sb_addCapacity b 12 = b\<lparr>sb_capacity := k, sb_data := d\<rparr>"
    "length d = nat (k + 1)" "sb_len b + 12 \<le> k"
    "take (nat (sb_len b)) d = take (nat (sb_len b)) (sb_data b)"
    using sb_addCapacity_props [OF assms(1), of 12] by auto
  have "sb_len b + int (length (show_int i)) \<le> k"
    using kd(3) length_show_int32 [OF assms(2,3)] by linarith
  from sb_written [OF assms(1) kd(2) this kd(4)] kd(1) show ?thesis
    by (auto simp: sb_put_int_def Let_def)
qed

lemma sb_toString_law: "sb_inv b \<Longrightarrow> sb_toString b = Inr (sb_string b)"
  by (auto simp: sb_toString_def cells_string_def sb_inv_def sb_string_def filled_def list_all_iff)

lemma sb_toString_from_law:
  assumes "sb_inv b" "0 \<le> i" "i \<le> sb_len b"
  shows "sb_toString_from b i = Inr (drop (nat i) (sb_string b))"
proof -
  have "take (nat (sb_len b - i)) (drop (nat i) (sb_data b)) = drop (nat i) (take (nat (sb_len b)) (sb_data b))"
    using assms by (simp add: drop_take nat_diff_distrib)
  moreover have "filled (drop (nat i) (take (nat (sb_len b)) (sb_data b)))"
    using assms(1) by (intro filled_drop) (simp add: sb_inv_def)
  ultimately show ?thesis
    using assms by (simp add: sb_toString_from_def cells_string_def sb_inv_def sb_string_def
        filled_def list_all_iff drop_map)
qed

lemma sb_clear_law: "sb_inv b \<Longrightarrow> \<exists>b'. sb_clear b = Inr b' \<and> sb_inv b' \<and> sb_string b' = []"
  by (auto simp: sb_clear_def cell_write_def sb_inv_def sb_string_def)

text \<open>
  \<open>setCharAt\<close> accepts the index of the terminator: the invariant is lost.
\<close>

lemma sb_setCharAt_terminator:
  assumes "sb_inv b" "c \<noteq> NUL"
  shows "\<exists>b'. sb_setCharAt b (sb_len b) c = Inr b' \<and> \<not> sb_inv b'"
  using assms by (auto simp: sb_setCharAt_def cell_write_def sb_inv_def)

section \<open>StringTokenizer\<close>

record tokenizer =
  tk_str :: string
  tk_pos :: nat
  tk_len :: nat

definition tk_init :: "string \<Rightarrow> tokenizer" where
  "tk_init str = \<lparr>tk_str = str, tk_pos = 0, tk_len = length str\<rparr>"

definition is_sep :: "string \<Rightarrow> char \<Rightarrow> bool" where
  \<comment> \<open>\<open>strchr(cseps, c) != nullptr\<close>\<close>
  "is_sep seps c \<longleftrightarrow> strchr seps c \<noteq> None"

definition tk_nextToken :: "tokenizer \<Rightarrow> string \<Rightarrow> zstring \<times> tokenizer" where
  "tk_nextToken t seps =
     (let rest = take (tk_len t - tk_pos t) (drop (tk_pos t) (tk_str t));
          pos = tk_pos t + length (takeWhile (is_sep seps) rest);
          rest = dropWhile (is_sep seps) rest
      in if pos < tk_len t then
           (let start = pos;
                pos = pos + length (takeWhile (\<lambda>c. \<not> is_sep seps c) rest)
            in (Some (take (pos - start) (drop start (tk_str t))), t\<lparr>tk_pos := pos\<rparr>))
         else (None, t\<lparr>tk_pos := pos\<rparr>))"

fun tk_all :: "nat \<Rightarrow> tokenizer \<Rightarrow> string \<Rightarrow> string list" where
  \<comment> \<open>the tokens that repeated calls of \<open>nextToken\<close> return, up to the given number\<close>
  "tk_all 0 t seps = []"
| "tk_all (Suc n) t seps =
     (case tk_nextToken t seps of (None, _) \<Rightarrow> [] | (Some s, t') \<Rightarrow> s # tk_all n t' seps)"

end
