(* ===== verification/Codec.thy ===== *)
theory Codec
  imports ZString
begin

text \<open>
  The text encodings of src/tools.cc: hexadecimal (\<open>hex_encode\<close>,
  \<open>hex_decode_string\<close>), percent-encoding (\<open>url_escape\<close>, \<open>url_unescape\<close>),
  the hash \<open>stringHash\<close> and the list of MIME types of the connection manager.
  The interface \<open>codec\<close> is what the callers rely on: decoding undoes encoding;
  it is interpreted on both pairs of functions.
\<close>

unbundle bit_operations_syntax

locale codec =
  fixes enc :: "'a \<Rightarrow> 'b" and dec :: "'b \<Rightarrow> 'a"
  assumes dec_enc: "dec (enc x) = x"
begin

lemma enc_inject: "enc x = enc y \<longleftrightarrow> x = y"
  by (metis dec_enc)

lemma map_dec_enc: "map dec (map enc xs) = xs"
  by (simp add: dec_enc comp_def)

end

section \<open>Tables\<close>

definition HEX_CHARS :: string where
  "HEX_CHARS = ''0123456789abcdef''"

definition hex_upper :: string where
  "hex_upper = ''0123456789ABCDEF''"

definition hex_pos :: "string \<Rightarrow> char \<Rightarrow> nat" where
  \<comment> \<open>offset of a character in a table, 0 when \<open>strchr\<close> does not find it\<close>
  "hex_pos table c = (case strchr table c of None \<Rightarrow> 0 | Some i \<Rightarrow> i)"

lemma hex_pos_table:
  "n < 16 \<Longrightarrow> hex_pos HEX_CHARS (HEX_CHARS ! n) = n"
  "n < 16 \<Longrightarrow> hex_pos hex_upper (hex_upper ! n) = n"
proof -
  have "\<forall>n \<in> set [0..<16]. hex_pos HEX_CHARS (HEX_CHARS ! n) = n
      \<and> hex_pos hex_upper (hex_upper ! n) = n"
    by code_simp
  then show "n < 16 \<Longrightarrow> hex_pos HEX_CHARS (HEX_CHARS ! n) = n"
    "n < 16 \<Longrightarrow> hex_pos hex_upper (hex_upper ! n) = n" by simp_all
qed

lemma nibbles_or: "push_bit 4 (n div 16) OR n mod 16 = (n :: nat)"
proof -
  have "push_bit 4 (drop_bit 4 n) OR take_bit 4 n = n"
    by (rule bit_eqI) (auto simp: bit_simps)
  then show ?thesis by (simp add: drop_bit_eq_div take_bit_eq_mod)
qed

section \<open>Hexadecimal\<close>

definition hex_encode :: "string \<Rightarrow> string" where
  "hex_encode data =
     concat (map (\<lambda>c. let n = of_char c :: nat
                      in [HEX_CHARS ! drop_bit 4 n, HEX_CHARS ! (n AND 15)]) data)"

fun hex_decode_loop :: "string \<Rightarrow> string" where
  "hex_decode_loop (x # y # r) =
     char_of (push_bit 4 (hex_pos HEX_CHARS x) OR hex_pos HEX_CHARS y) # hex_decode_loop r"
| "hex_decode_loop [x] =
     [char_of (push_bit 4 (hex_pos HEX_CHARS x) OR hex_pos HEX_CHARS NUL)]"
| "hex_decode_loop [] = []"

definition hex_decode_string :: "zstring \<Rightarrow> zstring" where
  "hex_decode_string encoded =
     Some (case encoded of None \<Rightarrow> '''' | Some s \<Rightarrow> hex_decode_loop s)"

lemma of_char_less_256 [simp]: "(of_char (c :: char) :: nat) < 256"
proof -
  have "(of_char (char_of (of_char c :: nat) :: char) :: nat) < 256"
    unfolding of_char_of by simp
  then show ?thesis by simp
qed

lemma nat_and_15: "(n :: nat) AND 15 = n mod 16"
  using take_bit_eq_mask [of 4 n] by (simp add: take_bit_eq_mod mask_eq_exp_minus_1)

lemma hex_decode_encode: "hex_decode_loop (hex_encode s) = s"
proof (induction s)
  case (Cons c s)
  have "(of_char c :: nat) div 16 < 16"
    using of_char_less_256 [of c] by (simp add: less_mult_imp_div_less)
  then show ?case
    using Cons nibbles_or [of "of_char c"]
    by (simp add: hex_encode_def Let_def drop_bit_eq_div nat_and_15 hex_pos_table)
qed (simp add: hex_encode_def)

interpretation hex: codec hex_encode hex_decode_loop
  by unfold_locales (rule hex_decode_encode)

lemma length_hex_encode: "length (hex_encode s) = 2 * length s"
  by (induction s) (simp_all add: hex_encode_def Let_def)

section \<open>Percent-encoding\<close>

definition url_safe :: "char \<Rightarrow> bool" where
  "url_safe ch =
     (let c = of_char ch :: nat
      in (48 \<le> c \<and> c \<le> 57) \<or> (65 \<le> c \<and> c \<le> 90) \<or> (97 \<le> c \<and> c \<le> 122)
         \<or> ch = CHR ''_'' \<or> ch = CHR ''-'')"

definition url_escape_char :: "char \<Rightarrow> string" where
  "url_escape_char ch =
     (if url_safe ch then [ch]
      else (let c = of_char ch :: nat
            in [CHR ''%'', hex_upper ! drop_bit 4 c, hex_upper ! (c AND 15)]))"

definition url_escape :: "zstring \<Rightarrow> string" where
  "url_escape str =
     (case str of None \<Rightarrow> '''' | Some s \<Rightarrow> concat (map url_escape_char s))"

fun url_unescape_loop :: "string \<Rightarrow> string" where
  "url_unescape_loop [] = []"
| "url_unescape_loop (c # r) =
     (if c = CHR ''%'' then
        (case r of
           chi # clo # r' \<Rightarrow>
             char_of (push_bit 4 (hex_pos hex_upper chi) OR hex_pos hex_upper clo)
             # url_unescape_loop r'
         | _ \<Rightarrow> [])
      else if c = CHR ''+'' then CHR '' '' # url_unescape_loop r
      else c # url_unescape_loop r)"

definition url_unescape :: "zstring \<Rightarrow> string" where
  "url_unescape str = (case str of None \<Rightarrow> '''' | Some s \<Rightarrow> url_unescape_loop s)"

lemma url_unescape_char:
  "url_unescape_loop (url_escape_char c @ r) = c # url_unescape_loop r"
proof (cases "url_safe c")
  case True
  then have "c \<noteq> CHR ''%''" "c \<noteq> CHR ''+''" by (auto simp: url_safe_def)
  with True show ?thesis by (simp add: url_escape_char_def)
next
  case False
  have "(of_char c :: nat) div 16 < 16"
    using of_char_less_256 [of c] by (simp add: less_mult_imp_div_less)
  then show ?thesis
    using False nibbles_or [of "of_char c"]
    by (simp add: url_escape_char_def Let_def drop_bit_eq_div nat_and_15 hex_pos_table)
qed

lemma url_unescape_escape: "url_unescape (Some (url_escape (Some s))) = s"
  by (induction s) (simp_all add: url_unescape_def url_escape_def url_unescape_char)

interpretation url: codec "\<lambda>s. url_escape (Some s)" "\<lambda>s. url_unescape (Some s)"
  by unfold_locales (rule url_unescape_escape)

definition url_char :: "char \<Rightarrow> bool" where
  \<comment> \<open>the characters that escaped text consists of\<close>
  "url_char c \<longleftrightarrow> url_safe c \<or> c = CHR ''%''"

lemma hex_upper_safe: "n < 16 \<Longrightarrow> url_safe (hex_upper ! n)"
proof -
  have "\<forall>n \<in> set [0..<16]. url_safe (hex_upper ! n)" by code_simp
  then show "n < 16 \<Longrightarrow> url_safe (hex_upper ! n)" by simp
qed

lemma url_escape_chars: "c \<in> set (url_escape str) \<Longrightarrow> url_char c"
proof -
  have "c \<in> set (url_escape_char x) \<Longrightarrow> url_char c" for c x
  proof -
    have "(of_char x :: nat) div 16 < 16"
      using of_char_less_256 [of x] by (simp add: less_mult_imp_div_less)
    then show "c \<in> set (url_escape_char x) \<Longrightarrow> url_char c"
      by (auto simp: url_escape_char_def url_char_def Let_def drop_bit_eq_div nat_and_15
          hex_upper_safe split: if_splits)
  qed
  then show "c \<in> set (url_escape str) \<Longrightarrow> url_char c"
    by (auto simp: url_escape_def split: option.splits)
qed

lemma url_char_simps [simp]:
  "\<not> url_char NUL" "\<not> url_char (CHR ''&'')" "\<not> url_char (CHR ''='')" "\<not> url_char (CHR ''/'')"
  "\<not> url_char (CHR ''~'')"
  by (simp_all add: url_char_def url_safe_def)

lemma url_escape_notin:
  "\<not> url_char c \<Longrightarrow> c \<notin> set (url_escape str)"
  using url_escape_chars by blast

lemma nul_free_url_escape [simp]: "nul_free (url_escape str)"
  by (simp add: nul_free_def url_escape_notin)

lemma url_escape_Nil: "url_escape (Some s) = [] \<longleftrightarrow> s = []"
  using url_unescape_escape [of s] by (auto simp: url_unescape_def) (simp add: url_escape_def)

section \<open>Hash and MIME type list\<close>

fun stringHash_loop :: "32 word \<Rightarrow> string \<Rightarrow> 32 word" where
  "stringHash_loop hash [] = hash"
| "stringHash_loop hash (c # r) =
     (if c = NUL then hash
      else stringHash_loop ((push_bit 5 hash + hash) XOR of_nat (of_char c)) r)"

definition stringHash :: "string \<Rightarrow> 32 word" where
  "stringHash str = stringHash_loop 5381 str"

definition mime_types_to_CSV :: "string list \<Rightarrow> string" where
  "mime_types_to_CSV mimeTypes =
     join (CHR '','') (map (\<lambda>m. ''http-get:*:'' @ m @ '':*'') mimeTypes)"

end
