(* ===== verification/Dictionary.thy ===== *)
theory Dictionary
  imports Codec Containers
begin

text \<open>
  The string dictionary of src/dictionary.cc: an array of key/value elements
  that is searched from the front, with the two textual forms
  \<open>k=v&k=v\<close> (\<open>encode\<close>, \<open>decode\<close>) and \<open>k/v/k/v\<close> (\<open>encodeSimple\<close>,
  \<open>decodeSimple\<close>). Keys are compared by \<open>String::operator==\<close>, which sees the
  bytes before the first zero byte; the interface \<open>keyed_store\<close> states what
  \<open>put\<close>, \<open>get\<close> and \<open>remove\<close> promise up to that comparison.
\<close>

type_synonym dictionary = "(zstring \<times> zstring) list"

section \<open>Interface\<close>

locale keyed_store =
  fixes inv :: "'d \<Rightarrow> bool"
    and same :: "'k \<Rightarrow> 'k \<Rightarrow> bool"
    and get_op :: "'d \<Rightarrow> 'k \<Rightarrow> 'v option"
    and put_op :: "'d \<Rightarrow> 'k \<Rightarrow> 'v option \<Rightarrow> 'd"
    and remove_op :: "'d \<Rightarrow> 'k \<Rightarrow> 'd"
  assumes put_law: "inv d \<Longrightarrow> inv (put_op d k v)
      \<and> get_op (put_op d k v) k' = (if same k k' then v else get_op d k')"
    and remove_law: "inv d \<Longrightarrow> inv (remove_op d k)
      \<and> get_op (remove_op d k) k' = (if same k k' then None else get_op d k')"
begin

lemma put_all_law:
  assumes "inv d"
  shows "inv (foldl (\<lambda>d (k, v). put_op d k v) d xs)
    \<and> get_op (foldl (\<lambda>d (k, v). put_op d k v) d xs) k'
      = (case List.find (\<lambda>(k, v). same k k') (rev xs) of
           None \<Rightarrow> get_op d k' | Some (k, v) \<Rightarrow> v)"
proof (induction xs rule: rev_induct)
  case (snoc x xs)
  then show ?case
    by (cases x) (simp add: put_law split: option.splits)
qed (simp add: assms)

lemma put_put: "inv d \<Longrightarrow> same k k \<Longrightarrow> get_op (put_op (put_op d k v) k w) k = w"
  by (simp add: put_law)

lemma remove_put: "inv d \<Longrightarrow> same k k \<Longrightarrow> get_op (remove_op (put_op d k v) k) k = None"
  by (simp add: put_law remove_law)

end

section \<open>Operations\<close>

fun d_put :: "dictionary \<Rightarrow> zstring \<Rightarrow> zstring \<Rightarrow> dictionary" where
  "d_put [] key value = [(key, value)]"
| "d_put ((k, v) # els) key value =
     (if z_eq k key then (k, value) # els else (k, v) # d_put els key value)"

fun d_get :: "dictionary \<Rightarrow> zstring \<Rightarrow> zstring" where
  "d_get [] key = None"
| "d_get ((k, v) # els) key = (if z_eq k key then v else d_get els key)"

definition d_size :: "dictionary \<Rightarrow> nat" where
  "d_size d = length d"

fun d_remove :: "dictionary \<Rightarrow> zstring \<Rightarrow> dictionary" where
  "d_remove [] key = []"
| "d_remove ((k, v) # els) key =
     (if z_eq k key then els else (k, v) # d_remove els key)"

fun d_encode_loop :: "char \<Rightarrow> char \<Rightarrow> bool \<Rightarrow> dictionary \<Rightarrow> string" where
  "d_encode_loop sep1 sep2 first [] = ''''"
| "d_encode_loop sep1 sep2 first ((k, v) # els) =
     (if first then '''' else [sep1]) @ url_escape k @ [sep2] @ url_escape v
     @ d_encode_loop sep1 sep2 False els"

definition d_encode_sep :: "dictionary \<Rightarrow> char \<Rightarrow> char \<Rightarrow> zstring" where
  "d_encode_sep d sep1 sep2 = Some (d_encode_loop sep1 sep2 True d)"

definition d_encode :: "dictionary \<Rightarrow> zstring" where
  "d_encode d = d_encode_sep d (CHR ''&'') (CHR ''='')"

definition d_encodeSimple :: "dictionary \<Rightarrow> zstring" where
  "d_encodeSimple d = d_encode_sep d (CHR ''/'') (CHR ''/'')"

text \<open>\<open>decode\<close>: the argument is what is left of the text from \<open>data\<close> on.\<close>

function d_decode_loop :: "dictionary \<Rightarrow> string \<Rightarrow> dictionary" where
  "d_decode_loop d [] = d"
| "d_decode_loop d (c # r) =
     (let data = c # r;
          ampPos = (case strchr data (CHR ''&'') of None \<Rightarrow> length data | Some i \<Rightarrow> i);
          d = (case strchr data (CHR ''='') of
                 None \<Rightarrow> d
               | Some eqPos \<Rightarrow>
                   if eqPos < ampPos then
                     (let key = take eqPos data;
                          value = take (ampPos - eqPos - 1) (drop (eqPos + 1) data)
                      in d_put d (Some (url_unescape (Some key)))
                                 (Some (url_unescape (Some value))))
                   else d)
      in d_decode_loop d (drop (ampPos + 1) data))"
  by pat_completeness auto
termination by (relation "measure (length \<circ> snd)") auto

definition d_decode :: "dictionary \<Rightarrow> zstring \<Rightarrow> dictionary" where
  "d_decode d url = (case url of None \<Rightarrow> d | Some s \<Rightarrow> d_decode_loop d s)"

function d_decodeSimple_loop :: "dictionary \<Rightarrow> zstring \<Rightarrow> int \<Rightarrow> dictionary result" where
  "d_decodeSimple_loop d url last_pos =
     (let pos = z_index url last_pos (CHR ''/'')
      in if pos < last_pos + 1 then Inr d
         else bind_result (z_substring url last_pos (pos - last_pos)) (\<lambda>k.
           (let last_pos1 = pos + 1;
                pos1 = z_index url last_pos1 (CHR ''/'');
                pos1 = (if pos1 = -1 then z_length url else pos1)
            in if pos1 < last_pos1 + 1 then Inr d
               else bind_result (z_substring url last_pos1 (pos1 - last_pos1)) (\<lambda>v.
                 (let last_pos2 = pos1 + 1;
                      d' = d_put d (Some (url_unescape k)) (Some (url_unescape v))
                  in if last_pos2 < z_length url then d_decodeSimple_loop d' url last_pos2
                     else Inr d')))))"
  by pat_completeness auto
termination
proof (relation "measure (\<lambda>(d, url, last_pos). nat (z_length url - last_pos))", goal_cases)
  case (2 d url last_pos pos k last_pos1 pos1 pos1' v last_pos2 d')
  then show ?case by simp
qed simp

definition d_decodeSimple :: "dictionary \<Rightarrow> zstring \<Rightarrow> dictionary result" where
  "d_decodeSimple d url = d_decodeSimple_loop d url 0"

definition d_clear :: "dictionary \<Rightarrow> dictionary" where
  "d_clear d = drop (d_size d) d"

definition d_clone :: "dictionary \<Rightarrow> dictionary" where
  "d_clone d = foldl (\<lambda>ret (k, v). d_put ret k v) [] d"

definition d_merge :: "dictionary \<Rightarrow> dictionary option \<Rightarrow> dictionary" where
  "d_merge d other =
     (case other of None \<Rightarrow> d | Some els \<Rightarrow> foldl (\<lambda>d (k, v). d_put d k v) d els)"

definition d_isSubsetOf :: "dictionary \<Rightarrow> dictionary \<Rightarrow> bool" where
  "d_isSubsetOf d other = list_all (\<lambda>(k, v). z_eq v (d_get other k)) d"

definition d_equals :: "dictionary \<Rightarrow> dictionary \<Rightarrow> bool" where
  "d_equals d other = (d_isSubsetOf d other \<and> d_isSubsetOf other d)"

section \<open>The invariant and the laws\<close>

definition z_key :: "zstring \<Rightarrow> zstring" where
  "z_key z = map_option cstr z"

lemma z_eq_key: "z_eq a b \<longleftrightarrow> z_key a = z_key b"
  by (auto simp: z_eq_def z_key_def split: option.splits)

definition d_inv :: "dictionary \<Rightarrow> bool" where
  \<comment> \<open>no two elements have equal keys\<close>
  "d_inv d \<longleftrightarrow> distinct (map (z_key \<circ> fst) d)"

lemma d_put_keys:
  "z_key ` fst ` set (d_put d k v) = insert (z_key k) (z_key ` fst ` set d)"
  by (induction d k v rule: d_put.induct) (auto simp: z_eq_key)

lemma d_put_inv: "d_inv d \<Longrightarrow> d_inv (d_put d k v)"
proof (induction d k v rule: d_put.induct)
  case (2 k v els key val)
  then show ?case
    using d_put_keys [of els key val]
    by (auto simp: d_inv_def z_eq_key image_image) (auto simp: image_iff)
qed (simp add: d_inv_def)

lemma d_get_put: "d_get (d_put d k v) k' = (if z_eq k k' then v else d_get d k')"
  by (induction d k v rule: d_put.induct) (auto simp: z_eq_key)

lemma d_get_absent: "z_key k \<notin> z_key ` fst ` set d \<Longrightarrow> d_get d k = None"
  by (induction d k rule: d_get.induct) (auto simp: z_eq_key)

lemma d_remove_subset: "set (d_remove d k) \<subseteq> set d"
  by (induction d k rule: d_remove.induct) auto

lemma d_remove_inv: "d_inv d \<Longrightarrow> d_inv (d_remove d k)"
proof (induction d k rule: d_remove.induct)
  case (2 k v els key)
  then show ?case
    using d_remove_subset [of els key] by (auto simp: d_inv_def)
qed (simp add: d_inv_def)

lemma d_get_remove:
  "d_inv d \<Longrightarrow> d_get (d_remove d k) k' = (if z_eq k k' then None else d_get d k')"
proof (induction d k rule: d_remove.induct)
  case (2 k v els key)
  then show ?case
    using d_get_absent [of k' els]
    by (auto simp: d_inv_def z_eq_key image_image)
qed simp

interpretation dict: keyed_store d_inv z_eq d_get d_put d_remove
  by unfold_locales (simp_all add: d_put_inv d_get_put d_remove_inv d_get_remove)

lemma d_put_absent:
  "z_key k \<notin> z_key ` fst ` set d \<Longrightarrow> d_put d k v = d @ [(k, v)]"
  by (induction d k v rule: d_put.induct) (auto simp: z_eq_key)

lemma put_all_fresh:
  "d_inv (d @ xs) \<Longrightarrow> foldl (\<lambda>d (k, v). d_put d k v) d xs = d @ xs"
proof (induction xs arbitrary: d)
  case (Cons x xs)
  obtain k v where x: "x = (k, v)" by (cases x)
  have "z_key k \<notin> z_key ` fst ` set d"
    using Cons.prems x by (auto simp: d_inv_def image_comp [symmetric])
  then show ?case using Cons x by (simp add: d_put_absent)
qed simp

lemma d_clone_id: "d_inv d \<Longrightarrow> d_clone d = d"
  using put_all_fresh [of "[]" d] by (simp add: d_clone_def)

lemma d_get_merge:
  assumes "d_inv d"
  shows "d_inv (d_merge d (Some e)) \<and> d_get (d_merge d (Some e)) k =
    (case List.find (\<lambda>(k', v). z_eq k' k) (rev e) of
       None \<Rightarrow> d_get d k | Some (k', v) \<Rightarrow> v)"
  using dict.put_all_law [OF assms, of e k] by (simp add: d_merge_def)

lemma d_get_in: "d_inv d \<Longrightarrow> (k, v) \<in> set d \<Longrightarrow> d_get d k = v"
  by (induction d k rule: d_get.induct) (force simp: d_inv_def z_eq_key)+

lemma d_isSubsetOf_iff:
  assumes "d_inv d" "d_inv e"
  shows "d_isSubsetOf d e \<longleftrightarrow> (\<forall>k. d_get d k \<noteq> None \<longrightarrow> z_eq (d_get d k) (d_get e k))
    \<and> (\<forall>(k, v) \<in> set d. v = None \<longrightarrow> d_get e k = None)"
    (is "?L \<longleftrightarrow> ?A \<and> ?B")
proof
  assume L: ?L
  have get_cong: "d_get x k = d_get x k'" if "z_eq k k'" for x k k'
    using that by (induction x k rule: d_get.induct) (auto simp: z_eq_key)
  have "z_eq (d_get d k) (d_get e k)" if "d_get d k \<noteq> None" for k
  proof -
    have "\<exists>k'. (k', d_get d k) \<in> set d \<and> z_eq k' k"
      using that by (induction d k rule: d_get.induct) (auto split: if_splits)
    then show ?thesis using L get_cong by (auto simp: d_isSubsetOf_def list_all_iff)
  qed
  moreover have ?B using L by (auto simp: d_isSubsetOf_def list_all_iff)
  ultimately show "?A \<and> ?B" by blast
next
  assume R: "?A \<and> ?B"
  show ?L unfolding d_isSubsetOf_def list_all_iff
  proof safe
    fix k v assume kv: "(k, v) \<in> set d"
    then have "d_get d k = v" using d_get_in assms(1) by blast
    then show "z_eq v (d_get e k)" using R kv by (cases v) auto
  qed
qed

lemma d_equals_iff:
  assumes "d_inv d" "d_inv e" "\<forall>(k, v) \<in> set (d @ e). v \<noteq> None"
  shows "d_equals d e \<longleftrightarrow> (\<forall>k. z_eq (d_get d k) (d_get e k))"
proof -
  have "d_equals d e \<longleftrightarrow> (\<forall>k. d_get d k \<noteq> None \<longrightarrow> z_eq (d_get d k) (d_get e k))
      \<and> (\<forall>k. d_get e k \<noteq> None \<longrightarrow> z_eq (d_get e k) (d_get d k))"
    using assms(3) by (auto simp: d_equals_def d_isSubsetOf_iff assms(1,2))
  also have "\<dots> \<longleftrightarrow> (\<forall>k. z_eq (d_get d k) (d_get e k))"
    by (metis z_eq_None(1) z_eq_sym)
  finally show ?thesis .
qed

section \<open>Round trips of the two textual forms\<close>

lemma d_encode_loop_False:
  "d_encode_loop s1 s2 False d
   = (if d = [] then [] else s1 # d_encode_loop s1 s2 True d)"
  by (cases d) auto

lemma nul_free_encode_loop:
  "s1 \<noteq> NUL \<Longrightarrow> s2 \<noteq> NUL \<Longrightarrow> nul_free (d_encode_loop s1 s2 b d)"
  by (induction s1 s2 b d rule: d_encode_loop.induct) auto

definition d_plain :: "dictionary \<Rightarrow> bool" where
  \<comment> \<open>no key and no value is the null string\<close>
  "d_plain d \<longleftrightarrow> (\<forall>(k, v) \<in> set d. k \<noteq> None \<and> v \<noteq> None)"

lemma decode_one:
  assumes "rest = [] \<or> rest = CHR ''&'' # r"
  shows "d_decode_loop d (url_escape (Some k) @ CHR ''='' # url_escape (Some v) @ rest)
    = d_decode_loop (d_put d (Some k) (Some v)) (drop 1 rest)"
proof -
  let ?K = "url_escape (Some k)" and ?V = "url_escape (Some v)"
  let ?data = "?K @ CHR ''='' # ?V @ rest"
  obtain c t where ct: "?data = c # t" by (cases ?K) auto
  have eq: "strchr ?data (CHR ''='') = Some (length ?K)"
    by (rule strchr_split) (simp_all add: url_escape_notin)
  have amp: "(case strchr ?data (CHR ''&'') of None \<Rightarrow> length ?data | Some i \<Rightarrow> i)
      = length ?K + 1 + length ?V"
  proof (cases "rest = []")
    case True
    have "strchr ?data (CHR ''&'') = None"
      unfolding True by (rule strchr_notin) (simp_all add: url_escape_notin)
    then show ?thesis using True by simp
  next
    case False
    have "strchr ((?K @ CHR ''='' # ?V) @ CHR ''&'' # r) (CHR ''&'') = Some (length (?K @ CHR ''='' # ?V))"
      by (rule strchr_split) (simp_all add: url_escape_notin)
    then show ?thesis using False assms by simp
  qed
  have "drop (length ?K + 1 + length ?V + 1) ?data = drop 1 rest" by simp
  then show ?thesis
    unfolding ct d_decode_loop.simps(2) Let_def unfolding ct [symmetric] amp eq
    by (simp add: url_unescape_escape)
qed

lemma decode_encode_loop:
  "d_plain xs \<Longrightarrow> d_decode_loop d (d_encode_loop (CHR ''&'') (CHR ''='') True xs)
     = foldl (\<lambda>d (k, v). d_put d k v) d xs"
proof (induction xs arbitrary: d)
  case (Cons x xs)
  obtain k v where x: "x = (Some k, Some v)"
    using Cons.prems by (cases x) (auto simp: d_plain_def)
  let ?rest = "d_encode_loop (CHR ''&'') (CHR ''='') False xs"
  have rest: "?rest = [] \<or> ?rest = CHR ''&'' # d_encode_loop (CHR ''&'') (CHR ''='') True xs"
    by (simp add: d_encode_loop_False)
  have "drop 1 ?rest = d_encode_loop (CHR ''&'') (CHR ''='') True xs"
    by (simp add: d_encode_loop_False)
  then show ?case
    using Cons decode_one [OF rest, of d k v] by (simp add: x d_plain_def)
qed simp

lemma d_decode_encode:
  assumes "d_inv d" "d_plain d"
  shows "d_decode [] (d_encode d) = d"
  using decode_encode_loop [OF assms(2), of "[]"] put_all_fresh [of "[]" d] assms(1)
  by (simp add: d_decode_def d_encode_def d_encode_sep_def)

declare d_decodeSimple_loop.simps [simp del]

lemma decodeSimple_one:
  assumes "nul_free pre" "K \<noteq> []" "V \<noteq> []" "nul_free K" "nul_free V" "nul_free rest"
    and "CHR ''/'' \<notin> set K" "CHR ''/'' \<notin> set V" "rest = [] \<or> hd rest = CHR ''/''"
  shows "d_decodeSimple_loop d (Some (pre @ K @ CHR ''/'' # V @ rest)) (int (length pre))
    = (let d' = d_put d (Some (url_unescape (Some K))) (Some (url_unescape (Some V)))
       in if length rest > 1
          then d_decodeSimple_loop d' (Some (pre @ K @ CHR ''/'' # V @ rest))
                 (int (length pre + length K + length V + 2))
          else Inr d')"
proof -
  let ?s = "pre @ K @ CHR ''/'' # V @ rest"
  have nf: "nul_free ?s" using assms by simp
  have i1: "z_index (Some ?s) (int (length pre)) (CHR ''/'') = int (length pre + length K)"
    using index_from_split [of pre K "CHR ''/''" "V @ rest"] assms by (simp add: z_index_def)
  have s1: "z_substring (Some ?s) (int (length pre)) (int (length K)) = Inr (Some K)"
    using z_substring_Some [OF nf, of "int (length pre)" "int (length K)"] by simp
  let ?p = "pre @ K @ [CHR ''/'']"
  have i2: "(let i = z_index (Some ?s) (int (length ?p)) (CHR ''/'')
      in if i = -1 then int (length ?s) else i) = int (length ?p + length V)"
  proof (cases rest)
    case Nil
    have "index_from ?s (int (length ?p)) (CHR ''/'') = -1"
    proof (rule index_from_None [OF nf])
      have "drop (nat (int (length ?p))) ?s = V"
        unfolding nat_int using Nil by simp
      then show "CHR ''/'' \<notin> set (drop (nat (int (length ?p))) ?s)"
        using assms(8) by simp
    qed simp
    then show ?thesis using Nil by (simp add: z_index_def)
  next
    case (Cons c r)
    then have c: "c = CHR ''/''" using assms by simp
    have "index_from (?p @ V @ CHR ''/'' # r) (int (length ?p)) (CHR ''/'') = int (length ?p + length V)"
      by (rule index_from_split) (use assms in simp_all)
    then show ?thesis using Cons c by (simp add: z_index_def)
  qed
  have "drop (length ?p) ?s = V @ rest" by simp
  then have s2: "z_substring (Some ?s) (int (length ?p)) (int (length V)) = Inr (Some V)"
    using z_substring_Some [OF nf, of "int (length ?p)" "int (length V)"]
    unfolding nat_int by simp
  have l: "int (length pre + length K) + 1 = int (length ?p)" by simp
  have V: "\<not> int (length ?p + length V) < int (length ?p) + 1"
    "\<not> int (length pre + length K) < int (length pre) + 1"
    using assms(2,3) by simp_all
  show ?thesis
    apply (subst d_decodeSimple_loop.simps)
    unfolding i1 Let_def [of "int (length pre + length K)"]
    apply (simp only: V if_False)
    using s1 s2 i2 assms(2,3)
    apply (simp add: l Let_def z_length_def)
    apply (auto simp: Let_def algebra_simps)
    done
qed

definition d_solid :: "dictionary \<Rightarrow> bool" where
  \<comment> \<open>every key and every value has at least one character\<close>
  "d_solid d \<longleftrightarrow> (\<forall>(k, v) \<in> set d. k \<notin> {None, Some []} \<and> v \<notin> {None, Some []})"

lemma decodeSimple_encode_loop:
  "d_solid xs \<Longrightarrow> nul_free pre \<Longrightarrow> xs \<noteq> [] \<Longrightarrow>
     d_decodeSimple_loop d (Some (pre @ d_encode_loop (CHR ''/'') (CHR ''/'') True xs))
       (int (length pre))
     = Inr (foldl (\<lambda>d (k, v). d_put d k v) d xs)"
proof (induction xs arbitrary: d pre)
  case (Cons x xs)
  obtain k v where x: "x = (Some k, Some v)" "k \<noteq> []" "v \<noteq> []"
    using Cons.prems by (cases x) (auto simp: d_solid_def)
  let ?K = "url_escape (Some k)" and ?V = "url_escape (Some v)"
  let ?enc = "\<lambda>b xs. d_encode_loop (CHR ''/'') (CHR ''/'') b xs"
  let ?pre = "pre @ ?K @ CHR ''/'' # ?V @ [CHR ''/'']"
  have one: "d_decodeSimple_loop d (Some (pre @ ?enc True (x # xs))) (int (length pre))
    = (let d' = d_put d (Some k) (Some v)
       in if length (?enc False xs) > 1
          then d_decodeSimple_loop d' (Some (pre @ ?enc True (x # xs)))
                 (int (length pre + length ?K + length ?V + 2))
          else Inr d')"
  proof -
    have "nul_free (?enc False xs)" by (rule nul_free_encode_loop) simp_all
    moreover have "?enc False xs = [] \<or> hd (?enc False xs) = CHR ''/''"
      by (simp add: d_encode_loop_False)
    moreover have "?K \<noteq> []" "?V \<noteq> []" using x by (simp_all add: url_escape_Nil)
    moreover have "CHR ''/'' \<notin> set ?K" "CHR ''/'' \<notin> set ?V"
      by (simp_all add: url_escape_notin)
    moreover have "pre @ ?enc True (x # xs) = pre @ ?K @ CHR ''/'' # ?V @ ?enc False xs"
      by (simp add: x)
    ultimately show ?thesis
      using decodeSimple_one [of pre ?K ?V "?enc False xs" d] Cons.prems(2)
      by (simp only: url_unescape_escape nul_free_url_escape simp_thms)
  qed
  show ?case
  proof (cases "xs = []")
    case True
    then show ?thesis using one by (simp add: x)
  next
    case False
    have "?enc True xs \<noteq> []" using False by (cases xs) auto
    then have "length (?enc False xs) > 1"
      using False by (simp add: d_encode_loop_False)
    moreover have "pre @ ?enc True (x # xs) = ?pre @ ?enc True xs"
      using False by (simp add: x d_encode_loop_False)
    moreover have "int (length pre + length ?K + length ?V + 2) = int (length ?pre)" by simp
    moreover have "d_decodeSimple_loop d' (Some (?pre @ ?enc True xs)) (int (length ?pre))
        = Inr (foldl (\<lambda>d (k, v). d_put d k v) d' xs)" for d'
      by (rule Cons.IH) (use Cons.prems False in \<open>auto simp: d_solid_def\<close>)
    ultimately show ?thesis using one by (simp only: Let_def if_True foldl_Cons x prod.case)
  qed
qed simp

lemma d_decodeSimple_encodeSimple:
  assumes "d_inv d" "d_solid d"
  shows "d_decodeSimple [] (d_encodeSimple d) = Inr d"
proof (cases "d = []")
  case True
  have "d_decodeSimple [] (d_encodeSimple []) = Inr []" by code_simp
  with True show ?thesis by simp
next
  case False
  then show ?thesis
    using decodeSimple_encode_loop [OF assms(2), of "[]" "[]"] put_all_fresh [of "[]" d] assms(1)
    by (simp add: d_decodeSimple_def d_encodeSimple_def d_encode_sep_def)
qed

end
