(* ===== verification/Objects.thy ===== *)
theory Objects
  imports Containers Queues "HOL-Library.Multiset"
begin

text \<open>
  Reference-counted objects (src/zmm/object.cc, ref.h) and the containers that
  hold references: \<open>ArrayBase\<close> of array.cc, \<open>ObjectStack\<close> and \<open>ObjectQueue\<close>.

  The heap maps the address of a live object to its count; \<open>delete this\<close>
  removes the entry, and using a count that is gone is \<open>Abort\<close>. The invariant
  \<open>counts_owners\<close> says that the objects that are there are exactly those somebody
  holds a reference to, and that every count is the number of these references; the interface \<open>counted_heap\<close> is what the containers rely on. The
  destructors of the objects themselves are not part of the model.
\<close>

type_synonym addr = nat
type_synonym pointer = "addr option"
type_synonym heap = "addr \<rightharpoonup> nat"

section \<open>Interface\<close>

locale counted_heap =
  fixes matches :: "'h \<Rightarrow> 'a multiset \<Rightarrow> bool"
    and alive :: "'h \<Rightarrow> 'a \<Rightarrow> bool"
    and retain_op :: "'h \<Rightarrow> 'a \<Rightarrow> 'h result"
    and release_op :: "'h \<Rightarrow> 'a \<Rightarrow> 'h result"
    and limit :: nat
  assumes retain_law: "matches h M \<Longrightarrow> alive h a \<Longrightarrow> size M < limit \<Longrightarrow>
      \<exists>h'. retain_op h a = Inr h' \<and> matches h' (add_mset a M) \<and> (\<forall>b. alive h' b = alive h b)"
    and release_law: "matches h (add_mset a M) \<Longrightarrow>
      \<exists>h'. release_op h a = Inr h' \<and> matches h' M
        \<and> (\<forall>b. alive h' b = (alive h b \<and> (b = a \<longrightarrow> a \<in># M)))"
    and alive_law: "matches h M \<Longrightarrow> a \<in># M \<Longrightarrow> alive h a"
begin

primrec release_all :: "'h \<Rightarrow> 'a list \<Rightarrow> 'h result" where
  "release_all h [] = Inr h"
| "release_all h (a # as) = bind_result (release_op h a) (\<lambda>h. release_all h as)"

lemma release_all_law:
  "matches h (M + mset as) \<Longrightarrow>
     \<exists>h'. release_all h as = Inr h' \<and> matches h' M
       \<and> (\<forall>b. alive h' b \<longleftrightarrow> alive h b \<and> (b \<in> set as \<longrightarrow> b \<in># M))"
proof (induction as arbitrary: h)
  case (Cons a as)
  have "matches h (add_mset a (M + mset as))" using Cons.prems by simp
  then obtain h1 where h1: "release_op h a = Inr h1" "matches h1 (M + mset as)"
    "\<forall>b. alive h1 b = (alive h b \<and> (b = a \<longrightarrow> a \<in># M + mset as))"
    using release_law by meson
  obtain h2 where h2: "release_all h1 as = Inr h2" "matches h2 M"
    "\<forall>b. alive h2 b = (alive h1 b \<and> (b \<in> set as \<longrightarrow> b \<in># M))"
    using Cons.IH [OF h1(2)] by blast
  have "alive h2 b \<longleftrightarrow> alive h b \<and> (b \<in> set (a # as) \<longrightarrow> b \<in># M)" for b
    using h1(3) h2(3) by auto
  then show ?case using h1(1) h2(1,2) by simp
qed simp

lemma shared_survives:
  assumes "matches h (add_mset a M)" "a \<in># M"
  shows "\<exists>h'. release_op h a = Inr h' \<and> alive h' a"
  using release_law [OF assms(1)] assms alive_law [OF assms(1), of a] by auto

end

section \<open>Objects and references\<close>

definition retain :: "heap \<Rightarrow> addr \<Rightarrow> heap result" where
  "retain h a = (case h a of None \<Rightarrow> Inl Abort | Some n \<Rightarrow> Inr (h(a \<mapsto> (n + 1) mod 2 ^ 32)))"

definition release :: "heap \<Rightarrow> addr \<Rightarrow> heap result" where
  "release h a =
     (case h a of
        None \<Rightarrow> Inl Abort
      | Some n \<Rightarrow> (let n' = (n + 2 ^ 32 - 1) mod 2 ^ 32
                   in if n' = 0 then Inr (h(a := None)) else Inr (h(a \<mapsto> n'))))"

definition getRefCount :: "heap \<Rightarrow> addr \<Rightarrow> nat result" where
  "getRefCount h a = (case h a of None \<Rightarrow> Inl Abort | Some n \<Rightarrow> Inr n)"

definition new_object :: "heap \<Rightarrow> addr \<Rightarrow> heap" where
  \<comment> \<open>the address is the allocator's choice\<close>
  "new_object h a = h(a \<mapsto> 0)"

definition retain_ptr :: "heap \<Rightarrow> pointer \<Rightarrow> heap result" where
  \<comment> \<open>\<open>obj->retain()\<close> without a check for null\<close>
  "retain_ptr h p = (case p of None \<Rightarrow> Inl Abort | Some a \<Rightarrow> retain h a)"

definition release_ptr :: "heap \<Rightarrow> pointer \<Rightarrow> heap result" where
  "release_ptr h p = (case p of None \<Rightarrow> Inl Abort | Some a \<Rightarrow> release h a)"

definition ref_copy :: "heap \<Rightarrow> pointer \<Rightarrow> heap result" where
  \<comment> \<open>the constructors \<open>Ref(const Ref&)\<close> and \<open>Ref(T*)\<close>\<close>
  "ref_copy h p = (if p \<noteq> None then retain_ptr h p else Inr h)"

definition ref_drop :: "heap \<Rightarrow> pointer \<Rightarrow> heap result" where
  \<comment> \<open>the destructor \<open>~Ref\<close>\<close>
  "ref_drop h p = (if p \<noteq> None then release_ptr h p else Inr h)"

definition ref_assign :: "heap \<Rightarrow> pointer \<Rightarrow> pointer \<Rightarrow> (heap \<times> pointer) result" where
  \<comment> \<open>\<open>operator=\<close> between two different \<open>Ref\<close> variables\<close>
  "ref_assign h p q =
     bind_result (if p \<noteq> None then release_ptr h p else Inr h)
       (\<lambda>h. bind_result (if q \<noteq> None then retain_ptr h q else Inr h) (\<lambda>h. Inr (h, q)))"

definition counts_owners :: "heap \<Rightarrow> addr multiset \<Rightarrow> bool" where
  \<comment> \<open>an object that nobody owns is not there any more: it was deleted\<close>
  "counts_owners h M \<longleftrightarrow> size M < 2 ^ 32 \<and> (\<forall>a. h a = (if a \<in># M then Some (count M a) else None))"

definition alive :: "heap \<Rightarrow> addr \<Rightarrow> bool" where
  "alive h a \<longleftrightarrow> h a \<noteq> None"

lemma counts_owners_count: "counts_owners h M \<Longrightarrow> count M a < 2 ^ 32"
  using count_le_size [of M a] by (simp add: counts_owners_def)

lemma counts_owners_alive:
  assumes "counts_owners h M" "alive h a"
  shows "h a = Some (count M a)"
proof (cases "a \<in># M")
  case False
  then have "h a \<in> {None, Some 0}" "count M a = 0"
    using assms(1) by (simp_all add: counts_owners_def not_in_iff)
  then show ?thesis using assms(2) by (auto simp: alive_def)
qed (use assms in \<open>simp add: counts_owners_def\<close>)

lemma retain_counts:
  assumes "counts_owners h M" "alive h a" "size M < 2 ^ 32 - 1"
  shows "\<exists>h'. retain h a = Inr h' \<and> counts_owners h' (add_mset a M) \<and> (\<forall>b. alive h' b = alive h b)"
proof -
  have a: "h a = Some (count M a)" using assms counts_owners_alive by blast
  have "count M a + 1 < 2 ^ 32" using count_le_size [of M a] assms(3) by simp
  then have r: "retain h a = Inr (h(a \<mapsto> count M a + 1))" by (simp add: retain_def a)
  have "counts_owners (h(a \<mapsto> count M a + 1)) (add_mset a M)"
    using assms by (simp add: counts_owners_def)
  then show ?thesis using r assms(2) by (simp add: alive_def)
qed

lemma release_counts:
  assumes "counts_owners h (add_mset a M)"
  shows "\<exists>h'. release h a = Inr h' \<and> counts_owners h' M
    \<and> (\<forall>b. alive h' b = (alive h b \<and> (b = a \<longrightarrow> a \<in># M)))"
proof -
  have a: "h a = Some (count M a + 1)" using assms by (simp add: counts_owners_def)
  have lt: "count M a < 2 ^ 32" using counts_owners_count [OF assms, of a] by simp
  have n: "(count M a + 1 + 2 ^ 32 - 1) mod 2 ^ 32 = count M a" using lt by simp
  show ?thesis
  proof (cases "count M a = 0")
    case True
    then have "release h a = Inr (h(a := None))" using a by (simp add: release_def)
    moreover have "counts_owners (h(a := None)) M"
      using assms True by (auto simp: counts_owners_def not_in_iff)
    ultimately show ?thesis using True by (simp add: alive_def not_in_iff)
  next
    case False
    have "release h a = Inr (h(a \<mapsto> count M a))"
      unfolding release_def a option.case n Let_def by (simp only: False if_False)
    moreover have "counts_owners (h(a \<mapsto> count M a)) M"
      using assms False by (auto simp: counts_owners_def not_in_iff split: if_splits)
    moreover have "a \<in># M" using False by (simp add: count_inI)
    ultimately show ?thesis using a by (auto simp: alive_def)
  qed
qed

lemma counts_owners_living: "counts_owners h M \<Longrightarrow> alive h a \<longleftrightarrow> a \<in># M"
  by (simp add: counts_owners_def alive_def)

lemma new_object_owned:
  \<comment> \<open>\<open>Ref<T> p(new T)\<close>\<close>
  assumes "counts_owners h M" "h a = None" "size M + 1 < 2 ^ 32"
  shows "\<exists>h'. ref_copy (new_object h a) (Some a) = Inr h' \<and> counts_owners h' (add_mset a M)"
proof -
  have "a \<notin># M" using assms(1,2) by (auto simp: counts_owners_def)
  then show ?thesis
    using assms by (simp add: ref_copy_def retain_ptr_def retain_def new_object_def counts_owners_def not_in_iff)
qed

interpretation heap: counted_heap counts_owners alive retain release "2 ^ 32 - 1"
proof unfold_locales
  show "counts_owners h M \<Longrightarrow> a \<in># M \<Longrightarrow> alive h a" for h M a
    by (simp add: counts_owners_def alive_def)
qed (use retain_counts release_counts in blast)+

fun owners :: "pointer list \<Rightarrow> addr multiset" where
  \<comment> \<open>one reference for each pointer that is not null\<close>
  "owners [] = {#}"
| "owners (None # ps) = owners ps"
| "owners (Some a # ps) = add_mset a (owners ps)"

lemma owners_append [simp]: "owners (ps @ qs) = owners ps + owners qs"
  by (induction ps rule: owners.induct) simp_all

lemma owners_replicate_None [simp]: "owners (replicate n None) = {#}"
  by (induction n) simp_all

lemma owners_Cons: "owners (p # ps) = owners [p] + owners ps"
  by (cases p) simp_all

lemma owners_split:
  assumes "i < length ps"
  shows "owners ps = owners (take i ps) + owners [ps ! i] + owners (drop (Suc i) ps)"
proof -
  have "owners ps = owners (take i ps @ [ps ! i] @ drop (Suc i) ps)"
    using id_take_nth_drop [OF assms] by simp
  then show ?thesis by (simp only: owners_append add.assoc)
qed

lemma owners_update:
  assumes "i < length ps"
  shows "owners (ps[i := p]) = owners (take i ps) + owners [p] + owners (drop (Suc i) ps)"
proof -
  have "ps[i := p] = take i ps @ [p] @ drop (Suc i) ps"
    using assms by (simp add: upd_conv_take_nth_drop)
  then show ?thesis by (simp only: owners_append add.assoc)
qed

lemma ref_assign_counts:
  assumes "counts_owners h (M + owners [p] + owners [q])" "size M + 2 < 2 ^ 32"
  shows "\<exists>h'. ref_assign h p q = Inr (h', q) \<and> counts_owners h' (M + owners [q] + owners [q])"
proof -
  obtain h1 where h1: "ref_drop h p = Inr h1" "counts_owners h1 (M + owners [q])"
    using assms(1) heap.release_law [of h "the p" "M + owners [q]"]
    by (cases p) (auto simp: ref_drop_def release_ptr_def)
  have "alive h1 a" if "q = Some a" for a
    using that heap.alive_law [OF h1(2), of a] by simp
  then have "\<exists>h2. ref_copy h1 q = Inr h2 \<and> counts_owners h2 (M + owners [q] + owners [q])"
    using h1(2) heap.retain_law [of h1 "M + owners [q]" "the q"] assms(2)
    by (cases q) (auto simp: ref_copy_def retain_ptr_def)
  then show ?thesis using h1(1) by (auto simp: ref_assign_def ref_drop_def ref_copy_def)
qed

section \<open>ArrayBase\<close>

type_synonym object_array = "pointer base_array"

definition oa_init :: "int \<Rightarrow> object_array" where
  "oa_init capacity =
     \<lparr>ba_arr = replicate (nat capacity) (Some None), ba_siz = 0, ba_capacity = capacity\<rparr>"

definition oa_resize :: "object_array \<Rightarrow> int \<Rightarrow> object_array" where
  "oa_resize a requiredSize =
     (if requiredSize > ba_capacity a then
        (let newCapacity = ba_siz a + (ba_siz a sdiv 2);
             newCapacity = (if requiredSize > newCapacity then requiredSize else newCapacity)
         in a\<lparr>ba_capacity := newCapacity, ba_arr := cell_realloc (ba_arr a) (nat newCapacity)\<rparr>)
      else a)"

definition oa_append :: "heap \<Rightarrow> object_array \<Rightarrow> pointer \<Rightarrow> (heap \<times> object_array) result" where
  "oa_append h a obj =
     bind_result (retain_ptr h obj) (\<lambda>h.
       (let a = oa_resize a (ba_siz a + 1)
        in bind_result (cell_write (ba_arr a) (ba_siz a) obj)
             (\<lambda>d. Inr (h, a\<lparr>ba_arr := d, ba_siz := ba_siz a + 1\<rparr>))))"

definition oa_set :: "heap \<Rightarrow> object_array \<Rightarrow> pointer \<Rightarrow> int \<Rightarrow> (heap \<times> object_array) result" where
  "oa_set h a obj index =
     bind_result (cell_read (ba_arr a) index) (\<lambda>old.
       bind_result (if old \<noteq> None then release_ptr h old else Inr h) (\<lambda>h.
         bind_result (if obj \<noteq> None then retain_ptr h obj else Inr h) (\<lambda>h.
           bind_result (cell_write (ba_arr a) index obj) (\<lambda>d. Inr (h, a\<lparr>ba_arr := d\<rparr>)))))"

definition oa_get :: "object_array \<Rightarrow> int \<Rightarrow> pointer result" where
  "oa_get a index = cell_read (ba_arr a) index"

primrec oa_release_range ::
  "heap \<Rightarrow> object_array \<Rightarrow> int \<Rightarrow> nat \<Rightarrow> (heap \<times> object_array) result" where
  \<comment> \<open>the loop of \<open>remove\<close>: releases and nulls the \<open>n\<close> cells from \<open>i\<close> on\<close>
  "oa_release_range h a i 0 = Inr (h, a)"
| "oa_release_range h a i (Suc n) =
     bind_result (cell_read (ba_arr a) i) (\<lambda>obj.
       bind_result (if obj \<noteq> None then release_ptr h obj else Inr h) (\<lambda>h.
         bind_result (cell_write (ba_arr a) i None) (\<lambda>d.
           oa_release_range h (a\<lparr>ba_arr := d\<rparr>) (i + 1) n)))"

definition oa_remove :: "heap \<Rightarrow> object_array \<Rightarrow> int \<Rightarrow> int \<Rightarrow> (heap \<times> object_array) result" where
  "oa_remove h a index cnt =
     (if index < 0 \<or> index \<ge> ba_siz a then Inr (h, a)
      else
        (let max = index + cnt;
             max = (if max > ba_siz a then ba_siz a else max)
         in if max \<le> index then Inr (h, a)
            else bind_result (oa_release_range h a index (nat (max - index))) (\<lambda>(h, a).
              (let move = ba_siz a - max
               in bind_result
                    (if move \<noteq> 0 then cell_move (ba_arr a) index (index + cnt) move
                     else Inr (ba_arr a))
                    (\<lambda>d. Inr (h, a\<lparr>ba_arr := d, ba_siz := ba_siz a - cnt\<rparr>))))))"

definition oa_removeUnordered :: "heap \<Rightarrow> object_array \<Rightarrow> int \<Rightarrow> (heap \<times> object_array) result" where
  "oa_removeUnordered h a index =
     (if index < 0 \<or> index \<ge> ba_siz a then Inr (h, a)
      else bind_result (cell_read (ba_arr a) index) (\<lambda>obj.
        bind_result (release_ptr h obj) (\<lambda>h.
          (let siz = ba_siz a - 1
           in bind_result (cell_read (ba_arr a) siz) (\<lambda>x.
                bind_result (cell_write (ba_arr a) index x) (\<lambda>d.
                  bind_result (cell_write d siz None) (\<lambda>d.
                    Inr (h, a\<lparr>ba_arr := d, ba_siz := siz\<rparr>))))))))"

definition oa_insert :: "heap \<Rightarrow> object_array \<Rightarrow> int \<Rightarrow> pointer \<Rightarrow> (heap \<times> object_array) result" where
  "oa_insert h a index obj =
     (let a = oa_resize a (ba_siz a + 1)
      in bind_result (cell_move (ba_arr a) (index + 1) index (ba_siz a - index)) (\<lambda>d.
           bind_result (retain_ptr h obj) (\<lambda>h.
             bind_result (cell_write d index obj) (\<lambda>d.
               Inr (h, a\<lparr>ba_arr := d, ba_siz := ba_siz a + 1\<rparr>)))))"

definition oa_optimize :: "object_array \<Rightarrow> object_array" where
  "oa_optimize a =
     a\<lparr>ba_capacity := ba_siz a, ba_arr := cell_realloc (ba_arr a) (nat (ba_siz a))\<rparr>"

primrec oa_release_loop :: "bool \<Rightarrow> heap \<Rightarrow> object_array \<Rightarrow> int \<Rightarrow> nat \<Rightarrow> heap result" where
  \<comment> \<open>the loops of \<open>clear\<close> (no check for null) and of the destructor (with it)\<close>
  "oa_release_loop check h a i 0 = Inr h"
| "oa_release_loop check h a i (Suc n) =
     bind_result (cell_read (ba_arr a) i) (\<lambda>obj.
       bind_result (if check \<and> obj = None then Inr h else release_ptr h obj) (\<lambda>h.
         oa_release_loop check h a (i + 1) n))"

definition oa_clear :: "heap \<Rightarrow> object_array \<Rightarrow> (heap \<times> object_array) result" where
  "oa_clear h a =
     bind_result (oa_release_loop False h a 0 (nat (ba_siz a))) (\<lambda>h.
       Inr (h, a\<lparr>ba_arr := replicate (nat (ba_siz a)) (Some None) @ drop (nat (ba_siz a)) (ba_arr a),
                 ba_siz := 0\<rparr>))"

definition oa_destroy :: "heap \<Rightarrow> object_array \<Rightarrow> heap result" where
  "oa_destroy h a = oa_release_loop True h a 0 (nat (ba_siz a))"

lemma oa_resize_eq: "oa_resize a n = ba_resize a n"
  by (simp add: oa_resize_def ba_resize_def)

lemma oa_get_eq: "oa_get a i = ba_get a i"
  by (simp add: oa_get_def ba_get_def)

lemma oa_append_eq:
  "oa_append h a obj =
     bind_result (retain_ptr h obj) (\<lambda>h. bind_result (ba_append a obj) (\<lambda>a. Inr (h, a)))"
  by (simp add: oa_append_def ba_append_def oa_resize_eq Let_def bind_result_assoc)

lemma cell_read_list:
  "ba_inv a \<Longrightarrow> i < length (ba_list a) \<Longrightarrow> cell_read (ba_arr a) (int i) = Inr (ba_list a ! i)"
  using ba_get_law [of a i] by (simp add: ba_get_def)

lemma retain_ptr_counts:
  assumes "counts_owners h M" "alive h x" "size M < 2 ^ 32 - 1"
  shows "\<exists>h'. retain_ptr h (Some x) = Inr h' \<and> counts_owners h' (M + owners [Some x])"
  using retain_counts [OF assms] by (auto simp: retain_ptr_def)

lemma ref_drop_counts:
  assumes "counts_owners h (M + owners [p])"
  shows "\<exists>h'. (if p \<noteq> None then release_ptr h p else Inr h) = Inr h' \<and> counts_owners h' M"
  using assms release_counts [of h "the p" M] by (cases p) (auto simp: release_ptr_def)

lemma ref_copy_counts:
  assumes "counts_owners h M" "\<forall>x. p = Some x \<longrightarrow> alive h x" "size M < 2 ^ 32 - 1"
  shows "\<exists>h'. (if p \<noteq> None then retain_ptr h p else Inr h) = Inr h' \<and> counts_owners h' (M + owners [p])"
  using assms retain_ptr_counts [of h M "the p"] by (cases p) auto

text \<open>
  Each operation keeps the invariant \<open>counts_owners h (E + owners (ba_list a))\<close>, where
  \<open>E\<close> are the references held outside the array.
\<close>

lemma oa_append_law:
  assumes "counts_owners h (E + owners (ba_list a))" "ba_inv a" "alive h x"
    "size (E + owners (ba_list a)) < 2 ^ 32 - 1"
  shows "\<exists>h' a'. oa_append h a (Some x) = Inr (h', a') \<and> ba_inv a'
    \<and> ba_list a' = ba_list a @ [Some x] \<and> counts_owners h' (E + owners (ba_list a'))"
proof -
  obtain h' where h': "retain_ptr h (Some x) = Inr h'"
    "counts_owners h' (E + owners (ba_list a) + owners [Some x])"
    using retain_ptr_counts assms by blast
  obtain a' where "ba_append a (Some x) = Inr a'" "ba_inv a'" "ba_list a' = ba_list a @ [Some x]"
    using ba_append_law [OF assms(2)] by blast
  with h' show ?thesis by (simp add: oa_append_eq)
qed

lemma oa_set_law:
  assumes "counts_owners h (E + owners (ba_list a))" "ba_inv a" "i < length (ba_list a)"
    "\<forall>x. obj = Some x \<longrightarrow> x \<in># E" "size (E + owners (ba_list a)) < 2 ^ 32 - 1"
  shows "\<exists>h' a'. oa_set h a obj (int i) = Inr (h', a') \<and> ba_inv a'
    \<and> ba_list a' = (ba_list a)[i := obj] \<and> counts_owners h' (E + owners (ba_list a'))"
proof -
  let ?l = "ba_list a"
  let ?M = "E + owners (take i ?l) + owners (drop (Suc i) ?l)"
  have "counts_owners h (?M + owners [?l ! i])"
    using assms(1) owners_split [OF assms(3)] by (simp add: ac_simps)
  then obtain h1 where h1: "(if ?l ! i \<noteq> None then release_ptr h (?l ! i) else Inr h) = Inr h1"
    "counts_owners h1 ?M"
    using ref_drop_counts by blast
  have "\<forall>x. obj = Some x \<longrightarrow> alive h1 x"
    using heap.alive_law [OF h1(2)] assms(4) by simp
  moreover have "size ?M < 2 ^ 32 - 1"
    using assms(5) owners_split [OF assms(3)] by simp
  ultimately obtain h2 where h2: "(if obj \<noteq> None then retain_ptr h1 obj else Inr h1) = Inr h2"
    "counts_owners h2 (?M + owners [obj])"
    using ref_copy_counts [OF h1(2)] by blast
  obtain a' where a': "ba_set a obj (int i) = Inr a'" "ba_inv a'" "ba_list a' = ?l[i := obj]"
    using ba_set_law [OF assms(2,3)] by blast
  have "oa_set h a obj (int i) = bind_result (ba_set a obj (int i)) (\<lambda>a. Inr (h2, a))"
    unfolding oa_set_def cell_read_list [OF assms(2,3)] bind_result_simps h1(1) h2(1)
    by (simp add: ba_set_def bind_result_def split: sum.splits)
  moreover have "counts_owners h2 (E + owners (?l[i := obj]))"
    using h2(2) owners_update [OF assms(3), of obj] by (simp add: ac_simps)
  ultimately show ?thesis using a' by simp
qed

lemma oa_release_range_law:
  assumes "ba_inv a" "counts_owners h (E + owners (ba_list a))" "i + n \<le> length (ba_list a)"
  shows "\<exists>h' a'. oa_release_range h a (int i) n = Inr (h', a') \<and> ba_inv a' \<and> ba_siz a' = ba_siz a
    \<and> ba_list a' = take i (ba_list a) @ replicate n None @ drop (i + n) (ba_list a)
    \<and> counts_owners h' (E + owners (ba_list a'))"
  using assms
proof (induction n arbitrary: h a i)
  case (Suc n)
  let ?l = "ba_list a"
  let ?M = "E + owners (take i ?l) + owners (drop (Suc i) ?l)"
  have i: "i < length ?l" using Suc.prems by simp
  have "counts_owners h (?M + owners [?l ! i])"
    using Suc.prems(2) owners_split [OF i] by (simp add: ac_simps)
  then obtain h1 where h1: "(if ?l ! i \<noteq> None then release_ptr h (?l ! i) else Inr h) = Inr h1"
    "counts_owners h1 ?M"
    using ref_drop_counts by blast
  obtain d where d: "cell_write (ba_arr a) (int i) None = Inr d"
    and a1: "ba_inv (a\<lparr>ba_arr := d\<rparr>)" "ba_list (a\<lparr>ba_arr := d\<rparr>) = ?l[i := None]"
    using ba_set_law [OF Suc.prems(1) i, of None]
    by (auto simp: ba_set_def bind_result_Inr_iff)
  have "counts_owners h1 (E + owners (ba_list (a\<lparr>ba_arr := d\<rparr>)))"
    using h1(2) owners_update [OF i, of None] a1(2) by (simp add: ac_simps)
  then obtain h' a' where *: "oa_release_range h1 (a\<lparr>ba_arr := d\<rparr>) (int (Suc i)) n = Inr (h', a')"
    "ba_inv a'" "ba_siz a' = ba_siz a"
    "ba_list a' = take (Suc i) (?l[i := None]) @ replicate n None @ drop (Suc i + n) (?l[i := None])"
    "counts_owners h' (E + owners (ba_list a'))"
    using Suc.IH [OF a1(1), of h1 "Suc i"] a1(2) Suc.prems(3) by auto
  have "take (Suc i) (?l[i := None]) = take i ?l @ [None]"
    using i by (simp add: take_Suc_conv_app_nth)
  then have "ba_list a' = take i ?l @ replicate (Suc n) None @ drop (i + Suc n) ?l"
    using *(4) by simp
  moreover have "oa_release_range h a (int i) (Suc n) = Inr (h', a')"
    unfolding oa_release_range.simps cell_read_list [OF Suc.prems(1) i] bind_result_simps h1(1) d
    using *(1) by (simp add: ac_simps)
  ultimately show ?case using *(2,3,5) by simp
qed simp

lemma oa_remove_law:
  assumes "ba_inv a" "counts_owners h (E + owners (ba_list a))" "i + n \<le> length (ba_list a)" "0 < n"
  shows "\<exists>h' a'. oa_remove h a (int i) (int n) = Inr (h', a') \<and> ba_inv a'
    \<and> ba_list a' = take i (ba_list a) @ drop (i + n) (ba_list a)
    \<and> counts_owners h' (E + owners (ba_list a'))"
proof -
  have siz: "ba_siz a = int (length (ba_list a))"
    using assms(1) by (simp add: length_ba_list)
  obtain h1 a1 where 1: "oa_release_range h a (int i) n = Inr (h1, a1)" "ba_inv a1" "ba_siz a1 = ba_siz a"
    "ba_list a1 = take i (ba_list a) @ replicate n None @ drop (i + n) (ba_list a)"
    "counts_owners h1 (E + owners (ba_list a1))"
    using oa_release_range_law [OF assms(1-3)] by blast
  obtain a' where a': "ba_remove a1 (int i) (int n) = Inr a'" "ba_inv a'"
    "ba_list a' = take i (ba_list a1) @ drop (i + n) (ba_list a1)"
    using ba_remove_law [OF 1(2) _ assms(4), of i] 1(4) assms(3) by auto
  have l: "ba_list a' = take i (ba_list a) @ drop (i + n) (ba_list a)"
    using a'(3) 1(4) assms(3) by simp
  have "oa_remove h a (int i) (int n) = bind_result (ba_remove a1 (int i) (int n)) (\<lambda>a. Inr (h1, a))"
    using assms(3,4) siz 1(1,3)
    by (simp add: oa_remove_def ba_remove_def Let_def bind_result_assoc)
  moreover have "counts_owners h1 (E + owners (ba_list a'))"
    using 1(4,5) l by simp
  ultimately show ?thesis using a' l by auto
qed

lemma oa_release_loop_law:
  assumes "ba_inv a" "counts_owners h (E + owners (drop i (ba_list a)))"
    "i + n = length (ba_list a)" "check \<or> None \<notin> set (drop i (ba_list a))"
  shows "\<exists>h'. oa_release_loop check h a (int i) n = Inr h' \<and> counts_owners h' E"
  using assms
proof (induction n arbitrary: h i)
  case (Suc n)
  let ?l = "ba_list a"
  have i: "i < length ?l" using Suc.prems by simp
  have d: "drop i ?l = ?l ! i # drop (Suc i) ?l" using i by (simp add: Cons_nth_drop_Suc)
  have "counts_owners h (E + owners (drop (Suc i) ?l) + owners [?l ! i])"
    using Suc.prems(2) unfolding d owners_Cons [of "?l ! i" "drop (Suc i) ?l"]
    by (simp add: ac_simps)
  then obtain h1 where h1: "(if ?l ! i \<noteq> None then release_ptr h (?l ! i) else Inr h) = Inr h1"
    "counts_owners h1 (E + owners (drop (Suc i) ?l))"
    using ref_drop_counts by blast
  obtain h' where h': "oa_release_loop check h1 a (int (Suc i)) n = Inr h'" "counts_owners h' E"
  proof -
    have "Suc i + n = length ?l" "check \<or> None \<notin> set (drop (Suc i) ?l)"
      using Suc.prems(3,4) by (auto simp: d)
    then show ?thesis using Suc.IH [OF Suc.prems(1) h1(2)] that by blast
  qed
  have "(if check \<and> ?l ! i = None then Inr h else release_ptr h (?l ! i)) = Inr h1"
    using h1(1) Suc.prems(4) by (cases "?l ! i") (simp_all add: d)
  then show ?case
    unfolding oa_release_loop.simps cell_read_list [OF Suc.prems(1) i] bind_result_simps
    using h' by (simp add: ac_simps)
qed simp

lemma oa_destroy_law:
  assumes "ba_inv a" "counts_owners h (E + owners (ba_list a))"
  shows "\<exists>h'. oa_destroy h a = Inr h' \<and> counts_owners h' E"
  using oa_release_loop_law [of a h E 0 "length (ba_list a)" True] assms
  by (simp add: oa_destroy_def length_ba_list)

lemma oa_clear_law:
  assumes "ba_inv a" "counts_owners h (E + owners (ba_list a))" "None \<notin> set (ba_list a)"
  shows "\<exists>h' a'. oa_clear h a = Inr (h', a') \<and> ba_inv a' \<and> ba_list a' = [] \<and> counts_owners h' E"
proof -
  obtain h' where h': "oa_release_loop False h a 0 (length (ba_list a)) = Inr h'" "counts_owners h' E"
    using oa_release_loop_law [of a h E 0 "length (ba_list a)" False] assms by auto
  have "nat (ba_siz a) \<le> length (ba_arr a)" using ba_inv_siz [OF assms(1)] .
  then show ?thesis
    using h' assms(1) by (auto simp: oa_clear_def length_ba_list ba_inv_def ba_list_def)
qed

lemma oa_clear_null:
  assumes "ba_inv a" "ba_list a = None # ps"
  shows "oa_clear h a = Inl Abort"
proof -
  have "nat (ba_siz a) = Suc (length ps)" using length_ba_list [OF assms(1)] assms(2) by simp
  moreover have "cell_read (ba_arr a) 0 = Inr None"
    using cell_read_list [OF assms(1), of 0] assms(2) by simp
  ultimately show ?thesis by (simp add: oa_clear_def release_ptr_def)
qed

lemma mset_owners_butlast:
  assumes "ps \<noteq> []" "i < length ps"
  shows "owners (butlast (ps[i := last ps])) + owners [ps ! i] = owners ps"
proof (cases "i = length ps - 1")
  case True
  have "butlast (ps[i := last ps]) = butlast ps" using True by (simp add: butlast_list_update)
  moreover have "ps = butlast ps @ [ps ! i]"
    using append_butlast_last_id [OF assms(1)] True last_conv_nth [OF assms(1)] by simp
  ultimately show ?thesis by (metis owners_append)
next
  case False
  let ?b = "butlast ps"
  have i: "i < length ?b" using assms False by simp
  have "butlast (ps[i := last ps]) = ?b[i := last ps]" using False assms by (simp add: butlast_list_update)
  moreover have "owners ps = owners ?b + owners [last ps]"
    using assms(1) by (metis append_butlast_last_id owners_append)
  moreover have "?b ! i = ps ! i" using i by (simp add: nth_butlast)
  ultimately show ?thesis
    using owners_split [OF i] owners_update [OF i, of "last ps"] by (simp add: ac_simps)
qed

lemma oa_removeUnordered_law:
  assumes "ba_inv a" "counts_owners h (E + owners (ba_list a))" "i < length (ba_list a)"
    "ba_list a ! i \<noteq> None"
  shows "\<exists>h' a'. oa_removeUnordered h a (int i) = Inr (h', a') \<and> ba_inv a'
    \<and> ba_list a' = butlast ((ba_list a)[i := last (ba_list a)])
    \<and> counts_owners h' (E + owners (ba_list a'))"
proof -
  let ?l = "ba_list a"
  obtain n where n: "length ?l = Suc n" using assms(3) by (cases "length ?l") auto
  have siz: "ba_siz a = int (Suc n)" using length_ba_list [OF assms(1)] assms(1) n by simp
  have ne: "?l \<noteq> []" using assms(3) by auto
  have "counts_owners h (E + owners (butlast (?l[i := last ?l])) + owners [?l ! i])"
    using assms(2) mset_owners_butlast [OF ne assms(3)] by (simp add: ac_simps)
  then obtain h1 where h1: "release_ptr h (?l ! i) = Inr h1"
    "counts_owners h1 (E + owners (butlast (?l[i := last ?l])))"
    using ref_drop_counts assms(4) by (metis (no_types, lifting))
  have len: "Suc n \<le> length (ba_arr a)" using ba_inv_siz [OF assms(1)] siz by simp
  have rd: "cell_read (ba_arr a) (ba_siz a - 1) = Inr (?l ! n)"
    using cell_read_list [OF assms(1), of n] n siz by simp
  let ?d = "(ba_arr a)[i := Some (?l ! n), n := Some None]"
  have run: "oa_removeUnordered h a (int i) = Inr (h1, a\<lparr>ba_arr := ?d, ba_siz := int n\<rparr>)"
    using assms(3) siz n len h1(1) rd
    by (simp add: oa_removeUnordered_def cell_read_list [OF assms(1)] cell_write_def Let_def)
  have tk: "take n ?d = (take n (ba_arr a))[i := Some (?l ! n)]"
    by (simp add: take_update_swap list_update_beyond)
  have nsiz: "nat (ba_siz a) = Suc n" using siz by simp
  then have f: "filled (take (Suc n) (ba_arr a))" using assms(1) by (simp add: ba_inv_def)
  then have inv: "ba_inv (a\<lparr>ba_arr := ?d, ba_siz := int n\<rparr>)"
    using assms(1) siz filled_take_le [OF f, of n] by (intro ba_inv_upd) (auto simp: tk ba_inv_def)
  have "?l = map the (take (Suc n) (ba_arr a))" unfolding ba_list_def nsiz by (rule refl)
  then have "map the (take n (ba_arr a)) = butlast ?l"
    using len by (simp add: take_Suc_conv_app_nth)
  then have "ba_list (a\<lparr>ba_arr := ?d, ba_siz := int n\<rparr>) = (butlast ?l)[i := ?l ! n]"
    by (simp add: tk map_update)
  also have "\<dots> = butlast (?l[i := last ?l])"
    using ne n assms(3) by (auto simp: butlast_list_update last_conv_nth list_update_beyond)
  finally show ?thesis using run inv h1(2) by auto
qed

lemma oa_insert_law:
  assumes "ba_inv a" "counts_owners h (E + owners (ba_list a))" "i \<le> length (ba_list a)"
    "alive h x" "size (E + owners (ba_list a)) < 2 ^ 32 - 1"
  shows "\<exists>h' a'. oa_insert h a (int i) (Some x) = Inr (h', a') \<and> ba_inv a'
    \<and> ba_list a' = take i (ba_list a) @ Some x # drop i (ba_list a)
    \<and> counts_owners h' (E + owners (ba_list a'))"
proof -
  obtain h' where h': "retain_ptr h (Some x) = Inr h'"
    "counts_owners h' (E + owners (ba_list a) + owners [Some x])"
    using retain_ptr_counts assms by blast
  obtain a' where a': "ba_insert a (int i) (Some x) = Inr a'" "ba_inv a'"
    "ba_list a' = take i (ba_list a) @ Some x # drop i (ba_list a)"
    using ba_insert_law [OF assms(1,3)] by blast
  have "oa_insert h a (int i) (Some x)
      = bind_result (ba_insert a (int i) (Some x)) (\<lambda>a. Inr (h', a))"
    by (simp add: oa_insert_def ba_insert_def oa_resize_eq Let_def bind_result_assoc h'(1))
  moreover have "owners (ba_list a') = owners (ba_list a) + owners [Some x]"
  proof -
    have "owners (ba_list a') = owners (take i (ba_list a)) + owners (drop i (ba_list a)) + {#x#}"
      unfolding a'(3) by simp
    moreover have "owners (ba_list a) = owners (take i (ba_list a)) + owners (drop i (ba_list a))"
      by (metis append_take_drop_id owners_append)
    ultimately show ?thesis by simp
  qed
  ultimately have "oa_insert h a (int i) (Some x) = Inr (h', a')"
    "counts_owners h' (E + owners (ba_list a'))"
    using a'(1) h'(2) by (simp_all add: add.assoc)
  then show ?thesis using a' by blast
qed

section \<open>ObjectStack and ObjectQueue\<close>

definition os_push :: "heap \<Rightarrow> pointer base_stack \<Rightarrow> pointer \<Rightarrow> (heap \<times> pointer base_stack) result" where
  "os_push h s obj =
     bind_result (retain_ptr h obj) (\<lambda>h. bind_result (bs_push s obj) (\<lambda>s. Inr (h, s)))"

definition os_pop :: "heap \<Rightarrow> pointer base_stack \<Rightarrow> (heap \<times> pointer \<times> pointer base_stack) result" where
  \<comment> \<open>the reference that is returned is taken before the one of the stack is given up\<close>
  "os_pop h s =
     bind_result (bs_pop s) (\<lambda>(obj, s).
       if obj = None then Inr (h, None, s)
       else bind_result (retain_ptr h obj) (\<lambda>h.
              bind_result (release_ptr h obj) (\<lambda>h. Inr (h, obj, s))))"

definition oq_enqueue :: "heap \<Rightarrow> pointer base_queue \<Rightarrow> pointer \<Rightarrow> (heap \<times> pointer base_queue) result" where
  "oq_enqueue h q obj =
     bind_result (retain_ptr h obj) (\<lambda>h. bind_result (bq_enqueue q obj) (\<lambda>q. Inr (h, q)))"

definition oq_dequeue :: "heap \<Rightarrow> pointer base_queue \<Rightarrow> (heap \<times> pointer \<times> pointer base_queue) result" where
  "oq_dequeue h q =
     bind_result (bq_dequeue q) (\<lambda>(obj, q).
       if obj = None then Inr (h, None, q)
       else bind_result (retain_ptr h obj) (\<lambda>h.
              bind_result (release_ptr h obj) (\<lambda>h. Inr (h, obj, q))))"

lemma hand_over:
  assumes "counts_owners h (M + owners [Some x])" "size M + 1 < 2 ^ 32 - 1"
  shows "\<exists>h1 h2. retain_ptr h (Some x) = Inr h1 \<and> release_ptr h1 (Some x) = Inr h2
    \<and> counts_owners h2 (M + owners [Some x])"
proof -
  have "alive h x" using heap.alive_law [OF assms(1), of x] by simp
  then obtain h1 where h1: "retain_ptr h (Some x) = Inr h1"
    "counts_owners h1 (M + owners [Some x] + owners [Some x])"
    using retain_ptr_counts [OF assms(1)] assms(2) by auto
  then show ?thesis using ref_drop_counts [of h1 "M + owners [Some x]" "Some x"] by auto
qed

lemma oq_enqueue_law:
  assumes "bq_inv q" "counts_owners h (E + owners (bq_list q))" "alive h x"
    "size (E + owners (bq_list q)) < 2 ^ 32 - 1"
  shows "\<exists>h' q'. oq_enqueue h q (Some x) = Inr (h', q') \<and> bq_inv q'
    \<and> bq_list q' = bq_list q @ [Some x] \<and> counts_owners h' (E + owners (bq_list q'))"
proof -
  obtain h' where h': "retain_ptr h (Some x) = Inr h'"
    "counts_owners h' (E + owners (bq_list q) + owners [Some x])"
    using retain_ptr_counts assms by blast
  obtain q' where q': "bq_enqueue q (Some x) = Inr q'" "bq_inv q'" "bq_list q' = bq_list q @ [Some x]"
    using bqueue.enq_law [OF assms(1)] by blast
  have "counts_owners h' (E + owners (bq_list q'))"
    using h'(2) unfolding q'(3) owners_append add.assoc .
  then show ?thesis using h'(1) q' by (simp add: oq_enqueue_def)
qed

lemma oq_dequeue_law:
  assumes "bq_inv q" "bq_list q = Some x # ps" "counts_owners h (E + owners (bq_list q))"
    "size (E + owners (bq_list q)) < 2 ^ 32 - 1"
  shows "\<exists>h' q'. oq_dequeue h q = Inr (h', Some x, q') \<and> bq_inv q' \<and> bq_list q' = ps
    \<and> counts_owners h' (E + owners [Some x] + owners (bq_list q'))"
proof -
  obtain q' where q': "bq_dequeue q = Inr (Some x, q')" "bq_inv q'" "bq_list q' = ps"
    using bqueue.deq_law [OF assms(1)] assms(2) by auto
  have "counts_owners h (E + owners ps + owners [Some x])"
    using assms(2,3) by simp
  then obtain h1 h2 where "retain_ptr h (Some x) = Inr h1" "release_ptr h1 (Some x) = Inr h2"
    "counts_owners h2 (E + owners ps + owners [Some x])"
    using hand_over [of h "E + owners ps" x] assms(2,4) by auto
  moreover have "E + owners ps + owners [Some x] = E + owners [Some x] + owners ps" by simp
  ultimately show ?thesis using q' by (simp add: oq_dequeue_def)
qed

end
