(* ===== verification/IntArrays.thy ===== *)
theory IntArrays
  imports Containers ZString
begin

text \<open>
  The comma-separated form of an array of numbers: \<open>IntArray::toCSV\<close> and
  \<open>IntArray::addCSV\<close> of src/zmm/base_array.h and \<open>toCSV\<close> of src/tools.cc. Both
  run on the array operations and use only the laws of \<open>sequence\<close>.
\<close>

primrec csv_loop :: "nat \<Rightarrow> int \<Rightarrow> int base_array \<Rightarrow> char \<Rightarrow> string \<Rightarrow> string result" where
  "csv_loop 0 i a sep buf = Inr buf"
| "csv_loop (Suc n) i a sep buf =
     bind_result (ba_get a i) (\<lambda>x. csv_loop n (i + 1) a sep (buf @ [sep] @ show_int x))"

definition ia_toCSV :: "int base_array \<Rightarrow> char \<Rightarrow> string result" where
  "ia_toCSV a sep =
     bind_result (csv_loop (nat (ba_size a)) 0 a sep []) (\<lambda>buf.
       if length buf \<le> 0 then Inr '''' else Inr (drop 1 buf))"

function addCSV_loop :: "int base_array \<Rightarrow> char \<Rightarrow> string \<Rightarrow> int base_array result" where
  \<comment> \<open>the last argument is the text between \<open>data\<close> and \<open>dataEnd\<close>\<close>
  "addCSV_loop a sep [] = Inr a"
| "addCSV_loop a sep (c # r) =
     (let data = c # r;
          (v, rest) = strtol data;
          used = length (cstr data) - length rest;
          endptr = drop used data
      in if used = 0 then Inl (Throw ''illegal csv given to IntArray'')
         else bind_result (ba_append a (to_int32 v)) (\<lambda>a.
           if endptr = [] then Inr a
           else if hd endptr = sep then addCSV_loop a sep (tl endptr)
           else Inl (Throw ''illegal csv given to IntArray'')))"
  by pat_completeness auto
termination by (relation "measure (\<lambda>(a, sep, r). length r)") auto

definition ia_addCSV :: "int base_array \<Rightarrow> zstring \<Rightarrow> char \<Rightarrow> int base_array result" where
  "ia_addCSV a csv sep = (case csv of None \<Rightarrow> Inr a | Some s \<Rightarrow> addCSV_loop a sep s)"

definition toCSV :: "int list \<Rightarrow> zstring" where
  \<comment> \<open>the elements of the set in the order of its iterator\<close>
  "toCSV xs =
     (if xs = [] then None
      else Some (drop 1 (concat (map (\<lambda>i. CHR '','' # show_int i) xs))))"

lemma concat_seps: "xs \<noteq> [] \<Longrightarrow> concat (map (\<lambda>i. c # f i) xs) = c # join c (map f xs)"
  by (induction xs) (auto simp: join_Cons)

lemma toCSV_join: "toCSV xs = (if xs = [] then None else Some (join (CHR '','') (map show_int xs)))"
  by (simp add: toCSV_def concat_seps)

lemma csv_loop_list:
  "ba_inv a \<Longrightarrow> i + n = length (ba_list a) \<Longrightarrow>
     csv_loop n (int i) a sep buf
       = Inr (buf @ concat (map (\<lambda>x. sep # show_int x) (drop i (ba_list a))))"
proof (induction n arbitrary: i buf)
  case (Suc n)
  then have i: "i < length (ba_list a)" by simp
  have "csv_loop n (int (Suc i)) a sep (buf @ [sep] @ show_int (ba_list a ! i))
      = Inr ((buf @ [sep] @ show_int (ba_list a ! i))
          @ concat (map (\<lambda>x. sep # show_int x) (drop (Suc i) (ba_list a))))"
    using Suc by (intro Suc.IH) simp_all
  moreover have "int (Suc i) = int i + 1" by simp
  moreover have "drop i (ba_list a) = ba_list a ! i # drop (Suc i) (ba_list a)"
    using i by (simp add: Cons_nth_drop_Suc)
  ultimately show ?case
    using array.get_law [OF Suc.prems(1) i] by (simp only: csv_loop.simps bind_result_simps) simp
qed simp

lemma ia_toCSV_join:
  assumes "ba_inv a"
  shows "ia_toCSV a sep = Inr (join sep (map show_int (ba_list a)))"
  using csv_loop_list [OF assms, of 0 "length (ba_list a)" sep "[]"] array.size_law [OF assms]
  by (cases "ba_list a = []") (simp_all add: ia_toCSV_def concat_seps)

definition int32 :: "int \<Rightarrow> bool" where
  "int32 x \<longleftrightarrow> - (2 ^ 31) \<le> x \<and> x < 2 ^ 31"

lemma addCSV_loop_join:
  assumes "ba_inv a" "\<forall>x \<in> set xs. int32 x" "sep \<noteq> NUL" "\<not> is_digit sep"
  shows "\<exists>a'. addCSV_loop a sep (join sep (map show_int xs)) = Inr a' \<and> ba_inv a'
    \<and> ba_list a' = ba_list a @ xs"
  using assms(1,2)
proof (induction xs arbitrary: a)
  case (Cons x xs)
  define t where "t = (if xs = [] then [] else sep # join sep (map show_int xs))"
  have j: "join sep (map show_int (x # xs)) = show_int x @ t"
    by (simp add: t_def join_Cons)
  have nf: "nul_free t" using assms(3) by (auto simp: t_def intro!: nul_free_join)
  have hd: "t = [] \<or> \<not> is_digit (hd t)" using assms(4) by (simp add: t_def)
  have x: "int32 x" using Cons.prems by simp
  have p: "strtol (show_int x @ t) = (x, t)"
    using x by (intro strtol_in_show_int nf hd) (simp_all add: int32_def)
  have v: "to_int32 x = x" using x by (simp add: int32_def)
  obtain c r where cr: "show_int x @ t = c # r" by (cases "show_int x @ t") simp_all
  have nfs: "nul_free (show_int x @ t)" using nf by simp
  obtain a1 where a1: "ba_append a x = Inr a1" "ba_inv a1" "ba_list a1 = ba_list a @ [x]"
    using array.append_law [OF Cons.prems(1)] by blast
  have u: "length (cstr (show_int x @ t)) - length t = length (show_int x)"
    using nfs by simp
  have step: "addCSV_loop a sep (show_int x @ t)
      = (if t = [] then Inr a1 else if hd t = sep then addCSV_loop a1 sep (tl t)
         else Inl (Throw ''illegal csv given to IntArray''))"
    unfolding cr addCSV_loop.simps(2) unfolding cr [symmetric] p Let_def prod.case u v a1(1)
    by simp
  show ?case
  proof (cases "xs = []")
    case True
    then show ?thesis using step a1 by (simp add: j t_def)
  next
    case False
    then show ?thesis
      using step a1 Cons.IH [OF a1(2)] Cons.prems(2) by (simp add: j t_def del: list.map(2))
  qed
qed simp

lemma IntArray_CSV:
  assumes "ba_inv a" "\<forall>x \<in> set (ba_list a). int32 x" "sep \<noteq> NUL" "\<not> is_digit sep"
    "ba_inv b"
  shows "\<exists>csv b'. ia_toCSV a sep = Inr csv \<and> ia_addCSV b (Some csv) sep = Inr b' \<and> ba_inv b'
    \<and> ba_list b' = ba_list b @ ba_list a"
  using addCSV_loop_join [OF assms(5,2,3,4)] ia_toCSV_join [OF assms(1), of sep]
  by (auto simp: ia_addCSV_def)

end
