(* ===== verification/TextTools.thy ===== *)
theory TextTools
  imports ZBuffer Containers Codec
begin

text \<open>
  The text functions of src/tools.cc: splitting, trimming and paths
  (\<open>split_string\<close>, \<open>split_path\<close>, \<open>trim_string\<close>, \<open>get_last_path\<close>,
  \<open>find_in_path\<close>, \<open>tempName\<close>), protocol info and time formats, resolutions,
  and the command line of the transcoder.
\<close>

unbundle bit_operations_syntax

abbreviation DIR_SEPARATOR :: char where "DIR_SEPARATOR \<equiv> CHR ''/''"

section \<open>Splitting\<close>

function split_loop :: "char \<Rightarrow> bool \<Rightarrow> string list \<Rightarrow> string \<Rightarrow> string list" where
  \<comment> \<open>the last argument is the text between \<open>data\<close> and \<open>end\<close>\<close>
  "split_loop sep keep ret [] = ret"
| "split_loop sep keep ret (c # r) =
     (case strchr (c # r) sep of
        None \<Rightarrow> ret @ [cstr (c # r)]
      | Some pos \<Rightarrow>
          if pos = 0 then split_loop sep keep (if r \<noteq> [] \<and> keep then ret @ [''''] else ret) r
          else split_loop sep keep (ret @ [take pos (c # r)]) (drop (pos + 1) (c # r)))"
  by pat_completeness auto
termination by (relation "measure (\<lambda>(sep, keep, ret, r). length r)") auto

definition split_string :: "zstring \<Rightarrow> char \<Rightarrow> bool \<Rightarrow> string list" where
  "split_string str sep keep = (case str of None \<Rightarrow> [] | Some s \<Rightarrow> split_loop sep keep [] s)"

fun pieces :: "char \<Rightarrow> string \<Rightarrow> string list" where
  \<comment> \<open>what splitting means: the maximal pieces between separators\<close>
  "pieces sep [] = [[]]"
| "pieces sep (c # s) =
     (if c = sep then [] # pieces sep s
      else (c # hd (pieces sep s)) # tl (pieces sep s))"

lemma pieces_not_Nil [simp]: "pieces sep s \<noteq> []"
  by (cases s) auto

lemma pieces_split: "sep \<notin> set a \<Longrightarrow> pieces sep (a @ sep # b) = a # pieces sep b"
  by (induction a) auto

lemma pieces_single: "sep \<notin> set s \<Longrightarrow> pieces sep s = [s]"
  by (induction s) auto

lemma join_pieces: "join sep (pieces sep s) = s"
proof (induction s)
  case (Cons c s)
  obtain f fs where fs: "pieces sep s = f # fs" by (cases "pieces sep s") auto
  then show ?case using Cons by (cases fs) auto
qed simp

lemma pieces_join:
  "xs \<noteq> [] \<Longrightarrow> \<forall>x \<in> set xs. sep \<notin> set x \<Longrightarrow> pieces sep (join sep xs) = xs"
  by (induction sep xs rule: join.induct) (auto simp: pieces_single pieces_split)

lemma split_strchr_cases:
  assumes "nul_free s" "s \<noteq> []" "sep \<noteq> NUL"
  obtains (none) "strchr s sep = None" "sep \<notin> set s"
    | (some) a b where "strchr s sep = Some (length a)" "s = a @ sep # b" "sep \<notin> set a"
proof (cases "strchr s sep")
  case None
  then show ?thesis using assms none by (simp add: strchr_None)
next
  case (Some i)
  then have "i < length s" "s ! i = sep" "sep \<notin> set (take i s)"
    using strchr_Some_D [OF Some assms(3)] by auto
  moreover from this have "s = take i s @ sep # drop (Suc i) s"
    by (metis id_take_nth_drop)
  ultimately show ?thesis using some [of "take i s" "drop (Suc i) s"] Some by simp
qed

lemma split_loop_append:
  "split_loop sep e (xs @ ret) s = xs @ split_loop sep e ret s"
proof (induction sep e ret s arbitrary: xs rule: split_loop.induct)
  case (2 sep keep ret c r)
  show ?case
  proof (cases "strchr (c # r) sep")
    case None
    then show ?thesis by (simp only: split_loop.simps option.case append_assoc)
  next
    case (Some pos)
    show ?thesis
    proof (cases "pos = 0")
      case True
      have "(if r \<noteq> [] \<and> keep then (xs @ ret) @ [''''] else xs @ ret)
          = xs @ (if r \<noteq> [] \<and> keep then ret @ [''''] else ret)" by simp
      then show ?thesis
        using 2(1) [OF Some True, of xs] by (simp only: split_loop.simps Some option.case True if_True simp_thms)
    next
      case False
      then show ?thesis
        using 2(2) [OF Some False, of xs]
        by (simp only: split_loop.simps Some option.case if_False append_assoc)
    qed
  qed
qed simp

lemma split_loop_Cons:
  "split_loop sep e (x # ret) s = x # split_loop sep e ret s"
  using split_loop_append [of sep e "[x]" ret s] by simp

lemma split_loop_step:
  assumes "nul_free s" "sep \<noteq> NUL" "s = a @ sep # b" "sep \<notin> set a"
  shows "split_loop sep e [] s
    = (if a = [] then (if b \<noteq> [] \<and> e then [[]] else []) else [a]) @ split_loop sep e [] b"
proof -
  have at: "strchr s sep = Some (length a)"
    using assms strchr_split [of a sep b] by simp
  obtain c r where cr: "s = c # r" using assms(3) by (metis append_is_Nil_conv neq_Nil_conv)
  have d: "drop (length a + 1) s = b" using assms(3) by simp
  show ?thesis
  proof (cases "a = []")
    case True
    then have "r = b" using assms(3) cr by simp
    then show ?thesis
      using True at [unfolded cr] split_loop_Cons [of sep e "[]" "[]" b] unfolding cr
      by (cases "b \<noteq> [] \<and> e") (simp_all only: split_loop.simps option.case list.size simp_thms if_True if_False append_Nil append_Cons)
  next
    case False
    then have "length a \<noteq> 0" "take (length a) s = a" using assms(3) by simp_all
    then show ?thesis
      using False at [unfolded cr] split_loop_Cons [of sep e a "[]" b] d [unfolded cr] unfolding cr
      by (simp only: split_loop.simps option.case if_False append_Nil append_Cons)
  qed
qed

lemma split_loop_last:
  assumes "nul_free s" "sep \<notin> set s" "sep \<noteq> NUL" "s \<noteq> []"
  shows "split_loop sep e [] s = [s]"
proof -
  have "strchr s sep = None" using assms by (simp add: strchr_None)
  moreover obtain c r where "s = c # r" using assms(4) by (cases s) simp_all
  ultimately show ?thesis
    using assms(1) by (simp only: split_loop.simps option.case cstr_nul_free append_Nil)
qed

lemma split_string_pieces:
  assumes "nul_free s" "sep \<noteq> NUL"
  shows "split_string (Some s) sep False = filter (\<lambda>f. f \<noteq> []) (pieces sep s)"
  using assms(1)
proof (induction "length s" arbitrary: s rule: less_induct)
  case less
  show ?case
  proof (cases "s = []")
    case False
    from less.prems False assms(2) show ?thesis
    proof (cases rule: split_strchr_cases)
      case none
      then show ?thesis
        using split_loop_last [OF less.prems none(2) assms(2) False] False
        by (simp add: split_string_def pieces_single)
    next
      case (some a b)
      have "split_string (Some b) sep False = filter (\<lambda>f. f \<noteq> []) (pieces sep b)"
        using less.hyps [of b] less.prems some(2) by simp
      then show ?thesis
        using split_loop_step [OF less.prems assms(2) some(2,3)] pieces_split [OF some(3), of b] some(2)
        by (simp add: split_string_def)
    qed
  qed (simp add: split_string_def)
qed

lemma split_string_keep_empty:
  assumes "nul_free s" "sep \<noteq> NUL" "s \<noteq> []" "last s \<noteq> sep"
  shows "split_string (Some s) sep True = pieces sep s"
  using assms(1,3,4)
proof (induction "length s" arbitrary: s rule: less_induct)
  case less
  from less.prems(1,2) assms(2) show ?case
  proof (cases rule: split_strchr_cases)
    case none
    then show ?thesis
      using split_loop_last [OF less.prems(1) none(2) assms(2) less.prems(2)]
      by (simp add: split_string_def pieces_single)
  next
    case (some a b)
    have b: "b \<noteq> []" "last b \<noteq> sep" using less.prems(3) some(2) by auto
    have "split_string (Some b) sep True = pieces sep b"
      using less.hyps [of b] less.prems some(2) b by simp
    then show ?thesis
      using split_loop_step [OF less.prems(1) assms(2) some(2,3)] pieces_split [OF some(3), of b] some(2) b
      by (simp add: split_string_def)
  qed
qed

section \<open>Paths and white space\<close>

definition split_path :: "zstring \<Rightarrow> string list result" where
  "split_path str =
     (if \<not> string_ok str then Inl (Throw ''invalid path given to split_path'')
      else
        (let pos = z_rindex str DIR_SEPARATOR; data = the str
         in if pos < 0 then Inl (Throw (''relative path given to split_path: '' @ cstr data))
            else if pos = 0 then Inr [[DIR_SEPARATOR], cstr (drop 1 data)]
            else Inr [take (nat pos) data, cstr (drop (nat pos + 1) data)]))"

definition white_space :: "char \<Rightarrow> bool" where
  \<comment> \<open>\<open>strchr(WHITE_SPACE, c)\<close> is not null: it also finds the terminator\<close>
  "white_space c \<longleftrightarrow> strchr [CHR '' '', CHR 0x09, CHR 0x0D, CHR 0x0A] c \<noteq> None"

definition trim_string :: "zstring \<Rightarrow> zstring result" where
  "trim_string str =
     (case str of
        None \<Rightarrow> Inr None
      | Some buf \<Rightarrow>
          (let start = length (takeWhile white_space buf)
           in if start \<ge> length buf then Inr (Some '''')
              else
                (let end = length buf - length (takeWhile white_space (rev buf))
                 in z_substring str (int start) (int end - int start))))"

definition get_last_path :: "zstring \<Rightarrow> zstring result" where
  "get_last_path location =
     (let last_slash = z_rindex location DIR_SEPARATOR
      in if last_slash > 0 then
           bind_result (z_substring location 0 last_slash) (\<lambda>path.
             (let slash = z_rindex path DIR_SEPARATOR
              in if slash \<ge> 0 \<and> slash + 1 < z_length path then z_substring_from path (slash + 1)
                 else Inr path))
         else Inr None)"

lemma split_path_join:
  assumes "nul_free s" "split_path (Some s) = Inr parts"
  shows "\<exists>dir file. parts = [dir, file] \<and> DIR_SEPARATOR \<notin> set file
    \<and> (s = dir @ DIR_SEPARATOR # file \<or> dir = [DIR_SEPARATOR] \<and> s = DIR_SEPARATOR # file)"
proof -
  obtain i where i: "strrchr s DIR_SEPARATOR = Some i"
    using assms by (auto simp: split_path_def z_rindex_def Let_def split: if_splits option.splits)
  have p: "i < length s" "s ! i = DIR_SEPARATOR" "DIR_SEPARATOR \<notin> set (drop (Suc i) s)"
    using strrchr_Some_D [OF i _ assms(1)] by auto
  have s: "s = take i s @ DIR_SEPARATOR # drop (Suc i) s"
    using p by (metis id_take_nth_drop)
  have "s \<noteq> []" using p(1) by auto
  then have ok: "string_ok (Some s)" using assms(1) by (simp add: cstring_simps)
  show ?thesis
  proof (cases "i = 0")
    case True
    then have "parts = [[DIR_SEPARATOR], drop 1 s]"
      using assms i ok by (simp add: split_path_def z_rindex_def)
    then show ?thesis using s p True by auto
  next
    case False
    then have "parts = [take i s, drop (Suc i) s]"
      using assms i ok by (simp add: split_path_def z_rindex_def nat_add_distrib)
    then show ?thesis using s p by auto
  qed
qed

lemma white_space_NUL: "white_space NUL"
  by (simp add: white_space_def)

lemma trim_string_correct:
  assumes "nul_free s"
  shows "trim_string (Some s)
    = Inr (Some (rev (dropWhile white_space (rev (dropWhile white_space s)))))"
proof (cases "\<forall>c \<in> set s. white_space c")
  case True
  then have e: "takeWhile white_space s = s" "dropWhile white_space s = []"
    by (simp_all add: takeWhile_eq_all_conv dropWhile_eq_Nil_conv)
  show ?thesis unfolding trim_string_def option.case e by simp
next
  case False
  let ?a = "takeWhile white_space s" and ?b = "dropWhile white_space s"
  have b: "?b \<noteq> []" "\<not> white_space (hd ?b)"
    using False hd_dropWhile [of white_space s] by (auto simp: dropWhile_eq_Nil_conv)
  have "takeWhile white_space (rev ?b @ rev ?a) = takeWhile white_space (rev ?b)"
    using b by (intro takeWhile_append1 [of "hd ?b"]) simp_all
  moreover have "rev s = rev ?b @ rev ?a"
    by (metis rev_append takeWhile_dropWhile_id)
  ultimately have tw: "takeWhile white_space (rev s) = takeWhile white_space (rev ?b)" by simp
  have len: "length s = length ?a + length ?b"
    by (metis length_append takeWhile_dropWhile_id)
  have le: "length (takeWhile white_space (rev ?b)) \<le> length ?b"
    using length_takeWhile_le [of white_space "rev ?b"] by simp
  have "length ?a < length s" using b(1) len by simp
  then have "trim_string (Some s) = z_substring (Some s) (int (length ?a))
      (int (length ?b - length (takeWhile white_space (rev ?b))))"
    using len le False by (auto simp: trim_string_def tw Let_def algebra_simps of_nat_diff)
  also have "\<dots> = Inr (Some (take (length ?b - length (takeWhile white_space (rev ?b))) ?b))"
    using z_substring_Some [OF assms, of "int (length ?a)"
        "int (length ?b - length (takeWhile white_space (rev ?b)))"] len
    unfolding nat_int dropWhile_eq_drop [symmetric] by simp
  also have "take (length ?b - length (takeWhile white_space (rev ?b))) ?b
      = rev (dropWhile white_space (rev ?b))"
    by (simp add: dropWhile_eq_drop drop_rev)
  finally show ?thesis .
qed

section \<open>Protocol info, resolutions and times\<close>

definition renderProtocolInfo :: "zstring \<Rightarrow> zstring \<Rightarrow> zstring \<Rightarrow> zstring" where
  "renderProtocolInfo mimetype protocol ext =
     (if string_ok mimetype \<and> string_ok protocol then
        (let head = z_append (z_append (z_append protocol (Some '':*:'')) mimetype) (Some '':'')
         in if string_ok ext then z_append head ext else z_append head (Some ''*''))
      else Some ''http-get:*:*:*'')"

definition getMTFromProtocolInfo :: "zstring \<Rightarrow> zstring" where
  "getMTFromProtocolInfo protocol =
     (let parts = split_string protocol (CHR '':'') False
      in if length parts > 2 then Some (parts ! 2) else None)"

definition getProtocol :: "zstring \<Rightarrow> zstring result" where
  "getProtocol protocolInfo =
     (let pos = z_index protocolInfo 0 (CHR '':'')
      in if pos \<le> 0 then Inr (Some ''http-get'') else z_substring protocolInfo 0 pos)"

definition pad2 :: "int \<Rightarrow> string" where
  \<comment> \<open>\<open>%02d\<close>\<close>
  "pad2 n = (if 0 \<le> n \<and> n < 10 then CHR ''0'' # show_int n else show_int n)"

definition secondsToHMS :: "int \<Rightarrow> string result" where
  \<comment> \<open>\<open>Abort\<close> when the text and its terminator do not fit in the ten bytes allocated\<close>
  "secondsToHMS seconds =
     (let s = seconds smod 60; seconds = seconds sdiv 60;
          m = seconds smod 60; h = seconds sdiv 60;
          h = (if h > 999 then 999 else h);
          str = pad2 h @ '':'' @ pad2 m @ '':'' @ pad2 s
      in if length str + 1 \<le> 10 then Inr str else Inl Abort)"

definition scan_int :: "string \<Rightarrow> (int \<times> string) option" where
  \<comment> \<open>the conversion \<open>%d\<close> of \<open>sscanf\<close>\<close>
  "scan_int s =
     (let (v, rest) = strtol_in (- (2 ^ 31)) (2 ^ 31 - 1) s
      in if length rest < length (cstr s) then Some (v, rest) else None)"

definition scan_colon :: "string \<Rightarrow> string option" where
  "scan_colon s = (case s of c # r \<Rightarrow> if c = CHR '':'' then Some r else None | [] \<Rightarrow> None)"

definition scan_HMS :: "string \<Rightarrow> int \<times> int \<times> int" where
  \<comment> \<open>\<open>sscanf(s, "%d:%d:%d", ...)\<close> into three variables that hold 0\<close>
  "scan_HMS s =
     (case scan_int s of None \<Rightarrow> (0, 0, 0) | Some (h, r) \<Rightarrow>
      (case scan_colon r of None \<Rightarrow> (h, 0, 0) | Some r \<Rightarrow>
      (case scan_int r of None \<Rightarrow> (h, 0, 0) | Some (m, r) \<Rightarrow>
      (case scan_colon r of None \<Rightarrow> (h, m, 0) | Some r \<Rightarrow>
      (case scan_int r of None \<Rightarrow> (h, m, 0) | Some (sec, r) \<Rightarrow> (h, m, sec))))))"

definition HMSToSeconds :: "zstring \<Rightarrow> int" where
  "HMSToSeconds time =
     (if \<not> string_ok time then 0
      else (let (hours, minutes, seconds) = scan_HMS (the time)
            in hours * 3600 + minutes * 60 + seconds))"

definition check_resolution :: "zstring \<Rightarrow> bool \<times> int \<times> int" where
  \<comment> \<open>the result and what is stored through \<open>x\<close> and \<open>y\<close>\<close>
  "check_resolution resolution =
     (let parts = split_string resolution (CHR ''x'') False
      in if length parts \<noteq> 2 then (False, 0, 0)
         else if string_ok (Some (parts ! 0)) \<and> string_ok (Some (parts ! 1)) then
           (let x = z_toInt (Some (parts ! 0)); y = z_toInt (Some (parts ! 1))
            in if x > 0 \<and> y > 0 then (True, x, y) else (False, 0, 0))
         else (False, 0, 0))"

definition parseCommandLine :: "zstring \<Rightarrow> zstring \<Rightarrow> zstring \<Rightarrow> zstring \<Rightarrow> zstring list" where
  "parseCommandLine line inp outp rng =
     (let params = map Some (split_string line (CHR '' '') False)
      in if inp = None \<and> outp = None then params
         else map (\<lambda>param.
           let newParam = z_replace param (Some ''%in'') inp;
               newParam = z_replace newParam (Some ''%out'') outp;
               newParam = (if rng \<noteq> None then z_replace newParam (Some ''%range'') rng else newParam)
           in if \<not> z_eq param newParam then newParam else param) params)"

lemma string_ok_nf: "nul_free s \<Longrightarrow> string_ok (Some s) \<longleftrightarrow> s \<noteq> []"
  by (rule string_ok_Some)

lemma pieces_four:
  "CHR '':'' \<notin> set a \<Longrightarrow> CHR '':'' \<notin> set b \<Longrightarrow> CHR '':'' \<notin> set c \<Longrightarrow>
     pieces (CHR '':'') (a @ CHR '':'' # b @ CHR '':'' # c @ CHR '':'' # d)
       = a # b # c # pieces (CHR '':'') d"
  by (simp add: pieces_split)

lemma getMT_renderProtocolInfo:
  assumes "nul_free m" "nul_free p" "nul_free e" "m \<noteq> []" "p \<noteq> []"
    and "CHR '':'' \<notin> set m" "CHR '':'' \<notin> set p"
  shows "getMTFromProtocolInfo (renderProtocolInfo (Some m) (Some p) (Some e)) = Some m"
proof -
  define t where "t = (if e = [] then ''*'' else e)"
  have t: "nul_free t" "t \<noteq> []" using assms(3) by (auto simp: t_def)
  have r: "renderProtocolInfo (Some m) (Some p) (Some e)
      = Some (p @ CHR '':'' # ''*'' @ CHR '':'' # m @ CHR '':'' # t)"
    using assms by (simp add: renderProtocolInfo_def string_ok_nf z_append_Some t_def)
  have "split_string (Some (p @ CHR '':'' # ''*'' @ CHR '':'' # m @ CHR '':'' # t)) (CHR '':'') False
      = p # ''*'' # m # filter (\<lambda>f. f \<noteq> []) (pieces (CHR '':'') t)"
  proof -
    have "CHR '':'' \<notin> set ''*''" "nul_free (p @ CHR '':'' # ''*'' @ CHR '':'' # m @ CHR '':'' # t)"
      using assms t by simp_all
    then show ?thesis
      using assms pieces_four [of p "''*''" m t] by (simp add: split_string_pieces)
  qed
  then show ?thesis by (simp add: getMTFromProtocolInfo_def r)
qed

lemma getProtocol_render:
  assumes "nul_free m" "nul_free p" "nul_free e" "m \<noteq> []" "p \<noteq> []" "CHR '':'' \<notin> set p"
  shows "getProtocol (renderProtocolInfo (Some m) (Some p) (Some e)) = Inr (Some p)"
proof -
  define t where "t = ''*:'' @ m @ CHR '':'' # (if e = [] then ''*'' else e)"
  have r: "renderProtocolInfo (Some m) (Some p) (Some e) = Some (p @ CHR '':'' # t)"
    using assms by (simp add: renderProtocolInfo_def string_ok_nf z_append_Some t_def)
  have nf: "nul_free (p @ CHR '':'' # t)" using assms by (simp add: t_def)
  have "index_from (p @ CHR '':'' # t) 0 (CHR '':'') = int (length p)"
    using index_from_split [of "[]" p "CHR '':''" t] assms by simp
  then show ?thesis
    using assms z_substring_Some [OF nf, of 0 "int (length p)"]
    by (simp add: getProtocol_def r z_index_def)
qed

lemma strtol_in_pad2:
  assumes "lo \<le> n" "n \<le> hi" "0 \<le> n" "nul_free t" "t = [] \<or> \<not> is_digit (hd t)"
  shows "strtol_in lo hi (pad2 n @ t) = (n, t)"
proof (cases "n < 10")
  case True
  have "takeWhile is_digit t = []" "dropWhile is_digit t = t"
    using assms(5) by (cases t; simp)+
  moreover have "show_int n = [digit (nat n)]"
    using True assms(3) by (simp add: show_int_def show_nat.simps)
  moreover have "is_digit (CHR ''0'')" "\<not> is_space (CHR ''0'')"
    by (simp_all add: is_digit_def is_space_def)
  ultimately show ?thesis
    using assms True
    by (simp add: pad2_def strtol_in_def Let_def digits_val_def digit_val_def)
next
  case False
  then show ?thesis using assms strtol_in_show_int [of lo n hi t] by (simp add: pad2_def)
qed

lemma scan_int_pad2:
  assumes "n < 2 ^ 31" "0 \<le> n" "nul_free t" "t = [] \<or> \<not> is_digit (hd t)"
  shows "scan_int (pad2 n @ t) = Some (n, t)"
proof -
  have "pad2 n \<noteq> []" "nul_free (pad2 n @ t)" using assms(3) by (simp_all add: pad2_def)
  then show ?thesis
    using assms strtol_in_pad2 [of "- (2 ^ 31)" n "2 ^ 31 - 1" t] by (simp add: scan_int_def)
qed

lemma length_pad2: "0 \<le> n \<Longrightarrow> n < 100 \<Longrightarrow> length (pad2 n) = 2"
proof -
  assume n: "0 \<le> n" "n < 100"
  show ?thesis
  proof (cases "n < 10")
    case True
    then show ?thesis using n by (simp add: pad2_def show_int_def show_nat.simps)
  next
    case False
    then have "nat n div 10 < 10" "\<not> nat n < 10" using n by auto
    then show ?thesis using n False by (simp add: pad2_def show_int_def show_nat.simps [of "nat n"] show_nat.simps [of "nat n div 10"])
  qed
qed

lemma length_pad2_3: "0 \<le> n \<Longrightarrow> n < 1000 \<Longrightarrow> length (pad2 n) \<le> 3"
  using length_show_nat_le [of "nat n" 3] length_pad2 [of n]
  by (cases "n < 10") (auto simp: pad2_def show_int_def)

lemma smod_sdiv_nonneg: "0 \<le> (a::int) \<Longrightarrow> 0 < b \<Longrightarrow> a smod b = a mod b \<and> a sdiv b = a div b"
  by (cases "a = 0") (simp_all add: signed_modulo_int_def signed_divide_int_def)

lemma HMS_round_trip:
  assumes "0 \<le> n" "n < 3600000"
  shows "\<exists>t. secondsToHMS n = Inr t \<and> HMSToSeconds (Some t) = n"
proof -
  define h m s where hms: "h = n div 60 div 60" "m = n div 60 mod 60" "s = n mod 60"
  have b: "0 \<le> h" "h < 1000" "0 \<le> m" "m < 60" "0 \<le> s" "s < 60" using assms by (auto simp: hms)
  have sum: "h * 3600 + m * 60 + s = n" by (simp add: hms) presburger
  let ?t = "pad2 h @ CHR '':'' # pad2 m @ CHR '':'' # pad2 s"
  have "length ?t + 1 \<le> 10"
    using length_pad2_3 [OF b(1,2)] length_pad2 [of m] length_pad2 [of s] b by simp
  then have 1: "secondsToHMS n = Inr ?t"
    using assms b by (simp add: secondsToHMS_def smod_sdiv_nonneg Let_def hms [symmetric])
  have nf: "nul_free (pad2 x)" for x by (simp add: pad2_def)
  have "scan_int ?t = Some (h, CHR '':'' # pad2 m @ CHR '':'' # pad2 s)"
    "scan_int (pad2 m @ CHR '':'' # pad2 s) = Some (m, CHR '':'' # pad2 s)"
    "scan_int (pad2 s @ []) = Some (s, [])"
    using b by (intro scan_int_pad2; simp add: nf is_digit_def)+
  then have "scan_HMS ?t = (h, m, s)" by (simp add: scan_HMS_def scan_colon_def)
  moreover have "string_ok (Some ?t)" by (subst string_ok_nf) (simp_all add: nf)
  ultimately show ?thesis using 1 sum by (auto simp: HMSToSeconds_def)
qed


end
