(* ===== verification/TimeTools.thy ===== *)
theory TimeTools
  imports Prelude
begin

text \<open>
  Points in time as the C structure \<open>timespec\<close>, ordered lexicographically, and
  the arithmetic of src/tools.cc on them (\<open>getDeltaMillis\<close>,
  \<open>getTimespecAfterMillis\<close>). The system clock is an argument.
\<close>

datatype timespec = Timespec (tv_sec: int) (tv_nsec: int)

instantiation timespec :: linorder
begin

definition less_eq_timespec :: "timespec \<Rightarrow> timespec \<Rightarrow> bool" where
  "less_eq_timespec a b \<longleftrightarrow>
     tv_sec a < tv_sec b \<or> (tv_sec a = tv_sec b \<and> tv_nsec a \<le> tv_nsec b)"

definition less_timespec :: "timespec \<Rightarrow> timespec \<Rightarrow> bool" where
  "less_timespec a b \<longleftrightarrow> (a \<le> b \<and> \<not> b \<le> a)"

instance
  by intro_classes (auto simp: less_eq_timespec_def less_timespec_def timespec.expand)

end

definition getDeltaMillis :: "timespec \<Rightarrow> timespec \<Rightarrow> int" where
  "getDeltaMillis first second =
     (tv_sec second - tv_sec first) * 1000 + (tv_nsec second - tv_nsec first) sdiv 1000000"

definition getTimespecAfterMillis :: "int \<Rightarrow> timespec \<Rightarrow> timespec" where
  "getTimespecAfterMillis delta start =
     (let sec = tv_sec start + delta sdiv 1000;
          nsec = tv_nsec start + (delta smod 1000) * 1000000
      in if nsec \<ge> 1000000000 then Timespec (sec + 1) (nsec - 1000000000)
         else Timespec sec nsec)"

definition ts_valid :: "timespec \<Rightarrow> bool" where
  "ts_valid t \<longleftrightarrow> 0 \<le> tv_nsec t \<and> tv_nsec t < 1000000000"

definition ts_nanos :: "timespec \<Rightarrow> int" where
  "ts_nanos t = tv_sec t * 1000000000 + tv_nsec t"

lemma ts_le_nanos: "ts_valid a \<Longrightarrow> ts_valid b \<Longrightarrow> a \<le> b \<longleftrightarrow> ts_nanos a \<le> ts_nanos b"
  by (auto simp: less_eq_timespec_def ts_valid_def ts_nanos_def)

lemma sdiv_exact: "0 < b \<Longrightarrow> (k * b) sdiv b = (k :: int)"
proof -
  assume b: "0 < b"
  have "- (k * b) div b = - k" using b by (metis mult_minus_left nonzero_mult_div_cancel_right less_irrefl)
  then show ?thesis
    using b by (cases k rule: linorder_cases [of _ 0]) (simp_all add: signed_divide_int_def sgn_mult abs_mult)
qed

lemma after_nonneg:
  assumes "0 \<le> delta"
  shows "getTimespecAfterMillis delta start =
     (let nsec = tv_nsec start + delta mod 1000 * 1000000
      in if nsec \<ge> 1000000000 then Timespec (tv_sec start + delta div 1000 + 1) (nsec - 1000000000)
         else Timespec (tv_sec start + delta div 1000) nsec)"
proof -
  have "delta sdiv 1000 = delta div 1000" "delta smod 1000 = delta mod 1000"
    using assms by (cases "delta = 0"; simp add: signed_divide_int_def signed_modulo_int_def)+
  then show ?thesis by (simp add: getTimespecAfterMillis_def Let_def)
qed

lemma after_valid:
  assumes "0 \<le> delta" "ts_valid start"
  shows "ts_valid (getTimespecAfterMillis delta start)"
    and "ts_nanos (getTimespecAfterMillis delta start) = ts_nanos start + delta * 1000000"
proof -
  have m: "0 \<le> delta mod 1000" "delta mod 1000 < 1000" "delta = delta div 1000 * 1000 + delta mod 1000"
    by simp_all
  show "ts_valid (getTimespecAfterMillis delta start)"
    using assms m by (auto simp: after_nonneg Let_def ts_valid_def)
  show "ts_nanos (getTimespecAfterMillis delta start) = ts_nanos start + delta * 1000000"
  proof -
    have "delta * 1000000 = delta div 1000 * 1000000000 + delta mod 1000 * 1000000"
      using m(3) by presburger
    then show ?thesis using assms by (simp add: after_nonneg Let_def ts_nanos_def algebra_simps)
  qed
qed

lemma delta_after:
  assumes "0 \<le> delta"
  shows "getDeltaMillis start (getTimespecAfterMillis delta start) = delta"
proof -
  have q: "delta div 1000 * 1000 + delta mod 1000 = delta" by simp
  have 1: "(delta mod 1000 * 1000000) sdiv 1000000 = delta mod 1000" by (rule sdiv_exact) simp
  have "(delta mod 1000 - 1000) * 1000000 sdiv 1000000 = delta mod 1000 - 1000"
    by (rule sdiv_exact) simp
  then have 2: "(delta mod 1000 * 1000000 - 1000000000) sdiv 1000000 = delta mod 1000 - 1000"
    by (simp add: algebra_simps)
  show ?thesis
  proof (cases "tv_nsec start + delta mod 1000 * 1000000 \<ge> 1000000000")
    case True
    have "tv_nsec start + delta mod 1000 * 1000000 - 1000000000 - tv_nsec start
        = delta mod 1000 * 1000000 - 1000000000" by simp
    then show ?thesis using True q 2 assms by (simp add: after_nonneg getDeltaMillis_def Let_def)
  next
    case False
    then show ?thesis using q 1 assms by (simp add: after_nonneg getDeltaMillis_def Let_def)
  qed
qed

lemma after_negative: "getTimespecAfterMillis (- 1) (Timespec 5 0) = Timespec 5 (- 1000000)"
  by code_simp

end
