(* ===== verification/Escape.thy ===== *)
theory Escape
  imports ZString
begin

text \<open>
  Escaping in src/tools.cc: \<open>escape\<close>, \<open>unescape\<close> and \<open>unescape_amp\<close>. Each loop
  is kept with its positions and flags, writes into a buffer of the size the
  code allocates (more is \<open>Abort\<close>), and is proved equal to the obvious
  function on lists.
\<close>

lemma index_from_ge: "0 \<le> index_from s i c \<Longrightarrow> i \<le> index_from s i c"
  by (auto simp: index_from_def split: option.splits if_splits)

lemma z_index_ge: "0 \<le> z_index z i c \<Longrightarrow> i \<le> z_index z i c"
  using index_from_ge by (auto simp: z_index_def split: option.splits)

section \<open>Definitions\<close>

definition segment :: "zstring \<Rightarrow> int \<Rightarrow> int \<Rightarrow> string" where
  \<comment> \<open>what \<open>strncpy(_, string.charPtrAt(from), count)\<close> stores\<close>
  "segment z from count =
     (case z of None \<Rightarrow> [] | Some s \<Rightarrow> strncpy (nat count) (drop (nat from) s))"

definition to_buffer :: "int \<Rightarrow> string \<Rightarrow> zstring result" where
  \<comment> \<open>the text written to a buffer of that capacity, read back as a C string\<close>
  "to_buffer capacity out = (if int (length out) \<le> capacity then Inr (Some (cstr out)) else Inl Abort)"

function escape_loop ::
  "zstring \<Rightarrow> char \<Rightarrow> char \<Rightarrow> bool \<Rightarrow> bool \<Rightarrow> int \<Rightarrow> string \<Rightarrow> string" where
  "escape_loop z escape_char to_escape more_esc more_char lst out =
     (let len = z_length z;
          next_esc = (if more_esc then z_index z lst escape_char else -1);
          more_esc = (more_esc \<and> \<not> next_esc < 0);
          next = (if more_char then z_index z lst to_escape else -1);
          more_char = (more_char \<and> \<not> next < 0);
          next = (if next < 0 \<or> (next_esc \<ge> 0 \<and> next_esc < next) then next_esc else next);
          next = (if next < 0 then len else next);
          cpLen = next - lst;
          out = (if cpLen > 0 then out @ segment z lst cpLen else out);
          out = (if next < len then out @ [CHR 0x5C, byte_at (the z) (nat next)] else out);
          lst' = next + 1
      in if lst' < len then escape_loop z escape_char to_escape more_esc more_char lst' out
         else out)"
  by pat_completeness auto
termination
proof (relation "measure (\<lambda>(z, _, _, _, _, lst, _). nat (z_length z - lst))", goal_cases)
  case (2 z escape_char to_escape more_esc more_char lst)
  then show ?case
    using z_index_ge [of z lst escape_char] z_index_ge [of z lst to_escape]
    by (auto split: if_splits)
qed simp

definition escape :: "zstring \<Rightarrow> char \<Rightarrow> char \<Rightarrow> zstring result" where
  "escape z escape_char to_escape =
     to_buffer (2 * z_length z) (escape_loop z escape_char to_escape True True 0 [])"

function unescape_loop :: "zstring \<Rightarrow> char \<Rightarrow> int \<Rightarrow> string \<Rightarrow> string" where
  "unescape_loop z esc lst out =
     (let len = z_length z;
          next = z_index z (lst + 1) esc;
          next = (if next < 0 then len else next);
          lst = (if lst < 0 then 0 else lst);
          cpLen = next - lst;
          out = (if cpLen > 0 then out @ segment z lst cpLen else out);
          lst' = next + 1
      in if lst' < len then unescape_loop z esc lst' out else out)"
  by pat_completeness auto
termination
proof (relation "measure (\<lambda>(z, _, lst, _). nat (z_length z - lst))", goal_cases)
  case (2 z esc lst)
  then show ?case using z_index_ge [of z "lst + 1" esc] by (auto split: if_splits)
qed simp

definition unescape :: "zstring \<Rightarrow> char \<Rightarrow> zstring result" where
  "unescape z esc = to_buffer (z_length z) (unescape_loop z esc (-1) [])"

definition amp_at :: "string \<Rightarrow> int \<Rightarrow> bool" where
  "amp_at s next =
     (next < int (length s) \<and> byte_at s (nat (next + 1)) = CHR ''a''
      \<and> byte_at s (nat (next + 2)) = CHR ''m'' \<and> byte_at s (nat (next + 3)) = CHR ''p''
      \<and> byte_at s (nat (next + 4)) = CHR '';'')"

function amp_search :: "string \<Rightarrow> int \<Rightarrow> int \<times> int" where
  \<comment> \<open>the inner loop: the final \<open>next\<close> and \<open>skip\<close>\<close>
  "amp_search s next =
     (let next' = index_from s (next + 1) (CHR ''&''); skip = (if amp_at s next' then 4 else 0)
      in if next' > 0 \<and> skip = 0 then amp_search s next' else (next', skip))"
  by pat_completeness auto
termination
proof (relation "measure (\<lambda>(s, next). nat (int (length s) - next))", goal_cases)
  case (2 s n)
  then show ?case using index_from_range [of "CHR ''&''" s "n + 1"] by auto
qed simp

declare amp_search.simps [simp del]

lemma amp_search_bounds:
  "amp_search s n = (q, k) \<Longrightarrow>
     (q = -1 \<or> (n < q \<and> 0 \<le> q \<and> q < int (length s))) \<and> (k = 0 \<or> k = 4)"
proof (induction s n rule: amp_search.induct)
  case (1 s n)
  let ?i = "index_from s (n + 1) (CHR ''&'')" and ?k = "if amp_at s (index_from s (n + 1) (CHR ''&'')) then 4 else 0 :: int"
  have r: "?i = -1 \<or> n < ?i \<and> 0 \<le> ?i \<and> ?i < int (length s)"
    using index_from_range [of "CHR ''&''" s "n + 1"] by auto
  have e: "amp_search s n = (if ?i > 0 \<and> ?k = 0 then amp_search s ?i else (?i, ?k))"
    by (subst amp_search.simps) (simp add: Let_def)
  show ?case
  proof (cases "?i > 0 \<and> ?k = 0")
    case True
    then have "amp_search s ?i = (q, k)" using 1(2) e by simp
    then show ?thesis using 1(1) [OF refl refl True] r True by auto
  next
    case False
    then have "(q, k) = (?i, ?k)" using 1(2) e by (simp only: if_False)
    then show ?thesis using r by auto
  qed
qed

function unescape_amp_loop :: "string \<Rightarrow> int \<Rightarrow> string \<Rightarrow> string" where
  \<comment> \<open>the bytes written, the terminator included\<close>
  "unescape_amp_loop s lst out =
     (let len = int (length s);
          (next, skip) = amp_search s (lst - 1);
          next = (if next < 0 then len else next);
          cpLen = next - lst + 1;
          out = out @ take (nat cpLen) (drop (nat lst) (s @ [NUL]));
          lst' = next + skip + 1
      in if lst' \<le> len then unescape_amp_loop s lst' out else out)"
  by pat_completeness auto
termination
proof (relation "measure (\<lambda>(s, lst, _). nat (int (length s) + 1 - lst))", goal_cases)
  case (2 s lst out len p n skip)
  then have "amp_search s (lst - 1) = (n, skip)" by simp
  then show ?case using amp_search_bounds [of s "lst - 1" n skip] 2 by (auto split: if_splits)
qed simp

definition unescape_amp :: "zstring \<Rightarrow> zstring result" where
  \<comment> \<open>the \<open>assert\<close> compares the length written with \<open>strlen\<close>\<close>
  "unescape_amp z =
     (case z of
        None \<Rightarrow> Inr None
      | Some s \<Rightarrow>
          (let out = unescape_amp_loop s 0 [] in
             if length out \<le> length s + 1 \<and> length out - 1 = length (cstr out)
             then Inr (Some (cstr out)) else Inl Abort))"

declare escape_loop.simps [simp del] unescape_loop.simps [simp del]
  unescape_amp_loop.simps [simp del]

section \<open>escape\<close>

fun escape_spec :: "(char \<Rightarrow> bool) \<Rightarrow> string \<Rightarrow> string" where
  "escape_spec P [] = []"
| "escape_spec P (c # s) = (if P c then [CHR 0x5C, c] else [c]) @ escape_spec P s"

lemma escape_spec_plain: "\<forall>c \<in> set a. \<not> P c \<Longrightarrow> escape_spec P (a @ b) = a @ escape_spec P b"
  by (induction a) auto

lemma length_escape_spec: "length (escape_spec P s) \<le> 2 * length s"
  by (induction s) auto

lemma nul_free_escape_spec [simp]: "nul_free s \<Longrightarrow> nul_free (escape_spec P s)"
  by (induction s) auto

lemma segment_Some:
  "nul_free s \<Longrightarrow> 0 \<le> i \<Longrightarrow> i + n \<le> int (length s) \<Longrightarrow>
     segment (Some s) i n = take (nat n) (drop (nat i) s)"
  by (cases "0 \<le> n") (simp_all add: segment_def)

lemma first_of_two:
  assumes "ne = -1 \<and> e \<notin> set D \<or> l \<le> ne \<and> ne < len \<and> f ne = e \<and> e \<notin> set (take (nat (ne - l)) D)"
    and "nc = -1 \<and> c \<notin> set D \<or> l \<le> nc \<and> nc < len \<and> f nc = c \<and> c \<notin> set (take (nat (nc - l)) D)"
    and "0 \<le> l" "(l::int) \<le> len"
    and n: "n = (if nc < 0 \<or> ne \<ge> 0 \<and> ne < nc then ne else nc)"
  shows "n < 0 \<and> (\<forall>x \<in> set D. \<not> (x = e \<or> x = c))
    \<or> l \<le> n \<and> n < len \<and> (f n = e \<or> f n = c) \<and> (\<forall>x \<in> set (take (nat (n - l)) D). \<not> (x = e \<or> x = c))"
proof -
  have sub: "set (take (nat (i - l)) D) \<subseteq> set (take (nat (j - l)) D)" if "i \<le> j" for i j
    by (rule set_take_subset_set_take) (use that in simp)
  have sub': "set (take k D) \<subseteq> set D" for k by (rule set_take_subset)
  consider "ne = -1" "nc = -1" | "ne = -1" "nc \<ge> 0" | "ne \<ge> 0" "nc = -1" | "ne \<ge> 0" "nc \<ge> 0"
    using assms by linarith
  then show ?thesis
  proof cases
    case 4
    then show ?thesis
      using assms(1,2) n sub [of ne nc] sub [of nc ne] by (cases "ne < nc") auto
  qed (use assms(1,2,3) n sub' in \<open>auto; blast\<close>)+
qed

lemma escape_loop_correct:
  assumes "nul_free s" "e \<noteq> NUL" "c \<noteq> NUL"
  shows "lst \<le> length s \<Longrightarrow> (me \<or> e \<notin> set (drop lst s)) \<Longrightarrow> (mc \<or> c \<notin> set (drop lst s)) \<Longrightarrow>
    escape_loop (Some s) e c me mc (int lst) out
      = out @ escape_spec (\<lambda>x. x = e \<or> x = c) (drop lst s)"
proof (induction "length s - lst" arbitrary: lst me mc out rule: less_induct)
  case less
  let ?P = "\<lambda>x. x = e \<or> x = c" and ?D = "drop lst s" and ?len = "int (length s)"
  define ne where "ne = (if me then index_from s (int lst) e else -1)"
  define nc where "nc = (if mc then index_from s (int lst) c else -1)"
  define n where "n = (if nc < 0 \<or> ne \<ge> 0 \<and> ne < nc then ne else nc)"
  define m where "m = (if n < 0 then ?len else n)"
  have E: "ne = -1 \<and> e \<notin> set ?D
      \<or> int lst \<le> ne \<and> ne < ?len \<and> s ! nat ne = e \<and> e \<notin> set (take (nat (ne - int lst)) ?D)"
    using index_from_first [OF assms(1,2), of "int lst" ne] less.prems(2)
    by (cases me) (simp_all add: ne_def)
  have C: "nc = -1 \<and> c \<notin> set ?D
      \<or> int lst \<le> nc \<and> nc < ?len \<and> s ! nat nc = c \<and> c \<notin> set (take (nat (nc - int lst)) ?D)"
    using index_from_first [OF assms(1,3), of "int lst" nc] less.prems(3)
    by (cases mc) (simp_all add: nc_def)
  have N: "n < 0 \<and> (\<forall>x \<in> set ?D. \<not> ?P x)
    \<or> int lst \<le> n \<and> n < ?len \<and> ?P (s ! nat n) \<and> (\<forall>x \<in> set (take (nat (n - int lst)) ?D). \<not> ?P x)"
    using first_of_two [OF E C _ _ n_def] less.prems(1) by simp
  define out1 where "out1 = (if m - int lst > 0 then out @ segment (Some s) (int lst) (m - int lst) else out)"
  define out2 where "out2 = (if m < ?len then out1 @ [CHR 0x5C, byte_at s (nat m)] else out1)"
  have step: "escape_loop (Some s) e c me mc (int lst) out
      = (if m + 1 < ?len then escape_loop (Some s) e c (me \<and> \<not> ne < 0) (mc \<and> \<not> nc < 0) (m + 1) out2 else out2)"
    by (subst escape_loop.simps)
      (simp only: Let_def z_length_def z_index_def option.case option.sel ne_def nc_def n_def m_def out1_def out2_def)
  show ?case
  proof (cases "n < 0")
    case True
    then have "m = ?len" "\<forall>x \<in> set ?D. \<not> ?P x" using N by (auto simp: m_def)
    moreover have "out1 = out @ ?D"
      using less.prems(1) segment_Some [OF assms(1), of "int lst" "?len - int lst"] \<open>m = ?len\<close>
      by (auto simp: out1_def)
    ultimately show ?thesis
      using escape_spec_plain [of ?D ?P "[]"] by (simp add: step out2_def)
  next
    case False
    then have m: "m = n" "int lst \<le> n" "n < ?len" "?P (s ! nat n)"
      "\<forall>x \<in> set (take (nat (n - int lst)) ?D). \<not> ?P x"
      using N by (auto simp: m_def)
    define k where "k = nat n - lst"
    have k: "n = int (lst + k)" "lst + k < length s" using m by (simp_all add: k_def)
    have o1: "out1 = out @ take k ?D"
      using segment_Some [OF assms(1), of "int lst" "n - int lst"] m(1) k by (simp add: out1_def)
    have o2: "out2 = out @ take k ?D @ [CHR 0x5C, s ! (lst + k)]"
    proof -
      have "nat n = lst + k" using k(1) by (simp only: nat_int)
      then show ?thesis using k m(1,3) by (simp add: out2_def o1 byte_at_def)
    qed
    have D: "?D = take k ?D @ s ! (lst + k) # drop (lst + k + 1) s"
      using k(2) id_take_nth_drop [of k ?D] by (simp add: add.commute)
    have "\<forall>x \<in> set (take k ?D). \<not> ?P x" using m(5) k(1) by simp
    moreover have "?P (s ! (lst + k))" using m(4) unfolding k(1) nat_int .
    ultimately have "escape_spec ?P ?D = take k ?D @ [CHR 0x5C, s ! (lst + k)] @ escape_spec ?P (drop (lst + k + 1) s)"
      by (subst D) (simp add: escape_spec_plain)
    then have spec: "out @ escape_spec ?P ?D = out2 @ escape_spec ?P (drop (lst + k + 1) s)"
      by (simp add: o2)
    show ?thesis
    proof (cases "m + 1 < ?len")
      case True
      have sub: "set (drop (lst + k + 1) s) \<subseteq> set ?D"
        by (rule set_drop_subset_set_drop) simp
      have "escape_loop (Some s) e c (me \<and> \<not> ne < 0) (mc \<and> \<not> nc < 0) (int (lst + k + 1)) out2
          = out2 @ escape_spec ?P (drop (lst + k + 1) s)"
      proof (rule less.hyps)
        show "length s - (lst + k + 1) < length s - lst" using k(2) by simp
        show "lst + k + 1 \<le> length s" using k(2) by simp
        show "me \<and> \<not> ne < 0 \<or> e \<notin> set (drop (lst + k + 1) s)"
          using E less.prems(2) sub by auto
        show "mc \<and> \<not> nc < 0 \<or> c \<notin> set (drop (lst + k + 1) s)"
          using C less.prems(3) sub by auto
      qed
      moreover have m1: "m + 1 = int (lst + k + 1)" using m(1) k(1) by simp
      ultimately show ?thesis using True spec unfolding step m1 by (simp only: if_True)
    next
      case False
      then have "drop (lst + k + 1) s = []" using m(1) k by simp
      then show ?thesis using False spec by (simp add: step)
    qed
  qed
qed

lemma escape_correct:
  assumes "nul_free s" "e \<noteq> NUL" "c \<noteq> NUL"
  shows "escape (Some s) e c = Inr (Some (escape_spec (\<lambda>x. x = e \<or> x = c) s))"
proof -
  let ?t = "escape_spec (\<lambda>x. x = e \<or> x = c) s"
  have "int (length ?t) \<le> int (2 * length s)"
    unfolding of_nat_le_iff by (rule length_escape_spec)
  then show ?thesis
    using escape_loop_correct [OF assms, of 0 True True "[]"] assms(1)
    by (simp add: escape_def to_buffer_def z_length_def)
qed


section \<open>unescape\<close>

fun unescape_spec :: "char \<Rightarrow> string \<Rightarrow> string" where
  "unescape_spec e [] = []"
| "unescape_spec e [c] = (if c = e then [] else [c])"
| "unescape_spec e (c # x # r) =
     (if c = e then x # unescape_spec e r else c # unescape_spec e (x # r))"

lemma unescape_spec_plain: "e \<notin> set a \<Longrightarrow> unescape_spec e (a @ b) = a @ unescape_spec e b"
proof (induction a)
  case (Cons c a)
  then show ?case by (cases "a @ b") auto
qed simp

lemma length_unescape_spec: "length (unescape_spec e s) \<le> length s"
  by (induction e s rule: unescape_spec.induct) auto

lemma nul_free_unescape_spec: "nul_free s \<Longrightarrow> nul_free (unescape_spec e s)"
  by (induction e s rule: unescape_spec.induct) auto

definition unescape_tail :: "char \<Rightarrow> string \<Rightarrow> string" where
  \<comment> \<open>what is still to be written when the character at \<open>last\<close> is taken as it is\<close>
  "unescape_tail e s = (case s of [] \<Rightarrow> [] | x # r \<Rightarrow> x # unescape_spec e r)"

lemma unescape_loop_correct:
  assumes "nul_free s" "e \<noteq> NUL"
  shows "lst < length s \<Longrightarrow>
    unescape_loop (Some s) e (int lst) out = out @ unescape_tail e (drop lst s)"
proof (induction "length s - lst" arbitrary: lst out rule: less_induct)
  case less
  let ?D = "drop (lst + 1) s" and ?len = "int (length s)"
  define n where "n = index_from s (int lst + 1) e"
  define m where "m = (if n < 0 then ?len else n)"
  have N: "n = -1 \<and> e \<notin> set ?D
      \<or> int lst + 1 \<le> n \<and> n < ?len \<and> s ! nat n = e \<and> e \<notin> set (take (nat (n - (int lst + 1))) ?D)"
    using index_from_first [OF assms, of "int lst + 1" n] by (simp add: n_def nat_add_distrib)
  have tail: "unescape_tail e (drop lst s) = s ! lst # unescape_spec e ?D"
    using less.prems by (simp add: unescape_tail_def Cons_nth_drop_Suc [symmetric])
  have seg: "segment (Some s) (int lst) (m - int lst) = take (nat m - lst) (drop lst s)" "lst < nat m"
    using N less.prems segment_Some [OF assms(1), of "int lst" "m - int lst"]
    by (auto simp: m_def nat_diff_distrib)
  have step: "unescape_loop (Some s) e (int lst) out
      = (let out = out @ take (nat m - lst) (drop lst s)
         in if m + 1 < ?len then unescape_loop (Some s) e (m + 1) out else out)"
    using seg by (subst unescape_loop.simps) (simp add: Let_def z_length_def z_index_def n_def [symmetric] m_def [symmetric])
  show ?case
  proof (cases "n < 0")
    case True
    then have "m = ?len" "e \<notin> set ?D" using N by (auto simp: m_def)
    then show ?thesis
      using unescape_spec_plain [of e ?D "[]"] less.prems
      by (simp add: step tail Let_def Cons_nth_drop_Suc)
  next
    case False
    then have n: "m = n" "int lst + 1 \<le> n" "n < ?len" "s ! nat n = e"
      "e \<notin> set (take (nat (n - (int lst + 1))) ?D)" using N by (auto simp: m_def)
    define k where "k = nat n - (lst + 1)"
    have kn: "nat n = lst + 1 + k" "m + 1 = int (lst + 1 + k + 1)" "lst + 1 + k < length s"
      "nat (n - (int lst + 1)) = k"
      using n by (simp_all add: k_def)
    have D: "?D = take k ?D @ e # drop (lst + 1 + k + 1) s"
    proof -
      have "?D ! k = e" using n(4) kn(1,3) by simp
      then show ?thesis using id_take_nth_drop [of k ?D] kn(3) by (simp add: add.commute)
    qed
    have tk: "take (nat m - lst) (drop lst s) = s ! lst # take k ?D"
      using less.prems kn(1) n(1) by (simp add: Cons_nth_drop_Suc [symmetric])
    have "unescape_spec e ?D = take k ?D @ unescape_spec e (e # drop (lst + 1 + k + 1) s)"
      using n(5) kn(4) by (subst D) (simp add: unescape_spec_plain)
    also have "unescape_spec e (e # drop (lst + 1 + k + 1) s) = unescape_tail e (drop (lst + 1 + k + 1) s)"
      by (cases "drop (lst + 1 + k + 1) s") (simp_all add: unescape_tail_def)
    finally have spec: "unescape_tail e (drop lst s)
        = s ! lst # take k ?D @ unescape_tail e (drop (lst + 1 + k + 1) s)"
      by (simp add: tail)
    show ?thesis
    proof (cases "m + 1 < ?len")
      case True
      then have "unescape_loop (Some s) e (int (lst + 1 + k + 1)) out'
          = out' @ unescape_tail e (drop (lst + 1 + k + 1) s)" for out'
        using kn by (intro less.hyps) simp_all
      then show ?thesis
        using True unfolding step tk spec Let_def kn(2) by (simp only: if_True append_assoc append_Cons)
    next
      case False
      then have "drop (lst + 1 + k + 1) s = []" using kn by simp
      then show ?thesis using False unfolding step tk spec Let_def by (simp add: unescape_tail_def)
    qed
  qed
qed

lemma unescape_loop_start:
  assumes "nul_free s" "e \<noteq> NUL"
  shows "unescape_loop (Some s) e (-1) [] = unescape_spec e s"
proof -
  let ?len = "int (length s)"
  define n where "n = index_from s 0 e"
  have N: "n = -1 \<and> e \<notin> set s
      \<or> 0 \<le> n \<and> n < ?len \<and> s ! nat n = e \<and> e \<notin> set (take (nat n) s)"
    using index_from_first [OF assms, of 0 n] by (simp add: n_def)
  show ?thesis
  proof (cases "n < 0")
    case True
    then have "e \<notin> set s" using N by auto
    then have "unescape_spec e s = s" using unescape_spec_plain [of e s "[]"] by simp
    then show ?thesis
      using True assms(1)
      by (subst unescape_loop.simps) (simp add: Let_def z_length_def z_index_def n_def [symmetric] segment_Some)
  next
    case False
    then have n: "n = int (nat n)" "nat n < length s" "s ! nat n = e" "e \<notin> set (take (nat n) s)"
      using N by auto
    have "s = take (nat n) s @ e # drop (nat n + 1) s" using id_take_nth_drop [OF n(2)] n(3) by simp
    then have "unescape_spec e s = take (nat n) s @ unescape_spec e (e # drop (nat n + 1) s)"
      using unescape_spec_plain [OF n(4)] by metis
    also have "unescape_spec e (e # drop (nat n + 1) s) = unescape_tail e (drop (nat n + 1) s)"
      by (cases "drop (nat n + 1) s") (simp_all add: unescape_tail_def)
    finally have spec: "unescape_spec e s = take (nat n) s @ unescape_tail e (drop (nat n + 1) s)" .
    have step: "unescape_loop (Some s) e (-1) []
        = (if n + 1 < ?len then unescape_loop (Some s) e (n + 1) (take (nat n) s) else take (nat n) s)"
      using False n(2) segment_Some [OF assms(1), of 0 n]
      by (subst unescape_loop.simps) (simp add: Let_def z_length_def z_index_def n_def [symmetric])
    have n1: "n + 1 = int (nat n + 1)" using n(1) by simp
    show ?thesis
    proof (cases "n + 1 < ?len")
      case True
      then have "unescape_loop (Some s) e (int (nat n + 1)) (take (nat n) s)
          = take (nat n) s @ unescape_tail e (drop (nat n + 1) s)"
        using n1 by (intro unescape_loop_correct assms) linarith
      then show ?thesis using True unfolding step spec n1 by (simp only: if_True)
    next
      case False
      then have "drop (nat n + 1) s = []" using n1 by simp
      then show ?thesis using False by (simp add: step spec unescape_tail_def)
    qed
  qed
qed

lemma unescape_correct:
  assumes "nul_free s" "e \<noteq> NUL"
  shows "unescape (Some s) e = Inr (Some (unescape_spec e s))"
  using unescape_loop_start [OF assms] length_unescape_spec [of e s] nul_free_unescape_spec [OF assms(1), of e]
  by (simp add: unescape_def to_buffer_def z_length_def)

lemma unescape_escape_spec:
  "P (CHR 0x5C) \<Longrightarrow> unescape_spec (CHR 0x5C) (escape_spec P s) = s"
proof (induction s)
  case (Cons c s)
  show ?case
  proof (cases "P c")
    case False
    then have "c \<noteq> CHR 0x5C" using Cons.prems by auto
    then show ?thesis using Cons False by (cases "escape_spec P s") auto
  qed (use Cons in simp)
qed simp

lemma unescape_escape:
  assumes "nul_free s" "c \<noteq> NUL"
  shows "bind_result (escape (Some s) (CHR 0x5C) c) (\<lambda>t. unescape t (CHR 0x5C)) = Inr (Some s)"
proof -
  let ?P = "\<lambda>x. x = CHR 0x5C \<or> x = c"
  have "unescape (Some (escape_spec ?P s)) (CHR 0x5C)
      = Inr (Some (unescape_spec (CHR 0x5C) (escape_spec ?P s)))"
    by (rule unescape_correct) (simp_all add: assms)
  also have "unescape_spec (CHR 0x5C) (escape_spec ?P s) = s"
    by (rule unescape_escape_spec) simp
  finally show ?thesis using assms by (simp add: escape_correct)
qed


section \<open>unescape_amp\<close>

definition amp_entity :: string where
  "amp_entity = ''&amp;''"

function amp_spec :: "string \<Rightarrow> string" where
  "amp_spec [] = []"
| "amp_spec (c # s) =
     (if prefixb amp_entity (c # s) then CHR ''&'' # amp_spec (drop 5 (c # s)) else c # amp_spec s)"
  by pat_completeness auto
termination by (relation "measure length") auto

lemma amp_spec_other: "c \<noteq> CHR ''&'' \<Longrightarrow> amp_spec (c # s) = c # amp_spec s"
  by (simp add: amp_entity_def)

declare amp_spec.simps(2) [simp del]

lemma amp_spec_plain: "CHR ''&'' \<notin> set a \<Longrightarrow> amp_spec (a @ b) = a @ amp_spec b"
  by (induction a) (auto simp: amp_spec_other)

lemma byte_at_drop: "byte_at s (i + j) = byte_at (drop i s) j"
  by (auto simp: byte_at_def)

lemma amp_at_prefix:
  assumes "i < length s" "s ! i = CHR ''&''"
  shows "amp_at s (int i) \<longleftrightarrow> prefixb amp_entity (drop i s)"
proof -
  have n: "nat (int i + k) = i + nat k" if "0 \<le> k" for k using that by simp
  have d: "drop i s = CHR ''&'' # drop (Suc i) s" using assms by (simp add: Cons_nth_drop_Suc [symmetric])
  have "prefixb ''amp;'' t \<longleftrightarrow> byte_at t 0 = CHR ''a'' \<and> byte_at t 1 = CHR ''m''
      \<and> byte_at t 2 = CHR ''p'' \<and> byte_at t 3 = CHR '';''" for t
    by (cases t; cases "tl t"; cases "tl (tl t)"; cases "tl (tl (tl t))")
      (auto simp: byte_at_def numeral_eq_Suc)
  moreover have "byte_at s (nat (int i + 1)) = byte_at (drop (Suc i) s) 0"
    "byte_at s (nat (int i + 2)) = byte_at (drop (Suc i) s) 1"
    "byte_at s (nat (int i + 3)) = byte_at (drop (Suc i) s) 2"
    "byte_at s (nat (int i + 4)) = byte_at (drop (Suc i) s) 3"
    using byte_at_drop [of s "Suc i" 0] byte_at_drop [of s "Suc i" 1]
      byte_at_drop [of s "Suc i" 2] byte_at_drop [of s "Suc i" 3]
    by (simp_all add: n numeral_eq_Suc)
  ultimately show ?thesis using assms(1) d by (simp add: amp_at_def amp_entity_def)
qed

lemma amp_search_correct:
  assumes "nul_free s"
  shows "amp_search s (int p - 1) = (q, k) \<Longrightarrow> p \<le> length s \<Longrightarrow>
    (q = -1 \<and> amp_spec (drop p s) = drop p s)
    \<or> (int p \<le> q \<and> q < int (length s) \<and> s ! nat q = CHR ''&'' \<and> (k = 0 \<or> k = 4)
       \<and> nat q + 1 + nat k \<le> length s
       \<and> amp_spec (drop p s) = take (nat q - p) (drop p s) @ CHR ''&'' # amp_spec (drop (nat q + 1 + nat k) s))"
proof (induction "length s - p" arbitrary: p rule: less_induct)
  case less
  define i where "i = index_from s (int p) (CHR ''&'')"
  have I: "(i = -1 \<and> CHR ''&'' \<notin> set (drop p s))
    \<or> (int p \<le> i \<and> i < int (length s) \<and> s ! nat i = CHR ''&'' \<and> CHR ''&'' \<notin> set (take (nat (i - int p)) (drop p s)))"
    using index_from_first [OF assms, of "CHR ''&''" "int p" i] by (simp add: i_def)
  have step: "amp_search s (int p - 1)
      = (if i > 0 \<and> \<not> amp_at s i then amp_search s i else (i, if amp_at s i then 4 else 0))"
    by (subst amp_search.simps) (simp add: Let_def i_def [symmetric])
  show ?case
  proof (cases "i = -1")
    case True
    then have "CHR ''&'' \<notin> set (drop p s)" using I by auto
    then have "amp_spec (drop p s) = drop p s" using amp_spec_plain [of "drop p s" "[]"] by simp
    moreover have "q = -1" using less.prems(1) step True by simp
    ultimately show ?thesis by simp
  next
    case False
    define j where "j = nat i"
    have j: "i = int j" "p \<le> j" "j < length s" "s ! j = CHR ''&''" "CHR ''&'' \<notin> set (take (j - p) (drop p s))"
      using I False by (auto simp: j_def nat_diff_distrib)
    have D: "drop p s = take (j - p) (drop p s) @ CHR ''&'' # drop (Suc j) s"
      using id_take_nth_drop [of "j - p" "drop p s"] j by simp
    then have A: "amp_spec (drop p s) = take (j - p) (drop p s) @ amp_spec (CHR ''&'' # drop (Suc j) s)"
      using amp_spec_plain [OF j(5)] by metis
    have dj: "drop j s = CHR ''&'' # drop (Suc j) s" using j by (simp add: Cons_nth_drop_Suc [symmetric])
    show ?thesis
    proof (cases "amp_at s i")
      case True
      then have p: "prefixb amp_entity (drop j s)" using amp_at_prefix j by simp
      have five: "j + 5 \<le> length s"
        using p by (auto simp: prefixb_append amp_entity_def dest!: arg_cong [of _ _ length])
      have "amp_spec (CHR ''&'' # drop (Suc j) s) = CHR ''&'' # amp_spec (drop (j + 5) s)"
        using p dj by (simp add: amp_spec.simps(2) add.commute)
      moreover have "q = int j" "k = 4" using less.prems(1) step True j(1) by simp_all
      ultimately show ?thesis
        using A j five by (simp add: add.commute)
    next
      case na: False
      then have np: "amp_spec (CHR ''&'' # drop (Suc j) s) = CHR ''&'' # amp_spec (drop (Suc j) s)"
        using amp_at_prefix [OF j(3,4)] j(1) dj by (simp add: amp_spec.simps(2))
      show ?thesis
      proof (cases "j = 0")
        case True
        then show ?thesis using less.prems(1) step na A j np Suc_leI [OF j(3)] by auto
      next
        case False
        then have *: "amp_search s (int (Suc j) - 1) = (q, k)"
          using less.prems(1) step na j(1) by simp
        have R: "(q = -1 \<and> amp_spec (drop (Suc j) s) = drop (Suc j) s)
          \<or> (int (Suc j) \<le> q \<and> q < int (length s) \<and> s ! nat q = CHR ''&'' \<and> (k = 0 \<or> k = 4)
            \<and> nat q + 1 + nat k \<le> length s
            \<and> amp_spec (drop (Suc j) s) = take (nat q - Suc j) (drop (Suc j) s)
                @ CHR ''&'' # amp_spec (drop (nat q + 1 + nat k) s))"
          using less.hyps [OF _ *] j by auto
        show ?thesis
        proof (cases "q < 0")
          case True
          then have "q = -1" "amp_spec (drop (Suc j) s) = drop (Suc j) s" using R by auto
          then show ?thesis using A np D by simp
        next
          case False
          then have q: "int (Suc j) \<le> q" "q < int (length s)" "s ! nat q = CHR ''&''" "k = 0 \<or> k = 4"
            "nat q + 1 + nat k \<le> length s"
            "amp_spec (drop (Suc j) s) = take (nat q - Suc j) (drop (Suc j) s)
                @ CHR ''&'' # amp_spec (drop (nat q + 1 + nat k) s)"
            using R by auto
          have "take (nat q - p) (drop p s)
              = take (j - p) (drop p s) @ CHR ''&'' # take (nat q - Suc j) (drop (Suc j) s)"
          proof -
            have e: "nat q - p = (j - p) + Suc (nat q - Suc j)" using q(1) j(2) by linarith
            have "drop (j - p) (drop p s) = drop j s" using j(2) by simp
            then show ?thesis unfolding e take_add by (simp add: dj)
          qed
          then show ?thesis using q A np j(2) by auto
        qed
      qed
    qed
  qed
qed

lemma unescape_amp_loop_correct:
  assumes "nul_free s"
  shows "p \<le> length s \<Longrightarrow>
    unescape_amp_loop s (int p) out = out @ amp_spec (drop p s) @ [NUL]"
proof (induction "length s - p" arbitrary: p out rule: less_induct)
  case less
  obtain q k where qk: "amp_search s (int p - 1) = (q, k)" by fastforce
  have step: "unescape_amp_loop s (int p) out
      = (let m = (if q < 0 then int (length s) else q);
             out = out @ take (nat (m - int p + 1)) (drop p (s @ [NUL]))
         in if m + k + 1 \<le> int (length s) then unescape_amp_loop s (m + k + 1) out else out)"
    by (subst unescape_amp_loop.simps) (simp add: qk Let_def)
  have k: "k = 0 \<or> k = 4" using amp_search_bounds [OF qk] by simp
  note R = amp_search_correct [OF assms qk less.prems]
  show ?case
  proof (cases "q < 0")
    case True
    then have "q = -1" "amp_spec (drop p s) = drop p s" using R by auto
    then show ?thesis using step k less.prems by (auto simp: Let_def nat_add_distrib)
  next
    case False
    then have q: "int p \<le> q" "q < int (length s)" "s ! nat q = CHR ''&''"
      "nat q + 1 + nat k \<le> length s"
      "amp_spec (drop p s) = take (nat q - p) (drop p s) @ CHR ''&'' # amp_spec (drop (nat q + 1 + nat k) s)"
      using R by auto
    define j where "j = nat q"
    have j: "q = int j" "p \<le> j" "j < length s" using q by (simp_all add: j_def)
    have "take (nat (q - int p + 1)) (drop p (s @ [NUL])) = take (Suc (j - p)) (drop p s)"
    proof -
      have "nat (q - int p + 1) = Suc (j - p)" using j by simp
      then show ?thesis using j by simp
    qed
    also have "\<dots> = take (j - p) (drop p s) @ [CHR ''&'']"
      using j q(3) by (simp add: take_Suc_conv_app_nth)
    finally have tk: "take (nat (q - int p + 1)) (drop p (s @ [NUL])) = take (j - p) (drop p s) @ [CHR ''&'']" .
    have k1: "q + k + 1 = int (j + 1 + nat k)" using j(1) k by auto
    have le: "j + 1 + nat k \<le> length s" using q(4) by (simp add: j_def)
    have "unescape_amp_loop s (int (j + 1 + nat k)) out' = out' @ amp_spec (drop (j + 1 + nat k) s) @ [NUL]" for out'
      using le j by (intro less.hyps) simp_all
    moreover have "\<not> q < 0" "q + k + 1 \<le> int (length s)" using j(1) k1 le by simp_all
    ultimately show ?thesis
      using q(5) unfolding step Let_def by (simp only: if_False if_True tk k1 j_def [symmetric] append_assoc append_Cons append_Nil)
  qed
qed

lemma length_amp_spec: "length (amp_spec s) \<le> length s"
proof (induction s rule: amp_spec.induct)
  case (2 c s)
  then show ?case by (cases "prefixb amp_entity (c # s)") (auto simp: amp_spec.simps(2))
qed simp

lemma nul_free_amp_spec: "nul_free s \<Longrightarrow> nul_free (amp_spec s)"
proof (induction s rule: amp_spec.induct)
  case (2 c s)
  then show ?case
    by (cases "prefixb amp_entity (c # s)") (auto simp: amp_spec.simps(2))
qed simp

lemma unescape_amp_correct:
  assumes "nul_free s"
  shows "unescape_amp (Some s) = Inr (Some (amp_spec s))"
proof -
  have "unescape_amp_loop s 0 [] = amp_spec s @ [NUL]"
    using unescape_amp_loop_correct [OF assms, of 0 "[]"] by simp
  moreover have "cstr (amp_spec s @ [NUL]) = amp_spec s"
    using nul_free_amp_spec [OF assms] by (auto simp: cstr_def nul_free_def intro: takeWhile_split)
  ultimately show ?thesis using length_amp_spec [of s] by (simp add: unescape_amp_def)
qed


end
