(* ===== verification/Paths.thy ===== *)
theory Paths
  imports TextTools Queues
begin

text \<open>
  \<open>normalizePath\<close> of src/tools.cc: the loop over the components of an absolute
  path, which writes to a buffer and remembers in a \<open>BaseStack\<close> where each
  component it wrote begins, and the specification by lists of components.
\<close>

section \<open>Definitions\<close>

definition skip_separators :: "string \<Rightarrow> nat \<Rightarrow> nat" where
  "skip_separators path n = n + length (takeWhile (\<lambda>c. c = DIR_SEPARATOR) (drop n path))"

lemma skip_separators_ge: "n \<le> skip_separators path n"
  by (simp add: skip_separators_def)

definition next_separator :: "string \<Rightarrow> nat \<Rightarrow> nat" where
  \<comment> \<open>\<open>path.index(next, DIR_SEPARATOR)\<close>, or the length\<close>
  "next_separator path n =
     (let i = index_from path (int n) DIR_SEPARATOR in if i < 0 then length path else nat i)"

lemma next_separator_ge: "n < length path \<Longrightarrow> n \<le> next_separator path n"
  using index_from_range [of DIR_SEPARATOR path "int n"] by (auto simp: next_separator_def Let_def)

function normalize_loop ::
  "string \<Rightarrow> nat \<Rightarrow> string \<Rightarrow> int base_stack \<Rightarrow> string result" where
  \<comment> \<open>the third argument is what lies before \<open>str\<close> in the result buffer\<close>
  "normalize_loop path n out locs =
     (let n = skip_separators path n
      in if n \<ge> length path then Inr out
         else
           (let next_sep = next_separator path n;
                continue = (\<lambda>out locs.
                  if next_sep + 1 < length path then normalize_loop path (next_sep + 1) out locs
                  else Inr out)
            in if next_sep = n + 1 \<and> byte_at path n = CHR ''.'' then continue out locs
               else if next_sep = n + 2 \<and> n + 1 < length path \<and> byte_at path n = CHR ''.''
                       \<and> byte_at path (n + 1) = CHR ''.'' then
                 bind_result (bs_pop locs) (\<lambda>(lastSepLocation, locs).
                   (let lastSepLocation = (if lastSepLocation < 0 then 0 else lastSepLocation)
                    in continue (take (nat lastSepLocation) out) locs))
               else
                 bind_result (bs_push locs (int (length out))) (\<lambda>locs.
                   (let out = out @ DIR_SEPARATOR # strncpy (next_sep - n) (drop n path)
                    in if length out > length path then Inl Abort else continue out locs))))"
  by pat_completeness auto
termination
proof (relation "measure (\<lambda>(path, n, _). length path - n)", goal_cases)
  case 1
  then show ?case by simp
next
  case (2 path n out locs n' next_sep continue)
  then show ?case using skip_separators_ge [of n path] next_separator_ge [of n' path] by simp
qed

declare normalize_loop.simps [simp del]

definition normalizePath :: "zstring \<Rightarrow> zstring result" where
  "normalizePath path =
     (case path of
        None \<Rightarrow> Inl Abort
      | Some s \<Rightarrow>
          (let avarageExpectedSlashes = length s div 5;
               avarageExpectedSlashes = (if avarageExpectedSlashes < 3 then 3 else avarageExpectedSlashes);
               separatorLocations = bs_init avarageExpectedSlashes (-1)
           in if byte_at s 0 \<noteq> DIR_SEPARATOR then
                Inl (Throw (''Relative paths are not allowed!'' @ [CHR 0x0A]))
              else
                bind_result (normalize_loop s 1 '''' separatorLocations) (\<lambda>out.
                  (let out = (if out = [] then [DIR_SEPARATOR] else out) in Inr (Some (cstr out))))))"

section \<open>Specification\<close>

definition components :: "string \<Rightarrow> string list" where
  "components s = filter (\<lambda>c. c \<noteq> []) (pieces DIR_SEPARATOR s)"

definition norm_step :: "string list \<Rightarrow> string \<Rightarrow> string list" where
  "norm_step cs c = (if c = ''.'' then cs else if c = ''..'' then butlast cs else cs @ [c])"

definition render :: "string list \<Rightarrow> string" where
  "render cs = concat (map (\<lambda>c. DIR_SEPARATOR # c) cs)"

definition normal_form :: "string \<Rightarrow> string" where
  "normal_form s =
     (let cs = foldl norm_step [] (components s) in if cs = [] then [DIR_SEPARATOR] else render cs)"

definition offsets :: "string list \<Rightarrow> int list" where
  "offsets cs = map (\<lambda>i. int (length (render (take i cs)))) [0..<length cs]"

lemma render_simps [simp]:
  "render [] = []" "render (cs @ ds) = render cs @ render ds"
  "render (c # cs) = DIR_SEPARATOR # c @ render cs"
  by (simp_all add: render_def)

lemma offsets_simps [simp]:
  "offsets [] = []" "offsets (cs @ [c]) = offsets cs @ [int (length (render cs))]"
  by (simp_all add: offsets_def)

lemma components_sep: "components (DIR_SEPARATOR # s) = components s"
  by (simp add: components_def)

lemma components_seps: "components (replicate n DIR_SEPARATOR @ s) = components s"
  by (induction n) (simp_all add: components_sep)

lemma components_Nil [simp]: "components [] = []"
  by (simp add: components_def)

lemma components_part:
  "DIR_SEPARATOR \<notin> set a \<Longrightarrow> a \<noteq> [] \<Longrightarrow> components (a @ DIR_SEPARATOR # b) = a # components b"
  by (simp add: components_def pieces_split)

lemma components_last: "DIR_SEPARATOR \<notin> set a \<Longrightarrow> a \<noteq> [] \<Longrightarrow> components a = [a]"
  by (simp add: components_def pieces_single)

lemma skip_separators_components:
  "components (drop (skip_separators s n) s) = components (drop n s)"
proof -
  let ?t = "takeWhile (\<lambda>c. c = DIR_SEPARATOR) (drop n s)"
  have "?t = replicate (length ?t) DIR_SEPARATOR"
    by (intro replicate_length_same [symmetric]) (auto dest: set_takeWhileD)
  moreover have "drop n s = ?t @ drop (skip_separators s n) s"
    by (simp add: skip_separators_def add.commute [of n] flip: drop_drop dropWhile_eq_drop)
  ultimately show ?thesis by (metis components_seps)
qed

lemma skip_separators_char:
  assumes "skip_separators s n < length s"
  shows "s ! skip_separators s n \<noteq> DIR_SEPARATOR"
proof -
  have d: "drop (skip_separators s n) s = dropWhile (\<lambda>c. c = DIR_SEPARATOR) (drop n s)"
    by (simp add: skip_separators_def add.commute [of n] flip: drop_drop dropWhile_eq_drop)
  have "hd (drop (skip_separators s n) s) \<noteq> DIR_SEPARATOR"
    using hd_dropWhile [of "\<lambda>c. c = DIR_SEPARATOR" "drop n s"] assms by (auto simp flip: d)
  then show ?thesis using assms by (simp add: hd_drop_conv_nth)
qed

lemma next_separator_split:
  assumes "nul_free s" "n < length s" "s ! n \<noteq> DIR_SEPARATOR"
  defines "m \<equiv> next_separator s n"
  shows "n < m" "m \<le> length s" "DIR_SEPARATOR \<notin> set (take (m - n) (drop n s))"
    "components (drop n s) = take (m - n) (drop n s) # components (drop (m + 1) s)"
proof -
  define i where "i = index_from s (int n) DIR_SEPARATOR"
  have I: "i = -1 \<and> DIR_SEPARATOR \<notin> set (drop n s)
      \<or> int n \<le> i \<and> i < int (length s) \<and> s ! nat i = DIR_SEPARATOR
        \<and> DIR_SEPARATOR \<notin> set (take (nat (i - int n)) (drop n s))"
    using index_from_first [OF assms(1), of DIR_SEPARATOR "int n" i] by (simp add: i_def)
  have m: "m = (if i < 0 then length s else nat i)"
    by (simp add: m_def next_separator_def i_def Let_def)
  have nn: "nat i - n = nat (i - int n)" by (simp add: nat_diff_distrib')
  have nm: "n < m \<and> m \<le> length s \<and> DIR_SEPARATOR \<notin> set (take (m - n) (drop n s))"
  proof (cases "i < 0")
    case True
    then show ?thesis using I assms(2) by (auto simp: m)
  next
    case False
    moreover have "i \<noteq> int n" using I False assms(3) by auto
    ultimately show ?thesis using I by (auto simp: m nn)
  qed
  then show "n < m" "m \<le> length s" and no: "DIR_SEPARATOR \<notin> set (take (m - n) (drop n s))" by auto
  have ne: "take (m - n) (drop n s) \<noteq> []" using nm assms(2) by auto
  show "components (drop n s) = take (m - n) (drop n s) # components (drop (m + 1) s)"
  proof (cases "m = length s")
    case True
    then have "take (m - n) (drop n s) = drop n s" by simp
    then show ?thesis using components_last [OF no ne] True by simp
  next
    case False
    then have "m < length s" "s ! m = DIR_SEPARATOR" using nm I by (auto simp: m split: if_splits)
    then have "drop m s = DIR_SEPARATOR # drop (m + 1) s" by (simp add: Cons_nth_drop_Suc [symmetric])
    moreover have "drop n s = take (m - n) (drop n s) @ drop m s"
      using append_take_drop_id [of "m - n" "drop n s"] nm by simp
    ultimately show ?thesis using components_part [OF no ne, of "drop (m + 1) s"] by simp
  qed
qed

section \<open>Refinement\<close>

definition norm_rel :: "string list \<Rightarrow> string \<Rightarrow> int base_stack \<Rightarrow> bool" where
  \<comment> \<open>the buffer and the stack represent the list of components\<close>
  "norm_rel cs out locs \<longleftrightarrow> out = render cs \<and> bs_inv locs \<and> bs_list locs = rev (offsets cs)
     \<and> st_emptyType locs = -1"

lemma norm_rel_push:
  assumes "norm_rel cs out locs"
  shows "\<exists>locs'. bs_push locs (int (length out)) = Inr locs'
    \<and> norm_rel (cs @ [c]) (out @ DIR_SEPARATOR # c) locs'"
  using bs_push_law [of locs "int (length out)"] assms by (auto simp: norm_rel_def)

lemma take_render: "take (length (render cs)) (render (cs @ ds)) = render cs"
  by simp

lemma norm_rel_pop:
  assumes "norm_rel cs out locs"
  shows "\<exists>l locs'. bs_pop locs = Inr (l, locs')
    \<and> norm_rel (butlast cs) (take (nat (if l < 0 then 0 else l)) out) locs'"
proof (cases cs rule: rev_cases)
  case Nil
  then show ?thesis using bs_pop_law [of locs] assms by (auto simp: norm_rel_def)
next
  case (snoc ds c)
  obtain locs' where "bs_pop locs = Inr (int (length (render ds)), locs')"
    "norm_rel ds (take (length (render ds)) out) locs'"
    using bs_pop_law [of locs] assms snoc by (auto simp: norm_rel_def)
  then show ?thesis
    using snoc by (intro exI [of _ "int (length (render ds))"] exI [of _ locs']) simp
qed

lemma normalize_loop_correct:
  assumes "nul_free s"
  shows "norm_rel cs out locs \<Longrightarrow> length out + 1 \<le> n \<Longrightarrow>
    normalize_loop s n out locs = Inr (render (foldl norm_step cs (components (drop n s))))"
proof (induction "length s - n" arbitrary: n cs out locs rule: less_induct)
  case less
  define p where "p = skip_separators s n"
  have np: "n \<le> p" by (simp add: p_def skip_separators_ge)
  have comp: "components (drop n s) = components (drop p s)"
    by (simp add: p_def skip_separators_components)
  show ?case
  proof (cases "p \<ge> length s")
    case True
    then have "normalize_loop s n out locs = Inr out"
      by (subst normalize_loop.simps) (simp add: Let_def p_def [symmetric])
    then show ?thesis using less.prems True by (simp add: comp norm_rel_def)
  next
    case False
    define q where "q = next_separator s p"
    let ?c = "take (q - p) (drop p s)"
    define go where "go = (\<lambda>out locs. if q + 1 < length s then normalize_loop s (q + 1) out locs else Inr out)"
    have ps: "p < length s" "s ! p \<noteq> DIR_SEPARATOR"
      using False skip_separators_char [of s n] by (simp_all add: p_def)
    note Q = next_separator_split [OF assms ps, folded q_def]
    have go: "go out' locs' = Inr (render (foldl norm_step cs' (components (drop (q + 1) s))))"
      if "norm_rel cs' out' locs'" "length out' \<le> q" for cs' out' locs'
    proof (cases "q + 1 < length s")
      case True
      then have "normalize_loop s (q + 1) out' locs'
          = Inr (render (foldl norm_step cs' (components (drop (q + 1) s))))"
        using that Q(1) np by (intro less.hyps) simp_all
      then show ?thesis using True by (simp add: go_def)
    qed (use that in \<open>simp add: go_def norm_rel_def\<close>)
    have lo: "length out \<le> q" "length out < p" using less.prems(2) np Q(1) by simp_all
    have len: "length ?c = q - p" using Q(1,2) by simp
    have nth: "?c ! k = s ! (p + k)" if "k < q - p" for k using that Q(1,2) by simp
    have dot: "?c = ''.'' \<longleftrightarrow> q = p + 1 \<and> byte_at s p = CHR ''.''"
      using len nth [of 0] ps(1) Q(1,2) by (auto simp: list_eq_iff_nth_eq byte_at_def)
    have dots: "?c = ''..'' \<longleftrightarrow> q = p + 2 \<and> p + 1 < length s \<and> byte_at s p = CHR ''.'' \<and> byte_at s (p + 1) = CHR ''.''"
      using len nth [of 0] nth [of 1] ps(1) Q(1,2)
      by (auto simp: list_eq_iff_nth_eq byte_at_def less_Suc_eq numeral_2_eq_2)
    have cp: "strncpy (q - p) (drop p s) = ?c"
      using assms Q(1,2) by simp
    have step: "normalize_loop s n out locs
      = (if ?c = ''.'' then go out locs
         else if ?c = ''..'' then bind_result (bs_pop locs) (\<lambda>(l, locs). go (take (nat (if l < 0 then 0 else l)) out) locs)
         else bind_result (bs_push locs (int (length out))) (\<lambda>locs.
           if length (out @ DIR_SEPARATOR # ?c) > length s then Inl Abort else go (out @ DIR_SEPARATOR # ?c) locs))"
      using False unfolding dot dots
      by (subst normalize_loop.simps)
        (simp only: Let_def p_def [symmetric] q_def [symmetric] go_def cp False if_False)
    have fold: "foldl norm_step cs (components (drop n s))
        = foldl norm_step (norm_step cs ?c) (components (drop (q + 1) s))"
      by (simp add: comp Q(4))
    consider (dot) "?c = ''.''" | (dots) "?c = ''..''" | (part) "?c \<noteq> ''.''" "?c \<noteq> ''..''" by blast
    then show ?thesis
    proof cases
      case dot
      then show ?thesis using go [OF less.prems(1) lo(1)] unfolding step fold by (simp add: norm_step_def)
    next
      case dots
      obtain l locs' where l: "bs_pop locs = Inr (l, locs')"
        "norm_rel (butlast cs) (take (nat (if l < 0 then 0 else l)) out) locs'"
        using norm_rel_pop [OF less.prems(1)] by blast
      have "length (take (nat (if l < 0 then 0 else l)) out) \<le> q" using lo(1) by simp
      then show ?thesis using go [OF l(2)] dots l(1) unfolding step fold by (simp add: norm_step_def)
    next
      case part
      obtain locs' where l: "bs_push locs (int (length out)) = Inr locs'"
        "norm_rel (cs @ [?c]) (out @ DIR_SEPARATOR # ?c) locs'"
        using norm_rel_push [OF less.prems(1)] by blast
      have le: "length (out @ DIR_SEPARATOR # ?c) \<le> q" using lo(2) Q(1) len by simp
      then have "\<not> length (out @ DIR_SEPARATOR # ?c) > length s" using Q(2) by linarith
      moreover have "norm_step cs ?c = cs @ [?c]" using part by (simp add: norm_step_def)
      ultimately show ?thesis
        using go [OF l(2) le] part unfolding step fold by (simp only: if_False l(1) bind_result_simps)
    qed
  qed
qed

lemma pieces_set: "c \<in> set (pieces sep s) \<Longrightarrow> set c \<subseteq> set s \<and> sep \<notin> set c"
proof (induction s arbitrary: c)
  case (Cons x s)
  obtain f fs where fs: "pieces sep s = f # fs" by (cases "pieces sep s") auto
  then show ?case using Cons by (fastforce split: if_splits)
qed simp

lemma components_set:
  "c \<in> set (components s) \<Longrightarrow> c \<noteq> [] \<and> set c \<subseteq> set s \<and> DIR_SEPARATOR \<notin> set c"
  using pieces_set by (auto simp: components_def)

definition is_dots :: "string \<Rightarrow> bool" where
  "is_dots c \<longleftrightarrow> c = ''.'' \<or> c = ''..''"

lemma norm_step_set: "c \<in> set (norm_step cs a) \<Longrightarrow> c \<in> set cs \<or> (c = a \<and> \<not> is_dots a)"
  by (auto simp: norm_step_def is_dots_def dest: in_set_butlastD split: if_splits)

lemma foldl_norm_set:
  "c \<in> set (foldl norm_step cs ds) \<Longrightarrow> c \<in> set cs \<or> (c \<in> set ds \<and> \<not> is_dots c)"
proof (induction ds arbitrary: cs)
  case (Cons a ds)
  then show ?case using norm_step_set [of c cs a] by auto
qed simp

lemma foldl_norm_plain: "\<forall>c \<in> set ds. \<not> is_dots c \<Longrightarrow> foldl norm_step cs ds = cs @ ds"
  by (induction ds arbitrary: cs) (auto simp: norm_step_def is_dots_def)

lemma nul_free_render:
  "(\<forall>c \<in> set cs. nul_free c) \<Longrightarrow> nul_free (render cs)"
  by (induction cs) auto

lemma nul_free_normal_form: "nul_free s \<Longrightarrow> nul_free (normal_form s)"
proof -
  assume s: "nul_free s"
  have "\<forall>c \<in> set (foldl norm_step [] (components s)). nul_free c"
    using foldl_norm_set [of _ "[]"] components_set nul_free_subset [OF s] by fastforce
  then show ?thesis by (simp add: normal_form_def Let_def nul_free_render)
qed

lemma normalizePath_correct:
  assumes "nul_free p"
  shows "normalizePath (Some (DIR_SEPARATOR # p)) = Inr (Some (normal_form (DIR_SEPARATOR # p)))"
proof -
  let ?s = "DIR_SEPARATOR # p"
  have nf: "nul_free ?s" using assms by simp
  have rel: "norm_rel [] [] (bs_init k (-1))" for k
    using bs_inv_init [of k "-1"] by (simp add: norm_rel_def bs_init_def)
  have "normalize_loop ?s 1 [] (bs_init k (-1)) = Inr (render (foldl norm_step [] (components ?s)))" for k
    using normalize_loop_correct [OF nf rel [of k], of 1] by (simp add: components_sep)
  moreover have "cstr (normal_form ?s) = normal_form ?s" using nul_free_normal_form [OF nf] by simp
  moreover have "(if render cs = [] then [DIR_SEPARATOR] else render cs)
      = (if cs = [] then [DIR_SEPARATOR] else render cs)" for cs
    by (cases cs) simp_all
  ultimately show ?thesis
    by (simp add: normalizePath_def normal_form_def byte_at_def Let_def)
qed

lemma components_render:
  "\<forall>c \<in> set cs. c \<noteq> [] \<and> DIR_SEPARATOR \<notin> set c \<Longrightarrow> components (render cs) = cs"
proof (induction cs)
  case (Cons c cs)
  show ?case
  proof (cases cs)
    case Nil
    then show ?thesis using Cons.prems by (simp add: components_sep components_last)
  next
    case (Cons d ds)
    then have "components (c @ render cs) = c # components (c' @ render ds)" if "c' = d" for c'
      using Cons.prems that by (simp add: components_part)
    moreover have "components (render cs) = components (d @ render ds)"
      using Cons by (simp add: components_sep)
    ultimately show ?thesis using Cons.IH Cons.prems Cons by (simp add: components_sep)
  qed
qed simp

lemma normal_form_components:
  "components (normal_form s) = foldl norm_step [] (components s)"
    and components_not_dots: "c \<in> set (components (normal_form s)) \<Longrightarrow> \<not> is_dots c"
proof -
  let ?cs = "foldl norm_step [] (components s)"
  have "\<forall>c \<in> set ?cs. c \<noteq> [] \<and> DIR_SEPARATOR \<notin> set c"
    using foldl_norm_set [of _ "[]" "components s"] components_set by fastforce
  then show c: "components (normal_form s) = ?cs"
    using components_render [of ?cs] by (simp add: normal_form_def Let_def components_sep)
  show "c \<in> set (components (normal_form s)) \<Longrightarrow> \<not> is_dots c"
    using foldl_norm_set [of c "[]" "components s"] by (auto simp: c)
qed

lemma normal_form_idem: "normal_form (normal_form s) = normal_form s"
proof -
  have "foldl norm_step [] (components (normal_form s)) = components (normal_form s)"
    using foldl_norm_plain [of "components (normal_form s)" "[]"] components_not_dots by simp
  then show ?thesis
    using normal_form_components [of s] by (simp add: normal_form_def [of "normal_form s"]) (simp add: normal_form_def)
qed


lemma normal_form_absolute:
  "\<exists>r. normal_form s = DIR_SEPARATOR # r \<and> (nul_free s \<longrightarrow> nul_free r)"
proof -
  obtain r where "normal_form s = DIR_SEPARATOR # r"
    by (cases "foldl norm_step [] (components s)") (simp_all add: normal_form_def Let_def)
  then show ?thesis using nul_free_normal_form [of s] by auto
qed


end
