(* ===== verification/Sorting.thy ===== *)
theory Sorting
  imports Prelude "HOL-Library.Multiset"
begin

text \<open>
  \<open>quicksort\<close> of src/tools.cc on an array of pointers with a comparator that
  returns a number. The loop that partitions ends only for a comparator that is
  consistent, so it runs on fuel, and the number of elements is enough fuel.
\<close>

section \<open>Definitions\<close>

definition swap :: "'a list \<Rightarrow> nat \<Rightarrow> nat \<Rightarrow> 'a list" where
  "swap a i j = a[i := a ! j, j := a ! i]"

function scan_lo :: "('a \<Rightarrow> 'a \<Rightarrow> int) \<Rightarrow> 'a list \<Rightarrow> 'a \<Rightarrow> nat \<Rightarrow> nat \<Rightarrow> nat" where
  "scan_lo cmp a pivot lo hi =
     (if cmp (a ! lo) pivot \<le> 0 \<and> lo < hi then scan_lo cmp a pivot (lo + 1) hi else lo)"
  by pat_completeness auto
termination by (relation "measure (\<lambda>(cmp, a, pivot, lo, hi). hi - lo)") auto

function scan_hi :: "('a \<Rightarrow> 'a \<Rightarrow> int) \<Rightarrow> 'a list \<Rightarrow> 'a \<Rightarrow> nat \<Rightarrow> nat \<Rightarrow> nat" where
  "scan_hi cmp a pivot lo hi =
     (if cmp pivot (a ! hi) \<le> 0 \<and> lo < hi then scan_hi cmp a pivot lo (hi - 1) else hi)"
  by pat_completeness auto
termination by (relation "measure (\<lambda>(cmp, a, pivot, lo, hi). hi)") auto

primrec partition_loop ::
  "nat \<Rightarrow> ('a \<Rightarrow> 'a \<Rightarrow> int) \<Rightarrow> 'a list \<Rightarrow> 'a \<Rightarrow> nat \<Rightarrow> nat \<Rightarrow> ('a list \<times> nat \<times> nat) option" where
  "partition_loop 0 cmp a pivot lo hi = (if lo < hi then None else Some (a, lo, hi))"
| "partition_loop (Suc fuel) cmp a pivot lo hi =
     (if lo < hi then
        (let lo = scan_lo cmp a pivot lo hi;
             hi = scan_hi cmp a pivot lo hi;
             a = (if lo < hi then swap a lo hi else a)
         in partition_loop fuel cmp a pivot lo hi)
      else Some (a, lo, hi))"

primrec quicksort_impl ::
  "nat \<Rightarrow> ('a \<Rightarrow> 'a \<Rightarrow> int) \<Rightarrow> 'a list \<Rightarrow> int \<Rightarrow> int \<Rightarrow> 'a list option" where
  "quicksort_impl 0 cmp a lo0 hi0 = None"
| "quicksort_impl (Suc fuel) cmp a lo0 hi0 =
     (let lo = nat lo0; hi = nat hi0
      in if lo0 \<ge> hi0 then Some a
         else if lo0 = hi0 - 1 then
           Some (if cmp (a ! lo) (a ! hi) > 0 then swap a lo hi else a)
         else
           (let mid = nat ((lo0 + hi0) div 2);
                pivot = a ! mid;
                a = a[mid := a ! hi, hi := pivot]
            in case partition_loop (length a) cmp a pivot lo hi of
                 None \<Rightarrow> None
               | Some (a, lo', hi') \<Rightarrow>
                   (let a = a[hi := a ! hi', hi' := pivot]
                    in case quicksort_impl fuel cmp a lo0 (int lo' - 1) of
                         None \<Rightarrow> None
                       | Some a \<Rightarrow> quicksort_impl fuel cmp a (int hi' + 1) hi0)))"

definition quicksort :: "nat \<Rightarrow> ('a \<Rightarrow> 'a \<Rightarrow> int) \<Rightarrow> 'a list \<Rightarrow> int \<Rightarrow> 'a list option" where
  "quicksort fuel cmp arr siz = quicksort_impl fuel cmp arr 0 (siz - 1)"

declare scan_lo.simps [simp del] scan_hi.simps [simp del]

section \<open>Correctness\<close>

definition comparator :: "('a \<Rightarrow> 'a \<Rightarrow> int) \<Rightarrow> bool" where
  \<comment> \<open>the result orders the arguments consistently\<close>
  "comparator cmp \<longleftrightarrow> (\<forall>x y. cmp x y > 0 \<longleftrightarrow> cmp y x < 0)
     \<and> (\<forall>x y z. cmp x y \<le> 0 \<longrightarrow> cmp y z \<le> 0 \<longrightarrow> cmp x z \<le> 0)"

lemma comparator_simps:
  assumes "comparator cmp"
  shows "cmp x y > 0 \<longleftrightarrow> cmp y x < 0" "cmp x x = 0"
    "cmp x y \<le> 0 \<Longrightarrow> cmp y z \<le> 0 \<Longrightarrow> cmp x z \<le> 0"
proof -
  have a: "\<forall>x y. cmp x y > 0 \<longleftrightarrow> cmp y x < 0"
    and t: "\<forall>x y z. cmp x y \<le> 0 \<longrightarrow> cmp y z \<le> 0 \<longrightarrow> cmp x z \<le> 0"
    using assms by (auto simp: comparator_def)
  show "cmp x y > 0 \<longleftrightarrow> cmp y x < 0" using a by blast
  show "cmp x x = 0" using a [rule_format, of x x] by linarith
  show "cmp x y \<le> 0 \<Longrightarrow> cmp y z \<le> 0 \<Longrightarrow> cmp x z \<le> 0" using t by blast
qed

lemma length_swap [simp]: "length (swap a i j) = length a"
  by (simp add: swap_def)

lemma mset_swap_eq: "i < length a \<Longrightarrow> j < length a \<Longrightarrow> mset (swap a i j) = mset a"
  unfolding swap_def by (rule mset_swap)

lemma swap_nth:
  "i < length a \<Longrightarrow> j < length a \<Longrightarrow>
     swap a i j ! k = (if k = j then a ! i else if k = i then a ! j else a ! k)"
  by (simp add: swap_def nth_list_update)

lemma scan_lo_correct:
  "lo \<le> hi \<Longrightarrow> scan_lo cmp a p lo hi = l \<Longrightarrow>
     lo \<le> l \<and> l \<le> hi \<and> (\<forall>i. lo \<le> i \<and> i < l \<longrightarrow> cmp (a ! i) p \<le> 0)
     \<and> (l = hi \<or> cmp (a ! l) p > 0)"
proof (induction cmp a p lo hi rule: scan_lo.induct)
  case (1 cmp a p lo hi)
  show ?case
  proof (cases "cmp (a ! lo) p \<le> 0 \<and> lo < hi")
    case True
    then have "lo + 1 \<le> l \<and> l \<le> hi \<and> (\<forall>i. lo + 1 \<le> i \<and> i < l \<longrightarrow> cmp (a ! i) p \<le> 0)
     \<and> (l = hi \<or> cmp (a ! l) p > 0)"
      using 1 scan_lo.simps [of cmp a p lo hi] by simp
    moreover have "i = lo \<or> lo + 1 \<le> i" if "lo \<le> i" for i using that by linarith
    ultimately show ?thesis using True by (metis le_add1 le_trans)
  next
    case False
    then show ?thesis using 1(2,3) by (auto simp: scan_lo.simps [of cmp a p lo hi])
  qed
qed

lemma scan_hi_correct:
  "lo \<le> hi \<Longrightarrow> scan_hi cmp a p lo hi = h \<Longrightarrow>
     lo \<le> h \<and> h \<le> hi \<and> (\<forall>i. h < i \<and> i \<le> hi \<longrightarrow> cmp p (a ! i) \<le> 0)
     \<and> (h = lo \<or> cmp p (a ! h) > 0)"
proof (induction cmp a p lo hi rule: scan_hi.induct)
  case (1 cmp a p lo hi)
  show ?case
  proof (cases "cmp p (a ! hi) \<le> 0 \<and> lo < hi")
    case True
    moreover have "lo \<le> hi - 1" using True by linarith
    ultimately have "lo \<le> h \<and> h \<le> hi - 1 \<and> (\<forall>i. h < i \<and> i \<le> hi - 1 \<longrightarrow> cmp p (a ! i) \<le> 0)
     \<and> (h = lo \<or> cmp p (a ! h) > 0)"
      using 1 scan_hi.simps [of cmp a p lo hi] by simp
    moreover have "i = hi \<or> i \<le> hi - 1" if "i \<le> hi" for i using that by linarith
    ultimately show ?thesis using True by (metis diff_le_self le_trans)
  next
    case False
    then show ?thesis using 1(2,3) by (auto simp: scan_hi.simps [of cmp a p lo hi])
  qed
qed

definition split_at :: "('a \<Rightarrow> 'a \<Rightarrow> int) \<Rightarrow> 'a \<Rightarrow> nat \<Rightarrow> nat \<Rightarrow> 'a list \<Rightarrow> nat \<Rightarrow> nat \<Rightarrow> bool" where
  \<comment> \<open>below \<open>lo\<close> at most the pivot, from \<open>hi\<close> on at least the pivot, the pivot at the end\<close>
  "split_at cmp p lo0 hi0 a lo hi \<longleftrightarrow> lo0 \<le> lo \<and> lo \<le> hi \<and> hi \<le> hi0 \<and> hi0 < length a \<and> a ! hi0 = p
     \<and> (\<forall>i. lo0 \<le> i \<and> i < lo \<longrightarrow> cmp (a ! i) p \<le> 0)
     \<and> (\<forall>i. hi \<le> i \<and> i \<le> hi0 \<longrightarrow> cmp p (a ! i) \<le> 0)"

lemma partition_step:
  assumes cmp: "comparator cmp" and s: "split_at cmp p lo0 hi0 a lo hi" and lt: "lo < hi"
  defines "l \<equiv> scan_lo cmp a p lo hi"
  defines "h \<equiv> scan_hi cmp a p l hi"
  defines "b \<equiv> if l < h then swap a l h else a"
  shows "split_at cmp p lo0 hi0 b l h" "h < hi \<or> l = h" "lo0 \<le> l" "h \<le> hi0"
    "length b = length a" "mset b = mset a" "\<forall>i. i < lo0 \<or> hi0 < i \<longrightarrow> b ! i = a ! i"
proof -
  note C = comparator_simps [OF cmp]
  have L: "lo \<le> l \<and> l \<le> hi \<and> (\<forall>i. lo \<le> i \<and> i < l \<longrightarrow> cmp (a ! i) p \<le> 0) \<and> (l = hi \<or> cmp (a ! l) p > 0)"
    by (rule scan_lo_correct) (use lt in \<open>simp_all add: l_def\<close>)
  have H: "l \<le> h \<and> h \<le> hi \<and> (\<forall>i. h < i \<and> i \<le> hi \<longrightarrow> cmp p (a ! i) \<le> 0) \<and> (h = l \<or> cmp p (a ! h) > 0)"
    by (rule scan_hi_correct) (use L in \<open>simp_all add: h_def\<close>)
  have s': "lo0 \<le> lo" "hi \<le> hi0" "hi0 < length a" "a ! hi0 = p"
    "\<And>i. lo0 \<le> i \<Longrightarrow> i < lo \<Longrightarrow> cmp (a ! i) p \<le> 0"
    "\<And>i. hi \<le> i \<Longrightarrow> i \<le> hi0 \<Longrightarrow> cmp p (a ! i) \<le> 0"
    using s by (auto simp: split_at_def)
  show "lo0 \<le> l" "h \<le> hi0" using L H s' by simp_all
  show "length b = length a" by (simp add: b_def)
  have lh: "l < length a" "h < length a" using L H s' by simp_all
  then show "mset b = mset a" by (simp add: b_def mset_swap_eq)
  show "\<forall>i. i < lo0 \<or> hi0 < i \<longrightarrow> b ! i = a ! i"
    using lh L H s' by (auto simp: b_def swap_nth)
  show prog: "h < hi \<or> l = h"
    using H s'(2) s'(6) [of hi] by fastforce
  have up: "cmp p (a ! i) \<le> 0" if "h < i" "i \<le> hi0" for i
    using H s'(6) [of i] that by (cases "i \<le> hi") auto
  have down: "cmp (a ! i) p \<le> 0" if "lo0 \<le> i" "i < l" for i
    using L s'(5) [of i] that by (cases "i < lo") auto
  show "split_at cmp p lo0 hi0 b l h"
  proof (cases "l < h")
    case True
    then have big: "cmp (a ! l) p > 0" "cmp p (a ! h) > 0" using L H by auto
    then have "h \<noteq> hi0" using s'(4) C(2) by auto
    moreover have "cmp p (a ! l) \<le> 0" using C(1) [of "a ! l" p] big(1) by linarith
    ultimately show ?thesis
      using True lh L H s'(1-4) up down by (auto simp: split_at_def b_def swap_nth)
  next
    case False
    then have e: "l = h" using H by simp
    have "cmp p (a ! h) \<le> 0"
    proof (cases "h = hi")
      case True
      then show ?thesis using s'(6) [of hi] s'(2) by simp
    next
      case F: False
      then have "cmp (a ! l) p > 0" using L H e by auto
      then show ?thesis using C(1) [of "a ! l" p] e by simp
    qed
    then have "cmp p (a ! i) \<le> 0" if "h \<le> i" "i \<le> hi0" for i
      using up [of i] that by (cases "i = h") auto
    then show ?thesis using e L H s' down by (auto simp: split_at_def b_def)
  qed
qed

lemma partition_correct:
  assumes cmp: "comparator cmp"
  shows "split_at cmp p lo0 hi0 a lo hi \<Longrightarrow> hi - lo \<le> fuel \<Longrightarrow>
    \<exists>b k. partition_loop fuel cmp a p lo hi = Some (b, k, k) \<and> split_at cmp p lo0 hi0 b k k
      \<and> length b = length a \<and> mset b = mset a \<and> (\<forall>i. i < lo0 \<or> hi0 < i \<longrightarrow> b ! i = a ! i)"
proof (induction fuel arbitrary: a lo hi)
  case 0
  then have "lo = hi" by (simp add: split_at_def)
  with 0 show ?case by auto
next
  case (Suc fuel)
  show ?case
  proof (cases "lo < hi")
    case True
    define l where "l = scan_lo cmp a p lo hi"
    define h where "h = scan_hi cmp a p l hi"
    define b where "b = (if l < h then swap a l h else a)"
    note P = partition_step [OF cmp Suc.prems(1) True, folded l_def, folded h_def, folded b_def]
    have "lo \<le> l" using scan_lo_correct [of lo hi cmp a p l] True l_def by simp
    then have "h - l \<le> fuel" using P(2) Suc.prems(2) by linarith
    then obtain c k where "partition_loop fuel cmp b p l h = Some (c, k, k)" "split_at cmp p lo0 hi0 c k k"
      "length c = length b" "mset c = mset b" "\<forall>i. i < lo0 \<or> hi0 < i \<longrightarrow> c ! i = b ! i"
      using Suc.IH [OF P(1)] by blast
    moreover have "partition_loop (Suc fuel) cmp a p lo hi = partition_loop fuel cmp b p l h"
      using True unfolding l_def h_def b_def by (simp add: Let_def)
    ultimately show ?thesis using P(5-7) by auto
  next
    case False
    then have "lo = hi" using Suc.prems(1) by (simp add: split_at_def)
    with Suc.prems(1) show ?thesis by simp
  qed
qed

lemma list_nth_segment:
  assumes "length ys = length (pre @ xs @ post)"
    and "\<forall>i. i < length pre \<or> length pre + length xs \<le> i \<longrightarrow> ys ! i = (pre @ xs @ post) ! i"
  shows "ys = pre @ take (length xs) (drop (length pre) ys) @ post"
proof (rule nth_equalityI)
  fix i assume i: "i < length ys"
  consider "i < length pre" | "length pre \<le> i" "i < length pre + length xs"
    | "length pre + length xs \<le> i" by linarith
  then show "ys ! i = (pre @ take (length xs) (drop (length pre) ys) @ post) ! i"
    by cases (use assms i in \<open>auto simp: nth_append\<close>)
qed (use assms(1) in auto)

definition ordered :: "('a \<Rightarrow> 'a \<Rightarrow> int) \<Rightarrow> 'a list \<Rightarrow> bool" where
  "ordered cmp xs \<longleftrightarrow> sorted_wrt (\<lambda>x y. cmp x y \<le> 0) xs"

lemma partition_segment:
  assumes cmp: "comparator cmp" and n: "3 \<le> length xs"
    and a: "a = pre @ xs @ post" and lo0: "lo0 = length pre" and hi0: "hi0 = length pre + length xs - 1"
  defines "mid \<equiv> (lo0 + hi0) div 2"
  defines "p \<equiv> a ! mid"
  shows "\<exists>b k us vs. partition_loop (length a) cmp (a[mid := a ! hi0, hi0 := p]) p lo0 hi0 = Some (b, k, k)
    \<and> b[hi0 := b ! k, k := p] = pre @ us @ p # vs @ post \<and> k = length pre + length us
    \<and> mset (us @ p # vs) = mset xs \<and> (\<forall>x \<in> set us. cmp x p \<le> 0) \<and> (\<forall>x \<in> set vs. cmp p x \<le> 0)"
proof -
  have hi: "hi0 < length a" "lo0 + 2 \<le> hi0" "lo0 \<le> mid" "mid \<le> hi0" "length xs = hi0 + 1 - lo0"
    using n by (auto simp: a lo0 hi0 mid_def)
  let ?a1 = "a[mid := a ! hi0, hi0 := p]"
  have a1: "?a1 = swap a mid hi0" by (simp add: swap_def p_def)
  have s: "split_at cmp p lo0 hi0 ?a1 lo0 hi0"
    using hi comparator_simps(2) [OF cmp, of p] by (auto simp: split_at_def nth_list_update le_antisym)
  obtain b k where b: "partition_loop (length a) cmp ?a1 p lo0 hi0 = Some (b, k, k)"
    "split_at cmp p lo0 hi0 b k k" "length b = length a" "mset b = mset ?a1"
    "\<forall>i. i < lo0 \<or> hi0 < i \<longrightarrow> b ! i = ?a1 ! i"
  proof -
    have "hi0 - lo0 \<le> length a" using hi by simp
    from partition_correct [OF cmp s this, unfolded length_list_update] that show ?thesis by blast
  qed
  have k: "lo0 \<le> k" "k \<le> hi0" "b ! hi0 = p"
    "\<And>i. lo0 \<le> i \<Longrightarrow> i < k \<Longrightarrow> cmp (b ! i) p \<le> 0" "\<And>i. k \<le> i \<Longrightarrow> i \<le> hi0 \<Longrightarrow> cmp p (b ! i) \<le> 0"
    using b(2) by (auto simp: split_at_def)
  let ?c = "b[hi0 := b ! k, k := p]"
  have kl: "k < length b" "hi0 < length b" using k hi(1) b(3) by simp_all
  have c: "?c = swap b hi0 k" using k(3) by (simp add: swap_def)
  have mc: "mset ?c = mset a"
    unfolding c using kl b(4) hi by (simp add: mset_swap_eq a1)
  have "?c ! i = a ! i" if "i < length pre \<or> length pre + length xs \<le> i" for i
  proof -
    have "i < lo0 \<or> hi0 < i" using that hi(5) n lo0 hi0 by linarith
    moreover from this have "i \<noteq> hi0" "i \<noteq> k" "i \<noteq> mid" using k(1,2) hi by auto
    ultimately show ?thesis using b(5) by auto
  qed
  then have seg: "?c = pre @ take (length xs) (drop (length pre) ?c) @ post"
    using list_nth_segment [of ?c pre xs post] b(3) a by simp
  define zs where "zs = take (length xs) (drop (length pre) ?c)"
  have zl: "length zs = length xs" using b(3) by (simp add: zs_def a)
  have z: "zs ! i = ?c ! (lo0 + i)" if "i < length xs" for i
    using that zl kl by (simp add: zs_def lo0)
  define j where "j = k - lo0"
  have j: "k = lo0 + j" "j < length xs" using k hi by (simp_all add: j_def)
  have zj: "zs ! j = p" using z [of j] j kl by (simp add: nth_list_update)
  have split: "zs = take j zs @ p # drop (Suc j) zs" using id_take_nth_drop [of j zs] j zl zj by simp
  have "mset zs = mset xs"
    using mc arg_cong [OF seg, of mset] by (simp add: a zs_def)
  then have m: "mset (take j zs @ p # drop (Suc j) zs) = mset xs" using split by simp
  have u: "cmp x p \<le> 0" if "x \<in> set (take j zs)" for x
  proof -
    obtain i where i: "i < j" "x = zs ! i" using \<open>x \<in> _\<close> by (auto simp: in_set_conv_nth)
    then have "x = b ! (lo0 + i)" using z [of i] j k(2) hi by (simp add: nth_list_update)
    then show ?thesis using k(4) [of "lo0 + i"] i(1) j(1) by simp
  qed
  have v: "cmp p x \<le> 0" if "x \<in> set (drop (Suc j) zs)" for x
  proof -
    obtain i where i: "Suc j + i < length zs" "x = zs ! (Suc j + i)"
    proof -
      obtain i where "i < length zs - Suc j" "drop (Suc j) zs ! i = x"
        using \<open>x \<in> _\<close> by (auto simp: in_set_conv_nth)
      then show ?thesis using that [of i] by simp
    qed
    then have "x = b ! (lo0 + (Suc j + i)) \<or> x = b ! k"
      using z [of "Suc j + i"] j zl kl by (auto simp: nth_list_update)
    moreover have "lo0 + (Suc j + i) \<le> hi0" using i(1) zl hi by simp
    ultimately show ?thesis using k(5) [of "lo0 + (Suc j + i)"] k(5) [of k] k(2) j(1) by auto
  qed
  have "?c = pre @ take j zs @ p # drop (Suc j) zs @ post"
    using seg split by (metis append.assoc append_Cons zs_def)
  moreover have "k = length pre + length (take j zs)" using j zl lo0 by simp
  ultimately show ?thesis using b(1) m u v by blast
qed

lemma ordered_append:
  assumes "comparator cmp" "ordered cmp us" "ordered cmp vs"
    "\<forall>x \<in> set us. cmp x p \<le> 0" "\<forall>x \<in> set vs. cmp p x \<le> 0"
  shows "ordered cmp (us @ p # vs)"
  using assms comparator_simps(3) [OF assms(1)] by (fastforce simp: ordered_def sorted_wrt_append)

lemma quicksort_impl_correct:
  assumes cmp: "comparator cmp"
  shows "length xs < fuel \<Longrightarrow> \<exists>ys. quicksort_impl fuel cmp (pre @ xs @ post) (int (length pre))
      (int (length pre + length xs) - 1) = Some (pre @ ys @ post) \<and> mset ys = mset xs \<and> ordered cmp ys"
proof (induction fuel arbitrary: pre xs post)
  case (Suc fuel)
  let ?a = "pre @ xs @ post" and ?lo0 = "length pre" and ?hi0 = "length pre + length xs - 1"
  consider (small) "length xs \<le> 1" | (two) x y where "xs = [x, y]" | (big) "3 \<le> length xs"
  proof (cases xs)
    case (Cons x r)
    then show ?thesis using small two big by (cases r; cases "tl r") auto
  qed (use small in simp)
  then show ?case
  proof cases
    case small
    then have "ordered cmp xs" by (cases xs) (auto simp: ordered_def)
    moreover have "int ?lo0 \<ge> int (length pre + length xs) - 1" using small by simp
    ultimately show ?thesis by (auto simp: Let_def)
  next
    case two
    have n: "nat (int (length pre) + 1) = Suc (length pre)"
      "nat (1 + int (length pre)) = Suc (length pre)" by simp_all
    have sw: "swap ?a (length pre) (Suc (length pre)) = pre @ [y, x] @ post"
      by (simp add: two swap_def nth_append list_update_append)
    show ?thesis
    proof (cases "cmp x y > 0")
      case True
      then have "cmp y x \<le> 0" using comparator_simps(1) [OF cmp, of x y] by linarith
      then show ?thesis
        using True sw by (intro exI [of _ "[y, x]"]) (simp add: two n Let_def ordered_def nth_append)
    next
      case False
      then show ?thesis
        by (intro exI [of _ "[x, y]"]) (simp add: two n Let_def ordered_def nth_append)
    qed
  next
    case big
    let ?mid = "(?lo0 + ?hi0) div 2"
    let ?p = "?a ! ?mid"
    obtain b k us vs where P: "partition_loop (length ?a) cmp (?a[?mid := ?a ! ?hi0, ?hi0 := ?p]) ?p ?lo0 ?hi0 = Some (b, k, k)"
      "b[?hi0 := b ! k, k := ?p] = pre @ us @ ?p # vs @ post" "k = length pre + length us"
      "mset (us @ ?p # vs) = mset xs" "\<forall>x \<in> set us. cmp x ?p \<le> 0" "\<forall>x \<in> set vs. cmp ?p x \<le> 0"
      using partition_segment [OF cmp big refl refl refl, of pre post] by blast
    have len: "length us + length vs + 1 = length xs"
      using arg_cong [OF P(4), of size] by simp
    obtain us' where U: "quicksort_impl fuel cmp (pre @ us @ (?p # vs @ post)) (int ?lo0) (int k - 1)
        = Some (pre @ us' @ (?p # vs @ post))" "mset us' = mset us" "ordered cmp us'"
      using Suc.IH [of us pre "?p # vs @ post"] Suc.prems len P(3) by auto
    obtain vs' where V: "quicksort_impl fuel cmp ((pre @ us' @ [?p]) @ vs @ post)
        (int (length (pre @ us' @ [?p]))) (int (length (pre @ us' @ [?p]) + length vs) - 1)
        = Some ((pre @ us' @ [?p]) @ vs' @ post)" "mset vs' = mset vs" "ordered cmp vs'"
      using Suc.IH [of vs "pre @ us' @ [?p]" post] Suc.prems len by auto
    have lu: "length us' = length us" using U(2) mset_eq_length by blast
    have V': "quicksort_impl fuel cmp (pre @ us' @ ?p # vs @ post) (int k + 1) (int (length pre + length xs) - 1)
        = Some (pre @ (us' @ ?p # vs') @ post)"
    proof -
      have "int (length (pre @ us' @ [?p])) = int k + 1"
        "int (length (pre @ us' @ [?p]) + length vs) - 1 = int (length pre + length xs) - 1"
        using lu P(3) len by simp_all
      from V(1) [unfolded this] show ?thesis by (simp only: append_assoc append_Cons append_Nil)
    qed
    have nats: "nat (int (length pre + length xs) - 1) = ?hi0" "nat (int ?lo0) = ?lo0"
      "nat ((int ?lo0 + (int (length pre + length xs) - 1)) div 2) = ?mid"
      "\<not> int ?lo0 \<ge> int (length pre + length xs) - 1"
      "int ?lo0 \<noteq> int (length pre + length xs) - 1 - 1"
      using big by (simp_all add: nat_diff_distrib nat_div_distrib of_nat_diff)
    have "quicksort_impl (Suc fuel) cmp ?a (int ?lo0) (int (length pre + length xs) - 1)
        = Some (pre @ (us' @ ?p # vs') @ post)"
      using U(1) V' unfolding quicksort_impl.simps Let_def nats length_list_update P(1) option.case prod.case P(2)
      by (simp only: nats(4,5) if_False option.case)
    moreover have "ordered cmp (us' @ ?p # vs')"
      using ordered_append [OF cmp U(3) V(3)] P(5,6) U(2) V(2) by (metis mset_eq_setD)
    moreover have "mset (us' @ ?p # vs') = mset xs" using P(4) U(2) V(2) by simp
    ultimately show ?thesis by blast
  qed
qed simp

lemma quicksort_correct:
  assumes "comparator cmp"
  shows "\<exists>ys. quicksort (length xs + 1) cmp xs (int (length xs)) = Some ys
    \<and> mset ys = mset xs \<and> ordered cmp ys"
  using quicksort_impl_correct [OF assms, of xs "length xs + 1" "[]" "[]"] by (simp add: quicksort_def)


end
