(* ===== verification/Cds_Resources.thy ===== *)
theory Cds_Resources
  imports Dictionary TextTools
begin

text \<open>
  The resources of a media object (src/cds_resource.cc): a handler type and
  three dictionaries, and the text form stored in the database, whose four
  parts are separated by a tilde.
\<close>

record cds_resource =
  r_handlerType :: int
  r_attributes :: dictionary
  r_parameters :: dictionary
  r_options :: dictionary

abbreviation RESOURCE_PART_SEP :: char where "RESOURCE_PART_SEP \<equiv> CHR ''~''"

definition new_CdsResource :: "int \<Rightarrow> cds_resource" where
  "new_CdsResource handlerType =
     \<lparr>r_handlerType = handlerType, r_attributes = [], r_parameters = [], r_options = []\<rparr>"

definition CdsResource_of :: "int \<Rightarrow> dictionary \<Rightarrow> dictionary \<Rightarrow> dictionary \<Rightarrow> cds_resource" where
  "CdsResource_of handlerType attributes parameters options =
     \<lparr>r_handlerType = handlerType, r_attributes = attributes, r_parameters = parameters,
      r_options = options\<rparr>"

definition r_addAttribute :: "cds_resource \<Rightarrow> zstring \<Rightarrow> zstring \<Rightarrow> cds_resource" where
  "r_addAttribute r n v = r\<lparr>r_attributes := d_put (r_attributes r) n v\<rparr>"

definition r_removeAttribute :: "cds_resource \<Rightarrow> zstring \<Rightarrow> cds_resource" where
  "r_removeAttribute r n = r\<lparr>r_attributes := d_remove (r_attributes r) n\<rparr>"

definition r_mergeAttributes :: "cds_resource \<Rightarrow> dictionary option \<Rightarrow> cds_resource" where
  "r_mergeAttributes r additional = r\<lparr>r_attributes := d_merge (r_attributes r) additional\<rparr>"

definition r_addParameter :: "cds_resource \<Rightarrow> zstring \<Rightarrow> zstring \<Rightarrow> cds_resource" where
  "r_addParameter r n v = r\<lparr>r_parameters := d_put (r_parameters r) n v\<rparr>"

definition r_addOption :: "cds_resource \<Rightarrow> zstring \<Rightarrow> zstring \<Rightarrow> cds_resource" where
  "r_addOption r n v = r\<lparr>r_options := d_put (r_options r) n v\<rparr>"

definition r_getAttribute :: "cds_resource \<Rightarrow> zstring \<Rightarrow> zstring" where
  "r_getAttribute r n = d_get (r_attributes r) n"

definition r_getParameter :: "cds_resource \<Rightarrow> zstring \<Rightarrow> zstring" where
  "r_getParameter r n = d_get (r_parameters r) n"

definition r_getOption :: "cds_resource \<Rightarrow> zstring \<Rightarrow> zstring" where
  "r_getOption r n = d_get (r_options r) n"

definition r_equals :: "cds_resource \<Rightarrow> cds_resource \<Rightarrow> bool" where
  "r_equals r other =
     (r_handlerType r = r_handlerType other
      \<and> d_equals (r_attributes r) (r_attributes other)
      \<and> d_equals (r_parameters r) (r_parameters other)
      \<and> d_equals (r_options r) (r_options other))"

definition r_clone :: "cds_resource \<Rightarrow> cds_resource" where
  "r_clone r =
     CdsResource_of (r_handlerType r) (d_clone (r_attributes r)) (d_clone (r_parameters r))
       (d_clone (r_options r))"

definition r_encode :: "cds_resource \<Rightarrow> zstring" where
  "r_encode r =
     Some (show_int (r_handlerType r) @ [RESOURCE_PART_SEP] @ the (d_encode (r_attributes r))
       @ [RESOURCE_PART_SEP] @ the (d_encode (r_parameters r))
       @ [RESOURCE_PART_SEP] @ the (d_encode (r_options r)))"

definition r_decode :: "zstring \<Rightarrow> cds_resource result" where
  "r_decode serial =
     (let parts = split_string serial RESOURCE_PART_SEP True; n = length parts
      in if n < 2 \<or> n > 4 then Inl (Throw ''CdsResource::decode: Could not parse resources'')
         else
           (let handlerType = z_toInt (Some (parts ! 0));
                attr = d_decode [] (Some (parts ! 1));
                par = (if n \<ge> 3 then d_decode [] (Some (parts ! 2)) else []);
                opt = (if n \<ge> 4 then d_decode [] (Some (parts ! 3)) else [])
            in Inr (CdsResource_of handlerType attr par opt)))"

section \<open>Laws\<close>

definition r_inv :: "cds_resource \<Rightarrow> bool" where
  "r_inv r \<longleftrightarrow> d_inv (r_attributes r) \<and> d_inv (r_parameters r) \<and> d_inv (r_options r)"

lemma r_inv_ops:
  "r_inv (new_CdsResource h)"
  "r_inv r \<Longrightarrow> r_inv (r_addAttribute r n v)" "r_inv r \<Longrightarrow> r_inv (r_removeAttribute r n)"
  "r_inv r \<Longrightarrow> r_inv (r_addParameter r n v)" "r_inv r \<Longrightarrow> r_inv (r_addOption r n v)"
  by (simp_all add: r_inv_def new_CdsResource_def r_addAttribute_def r_removeAttribute_def
      r_addParameter_def r_addOption_def d_put_inv d_remove_inv)
    (simp_all add: d_inv_def)

lemma r_inv_merge: "r_inv r \<Longrightarrow> r_inv (r_mergeAttributes r d)"
  using d_get_merge [of "r_attributes r"] by (cases d) (simp_all add: r_inv_def r_mergeAttributes_def d_merge_def)

lemma r_clone_id: "r_inv r \<Longrightarrow> r_clone r = r"
  by (simp add: r_inv_def r_clone_def d_clone_id CdsResource_of_def)

lemma d_equals_refl: "d_inv d \<Longrightarrow> d_equals d d"
  using d_get_in [of d] by (auto simp: d_equals_def d_isSubsetOf_def list_all_iff)

lemma r_equals_refl: "r_inv r \<Longrightarrow> r_equals r r"
  by (simp add: r_inv_def r_equals_def d_equals_refl)

lemma d_encode_chars:
  "c \<in> set (the (d_encode d)) \<Longrightarrow> url_char c \<or> c = CHR ''&'' \<or> c = CHR ''=''"
proof -
  have "c \<in> set (d_encode_loop s1 s2 b d) \<Longrightarrow> url_char c \<or> c = s1 \<or> c = s2" for s1 s2 b
    by (induction s1 s2 b d rule: d_encode_loop.induct) (auto dest: url_escape_chars split: if_splits)
  then show "c \<in> set (the (d_encode d)) \<Longrightarrow> url_char c \<or> c = CHR ''&'' \<or> c = CHR ''=''"
    by (simp add: d_encode_def d_encode_sep_def)
qed

lemma d_encode_part:
  "RESOURCE_PART_SEP \<notin> set (the (d_encode d))" "nul_free (the (d_encode d))"
  using d_encode_chars [of RESOURCE_PART_SEP d] d_encode_chars [of NUL d] by (auto simp: nul_free_def)

lemma d_encode_Nil: "the (d_encode d) = [] \<longleftrightarrow> d = []"
  by (cases d) (auto simp: d_encode_def d_encode_sep_def)

text \<open>\<open>split_string\<close> leaves out empty parts at the end.\<close>

lemma split_keep_last:
  assumes "nul_free a" "sep \<noteq> NUL" "sep \<notin> set a"
  shows "split_loop sep True [] a = (if a = [] then [] else [a])"
  using split_loop_last [of a sep True] assms by auto

lemma split_keep_Cons:
  assumes "nul_free (a @ sep # b)" "sep \<noteq> NUL" "sep \<notin> set a"
  shows "split_loop sep True [] (a @ sep # b)
    = (if a = [] then (if b = [] then [] else [[]]) else [a]) @ split_loop sep True [] b"
  using split_loop_step [OF assms(1,2) refl assms(3), of True] by simp

lemma split_resource:
  assumes "nul_free (h @ a @ p @ q)" "h \<noteq> []"
    "RESOURCE_PART_SEP \<notin> set h" "RESOURCE_PART_SEP \<notin> set a" "RESOURCE_PART_SEP \<notin> set p"
    "RESOURCE_PART_SEP \<notin> set q"
  shows "split_string (Some (h @ RESOURCE_PART_SEP # a @ RESOURCE_PART_SEP # p @ RESOURCE_PART_SEP # q))
      RESOURCE_PART_SEP True
    = (if q \<noteq> [] then [h, a, p, q] else if p \<noteq> [] then [h, a, p] else [h, a])"
  using assms
  by (simp add: split_string_def split_keep_Cons split_keep_last)

lemma r_decode_encode:
  assumes "r_inv r" "d_plain (r_attributes r)" "d_plain (r_parameters r)" "d_plain (r_options r)"
    and "- (2 ^ 31) \<le> r_handlerType r" "r_handlerType r < 2 ^ 31"
  shows "r_decode (r_encode r) = Inr r"
proof -
  let ?h = "show_int (r_handlerType r)"
  let ?a = "the (d_encode (r_attributes r))" and ?p = "the (d_encode (r_parameters r))"
    and ?q = "the (d_encode (r_options r))"
  have dec: "d_decode [] (Some (the (d_encode d))) = d" if "d_inv d" "d_plain d" for d
    using d_decode_encode [OF that] by (simp add: d_encode_def d_encode_sep_def)
  have "RESOURCE_PART_SEP \<notin> set ?h"
    using set_show_int [of RESOURCE_PART_SEP] by (auto simp: is_digit_def)
  then have s: "split_string (r_encode r) RESOURCE_PART_SEP True
      = (if ?q \<noteq> [] then [?h, ?a, ?p, ?q] else if ?p \<noteq> [] then [?h, ?a, ?p] else [?h, ?a])"
    using split_resource [of ?h ?a ?p ?q] d_encode_part by (simp add: r_encode_def)
  have h: "z_toInt (Some ?h) = r_handlerType r"
    using z_toInt_from [OF assms(5,6)] by (simp add: z_from_def)
  show ?thesis
    using assms(1-4) dec
    by (auto simp: r_decode_def s h Let_def r_inv_def CdsResource_of_def d_encode_Nil)
qed

end
