(* ===== verification/Cds_Objects.thy ===== *)
theory Cds_Objects
  imports Cds_Resources
begin

text \<open>
  The media objects of src/cds_objects.cc and cds_objects.h: the class hierarchy
  \<open>CdsObject\<close>, \<open>CdsItem\<close>, \<open>CdsActiveItem\<close>, \<open>CdsItemExternalURL\<close>,
  \<open>CdsItemInternalURL\<close>, \<open>CdsContainer\<close> with the virtual operations \<open>copyTo\<close>,
  \<open>equals\<close>, \<open>validate\<close> and \<open>getVirtualPath\<close>, the factory, the flags, and the
  names of the object types.

  An object is a record of the members of \<open>CdsObject\<close> and a part that holds
  the class and the members the class adds. A member of \<open>other\<close> that is read
  through an unchecked cast to a class it does not have is \<open>Abort\<close>. The file
  system and the storage are arguments.
\<close>

unbundle bit_operations_syntax

section \<open>Object types and flags\<close>

abbreviation OBJECT_TYPE_CONTAINER :: "32 word" where "OBJECT_TYPE_CONTAINER \<equiv> 0x1"
abbreviation OBJECT_TYPE_ITEM :: "32 word" where "OBJECT_TYPE_ITEM \<equiv> 0x2"
abbreviation OBJECT_TYPE_ACTIVE_ITEM :: "32 word" where "OBJECT_TYPE_ACTIVE_ITEM \<equiv> 0x4"
abbreviation OBJECT_TYPE_ITEM_EXTERNAL_URL :: "32 word" where "OBJECT_TYPE_ITEM_EXTERNAL_URL \<equiv> 0x8"
abbreviation OBJECT_TYPE_ITEM_INTERNAL_URL :: "32 word" where "OBJECT_TYPE_ITEM_INTERNAL_URL \<equiv> 0x10"

abbreviation OBJECT_FLAG_RESTRICTED :: "32 word" where "OBJECT_FLAG_RESTRICTED \<equiv> 0x1"
abbreviation OBJECT_FLAG_SEARCHABLE :: "32 word" where "OBJECT_FLAG_SEARCHABLE \<equiv> 0x2"
abbreviation OBJECT_FLAG_PROXY_URL :: "32 word" where "OBJECT_FLAG_PROXY_URL \<equiv> 0x20"
abbreviation OBJECT_FLAG_PLAYED :: "32 word" where "OBJECT_FLAG_PLAYED \<equiv> 0x200"

definition IS_CDS_CONTAINER :: "32 word \<Rightarrow> bool" where
  "IS_CDS_CONTAINER type \<longleftrightarrow> type AND OBJECT_TYPE_CONTAINER \<noteq> 0"

definition IS_CDS_ITEM :: "32 word \<Rightarrow> bool" where
  "IS_CDS_ITEM type \<longleftrightarrow> type AND OBJECT_TYPE_ITEM \<noteq> 0"

definition IS_CDS_ACTIVE_ITEM :: "32 word \<Rightarrow> bool" where
  "IS_CDS_ACTIVE_ITEM type \<longleftrightarrow> type AND OBJECT_TYPE_ACTIVE_ITEM \<noteq> 0"

definition IS_CDS_ITEM_EXTERNAL_URL :: "32 word \<Rightarrow> bool" where
  "IS_CDS_ITEM_EXTERNAL_URL type \<longleftrightarrow> type AND OBJECT_TYPE_ITEM_EXTERNAL_URL \<noteq> 0"

definition IS_CDS_ITEM_INTERNAL_URL :: "32 word \<Rightarrow> bool" where
  "IS_CDS_ITEM_INTERNAL_URL type \<longleftrightarrow> type AND OBJECT_TYPE_ITEM_INTERNAL_URL \<noteq> 0"

definition IS_CDS_PURE_ITEM :: "32 word \<Rightarrow> bool" where
  "IS_CDS_PURE_ITEM type \<longleftrightarrow> type = OBJECT_TYPE_ITEM"

definition mapObjectType :: "32 word \<Rightarrow> zstring result" where
  "mapObjectType type =
     (if IS_CDS_CONTAINER type then Inr (Some ''container'')
      else if IS_CDS_PURE_ITEM type then Inr (Some ''item'')
      else if IS_CDS_ACTIVE_ITEM type then Inr (Some ''active_item'')
      else if IS_CDS_ITEM_EXTERNAL_URL type then Inr (Some ''external_url'')
      else if IS_CDS_ITEM_INTERNAL_URL type then Inr (Some ''internal_url'')
      else Inl (Throw (''illegal objectType: '' @ show_int (sint type))))"

definition remapObjectType :: "zstring \<Rightarrow> 32 word result" where
  "remapObjectType objectType =
     (if z_eq objectType (Some ''container'') then Inr OBJECT_TYPE_CONTAINER
      else if z_eq objectType (Some ''item'') then Inr OBJECT_TYPE_ITEM
      else if z_eq objectType (Some ''active_item'') then
        Inr (OBJECT_TYPE_ITEM OR OBJECT_TYPE_ACTIVE_ITEM)
      else if z_eq objectType (Some ''external_url'') then
        Inr (OBJECT_TYPE_ITEM OR OBJECT_TYPE_ITEM_EXTERNAL_URL)
      else if z_eq objectType (Some ''internal_url'') then
        Inr (OBJECT_TYPE_ITEM OR OBJECT_TYPE_ITEM_EXTERNAL_URL OR OBJECT_TYPE_ITEM_INTERNAL_URL)
      else Inl (Throw (''illegal objectType: '' @ the (z_append (Some '''') objectType))))"

section \<open>Objects\<close>

record item_part =
  i_mimeType :: zstring
  i_trackNumber :: int
  i_serviceID :: zstring

record container_part =
  c_updateID :: int
  c_childCount :: int
  c_autoscanType :: int

datatype cds_part =
    CdsItem item_part
  | CdsActiveItem item_part zstring zstring
  | CdsItemExternalURL item_part
  | CdsItemInternalURL item_part
  | CdsContainer container_part

record cds_object =
  o_id :: int
  o_refID :: int
  o_parentID :: int
  o_title :: zstring
  o_upnpClass :: zstring
  o_location :: zstring
  o_mtime :: int
  o_sizeOnDisk :: int
  o_virt :: bool
  o_objectType :: "32 word"
  o_objectFlags :: "32 word"
  o_sortPriority :: int
  o_metadata :: dictionary
  o_auxdata :: dictionary
  o_resources :: "cds_resource list"
  o_part :: cds_part

abbreviation INVALID_OBJECT_ID :: int where "INVALID_OBJECT_ID \<equiv> -333"
abbreviation CDS_ID_ROOT :: int where "CDS_ID_ROOT \<equiv> 0"
abbreviation CDS_ID_FS_ROOT :: int where "CDS_ID_FS_ROOT \<equiv> 1"

definition new_CdsObject :: "32 word \<Rightarrow> zstring \<Rightarrow> cds_part \<Rightarrow> cds_object" where
  \<comment> \<open>what \<open>CdsObject()\<close> sets, with what the constructor of the class adds\<close>
  "new_CdsObject objectType upnpClass part =
     \<lparr>o_id = INVALID_OBJECT_ID, o_refID = INVALID_OBJECT_ID, o_parentID = INVALID_OBJECT_ID,
      o_title = None, o_upnpClass = upnpClass, o_location = None, o_mtime = 0, o_sizeOnDisk = 0,
      o_virt = False, o_objectType = objectType, o_objectFlags = OBJECT_FLAG_RESTRICTED,
      o_sortPriority = 0, o_metadata = [], o_auxdata = [], o_resources = [], o_part = part\<rparr>"

definition new_item_part :: item_part where
  "new_item_part =
     \<lparr>i_mimeType = Some ''application/octet-stream'', i_trackNumber = 0, i_serviceID = None\<rparr>"

definition new_CdsItem :: cds_object where
  "new_CdsItem = new_CdsObject OBJECT_TYPE_ITEM (Some ''object.item'') (CdsItem new_item_part)"

definition new_CdsActiveItem :: cds_object where
  "new_CdsActiveItem =
     new_CdsObject (OBJECT_TYPE_ITEM OR OBJECT_TYPE_ACTIVE_ITEM)
       (Some ''object.item.activeItem'') (CdsActiveItem new_item_part None None)"

definition new_CdsItemExternalURL :: cds_object where
  "new_CdsItemExternalURL =
     new_CdsObject (OBJECT_TYPE_ITEM OR OBJECT_TYPE_ITEM_EXTERNAL_URL)
       (Some ''object.item'') (CdsItemExternalURL new_item_part)"

definition new_CdsItemInternalURL :: cds_object where
  "new_CdsItemInternalURL =
     new_CdsObject (OBJECT_TYPE_ITEM OR OBJECT_TYPE_ITEM_EXTERNAL_URL OR OBJECT_TYPE_ITEM_INTERNAL_URL)
       (Some ''object.item'') (CdsItemInternalURL new_item_part)"

definition new_CdsContainer :: cds_object where
  "new_CdsContainer =
     new_CdsObject OBJECT_TYPE_CONTAINER (Some ''object.container'')
       (CdsContainer \<lparr>c_updateID = 0, c_childCount = -1, c_autoscanType = 0\<rparr>)"

definition createObject :: "32 word \<Rightarrow> cds_object result" where
  "createObject objectType =
     (if IS_CDS_CONTAINER objectType then Inr new_CdsContainer
      else if IS_CDS_ITEM_INTERNAL_URL objectType then Inr new_CdsItemInternalURL
      else if IS_CDS_ITEM_EXTERNAL_URL objectType then Inr new_CdsItemExternalURL
      else if IS_CDS_ACTIVE_ITEM objectType then Inr new_CdsActiveItem
      else if IS_CDS_ITEM objectType then Inr new_CdsItem
      else Inl (Throw (''invalid object type: '' @ show_int (sint objectType))))"

definition getFlag :: "cds_object \<Rightarrow> 32 word \<Rightarrow> 32 word" where
  "getFlag ob msk = o_objectFlags ob AND msk"

definition setFlag :: "cds_object \<Rightarrow> 32 word \<Rightarrow> cds_object" where
  "setFlag ob msk = ob\<lparr>o_objectFlags := o_objectFlags ob OR msk\<rparr>"

definition clearFlag :: "cds_object \<Rightarrow> 32 word \<Rightarrow> cds_object" where
  "clearFlag ob msk = ob\<lparr>o_objectFlags := o_objectFlags ob AND NOT msk\<rparr>"

definition changeFlag :: "cds_object \<Rightarrow> 32 word \<Rightarrow> bool \<Rightarrow> cds_object" where
  "changeFlag ob msk v = (if v then setFlag ob msk else clearFlag ob msk)"

definition isRestricted :: "cds_object \<Rightarrow> bool" where
  "isRestricted ob \<longleftrightarrow> getFlag ob OBJECT_FLAG_RESTRICTED \<noteq> 0"

definition isSearchable :: "cds_object \<Rightarrow> 32 word" where
  "isSearchable ob = getFlag ob OBJECT_FLAG_SEARCHABLE"

section \<open>copyTo and equals\<close>

definition the_item :: "cds_object \<Rightarrow> item_part option" where
  \<comment> \<open>the members a cast to \<open>CdsItem\<close> reaches\<close>
  "the_item ob =
     (case o_part ob of
        CdsItem i \<Rightarrow> Some i | CdsActiveItem i _ _ \<Rightarrow> Some i
      | CdsItemExternalURL i \<Rightarrow> Some i | CdsItemInternalURL i \<Rightarrow> Some i
      | CdsContainer _ \<Rightarrow> None)"

definition set_item :: "cds_object \<Rightarrow> item_part \<Rightarrow> cds_object" where
  "set_item ob i =
     (case o_part ob of
        CdsItem _ \<Rightarrow> ob\<lparr>o_part := CdsItem i\<rparr>
      | CdsActiveItem _ a s \<Rightarrow> ob\<lparr>o_part := CdsActiveItem i a s\<rparr>
      | CdsItemExternalURL _ \<Rightarrow> ob\<lparr>o_part := CdsItemExternalURL i\<rparr>
      | CdsItemInternalURL _ \<Rightarrow> ob\<lparr>o_part := CdsItemInternalURL i\<rparr>
      | CdsContainer _ \<Rightarrow> ob)"

definition object_copyTo :: "cds_object \<Rightarrow> cds_object \<Rightarrow> cds_object" where
  "object_copyTo this ob =
     ob\<lparr>o_id := o_id this, o_refID := o_refID this, o_parentID := o_parentID this,
        o_title := o_title this, o_upnpClass := o_upnpClass this, o_location := o_location this,
        o_mtime := o_mtime this, o_sizeOnDisk := o_sizeOnDisk this, o_virt := o_virt this,
        o_metadata := d_clone (o_metadata this), o_auxdata := d_clone (o_auxdata this),
        o_objectFlags := o_objectFlags this, o_sortPriority := o_sortPriority this,
        o_resources := o_resources ob @ map r_clone (o_resources this)\<rparr>"

definition item_copyTo :: "item_part \<Rightarrow> cds_object \<Rightarrow> cds_object \<Rightarrow> cds_object result" where
  "item_copyTo i this ob =
     (let ob = object_copyTo this ob
      in if \<not> IS_CDS_ITEM (o_objectType ob) then Inr ob
         else case the_item ob of
                None \<Rightarrow> Inl Abort
              | Some j \<Rightarrow> Inr (set_item ob (j\<lparr>i_mimeType := i_mimeType i,
                              i_trackNumber := i_trackNumber i, i_serviceID := i_serviceID i\<rparr>)))"

definition copyTo :: "cds_object \<Rightarrow> cds_object \<Rightarrow> cds_object result" where
  "copyTo this ob =
     (case o_part this of
        CdsItem i \<Rightarrow> item_copyTo i this ob
      | CdsItemExternalURL i \<Rightarrow> item_copyTo i this ob
      | CdsItemInternalURL i \<Rightarrow> item_copyTo i this ob
      | CdsActiveItem i action st \<Rightarrow>
          bind_result (item_copyTo i this ob) (\<lambda>ob.
            if \<not> IS_CDS_ACTIVE_ITEM (o_objectType ob) then Inr ob
            else case o_part ob of
                   CdsActiveItem j _ _ \<Rightarrow> Inr (ob\<lparr>o_part := CdsActiveItem j action st\<rparr>)
                 | _ \<Rightarrow> Inl Abort)
      | CdsContainer c \<Rightarrow>
          (let ob = object_copyTo this ob
           in if \<not> IS_CDS_CONTAINER (o_objectType ob) then Inr ob
              else case o_part ob of
                     CdsContainer d \<Rightarrow> Inr (ob\<lparr>o_part := CdsContainer (d\<lparr>c_updateID := c_updateID c\<rparr>)\<rparr>)
                   | _ \<Rightarrow> Inl Abort))"

definition resourcesEqual :: "cds_object \<Rightarrow> cds_object \<Rightarrow> bool" where
  "resourcesEqual this ob =
     (length (o_resources this) = length (o_resources ob)
      \<and> list_all2 r_equals (o_resources this) (o_resources ob))"

definition object_equals :: "cds_object \<Rightarrow> cds_object \<Rightarrow> bool \<Rightarrow> bool" where
  "object_equals this ob exactly =
     (if \<not> (o_id this = o_id ob \<and> o_parentID this = o_parentID ob
            \<and> isRestricted this = isRestricted ob \<and> z_eq (o_title this) (o_title ob)
            \<and> z_eq (o_upnpClass this) (o_upnpClass ob)
            \<and> o_sortPriority this = o_sortPriority ob) then False
      else if \<not> resourcesEqual this ob then False
      else if \<not> d_equals (o_metadata this) (o_metadata ob) then False
      else if exactly \<and> \<not> (z_eq (o_location this) (o_location ob) \<and> o_mtime this = o_mtime ob
            \<and> o_sizeOnDisk this = o_sizeOnDisk ob \<and> o_virt this = o_virt ob
            \<and> d_equals (o_auxdata this) (o_auxdata ob)
            \<and> o_objectFlags this = o_objectFlags ob) then False
      else True)"

definition item_equals :: "item_part \<Rightarrow> cds_object \<Rightarrow> cds_object \<Rightarrow> bool \<Rightarrow> bool result" where
  "item_equals i this ob exactly =
     (if \<not> object_equals this ob exactly then Inr False
      else case the_item ob of
             None \<Rightarrow> Inl Abort
           | Some j \<Rightarrow> Inr (z_eq (i_mimeType i) (i_mimeType j)
                          \<and> i_trackNumber i = i_trackNumber j
                          \<and> z_eq (i_serviceID i) (i_serviceID j)))"

definition cds_equals :: "cds_object \<Rightarrow> cds_object \<Rightarrow> bool \<Rightarrow> bool result" where
  "cds_equals this ob exactly =
     (case o_part this of
        CdsItem i \<Rightarrow> item_equals i this ob exactly
      | CdsItemExternalURL i \<Rightarrow> item_equals i this ob exactly
      | CdsItemInternalURL i \<Rightarrow> item_equals i this ob exactly
      | CdsActiveItem i action st \<Rightarrow>
          bind_result (item_equals i this ob exactly) (\<lambda>b.
            if \<not> b then Inr False
            else if exactly then
              (case o_part ob of
                 CdsActiveItem _ a s \<Rightarrow>
                   if \<not> z_eq action a \<or> \<not> z_eq st s then Inr False else Inr True
               | _ \<Rightarrow> Inl Abort)
            else Inr True)
      | CdsContainer c \<Rightarrow>
          Inr (object_equals this ob exactly \<and> isSearchable this = isSearchable ob))"

section \<open>validate and getVirtualPath\<close>

definition object_validate :: "cds_object \<Rightarrow> unit result" where
  "object_validate this =
     (if \<not> string_ok (o_title this) then
        Inl (Throw (''Object validation failed: missing title!'' @ [CHR 0x0A]))
      else if \<not> string_ok (o_upnpClass this) then
        Inl (Throw (''Object validation failed: missing upnp class'' @ [CHR 0x0A]))
      else Inr ())"

definition item_validate :: "(zstring \<Rightarrow> bool) \<Rightarrow> item_part \<Rightarrow> cds_object \<Rightarrow> unit result" where
  "item_validate check_path i this =
     bind_result (object_validate this) (\<lambda>_.
       if \<not> string_ok (i_mimeType i) then Inl (Throw ''Item validation failed: missing mimetype'')
       else if \<not> string_ok (o_location this) then
         Inl (Throw ''Item validation failed: missing location'')
       else if \<not> check_path (o_location this) then
         Inl (Throw (''Item validation failed: file '' @ cstr (the (o_location this)) @ '' not found''))
       else Inr ())"

definition external_validate :: "item_part \<Rightarrow> cds_object \<Rightarrow> unit result" where
  "external_validate i this =
     bind_result (object_validate this) (\<lambda>_.
       if \<not> string_ok (i_mimeType i) then
         Inl (Throw (''URL Item validation failed: missing mimetype'' @ [CHR 0x0A]))
       else if \<not> string_ok (o_location this) then
         Inl (Throw (''URL Item validation failed: missing URL'' @ [CHR 0x0A]))
       else Inr ())"

definition validate :: "(zstring \<Rightarrow> bool) \<Rightarrow> cds_object \<Rightarrow> unit result" where
  "validate check_path this =
     (case o_part this of
        CdsItem i \<Rightarrow> item_validate check_path i this
      | CdsActiveItem i action st \<Rightarrow>
          bind_result (item_validate check_path i this) (\<lambda>_.
            if \<not> string_ok action then
              Inl (Throw (''Active Item validation failed: missing action'' @ [CHR 0x0A]))
            else if \<not> check_path action then
              Inl (Throw (''ctive Item validation failed: action script '' @ cstr (the action)
                          @ '' not found'' @ [CHR 0x0A]))
            else Inr ())
      | CdsItemExternalURL i \<Rightarrow> external_validate i this
      | CdsItemInternalURL i \<Rightarrow>
          bind_result (external_validate i this) (\<lambda>_.
            bind_result (z_startsWith (o_location this) (Some ''http://'')) (\<lambda>b.
              if b then
                Inl (Throw (''Internal URL item validation failed: only realative URLs allowd'' @ [CHR 0x0A]))
              else Inr ()))
      | CdsContainer _ \<Rightarrow> object_validate this)"

definition container_virtual_path :: "zstring \<Rightarrow> cds_object \<Rightarrow> zstring result" where
  \<comment> \<open>the first argument is \<open>storage->getFsRootName()\<close>\<close>
  "container_virtual_path fsRootName this =
     (let location =
            (if o_id this = CDS_ID_ROOT then Some ''/''
             else if o_id this = CDS_ID_FS_ROOT then z_append (Some ''/'') fsRootName
             else if string_ok (o_location this) then
               (if \<not> o_virt this then z_append (z_append (Some ''/'') fsRootName) (o_location this)
                else o_location this)
             else None)
      in if \<not> string_ok location then Inl (Throw ''virtual location not available'')
         else Inr location)"

partial_function (option) getVirtualPath ::
  "(int \<Rightarrow> cds_object result) \<Rightarrow> zstring \<Rightarrow> cds_object \<Rightarrow> zstring result option" where
  \<comment> \<open>\<open>None\<close> when the chain of parents never reaches a container\<close>
  "getVirtualPath loadObject fsRootName this =
     (case o_part this of
        CdsContainer _ \<Rightarrow> Some (container_virtual_path fsRootName this)
      | _ \<Rightarrow>
          (case loadObject (o_parentID this) of
             Inl e \<Rightarrow> Some (Inl e)
           | Inr cont \<Rightarrow>
               Option.bind (getVirtualPath loadObject fsRootName cont) (\<lambda>r.
                 Some (bind_result r (\<lambda>location.
                   (let location = z_append (z_append_char location (CHR ''/'')) (o_title this)
                    in if \<not> string_ok location then Inl (Throw ''virtual location not available'')
                       else Inr location))))))"

section \<open>Laws\<close>

lemmas IS_CDS_defs = IS_CDS_CONTAINER_def IS_CDS_ITEM_def IS_CDS_ACTIVE_ITEM_def
  IS_CDS_ITEM_EXTERNAL_URL_def IS_CDS_ITEM_INTERNAL_URL_def IS_CDS_PURE_ITEM_def

lemmas new_Cds_defs = new_CdsObject_def new_CdsItem_def new_CdsActiveItem_def
  new_CdsItemExternalURL_def new_CdsItemInternalURL_def new_CdsContainer_def

definition class_type :: "cds_part \<Rightarrow> 32 word" where
  \<comment> \<open>the object type that the constructor of the class sets\<close>
  "class_type p =
     (case p of CdsItem _ \<Rightarrow> 0x2 | CdsActiveItem _ _ _ \<Rightarrow> 0x6 | CdsItemExternalURL _ \<Rightarrow> 0xA
      | CdsItemInternalURL _ \<Rightarrow> 0x1A | CdsContainer _ \<Rightarrow> 0x1)"

definition cds_inv :: "cds_object \<Rightarrow> bool" where
  "cds_inv ob \<longleftrightarrow> d_inv (o_metadata ob) \<and> d_inv (o_auxdata ob)
     \<and> (\<forall>r \<in> set (o_resources ob). r_inv r) \<and> o_objectType ob = class_type (o_part ob)"

lemma createObject_inv: "createObject t = Inr ob \<Longrightarrow> cds_inv ob \<and> o_resources ob = []"
  by (auto simp: createObject_def new_Cds_defs cds_inv_def d_inv_def class_type_def split: if_splits)

definition same_class :: "cds_part \<Rightarrow> cds_part \<Rightarrow> bool" where
  "same_class p q \<longleftrightarrow> class_type p = class_type q"

lemma createObject_class:
  "\<exists>f. createObject (class_type p) = Inr f \<and> same_class (o_part f) p"
  by (cases p) (simp_all add: createObject_def class_type_def IS_CDS_defs new_Cds_defs same_class_def)

lemma map_clone_id: "\<forall>r \<in> set rs. r_inv r \<Longrightarrow> map r_clone rs = rs"
  by (induction rs) (simp_all add: r_clone_id)

lemma copyTo_equals_core:
  assumes "cds_inv ob" "g = object_copyTo ob f" "o_resources f = []"
  shows "object_equals ob g exactly"
  using assms map_clone_id [of "o_resources ob"]
  by (auto simp: object_equals_def object_copyTo_def cds_inv_def isRestricted_def getFlag_def
      resourcesEqual_def d_clone_id d_equals_refl r_equals_refl list_all2_same)

lemma object_equals_part [simp]:
  "object_equals ob (f\<lparr>o_part := p\<rparr>) exactly = object_equals ob f exactly"
  by (simp add: object_equals_def isRestricted_def getFlag_def resourcesEqual_def)

lemma copyTo_equals:
  assumes "cds_inv ob" "cds_inv f" "same_class (o_part f) (o_part ob)" "o_resources f = []"
  shows "\<exists>f'. copyTo ob f = Inr f' \<and> cds_equals ob f' exactly = Inr True"
proof -
  have eq: "object_equals ob (object_copyTo ob f) exactly"
    using copyTo_equals_core [OF assms(1) refl assms(4)] .
  have p: "o_part (object_copyTo ob f) = o_part f" "o_objectType (object_copyTo ob f) = class_type (o_part f)"
    "o_objectFlags (object_copyTo ob f) = o_objectFlags ob"
    using assms(2) by (simp_all add: object_copyTo_def cds_inv_def)
  show ?thesis
    using assms(3) eq p
    by (cases "o_part ob"; cases "o_part f")
      (simp_all add: same_class_def class_type_def copyTo_def item_copyTo_def Let_def IS_CDS_defs
        the_item_def set_item_def cds_equals_def item_equals_def isSearchable_def getFlag_def)
qed

lemma clone_via_factory:
  assumes "cds_inv ob"
  shows "\<exists>f f'. createObject (o_objectType ob) = Inr f \<and> copyTo ob f = Inr f'
    \<and> cds_equals ob f' exactly = Inr True"
proof -
  have t: "o_objectType ob = class_type (o_part ob)" using assms by (simp add: cds_inv_def)
  obtain f where f: "createObject (o_objectType ob) = Inr f" "same_class (o_part f) (o_part ob)"
    using createObject_class [of "o_part ob"] unfolding t by blast
  then show ?thesis
    using copyTo_equals [OF assms, of f] createObject_inv [OF f(1)] by blast
qed

lemma flag_laws:
  "getFlag (setFlag ob m) m = m" "getFlag (clearFlag ob m) m = 0"
  "m AND k = 0 \<Longrightarrow> getFlag (changeFlag ob m v) k = getFlag ob k"
proof -
  show "getFlag (setFlag ob m) m = m" "getFlag (clearFlag ob m) m = 0"
    by (auto simp: getFlag_def setFlag_def clearFlag_def bit_eq_iff bit_simps)
  assume "m AND k = 0"
  then have "\<not> (bit m n \<and> bit k n)" for n by (metis bit_and_iff bit_0_eq bot_apply bot_bool_def)
  then show "getFlag (changeFlag ob m v) k = getFlag ob k"
    by (auto simp: getFlag_def changeFlag_def setFlag_def clearFlag_def bit_eq_iff bit_simps)
qed

lemma mapObjectType_remap:
  "s \<in> {''container'', ''item'', ''active_item'', ''external_url''} \<Longrightarrow>
     bind_result (remapObjectType (Some s)) mapObjectType = Inr (Some s)"
  by (elim insertE; simp; code_simp)

lemma mapObjectType_internal:
  "bind_result (remapObjectType (Some ''internal_url'')) mapObjectType = Inr (Some ''external_url'')"
  by code_simp

lemma remapObjectType_class:
  "remapObjectType (Some ''container'') = Inr (class_type (CdsContainer c))"
  "remapObjectType (Some ''item'') = Inr (class_type (CdsItem i))"
  "remapObjectType (Some ''active_item'') = Inr (class_type (CdsActiveItem i a s))"
  "remapObjectType (Some ''external_url'') = Inr (class_type (CdsItemExternalURL i))"
  "remapObjectType (Some ''internal_url'') = Inr (class_type (CdsItemInternalURL i))"
  by (simp_all add: remapObjectType_def class_type_def z_eq_def cstr_def)

lemma validate_required:
  assumes "validate check_path ob = Inr ()"
  shows "string_ok (o_title ob) \<and> string_ok (o_upnpClass ob)
    \<and> (\<forall>i. the_item ob = Some i \<longrightarrow> string_ok (i_mimeType i) \<and> string_ok (o_location ob))"
  using assms
  by (cases "o_part ob")
    (auto simp: validate_def object_validate_def item_validate_def external_validate_def the_item_def
      bind_result_Inr_iff split: if_splits)

lemma getVirtualPath_container:
  "o_part ob = CdsContainer c \<Longrightarrow> getVirtualPath load root ob = Some (container_virtual_path root ob)"
  by (subst getVirtualPath.simps) simp

lemma getVirtualPath_item:
  assumes "the_item ob = Some i" "load (o_parentID ob) = Inr p" "o_part p = CdsContainer c"
    "container_virtual_path root p = Inr (Some d)" "nul_free d" "o_title ob = Some t" "nul_free t"
  shows "getVirtualPath load root ob = Some (Inr (Some (d @ ''/'' @ t)))"
proof -
  have "z_append (z_append_char (Some d) (CHR ''/'')) (Some t) = Some (d @ ''/'' @ t)"
    using assms(5,7) by (simp add: z_append_char_def z_append_def)
  moreover have "string_ok (Some (d @ ''/'' @ t))"
    using assms(5,7) by (subst string_ok_Some) simp_all
  ultimately show ?thesis
    using assms getVirtualPath_container [OF assms(3), of load root]
    by (cases "o_part ob"; subst getVirtualPath.simps) (simp_all add: the_item_def)
qed


end
