(* ===== verification/Autoscan.thy ===== *)
theory Autoscan
  imports ZString
begin

text \<open>
  The directories that are scanned automatically (src/autoscan.cc, autoscan.h)
  and the list of them, whose positions are the scan IDs. Directories and their
  timer parameters are shared by reference, so both live in a store; a
  dereferenced null pointer is \<open>Abort\<close>. A list has empty slots where a
  directory that is not the last one was removed, so that the IDs of the
  others stay.
\<close>

section \<open>Data\<close>

datatype scan_level = Basic | Full
datatype scan_mode = Timed | INotify

record autoscan_directory =
  ad_location :: zstring
  ad_mode :: scan_mode
  ad_level :: scan_level
  ad_recursive :: bool
  ad_hidden :: bool
  ad_persistent :: bool
  ad_interval :: "32 word"
  ad_taskCount :: int
  ad_scanID :: int
  ad_objectID :: int
  ad_storageID :: int
  ad_last_mod_previous_scan :: int
  ad_last_mod_current_scan :: int
  ad_timer_parameter :: nat

record autoscan_store =
  st_dirs :: "nat \<rightharpoonup> autoscan_directory"
  st_params :: "nat \<rightharpoonup> int"

type_synonym autoscan_list = "nat option list"

abbreviation INVALID_SCAN_ID :: int where "INVALID_SCAN_ID \<equiv> -1"

section \<open>AutoscanDirectory\<close>

definition new_AutoscanDirectory ::
  "autoscan_store \<Rightarrow> nat \<Rightarrow> nat \<Rightarrow> zstring \<Rightarrow> scan_mode \<Rightarrow> scan_level \<Rightarrow> bool \<Rightarrow> bool \<Rightarrow> int
    \<Rightarrow> 32 word \<Rightarrow> bool \<Rightarrow> autoscan_store" where
  \<comment> \<open>the directory and its timer parameter are put at the addresses given first\<close>
  "new_AutoscanDirectory st a t location mode level recursive persistent sid interval hidden =
     st\<lparr>st_dirs := (st_dirs st)(a \<mapsto>
          \<lparr>ad_location = location, ad_mode = mode, ad_level = level, ad_recursive = recursive,
           ad_hidden = hidden, ad_persistent = persistent, ad_interval = interval,
           ad_taskCount = 0, ad_scanID = sid, ad_objectID = -333, ad_storageID = -333,
           ad_last_mod_previous_scan = 0, ad_last_mod_current_scan = 0, ad_timer_parameter = t\<rparr>),
        st_params := (st_params st)(t \<mapsto> INVALID_SCAN_ID)\<rparr>"

definition ad_get :: "autoscan_store \<Rightarrow> nat option \<Rightarrow> autoscan_directory result" where
  \<comment> \<open>a use of the pointer\<close>
  "ad_get st p =
     (case p of None \<Rightarrow> Inl Abort
      | Some a \<Rightarrow> (case st_dirs st a of None \<Rightarrow> Inl Abort | Some d \<Rightarrow> Inr d))"

definition ad_setCurrentLMT :: "autoscan_directory \<Rightarrow> int \<Rightarrow> autoscan_directory" where
  "ad_setCurrentLMT d lmt =
     (if lmt > ad_last_mod_current_scan d then d\<lparr>ad_last_mod_current_scan := lmt\<rparr> else d)"

definition ad_updateLMT :: "autoscan_directory \<Rightarrow> autoscan_directory" where
  "ad_updateLMT d = d\<lparr>ad_last_mod_previous_scan := ad_last_mod_current_scan d\<rparr>"

definition ad_resetLMT :: "autoscan_directory \<Rightarrow> autoscan_directory" where
  "ad_resetLMT d = d\<lparr>ad_last_mod_previous_scan := 0, ad_last_mod_current_scan := 0\<rparr>"

definition ad_setLocation :: "autoscan_directory \<Rightarrow> zstring \<Rightarrow> autoscan_directory result" where
  "ad_setLocation d location =
     (if ad_location d = None then Inr (d\<lparr>ad_location := location\<rparr>)
      else Inl (Throw ''UNALLOWED LOCATION CHANGE!''))"

definition ad_setScanID :: "autoscan_store \<Rightarrow> nat \<Rightarrow> int \<Rightarrow> autoscan_store result" where
  "ad_setScanID st a sid =
     bind_result (ad_get st (Some a)) (\<lambda>d.
       Inr (st\<lparr>st_dirs := (st_dirs st)(a \<mapsto> d\<lparr>ad_scanID := sid\<rparr>),
               st_params := (st_params st)(ad_timer_parameter d \<mapsto> sid)\<rparr>))"

definition mapScanmode :: "scan_mode \<Rightarrow> zstring" where
  "mapScanmode scanmode = (case scanmode of Timed \<Rightarrow> Some ''timed'' | INotify \<Rightarrow> Some ''inotify'')"

definition remapScanmode :: "zstring \<Rightarrow> scan_mode result" where
  "remapScanmode scanmode =
     (if z_eq scanmode (Some ''timed'') then Inr Timed
      else if z_eq scanmode (Some ''inotify'') then Inr INotify
      else Inl (Throw (''illegal scanmode ('' @ the (z_append (Some []) scanmode)
                       @ '') given to remapScanmode()'')))"

definition mapScanlevel :: "scan_level \<Rightarrow> zstring" where
  "mapScanlevel scanlevel = (case scanlevel of Basic \<Rightarrow> Some ''basic'' | Full \<Rightarrow> Some ''full'')"

definition remapScanlevel :: "zstring \<Rightarrow> scan_level result" where
  "remapScanlevel scanlevel =
     (if z_eq scanlevel (Some ''basic'') then Inr Basic
      else if z_eq scanlevel (Some ''full'') then Inr Full
      else Inl (Throw (''illegal scanlevel ('' @ the (z_append (Some []) scanlevel)
                       @ '') given to remapScanlevel()'')))"

definition ad_copyTo :: "autoscan_store \<Rightarrow> nat \<Rightarrow> nat \<Rightarrow> autoscan_store result" where
  \<comment> \<open>all members, the reference to the timer parameter included\<close>
  "ad_copyTo st a copy =
     bind_result (ad_get st (Some a)) (\<lambda>d. bind_result (ad_get st (Some copy)) (\<lambda>_.
       Inr (st\<lparr>st_dirs := (st_dirs st)(copy \<mapsto> d)\<rparr>)))"

section \<open>AutoscanList\<close>

fun al_find_slot :: "autoscan_store \<Rightarrow> autoscan_list \<Rightarrow> int \<Rightarrow> int \<Rightarrow> zstring \<Rightarrow> int result" where
  \<comment> \<open>the loop of \<open>_add\<close> from position \<open>i\<close>: \<open>nil_index\<close>\<close>
  "al_find_slot st [] i nil_index loc = Inr nil_index"
| "al_find_slot st (None # r) i nil_index loc = al_find_slot st r (i + 1) i loc"
| "al_find_slot st (Some a # r) i nil_index loc =
     bind_result (ad_get st (Some a)) (\<lambda>d.
       if z_eq loc (ad_location d) then Inl (Throw ''Attempted to add same autoscan path twice'')
       else al_find_slot st r (i + 1) nil_index loc)"

definition al_add :: "autoscan_store \<Rightarrow> autoscan_list \<Rightarrow> nat \<Rightarrow> (autoscan_store \<times> autoscan_list \<times> int) result" where
  "al_add st l dir =
     bind_result (ad_get st (Some dir)) (\<lambda>d.
       bind_result (al_find_slot st l 0 (-1) (ad_location d)) (\<lambda>nil_index.
         if nil_index \<noteq> -1 then
           bind_result (ad_setScanID st dir nil_index) (\<lambda>st.
             Inr (st, l[nat nil_index := Some dir], nil_index))
         else
           bind_result (ad_setScanID st dir (int (length l))) (\<lambda>st.
             Inr (st, l @ [Some dir], int (length l)))))"

fun al_addList :: "autoscan_store \<Rightarrow> autoscan_list \<Rightarrow> autoscan_list \<Rightarrow> (autoscan_store \<times> autoscan_list) result" where
  "al_addList st l [] = Inr (st, l)"
| "al_addList st l (None # r) = al_addList st l r"
| "al_addList st l (Some a # r) =
     bind_result (al_add st l a) (\<lambda>(st, l, _). al_addList st l r)"

definition al_getArrayCopy :: "autoscan_list \<Rightarrow> autoscan_list result" where
  \<comment> \<open>\<open>Array::append\<close> dereferences what it is given\<close>
  "al_getArrayCopy l = (if None \<in> set l then Inl Abort else Inr l)"

definition al_get :: "autoscan_list \<Rightarrow> int \<Rightarrow> nat option" where
  "al_get l sid = (if sid < 0 \<or> sid \<ge> int (length l) then None else l ! nat sid)"

fun al_search :: "autoscan_store \<Rightarrow> (autoscan_directory \<Rightarrow> bool) \<Rightarrow> autoscan_list \<Rightarrow> nat \<Rightarrow> nat option result" where
  \<comment> \<open>position of the first directory of the rest of the list, from position \<open>i\<close>, that satisfies the test\<close>
  "al_search st P [] i = Inr None"
| "al_search st P (None # r) i = al_search st P r (i + 1)"
| "al_search st P (Some a # r) i =
     bind_result (ad_get st (Some a)) (\<lambda>d. if P d then Inr (Some i) else al_search st P r (i + 1))"

definition al_getByObjectID :: "autoscan_store \<Rightarrow> autoscan_list \<Rightarrow> int \<Rightarrow> nat option result" where
  "al_getByObjectID st l objectID =
     bind_result (al_search st (\<lambda>d. objectID = ad_objectID d) l 0) (\<lambda>r.
       Inr (case r of None \<Rightarrow> None | Some i \<Rightarrow> l ! i))"

definition al_getByLocation :: "autoscan_store \<Rightarrow> autoscan_list \<Rightarrow> zstring \<Rightarrow> nat option result" where
  "al_getByLocation st l location =
     bind_result (al_search st (\<lambda>d. z_eq location (ad_location d)) l 0) (\<lambda>r.
       Inr (case r of None \<Rightarrow> None | Some i \<Rightarrow> l ! i))"

definition al_drop_slot :: "autoscan_list \<Rightarrow> nat \<Rightarrow> autoscan_list" where
  \<comment> \<open>\<open>removeUnordered\<close> of the last position, or a null in its place\<close>
  "al_drop_slot l i = (if i = length l - 1 then butlast l else l[i := None])"

definition al_remove_at :: "autoscan_store \<Rightarrow> autoscan_list \<Rightarrow> nat \<Rightarrow> (autoscan_store \<times> autoscan_list) result" where
  "al_remove_at st l i =
     (case l ! i of
        None \<Rightarrow> Inl Abort
      | Some a \<Rightarrow>
          bind_result (ad_setScanID st a INVALID_SCAN_ID) (\<lambda>st. Inr (st, al_drop_slot l i)))"

definition al_remove :: "autoscan_store \<Rightarrow> autoscan_list \<Rightarrow> int \<Rightarrow> (autoscan_store \<times> autoscan_list) result" where
  "al_remove st l sid =
     (if sid < 0 \<or> sid \<ge> int (length l) then Inr (st, l) else al_remove_at st l (nat sid))"

definition al_removeByObjectID ::
  "autoscan_store \<Rightarrow> autoscan_list \<Rightarrow> int \<Rightarrow> (autoscan_store \<times> autoscan_list \<times> int) result" where
  "al_removeByObjectID st l objectID =
     bind_result (al_search st (\<lambda>d. objectID = ad_objectID d) l 0) (\<lambda>r.
       case r of
         None \<Rightarrow> Inr (st, l, INVALID_SCAN_ID)
       | Some i \<Rightarrow> bind_result (al_remove_at st l i) (\<lambda>(st, l). Inr (st, l, int i)))"

definition al_removeByLocation ::
  "autoscan_store \<Rightarrow> autoscan_list \<Rightarrow> zstring \<Rightarrow> (autoscan_store \<times> autoscan_list \<times> int) result" where
  "al_removeByLocation st l location =
     bind_result (al_search st (\<lambda>d. z_eq location (ad_location d)) l 0) (\<lambda>r.
       case r of
         None \<Rightarrow> Inr (st, l, INVALID_SCAN_ID)
       | Some i \<Rightarrow> bind_result (al_remove_at st l i) (\<lambda>(st, l). Inr (st, l, int i)))"

lemma al_remove_at_length: "al_remove_at st l i = Inr (st', l') \<Longrightarrow> length l' \<le> length l"
  by (auto simp: al_remove_at_def al_drop_slot_def bind_result_Inr_iff split: option.splits if_splits)

function al_removeIfSubdir_loop ::
  "(autoscan_store \<Rightarrow> nat) \<Rightarrow> (autoscan_store \<Rightarrow> nat) \<Rightarrow> autoscan_store \<Rightarrow> autoscan_list \<Rightarrow> autoscan_list
    \<Rightarrow> nat \<Rightarrow> zstring \<Rightarrow> bool \<Rightarrow> (autoscan_store \<times> autoscan_list \<times> autoscan_list) result" where
  \<comment> \<open>the first two arguments choose the addresses of the copies and of their parameters\<close>
  "al_removeIfSubdir_loop new_dir new_param st l rm i parent persistent =
     (if i \<ge> length l then Inr (st, l, rm)
      else case l ! i of
        None \<Rightarrow> al_removeIfSubdir_loop new_dir new_param st l rm (i + 1) parent persistent
      | Some a \<Rightarrow>
          bind_result (ad_get st (Some a)) (\<lambda>d.
          bind_result (z_startsWith (ad_location d) parent) (\<lambda>sub.
            if \<not> sub \<or> (ad_persistent d \<and> \<not> persistent) then
              al_removeIfSubdir_loop new_dir new_param st l rm (i + 1) parent persistent
            else
              (let copy = new_dir st;
                   st = new_AutoscanDirectory st copy (new_param st) None Timed Basic False False 0 0 False
               in bind_result (ad_copyTo st a copy) (\<lambda>st.
                  bind_result (al_add st rm copy) (\<lambda>(st, rm, _).
                  bind_result (ad_setScanID st copy (ad_scanID d)) (\<lambda>st.
                  bind_result (al_remove_at st l i) (\<lambda>(st, l).
                    al_removeIfSubdir_loop new_dir new_param st l rm (i + 1) parent persistent))))))))"
  by pat_completeness auto

termination
proof (relation "measure (\<lambda>(_, _, _, l, _, i, _). length l - i)", goal_cases)
  case (4 new_dir new_param st l rm i parent persistent a d sub copy st1 st2 x1 st3 x2 rm' y st4 x3 st5 l')
  then have "length l' \<le> length l" using al_remove_at_length by auto
  with 4 show ?case by simp
qed auto


declare al_removeIfSubdir_loop.simps [simp del]

definition al_removeIfSubdir ::
  "(autoscan_store \<Rightarrow> nat) \<Rightarrow> (autoscan_store \<Rightarrow> nat) \<Rightarrow> autoscan_store \<Rightarrow> autoscan_list
    \<Rightarrow> zstring \<Rightarrow> bool \<Rightarrow> (autoscan_store \<times> autoscan_list \<times> autoscan_list) result" where
  "al_removeIfSubdir new_dir new_param st l parent persistent =
     al_removeIfSubdir_loop new_dir new_param st l [] 0 parent persistent"

fun al_notifyAll :: "autoscan_store \<Rightarrow> autoscan_list \<Rightarrow> nat list result" where
  \<comment> \<open>the timer parameters that \<open>timerNotify\<close> is called with, in order\<close>
  "al_notifyAll st [] = Inr []"
| "al_notifyAll st (None # r) = al_notifyAll st r"
| "al_notifyAll st (Some a # r) =
     bind_result (ad_get st (Some a)) (\<lambda>d.
       bind_result (al_notifyAll st r) (\<lambda>ps. Inr (ad_timer_parameter d # ps)))"

definition al_updateLMinDB :: "autoscan_list \<Rightarrow> nat list" where
  \<comment> \<open>the directories whose modification time is written to the storage, in order\<close>
  "al_updateLMinDB l = map the (filter (\<lambda>p. p \<noteq> None) l)"

section \<open>The invariant\<close>

abbreviation dir_at :: "autoscan_store \<Rightarrow> nat \<Rightarrow> autoscan_directory" where
  "dir_at st a \<equiv> the (st_dirs st a)"

definition slot_ok :: "autoscan_store \<Rightarrow> nat \<Rightarrow> nat \<Rightarrow> bool" where
  \<comment> \<open>the directory knows its position, and so does its timer parameter\<close>
  "slot_ok st i a \<longleftrightarrow> (\<exists>d. st_dirs st a = Some d \<and> ad_scanID d = int i
     \<and> st_params st (ad_timer_parameter d) = Some (int i))"

definition apart :: "autoscan_store \<Rightarrow> nat \<Rightarrow> nat \<Rightarrow> bool" where
  "apart st a b \<longleftrightarrow> a \<noteq> b \<and> ad_timer_parameter (dir_at st a) \<noteq> ad_timer_parameter (dir_at st b)
     \<and> \<not> z_eq (ad_location (dir_at st a)) (ad_location (dir_at st b))"

definition al_inv :: "autoscan_store \<Rightarrow> autoscan_list \<Rightarrow> bool" where
  "al_inv st l \<longleftrightarrow> (\<forall>i a. i < length l \<and> l ! i = Some a \<longrightarrow> slot_ok st i a)
     \<and> (\<forall>i j a b. i < length l \<and> j < length l \<and> i \<noteq> j \<and> l ! i = Some a \<and> l ! j = Some b
          \<longrightarrow> apart st a b)"

lemma al_invD:
  assumes "al_inv st l"
  shows "i < length l \<Longrightarrow> l ! i = Some a \<Longrightarrow> slot_ok st i a"
    and "i < length l \<Longrightarrow> j < length l \<Longrightarrow> i \<noteq> j \<Longrightarrow> l ! i = Some a \<Longrightarrow> l ! j = Some b \<Longrightarrow> apart st a b"
  using assms by (auto simp: al_inv_def)

lemma al_inv_Nil [simp]: "al_inv st []"
  by (simp add: al_inv_def)

definition al_knows :: "autoscan_store \<Rightarrow> autoscan_list \<Rightarrow> zstring \<Rightarrow> bool" where
  "al_knows st l loc \<longleftrightarrow> (\<exists>a. Some a \<in> set l \<and> z_eq loc (ad_location (dir_at st a)))"

lemma al_knows_simps [simp]:
  "\<not> al_knows st [] loc"
  "al_knows st (None # r) loc \<longleftrightarrow> al_knows st r loc"
  "al_knows st (Some a # r) loc \<longleftrightarrow> z_eq loc (ad_location (dir_at st a)) \<or> al_knows st r loc"
  by (auto simp: al_knows_def)

lemma al_inv_live: "al_inv st l \<Longrightarrow> Some a \<in> set l \<Longrightarrow> \<exists>d. st_dirs st a = Some d"
  unfolding in_set_conv_nth using al_invD(1) slot_ok_def by blast

lemma ad_get_Some: "st_dirs st a = Some d \<Longrightarrow> ad_get st (Some a) = Inr d"
  by (simp add: ad_get_def)

lemma al_find_slot_dup:
  assumes "\<And>a. Some a \<in> set l \<Longrightarrow> \<exists>d. st_dirs st a = Some d" "al_knows st l loc"
  shows "al_find_slot st l i n loc = Inl (Throw ''Attempted to add same autoscan path twice'')"
  using assms
proof (induction st l i n loc rule: al_find_slot.induct)
  case (3 st a r i n loc)
  obtain d where d: "st_dirs st a = Some d" using 3(2) by auto
  note g = ad_get_Some [OF d]
  show ?case
  proof (cases "z_eq loc (ad_location d)")
    case False
    then have "al_knows st r loc" using 3(3) d by simp
    then show ?thesis using "3.IH" [OF g False] 3(2) False g by simp
  qed (simp add: g)
qed simp_all

lemma al_find_slot_new:
  assumes "\<And>a. Some a \<in> set l \<Longrightarrow> \<exists>d. st_dirs st a = Some d" "\<not> al_knows st l loc"
  shows "\<exists>k. al_find_slot st l i n loc = Inr k
    \<and> (k = n \<and> None \<notin> set l \<or> (\<exists>j < length l. k = i + int j \<and> l ! j = None))"
  using assms
proof (induction st l i n loc rule: al_find_slot.induct)
  case (2 st r i n loc)
  have "\<exists>k. al_find_slot st r (i + 1) i loc = Inr k
    \<and> (k = i \<and> None \<notin> set r \<or> (\<exists>j < length r. k = i + 1 + int j \<and> r ! j = None))"
    using 2 by simp
  then obtain k where k: "al_find_slot st r (i + 1) i loc = Inr k"
    and "k = i \<or> (\<exists>j < length r. k = i + 1 + int j \<and> r ! j = None)" by blast
  then have "k = i + int 0 \<or> (\<exists>j < length r. k = i + int (Suc j) \<and> (None # r) ! Suc j = None)" by auto
  then have "\<exists>j < length (None # r). k = i + int j \<and> (None # r) ! j = None"
    by (metis Suc_less_eq length_Cons nth_Cons_0 zero_less_Suc)
  then show ?case using k by simp
next
  case (3 st a r i n loc)
  obtain d where d: "st_dirs st a = Some d" using 3(2) by auto
  note g = ad_get_Some [OF d]
  have ne: "\<not> z_eq loc (ad_location d)" "\<not> al_knows st r loc" using 3(3) d by auto
  obtain k where k: "al_find_slot st r (i + 1) n loc = Inr k"
    "k = n \<and> None \<notin> set r \<or> (\<exists>j < length r. k = i + 1 + int j \<and> r ! j = None)"
    using "3.IH" [OF g ne(1)] 3(2) ne(2) by auto
  then have "k = n \<and> None \<notin> set (Some a # r)
      \<or> (\<exists>j < length r. k = i + int (Suc j) \<and> (Some a # r) ! Suc j = None)" by auto
  then have "k = n \<and> None \<notin> set (Some a # r)
      \<or> (\<exists>j < length (Some a # r). k = i + int j \<and> (Some a # r) ! j = None)"
    by (metis Suc_less_eq length_Cons)
  then show ?case using k(1) g ne by simp
qed simp

section \<open>What the operations keep\<close>

definition al_put :: "autoscan_list \<Rightarrow> nat \<Rightarrow> nat \<Rightarrow> autoscan_list" where
  \<comment> \<open>the list with a directory put into an empty slot or behind the last one\<close>
  "al_put l k a = (if k < length l then l[k := Some a] else l @ [Some a])"

definition al_free :: "autoscan_list \<Rightarrow> nat \<Rightarrow> bool" where
  "al_free l k \<longleftrightarrow> k = length l \<or> k < length l \<and> l ! k = None"

definition fresh_dir :: "autoscan_store \<Rightarrow> autoscan_list \<Rightarrow> nat \<Rightarrow> bool" where
  \<comment> \<open>a directory that is not in the list and whose timer parameter no entry shares\<close>
  "fresh_dir st l a \<longleftrightarrow> st_dirs st a \<noteq> None
     \<and> (\<forall>b. Some b \<in> set l \<longrightarrow> b \<noteq> a \<and> ad_timer_parameter (dir_at st b) \<noteq> ad_timer_parameter (dir_at st a))"

lemma ad_setScanID_eq:
  assumes "st_dirs st a = Some d"
  shows "ad_setScanID st a i = Inr (st\<lparr>st_dirs := (st_dirs st)(a \<mapsto> d\<lparr>ad_scanID := i\<rparr>),
               st_params := (st_params st)(ad_timer_parameter d \<mapsto> i)\<rparr>)"
  using assms by (simp add: ad_setScanID_def ad_get_def)

lemma al_add_dup:
  assumes "al_inv st l" "st_dirs st a = Some d" "al_knows st l (ad_location d)"
  shows "al_add st l a = Inl (Throw ''Attempted to add same autoscan path twice'')"
  using al_find_slot_dup [OF al_inv_live [OF assms(1)] assms(3)] assms(2)
  by (simp add: al_add_def ad_get_Some)

lemma al_add_new:
  assumes "al_inv st l" "st_dirs st a = Some d" "\<not> al_knows st l (ad_location d)"
  shows "\<exists>k st'. al_free l k \<and> (None \<in> set l \<longrightarrow> k < length l) \<and> ad_setScanID st a (int k) = Inr st'
    \<and> al_add st l a = Inr (st', al_put l k a, int k)"
proof -
  obtain k where k: "al_find_slot st l 0 (-1) (ad_location d) = Inr k"
    "k = -1 \<and> None \<notin> set l \<or> (\<exists>j < length l. k = 0 + int j \<and> l ! j = None)"
    using al_find_slot_new [OF al_inv_live [OF assms(1)] assms(3)] by blast
  show ?thesis
  proof (cases "k = -1")
    case True
    then have n: "None \<notin> set l" using k(2) by auto
    show ?thesis
      by (intro exI [of _ "length l"] exI)
         (use k True assms(2) n in \<open>auto simp: al_add_def ad_get_Some ad_setScanID_eq al_free_def al_put_def\<close>)
  next
    case False
    then obtain j where j: "j < length l" "k = int j" "l ! j = None" using k(2) by auto
    show ?thesis
      by (intro exI [of _ j] exI)
         (use k(1) j assms(2) in \<open>auto simp: al_add_def ad_get_Some ad_setScanID_eq al_free_def al_put_def\<close>)
  qed
qed

lemma al_put_nth:
  assumes "al_free l k" "i < length (al_put l k a)" "al_put l k a ! i = Some b"
  shows "i = k \<and> b = a \<or> i \<noteq> k \<and> i < length l \<and> l ! i = Some b"
  using assms by (auto simp: al_put_def al_free_def nth_append nth_list_update split: if_splits)

lemma al_put_inv:
  assumes inv: "al_inv st l" and d: "st_dirs st a = Some d" and new: "\<not> al_knows st l (ad_location d)"
    and fresh: "fresh_dir st l a" and k: "al_free l k"
    and st': "ad_setScanID st a (int k) = Inr st'"
  shows "al_inv st' (al_put l k a)"
    and "\<And>b. b \<noteq> a \<Longrightarrow> st_dirs st' b = st_dirs st b"
proof -
  have e: "st' = st\<lparr>st_dirs := (st_dirs st)(a \<mapsto> d\<lparr>ad_scanID := int k\<rparr>),
               st_params := (st_params st)(ad_timer_parameter d \<mapsto> int k)\<rparr>"
    using st' ad_setScanID_eq [OF d] by simp
  show same: "\<And>b. b \<noteq> a \<Longrightarrow> st_dirs st' b = st_dirs st b" unfolding e by simp
  have old: "b \<noteq> a \<and> ad_timer_parameter (dir_at st b) \<noteq> ad_timer_parameter d
      \<and> \<not> z_eq (ad_location d) (ad_location (dir_at st b))" if "i < length l" "l ! i = Some b" for i b
  proof -
    have "Some b \<in> set l" using that by (metis nth_mem)
    then show ?thesis using fresh new d by (auto simp: fresh_dir_def al_knows_def)
  qed
  have slot: "slot_ok st' i b" if "i < length (al_put l k a)" "al_put l k a ! i = Some b" for i b
    using al_put_nth [OF k that]
  proof (elim disjE)
    assume "i = k \<and> b = a"
    then show ?thesis unfolding e slot_ok_def by simp
  next
    assume h: "i \<noteq> k \<and> i < length l \<and> l ! i = Some b"
    then have "slot_ok st i b" using al_invD(1) [OF inv] by blast
    then obtain d' where d': "st_dirs st b = Some d'" "ad_scanID d' = int i"
      "st_params st (ad_timer_parameter d') = Some (int i)" by (auto simp only: slot_ok_def)
    then have "b \<noteq> a" "ad_timer_parameter d' \<noteq> ad_timer_parameter d" using old [of i b] h by simp_all
    then show ?thesis using d' unfolding e slot_ok_def by simp
  qed
  have two: "apart st' b c" if bc: "i < length (al_put l k a)" "j < length (al_put l k a)" "i \<noteq> j"
    "al_put l k a ! i = Some b" "al_put l k a ! j = Some c" for i j b c
  proof -
    have dd: "ad_timer_parameter (dir_at st' x) = ad_timer_parameter (dir_at st x)
      \<and> ad_location (dir_at st' x) = ad_location (dir_at st x)" for x
      unfolding e using d by (cases "x = a") simp_all
    have sym: "z_eq x y = z_eq y x" for x y unfolding z_eq_def by (cases x; cases y) auto
    consider "i = k" "b = a" "j < length l" "l ! j = Some c" | "j = k" "c = a" "i < length l" "l ! i = Some b"
      | "i < length l" "l ! i = Some b" "j < length l" "l ! j = Some c"
      using al_put_nth [OF k bc(1) bc(4)] al_put_nth [OF k bc(2) bc(5)] bc(3) by blast
    then show ?thesis
    proof cases
      case 1
      then show ?thesis using old [of j c] d dd unfolding apart_def by auto
    next
      case 2
      then show ?thesis using old [of i b] d dd sym unfolding apart_def by auto
    next
      case 3
      then have "apart st b c" using al_invD(2) [OF inv] bc(3) by blast
      then show ?thesis using dd unfolding apart_def by auto
    qed
  qed
  show "al_inv st' (al_put l k a)" unfolding al_inv_def using slot two by blast
qed


lemma al_drop_nth:
  assumes "l ! i = Some a" "i < length l" "j < length (al_drop_slot l i)" "al_drop_slot l i ! j = Some b"
  shows "j \<noteq> i \<and> j < length l \<and> l ! j = Some b"
  using assms by (auto simp: al_drop_slot_def nth_butlast nth_list_update split: if_splits)

lemma al_remove_at_law:
  assumes inv: "al_inv st l" and i: "i < length l" "l ! i = Some a"
  shows "\<exists>st'. al_remove_at st l i = Inr (st', al_drop_slot l i) \<and> al_inv st' (al_drop_slot l i)
    \<and> ad_scanID (dir_at st' a) = INVALID_SCAN_ID \<and> (\<forall>b. b \<noteq> a \<longrightarrow> st_dirs st' b = st_dirs st b)"
proof -
  obtain d where d: "st_dirs st a = Some d" using al_inv_live [OF inv] i nth_mem by metis
  define st' where "st' = st\<lparr>st_dirs := (st_dirs st)(a \<mapsto> d\<lparr>ad_scanID := INVALID_SCAN_ID\<rparr>),
               st_params := (st_params st)(ad_timer_parameter d \<mapsto> INVALID_SCAN_ID)\<rparr>"
  have r: "al_remove_at st l i = Inr (st', al_drop_slot l i)"
    unfolding al_remove_at_def st'_def using i d by (simp add: ad_setScanID_eq)
  have dd: "ad_timer_parameter (dir_at st' x) = ad_timer_parameter (dir_at st x)
      \<and> ad_location (dir_at st' x) = ad_location (dir_at st x)" for x
    unfolding st'_def using d by (cases "x = a") simp_all
  have slot: "slot_ok st' j b" if jb: "j < length (al_drop_slot l i)" "al_drop_slot l i ! j = Some b" for j b
  proof -
    have h: "j \<noteq> i \<and> j < length l \<and> l ! j = Some b" using al_drop_nth [OF i(2,1) jb] .
    then have "slot_ok st j b" "apart st b a" using al_invD [OF inv] i by blast+
    then obtain d' where d': "st_dirs st b = Some d'" "ad_scanID d' = int j"
      "st_params st (ad_timer_parameter d') = Some (int j)" "b \<noteq> a"
      "ad_timer_parameter d' \<noteq> ad_timer_parameter d"
      unfolding slot_ok_def apart_def using d by auto
    then show ?thesis unfolding st'_def slot_ok_def by simp
  qed
  have two: "apart st' b c" if jk: "j < length (al_drop_slot l i)" "k < length (al_drop_slot l i)" "j \<noteq> k"
    "al_drop_slot l i ! j = Some b" "al_drop_slot l i ! k = Some c" for j k b c
  proof -
    have "apart st b c"
      using al_drop_nth [OF i(2,1) jk(1,4)] al_drop_nth [OF i(2,1) jk(2,5)] al_invD(2) [OF inv] jk(3) by blast
    then show ?thesis using dd unfolding apart_def by simp
  qed
  have "al_inv st' (al_drop_slot l i)" unfolding al_inv_def using slot two by blast
  moreover have "ad_scanID (dir_at st' a) = INVALID_SCAN_ID" "\<forall>b. b \<noteq> a \<longrightarrow> st_dirs st' b = st_dirs st b"
    unfolding st'_def by simp_all
  ultimately show ?thesis using r by blast
qed

lemma remap_laws:
  "remapScanmode (mapScanmode m) = Inr m"
  "remapScanlevel (mapScanlevel l) = Inr l"
  by (cases m; simp add: mapScanmode_def remapScanmode_def z_eq_def)
     (cases l; simp add: mapScanlevel_def remapScanlevel_def z_eq_def)

lemma al_search_first:
  assumes "al_search st P l i = Inr (Some k)"
  shows "\<exists>j a d. k = i + j \<and> j < length l \<and> l ! j = Some a \<and> st_dirs st a = Some d \<and> P d"
  using assms
proof (induction st P l i rule: al_search.induct)
  case (2 st P r i)
  then obtain j a d where "k = i + 1 + j" "j < length r" "r ! j = Some a" "st_dirs st a = Some d" "P d" by auto
  then have "k = i + Suc j \<and> Suc j < length (None # r) \<and> (None # r) ! Suc j = Some a" by simp
  then show ?case using \<open>st_dirs st a = Some d\<close> \<open>P d\<close> by blast
next
  case (3 st P a r i)
  obtain d where g: "ad_get st (Some a) = Inr d" using 3(2) by (cases "ad_get st (Some a)") auto
  then have sd: "st_dirs st a = Some d" by (simp add: ad_get_def split: option.splits)
  show ?case
  proof (cases "P d")
    case True
    then show ?thesis using 3(2) g sd by auto
  next
    case False
    then obtain j b e where "k = i + 1 + j" "j < length r" "r ! j = Some b" "st_dirs st b = Some e" "P e"
      using "3.IH" [OF g False] 3(2) g by auto
    then have "k = i + Suc j \<and> Suc j < length (Some a # r) \<and> (Some a # r) ! Suc j = Some b" by simp
    then show ?thesis using \<open>st_dirs st b = Some e\<close> \<open>P e\<close> by blast
  qed
qed simp

lemma al_removeBy_law:
  assumes inv: "al_inv st l" and r: "al_search st P l 0 = Inr (Some i)"
  shows "\<exists>st' a d. l ! i = Some a \<and> st_dirs st a = Some d \<and> P d \<and> i < length l
    \<and> al_remove_at st l i = Inr (st', al_drop_slot l i) \<and> al_inv st' (al_drop_slot l i)"
proof -
  obtain j a d where "i = 0 + j" "j < length l" "l ! j = Some a" "st_dirs st a = Some d" "P d"
    using al_search_first [OF r] by blast
  then have h: "i < length l" "l ! i = Some a" "st_dirs st a = Some d" "P d" by simp_all
  then show ?thesis using al_remove_at_law [OF inv h(1,2)] by blast
qed

text \<open>
  The removal of the directories below \<open>parent\<close> tests a prefix of the path and not
  a directory, so a sibling whose name begins with the same letters goes too.
\<close>

definition one_directory :: "zstring \<Rightarrow> (autoscan_store \<times> autoscan_list \<times> int) result" where
  "one_directory location =
     al_add (new_AutoscanDirectory \<lparr>st_dirs = Map.empty, st_params = Map.empty\<rparr> 1 2
       location Timed Full True False (-1) 60 False) [] 1"

lemma removeIfSubdir_takes_sibling:
  "bind_result (one_directory (Some ''/media/music2'')) (\<lambda>(st, l, _).
     bind_result (al_removeIfSubdir (\<lambda>_. 7) (\<lambda>_. 8) st l (Some ''/media/music'') False)
       (\<lambda>(_, l', rm). Inr (l, l', length rm))) = Inr ([Some 1], [], 1)"
  by code_simp

end
