(* ===== verification/Timer.thy ===== *)
theory Timer
  imports TimeTools
begin

text \<open>
  The timer (src/timer.cc, timer.h): the list of subscribers, the operations on
  it that run under \<open>mutex\<close>, and the thread of \<open>triggerWait\<close> with its condition
  variable as a step relation. A point between two locks of the code is a
  program counter of the thread, so other threads may act there. Subscribers and
  parameters are addresses; the clock is an argument. A callback is an entry of
  the log, with the reading of the clock that \<open>notify\<close> compared for it. The readings
  are normalised times and otherwise free: \<open>gettimeofday\<close> may be set back.
\<close>

section \<open>Subscriber elements\<close>

record timer_element =
  te_subscriber :: nat
  te_notifyInterval :: "32 word"
  te_parameter :: "nat option"
  te_once :: bool
  te_nextNotify :: timespec

definition te_updateNextNotify :: "timespec \<Rightarrow> timer_element \<Rightarrow> timer_element" where
  \<comment> \<open>the product is an \<open>unsigned int\<close>\<close>
  "te_updateNextNotify now e =
     e\<lparr>te_nextNotify := getTimespecAfterMillis (uint (te_notifyInterval e * 1000)) now\<rparr>"

definition new_element :: "timespec \<Rightarrow> nat \<Rightarrow> 32 word \<Rightarrow> nat option \<Rightarrow> bool \<Rightarrow> timer_element" where
  "new_element now sub interval parameter once =
     te_updateNextNotify now
       \<lparr>te_subscriber = sub, te_notifyInterval = interval, te_parameter = parameter,
        te_once = once, te_nextNotify = Timespec 0 0\<rparr>"

definition te_same :: "timer_element \<Rightarrow> timer_element \<Rightarrow> bool" where
  "te_same e other \<longleftrightarrow> te_subscriber e = te_subscriber other \<and> te_parameter e = te_parameter other"

section \<open>Operations under the lock\<close>

definition addTimerSubscriber ::
  "timespec \<Rightarrow> timer_element list \<Rightarrow> nat \<Rightarrow> 32 word \<Rightarrow> nat option \<Rightarrow> bool \<Rightarrow> timer_element list result" where
  "addTimerSubscriber now subs sub interval parameter once =
     (if interval = 0 then
        Inl (Throw (''Tried to add timer with illegal notifyInterval: '' @ show_nat (unat interval)))
      else (let element = new_element now sub interval parameter once in
        if list_ex (\<lambda>s. te_same s element) subs then Inl (Throw ''Tried to add same timer twice'')
        else Inr (subs @ [element])))"

fun erase_element :: "timer_element list \<Rightarrow> timer_element \<Rightarrow> timer_element list option" where
  "erase_element [] element = None"
| "erase_element (s # r) element =
     (if te_same s element then Some r else map_option ((#) s) (erase_element r element))"

definition removeTimerSubscriber ::
  "timespec \<Rightarrow> timer_element list \<Rightarrow> nat \<Rightarrow> nat option \<Rightarrow> bool \<Rightarrow> (timer_element list \<times> bool) result" where
  \<comment> \<open>the flag says whether the condition variable is signalled\<close>
  "removeTimerSubscriber now subs sub parameter dontFail =
     (case erase_element subs (new_element now sub 0 parameter False) of
        Some subs' \<Rightarrow> Inr (subs', True)
      | None \<Rightarrow> if \<not> dontFail then Inl (Throw ''Tried to remove nonexistent timer'')
                else Inr (subs, False))"

fun notify_collect ::
  "(nat \<Rightarrow> timespec) \<Rightarrow> nat \<Rightarrow> timer_element list \<Rightarrow> timer_element list \<times> timer_element list" where
  \<comment> \<open>the locked part of \<open>notify\<close>: \<open>toNotify\<close> and the subscribers that are left;
      \<open>clock n\<close> is the \<open>n\<close>th reading of the clock\<close>
  "notify_collect clock n [] = ([], [])"
| "notify_collect clock n (element # r) =
     (if getDeltaMillis (clock n) (te_nextNotify element) \<le> 0 then
        if te_once element then
          (let (toNotify, subs) = notify_collect clock (n + 1) r in (element # toNotify, subs))
        else
          (let (toNotify, subs) = notify_collect clock (n + 2) r
           in (element # toNotify, te_updateNextNotify (clock (n + 1)) element # subs))
      else (let (toNotify, subs) = notify_collect clock (n + 1) r in (toNotify, element # subs)))"

fun notify_times :: "(nat \<Rightarrow> timespec) \<Rightarrow> nat \<Rightarrow> timer_element list \<Rightarrow> timespec list" where
  \<comment> \<open>the readings by which the elements of \<open>toNotify\<close> were found due\<close>
  "notify_times clock n [] = []"
| "notify_times clock n (element # r) =
     (if getDeltaMillis (clock n) (te_nextNotify element) \<le> 0
      then clock n # notify_times clock (if te_once element then n + 1 else n + 2) r
      else notify_times clock (n + 1) r)"

fun next_time_loop :: "timespec option \<Rightarrow> timer_element list \<Rightarrow> timespec option" where
  "next_time_loop nextTime [] = nextTime"
| "next_time_loop nextTime (s # r) =
     next_time_loop
       (case nextTime of
          None \<Rightarrow> Some (te_nextNotify s)
        | Some t \<Rightarrow> if getDeltaMillis t (te_nextNotify s) < 0 then Some (te_nextNotify s) else Some t) r"

definition getNextNotifyTime :: "timer_element list \<Rightarrow> timespec option" where
  "getNextNotifyTime subs = next_time_loop None subs"

section \<open>The thread\<close>

datatype timer_pc =
    Loop_head                          \<comment> \<open>before the test of \<open>shutdownFlag\<close>\<close>
  | Found_empty                        \<comment> \<open>before \<open>cond.wait\<close>\<close>
  | Waiting                            \<comment> \<open>inside \<open>cond.wait\<close>\<close>
  | Found_some                         \<comment> \<open>before \<open>getNextNotifyTime\<close>\<close>
  | Found_time int                     \<comment> \<open>before \<open>cond.wait_for\<close>\<close>
  | Waiting_for int                    \<comment> \<open>inside \<open>cond.wait_for\<close>\<close>
  | Notifying                          \<comment> \<open>before \<open>notify\<close>\<close>
  | Calling "(timer_element \<times> timespec) list"
      \<comment> \<open>the callbacks that \<open>notify\<close> still has to make, with the readings of the clock\<close>
  | Finished
  | Crashed                            \<comment> \<open>after the use of a null pointer\<close>

record timer_state =
  tm_subscribers :: "timer_element list"
  tm_pc :: timer_pc
  tm_shutdownFlag :: bool
  tm_now :: timespec
  tm_log :: "(timer_element \<times> timespec) list"

definition timer_init :: "timespec \<Rightarrow> timer_state" where
  "timer_init now = \<lparr>tm_subscribers = [], tm_pc = Loop_head, tm_shutdownFlag = False,
                     tm_now = now, tm_log = []\<rparr>"

definition signalled :: "timer_pc \<Rightarrow> timer_pc" where
  \<comment> \<open>what \<open>notify_one\<close> does to the one thread that may wait\<close>
  "signalled pc = (case pc of Waiting \<Rightarrow> Loop_head | Waiting_for _ \<Rightarrow> Loop_head | _ \<Rightarrow> pc)"

inductive thread_step :: "timer_state \<Rightarrow> timer_state \<Rightarrow> bool" where
  stop: "tm_pc s = Loop_head \<Longrightarrow> tm_shutdownFlag s \<Longrightarrow> thread_step s (s\<lparr>tm_pc := Finished\<rparr>)"
| none: "tm_pc s = Loop_head \<Longrightarrow> \<not> tm_shutdownFlag s \<Longrightarrow> tm_subscribers s = [] \<Longrightarrow>
     thread_step s (s\<lparr>tm_pc := Found_empty\<rparr>)"
| wait: "tm_pc s = Found_empty \<Longrightarrow> thread_step s (s\<lparr>tm_pc := Waiting\<rparr>)"
| some: "tm_pc s = Loop_head \<Longrightarrow> \<not> tm_shutdownFlag s \<Longrightarrow> tm_subscribers s \<noteq> [] \<Longrightarrow>
     thread_step s (s\<lparr>tm_pc := Found_some\<rparr>)"
| null: "tm_pc s = Found_some \<Longrightarrow> getNextNotifyTime (tm_subscribers s) = None \<Longrightarrow>
     thread_step s (s\<lparr>tm_pc := Crashed\<rparr>)"
| later: "tm_pc s = Found_some \<Longrightarrow> getNextNotifyTime (tm_subscribers s) = Some timeout \<Longrightarrow>
     getDeltaMillis (tm_now s) timeout = millis \<Longrightarrow> millis > 0 \<Longrightarrow>
     thread_step s (s\<lparr>tm_pc := Found_time millis\<rparr>)"
| due: "tm_pc s = Found_some \<Longrightarrow> getNextNotifyTime (tm_subscribers s) = Some timeout \<Longrightarrow>
     getDeltaMillis (tm_now s) timeout \<le> 0 \<Longrightarrow> thread_step s (s\<lparr>tm_pc := Notifying\<rparr>)"
| wait_for: "tm_pc s = Found_time millis \<Longrightarrow> thread_step s (s\<lparr>tm_pc := Waiting_for millis\<rparr>)"
| timeout: "tm_pc s = Waiting_for millis \<Longrightarrow> thread_step s (s\<lparr>tm_pc := Notifying\<rparr>)"
| collect: "tm_pc s = Notifying \<Longrightarrow> \<forall>i. ts_valid (clock i) \<Longrightarrow>
     notify_collect clock 0 (tm_subscribers s) = (toNotify, subs) \<Longrightarrow>
     thread_step s (s\<lparr>tm_pc := Calling (zip toNotify (notify_times clock 0 (tm_subscribers s))),
                      tm_subscribers := subs, tm_now := clock (2 * length (tm_subscribers s))\<rparr>)"
| call: "tm_pc s = Calling ((element, t) # r) \<Longrightarrow>
     thread_step s (s\<lparr>tm_pc := Calling r, tm_log := tm_log s @ [(element, t)]\<rparr>)"
| called: "tm_pc s = Calling [] \<Longrightarrow> thread_step s (s\<lparr>tm_pc := Loop_head\<rparr>)"

inductive other_step :: "timer_state \<Rightarrow> timer_state \<Rightarrow> bool" where
  add: "addTimerSubscriber (tm_now s) (tm_subscribers s) sub interval parameter once = Inr subs \<Longrightarrow>
     other_step s (s\<lparr>tm_subscribers := subs, tm_pc := signalled (tm_pc s)\<rparr>)"
| remove: "removeTimerSubscriber (tm_now s) (tm_subscribers s) sub parameter dontFail = Inr (subs, woken) \<Longrightarrow>
     other_step s (s\<lparr>tm_subscribers := subs, tm_pc := (if woken then signalled (tm_pc s) else tm_pc s)\<rparr>)"
| signal: "other_step s (s\<lparr>tm_pc := signalled (tm_pc s)\<rparr>)"
| shutdown: "other_step s (s\<lparr>tm_shutdownFlag := True, tm_pc := signalled (tm_pc s)\<rparr>)"
| clock: "ts_valid t \<Longrightarrow> other_step s (s\<lparr>tm_now := t\<rparr>)"   \<comment> \<open>the next reading\<close>

inductive timer_reach :: "timespec \<Rightarrow> timer_state \<Rightarrow> bool" for now where
  start: "timer_reach now (timer_init now)"
| thread: "timer_reach now s \<Longrightarrow> thread_step s s' \<Longrightarrow> timer_reach now s'"
| other: "timer_reach now s \<Longrightarrow> other_step s s' \<Longrightarrow> timer_reach now s'"

inductive_cases thread_stepE: "thread_step s s'"
inductive_cases other_stepE: "other_step s s'"

section \<open>Times\<close>

lemma sdiv_near: "\<bar>x - x sdiv 1000000 * 1000000\<bar> < (1000000 :: int)"
proof -
  have "\<bar>x\<bar> - \<bar>x\<bar> div 1000000 * 1000000 < 1000000 \<and> 0 \<le> \<bar>x\<bar> - \<bar>x\<bar> div 1000000 * 1000000"
    by (simp add: minus_div_mult_eq_mod)
  then show ?thesis
    by (cases x rule: linorder_cases [of _ 0]) (simp_all add: signed_divide_int_def)
qed

lemma delta_near:
  "\<bar>getDeltaMillis a b * 1000000 - (ts_nanos b - ts_nanos a)\<bar> < 1000000"
  using sdiv_near [of "tv_nsec b - tv_nsec a"]
  by (simp add: getDeltaMillis_def ts_nanos_def algebra_simps)

lemma delta_neg: "getDeltaMillis a b < 0 \<Longrightarrow> ts_nanos b < ts_nanos a"
  and delta_nonneg: "0 \<le> getDeltaMillis a b \<Longrightarrow> ts_nanos a < ts_nanos b + 1000000"
  and delta_nonpos: "getDeltaMillis a b \<le> 0 \<Longrightarrow> ts_nanos b < ts_nanos a + 1000000"
  and delta_pos: "0 < getDeltaMillis a b \<Longrightarrow> ts_nanos a < ts_nanos b"
  using delta_near [of a b] by linarith+

lemma next_time_loop_near:
  assumes "next_time_loop nt subs = Some t"
  shows "(nt = Some t \<or> (\<exists>e \<in> set subs. t = te_nextNotify e))
    \<and> (\<forall>u. nt = Some u \<longrightarrow> ts_nanos t \<le> ts_nanos u)
    \<and> (\<forall>e \<in> set subs. ts_nanos t < ts_nanos (te_nextNotify e) + 1000000)"
  using assms
proof (induction nt subs rule: next_time_loop.induct)
  case (2 nt s r)
  show ?case
  proof (cases nt)
    case None
    with 2 show ?thesis by auto
  next
    case (Some u)
    show ?thesis
    proof (cases "getDeltaMillis u (te_nextNotify s) < 0")
      case True
      from delta_neg [OF True] True Some 2 show ?thesis by auto
    next
      case False
      then have "0 \<le> getDeltaMillis u (te_nextNotify s)" by simp
      from delta_nonneg [OF this] False Some 2 show ?thesis by auto
    qed
  qed
qed auto

lemma next_time_loop_None: "next_time_loop nt subs = None \<longleftrightarrow> nt = None \<and> subs = []"
  by (induction nt subs rule: next_time_loop.induct) (auto split: option.splits)

lemma getNextNotifyTime_near:
  assumes "getNextNotifyTime subs = Some t"
  shows "(\<exists>e \<in> set subs. t = te_nextNotify e)
    \<and> (\<forall>e \<in> set subs. ts_nanos t < ts_nanos (te_nextNotify e) + 1000000)"
  using next_time_loop_near [of None subs t] assms by (simp add: getNextNotifyTime_def)

lemma getNextNotifyTime_None [simp]: "getNextNotifyTime subs = None \<longleftrightarrow> subs = []"
  by (simp add: getNextNotifyTime_def next_time_loop_None)

section \<open>What \<open>notify\<close> takes and leaves\<close>

definition te_key :: "timer_element \<Rightarrow> nat \<times> nat option" where
  "te_key e = (te_subscriber e, te_parameter e)"

lemma te_same_key: "te_same e other \<longleftrightarrow> te_key e = te_key other"
  by (simp add: te_same_def te_key_def)

lemma te_update_fields [simp]:
  "te_subscriber (te_updateNextNotify now e) = te_subscriber e"
  "te_parameter (te_updateNextNotify now e) = te_parameter e"
  "te_once (te_updateNextNotify now e) = te_once e"
  "te_notifyInterval (te_updateNextNotify now e) = te_notifyInterval e"
  by (simp_all add: te_updateNextNotify_def)

lemma te_key_update [simp]: "te_key (te_updateNextNotify now e) = te_key e"
  by (simp add: te_key_def)

lemma te_update_valid: "ts_valid now \<Longrightarrow> ts_valid (te_nextNotify (te_updateNextNotify now e))"
  using after_valid(1) by (simp add: te_updateNextNotify_def)

lemma te_update_time:
  assumes "ts_valid now" "uint (te_notifyInterval e) * 1000 < 2 ^ 32"
  shows "ts_nanos (te_nextNotify (te_updateNextNotify now e))
    = ts_nanos now + uint (te_notifyInterval e) * 1000000000"
proof -
  have "uint (te_notifyInterval e * 1000) = uint (te_notifyInterval e) * 1000"
    using assms(2) by (simp add: uint_word_ariths)
  then show ?thesis using after_valid(2) [OF _ assms(1)] by (simp add: te_updateNextNotify_def)
qed

lemma new_element_fields [simp]:
  "te_subscriber (new_element now sub i p once) = sub" "te_parameter (new_element now sub i p once) = p"
  "te_notifyInterval (new_element now sub i p once) = i" "te_once (new_element now sub i p once) = once"
  by (simp_all add: new_element_def)

lemma te_key_new [simp]: "te_key (new_element now sub i p once) = (sub, p)"
  by (simp add: te_key_def)

definition due_within :: "timespec \<Rightarrow> timer_element \<Rightarrow> bool" where
  \<comment> \<open>the time of the element is at most a millisecond after the given one\<close>
  "due_within now e \<longleftrightarrow> ts_nanos (te_nextNotify e) < ts_nanos now + 1000000"

lemma due_within_mono: "due_within a e \<Longrightarrow> ts_nanos a \<le> ts_nanos b \<Longrightarrow> due_within b e"
  by (simp add: due_within_def)

lemma clock_mono:
  assumes "mono clock" "\<forall>i. ts_valid (clock i)" "i \<le> j"
  shows "ts_nanos (clock i) \<le> ts_nanos (clock j)"
  using monoD [OF assms(1,3)] ts_le_nanos assms(2) by blast

lemma notify_collect_Cons_cases:
  assumes "notify_collect clock n (e # es) = (t, r)"
  obtains (kept) r' where "0 < getDeltaMillis (clock n) (te_nextNotify e)"
      "notify_collect clock (n + 1) es = (t, r')" "r = e # r'"
  | (once) t' where "getDeltaMillis (clock n) (te_nextNotify e) \<le> 0" "te_once e"
      "notify_collect clock (n + 1) es = (t', r)" "t = e # t'"
  | (again) t' r' where "getDeltaMillis (clock n) (te_nextNotify e) \<le> 0" "\<not> te_once e"
      "notify_collect clock (n + 2) es = (t', r')" "t = e # t'"
      "r = te_updateNextNotify (clock (n + 1)) e # r'"
proof -
  obtain t1 r1 where 1: "notify_collect clock (n + 1) es = (t1, r1)" by fastforce
  obtain t2 r2 where 2: "notify_collect clock (n + 2) es = (t2, r2)" by fastforce
  show thesis
  proof (cases "getDeltaMillis (clock n) (te_nextNotify e) \<le> 0")
    case True
    show thesis
    proof (cases "te_once e")
      case o: True
      have "r = r1" "t = e # t1" using assms 1 True o by simp_all
      then show thesis using once True o 1 by blast
    next
      case o: False
      have "r = te_updateNextNotify (clock (n + 1)) e # r2" "t = e # t2" using assms 2 True o by simp_all
      then show thesis using again True o 2 by blast
    qed
  next
    case False
    then have "0 < getDeltaMillis (clock n) (te_nextNotify e)" "r = e # r1" "t = t1"
      using assms 1 by simp_all
    then show thesis using kept 1 by blast
  qed
qed

lemma notify_collect_subset: "notify_collect clock n es = (t, r) \<Longrightarrow> set t \<subseteq> set es"
proof (induction es arbitrary: n t r)
  case (Cons e es)
  from Cons.prems show ?case
    by (cases rule: notify_collect_Cons_cases) (use Cons.IH in fastforce)+
qed simp

lemma notify_collect_due:
  assumes "mono clock" "\<forall>i. ts_valid (clock i)"
    and "notify_collect clock n es = (t, r)" "n + 2 * length es \<le> N"
  shows "\<forall>e \<in> set t. e \<in> set es \<and> due_within (clock N) e"
  using assms(3,4)
proof (induction es arbitrary: n t r)
  case (Cons e es)
  have now: "due_within (clock N) e" if "getDeltaMillis (clock n) (te_nextNotify e) \<le> 0"
    using delta_nonpos [OF that] clock_mono [OF assms(1,2), of n N] Cons.prems(2)
    by (simp add: due_within_def)
  from Cons.prems(1) show ?case
  proof (cases rule: notify_collect_Cons_cases)
    case (kept r')
    then show ?thesis using Cons.IH [OF kept(2)] Cons.prems(2) by simp
  next
    case (once t')
    then show ?thesis using Cons.IH [OF once(3)] Cons.prems(2) now by simp
  next
    case (again t' r')
    then show ?thesis using Cons.IH [OF again(3)] Cons.prems(2) now by simp
  qed
qed simp

lemma notify_collect_all_due:
  assumes "mono clock" "\<forall>i. ts_valid (clock i)"
    and "notify_collect clock n es = (t, r)" "m \<le> n"
  shows "\<forall>e \<in> set es. ts_nanos (te_nextNotify e) \<le> ts_nanos (clock m) \<longrightarrow> e \<in> set t"
  using assms(3,4)
proof (induction es arbitrary: n t r)
  case (Cons e es)
  have le: "ts_nanos (clock m) \<le> ts_nanos (clock n)" using clock_mono [OF assms(1,2)] Cons.prems(2) .
  from Cons.prems(1) show ?case
  proof (cases rule: notify_collect_Cons_cases)
    case (kept r')
    then show ?thesis using Cons.IH [OF kept(2)] Cons.prems(2) delta_pos [OF kept(1)] le by simp
  next
    case (once t')
    then show ?thesis using Cons.IH [OF once(3)] Cons.prems(2) by simp
  next
    case (again t' r')
    then show ?thesis using Cons.IH [OF again(3)] Cons.prems(2) by simp
  qed
qed simp

lemma length_notify_times: "notify_collect clock n es = (t, r) \<Longrightarrow> length (notify_times clock n es) = length t"
  by (induction es arbitrary: n t r) (auto split: if_splits prod.splits)

lemma notify_times_due:
  "notify_collect clock n es = (t, r) \<Longrightarrow> (e, u) \<in> set (zip t (notify_times clock n es)) \<Longrightarrow>
     e \<in> set es \<and> due_within u e"
proof (induction es arbitrary: n t r)
  case (Cons x es)
  from Cons.prems(1) show ?case
  proof (cases rule: notify_collect_Cons_cases)
    case (kept r')
    then show ?thesis using Cons.IH [OF kept(2)] Cons.prems(2) by simp
  next
    case (once t')
    then show ?thesis using Cons.IH [OF once(3)] Cons.prems(2) delta_nonpos [OF once(1)]
      by (auto simp: due_within_def)
  next
    case (again t' r')
    then show ?thesis using Cons.IH [OF again(3)] Cons.prems(2) delta_nonpos [OF again(1)]
      by (auto simp: due_within_def)
  qed
qed simp

definition timer_list_ok :: "timer_element list \<Rightarrow> bool" where
  \<comment> \<open>no pair of subscriber and parameter twice, no interval zero, normalised times\<close>
  "timer_list_ok es \<longleftrightarrow> distinct (map te_key es)
     \<and> (\<forall>e \<in> set es. te_notifyInterval e \<noteq> 0 \<and> ts_valid (te_nextNotify e))"

lemma timer_list_ok_Nil [simp]: "timer_list_ok []"
  by (simp add: timer_list_ok_def)

lemma timer_list_ok_Cons:
  "timer_list_ok (e # es) \<longleftrightarrow> te_key e \<notin> te_key ` set es \<and> te_notifyInterval e \<noteq> 0
     \<and> ts_valid (te_nextNotify e) \<and> timer_list_ok es"
  unfolding timer_list_ok_def by auto

lemma notify_collect_left:
  assumes "\<forall>i. ts_valid (clock i)" "notify_collect clock n es = (t, r)" "timer_list_ok es"
  shows "timer_list_ok r \<and> te_key ` set r \<subseteq> te_key ` set es
    \<and> te_key ` set r = te_key ` {e \<in> set es. \<not> (te_once e \<and> e \<in> set t)}"
  using assms(2,3)
proof (induction es arbitrary: n t r)
  case (Cons e es)
  have ok: "te_key e \<notin> te_key ` set es" "te_notifyInterval e \<noteq> 0" "ts_valid (te_nextNotify e)"
    "timer_list_ok es" using Cons.prems(2) by (simp_all add: timer_list_ok_Cons)
  have ne: "x \<noteq> e" if "x \<in> set es" for x using ok(1) that by blast
  have key: "te_key (te_updateNextNotify now e) = te_key e" for now by simp
  from Cons.prems(1) show ?case
  proof (cases rule: notify_collect_Cons_cases)
    case (kept r')
    note ih = Cons.IH [OF kept(2) ok(4)]
    have "timer_list_ok r" using ih ok unfolding kept(3) timer_list_ok_Cons by blast
    moreover have "e \<notin> set t" using notify_collect_subset [OF kept(2)] ne by blast
    ultimately show ?thesis using ih unfolding kept(3) by auto
  next
    case (once t')
    note ih = Cons.IH [OF once(3) ok(4)]
    have "{x \<in> set (e # es). \<not> (te_once x \<and> x \<in> set t)} = {x \<in> set es. \<not> (te_once x \<and> x \<in> set t')}"
      using once(2) ne unfolding once(4) by auto
    then show ?thesis using ih by auto
  next
    case (again t' r')
    note ih = Cons.IH [OF again(3) ok(4)]
    have "timer_list_ok r"
    proof -
      have "te_key e \<notin> te_key ` set r'" using ih ok(1) by blast
      then show ?thesis unfolding again(5) timer_list_ok_Cons key te_update_fields
        using ih ok(2) te_update_valid assms(1) by simp
    qed
    moreover have "{x \<in> set (e # es). \<not> (te_once x \<and> x \<in> set t)}
        = insert e {x \<in> set es. \<not> (te_once x \<and> x \<in> set t')}"
      using again(2) ne unfolding again(4) by auto
    ultimately show ?thesis using ih unfolding again(5) by auto
  qed
qed simp

section \<open>The operations keep the list in order\<close>

lemma addTimerSubscriber_ok:
  assumes "addTimerSubscriber now subs sub i p once = Inr subs'" "timer_list_ok subs" "ts_valid now"
  shows "timer_list_ok subs' \<and> subs' = subs @ [new_element now sub i p once]
    \<and> (sub, p) \<notin> te_key ` set subs \<and> i \<noteq> 0"
proof -
  have i: "i \<noteq> 0" and new: "\<not> list_ex (\<lambda>s. te_same s (new_element now sub i p once)) subs"
    and r: "subs' = subs @ [new_element now sub i p once]"
    using assms(1) by (auto simp: addTimerSubscriber_def Let_def split: if_splits)
  have k: "(sub, p) \<notin> te_key ` set subs"
    using new by (auto simp: te_same_key list_ex_iff)
  have "ts_valid (te_nextNotify (new_element now sub i p once))"
    unfolding new_element_def using te_update_valid [OF assms(3)] .
  then show ?thesis using assms(2) i k r by (auto simp: timer_list_ok_def)
qed

lemma addTimerSubscriber_twice:
  assumes "(sub, p) \<in> te_key ` set subs" "i \<noteq> 0"
  shows "addTimerSubscriber now subs sub i p once = Inl (Throw ''Tried to add same timer twice'')"
  using assms by (auto simp: addTimerSubscriber_def te_same_key list_ex_iff)

lemma erase_element_law:
  "erase_element subs e = Some r \<Longrightarrow>
     \<exists>a s b. subs = a @ s # b \<and> r = a @ b \<and> te_key s = te_key e"
proof (induction subs arbitrary: r)
  case (Cons s subs)
  show ?case
  proof (cases "te_same s e")
    case True
    then show ?thesis using Cons.prems by (intro exI [of _ "[]"]) (simp add: te_same_key)
  next
    case False
    then obtain r' where "erase_element subs e = Some r'" "r = s # r'" using Cons.prems by auto
    with Cons.IH obtain a s' b where "subs = a @ s' # b" "r' = a @ b" "te_key s' = te_key e" by blast
    then have "s # subs = (s # a) @ s' # b \<and> r = (s # a) @ b \<and> te_key s' = te_key e"
      using \<open>r = s # r'\<close> by simp
    then show ?thesis by blast
  qed
qed simp

lemma erase_element_None: "erase_element subs e = None \<longleftrightarrow> te_key e \<notin> te_key ` set subs"
  by (induction subs) (auto simp: te_same_key)

lemma removeTimerSubscriber_ok:
  assumes "removeTimerSubscriber now subs sub p dontFail = Inr (subs', woken)" "timer_list_ok subs"
  shows "timer_list_ok subs' \<and> te_key ` set subs' = te_key ` set subs - {(sub, p)}"
proof (cases "erase_element subs (new_element now sub 0 p False)")
  case None
  then have "subs' = subs" using assms(1) by (simp add: removeTimerSubscriber_def split: if_splits)
  moreover have "(sub, p) \<notin> te_key ` set subs" using None erase_element_None by fastforce
  ultimately show ?thesis using assms(2) by simp
next
  case (Some r)
  then obtain a s b where e: "subs = a @ s # b" "r = a @ b" "te_key s = (sub, p)"
    using erase_element_law by fastforce
  have "subs' = r" using assms(1) Some by (simp add: removeTimerSubscriber_def)
  then show ?thesis using assms(2) e by (auto simp: timer_list_ok_def)
qed

lemma removeTimerSubscriber_missing:
  assumes "(sub, p) \<notin> te_key ` set subs"
  shows "removeTimerSubscriber now subs sub p dontFail =
    (if dontFail then Inr (subs, False) else Inl (Throw ''Tried to remove nonexistent timer''))"
  using assms erase_element_None [of subs "new_element now sub 0 p False"]
  by (simp add: removeTimerSubscriber_def)

section \<open>Reachable states\<close>

definition pending :: "timer_pc \<Rightarrow> (timer_element \<times> timespec) list" where
  "pending pc = (case pc of Calling es \<Rightarrow> es | _ \<Rightarrow> [])"

definition timer_inv :: "timer_state \<Rightarrow> bool" where
  "timer_inv s \<longleftrightarrow> timer_list_ok (tm_subscribers s) \<and> ts_valid (tm_now s)
     \<and> (\<forall>(e, t) \<in> set (pending (tm_pc s)). due_within t e)
     \<and> (\<forall>(e, t) \<in> set (tm_log s). due_within t e)"

lemma pending_simps [simp]:
  "pending Loop_head = []" "pending Found_empty = []" "pending Waiting = []" "pending Found_some = []"
  "pending (Found_time m) = []" "pending (Waiting_for m) = []" "pending Notifying = []"
  "pending (Calling es) = es" "pending Finished = []" "pending Crashed = []"
  "pending (signalled pc) = pending pc"
  by (simp_all add: pending_def signalled_def split: timer_pc.splits)

lemma thread_step_inv: "thread_step s s' \<Longrightarrow> timer_inv s \<Longrightarrow> timer_inv s'"
proof (induction rule: thread_step.induct)
  case (collect s clock toNotify subs)
  have "timer_list_ok subs" using notify_collect_left [OF collect(2,3)] collect(4) by (simp add: timer_inv_def)
  moreover have "\<forall>(e, t) \<in> set (zip toNotify (notify_times clock 0 (tm_subscribers s))). due_within t e"
    using notify_times_due [OF collect(3)] by blast
  ultimately show ?case using collect(2,4) by (simp add: timer_inv_def)
qed (auto simp: timer_inv_def)

lemma other_step_inv: "other_step s s' \<Longrightarrow> timer_inv s \<Longrightarrow> timer_inv s'"
proof (induction rule: other_step.induct)
  case (add s sub interval parameter once subs)
  then show ?case using addTimerSubscriber_ok by (simp add: timer_inv_def)
next
  case (remove s sub parameter dontFail subs woken)
  then show ?case using removeTimerSubscriber_ok by (simp add: timer_inv_def)
qed (simp_all add: timer_inv_def)

lemma timer_inv_init: "ts_valid now \<Longrightarrow> timer_inv (timer_init now)"
  by (simp add: timer_init_def timer_inv_def)

lemma timer_reach_inv: "timer_reach now s \<Longrightarrow> ts_valid now \<Longrightarrow> timer_inv s"
  by (induction rule: timer_reach.induct)
     (blast intro: timer_inv_init thread_step_inv other_step_inv)+

text \<open>
  The test for an empty list and the wait are not one step for the threads that
  add a subscriber or shut the timer down, as those signal without holding
  \<open>waitMutex\<close>.
\<close>

lemma lost_wakeup:
  "\<exists>s. timer_reach now s \<and> tm_pc s = Waiting \<and> tm_subscribers s \<noteq> [] \<and> tm_shutdownFlag s"
proof -
  define s1 where "s1 = (timer_init now)\<lparr>tm_pc := Found_empty\<rparr>"
  define e where "e = new_element now 1 60 None False"
  define s2 where "s2 = s1\<lparr>tm_subscribers := [e], tm_pc := signalled (tm_pc s1)\<rparr>"
  define s3 where "s3 = s2\<lparr>tm_shutdownFlag := True, tm_pc := signalled (tm_pc s2)\<rparr>"
  define s4 where "s4 = s3\<lparr>tm_pc := Waiting\<rparr>"
  have "thread_step (timer_init now) s1"
    unfolding s1_def by (rule thread_step.none) (simp_all add: timer_init_def)
  moreover have "addTimerSubscriber (tm_now s1) (tm_subscribers s1) 1 60 None False = Inr [e]"
    by (simp add: addTimerSubscriber_def s1_def timer_init_def e_def)
  then have "other_step s1 s2" unfolding s2_def by (rule other_step.add)
  moreover have "other_step s2 s3" unfolding s3_def by (rule other_step.shutdown)
  moreover have "thread_step s3 s4"
    unfolding s4_def by (rule thread_step.wait) (simp add: s3_def s2_def s1_def signalled_def)
  ultimately have "timer_reach now s4" using timer_reach.intros by meson
  then show ?thesis by (intro exI [of _ s4]) (simp add: s4_def s3_def s2_def)
qed

lemma waiting_thread_is_stuck: "tm_pc s = Waiting \<Longrightarrow> \<not> thread_step s s'"
  by (auto elim: thread_stepE)

text \<open>Nor are the test and \<open>getNextNotifyTime\<close>, which each take the lock anew.\<close>

lemma crash_reachable: "\<exists>s. timer_reach now s \<and> tm_pc s = Crashed"
proof -
  define e where "e = new_element now 1 60 None False"
  define s1 where "s1 = (timer_init now)\<lparr>tm_subscribers := [e], tm_pc := signalled (tm_pc (timer_init now))\<rparr>"
  define s2 where "s2 = s1\<lparr>tm_pc := Found_some\<rparr>"
  define s3 where "s3 = s2\<lparr>tm_subscribers := [], tm_pc := (if True then signalled (tm_pc s2) else tm_pc s2)\<rparr>"
  define s4 where "s4 = s3\<lparr>tm_pc := Crashed\<rparr>"
  have "addTimerSubscriber (tm_now (timer_init now)) (tm_subscribers (timer_init now)) 1 60 None False = Inr [e]"
    by (simp add: addTimerSubscriber_def timer_init_def e_def)
  then have "other_step (timer_init now) s1" unfolding s1_def by (rule other_step.add)
  moreover have "thread_step s1 s2"
    unfolding s2_def by (rule thread_step.some) (simp_all add: s1_def timer_init_def signalled_def)
  moreover have "removeTimerSubscriber (tm_now s2) (tm_subscribers s2) 1 None False = Inr ([], True)"
    by (simp add: removeTimerSubscriber_def s2_def s1_def e_def te_same_def)
  then have "other_step s2 s3" unfolding s3_def by (rule other_step.remove)
  moreover have "thread_step s3 s4"
    unfolding s4_def by (rule thread_step.null) (simp_all add: s3_def s2_def signalled_def)
  ultimately have "timer_reach now s4" using timer_reach.intros by meson
  then show ?thesis by (intro exI [of _ s4]) (simp add: s4_def)
qed

section \<open>A run\<close>

lemma timer_run:
  \<comment> \<open>a subscriber for every minute is called at the 70th second\<close>
  "\<exists>s e. timer_reach (Timespec 0 0) s \<and> tm_log s = [(e, Timespec 70 0)] \<and> tm_subscribers s \<noteq> []
     \<and> te_subscriber e = 1 \<and> ts_nanos (te_nextNotify e) = 60000000000"
proof -
  define e where "e = new_element (Timespec 0 0) 1 60 None False"
  have e: "te_subscriber e = 1" "\<not> te_once e" by (simp_all add: e_def)
  have n: "ts_nanos (te_nextNotify e) = 60000000000"
    using te_update_time [of "Timespec 0 0" "\<lparr>te_subscriber = 1, te_notifyInterval = 60, te_parameter = None,
        te_once = False, te_nextNotify = Timespec 0 0\<rparr>"]
    by (simp add: e_def new_element_def ts_valid_def ts_nanos_def)
  have due: "getDeltaMillis (Timespec 70 0) (te_nextNotify e) \<le> 0"
    using delta_pos [of "Timespec 70 0" "te_nextNotify e"] n by (fastforce simp: ts_nanos_def)
  have v: "ts_valid (Timespec 70 0)" by (simp add: ts_valid_def)
  define s0 where "s0 = timer_init (Timespec 0 0)"
  define s1 where "s1 = s0\<lparr>tm_subscribers := [e], tm_pc := signalled (tm_pc s0)\<rparr>"
  define s2 where "s2 = s1\<lparr>tm_pc := Found_some\<rparr>"
  define s3 where "s3 = s2\<lparr>tm_now := Timespec 70 0\<rparr>"
  define s4 where "s4 = s3\<lparr>tm_pc := Notifying\<rparr>"
  let ?clock = "\<lambda>_ :: nat. Timespec 70 0" let ?e' = "te_updateNextNotify (Timespec 70 0) e"
  define s5 where "s5 = s4\<lparr>tm_pc := Calling (zip [e] (notify_times ?clock 0 (tm_subscribers s4))),
    tm_subscribers := [?e'], tm_now := Timespec 70 0\<rparr>"
  define s6 where "s6 = s5\<lparr>tm_pc := Calling [], tm_log := tm_log s5 @ [(e, Timespec 70 0)]\<rparr>"
  note defs = s0_def s1_def s2_def s3_def s4_def timer_init_def signalled_def
  have "addTimerSubscriber (tm_now s0) (tm_subscribers s0) 1 60 None False = Inr [e]"
    by (simp add: addTimerSubscriber_def defs e_def)
  then have "other_step s0 s1" unfolding s1_def by (rule other_step.add)
  moreover have "thread_step s1 s2" unfolding s2_def by (rule thread_step.some) (simp_all add: defs)
  moreover have "other_step s2 s3" unfolding s3_def using v by (rule other_step.clock)
  moreover have "thread_step s3 s4"
    unfolding s4_def by (rule thread_step.due [where timeout = "te_nextNotify e"])
      (use due in \<open>simp_all add: defs getNextNotifyTime_def\<close>)
  moreover have "notify_collect ?clock 0 (tm_subscribers s4) = ([e], [?e'])"
    using due e(2) by (simp add: defs)
  then have "thread_step s4 s5"
    unfolding s5_def using thread_step.collect [of s4 ?clock "[e]" "[?e']"] v by (simp add: s4_def)
  moreover have "tm_pc s5 = Calling [(e, Timespec 70 0)]" using due e(2) by (simp add: s5_def defs)
  then have "thread_step s5 s6" unfolding s6_def by (rule thread_step.call)
  ultimately have "timer_reach (Timespec 0 0) s6"
    using timer_reach.start [of "Timespec 0 0", folded s0_def] timer_reach.thread timer_reach.other by meson
  moreover have "tm_log s6 = [(e, Timespec 70 0)]" "tm_subscribers s6 \<noteq> []" by (simp_all add: s6_def s5_def defs)
  ultimately show ?thesis using e(1) n by blast
qed

end
