(* ===== verification/Sessions.thy ===== *)
theory Sessions
  imports Timer IntArrays Dictionary
begin

text \<open>
  The web sessions (src/session_manager.cc, session_manager.h): the container
  IDs a session collects for its page, and the manager with the list of the
  sessions and its subscription to the timer. The random IDs are a stream; the
  order in which a hash set is iterated is an argument. The part of a session
  that is a \<open>Dictionary_r\<close> is not repeated here.
\<close>

section \<open>A session\<close>

record session =
  se_updateAll :: bool
  se_uiUpdateIDs :: "int set"
  se_timeout :: int
  se_last_access :: timespec
  se_sessionID :: zstring
  se_loggedIn :: bool

abbreviation MAX_UI_UPDATE_IDS :: nat where "MAX_UI_UPDATE_IDS \<equiv> 10"
abbreviation SESSION_TIMEOUT_CHECK_INTERVAL :: "32 word" where "SESSION_TIMEOUT_CHECK_INTERVAL \<equiv> 300"

definition new_Session :: "timespec \<Rightarrow> int \<Rightarrow> session" where
  "new_Session now timeout =
     \<lparr>se_updateAll = False, se_uiUpdateIDs = {}, se_timeout = timeout, se_last_access = now,
      se_sessionID = None, se_loggedIn = False\<rparr>"

definition se_containerChangedUI :: "session \<Rightarrow> int \<Rightarrow> session" where
  "se_containerChangedUI s objectID =
     (if objectID = -333 then s
      else if se_updateAll s then s
      else if card (se_uiUpdateIDs s) \<ge> MAX_UI_UPDATE_IDS then
        s\<lparr>se_updateAll := True, se_uiUpdateIDs := {}\<rparr>
      else s\<lparr>se_uiUpdateIDs := insert objectID (se_uiUpdateIDs s)\<rparr>)"

definition se_containersChangedUI :: "session \<Rightarrow> int list option \<Rightarrow> session" where
  "se_containersChangedUI s objectIDs =
     (if se_updateAll s then s
      else case objectIDs of
        None \<Rightarrow> s
      | Some xs \<Rightarrow>
          if card (se_uiUpdateIDs s) + length xs \<ge> MAX_UI_UPDATE_IDS then
            s\<lparr>se_updateAll := True, se_uiUpdateIDs := {}\<rparr>
          else s\<lparr>se_uiUpdateIDs := foldl (\<lambda>ids x. insert x ids) (se_uiUpdateIDs s) xs\<rparr>)"

definition se_hasUIUpdateIDs :: "session \<Rightarrow> bool" where
  "se_hasUIUpdateIDs s = (if se_updateAll s then True else card (se_uiUpdateIDs s) > 0)"

definition se_getUIUpdateIDs :: "(int set \<Rightarrow> int list) \<Rightarrow> session \<Rightarrow> zstring \<times> session" where
  "se_getUIUpdateIDs enum s =
     (if \<not> se_hasUIUpdateIDs s then (None, s)
      else if se_updateAll s then (Some ''all'', s\<lparr>se_updateAll := False\<rparr>)
      else (let ret = toCSV (enum (se_uiUpdateIDs s))
            in (ret, if ret \<noteq> None then s\<lparr>se_uiUpdateIDs := {}\<rparr> else s)))"

definition se_clearUpdateIDs :: "session \<Rightarrow> session" where
  "se_clearUpdateIDs s = s\<lparr>se_uiUpdateIDs := {}, se_updateAll := False\<rparr>"

section \<open>The manager\<close>

record session_manager =
  sm_sessions :: "session list"
  sm_accounts :: "dictionary option"
  sm_timerAdded :: bool
  sm_timer :: "timer_element list"   \<comment> \<open>the subscribers of the timer\<close>

fun sm_getSession :: "session list \<Rightarrow> zstring \<Rightarrow> session option" where
  "sm_getSession [] sessionID = None"
| "sm_getSession (s # r) sessionID =
     (if z_eq (se_sessionID s) sessionID then Some s else sm_getSession r sessionID)"

definition sm_checkTimer :: "nat \<Rightarrow> timespec \<Rightarrow> session_manager \<Rightarrow> session_manager result" where
  \<comment> \<open>\<open>self\<close> is the address of the manager as a subscriber\<close>
  "sm_checkTimer self now m =
     (if sm_sessions m \<noteq> [] \<and> \<not> sm_timerAdded m then
        bind_result (addTimerSubscriber now (sm_timer m) self SESSION_TIMEOUT_CHECK_INTERVAL None False)
          (\<lambda>t. Inr (m\<lparr>sm_timer := t, sm_timerAdded := True\<rparr>))
      else if sm_sessions m = [] \<and> sm_timerAdded m then
        bind_result (removeTimerSubscriber now (sm_timer m) self None False)
          (\<lambda>(t, _). Inr (m\<lparr>sm_timer := t, sm_timerAdded := False\<rparr>))
      else Inr m)"

function find_session_id :: "(nat \<Rightarrow> string) \<Rightarrow> session list \<Rightarrow> nat \<Rightarrow> string result" where
  \<comment> \<open>the loop of \<open>createSession\<close> when \<open>n\<close> IDs have been tried\<close>
  "find_session_id random_id ss n =
     (if n > 100 then
        Inl (Throw (''There seems to be something wrong with the random numbers. I tried to get a unique id 100 times and failed. last sessionID: '' @ random_id n))
      else if sm_getSession ss (Some (random_id n)) \<noteq> None then find_session_id random_id ss (n + 1)
      else Inr (random_id n))"
  by pat_completeness auto
termination by (relation "measure (\<lambda>(r, ss, n). 101 - n)") auto

declare find_session_id.simps [simp del]

definition sm_createSession ::
  "(nat \<Rightarrow> string) \<Rightarrow> nat \<Rightarrow> timespec \<Rightarrow> session_manager \<Rightarrow> int \<Rightarrow> (session_manager \<times> session) result" where
  "sm_createSession random_id self now m timeout =
     bind_result (find_session_id random_id (sm_sessions m) 0) (\<lambda>sessionID.
       (let newSession = (new_Session now timeout)\<lparr>se_sessionID := Some sessionID\<rparr>
        in bind_result (sm_checkTimer self now (m\<lparr>sm_sessions := sm_sessions m @ [newSession]\<rparr>)) (\<lambda>m.
             Inr (m, newSession))))"

fun remove_session_from :: "session list \<Rightarrow> zstring \<Rightarrow> session list option" where
  "remove_session_from [] sessionID = None"
| "remove_session_from (s # r) sessionID =
     (if z_eq (se_sessionID s) sessionID then Some r
      else map_option ((#) s) (remove_session_from r sessionID))"

definition sm_removeSession :: "nat \<Rightarrow> timespec \<Rightarrow> session_manager \<Rightarrow> zstring \<Rightarrow> session_manager result" where
  "sm_removeSession self now m sessionID =
     (case remove_session_from (sm_sessions m) sessionID of
        None \<Rightarrow> Inr m
      | Some ss \<Rightarrow> sm_checkTimer self now (m\<lparr>sm_sessions := ss\<rparr>))"

definition sm_getUserPassword :: "session_manager \<Rightarrow> zstring \<Rightarrow> zstring" where
  "sm_getUserPassword m user = (case sm_accounts m of None \<Rightarrow> None | Some d \<Rightarrow> d_get d user)"

definition sm_containerChangedUI :: "session_manager \<Rightarrow> int \<Rightarrow> session_manager" where
  "sm_containerChangedUI m objectID =
     m\<lparr>sm_sessions := map (\<lambda>s. if se_loggedIn s then se_containerChangedUI s objectID else s) (sm_sessions m)\<rparr>"

definition sm_containersChangedUI :: "session_manager \<Rightarrow> int list option \<Rightarrow> session_manager" where
  "sm_containersChangedUI m objectIDs =
     m\<lparr>sm_sessions := map (\<lambda>s. if se_loggedIn s then se_containersChangedUI s objectIDs else s) (sm_sessions m)\<rparr>"

definition se_expired :: "timespec \<Rightarrow> session \<Rightarrow> bool" where
  "se_expired now s \<longleftrightarrow> getDeltaMillis (se_last_access s) now > 1000 * se_timeout s"

lemma sm_checkTimer_sessions: "sm_checkTimer self now m = Inr m' \<Longrightarrow> sm_sessions m' = sm_sessions m"
  by (auto simp: sm_checkTimer_def bind_result_Inr_iff split: if_splits)

function sm_timerNotify_loop ::
  "nat \<Rightarrow> timespec \<Rightarrow> session_manager \<Rightarrow> nat \<Rightarrow> session_manager result" where
  "sm_timerNotify_loop self now m i =
     (if i \<ge> length (sm_sessions m) then Inr m
      else if se_expired now (sm_sessions m ! i) then
        bind_result (sm_checkTimer self now
            (m\<lparr>sm_sessions := take i (sm_sessions m) @ drop (i + 1) (sm_sessions m)\<rparr>)) (\<lambda>m.
          sm_timerNotify_loop self now m i)
      else sm_timerNotify_loop self now m (i + 1))"
  by pat_completeness auto
termination
  by (relation "measure (\<lambda>(self, now, m, i). length (sm_sessions m) - i)")
     (auto dest: sm_checkTimer_sessions)

declare sm_timerNotify_loop.simps [simp del]

definition sm_timerNotify :: "nat \<Rightarrow> timespec \<Rightarrow> session_manager \<Rightarrow> session_manager result" where
  "sm_timerNotify self now m = sm_timerNotify_loop self now m 0"

section \<open>What a session reports\<close>

definition se_inv :: "session \<Rightarrow> bool" where
  "se_inv s \<longleftrightarrow> finite (se_uiUpdateIDs s) \<and> card (se_uiUpdateIDs s) \<le> MAX_UI_UPDATE_IDS
     \<and> (se_updateAll s \<longrightarrow> se_uiUpdateIDs s = {})"

definition se_covers :: "session \<Rightarrow> int \<Rightarrow> bool" where
  \<comment> \<open>the next answer tells the page to redraw the container\<close>
  "se_covers s x \<longleftrightarrow> se_updateAll s \<or> x \<in> se_uiUpdateIDs s"

lemma new_Session_inv [simp]: "se_inv (new_Session now timeout)"
  by (simp add: new_Session_def se_inv_def)

lemma se_containerChangedUI_law:
  assumes "se_inv s"
  shows "se_inv (se_containerChangedUI s x)"
    and "x \<noteq> -333 \<Longrightarrow> se_covers (se_containerChangedUI s x) x"
    and "se_covers s y \<Longrightarrow> se_covers (se_containerChangedUI s x) y"
  using assms by (auto simp: se_containerChangedUI_def se_inv_def se_covers_def card_insert_if)

lemma foldl_insert: "foldl (\<lambda>ids x. insert x ids) S xs = S \<union> set xs"
  by (induction xs arbitrary: S) auto

lemma se_containersChangedUI_law:
  assumes "se_inv s"
  shows "se_inv (se_containersChangedUI s xs)"
    and "xs = Some ys \<Longrightarrow> x \<in> set ys \<Longrightarrow> se_covers (se_containersChangedUI s xs) x"
    and "se_covers s y \<Longrightarrow> se_covers (se_containersChangedUI s xs) y"
proof -
  have "card (se_uiUpdateIDs s \<union> set zs) \<le> card (se_uiUpdateIDs s) + length zs" for zs
    using card_Un_le [of "se_uiUpdateIDs s" "set zs"] card_length [of zs] by linarith
  then have le: "card (se_uiUpdateIDs s \<union> set zs) \<le> 10" if "card (se_uiUpdateIDs s) + length zs < 10" for zs
    using that by (meson le_less_trans less_imp_le)
  show "se_inv (se_containersChangedUI s xs)"
    using assms le
    by (cases xs) (auto simp: se_containersChangedUI_def se_inv_def foldl_insert)
qed (auto simp: se_containersChangedUI_def se_covers_def foldl_insert split: option.splits)

definition enumerates :: "(int set \<Rightarrow> int list) \<Rightarrow> bool" where
  \<comment> \<open>iterating a hash set meets each element once\<close>
  "enumerates enum \<longleftrightarrow> (\<forall>S. finite S \<longrightarrow> set (enum S) = S \<and> distinct (enum S))"

lemma se_getUIUpdateIDs_law:
  assumes "se_inv s" "enumerates enum" "se_getUIUpdateIDs enum s = (ids, s')"
  shows "se_inv s' \<and> \<not> se_covers s' x
    \<and> (ids = None \<longleftrightarrow> (\<forall>y. \<not> se_covers s y))
    \<and> (ids = Some ''all'' \<or> (\<exists>ys. set ys = se_uiUpdateIDs s \<and> distinct ys \<and> ids = toCSV ys))"
proof -
  have f: "finite (se_uiUpdateIDs s)" using assms(1) by (simp add: se_inv_def)
  then have e: "set (enum (se_uiUpdateIDs s)) = se_uiUpdateIDs s" "distinct (enum (se_uiUpdateIDs s))"
    using assms(2) by (auto simp: enumerates_def)
  consider "se_updateAll s" | "\<not> se_updateAll s" "se_uiUpdateIDs s = {}"
    | "\<not> se_updateAll s" "se_uiUpdateIDs s \<noteq> {}" by blast
  then show ?thesis
  proof cases
    case 1
    then show ?thesis using assms(1,3)
      by (auto simp: se_getUIUpdateIDs_def se_hasUIUpdateIDs_def se_inv_def se_covers_def)
  next
    case 2
    then show ?thesis using assms(1,3)
      by (auto simp: se_getUIUpdateIDs_def se_hasUIUpdateIDs_def se_covers_def toCSV_def intro!: exI [of _ "[]"])
  next
    case 3
    then have c: "card (se_uiUpdateIDs s) > 0" using f by (simp add: card_gt_0_iff)
    have n: "enum (se_uiUpdateIDs s) \<noteq> []" using 3 e by (metis list.set(1))
    then have "ids = toCSV (enum (se_uiUpdateIDs s))" "s' = s\<lparr>se_uiUpdateIDs := {}\<rparr>" "ids \<noteq> None"
      using assms(3) 3 c by (auto simp: se_getUIUpdateIDs_def se_hasUIUpdateIDs_def Let_def toCSV_def)
    then show ?thesis using 3 assms(1) e by (auto simp: se_inv_def se_covers_def)
  qed
qed

section \<open>What the manager keeps\<close>

definition session_keys :: "session list \<Rightarrow> string option list" where
  "session_keys ss = map (\<lambda>s. map_option cstr (se_sessionID s)) ss"

definition sm_inv :: "nat \<Rightarrow> session_manager \<Rightarrow> bool" where
  \<comment> \<open>IDs are unique; the manager is subscribed exactly while there are sessions\<close>
  "sm_inv self m \<longleftrightarrow> distinct (session_keys (sm_sessions m))
     \<and> (\<forall>s \<in> set (sm_sessions m). se_inv s)
     \<and> timer_list_ok (sm_timer m)
     \<and> (sm_timerAdded m \<longleftrightarrow> sm_sessions m \<noteq> [])
     \<and> ((self, None) \<in> te_key ` set (sm_timer m) \<longleftrightarrow> sm_sessions m \<noteq> [])"

lemma z_eq_cstr: "z_eq a b \<longleftrightarrow> map_option cstr a = map_option cstr b"
  by (cases a; cases b) (auto simp: z_eq_def)

lemma session_keys_simps [simp]:
  "session_keys [] = []"
  "session_keys (s # ss) = map_option cstr (se_sessionID s) # session_keys ss"
  "session_keys (xs @ ys) = session_keys xs @ session_keys ys"
  by (simp_all add: session_keys_def)

lemma sm_getSession_None: "sm_getSession ss k = None \<longleftrightarrow> map_option cstr k \<notin> set (session_keys ss)"
  by (induction ss) (auto simp: z_eq_cstr)

lemma sm_getSession_append:
  "sm_getSession (xs @ ys) k = (case sm_getSession xs k of None \<Rightarrow> sm_getSession ys k | Some s \<Rightarrow> Some s)"
  by (induction xs) auto

text \<open>\<open>checkTimer\<close> after the list went from one state of the invariant to another.\<close>

lemma sm_checkTimer_law:
  assumes "sm_inv self m" "ts_valid now" "distinct (session_keys ss)" "\<forall>s \<in> set ss. se_inv s"
  shows "\<exists>m'. sm_checkTimer self now (m\<lparr>sm_sessions := ss\<rparr>) = Inr m' \<and> sm_inv self m'
    \<and> sm_sessions m' = ss \<and> sm_accounts m' = sm_accounts m
    \<and> te_key ` set (sm_timer m') - {(self, None)} = te_key ` set (sm_timer m) - {(self, None)}"
proof -
  have ok: "timer_list_ok (sm_timer m)" "sm_timerAdded m \<longleftrightarrow> sm_sessions m \<noteq> []"
    "(self, None) \<in> te_key ` set (sm_timer m) \<longleftrightarrow> sm_sessions m \<noteq> []"
    using assms(1) by (simp_all only: sm_inv_def)
  consider "ss \<noteq> []" "sm_sessions m = []" | "ss = []" "sm_sessions m \<noteq> []"
    | "ss = [] \<longleftrightarrow> sm_sessions m = []" by blast
  then show ?thesis
  proof cases
    case 1
    define e where "e = new_element now self SESSION_TIMEOUT_CHECK_INTERVAL None False"
    have new: "(self, None) \<notin> te_key ` set (sm_timer m)" using 1 ok by simp
    then have a: "addTimerSubscriber now (sm_timer m) self SESSION_TIMEOUT_CHECK_INTERVAL None False
        = Inr (sm_timer m @ [e])"
      by (auto simp: addTimerSubscriber_def Let_def e_def te_same_key list_ex_iff)
         (metis imageI)
    have "timer_list_ok (sm_timer m @ [e])"
      using addTimerSubscriber_ok [OF a ok(1) assms(2)] by blast
    moreover have "te_key e = (self, None)" by (simp add: e_def)
    ultimately show ?thesis using 1 ok a assms(3,4)
      by (simp add: sm_checkTimer_def sm_inv_def)
  next
    case 2
    define e where "e = new_element now self 0 None False"
    have "te_key e \<in> te_key ` set (sm_timer m)" using 2 ok by (simp add: e_def)
    then obtain r where r: "erase_element (sm_timer m) e = Some r"
      using erase_element_None by fastforce
    then have d: "removeTimerSubscriber now (sm_timer m) self None False = Inr (r, True)"
      by (simp add: removeTimerSubscriber_def e_def)
    from removeTimerSubscriber_ok [OF d ok(1)] show ?thesis using 2 ok d assms(3,4)
      by (simp add: sm_checkTimer_def sm_inv_def)
  next
    case 3
    then show ?thesis using ok assms(1,3,4) by (simp add: sm_checkTimer_def sm_inv_def)
  qed
qed

lemma find_session_id_law:
  assumes "find_session_id random_id ss n = Inr k"
  shows "sm_getSession ss (Some k) = None \<and> (\<exists>j \<ge> n. k = random_id j \<and> j \<le> 100)"
  using assms
proof (induction random_id ss n rule: find_session_id.induct)
  case (1 random_id ss n)
  show ?case
  proof (cases "n \<le> 100 \<and> sm_getSession ss (Some (random_id n)) \<noteq> None")
    case True
    then have "find_session_id random_id ss (n + 1) = Inr k"
      using 1(2) by (simp add: find_session_id.simps [of random_id ss n])
    then show ?thesis using 1(1) True by (metis Suc_eq_plus1 Suc_leD not_le)
  next
    case False
    then show ?thesis using 1(2) by (auto simp: find_session_id.simps [of random_id ss n] split: if_splits)
  qed
qed

lemma find_session_id_total:
  "(\<exists>k. find_session_id random_id ss n = Inr k) \<longleftrightarrow>
     (\<exists>j \<ge> n. j \<le> 100 \<and> sm_getSession ss (Some (random_id j)) = None)"
proof (induction random_id ss n rule: find_session_id.induct)
  case (1 random_id ss n)
  note u = find_session_id.simps [of random_id ss n]
  show ?case
  proof (cases "n \<le> 100 \<and> sm_getSession ss (Some (random_id n)) \<noteq> None")
    case True
    then have "(\<exists>j \<ge> n. j \<le> 100 \<and> sm_getSession ss (Some (random_id j)) = None)
      \<longleftrightarrow> (\<exists>j \<ge> n + 1. j \<le> 100 \<and> sm_getSession ss (Some (random_id j)) = None)"
      by (metis Suc_eq_plus1 Suc_le_eq le_neq_implies_less less_imp_le)
    then show ?thesis using 1 True u by (simp add: not_le)
  next
    case False
    then show ?thesis by (auto simp: u not_le)
  qed
qed

lemma sm_createSession_law:
  assumes "sm_inv self m" "ts_valid now" "sm_createSession random_id self now m timeout = Inr (m', s)"
  shows "sm_inv self m' \<and> sm_sessions m' = sm_sessions m @ [s]
    \<and> sm_getSession (sm_sessions m') (se_sessionID s) = Some s \<and> se_timeout s = timeout"
proof -
  obtain k where k: "find_session_id random_id (sm_sessions m) 0 = Inr k"
    and c: "sm_checkTimer self now (m\<lparr>sm_sessions := sm_sessions m @ [s]\<rparr>) = Inr m'"
    and s: "s = (new_Session now timeout)\<lparr>se_sessionID := Some k\<rparr>"
    using assms(3) by (auto simp: sm_createSession_def Let_def bind_result_Inr_iff)
  have n: "sm_getSession (sm_sessions m) (Some k) = None" using find_session_id_law [OF k] by simp
  then have d: "distinct (session_keys (sm_sessions m @ [s]))"
    using assms(1) s by (simp add: sm_getSession_None sm_inv_def)
  have i: "\<forall>x \<in> set (sm_sessions m @ [s]). se_inv x"
    using assms(1) s by (auto simp: sm_inv_def se_inv_def new_Session_def)
  show ?thesis
    using sm_checkTimer_law [OF assms(1,2) d i] c n s
    by (auto simp: sm_getSession_append new_Session_def z_eq_cstr)
qed

lemma remove_session_from_law:
  "remove_session_from ss k = Some r \<Longrightarrow>
     \<exists>a s b. ss = a @ s # b \<and> r = a @ b \<and> map_option cstr (se_sessionID s) = map_option cstr k"
proof (induction ss arbitrary: r)
  case (Cons s ss)
  show ?case
  proof (cases "z_eq (se_sessionID s) k")
    case True
    then show ?thesis using Cons.prems by (intro exI [of _ "[]"]) (simp add: z_eq_cstr)
  next
    case False
    then obtain r' where "remove_session_from ss k = Some r'" "r = s # r'" using Cons.prems by auto
    with Cons.IH obtain a s' b where
      "ss = a @ s' # b" "r' = a @ b" "map_option cstr (se_sessionID s') = map_option cstr k" by blast
    then have "s # ss = (s # a) @ s' # b \<and> r = (s # a) @ b
        \<and> map_option cstr (se_sessionID s') = map_option cstr k" using \<open>r = s # r'\<close> by simp
    then show ?thesis by blast
  qed
qed simp

lemma remove_session_from_None:
  "remove_session_from ss k = None \<longleftrightarrow> sm_getSession ss k = None"
  by (induction ss) auto

lemma sm_removeSession_law:
  assumes "sm_inv self m" "ts_valid now"
  shows "\<exists>m'. sm_removeSession self now m k = Inr m' \<and> sm_inv self m'
    \<and> sm_getSession (sm_sessions m') k = None
    \<and> (\<forall>j. map_option cstr j \<noteq> map_option cstr k \<longrightarrow>
          sm_getSession (sm_sessions m') j = sm_getSession (sm_sessions m) j)"
proof (cases "remove_session_from (sm_sessions m) k")
  case None
  then have "sm_getSession (sm_sessions m) k = None" by (simp add: remove_session_from_None)
  moreover have "sm_removeSession self now m k = Inr m" using None by (simp add: sm_removeSession_def)
  ultimately show ?thesis using assms(1) by blast
next
  case (Some r)
  then obtain a s b where r: "sm_sessions m = a @ s # b" "r = a @ b"
    "map_option cstr (se_sessionID s) = map_option cstr k"
    using remove_session_from_law by blast
  have d: "distinct (session_keys r)" "\<forall>x \<in> set r. se_inv x"
    using assms(1) r by (auto simp: sm_inv_def)
  have n: "map_option cstr k \<notin> set (session_keys r)"
    using assms(1) r by (auto simp: sm_inv_def)
  have o: "sm_getSession r j = sm_getSession (sm_sessions m) j"
    if "map_option cstr j \<noteq> map_option cstr k" for j
    using that r by (auto simp: sm_getSession_append z_eq_cstr split: option.splits)
  show ?thesis using sm_checkTimer_law [OF assms d] Some n o
    by (auto simp: sm_removeSession_def sm_getSession_None)
qed

lemma session_keys_filter: "distinct (session_keys ss) \<Longrightarrow> distinct (session_keys (filter P ss))"
  by (auto simp: session_keys_def intro: distinct_map_filter)

lemma sm_timerNotify_loop_law:
  assumes "sm_inv self m" "ts_valid now" "i \<le> length (sm_sessions m)"
  shows "\<exists>m'. sm_timerNotify_loop self now m i = Inr m' \<and> sm_inv self m'
    \<and> sm_sessions m' = take i (sm_sessions m) @ filter (\<lambda>s. \<not> se_expired now s) (drop i (sm_sessions m))"
  using assms
proof (induction self now m i rule: sm_timerNotify_loop.induct)
  case (1 self now m i)
  note u = sm_timerNotify_loop.simps [of self now m i]
  show ?case
  proof (cases "i \<ge> length (sm_sessions m)")
    case True
    then show ?thesis using 1 u by simp
  next
    case False
    then have d: "drop i (sm_sessions m) = sm_sessions m ! i # drop (i + 1) (sm_sessions m)"
      by (simp add: Cons_nth_drop_Suc)
    show ?thesis
    proof (cases "se_expired now (sm_sessions m ! i)")
      case e: True
      define ss where "ss = take i (sm_sessions m) @ drop (i + 1) (sm_sessions m)"
      have sub: "set ss \<subseteq> set (sm_sessions m)" unfolding ss_def
        by (auto dest: in_set_takeD in_set_dropD)
      have "distinct (session_keys (take i (sm_sessions m) @ drop i (sm_sessions m)))"
        using 1(3) by (simp add: sm_inv_def)
      then have k: "distinct (session_keys ss)" unfolding d by (auto simp: ss_def)
      have "\<forall>s \<in> set ss. se_inv s" using sub 1(3) by (auto simp: sm_inv_def)
      then obtain m1 where m1: "sm_checkTimer self now (m\<lparr>sm_sessions := ss\<rparr>) = Inr m1"
        "sm_inv self m1" "sm_sessions m1 = ss"
        using sm_checkTimer_law [OF 1(3,4) k] by blast
      have "i \<le> length ss" using False by (simp add: ss_def)
      then show ?thesis
        using "1.IH"(1) [OF False e m1(1) [unfolded ss_def] m1(2) 1(4)] m1 u e d False
        by (auto simp: ss_def)
    next
      case e: False
      have "take (i + 1) (sm_sessions m) = take i (sm_sessions m) @ [sm_sessions m ! i]"
        using False by (simp add: take_Suc_conv_app_nth)
      then show ?thesis using "1.IH"(2) [OF False e 1(3,4)] u e d False by simp
    qed
  qed
qed

lemma sm_timerNotify_law:
  assumes "sm_inv self m" "ts_valid now"
  shows "\<exists>m'. sm_timerNotify self now m = Inr m' \<and> sm_inv self m'
    \<and> sm_sessions m' = filter (\<lambda>s. \<not> se_expired now s) (sm_sessions m)"
  using sm_timerNotify_loop_law [OF assms, of 0] by (simp add: sm_timerNotify_def)

lemma se_changed_ID [simp]:
  "se_sessionID (se_containerChangedUI s x) = se_sessionID s"
  "se_sessionID (se_containersChangedUI s xs) = se_sessionID s"
  by (simp_all add: se_containerChangedUI_def se_containersChangedUI_def split: option.splits)

lemma session_keys_map:
  "(\<And>s. se_sessionID (f s) = se_sessionID s) \<Longrightarrow> session_keys (map f ss) = session_keys ss"
  by (simp add: session_keys_def comp_def)

lemma sm_changed_inv:
  assumes "sm_inv self m"
  shows "sm_inv self (sm_containerChangedUI m x)" "sm_inv self (sm_containersChangedUI m xs)"
  using assms se_containerChangedUI_law(1) se_containersChangedUI_law(1)
  by (auto simp: sm_inv_def sm_containerChangedUI_def sm_containersChangedUI_def session_keys_map)

text \<open>A timeout of one counts for a second and not for a millisecond.\<close>

lemma session_timeout_in_seconds:
  assumes "ts_valid now" "0 \<le> timeout"
  shows "\<not> se_expired (getTimespecAfterMillis (timeout * 1000) now) (new_Session now timeout)"
    and "se_expired (getTimespecAfterMillis (timeout * 1000 + 1) now) (new_Session now timeout)"
  using assms by (simp_all add: se_expired_def new_Session_def delta_after)

end
