(* ===== verification/Update_Manager.thy ===== *)
theory Update_Manager
  imports TimeTools ZString
begin

text \<open>
  The update manager (src/update_manager.cc, update_manager.h): other threads tell
  it which containers changed, its own thread has the storage increment their
  update IDs and sends the result to the subscribers. A state is what holds
  between two releases of \<open>mutex\<close>; \<open>containersChanged\<close> lets go of it while it waits
  for the set to get smaller, so a call of it can be open in the state. What the
  storage and the network do is an argument.
\<close>

abbreviation MAX_OBJECT_IDS :: nat where "MAX_OBJECT_IDS \<equiv> 1000"
abbreviation MAX_OBJECT_IDS_OVERLOAD :: nat where "MAX_OBJECT_IDS_OVERLOAD \<equiv> 30"
abbreviation SPEC_INTERVAL :: int where "SPEC_INTERVAL \<equiv> 2000"
abbreviation MIN_SLEEP :: int where "MIN_SLEEP \<equiv> 1"
abbreviation FLUSH_SPEC :: int where "FLUSH_SPEC \<equiv> 1"
abbreviation FLUSH_ASAP :: int where "FLUSH_ASAP \<equiv> 2"
abbreviation NO_OBJECT :: int where "NO_OBJECT \<equiv> -333"   \<comment> \<open>\<open>INVALID_OBJECT_ID\<close>\<close>

section \<open>State\<close>

datatype um_pc =
    Um_loop                   \<comment> \<open>at the head of the loop\<close>
  | Um_wait                   \<comment> \<open>inside \<open>cond.wait\<close>\<close>
  | Um_wait_for               \<comment> \<open>inside \<open>cond.wait_for\<close>\<close>
  | Um_woken                  \<comment> \<open>\<open>cond.wait_for\<close> was notified\<close>
  | Um_sending zstring        \<comment> \<open>unlocked, with the update string\<close>
  | Um_done

record um_call =
  uc_rest :: "int list"
  uc_signal :: bool
  uc_split :: bool

record um_state =
  um_objectIDHash :: "int set"
  um_shutdownFlag :: bool
  um_flushPolicy :: int
  um_lastContainerChanged :: int
  um_lastUpdate :: timespec
  um_pc :: um_pc
  um_calls :: "nat \<Rightarrow> um_call option"  \<comment> \<open>per thread, the open \<open>containersChanged\<close>\<close>

definition um_init :: "timespec \<Rightarrow> um_state" where
  "um_init now = \<lparr>um_objectIDHash = {}, um_shutdownFlag = False, um_flushPolicy = FLUSH_SPEC,
     um_lastContainerChanged = NO_OBJECT, um_lastUpdate = now, um_pc = Um_loop,
     um_calls = (\<lambda>_. None)\<rparr>"

definition haveUpdates :: "um_state \<Rightarrow> bool" where
  "haveUpdates s \<longleftrightarrow> card (um_objectIDHash s) > 0"

definition um_notify :: "um_state \<Rightarrow> um_state" where
  \<comment> \<open>\<open>cond.notify_one\<close>\<close>
  "um_notify s = (case um_pc s of
       Um_wait \<Rightarrow> s\<lparr>um_pc := Um_loop\<rparr> | Um_wait_for \<Rightarrow> s\<lparr>um_pc := Um_woken\<rparr> | _ \<Rightarrow> s)"

section \<open>The calls of other threads\<close>

definition containerChanged :: "um_state \<Rightarrow> int \<Rightarrow> int \<Rightarrow> um_state" where
  "containerChanged s objectID flushPolicy =
     (if objectID = NO_OBJECT then s
      else if objectID \<noteq> um_lastContainerChanged s \<or> flushPolicy > um_flushPolicy s then
        (let signal = \<not> haveUpdates s;
             s = s\<lparr>um_objectIDHash := insert objectID (um_objectIDHash s)\<rparr>;
             signal = (signal \<or> card (um_objectIDHash s) \<ge> MAX_OBJECT_IDS);
             s = s\<lparr>um_lastContainerChanged := objectID\<rparr>;
             signal = (signal \<or> flushPolicy > um_flushPolicy s);
             s = (if flushPolicy > um_flushPolicy s then s\<lparr>um_flushPolicy := flushPolicy\<rparr> else s)
         in if signal then um_notify s else s)
      else s)"

fun insert_ids :: "bool \<Rightarrow> int \<Rightarrow> int set \<Rightarrow> int list \<Rightarrow> int set \<times> int list \<times> bool" where
  \<comment> \<open>the loop of \<open>containersChanged\<close> until it lets go of the lock (the flag) or ends\<close>
  "insert_ids split last_changed ids [] = (ids, [], False)"
| "insert_ids split last_changed ids (objectID # r) =
     (if objectID \<noteq> last_changed then
        (let ids = insert objectID ids
         in if split \<and> card ids > MAX_OBJECT_IDS then (ids, r, True)
            else insert_ids split last_changed ids r)
      else insert_ids split last_changed ids r)"

definition containersChanged_run :: "um_state \<Rightarrow> nat \<Rightarrow> um_call \<Rightarrow> um_state" where
  \<comment> \<open>from the lock to its next release\<close>
  "containersChanged_run s t c =
     (let (ids, rest, spin) = insert_ids (uc_split c) (um_lastContainerChanged s) (um_objectIDHash s) (uc_rest c);
          s = s\<lparr>um_objectIDHash := ids\<rparr>
      in if spin then um_notify (s\<lparr>um_calls := (um_calls s)(t \<mapsto> c\<lparr>uc_rest := rest\<rparr>)\<rparr>)
         else (let s = s\<lparr>um_calls := (um_calls s)(t := None)\<rparr>
               in if uc_signal c \<or> card ids \<ge> MAX_OBJECT_IDS then um_notify s else s))"

definition containersChanged :: "um_state \<Rightarrow> nat \<Rightarrow> int list \<Rightarrow> int \<Rightarrow> um_state" where
  "containersChanged s t objectIDs flushPolicy =
     (let signal = (\<not> haveUpdates s \<or> flushPolicy > um_flushPolicy s);
          s = (if flushPolicy > um_flushPolicy s then s\<lparr>um_flushPolicy := flushPolicy\<rparr> else s);
          split = (card (um_objectIDHash s) + length objectIDs
                     \<ge> MAX_OBJECT_IDS + MAX_OBJECT_IDS_OVERLOAD)
      in containersChanged_run s t \<lparr>uc_rest = objectIDs, uc_signal = signal, uc_split = split\<rparr>)"

section \<open>The thread\<close>

definition sleepMillis :: "um_state \<Rightarrow> timespec \<Rightarrow> int" where
  "sleepMillis s now =
     (if um_flushPolicy s = FLUSH_SPEC then SPEC_INTERVAL - getDeltaMillis (um_lastUpdate s) now
      else 0)"

definition sleeps :: "um_state \<Rightarrow> timespec \<Rightarrow> bool" where
  "sleeps s now \<longleftrightarrow> sleepMillis s now \<ge> MIN_SLEEP \<and> card (um_objectIDHash s) < MAX_OBJECT_IDS"

definition sendUpdates :: "(int set \<Rightarrow> zstring result) \<Rightarrow> um_state \<Rightarrow> um_state" where
  \<comment> \<open>\<open>incrementUpdateIDs\<close> is the argument; when it throws the string stays null\<close>
  "sendUpdates incrementUpdateIDs s =
     (let s = s\<lparr>um_lastContainerChanged := NO_OBJECT, um_flushPolicy := FLUSH_SPEC\<rparr>
      in case incrementUpdateIDs (um_objectIDHash s) of
           Inr updateString \<Rightarrow> s\<lparr>um_objectIDHash := {}, um_pc := Um_sending updateString\<rparr>
         | Inl _ \<Rightarrow> s\<lparr>um_pc := Um_sending None\<rparr>)"

inductive um_step :: "(int set \<Rightarrow> zstring result) \<Rightarrow> um_state \<Rightarrow> um_state \<Rightarrow> bool" for inc where
  finish: "um_pc s = Um_loop \<Longrightarrow> um_shutdownFlag s \<Longrightarrow> um_step inc s (s\<lparr>um_pc := Um_done\<rparr>)"
| idle: "um_pc s = Um_loop \<Longrightarrow> \<not> um_shutdownFlag s \<Longrightarrow> \<not> haveUpdates s \<Longrightarrow>
     um_step inc s (s\<lparr>um_pc := Um_wait\<rparr>)"
| sleep: "um_pc s = Um_loop \<Longrightarrow> \<not> um_shutdownFlag s \<Longrightarrow> haveUpdates s \<Longrightarrow> sleeps s now \<Longrightarrow>
     um_step inc s (s\<lparr>um_pc := Um_wait_for\<rparr>)"
| ready: "um_pc s = Um_loop \<Longrightarrow> \<not> um_shutdownFlag s \<Longrightarrow> haveUpdates s \<Longrightarrow> \<not> sleeps s now \<Longrightarrow>
     um_step inc s (sendUpdates inc s)"
| timeout: "um_pc s = Um_wait_for \<Longrightarrow> um_step inc s (s\<lparr>um_pc := Um_loop\<rparr>)"
| woken: "um_pc s = Um_woken \<Longrightarrow> \<not> um_shutdownFlag s \<Longrightarrow> um_step inc s (sendUpdates inc s)"
| woken_shutdown: "um_pc s = Um_woken \<Longrightarrow> um_shutdownFlag s \<Longrightarrow> um_step inc s (s\<lparr>um_pc := Um_loop\<rparr>)"
| sent: "um_pc s = Um_sending z \<Longrightarrow> string_ok z \<Longrightarrow>
     um_step inc s (s\<lparr>um_pc := Um_loop, um_lastUpdate := now\<rparr>)"
| not_sent: "um_pc s = Um_sending z \<Longrightarrow> um_step inc s (s\<lparr>um_pc := Um_loop\<rparr>)"

inductive um_call_step :: "um_state \<Rightarrow> um_state \<Rightarrow> bool" where
  changed: "um_call_step s (containerChanged s objectID flushPolicy)"
| call: "um_calls s t = None \<Longrightarrow> um_call_step s (containersChanged s t objectIDs flushPolicy)"
| resume: "um_calls s t = Some c \<Longrightarrow> card (um_objectIDHash s) \<le> MAX_OBJECT_IDS \<Longrightarrow>
     um_call_step s (containersChanged_run s t c)"
| spin: "um_calls s t = Some c \<Longrightarrow> card (um_objectIDHash s) > MAX_OBJECT_IDS \<Longrightarrow>
     um_call_step s (um_notify s)"
| shutdown: "um_call_step s (um_notify (s\<lparr>um_shutdownFlag := True\<rparr>))"
| spurious: "um_call_step s (um_notify s)"

inductive um_reach :: "(int set \<Rightarrow> zstring result) \<Rightarrow> timespec \<Rightarrow> um_state \<Rightarrow> bool" for inc now where
  start: "um_reach inc now (um_init now)"
| thread: "um_reach inc now s \<Longrightarrow> um_step inc s s' \<Longrightarrow> um_reach inc now s'"
| call: "um_reach inc now s \<Longrightarrow> um_call_step s s' \<Longrightarrow> um_reach inc now s'"

inductive_cases um_stepE: "um_step inc s s'"
inductive_cases um_call_stepE: "um_call_step s s'"

section \<open>No change is lost from the set\<close>

definition um_inv :: "um_state \<Rightarrow> bool" where
  \<comment> \<open>the container that is not inserted again is in the set\<close>
  "um_inv s \<longleftrightarrow> finite (um_objectIDHash s)
     \<and> (um_lastContainerChanged s \<noteq> NO_OBJECT \<longrightarrow> um_lastContainerChanged s \<in> um_objectIDHash s)"

lemma um_notify_fields [simp]:
  "um_objectIDHash (um_notify s) = um_objectIDHash s"
  "um_lastContainerChanged (um_notify s) = um_lastContainerChanged s"
  "um_shutdownFlag (um_notify s) = um_shutdownFlag s"
  "um_flushPolicy (um_notify s) = um_flushPolicy s"
  "um_calls (um_notify s) = um_calls s"
  "um_lastUpdate (um_notify s) = um_lastUpdate s"
  by (simp_all add: um_notify_def split: um_pc.splits)

lemma um_notify_not_waiting [simp]: "um_pc (um_notify s) \<noteq> Um_wait" "um_pc (um_notify s) \<noteq> Um_wait_for"
  by (simp_all add: um_notify_def split: um_pc.splits)

lemma um_inv_fields [simp]:
  "um_inv (s\<lparr>um_pc := pc\<rparr>) = um_inv s" "um_inv (s\<lparr>um_lastUpdate := now\<rparr>) = um_inv s"
  "um_inv (s\<lparr>um_shutdownFlag := f\<rparr>) = um_inv s" "um_inv (um_notify s) = um_inv s"
  by (simp_all add: um_inv_def)

lemma insert_ids_law:
  "insert_ids split lc ids xs = (ids', rest, spin) \<Longrightarrow>
     ids \<subseteq> ids' \<and> ids' \<subseteq> ids \<union> set xs \<and> set xs - {lc} \<subseteq> ids' \<union> set rest
     \<and> set rest \<subseteq> set xs \<and> (finite ids \<longrightarrow> finite ids') \<and> (\<not> spin \<longrightarrow> rest = [])"
proof (induction split lc ids xs rule: insert_ids.induct)
  case (2 split lc ids x xs)
  then show ?case by (auto simp: Let_def split: if_splits)
qed simp

lemma containerChanged_law:
  assumes "um_inv s" "x \<noteq> NO_OBJECT"
  shows "um_objectIDHash (containerChanged s x p) = insert x (um_objectIDHash s)"
  using assms by (auto simp: containerChanged_def um_inv_def Let_def)

lemma containerChanged_inv: "um_inv s \<Longrightarrow> um_inv (containerChanged s x p)"
  by (auto simp: containerChanged_def um_inv_def Let_def)

lemma containersChanged_run_law:
  assumes "um_inv s" "NO_OBJECT \<notin> set (uc_rest c)"
  shows "um_inv (containersChanged_run s t c)"
    and "um_objectIDHash s \<union> set (uc_rest c) = um_objectIDHash (containersChanged_run s t c)
      \<union> (case um_calls (containersChanged_run s t c) t of None \<Rightarrow> {} | Some c' \<Rightarrow> set (uc_rest c'))"
proof -
  obtain ids rest spin where r:
    "insert_ids (uc_split c) (um_lastContainerChanged s) (um_objectIDHash s) (uc_rest c) = (ids, rest, spin)"
    by (metis prod_cases3)
  note l = insert_ids_law [OF r]
  have h: "um_objectIDHash (containersChanged_run s t c) = ids"
    "um_lastContainerChanged (containersChanged_run s t c) = um_lastContainerChanged s"
    "um_calls (containersChanged_run s t c) t = (if spin then Some (c\<lparr>uc_rest := rest\<rparr>) else None)"
    by (simp_all add: containersChanged_run_def r Let_def)
  show "um_inv (containersChanged_run s t c)" using l assms(1) unfolding um_inv_def h by blast
  then show "um_objectIDHash s \<union> set (uc_rest c) = um_objectIDHash (containersChanged_run s t c)
      \<union> (case um_calls (containersChanged_run s t c) t of None \<Rightarrow> {} | Some c' \<Rightarrow> set (uc_rest c'))"
    unfolding h using l assms by (cases spin) (auto simp: um_inv_def)
qed

lemma containersChanged_law:
  assumes "um_inv s" "NO_OBJECT \<notin> set xs"
  shows "um_inv (containersChanged s t xs p)"
    and "um_objectIDHash s \<union> set xs = um_objectIDHash (containersChanged s t xs p)
      \<union> (case um_calls (containersChanged s t xs p) t of None \<Rightarrow> {} | Some c' \<Rightarrow> set (uc_rest c'))"
proof -
  define s1 where "s1 = (if p > um_flushPolicy s then s\<lparr>um_flushPolicy := p\<rparr> else s)"
  have i: "um_inv s1" "um_objectIDHash s1 = um_objectIDHash s" using assms(1) by (simp_all add: s1_def um_inv_def)
  obtain c where c: "containersChanged s t xs p = containersChanged_run s1 t c" "uc_rest c = xs"
    by (simp add: containersChanged_def Let_def s1_def)
  show "um_inv (containersChanged s t xs p)"
    unfolding c by (rule containersChanged_run_law(1)) (use i assms c in simp_all)
  show "um_objectIDHash s \<union> set xs = um_objectIDHash (containersChanged s t xs p)
      \<union> (case um_calls (containersChanged s t xs p) t of None \<Rightarrow> {} | Some c' \<Rightarrow> set (uc_rest c'))"
    using containersChanged_run_law(2) [OF i(1), of c t] assms(2) unfolding c i by simp
qed

lemma sendUpdates_law:
  assumes "um_inv s" "inc (um_objectIDHash s) = Inr z"
  shows "um_inv (sendUpdates inc s) \<and> um_objectIDHash (sendUpdates inc s) = {}
    \<and> um_pc (sendUpdates inc s) = Um_sending z"
  using assms by (simp add: sendUpdates_def um_inv_def)

lemma sendUpdates_error:
  assumes "um_inv s" "inc (um_objectIDHash s) = Inl e"
  shows "um_inv (sendUpdates inc s) \<and> um_objectIDHash (sendUpdates inc s) = um_objectIDHash s"
  using assms by (simp add: sendUpdates_def um_inv_def)

lemma sendUpdates_inv: "um_inv s \<Longrightarrow> um_inv (sendUpdates inc s)"
  by (cases "inc (um_objectIDHash s)") (use sendUpdates_law sendUpdates_error in blast)+

lemma containersChanged_run_inv: "um_inv s \<Longrightarrow> um_inv (containersChanged_run s t c)"
proof -
  assume i: "um_inv s"
  obtain ids rest spin where r:
    "insert_ids (uc_split c) (um_lastContainerChanged s) (um_objectIDHash s) (uc_rest c) = (ids, rest, spin)"
    by (metis prod_cases3)
  have "um_objectIDHash (containersChanged_run s t c) = ids"
    "um_lastContainerChanged (containersChanged_run s t c) = um_lastContainerChanged s"
    by (simp_all add: containersChanged_run_def r Let_def)
  then show ?thesis using insert_ids_law [OF r] i unfolding um_inv_def by auto
qed

lemma um_step_inv: "um_step inc s s' \<Longrightarrow> um_inv s \<Longrightarrow> um_inv s'"
  by (erule um_stepE) (auto intro: sendUpdates_inv)

lemma containersChanged_inv: "um_inv s \<Longrightarrow> um_inv (containersChanged s t xs p)"
  unfolding containersChanged_def Let_def
  by (rule containersChanged_run_inv) (simp add: um_inv_def)

lemma um_call_step_inv: "um_call_step s s' \<Longrightarrow> um_inv s \<Longrightarrow> um_inv s'"
  by (erule um_call_stepE)
     (auto intro: containerChanged_inv containersChanged_inv containersChanged_run_inv)

lemma um_reach_inv: "um_reach inc now s \<Longrightarrow> um_inv s"
proof (induction rule: um_reach.induct)
  case start
  then show ?case by (simp add: um_init_def um_inv_def)
qed (blast intro: um_step_inv um_call_step_inv)+

section \<open>Wake-ups\<close>

definition um_awake :: "um_state \<Rightarrow> bool" where
  \<comment> \<open>the thread does not wait without a timeout while there is something to send\<close>
  "um_awake s \<longleftrightarrow> (um_pc s = Um_wait \<longrightarrow> um_objectIDHash s = {})"

lemma um_notify_awake [simp]: "um_awake (um_notify s)"
  by (simp add: um_awake_def)

lemma containerChanged_awake:
  assumes "um_inv s" "um_awake s"
  shows "um_awake (containerChanged s x p)"
proof (cases "um_pc s = Um_wait")
  case True
  then have "um_objectIDHash s = {}" "\<not> haveUpdates s" using assms(2) by (simp_all add: um_awake_def haveUpdates_def)
  moreover have "um_lastContainerChanged s = NO_OBJECT"
    using assms(1) \<open>um_objectIDHash s = {}\<close> by (auto simp: um_inv_def)
  ultimately show ?thesis using assms(2) by (auto simp: containerChanged_def Let_def)
next
  case False
  then show ?thesis by (auto simp: containerChanged_def Let_def um_awake_def)
qed

lemma containersChanged_awake:
  assumes "um_inv s" "um_awake s"
  shows "um_awake (containersChanged s t xs p)"
proof (cases "um_pc s = Um_wait")
  case True
  then have "\<not> haveUpdates s" using assms(2) by (simp add: um_awake_def haveUpdates_def)
  then show ?thesis by (simp add: containersChanged_def containersChanged_run_def Let_def split: prod.split)
next
  case False
  then show ?thesis
    by (simp add: containersChanged_def containersChanged_run_def Let_def um_awake_def split: prod.split)
qed

text \<open>
  \<open>signal\<close> is computed before \<open>containersChanged\<close> lets go of the lock, so a call
  that went on after the thread emptied the set leaves the rest of its
  containers behind without a signal.
\<close>

lemma insert_ids_until_full:
  assumes "finite ids" "distinct xs" "ids \<inter> set xs = {}" "lc \<notin> set xs"
    "card ids + k = MAX_OBJECT_IDS + 1" "0 < k" "k \<le> length xs"
  shows "insert_ids True lc ids xs = (ids \<union> set (take k xs), drop k xs, True)"
  using assms
proof (induction xs arbitrary: ids k)
  case (Cons x xs)
  obtain j where j: "k = Suc j" using Cons.prems(6) by (cases k) simp_all
  have c: "card (insert x ids) = Suc (card ids)" using Cons.prems by simp
  show ?case
  proof (cases j)
    case 0
    then show ?thesis using Cons.prems c j by simp
  next
    case (Suc i)
    have "insert_ids True lc (insert x ids) xs = (insert x ids \<union> set (take j xs), drop j xs, True)"
      by (rule Cons.IH) (use Cons.prems c j Suc in auto)
    moreover have "\<not> card (insert x ids) > MAX_OBJECT_IDS" using Cons.prems c j Suc by simp
    ultimately show ?thesis using Cons.prems j by (simp add: Let_def)
  qed
qed simp

lemma insert_ids_all:
  assumes "finite ids" "card ids + length xs \<le> MAX_OBJECT_IDS" "lc \<notin> set xs"
  shows "insert_ids split lc ids xs = (ids \<union> set xs, [], False)"
  using assms
proof (induction xs arbitrary: ids)
  case (Cons x xs)
  have c: "card (insert x ids) \<le> Suc (card ids)" using Cons.prems(1) by (simp add: card_insert_if)
  then have "card (insert x ids) \<le> MAX_OBJECT_IDS" using Cons.prems by simp
  then show ?case using Cons c by (simp add: Let_def)
qed simp

lemma forgotten_updates:
  assumes inc: "\<And>ids. \<exists>z. inc ids = Inr z"
  shows "\<exists>s. um_reach inc now s \<and> um_pc s = Um_wait \<and> (\<forall>t. um_calls s t = None)
    \<and> um_objectIDHash s = {1001..1029}"
proof -
  define xs where "xs = [1..1029]"
  define ys where "ys = [1001..1029]"
  have ys: "set ys = {1001..1029}" "length ys = 29" "NO_OBJECT \<notin> set ys"
    unfolding ys_def set_upto length_upto by simp_all
  define c where "c = \<lparr>uc_rest = xs, uc_signal = False, uc_split = True\<rparr>"
  define s1 where "s1 = containerChanged (um_init now) 1030 FLUSH_SPEC"
  define s2 where "s2 = containersChanged s1 0 xs FLUSH_SPEC"
  have s1: "s1 = (um_init now)\<lparr>um_objectIDHash := {1030}, um_lastContainerChanged := 1030\<rparr>"
    by (simp add: s1_def containerChanged_def um_init_def haveUpdates_def um_notify_def Let_def)
  have len: "length xs = 1029" "distinct xs" "1030 \<notin> set xs" by (simp_all add: xs_def)
  have tk: "set (take 1000 xs) = {1..1000}" "drop 1000 xs = ys"
  proof -
    have "xs = [1..1000] @ ys" unfolding xs_def ys_def
      using upto_split2 [of 1 1000 1029] by simp
    then show "set (take 1000 xs) = {1..1000}" "drop 1000 xs = ys" by simp_all
  qed
  have run: "insert_ids True 1030 {1030} xs = ({1030} \<union> {1..1000}, ys, True)"
    using insert_ids_until_full [of "{1030}" xs 1030 1000] len tk by simp
  define s2' where "s2' = s1\<lparr>um_objectIDHash := {1030} \<union> {1..1000},
     um_calls := (um_calls s1)(0 \<mapsto> c\<lparr>uc_rest := ys\<rparr>)\<rparr>"
  have "containersChanged s1 0 xs FLUSH_SPEC = containersChanged_run s1 0 c"
    by (simp add: containersChanged_def s1 um_init_def haveUpdates_def len c_def)
  also have "\<dots> = um_notify s2'"
    using run by (simp add: containersChanged_run_def c_def s1 um_init_def s2'_def Let_def)
  also have "\<dots> = s2'" by (simp add: um_notify_def s2'_def s1 um_init_def)
  finally have s2: "s2 = s2'" by (simp add: s2_def)
  have card: "card ({1030} \<union> {1..1000 :: int}) = 1001" by simp
  obtain z where z: "inc ({1030} \<union> {1..1000}) = Inr z" using inc by blast
  define s3 where "s3 = sendUpdates inc s2"
  define s4 where "s4 = s3\<lparr>um_pc := Um_loop\<rparr>"
  define s5 where "s5 = s4\<lparr>um_pc := Um_wait\<rparr>"
  define s6 where "s6 = containersChanged_run s5 0 (c\<lparr>uc_rest := ys\<rparr>)"
  have pc2: "um_pc s2 = Um_loop" "\<not> um_shutdownFlag s2" "um_objectIDHash s2 = {1030} \<union> {1..1000}"
    by (simp_all add: s2 s2'_def s1 um_init_def)
  have "um_step inc s2 s3"
    unfolding s3_def by (rule um_step.ready [where now = now]) (use pc2 card in \<open>simp_all add: haveUpdates_def sleeps_def\<close>)
  moreover have s3: "um_objectIDHash s3 = {}" "um_pc s3 = Um_sending z" "um_lastContainerChanged s3 = NO_OBJECT"
    "um_calls s3 = um_calls s2" "um_shutdownFlag s3 = um_shutdownFlag s2"
    using z pc2 by (simp_all add: s3_def sendUpdates_def)
  then have "um_step inc s3 s4" unfolding s4_def by (intro um_step.not_sent)
  moreover have "um_step inc s4 s5"
    unfolding s5_def by (rule um_step.idle) (use s3 pc2 in \<open>simp_all add: s4_def haveUpdates_def\<close>)
  moreover have c5: "um_calls s5 0 = Some (c\<lparr>uc_rest := ys\<rparr>)" "um_objectIDHash s5 = {}"
    "um_calls s5 = (um_calls (um_init now))(0 \<mapsto> c\<lparr>uc_rest := ys\<rparr>)"
    "um_lastContainerChanged s5 = NO_OBJECT" "um_pc s5 = Um_wait"
    using s3 by (simp_all add: s5_def s4_def s2 s2'_def s1)
  then have "um_call_step s5 s6" unfolding s6_def by (intro um_call_step.resume) simp_all
  moreover have "um_call_step (um_init now) s1" unfolding s1_def by (rule um_call_step.changed)
  moreover have "um_call_step s1 s2" unfolding s2_def
    by (rule um_call_step.call) (simp add: s1 um_init_def)
  ultimately have "um_reach inc now s6" using um_reach.intros by meson
  moreover have "insert_ids True NO_OBJECT {} ys = ({} \<union> set ys, [], False)"
    by (rule insert_ids_all) (simp_all add: ys)
  then have "s6 = s5\<lparr>um_objectIDHash := {1001..1029}, um_calls := (um_calls s5)(0 := None)\<rparr>"
    using c5 by (simp add: s6_def containersChanged_run_def c_def Let_def ys)
  ultimately show ?thesis using c5 by (intro exI [of _ s6]) (simp add: um_init_def)
qed

lemma forgotten_not_signalled:
  assumes "um_pc s = Um_wait" "um_objectIDHash s = {1001..1029}" "p \<le> um_flushPolicy s"
  shows "um_pc (containerChanged s x p) = Um_wait"
  using assms by (simp add: containerChanged_def haveUpdates_def Let_def card_insert_if)

end
