(* ===== verification/Storage_Cache.thy ===== *)
theory Storage_Cache
  imports Cds_Objects
begin

text \<open>
  The cache of the storage (src/storage/storage_cache.cc, cache_object.cc) and the
  buffer of the INSERT statements that are not executed yet (src/storage/
  sql_storage.cc, with \<open>_addToInsertBuffer\<close> and \<open>_flushInsertBuffer\<close> of
  src/storage/sqlite3/sqlite3_storage.cc). Both hash tables hold references to the
  same cache objects, so these live in a store under addresses; a hash table is a
  list of pairs with different keys.
\<close>

section \<open>Cache objects\<close>

record cache_object =
  co_parentID :: int
  co_refID :: int
  co_knowRefID :: bool
  co_obj :: "cds_object option"
  co_knowNumChildren :: bool
  co_numChildren :: int
  co_objectType :: "32 word"
  co_knowObjectType :: bool
  co_virtualObj :: bool
  co_knowVirtualObj :: bool
  co_location :: zstring

abbreviation LOC_DIR_PREFIX :: char where "LOC_DIR_PREFIX \<equiv> CHR ''D''"
abbreviation LOC_FILE_PREFIX :: char where "LOC_FILE_PREFIX \<equiv> CHR ''F''"
abbreviation LOC_VIRT_PREFIX :: char where "LOC_VIRT_PREFIX \<equiv> CHR ''V''"

definition new_CacheObject :: cache_object where
  "new_CacheObject =
     \<lparr>co_parentID = INVALID_OBJECT_ID, co_refID = INVALID_OBJECT_ID, co_knowRefID = False,
      co_obj = None, co_knowNumChildren = False, co_numChildren = 0, co_objectType = 0,
      co_knowObjectType = False, co_virtualObj = True, co_knowVirtualObj = False, co_location = None\<rparr>"

definition co_setNumChildren :: "cache_object \<Rightarrow> int \<Rightarrow> cache_object" where
  "co_setNumChildren c n = c\<lparr>co_numChildren := n, co_knowNumChildren := True\<rparr>"

definition co_setRefID :: "cache_object \<Rightarrow> int \<Rightarrow> cache_object" where
  "co_setRefID c n = c\<lparr>co_refID := n, co_knowRefID := True\<rparr>"

definition co_setObjectType :: "cache_object \<Rightarrow> 32 word \<Rightarrow> cache_object" where
  "co_setObjectType c t = c\<lparr>co_objectType := t, co_knowObjectType := True\<rparr>"

definition co_setVirtual :: "cache_object \<Rightarrow> bool \<Rightarrow> cache_object" where
  "co_setVirtual c v = c\<lparr>co_virtualObj := v, co_knowVirtualObj := True\<rparr>"

definition addLocationPrefix :: "char \<Rightarrow> zstring \<Rightarrow> zstring" where
  "addLocationPrefix prefix path = z_append (Some [prefix]) path"

definition co_setObject :: "cache_object \<Rightarrow> cds_object \<Rightarrow> cache_object result" where
  "co_setObject c ob =
     bind_result (createObject (o_objectType ob)) (\<lambda>nObj.
     bind_result (copyTo ob nObj) (\<lambda>nObj.
       (let c = c\<lparr>co_obj := Some nObj\<rparr>;
            c = c\<lparr>co_parentID := o_parentID nObj\<rparr>;
            c = co_setRefID c (o_refID nObj);
            c = co_setObjectType c (o_objectType nObj);
            c = co_setVirtual c (o_virt nObj)
        in Inr
          (if IS_CDS_CONTAINER (co_objectType c) then
             c\<lparr>co_location := addLocationPrefix (if o_virt nObj then LOC_VIRT_PREFIX else LOC_FILE_PREFIX)
                              (o_location nObj)\<rparr>
           else if IS_CDS_ITEM (co_objectType c) then
             (if IS_CDS_PURE_ITEM (co_objectType c) then
                c\<lparr>co_location := addLocationPrefix LOC_FILE_PREFIX (o_location nObj)\<rparr>
              else c)
           else c))))"

section \<open>The cache\<close>

record storage_cache =
  sc_objects :: "nat \<Rightarrow> cache_object"     \<comment> \<open>the store\<close>
  sc_maxfill :: nat
  sc_hasBeenFlushed :: bool
  sc_idHash :: "(int \<times> nat) list"
  sc_locationHash :: "(string \<times> nat list) list"

definition new_StorageCache :: storage_cache where
  "new_StorageCache = \<lparr>sc_objects = (\<lambda>_. new_CacheObject), sc_maxfill = 9973, sc_hasBeenFlushed = False,
     sc_idHash = [], sc_locationHash = []\<rparr>"

definition sc_clear :: "storage_cache \<Rightarrow> storage_cache" where
  "sc_clear c = c\<lparr>sc_idHash := [], sc_locationHash := []\<rparr>"

definition sc_getObject :: "storage_cache \<Rightarrow> int \<Rightarrow> nat option" where
  "sc_getObject c id' = map_of (sc_idHash c) id'"

definition sc_ensureFillLevelOk :: "storage_cache \<Rightarrow> storage_cache" where
  "sc_ensureFillLevelOk c =
     (if length (sc_idHash c) \<ge> sc_maxfill c \<or> length (sc_locationHash c) \<ge> sc_maxfill c
      then c\<lparr>sc_hasBeenFlushed := True, sc_idHash := [], sc_locationHash := []\<rparr> else c)"

definition sc_getObjectDefinitely :: "storage_cache \<Rightarrow> nat \<Rightarrow> int \<Rightarrow> nat \<times> storage_cache" where
  \<comment> \<open>the second argument is the address a new object would get\<close>
  "sc_getObjectDefinitely c new id' =
     (case map_of (sc_idHash c) id' of
        Some a \<Rightarrow> (a, c)
      | None \<Rightarrow>
          (let c = sc_ensureFillLevelOk c
           in (new, c\<lparr>sc_objects := (sc_objects c)(new := new_CacheObject),
                      sc_idHash := (id', new) # sc_idHash c\<rparr>)))"

definition sc_addChild :: "storage_cache \<Rightarrow> int \<Rightarrow> storage_cache" where
  "sc_addChild c id' =
     (case map_of (sc_idHash c) id' of
        None \<Rightarrow> c
      | Some a \<Rightarrow>
          (let ob = sc_objects c a
           in if co_knowNumChildren ob then
                c\<lparr>sc_objects := (sc_objects c)(a := co_setNumChildren ob (co_numChildren ob + 1))\<rparr>
              else c))"

definition sc_removeObject :: "storage_cache \<Rightarrow> int \<Rightarrow> bool \<times> storage_cache" where
  "sc_removeObject c id' =
     (case sc_getObject c id' of
        None \<Rightarrow> (False, c)
      | Some a \<Rightarrow>
          (let c = (case co_location (sc_objects c a) of
                      None \<Rightarrow> c
                    | Some l \<Rightarrow> c\<lparr>sc_locationHash := filter (\<lambda>(k, _). k \<noteq> cstr l) (sc_locationHash c)\<rparr>)
           in (True, c\<lparr>sc_idHash := filter (\<lambda>(k, _). k \<noteq> id') (sc_idHash c)\<rparr>)))"

definition sc_getObjects :: "storage_cache \<Rightarrow> string \<Rightarrow> nat list option" where
  "sc_getObjects c location = map_of (sc_locationHash c) (cstr location)"

definition sc_checkLocation :: "storage_cache \<Rightarrow> nat \<Rightarrow> storage_cache" where
  "sc_checkLocation c a =
     (case co_location (sc_objects c a) of
        None \<Rightarrow> c
      | Some l \<Rightarrow>
          (case map_of (sc_locationHash c) (cstr l) of
             Some objects \<Rightarrow>
               if a \<in> set objects then c
               else c\<lparr>sc_locationHash :=
                 map (\<lambda>(k, v). (k, if k = cstr l then v @ [a] else v)) (sc_locationHash c)\<rparr>
           | None \<Rightarrow> c\<lparr>sc_locationHash := (cstr l, [a]) # sc_locationHash c\<rparr>))"

definition sc_flushed :: "storage_cache \<Rightarrow> bool \<times> storage_cache" where
  "sc_flushed c = (if \<not> sc_hasBeenFlushed c then (False, c) else (True, c\<lparr>sc_hasBeenFlushed := False\<rparr>))"

section \<open>The buffer of the statements\<close>

record sql_state =
  ss_cache :: "storage_cache option"
  ss_insertBufferOn :: bool
  ss_insertBufferEmpty :: bool
  ss_insertBufferStatementCount :: nat
  ss_insertBufferByteCount :: nat
  ss_insertBuffer :: "string option"
  ss_executed :: "string list"     \<comment> \<open>what \<open>exec\<close> was called with\<close>

definition exec_sql :: "sql_state \<Rightarrow> string \<Rightarrow> sql_state" where
  "exec_sql st q = st\<lparr>ss_executed := ss_executed st @ [q]\<rparr>"

definition sqlite_addToInsertBuffer :: "sql_state \<Rightarrow> string \<Rightarrow> sql_state" where
  "sqlite_addToInsertBuffer st query =
     (let b = (case ss_insertBuffer st of None \<Rightarrow> ''BEGIN TRANSACTION;'' | Some b \<Rightarrow> b)
      in st\<lparr>ss_insertBuffer := Some (b @ query @ '';'')\<rparr>)"

definition sqlite_flushInsertBuffer :: "sql_state \<Rightarrow> sql_state" where
  "sqlite_flushInsertBuffer st =
     (case ss_insertBuffer st of
        None \<Rightarrow> st
      | Some b \<Rightarrow> (exec_sql st (b @ ''COMMIT;''))\<lparr>ss_insertBuffer := Some ''BEGIN TRANSACTION;''\<rparr>)"

definition flushInsertBuffer :: "sql_state \<Rightarrow> sql_state" where
  "flushInsertBuffer st =
     (if \<not> ss_insertBufferOn st then st
      else if ss_insertBufferEmpty st then st
      else (sqlite_flushInsertBuffer st)
             \<lparr>ss_insertBufferEmpty := True, ss_insertBufferStatementCount := 0,
              ss_insertBufferByteCount := 0\<rparr>)"

definition addToInsertBuffer :: "sql_state \<Rightarrow> string \<Rightarrow> sql_state result" where
  "addToInsertBuffer st query =
     (if \<not> ss_insertBufferOn st then Inl Abort
      else
        (let st = (sqlite_addToInsertBuffer st query)
                    \<lparr>ss_insertBufferEmpty := False,
                     ss_insertBufferStatementCount := ss_insertBufferStatementCount st + 1,
                     ss_insertBufferByteCount := ss_insertBufferByteCount st + length query\<rparr>
         in Inr (if ss_insertBufferByteCount st > 102400 then flushInsertBuffer st else st)))"

definition flush_if :: "bool \<Rightarrow> sql_state \<Rightarrow> sql_state" where
  \<comment> \<open>\<open>if (cache->flushed()) flushInsertBuffer();\<close>\<close>
  "flush_if b st = (if b then flushInsertBuffer st else st)"

definition addObjectToCache :: "sql_state \<Rightarrow> nat \<Rightarrow> cds_object \<Rightarrow> sql_state result" where
  "addObjectToCache st new ob =
     (case ss_cache st of
        None \<Rightarrow> Inr st
      | Some c \<Rightarrow>
          (let (a, c) = sc_getObjectDefinitely c new (o_id ob);
               (fl, c) = sc_flushed c;
               st = flush_if fl st
           in bind_result (co_setObject (sc_objects c a) ob) (\<lambda>co.
                Inr (st\<lparr>ss_cache := Some (sc_checkLocation (c\<lparr>sc_objects := (sc_objects c)(a := co)\<rparr>) a)\<rparr>))))"

fun insert_queries :: "sql_state \<Rightarrow> string list \<Rightarrow> sql_state result" where
  \<comment> \<open>the INSERT statements of \<open>addObject\<close>, executed or buffered\<close>
  "insert_queries st [] = Inr st"
| "insert_queries st (q # r) =
     (if \<not> ss_insertBufferOn st then insert_queries (exec_sql st q) r
      else bind_result (addToInsertBuffer st q) (\<lambda>st. insert_queries st r))"

definition cache_added :: "sql_state \<Rightarrow> nat \<Rightarrow> cds_object \<Rightarrow> sql_state result" where
  \<comment> \<open>the last part of \<open>addObject\<close>\<close>
  "cache_added st new ob =
     (case ss_cache st of
        None \<Rightarrow> Inr st
      | Some c \<Rightarrow>
          (let c = sc_addChild c (o_parentID ob); (fl, c) = sc_flushed c
           in addObjectToCache (flush_if fl (st\<lparr>ss_cache := Some c\<rparr>)) new ob))"

section \<open>What the cache keeps\<close>

definition sc_inv :: "storage_cache \<Rightarrow> bool" where
  "sc_inv c \<longleftrightarrow> distinct (map fst (sc_idHash c)) \<and> distinct (map fst (sc_locationHash c))
     \<and> length (sc_idHash c) \<le> sc_maxfill c \<and> 0 < sc_maxfill c"

lemma sc_inv_objects [simp]: "sc_inv (c\<lparr>sc_objects := f\<rparr>) = sc_inv c"
  by (simp add: sc_inv_def)

lemma new_StorageCache_inv: "sc_inv new_StorageCache"
  by (simp add: sc_inv_def new_StorageCache_def)

lemma sc_clear_inv: "sc_inv c \<Longrightarrow> sc_inv (sc_clear c)"
  by (simp add: sc_inv_def sc_clear_def)

lemma sc_flushed_inv: "sc_inv c \<Longrightarrow> sc_inv (snd (sc_flushed c))"
  by (simp add: sc_inv_def sc_flushed_def)

lemma sc_addChild_inv: "sc_inv c \<Longrightarrow> sc_inv (sc_addChild c i)"
  by (simp add: sc_addChild_def Let_def split: option.split)

lemma sc_getObjectDefinitely_inv:
  assumes "sc_inv c"
  shows "sc_inv (snd (sc_getObjectDefinitely c new i))"
  using assms
  by (auto simp: sc_getObjectDefinitely_def sc_ensureFillLevelOk_def sc_inv_def Let_def map_of_eq_None_iff
      split: option.split)

lemma distinct_filter_fst: "distinct (map fst xs) \<Longrightarrow> distinct (map fst (filter P xs))"
  by (rule distinct_map_filter)

lemma sc_removeObject_inv:
  assumes "sc_inv c"
  shows "sc_inv (snd (sc_removeObject c i))"
proof -
  have i: "distinct (map fst (filter P (sc_idHash c)))" "length (filter P (sc_idHash c)) \<le> sc_maxfill c"
    "0 < sc_maxfill c" for P
    using assms distinct_filter_fst order_trans [OF length_filter_le [of P "sc_idHash c"]]
    unfolding sc_inv_def by blast+
  have l: "distinct (map fst (sc_locationHash c))" "distinct (map fst (filter P (sc_locationHash c)))" for P
    using assms distinct_filter_fst by (auto simp: sc_inv_def)
  show ?thesis
  proof (cases "sc_getObject c i")
    case None
    then show ?thesis using assms by (simp add: sc_removeObject_def)
  next
    case (Some a)
    then show ?thesis using i l
      by (cases "co_location (sc_objects c a)") (simp_all add: sc_removeObject_def sc_inv_def Let_def)
  qed
qed

lemma fst_update: "map fst (map (\<lambda>(k, v). (k, f k v)) xs) = map fst xs"
  by (induction xs) auto

lemma sc_checkLocation_inv:
  assumes "sc_inv c"
  shows "sc_inv (sc_checkLocation c a)"
proof (cases "co_location (sc_objects c a)")
  case None
  then show ?thesis using assms by (simp add: sc_checkLocation_def)
next
  case (Some l)
  show ?thesis
  proof (cases "map_of (sc_locationHash c) (cstr l)")
    case None
    then have "cstr l \<notin> fst ` set (sc_locationHash c)" by (simp add: map_of_eq_None_iff)
    then show ?thesis using assms None Some by (simp add: sc_checkLocation_def sc_inv_def)
  next
    case k: (Some as)
    then show ?thesis
      using assms Some fst_update [of "\<lambda>k v. if k = cstr l then v @ [a] else v" "sc_locationHash c"]
      by (simp add: sc_checkLocation_def sc_inv_def del: map_map)
  qed
qed

lemma map_of_filter_key:
  "map_of (filter (\<lambda>(k, _). k \<noteq> i) xs) j = (if j = i then None else map_of xs j)"
  by (induction xs) auto

lemma sc_removeObject_law:
  assumes "sc_removeObject c i = (b, c')"
  shows "b \<longleftrightarrow> sc_getObject c i \<noteq> None"
    and "sc_getObject c' j = (if j = i then None else sc_getObject c j)"
proof -
  show "b \<longleftrightarrow> sc_getObject c i \<noteq> None"
    using assms by (auto simp: sc_removeObject_def Let_def split: option.splits)
  show "sc_getObject c' j = (if j = i then None else sc_getObject c j)"
    using assms
    by (cases "map_of (sc_idHash c) i")
       (auto simp: sc_removeObject_def sc_getObject_def Let_def map_of_filter_key split: option.splits)
qed

lemma map_of_update:
  "map_of (map (\<lambda>(k, v). (k, f k v)) xs) j = map_option (f j) (map_of xs j)"
  by (induction xs) auto

text \<open>After \<open>checkLocation\<close> the object is found under its location, and nothing else moved.\<close>

lemma sc_checkLocation_law:
  assumes "co_location (sc_objects c a) = Some l"
  shows "\<exists>as. sc_getObjects (sc_checkLocation c a) l = Some as \<and> a \<in> set as
      \<and> (\<forall>as0. sc_getObjects c l = Some as0 \<longrightarrow> set as = insert a (set as0))"
    and "cstr k \<noteq> cstr l \<Longrightarrow> sc_getObjects (sc_checkLocation c a) k = sc_getObjects c k"
  using assms
  by (auto simp: sc_checkLocation_def sc_getObjects_def map_of_update option.map_ident
      split: option.splits)

lemma sc_checkLocation_other [simp]:
  "sc_idHash (sc_checkLocation c a) = sc_idHash c"
  "sc_objects (sc_checkLocation c a) = sc_objects c"
  "sc_hasBeenFlushed (sc_checkLocation c a) = sc_hasBeenFlushed c"
  by (simp_all add: sc_checkLocation_def split: option.split)

lemma co_setObject_law:
  assumes "cds_inv ob"
  shows "\<exists>c' ob'. co_setObject c ob = Inr c' \<and> co_obj c' = Some ob' \<and> cds_equals ob ob' exactly = Inr True
    \<and> co_parentID c' = o_parentID ob' \<and> co_refID c' = o_refID ob' \<and> co_objectType c' = o_objectType ob'
    \<and> co_virtualObj c' = o_virt ob' \<and> co_knowRefID c' \<and> co_knowObjectType c' \<and> co_knowVirtualObj c'
    \<and> co_numChildren c' = co_numChildren c \<and> co_knowNumChildren c' = co_knowNumChildren c"
proof -
  obtain f f' where "createObject (o_objectType ob) = Inr f" "copyTo ob f = Inr f'"
    "cds_equals ob f' exactly = Inr True"
    using clone_via_factory [OF assms] by blast
  then show ?thesis
    by (simp add: co_setObject_def Let_def co_setRefID_def co_setObjectType_def co_setVirtual_def)
qed

section \<open>What the buffer holds\<close>

definition transaction :: "string list \<Rightarrow> string" where
  "transaction qs = ''BEGIN TRANSACTION;'' @ concat (map (\<lambda>q. q @ '';'') qs)"

definition holds_queries :: "sql_state \<Rightarrow> string list \<Rightarrow> bool" where
  \<comment> \<open>the statements that were given to the buffer and are not executed yet\<close>
  "holds_queries st qs \<longleftrightarrow> ss_insertBufferEmpty st = (qs = [])
     \<and> ss_insertBufferStatementCount st = length qs
     \<and> ss_insertBufferByteCount st = sum_list (map length qs)
     \<and> (ss_insertBuffer st = Some (transaction qs) \<or> ss_insertBuffer st = None \<and> qs = [])"

lemma transaction_simps [simp]:
  "transaction [] = ''BEGIN TRANSACTION;''"
  "transaction (qs @ [q]) = transaction qs @ q @ '';''"
  by (simp_all add: transaction_def)

lemma flushInsertBuffer_law:
  assumes "holds_queries st qs" "ss_insertBufferOn st"
  shows "holds_queries (flushInsertBuffer st) []
    \<and> ss_executed (flushInsertBuffer st)
        = ss_executed st @ (if qs = [] then [] else [transaction qs @ ''COMMIT;''])
    \<and> ss_insertBufferOn (flushInsertBuffer st) \<and> ss_cache (flushInsertBuffer st) = ss_cache st"
proof (cases "qs = []")
  case True
  then show ?thesis using assms by (simp add: flushInsertBuffer_def holds_queries_def)
next
  case False
  then have "ss_insertBuffer st = Some (transaction qs)" "\<not> ss_insertBufferEmpty st"
    using assms by (simp_all add: holds_queries_def)
  then show ?thesis using assms(2) False
    by (simp add: flushInsertBuffer_def sqlite_flushInsertBuffer_def exec_sql_def holds_queries_def)
qed

lemma addToInsertBuffer_law:
  assumes "holds_queries st qs" "ss_insertBufferOn st"
  shows "\<exists>st'. addToInsertBuffer st q = Inr st' \<and> ss_insertBufferOn st' \<and> ss_cache st' = ss_cache st
    \<and> ss_insertBufferByteCount st' \<le> 102400
    \<and> (holds_queries st' (qs @ [q]) \<and> ss_executed st' = ss_executed st
       \<or> holds_queries st' [] \<and> ss_executed st' = ss_executed st @ [transaction (qs @ [q]) @ ''COMMIT;''])"
proof -
  define st1 where "st1 = (sqlite_addToInsertBuffer st q)
                    \<lparr>ss_insertBufferEmpty := False,
                     ss_insertBufferStatementCount := ss_insertBufferStatementCount st + 1,
                     ss_insertBufferByteCount := ss_insertBufferByteCount st + length q\<rparr>"
  have h: "holds_queries st1 (qs @ [q])" "ss_insertBufferOn st1" "ss_cache st1 = ss_cache st"
    "ss_executed st1 = ss_executed st"
    using assms by (auto simp: st1_def sqlite_addToInsertBuffer_def holds_queries_def Let_def
        split: option.split)
  have a: "addToInsertBuffer st q
      = Inr (if ss_insertBufferByteCount st1 > 102400 then flushInsertBuffer st1 else st1)"
    using assms(2) by (simp add: addToInsertBuffer_def st1_def sqlite_addToInsertBuffer_def Let_def)
  show ?thesis
  proof (cases "ss_insertBufferByteCount st1 > 102400")
    case True
    note f = flushInsertBuffer_law [OF h(1,2)]
    then have "ss_insertBufferByteCount (flushInsertBuffer st1) = 0" by (simp add: holds_queries_def)
    then show ?thesis using True a f h by simp
  next
    case False
    then show ?thesis using a h by simp
  qed
qed

section \<open>A statement that waits is answered from the cache\<close>

definition knows :: "storage_cache \<Rightarrow> int \<Rightarrow> bool" where
  \<comment> \<open>\<open>loadObject\<close> does not ask the database\<close>
  "knows c i \<longleftrightarrow> (\<exists>a. sc_getObject c i = Some a \<and> co_obj (sc_objects c a) \<noteq> None)"

lemma knows_addChild: "knows c j \<Longrightarrow> knows (sc_addChild c i) j"
  by (auto simp: knows_def sc_addChild_def sc_getObject_def co_setNumChildren_def Let_def split: option.split)

lemma knows_flushed [simp]: "knows (snd (sc_flushed c)) j = knows c j"
  by (simp add: knows_def sc_flushed_def sc_getObject_def)

lemma knows_getObjectDefinitely:
  assumes "knows c j" "new \<notin> snd ` set (sc_idHash c)"
    "sc_getObjectDefinitely c new i = (a, c')"
  shows "knows c' j \<or> sc_hasBeenFlushed c'"
proof -
  obtain b where b: "map_of (sc_idHash c) j = Some b" "co_obj (sc_objects c b) \<noteq> None"
    using assms(1) by (auto simp: knows_def sc_getObject_def)
  then have "b \<noteq> new" using assms(2) by (metis image_eqI map_of_SomeD snd_conv)
  then show ?thesis using assms(3) b
    by (auto simp: sc_getObjectDefinitely_def knows_def sc_getObject_def sc_ensureFillLevelOk_def Let_def
        split: option.splits if_splits)
qed

lemma getObjectDefinitely_finds:
  "sc_getObjectDefinitely c new i = (a, c') \<Longrightarrow> sc_getObject c' i = Some a"
  by (auto simp: sc_getObjectDefinitely_def sc_getObject_def Let_def split: option.splits)

text \<open>
  The last part of \<open>addObject\<close>: whatever statement is still in the buffer, its
  object is in the cache. The statements name the object they insert by \<open>qid\<close>.
\<close>

lemma addObjectToCache_knows:
  assumes c: "ss_cache st = Some c" and new: "new \<notin> snd ` set (sc_idHash c)" and ob: "cds_inv ob"
    and q: "holds_queries st qs" "ss_insertBufferOn st"
    and k: "\<forall>q \<in> set qs. qid q = o_id ob \<or> knows c (qid q)"
  shows "\<exists>st' c' qs'. addObjectToCache st new ob = Inr st' \<and> ss_cache st' = Some c'
    \<and> holds_queries st' qs' \<and> set qs' \<subseteq> set qs \<and> ss_insertBufferOn st'
    \<and> (\<forall>q \<in> set qs'. knows c' (qid q)) \<and> knows c' (o_id ob)"
proof -
  obtain a c1 where d: "sc_getObjectDefinitely c new (o_id ob) = (a, c1)" by fastforce
  obtain fl c2 where f: "sc_flushed c1 = (fl, c2)" by fastforce
  have fl: "fl = sc_hasBeenFlushed c1" "c2 = snd (sc_flushed c1)" using f by (auto simp: sc_flushed_def split: if_splits)
  obtain co x where co: "co_setObject (sc_objects c2 a) ob = Inr co" "co_obj co = Some x"
    using co_setObject_law [OF ob] by blast
  define c3 where "c3 = sc_checkLocation (c2\<lparr>sc_objects := (sc_objects c2)(a := co)\<rparr>) a"
  define st' where "st' = (flush_if fl st)\<lparr>ss_cache := Some c3\<rparr>"
  define qs' where "qs' = (if fl then [] else qs)"
  have r: "addObjectToCache st new ob = Inr st'"
    using c d f co by (simp add: addObjectToCache_def Let_def st'_def c3_def)
  have h: "holds_queries st' qs'" "ss_insertBufferOn st'"
    using flushInsertBuffer_law [OF q] q
    by (auto simp: st'_def qs'_def flush_if_def holds_queries_def)
  have "sc_getObject c2 (o_id ob) = Some a"
    using getObjectDefinitely_finds [OF d] fl(2) by (simp add: sc_getObject_def sc_flushed_def)
  then have me: "knows c3 (o_id ob)"
    using co(2) by (simp add: knows_def c3_def sc_getObject_def)
  have keep: "knows c3 j" if "knows c1 j" for j
  proof -
    have "knows c2 j" using that fl(2) by simp
    then show ?thesis using co(2) by (auto simp: knows_def c3_def sc_getObject_def)
  qed
  have "knows c3 (qid q)" if "q \<in> set qs'" for q
  proof -
    have n: "\<not> fl" "q \<in> set qs" using that by (auto simp: qs'_def split: if_splits)
    show ?thesis
    proof (cases "qid q = o_id ob")
      case True
      then show ?thesis using me by simp
    next
      case False
      then have "knows c1 (qid q)"
        using k n knows_getObjectDefinitely [OF _ new d] fl(1) by blast
      then show ?thesis by (rule keep)
    qed
  qed
  then show ?thesis using r h me
    by (intro exI [of _ st'] exI [of _ c3] exI [of _ qs']) (auto simp: st'_def qs'_def)
qed

lemma cache_added_knows:
  assumes c: "ss_cache st = Some c" and new: "new \<notin> snd ` set (sc_idHash c)" and ob: "cds_inv ob"
    and q: "holds_queries st qs" "ss_insertBufferOn st"
    and k: "\<forall>q \<in> set qs. qid q = o_id ob \<or> knows c (qid q)"
  shows "\<exists>st' c' qs'. cache_added st new ob = Inr st' \<and> ss_cache st' = Some c'
    \<and> holds_queries st' qs' \<and> set qs' \<subseteq> set qs \<and> ss_insertBufferOn st'
    \<and> (\<forall>q \<in> set qs'. knows c' (qid q)) \<and> knows c' (o_id ob)"
proof -
  obtain fl c1 where f: "sc_flushed (sc_addChild c (o_parentID ob)) = (fl, c1)" by fastforce
  then have c1: "c1 = snd (sc_flushed (sc_addChild c (o_parentID ob)))" by simp
  define st1 where "st1 = flush_if fl (st\<lparr>ss_cache := Some c1\<rparr>)"
  define qs1 where "qs1 = (if fl then [] else qs)"
  have q': "holds_queries (st\<lparr>ss_cache := Some c1\<rparr>) qs" "ss_insertBufferOn (st\<lparr>ss_cache := Some c1\<rparr>)"
    using q by (simp_all add: holds_queries_def)
  have h: "holds_queries st1 qs1" "ss_insertBufferOn st1" "ss_cache st1 = Some c1"
    using flushInsertBuffer_law [OF q'] q' by (auto simp: st1_def qs1_def flush_if_def)
  have "sc_idHash c1 = sc_idHash c"
    by (simp add: c1 sc_flushed_def sc_addChild_def Let_def split: option.split)
  then have new1: "new \<notin> snd ` set (sc_idHash c1)" using new by simp
  have k1: "\<forall>q \<in> set qs1. qid q = o_id ob \<or> knows c1 (qid q)"
    using k knows_addChild by (auto simp: c1 qs1_def)
  have "cache_added st new ob = addObjectToCache st1 new ob"
    using c f by (simp add: cache_added_def Let_def st1_def)
  moreover have "set qs1 \<subseteq> set qs" by (simp add: qs1_def)
  ultimately show ?thesis
    using addObjectToCache_knows [OF h(3) new1 ob h(1,2) k1] by fastforce
qed

lemma insert_queries_law:
  assumes "holds_queries st qs" "ss_insertBufferOn st"
  shows "\<exists>st' qs'. insert_queries st new = Inr st' \<and> holds_queries st' qs' \<and> ss_insertBufferOn st'
    \<and> ss_cache st' = ss_cache st \<and> set qs' \<subseteq> set qs \<union> set new"
  using assms
proof (induction new arbitrary: st qs)
  case (Cons q new)
  obtain st1 qs1 where s: "addToInsertBuffer st q = Inr st1" "ss_insertBufferOn st1" "ss_cache st1 = ss_cache st"
    "holds_queries st1 qs1" "set qs1 \<subseteq> set qs \<union> {q}"
    using addToInsertBuffer_law [OF Cons.prems, of q] by fastforce
  from Cons.IH [OF s(4,2)] show ?case using s Cons.prems by fastforce
qed auto

section \<open>Locations the cache gets wrong\<close>

text \<open>
  A container of the file system is looked up with the prefix of a directory,
  but the cache files it under the prefix of a file.
\<close>

lemma cached_directory_location:
  assumes "o_part ob = CdsContainer p" "o_objectType ob = OBJECT_TYPE_CONTAINER" "\<not> o_virt ob"
    "o_location ob = Some l" "co_setObject c ob = Inr c'"
  shows "co_location c' = addLocationPrefix LOC_FILE_PREFIX (Some l)
    \<and> co_location c' \<noteq> addLocationPrefix LOC_DIR_PREFIX (Some l)"
  using assms
  by (auto simp: co_setObject_def createObject_def IS_CDS_defs copyTo_def object_copyTo_def Let_def
      bind_result_Inr_iff co_setRefID_def co_setObjectType_def co_setVirtual_def new_Cds_defs
      addLocationPrefix_def z_append_def cstr_def split: if_splits)

text \<open>
  An update that changes the location of an object leaves it in the bucket of the
  old one.
\<close>

definition empty_sql_state :: sql_state where
  "empty_sql_state = \<lparr>ss_cache = Some new_StorageCache, ss_insertBufferOn = True, ss_insertBufferEmpty = True,
     ss_insertBufferStatementCount = 0, ss_insertBufferByteCount = 0, ss_insertBuffer = None,
     ss_executed = []\<rparr>"

definition item_at :: "int \<Rightarrow> string \<Rightarrow> cds_object" where
  "item_at i l = new_CdsItem\<lparr>o_id := i, o_location := Some l\<rparr>"

lemma stale_location:
  "bind_result (addObjectToCache empty_sql_state 1 (item_at 5 ''/a'')) (\<lambda>st.
   bind_result (addObjectToCache st 2 (item_at 5 ''/b'')) (\<lambda>st.
     Inr (map_option (\<lambda>c. (sc_getObjects c ''F/a'', sc_getObjects c ''F/b'', co_location (sc_objects c 1)))
            (ss_cache st))))
   = Inr (Some (Some [1], Some [1], Some ''F/b''))"
  by (simp add: empty_sql_state_def item_at_def addObjectToCache_def new_StorageCache_def
      sc_getObjectDefinitely_def sc_ensureFillLevelOk_def sc_flushed_def flush_if_def co_setObject_def
      createObject_def IS_CDS_defs new_Cds_defs copyTo_def item_copyTo_def object_copyTo_def Let_def
      co_setRefID_def co_setObjectType_def co_setVirtual_def addLocationPrefix_def z_append_def cstr_def
      sc_checkLocation_def sc_getObjects_def the_item_def set_item_def d_clone_def new_item_part_def
      new_CacheObject_def)

lemma empty_sql_state_holds [simp]: "holds_queries empty_sql_state []"
  by (simp add: holds_queries_def empty_sql_state_def)

end
