(* ===== verification/Sql_Objects.thy ===== *)
theory Sql_Objects
  imports Storage_Cache
begin

text \<open>
  How the storage writes a media object into its table and reads it back
  (src/storage/sql_storage.cc: \<open>_addUpdateObject\<close>, \<open>checkRefID\<close>,
  \<open>createObjectFromRow\<close>; the quoting of src/storage/sqlite3). The statement an
  object becomes is a dictionary from columns to SQL literals. What the database
  makes of a literal is the documented meaning of SQLite's string and numeric
  literals and of \<open>%q\<close>; other objects, the file system tree and the rest of the
  tables are arguments.
\<close>

unbundle bit_operations_syntax

section \<open>Literals\<close>

abbreviation QUOTE :: char where "QUOTE \<equiv> CHR 0x27"
abbreviation SQL_NULL :: zstring where "SQL_NULL \<equiv> Some ''NULL''"

definition double_quotes :: "string \<Rightarrow> string" where
  "double_quotes s = concat (map (\<lambda>c. if c = QUOTE then [c, c] else [c]) s)"

definition sql_quote :: "zstring \<Rightarrow> zstring" where
  "sql_quote value = Some ([QUOTE] @ double_quotes (cstr (case value of None \<Rightarrow> '''' | Some s \<Rightarrow> s)) @ [QUOTE])"

definition sql_int :: "int \<Rightarrow> zstring" where
  "sql_int val = Some (show_int val)"

definition sql_uint :: "32 word \<Rightarrow> zstring" where
  "sql_uint val = Some (show_nat (unat val))"

fun single_quotes :: "string \<Rightarrow> string" where
  "single_quotes [] = []"
| "single_quotes [c] = [c]"
| "single_quotes (c # d # r) = (if c = QUOTE \<and> d = QUOTE then c # single_quotes r else c # single_quotes (d # r))"

definition literal_value :: "zstring \<Rightarrow> zstring" where
  \<comment> \<open>the text of the column after the literal was stored\<close>
  "literal_value z =
     (case z of
        None \<Rightarrow> None
      | Some s \<Rightarrow>
          if s = ''NULL'' then None
          else if s \<noteq> [] \<and> hd s = QUOTE then Some (single_quotes (butlast (tl s)))
          else Some s)"

abbreviation OBJECT_FLAG_USE_RESOURCE_REF :: "32 word" where "OBJECT_FLAG_USE_RESOURCE_REF \<equiv> 0x4"
abbreviation OBJECT_FLAG_PLAYLIST_REF :: "32 word" where "OBJECT_FLAG_PLAYLIST_REF \<equiv> 0x10"
abbreviation OBJECT_FLAG_ONLINE_SERVICE :: "32 word" where "OBJECT_FLAG_ONLINE_SERVICE \<equiv> 0x40"
abbreviation RESOURCE_SEP :: char where "RESOURCE_SEP \<equiv> CHR ''|''"

section \<open>From the object to the columns\<close>

definition checkRefID ::
  "(int \<Rightarrow> cds_object option result) \<Rightarrow> (zstring \<Rightarrow> cds_object option result) \<Rightarrow> cds_object
    \<Rightarrow> cds_object option result" where
  "checkRefID loadObject findObjectByPath ob =
     (if \<not> o_virt ob then Inl (Throw ''checkRefID called for a non-virtual object'')
      else if \<not> string_ok (o_location ob) then Inl (Throw ''tried to check refID without a location set'')
      else if o_refID ob > 0 then
        (case loadObject (o_refID ob) of
           Inl Abort \<Rightarrow> Inl Abort
         | Inl (Throw _) \<Rightarrow> Inl (Throw ''illegal refID was set'')
         | Inr (Some refObj) \<Rightarrow>
             if z_eq (o_location refObj) (o_location ob) then Inr (Some refObj)
             else findObjectByPath (o_location ob)
         | Inr None \<Rightarrow> findObjectByPath (o_location ob))
      else findObjectByPath (o_location ob))"

definition find_reference ::
  "(int \<Rightarrow> cds_object option result) \<Rightarrow> (zstring \<Rightarrow> cds_object option result) \<Rightarrow> cds_object
    \<Rightarrow> (cds_object option \<times> bool \<times> bool) result" where
  \<comment> \<open>the first part of \<open>_addUpdateObject\<close>: \<open>refObj\<close>, \<open>hasReference\<close>, \<open>playlistRef\<close>\<close>
  "find_reference loadObject findObjectByPath ob =
     (let objectType = o_objectType ob; playlistRef = (getFlag ob OBJECT_FLAG_PLAYLIST_REF \<noteq> 0)
      in if playlistRef then
           (if IS_CDS_PURE_ITEM objectType then
              Inl (Throw ''tried to add pure item with PLAYLIST_REF flag set'')
            else if o_refID ob \<le> 0 then Inl (Throw ''PLAYLIST_REF flag set but refId is <=0'')
            else bind_result (loadObject (o_refID ob)) (\<lambda>refObj.
              if refObj = None then
                Inl (Throw (''PLAYLIST_REF flag set but refId doesn'' @ [QUOTE] @ ''t point to an existing object''))
              else Inr (refObj, False, True)))
         else if o_virt ob \<and> IS_CDS_PURE_ITEM objectType then
           bind_result (checkRefID loadObject findObjectByPath ob) (\<lambda>refObj.
             if refObj = None then
               Inl (Throw ''tried to add or update a virtual object with illegal reference id and an illegal location'')
             else Inr (refObj, True, False))
         else if o_refID ob > 0 then
           (if getFlag ob OBJECT_FLAG_ONLINE_SERVICE \<noteq> 0 then
              bind_result (loadObject (o_refID ob)) (\<lambda>refObj.
                if refObj = None then
                  Inl (Throw (''OBJECT_FLAG_ONLINE_SERVICE and refID set but refID doesn'' @ [QUOTE] @ ''t point to an existing object''))
                else Inr (refObj, True, False))
            else if IS_CDS_CONTAINER objectType then Inr (None, False, False)
            else Inl (Throw ''refId set, but it makes no sense''))
         else Inr (None, False, False))"

definition put_col :: "string \<Rightarrow> zstring \<Rightarrow> dictionary \<Rightarrow> dictionary" where
  "put_col column value d = d_put d (Some column) value"

definition common_columns :: "cds_object \<Rightarrow> cds_object option \<Rightarrow> bool \<Rightarrow> bool \<Rightarrow> bool \<Rightarrow> dictionary" where
  \<comment> \<open>object type, reference, class, title, metadata and auxdata\<close>
  "common_columns ob refObj hasReference playlistRef isUpdate =
     (let d = put_col ''object_type'' (sql_int (sint (o_objectType ob))) [];
          d = (if hasReference \<or> playlistRef then put_col ''ref_id'' (sql_int (o_id (the refObj))) d
               else if isUpdate then put_col ''ref_id'' SQL_NULL d else d);
          d = (if \<not> hasReference \<or> \<not> z_eq (o_upnpClass (the refObj)) (o_upnpClass ob) then
                 put_col ''upnp_class'' (sql_quote (o_upnpClass ob)) d
               else if isUpdate then put_col ''upnp_class'' SQL_NULL d else d);
          d = put_col ''dc_title'' (sql_quote (o_title ob)) d;
          d = (if isUpdate then put_col ''metadata'' SQL_NULL d else d);
          d = (if d_size (o_metadata ob) > 0
                  \<and> (\<not> hasReference \<or> \<not> d_equals (o_metadata (the refObj)) (o_metadata ob)) then
                 put_col ''metadata'' (sql_quote (d_encode (o_metadata ob))) d else d);
          d = (if isUpdate then put_col ''auxdata'' SQL_NULL d else d)
      in if d_size (o_auxdata ob) > 0
            \<and> (\<not> hasReference \<or> \<not> d_equals (o_auxdata (the refObj)) (o_auxdata ob)) then
           put_col ''auxdata'' (sql_quote (d_encode (o_auxdata ob))) d
         else d)"

definition encode_resources :: "cds_resource list \<Rightarrow> string" where
  "encode_resources rs = join RESOURCE_SEP (map (\<lambda>r. the (r_encode r)) rs)"

definition resource_columns :: "cds_object \<Rightarrow> cds_object option \<Rightarrow> bool \<Rightarrow> bool \<Rightarrow> dictionary \<Rightarrow> dictionary" where
  "resource_columns ob refObj hasReference isUpdate d =
     (if \<not> hasReference \<or> getFlag ob OBJECT_FLAG_USE_RESOURCE_REF = 0 \<and> \<not> resourcesEqual (the refObj) ob then
        (let resStr = Some (encode_resources (o_resources ob))
         in if string_ok resStr then put_col ''resources'' (sql_quote resStr) d
            else put_col ''resources'' SQL_NULL d)
      else if isUpdate then put_col ''resources'' SQL_NULL d
      else d)"

definition put_location :: "zstring \<Rightarrow> dictionary \<Rightarrow> dictionary" where
  "put_location dbLocation d =
     put_col ''location_hash'' (sql_uint (stringHash (the dbLocation)))
       (put_col ''location'' (sql_quote dbLocation) d)"

definition item_location ::
  "(zstring \<Rightarrow> int result) \<Rightarrow> cds_object \<Rightarrow> bool \<Rightarrow> bool \<Rightarrow> dictionary \<Rightarrow> (cds_object \<times> dictionary) result" where
  "item_location ensurePathExistence ob hasReference isUpdate d =
     (if \<not> hasReference then
        (let loc = o_location ob
         in if \<not> string_ok loc then
              Inl (Throw ''tried to create or update a non-referenced item without a location set'')
            else if IS_CDS_PURE_ITEM (o_objectType ob) then
              bind_result (split_path loc) (\<lambda>pathAr.
              bind_result (ensurePathExistence (Some (pathAr ! 0))) (\<lambda>parentID.
                Inr (ob\<lparr>o_parentID := parentID\<rparr>, put_location (addLocationPrefix LOC_FILE_PREFIX loc) d)))
            else Inr (ob, put_col ''location_hash'' SQL_NULL (put_col ''location'' (sql_quote loc) d)))
      else Inr (ob, if isUpdate then put_col ''location_hash'' SQL_NULL (put_col ''location'' SQL_NULL d) else d))"

definition item_columns ::
  "cds_object \<Rightarrow> item_part \<Rightarrow> item_part option \<Rightarrow> bool \<Rightarrow> bool \<Rightarrow> dictionary \<Rightarrow> dictionary" where
  \<comment> \<open>track number, service ID and MIME type; the third argument is the reference as an item\<close>
  "item_columns ob i ref_item hasReference isUpdate d =
     (let d = (if i_trackNumber i > 0 then put_col ''track_number'' (sql_int (i_trackNumber i)) d
               else if isUpdate then put_col ''track_number'' SQL_NULL d else d);
          d = (if string_ok (i_serviceID i) then
                 (if \<not> hasReference \<or> \<not> z_eq (i_serviceID (the ref_item)) (i_serviceID i) then
                    put_col ''service_id'' (sql_quote (i_serviceID i)) d
                  else put_col ''service_id'' SQL_NULL d)
               else if isUpdate then put_col ''service_id'' SQL_NULL d else d)
      in put_col ''mime_type'' (sql_quote (i_mimeType i)) d)"

definition container_columns :: "cds_object \<Rightarrow> bool \<Rightarrow> dictionary \<Rightarrow> dictionary result" where
  "container_columns ob isUpdate d =
     (if \<not> (isUpdate \<and> o_virt ob) then
        Inl (Throw ''tried to add a container or tried to update a non-virtual container via _addUpdateObject; is this correct?'')
      else Inr (put_location (addLocationPrefix LOC_VIRT_PREFIX (o_location ob)) d))"

definition active_columns :: "cds_object \<Rightarrow> zstring \<Rightarrow> zstring \<Rightarrow> dictionary" where
  "active_columns ob action st =
     put_col ''state'' (sql_quote st) (put_col ''action'' (sql_quote action)
       (put_col ''id'' (z_from (o_id ob)) []))"

definition columns_of ::
  "(zstring \<Rightarrow> int result) \<Rightarrow> (int \<Rightarrow> int \<Rightarrow> zstring \<Rightarrow> bool) \<Rightarrow> cds_object \<Rightarrow> bool
    \<Rightarrow> cds_object option \<times> bool \<times> bool
    \<Rightarrow> (cds_object \<times> dictionary \<times> dictionary option) option result" where
  \<comment> \<open>\<open>_addUpdateObject\<close> once the reference is found: the object with the members that are set,
      the columns of the object table and of the table of the active items; \<open>None\<close> for a
      duplicate\<close>
  "columns_of ensurePathExistence duplicate ob isUpdate = (\<lambda>(refObj, hasReference, playlistRef).
       let objectType = o_objectType ob;
           d = common_columns ob refObj hasReference playlistRef isUpdate;
           d = resource_columns ob refObj hasReference isUpdate d;
           ob = clearFlag ob OBJECT_FLAG_USE_RESOURCE_REF;
           d = put_col ''flags'' (sql_uint (o_objectFlags ob)) d
       in bind_result (if IS_CDS_CONTAINER objectType then container_columns ob isUpdate d else Inr d) (\<lambda>d.
          bind_result
            (if IS_CDS_ITEM objectType then
               bind_result (item_location ensurePathExistence ob hasReference isUpdate d) (\<lambda>(ob, d).
                 case the_item ob of
                   None \<Rightarrow> Inl Abort
                 | Some i \<Rightarrow>
                     if hasReference \<and> string_ok (i_serviceID i) \<and> the_item (the refObj) = None then Inl Abort
                     else Inr (ob, item_columns ob i (Option.bind refObj the_item) hasReference isUpdate d))
             else Inr (ob, d)) (\<lambda>(ob, d).
          bind_result
            (if IS_CDS_ACTIVE_ITEM objectType then
               (case o_part ob of
                  CdsActiveItem _ action st \<Rightarrow> Inr (Some (active_columns ob action st))
                | _ \<Rightarrow> Inl Abort)
             else Inr None) (\<lambda>active.
          if hasReference \<and> \<not> isUpdate \<and> duplicate (o_parentID ob) (o_id (the refObj)) (o_title ob) then
            Inr None
          else if o_parentID ob = INVALID_OBJECT_ID then
            Inl (Throw ''tried to create or update an object with an illegal parent id'')
          else Inr (Some (ob, put_col ''parent_id'' (z_from (o_parentID ob)) d, active))))))"

definition addUpdateObject ::
  "(int \<Rightarrow> cds_object option result) \<Rightarrow> (zstring \<Rightarrow> cds_object option result) \<Rightarrow> (zstring \<Rightarrow> int result)
    \<Rightarrow> (int \<Rightarrow> int \<Rightarrow> zstring \<Rightarrow> bool) \<Rightarrow> cds_object \<Rightarrow> bool
    \<Rightarrow> (cds_object \<times> dictionary \<times> dictionary option) option result" where
  "addUpdateObject loadObject findObjectByPath ensurePathExistence duplicate ob isUpdate =
     bind_result (find_reference loadObject findObjectByPath ob)
       (columns_of ensurePathExistence duplicate ob isUpdate)"

section \<open>From the row to the object\<close>

definition select_columns :: "(bool \<times> string) list" where
  \<comment> \<open>the columns of \<open>SELECT_DATA\<close> in order; the flag marks those of the referenced object\<close>
  "select_columns =
     map (Pair False) [''id'', ''ref_id'', ''parent_id'', ''object_type'', ''upnp_class'', ''dc_title'',
       ''location'', ''location_hash'', ''metadata'', ''auxdata'', ''resources'', ''update_id'',
       ''mime_type'', ''flags'', ''track_number'', ''service_id'']
     @ map (Pair True) [''upnp_class'', ''location'', ''metadata'', ''auxdata'', ''resources'',
       ''mime_type'', ''service_id'']"

abbreviation col_id :: nat where "col_id \<equiv> 0"
abbreviation col_ref_id :: nat where "col_ref_id \<equiv> 1"
abbreviation col_parent_id :: nat where "col_parent_id \<equiv> 2"
abbreviation col_object_type :: nat where "col_object_type \<equiv> 3"
abbreviation col_upnp_class :: nat where "col_upnp_class \<equiv> 4"
abbreviation col_dc_title :: nat where "col_dc_title \<equiv> 5"
abbreviation col_location :: nat where "col_location \<equiv> 6"
abbreviation col_metadata :: nat where "col_metadata \<equiv> 8"
abbreviation col_auxdata :: nat where "col_auxdata \<equiv> 9"
abbreviation col_resources :: nat where "col_resources \<equiv> 10"
abbreviation col_update_id :: nat where "col_update_id \<equiv> 11"
abbreviation col_mime_type :: nat where "col_mime_type \<equiv> 12"
abbreviation col_flags :: nat where "col_flags \<equiv> 13"
abbreviation col_track_number :: nat where "col_track_number \<equiv> 14"
abbreviation col_service_id :: nat where "col_service_id \<equiv> 15"
abbreviation col_ref_upnp_class :: nat where "col_ref_upnp_class \<equiv> 16"
abbreviation col_ref_location :: nat where "col_ref_location \<equiv> 17"
abbreviation col_ref_metadata :: nat where "col_ref_metadata \<equiv> 18"
abbreviation col_ref_auxdata :: nat where "col_ref_auxdata \<equiv> 19"
abbreviation col_ref_resources :: nat where "col_ref_resources \<equiv> 20"
abbreviation col_ref_mime_type :: nat where "col_ref_mime_type \<equiv> 21"
abbreviation col_ref_service_id :: nat where "col_ref_service_id \<equiv> 22"
abbreviation col_as_persistent :: nat where "col_as_persistent \<equiv> 23"

type_synonym sql_row = "nat \<Rightarrow> zstring"

definition select_row :: "(string \<Rightarrow> zstring) \<Rightarrow> (string \<Rightarrow> zstring) \<Rightarrow> zstring \<Rightarrow> sql_row" where
  \<comment> \<open>the row of an object, of the one it refers to, and of its autoscan entry, joined\<close>
  "select_row f rf persistent n =
     (if n < 23 then (let (r, c) = select_columns ! n in if r then rf c else f c) else persistent)"

definition remapBool :: "zstring \<Rightarrow> bool" where
  "remapBool field \<longleftrightarrow> string_ok field \<and> z_eq field (Some ''1'')"

definition stripLocationPrefix :: "zstring \<Rightarrow> zstring result" where
  "stripLocationPrefix path = (case path of None \<Rightarrow> Inr None | Some _ \<Rightarrow> z_substring_from path 1)"

definition locationPrefix :: "zstring \<Rightarrow> char" where
  "locationPrefix path = (case path of None \<Rightarrow> CHR ''X'' | Some s \<Rightarrow> byte_at s 0)"

definition z_toUInt :: "zstring \<Rightarrow> 32 word" where
  "z_toUInt z = word_of_int (z_toLong z)"

fun decode_resources :: "string list \<Rightarrow> cds_resource list result" where
  "decode_resources [] = Inr []"
| "decode_resources (s # r) =
     bind_result (r_decode (Some s)) (\<lambda>x. bind_result (decode_resources r) (\<lambda>xs. Inr (x # xs)))"

definition row_common :: "sql_row \<Rightarrow> 32 word \<Rightarrow> cds_object \<Rightarrow> (cds_object \<times> bool) result" where
  \<comment> \<open>the common properties; the flag is \<open>resource_zero_ok\<close>\<close>
  "row_common row objectType ob =
     (let ob = ob\<lparr>o_id := z_toInt (row col_id), o_refID := z_toInt (row col_ref_id),
                 o_parentID := z_toInt (row col_parent_id), o_title := row col_dc_title,
                 o_upnpClass := fallbackString (row col_upnp_class) (row col_ref_upnp_class),
                 o_objectFlags := z_toUInt (row col_flags),
                 o_metadata := d_decode [] (fallbackString (row col_metadata) (row col_ref_metadata)),
                 o_auxdata := d_decode [] (fallbackString (row col_auxdata) (row col_ref_auxdata))\<rparr>;
          resources_str = fallbackString (row col_resources) (row col_ref_resources);
          pieces = (if string_ok resources_str then split_string resources_str RESOURCE_SEP False else [])
      in bind_result (decode_resources pieces) (\<lambda>rs.
           Inr (ob\<lparr>o_resources := o_resources ob @ rs,
                   o_virt := (o_refID ob \<noteq> 0 \<and> IS_CDS_PURE_ITEM objectType
                     \<or> IS_CDS_ITEM objectType \<and> \<not> IS_CDS_PURE_ITEM objectType)\<rparr>, pieces \<noteq> [])))"

definition row_container :: "sql_row \<Rightarrow> cds_object \<Rightarrow> cds_object result" where
  "row_container row ob =
     (case o_part ob of
        CdsContainer c \<Rightarrow>
          bind_result (stripLocationPrefix (row col_location)) (\<lambda>location.
            (let p = row col_as_persistent;
                 autoscanType = (if string_ok p then (if remapBool p then 2 else 1) else 0)
             in Inr (ob\<lparr>o_location := location,
                        o_virt := (locationPrefix (row col_location) = LOC_VIRT_PREFIX \<or> o_virt ob),
                        o_part := CdsContainer (c\<lparr>c_updateID := z_toInt (row col_update_id),
                                                  c_autoscanType := autoscanType\<rparr>)\<rparr>)))
      | _ \<Rightarrow> Inl Abort)"

definition row_item :: "sql_row \<Rightarrow> 32 word \<Rightarrow> bool \<Rightarrow> cds_object \<Rightarrow> cds_object result" where
  "row_item row objectType resource_zero_ok ob =
     (if \<not> resource_zero_ok then Inl (Throw ''tried to create object without at least one resource'')
      else case the_item ob of
        None \<Rightarrow> Inl Abort
      | Some i \<Rightarrow>
          bind_result
            (if IS_CDS_PURE_ITEM objectType then
               (if \<not> o_virt ob then stripLocationPrefix (row col_location)
                else stripLocationPrefix (row col_ref_location))
             else Inr (fallbackString (row col_location) (row col_ref_location))) (\<lambda>location.
            Inr (set_item (ob\<lparr>o_location := location\<rparr>)
              (i\<lparr>i_mimeType := fallbackString (row col_mime_type) (row col_ref_mime_type),
                 i_trackNumber := z_toInt (row col_track_number),
                 i_serviceID := (if string_ok (row col_ref_service_id) then row col_ref_service_id
                                 else row col_service_id)\<rparr>))))"

definition row_active :: "(int \<Rightarrow> (zstring \<times> zstring) option) \<Rightarrow> cds_object \<Rightarrow> cds_object result" where
  \<comment> \<open>the argument is the row of the table of the active items\<close>
  "row_active active ob =
     (case o_part ob of
        CdsActiveItem i _ _ \<Rightarrow>
          (case active (o_id ob) of
             Some (action, st) \<Rightarrow> Inr (ob\<lparr>o_part := CdsActiveItem i action st\<rparr>)
           | None \<Rightarrow> Inl (Throw ''Active Item in cds_objects, but not in cds_active_item''))
      | _ \<Rightarrow> Inl Abort)"

definition createObjectFromRow ::
  "(int \<Rightarrow> (zstring \<times> zstring) option) \<Rightarrow> sql_row \<Rightarrow> cds_object result" where
  \<comment> \<open>up to \<open>addObjectToCache\<close>\<close>
  "createObjectFromRow active row =
     (let objectType = word_of_int (z_toInt (row col_object_type)) :: 32 word
      in bind_result (createObject objectType) (\<lambda>ob.
         bind_result (row_common row objectType ob) (\<lambda>(ob, resource_zero_ok).
         bind_result (if IS_CDS_CONTAINER objectType then row_container row ob else Inr ob) (\<lambda>ob.
         bind_result (if IS_CDS_ITEM objectType then row_item row objectType resource_zero_ok ob else Inr ob) (\<lambda>ob.
         bind_result (if IS_CDS_ACTIVE_ITEM objectType then row_active active ob else Inr ob) (\<lambda>ob.
           if \<not> (IS_CDS_CONTAINER objectType \<or> IS_CDS_ITEM objectType \<or> IS_CDS_ACTIVE_ITEM objectType) then
             Inl (Throw (''unknown object type: '' @ show_int (sint objectType)))
           else Inr ob))))))"

section \<open>What the database keeps\<close>

definition column_default :: "string \<Rightarrow> zstring" where
  \<comment> \<open>the defaults of the table in config/sqlite3.sql\<close>
  "column_default c =
     (if c = ''parent_id'' \<or> c = ''update_id'' then Some ''0''
      else if c = ''flags'' then Some ''1'' else None)"

definition stored_row :: "int \<Rightarrow> dictionary \<Rightarrow> string \<Rightarrow> zstring" where
  \<comment> \<open>the row after an INSERT of the columns with the generated ID\<close>
  "stored_row new_id d c =
     (if c = ''id'' then sql_int new_id
      else case d_get d (Some c) of None \<Rightarrow> column_default c | Some l \<Rightarrow> literal_value (Some l))"

lemma single_quotes_plain: "c \<noteq> QUOTE \<Longrightarrow> single_quotes (c # s) = c # single_quotes s"
  by (cases s) simp_all

lemma single_double [simp]: "single_quotes (double_quotes s) = s"
  by (induction s) (simp_all add: double_quotes_def single_quotes_plain)

lemma literal_value_quote: "literal_value (sql_quote v) = Some (cstr (case v of None \<Rightarrow> [] | Some s \<Rightarrow> s))"
  by (simp add: literal_value_def sql_quote_def)

lemma literal_value_quote_Some [simp]: "nul_free s \<Longrightarrow> literal_value (sql_quote (Some s)) = Some s"
  by (simp add: literal_value_quote)

lemma show_int_hd: "hd (show_int i) = CHR ''-'' \<or> is_digit (hd (show_int i))"
  using show_nat_Cons [of "nat i"] by (auto simp: show_int_def)

lemma literal_value_int [simp]: "literal_value (sql_int i) = Some (show_int i)"
proof -
  have "hd (show_int i) \<noteq> QUOTE" "hd (show_int i) \<noteq> CHR ''N''" using show_int_hd [of i]
    by (auto simp: is_digit_def)
  moreover from this have "show_int i \<noteq> ''NULL''" by auto
  ultimately show ?thesis by (simp add: literal_value_def sql_int_def)
qed

lemma sql_uint_int: "sql_uint w = sql_int (uint w)"
  by (simp add: sql_uint_def sql_int_def show_int_def)

lemma literal_value_NULL [simp]: "literal_value SQL_NULL = None"
  by (simp add: literal_value_def)

lemma get_put_col:
  assumes "nul_free c" "nul_free k"
  shows "d_get (put_col c v d) (Some k) = (if c = k then v else d_get d (Some k))"
  using assms by (simp add: put_col_def d_get_put z_eq_def)

lemma z_toInt_show [simp]: "- (2 ^ 31) \<le> i \<Longrightarrow> i < 2 ^ 31 \<Longrightarrow> z_toInt (Some (show_int i)) = i"
  using z_toInt_from [of i] by (simp add: z_from_def)

lemma z_toUInt_show: "z_toUInt (Some (show_int (uint (w :: 32 word)))) = w"
proof -
  have b: "0 \<le> uint w" "uint w < 2 ^ 32" using uint_lt2p [of w] by simp_all
  have "strtol (show_int (uint w) @ []) = (uint w, [])"
    by (rule strtol_in_show_int) (use b in \<open>simp_all add: order_trans [of _ "0 :: int"]\<close>)
  then have t: "z_toLong (Some (show_int (uint w))) = to_int32 (uint w)" by (simp add: z_toLong_def)
  have "uint (word_of_int (to_int32 (uint w)) :: 32 word) = to_int32 (uint w) mod 2 ^ 32"
    by (simp add: uint_word_of_int)
  also have "\<dots> = uint w mod 2 ^ 32" unfolding to_int32_def by (simp add: mod_simps)
  also have "\<dots> = uint w" using b by simp
  finally show ?thesis by (simp add: z_toUInt_def t word_uint_eq_iff)
qed

section \<open>Reading back what was written\<close>

definition r_plain :: "cds_resource \<Rightarrow> bool" where
  "r_plain r \<longleftrightarrow> d_plain (r_attributes r) \<and> d_plain (r_parameters r) \<and> d_plain (r_options r)
     \<and> - (2 ^ 31) \<le> r_handlerType r \<and> r_handlerType r < 2 ^ 31"

lemma r_encode_chars:
  assumes "r_encode r = Some e"
  shows "RESOURCE_SEP \<notin> set e \<and> nul_free e \<and> e \<noteq> []"
proof -
  have d: "RESOURCE_SEP \<notin> set (the (d_encode d))" for d
    using d_encode_chars [of RESOURCE_SEP d] by (auto simp: url_char_def url_safe_def)
  have h: "RESOURCE_SEP \<notin> set (show_int (r_handlerType r))"
    using set_show_int [of RESOURCE_SEP "r_handlerType r"] by (auto simp: is_digit_def)
  have e: "e = show_int (r_handlerType r) @ [RESOURCE_PART_SEP] @ the (d_encode (r_attributes r))
       @ [RESOURCE_PART_SEP] @ the (d_encode (r_parameters r))
       @ [RESOURCE_PART_SEP] @ the (d_encode (r_options r))" using assms by (simp add: r_encode_def)
  show ?thesis unfolding e using d h d_encode_part(2) by simp
qed

lemma decode_encode_resources:
  assumes "\<forall>r \<in> set rs. r_inv r \<and> r_plain r"
  shows "decode_resources (map (\<lambda>r. the (r_encode r)) rs) = Inr rs"
  using assms
proof (induction rs)
  case (Cons r rs)
  have s: "Some (the (r_encode r)) = r_encode r" by (simp add: r_encode_def)
  have "r_decode (Some (the (r_encode r))) = Inr r"
    unfolding s using Cons.prems by (intro r_decode_encode) (simp_all add: r_plain_def)
  then show ?case using Cons by simp
qed simp

lemma split_resources:
  assumes "rs \<noteq> []"
  shows "split_string (Some (encode_resources rs)) RESOURCE_SEP False = map (\<lambda>r. the (r_encode r)) rs"
    and "string_ok (Some (encode_resources rs))" "nul_free (encode_resources rs)"
proof -
  have e: "RESOURCE_SEP \<notin> set (the (r_encode r)) \<and> nul_free (the (r_encode r)) \<and> the (r_encode r) \<noteq> []" for r
  proof (rule r_encode_chars)
    show "r_encode r = Some (the (r_encode r))" by (simp add: r_encode_def)
  qed
  show n: "nul_free (encode_resources rs)" unfolding encode_resources_def
    by (rule nul_free_join) (use e in auto)
  have p: "pieces RESOURCE_SEP (encode_resources rs) = map (\<lambda>r. the (r_encode r)) rs"
    unfolding encode_resources_def by (rule pieces_join) (use assms e in auto)
  have "filter (\<lambda>f. f \<noteq> []) (map (\<lambda>r. the (r_encode r)) rs) = map (\<lambda>r. the (r_encode r)) rs"
    by (rule filter_True) (use e in auto)
  then show "split_string (Some (encode_resources rs)) RESOURCE_SEP False = map (\<lambda>r. the (r_encode r)) rs"
    using split_string_pieces [OF n, of RESOURCE_SEP] p by simp
  have "encode_resources rs \<noteq> []"
  proof
    assume "encode_resources rs = []"
    then have "[[]] = map (\<lambda>r. the (r_encode r)) rs" using p by simp
    then obtain r where "[] = the (r_encode r)" by (cases rs) auto
    then show False using e [of r] by simp
  qed
  then show "string_ok (Some (encode_resources rs))" using n by (simp add: cstring_simps)
qed

lemmas column_simps = get_put_col stored_row_def if_distrib [of "\<lambda>d. d_get d _"]

definition plain_item :: "cds_object \<Rightarrow> item_part \<Rightarrow> bool" where
  \<comment> \<open>a file with all texts present and all numbers in range\<close>
  "plain_item ob i \<longleftrightarrow> cds_inv ob \<and> o_part ob = CdsItem i \<and> \<not> o_virt ob \<and> o_refID ob \<le> 0
     \<and> getFlag ob OBJECT_FLAG_PLAYLIST_REF = 0
     \<and> (\<exists>t. o_title ob = Some t \<and> nul_free t) \<and> (\<exists>c. o_upnpClass ob = Some c \<and> nul_free c)
     \<and> (\<exists>l. o_location ob = Some l \<and> nul_free l \<and> l \<noteq> []) \<and> (\<exists>m. i_mimeType i = Some m \<and> nul_free m)
     \<and> (i_serviceID i = None \<or> (\<exists>s. i_serviceID i = Some s \<and> nul_free s \<and> s \<noteq> []))
     \<and> 0 \<le> i_trackNumber i \<and> i_trackNumber i < 2 ^ 31
     \<and> d_plain (o_metadata ob) \<and> d_plain (o_auxdata ob)
     \<and> o_resources ob \<noteq> [] \<and> (\<forall>r \<in> set (o_resources ob). r_plain r)"

definition item_row_columns :: "cds_object \<Rightarrow> item_part \<Rightarrow> int \<Rightarrow> dictionary" where
  \<comment> \<open>the columns of a new file that refers to no other object\<close>
  "item_row_columns ob i parentID =
     put_col ''parent_id'' (z_from parentID) (item_columns ob i None False False
       (put_location (addLocationPrefix LOC_FILE_PREFIX (o_location ob))
         (put_col ''flags'' (sql_uint (o_objectFlags ob AND NOT OBJECT_FLAG_USE_RESOURCE_REF))
           (resource_columns ob None False False (common_columns ob None False False False)))))"

lemma find_reference_plain:
  assumes "plain_item ob i"
  shows "find_reference loadObject findObjectByPath ob = Inr (None, False, False)"
proof -
  have "o_objectType ob = OBJECT_TYPE_ITEM"
    using assms by (simp add: plain_item_def cds_inv_def class_type_def)
  then show ?thesis
    using assms by (simp add: find_reference_def plain_item_def Let_def IS_CDS_defs)
qed

lemma addUpdateObject_plain:
  assumes "plain_item ob i"
    and "addUpdateObject loadObject findObjectByPath ensurePathExistence duplicate ob False
      = Inr (Some (ob', d, active))"
  shows "ob' = (clearFlag ob OBJECT_FLAG_USE_RESOURCE_REF)\<lparr>o_parentID := o_parentID ob'\<rparr>
    \<and> d = item_row_columns ob i (o_parentID ob') \<and> active = None
    \<and> (\<exists>pa. split_path (o_location ob) = Inr pa \<and> ensurePathExistence (Some (pa ! 0)) = Inr (o_parentID ob'))"
proof -
  have t: "o_objectType ob = OBJECT_TYPE_ITEM"
    using assms(1) by (simp add: plain_item_def cds_inv_def class_type_def)
  have l: "string_ok (o_location ob)" using assms(1) by (auto simp: plain_item_def cstring_simps)
  have r: "find_reference loadObject findObjectByPath ob = Inr (None, False, False)"
    using assms(1) by (rule find_reference_plain)
  let ?ob = "clearFlag ob OBJECT_FLAG_USE_RESOURCE_REF"
  have ty: "\<not> IS_CDS_CONTAINER OBJECT_TYPE_ITEM" "IS_CDS_ITEM OBJECT_TYPE_ITEM"
    "IS_CDS_PURE_ITEM OBJECT_TYPE_ITEM" "\<not> IS_CDS_ACTIVE_ITEM OBJECT_TYPE_ITEM"
    by (simp_all add: IS_CDS_defs)
  have cl: "o_objectType ?ob = o_objectType ob" "o_location ?ob = o_location ob" "o_part ?ob = CdsItem i"
    "o_objectFlags ?ob = o_objectFlags ob AND NOT OBJECT_FLAG_USE_RESOURCE_REF"
    using assms(1) by (simp_all add: clearFlag_def plain_item_def)
  have it: "the_item (?ob\<lparr>o_parentID := p\<rparr>) = Some i" for p using cl by (simp add: the_item_def)
  let ?D = "put_col ''flags'' (sql_uint (o_objectFlags ob AND NOT OBJECT_FLAG_USE_RESOURCE_REF))
           (resource_columns ob None False False (common_columns ob None False False False))"
  let ?L = "put_location (addLocationPrefix LOC_FILE_PREFIX (o_location ob)) ?D"
  have il: "item_location ensurePathExistence ?ob False False ?D
    = bind_result (split_path (o_location ob)) (\<lambda>pathAr.
      bind_result (ensurePathExistence (Some (pathAr ! 0))) (\<lambda>p. Inr (?ob\<lparr>o_parentID := p\<rparr>, ?L)))"
    using cl ty l t by (simp add: item_location_def Let_def)
  have e: "addUpdateObject loadObject findObjectByPath ensurePathExistence duplicate ob False
    = bind_result (item_location ensurePathExistence ?ob False False ?D) (\<lambda>(ob, d).
        case the_item ob of
          None \<Rightarrow> Inl Abort
        | Some i \<Rightarrow>
            if o_parentID ob = INVALID_OBJECT_ID then
              Inl (Throw ''tried to create or update an object with an illegal parent id'')
            else Inr (Some (ob, put_col ''parent_id'' (z_from (o_parentID ob))
                             (item_columns ob i None False False d), None)))"
    unfolding addUpdateObject_def columns_of_def r bind_result_simps prod.case Let_def t cl(4)
    by (cases "item_location ensurePathExistence ?ob False False ?D")
       (simp_all add: ty split: prod.split option.split)
  show ?thesis
  proof (cases "split_path (o_location ob)")
    case (Inr pa)
    show ?thesis
    proof (cases "ensurePathExistence (Some (pa ! 0))")
      case p: (Inr p)
      have "item_columns (?ob\<lparr>o_parentID := p\<rparr>) i None False False ?L = item_columns ob i None False False ?L"
        by (simp add: item_columns_def)
      then have "ob' = ?ob\<lparr>o_parentID := p\<rparr>" "active = None"
        "d = put_col ''parent_id'' (z_from p) (item_columns ob i None False False ?L)"
        using assms(2) e il Inr p it [of p] by (auto split: if_splits)
      then show ?thesis using Inr p by (simp add: item_row_columns_def)
    qed (use assms(2) e il Inr in simp)
  qed (use assms(2) e il in simp)
qed

lemma string_ok_encode: "\<not> string_ok (Some (encode_resources []))"
  by (simp add: encode_resources_def cstring_simps)

lemma d_decode_literal:
  assumes "d_inv d" "d_plain d"
  shows "d_decode [] (fallbackString (literal_value (sql_quote (d_encode d))) v) = d"
proof -
  have "nul_free (the (d_encode d))" "d_encode d = Some (the (d_encode d))"
    using d_encode_part(2) by (simp_all add: d_encode_def d_encode_sep_def)
  then have "literal_value (sql_quote (d_encode d)) = d_encode d"
    by (metis literal_value_quote_Some)
  then show ?thesis using d_decode_encode [OF assms]
    by (simp add: fallbackString_def z_eq_def d_encode_def d_encode_sep_def)
qed

lemma stripLocationPrefix_add:
  assumes "nul_free l" "nul_free [c]"
  shows "stripLocationPrefix (addLocationPrefix c (Some l)) = Inr (Some l)"
proof -
  have e: "addLocationPrefix c (Some l) = Some (c # l)"
    using assms by (simp add: addLocationPrefix_def z_append_def cstr_def nul_free_def takeWhile_eq_all_conv)
       (metis)
  have "z_substring (Some (c # l)) 1 (int (length (c # l)) - 1) = Inr (Some (take (length l) (drop 1 (c # l))))"
    using z_substring_Some [of "c # l" 1 "int (length l)"] assms by simp
  then show ?thesis by (simp add: e stripLocationPrefix_def z_substring_from_def)
qed

text \<open>The columns of a new file, as the database gives them back.\<close>

lemma stored_item:
  fixes new_id :: int
  assumes "plain_item ob i" "- (2 ^ 31) \<le> p" "p < 2 ^ 31"
  defines "row \<equiv> stored_row new_id (item_row_columns ob i p)"
  shows "row ''id'' = sql_int new_id" "row ''object_type'' = Some (show_int 2)" "row ''ref_id'' = None"
    "row ''parent_id'' = Some (show_int p)" "row ''dc_title'' = o_title ob"
    "row ''upnp_class'' = o_upnpClass ob" "row ''mime_type'' = i_mimeType i"
    "row ''flags'' = Some (show_int (uint (o_objectFlags ob AND NOT OBJECT_FLAG_USE_RESOURCE_REF)))"
    "row ''location'' = addLocationPrefix LOC_FILE_PREFIX (o_location ob)"
    "row ''resources'' = Some (encode_resources (o_resources ob))"
    "row ''metadata'' = (if o_metadata ob = [] then None else literal_value (sql_quote (d_encode (o_metadata ob))))"
    "row ''auxdata'' = (if o_auxdata ob = [] then None else literal_value (sql_quote (d_encode (o_auxdata ob))))"
    "row ''track_number'' = (if i_trackNumber i = 0 then None else Some (show_int (i_trackNumber i)))"
    "row ''service_id'' = i_serviceID i"
proof -
  have pl: "o_objectType ob = OBJECT_TYPE_ITEM" "o_resources ob \<noteq> []" "0 \<le> i_trackNumber i"
    using assms(1) by (simp_all add: plain_item_def cds_inv_def class_type_def)
  obtain t where t: "o_title ob = Some t" "nul_free t" using assms(1) unfolding plain_item_def by blast
  obtain c where c: "o_upnpClass ob = Some c" "nul_free c" using assms(1) unfolding plain_item_def by blast
  obtain l where l: "o_location ob = Some l" "nul_free l" using assms(1) unfolding plain_item_def by blast
  obtain m where m: "i_mimeType i = Some m" "nul_free m" using assms(1) unfolding plain_item_def by blast
  have s: "i_serviceID i = None \<or> (\<exists>s. i_serviceID i = Some s \<and> nul_free s \<and> s \<noteq> [])"
    using assms(1) by (simp add: plain_item_def)
  note defs = item_row_columns_def item_columns_def put_location_def resource_columns_def common_columns_def
    Let_def d_size_def
  have z: "z_from p = sql_int p" by (simp add: z_from_def sql_int_def)
  show "row ''id'' = sql_int new_id" by (simp add: row_def stored_row_def)
  have r: "string_ok (Some (encode_resources (o_resources ob)))" "nul_free (encode_resources (o_resources ob))"
    using split_resources(2,3) [OF pl(2)] by simp_all
  have q: "sql_quote v = Some (the (sql_quote v))" "sql_int k = Some (the (sql_int k))" for v k
    by (simp_all add: sql_quote_def sql_int_def)
  have lv: "(case sql_quote v of None \<Rightarrow> column_default x | Some y \<Rightarrow> literal_value (Some y)) = literal_value (sql_quote v)"
    "(case sql_int k of None \<Rightarrow> column_default x | Some y \<Rightarrow> literal_value (Some y)) = Some (show_int k)" for v k x
    using literal_value_int [of k] by (simp_all add: sql_quote_def sql_int_def)
  note ev = row_def stored_row_def defs get_put_col if_distrib [of "\<lambda>d. d_get d _"] pl z r lv sql_uint_int
    column_default_def
  show "row ''object_type'' = Some (show_int 2)" by (simp add: ev)
  show "row ''ref_id'' = None" by (simp add: ev)
  show "row ''parent_id'' = Some (show_int p)" by (simp add: ev)
  show "row ''dc_title'' = o_title ob" by (simp add: ev t)
  show "row ''upnp_class'' = o_upnpClass ob" by (simp add: ev c)
  show "row ''mime_type'' = i_mimeType i" by (simp add: ev m)
  show "row ''flags'' = Some (show_int (uint (o_objectFlags ob AND NOT OBJECT_FLAG_USE_RESOURCE_REF)))"
    by (simp add: ev)
  show "row ''resources'' = Some (encode_resources (o_resources ob))" by (simp add: ev)
  have "i_trackNumber i > 0 \<longleftrightarrow> i_trackNumber i \<noteq> 0" using pl(3) by auto
  then show "row ''track_number'' = (if i_trackNumber i = 0 then None else Some (show_int (i_trackNumber i)))"
    by (simp add: ev)
  show "row ''service_id'' = i_serviceID i" using s by (auto simp: ev cstring_simps)
  show "row ''metadata'' = (if o_metadata ob = [] then None else literal_value (sql_quote (d_encode (o_metadata ob))))"
    by (simp add: ev)
  show "row ''auxdata'' = (if o_auxdata ob = [] then None else literal_value (sql_quote (d_encode (o_auxdata ob))))"
    by (simp add: ev)
  have "addLocationPrefix LOC_FILE_PREFIX (o_location ob) = Some (CHR ''F'' # l)"
    using l by (simp add: addLocationPrefix_def z_append_def cstr_def [of "[CHR ''F'']"])
  then show "row ''location'' = addLocationPrefix LOC_FILE_PREFIX (o_location ob)"
    using l by (simp add: ev)
qed

lemma select_row_simps [simp]:
  "select_row f rf pe 0 = f ''id''" "select_row f rf pe (Suc 0) = f ''ref_id''" "select_row f rf pe 2 = f ''parent_id''"
  "select_row f rf pe 3 = f ''object_type''" "select_row f rf pe 4 = f ''upnp_class''"
  "select_row f rf pe 5 = f ''dc_title''" "select_row f rf pe 6 = f ''location''"
  "select_row f rf pe 8 = f ''metadata''" "select_row f rf pe 9 = f ''auxdata''"
  "select_row f rf pe 10 = f ''resources''" "select_row f rf pe 11 = f ''update_id''"
  "select_row f rf pe 12 = f ''mime_type''" "select_row f rf pe 13 = f ''flags''"
  "select_row f rf pe 14 = f ''track_number''" "select_row f rf pe 15 = f ''service_id''"
  "select_row f rf pe 16 = rf ''upnp_class''" "select_row f rf pe 17 = rf ''location''"
  "select_row f rf pe 18 = rf ''metadata''" "select_row f rf pe 19 = rf ''auxdata''"
  "select_row f rf pe 20 = rf ''resources''" "select_row f rf pe 21 = rf ''mime_type''"
  "select_row f rf pe 22 = rf ''service_id''" "select_row f rf pe 23 = pe"
  by (simp_all add: select_row_def select_columns_def)

definition as_stored :: "int \<Rightarrow> int \<Rightarrow> cds_object \<Rightarrow> cds_object" where
  \<comment> \<open>what the table does not keep is reset, and the object has the new ID and parent\<close>
  "as_stored new_id p ob =
     ob\<lparr>o_id := new_id, o_refID := 0, o_parentID := p, o_virt := False, o_mtime := 0, o_sizeOnDisk := 0,
        o_objectFlags := o_objectFlags ob AND NOT OBJECT_FLAG_USE_RESOURCE_REF, o_sortPriority := 0\<rparr>"

lemma read_stored_item:
  assumes pi: "plain_item ob i" and p: "- (2 ^ 31) \<le> p" "p < 2 ^ 31"
    and n: "- (2 ^ 31) \<le> new_id" "new_id < 2 ^ 31"
  shows "createObjectFromRow active
      (select_row (stored_row new_id (item_row_columns ob i p)) (\<lambda>_. None) None)
    = Inr (as_stored new_id p ob)"
proof -
  define row where "row = stored_row new_id (item_row_columns ob i p)"
  note col = stored_item [OF pi p, of new_id, folded row_def]
  have inv: "d_inv (o_metadata ob)" "d_inv (o_auxdata ob)" "\<forall>r \<in> set (o_resources ob). r_inv r \<and> r_plain r"
    "o_resources ob \<noteq> []" "o_part ob = CdsItem i" "o_objectType ob = OBJECT_TYPE_ITEM"
    "d_plain (o_metadata ob)" "d_plain (o_auxdata ob)"
    using pi by (auto simp: plain_item_def cds_inv_def class_type_def)
  obtain l where l: "o_location ob = Some l" "nul_free l" using pi unfolding plain_item_def by blast
  obtain t c m where tcm: "o_title ob = Some t" "o_upnpClass ob = Some c" "i_mimeType i = Some m"
    using pi unfolding plain_item_def by blast
  have null: "z_toInt None = 0" by (simp add: z_toInt_def z_toLong_def)
  have "0 \<le> i_trackNumber i" "i_trackNumber i < 2 ^ 31" using pi by (simp_all add: plain_item_def)
  then have tn: "z_toInt (row ''track_number'') = i_trackNumber i"
    using col(13) null by (cases "i_trackNumber i = 0") simp_all
  have ids: "z_toInt (row ''id'') = new_id" "z_toInt (row ''parent_id'') = p" "z_toInt (row ''ref_id'') = 0"
    "z_toUInt (row ''flags'') = o_objectFlags ob AND NOT OBJECT_FLAG_USE_RESOURCE_REF"
    using col n p null by (simp_all add: sql_int_def z_toUInt_show)
  have ty: "word_of_int (z_toInt (row ''object_type'')) = OBJECT_TYPE_ITEM"
    using col(2) by simp
  have dn: "d_decode [] (fallbackString None None) = []" by (simp add: fallbackString_def d_decode_def)
  have meta: "d_decode [] (fallbackString (row ''metadata'') None) = o_metadata ob"
    "d_decode [] (fallbackString (row ''auxdata'') None) = o_auxdata ob"
    unfolding col(11,12) using d_decode_literal [OF inv(1,7)] d_decode_literal [OF inv(2,8)] dn
    by (cases "o_metadata ob = []"; simp) (cases "o_auxdata ob = []"; simp add: dn d_decode_literal [OF inv(2,8)])
  have fb: "fallbackString (Some x) v = Some x" for x v by (simp add: fallbackString_def z_eq_def)
  have res: "string_ok (row ''resources'')" 
    "decode_resources (split_string (row ''resources'') RESOURCE_SEP False) = Inr (o_resources ob)"
    "split_string (row ''resources'') RESOURCE_SEP False \<noteq> []"
    using split_resources(1,2) [OF inv(4)] decode_encode_resources [OF inv(3)] col(10) inv(4) by simp_all
  have loc: "stripLocationPrefix (row ''location'') = Inr (o_location ob)"
    using col(9) stripLocationPrefix_add l by simp
  have co: "createObject OBJECT_TYPE_ITEM = Inr new_CdsItem" by (simp add: createObject_def IS_CDS_defs)
  have ic: "\<not> IS_CDS_CONTAINER OBJECT_TYPE_ITEM" "IS_CDS_ITEM OBJECT_TYPE_ITEM"
    "IS_CDS_PURE_ITEM OBJECT_TYPE_ITEM" "\<not> IS_CDS_ACTIVE_ITEM OBJECT_TYPE_ITEM"
    by (simp_all add: IS_CDS_defs)
  have fr: "fallbackString (row ''resources'') None = row ''resources''" using col(10) by (simp add: fb)
  have sid: "(if string_ok None then None else row ''service_id'') = i_serviceID i"
    using col(14) by (simp add: string_ok_def z_eq_def)
  have texts: "row ''dc_title'' = o_title ob" "fallbackString (row ''upnp_class'') None = o_upnpClass ob"
    "fallbackString (row ''mime_type'') None = i_mimeType i"
    using col(5,6,7) tcm by (simp_all add: fb)
  have nn: "\<not> string_ok None" by (simp add: string_ok_def z_eq_def)
  have common: "row_common (select_row row (\<lambda>_. None) None) OBJECT_TYPE_ITEM new_CdsItem
    = Inr ((as_stored new_id p ob)\<lparr>o_location := None, o_part := CdsItem new_item_part\<rparr>, True)"
    using res ic by (simp add: row_common_def Let_def ids meta fr texts new_Cds_defs as_stored_def inv(6))
  have "row_item (select_row row (\<lambda>_. None) None) OBJECT_TYPE_ITEM True
      ((as_stored new_id p ob)\<lparr>o_location := None, o_part := CdsItem new_item_part\<rparr>)
    = Inr (as_stored new_id p ob)"
    using ic loc sid
    by (simp add: row_item_def the_item_def set_item_def as_stored_def texts tn nn inv(5) l(1))
  then show ?thesis
    unfolding createObjectFromRow_def row_def [symmetric] Let_def select_row_simps ty co bind_result_simps common
    using ic by simp
qed

section \<open>What is not read back\<close>

text \<open>
  An item without resources is written, but its row cannot be read.
\<close>

lemma no_resources_unreadable:
  assumes "word_of_int (z_toInt (row col_object_type)) = OBJECT_TYPE_ITEM"
    and "\<not> string_ok (fallbackString (row col_resources) (row col_ref_resources))"
  shows "createObjectFromRow active row
    = Inl (Throw ''tried to create object without at least one resource'')"
proof -
  have co: "createObject OBJECT_TYPE_ITEM = Inr new_CdsItem" by (simp add: createObject_def IS_CDS_defs)
  have ic: "\<not> IS_CDS_CONTAINER OBJECT_TYPE_ITEM" "IS_CDS_ITEM OBJECT_TYPE_ITEM" by (simp_all add: IS_CDS_defs)
  show ?thesis
    unfolding createObjectFromRow_def Let_def assms(1) co bind_result_simps
    using assms(2) ic by (simp add: row_common_def Let_def row_item_def)
qed

text \<open>
  A virtual item keeps its own service ID in its column, but the service ID of
  the object it refers to is what is read.
\<close>

definition service_item :: "string \<Rightarrow> item_part" where
  "service_item s = new_item_part\<lparr>i_serviceID := Some s\<rparr>"

lemma own_service_id_lost:
  "let d = item_columns ob (service_item ''S2'') (Some (service_item ''S1'')) True False [];
       row = select_row (stored_row 7 d) (\<lambda>c. if c = ''service_id'' then Some ''S1'' else None) None
   in literal_value (d_get d (Some ''service_id'')) = Some ''S2''
      \<and> map_option (\<lambda>i. i_serviceID i)
          (the_item (projr (row_item row OBJECT_TYPE_ITEM True new_CdsItem))) = Some (Some ''S1'')"
proof -
  let ?rf = "\<lambda>c. if c = ''service_id'' then Some ''S1'' else None"
  define d where "d = item_columns ob (service_item ''S2'') (Some (service_item ''S1'')) True False []"
  have d: "d = put_col ''mime_type'' (sql_quote (Some ''application/octet-stream'')) (put_col ''service_id'' (sql_quote (Some ''S2'')) [])"
    by (simp add: d_def item_columns_def service_item_def new_item_part_def string_ok_def z_eq_def cstr_def)
  show ?thesis
    unfolding d_def [symmetric] Let_def
  proof
    show "literal_value (d_get d (Some ''service_id'')) = Some ''S2''"
      by (simp add: d get_put_col)
  next
    have "stripLocationPrefix (stored_row 7 d ''location'') = Inr None"
      by (simp add: d stored_row_def get_put_col column_default_def stripLocationPrefix_def)
    then show "map_option (\<lambda>i. i_serviceID i) (the_item (projr (row_item (select_row (stored_row 7 d) ?rf None)
        OBJECT_TYPE_ITEM True new_CdsItem))) = Some (Some ''S1'')"
      by (simp add: row_item_def IS_CDS_defs new_Cds_defs the_item_def set_item_def string_ok_def z_eq_def cstr_def)
  qed
qed

end
