(* ===== verification/Buffer_Helper.thy ===== *)
theory Buffer_Helper
  imports ZBuffer
begin

text \<open>
  \<open>IOHandlerBufferHelper\<close> (src/io_handler_buffer_helper.cc, io_handler_buffer_helper.h): the ring
  buffer between a thread that fills it and the one client that reads from it. The theory
  holds the shared state, the client (\<open>read\<close>, \<open>seek\<close>, \<open>close\<close>) as a step relation, and
  the part of the two filling threads that is the same in buffered_io_handler.cc and
  curl_io_handler.cc, a seek inside the buffer.

  A step is what happens between two points at which \<open>mutex\<close> is taken or given back; the
  copying of \<open>read\<close> happens without it. A state keeps what no variable of the code holds: the result
  of the last call and the bytes delivered so far. The interface \<open>producer\<close> is what the client
  needs from the filling thread; the order of the bytes is proved once for both threads.
\<close>

unbundle bit_operations_syntax

abbreviation CHECK_SOCKET :: int where "CHECK_SOCKET \<equiv> -666"

datatype whence = SEEK_SET | SEEK_CUR | SEEK_END

section \<open>State\<close>

datatype client_call = Read nat | Seek

datatype client =
    Idle
  | Ready client_call          \<comment> \<open>before the test of the loop that waits\<close>
  | To_wait client_call        \<comment> \<open>the test failed, \<open>mutex\<close> is held\<close>
  | In_wait client_call        \<comment> \<open>inside \<open>cond.wait\<close>\<close>
  | Copy nat nat               \<comment> \<open>\<open>mutex\<close> released, with \<open>length\<close> and \<open>bLocal\<close>\<close>
  | Copied string
  | Joining                    \<comment> \<open>\<open>close\<close> waits for the thread to end\<close>
  | Closed
  | Failed                     \<comment> \<open>after an invalid access to the memory\<close>

record buffer_helper =
  bh_bufSize :: nat
  bh_initialFillSize :: nat
  bh_buffer :: "char cells"
  bh_isOpen :: bool
  bh_eof :: bool
  bh_readError :: bool
  bh_waitForInitialFillSize :: bool
  bh_signalAfterEveryRead :: bool
  bh_checkSocket :: bool
  bh_empty :: bool
  bh_a :: nat
  bh_b :: nat
  bh_posRead :: int
  bh_seekEnabled :: bool
  bh_doSeek :: bool
  bh_seekOffset :: int
  bh_seekWhence :: whence
  bh_threadShutdown :: bool
  bh_asleep :: bool                    \<comment> \<open>the thread is inside \<open>cond.wait\<close>\<close>
  bh_client :: client
  bh_returned :: "int option"          \<comment> \<open>by the last \<open>read\<close>\<close>
  bh_delivered :: string               \<comment> \<open>by all calls of \<open>read\<close>\<close>

definition new_buffer :: "nat \<Rightarrow> nat \<Rightarrow> bool \<Rightarrow> bool \<Rightarrow> buffer_helper result" where
  \<comment> \<open>the constructor followed by \<open>open\<close>; the flags are those the subclasses set\<close>
  "new_buffer bufSize initialFillSize signalAfterEveryRead seekEnabled =
     (if bufSize = 0 then Inl (Throw ''bufSize must be positive'')
      else if initialFillSize > bufSize then
        Inl (Throw ''initialFillSize must be lesser than or equal to the size of the buffer'')
      else Inr \<lparr>bh_bufSize = bufSize, bh_initialFillSize = initialFillSize,
        bh_buffer = replicate bufSize None, bh_isOpen = True, bh_eof = False, bh_readError = False,
        bh_waitForInitialFillSize = (initialFillSize > 0),
        bh_signalAfterEveryRead = signalAfterEveryRead, bh_checkSocket = False,
        bh_empty = True, bh_a = 0, bh_b = 0, bh_posRead = 0, bh_seekEnabled = seekEnabled,
        bh_doSeek = False, bh_seekOffset = 0, bh_seekWhence = SEEK_SET,
        bh_threadShutdown = False, bh_asleep = False, bh_client = Idle,
        bh_returned = None, bh_delivered = []\<rparr>)"

definition wake_thread :: "'x buffer_helper_scheme \<Rightarrow> 'x buffer_helper_scheme" where
  \<comment> \<open>\<open>cond.notify_one\<close> by the client\<close>
  "wake_thread s = s\<lparr>bh_asleep := False\<rparr>"

definition wake_client :: "'x buffer_helper_scheme \<Rightarrow> 'x buffer_helper_scheme" where
  \<comment> \<open>\<open>cond.notify_one\<close> by the thread\<close>
  "wake_client s = (case bh_client s of In_wait c \<Rightarrow> s\<lparr>bh_client := Ready c\<rparr> | _ \<Rightarrow> s)"

definition lock_free :: "'x buffer_helper_scheme \<Rightarrow> bool" where
  "lock_free s \<longleftrightarrow> (case bh_client s of To_wait _ \<Rightarrow> False | _ \<Rightarrow> True)"

definition fill_size :: "nat \<Rightarrow> nat \<Rightarrow> nat \<Rightarrow> int" where
  \<comment> \<open>\<open>int currentFillSize = b - a; if (currentFillSize <= 0) currentFillSize += bufSize;\<close>\<close>
  "fill_size b a bufSize =
     (let c = to_int32 (int b - int a) in if c \<le> 0 then to_int32 (c + int bufSize) else c)"

definition cells_read :: "'a cells \<Rightarrow> nat \<Rightarrow> nat \<Rightarrow> 'a list result" where
  "cells_read d i n =
     (if i + n \<le> length d \<and> filled (take n (drop i d)) then Inr (map the (take n (drop i d)))
      else Inl Abort)"

section \<open>The client\<close>

definition stops_waiting :: "'x buffer_helper_scheme \<Rightarrow> bool" where
  "stops_waiting s \<longleftrightarrow> bh_threadShutdown s \<or> bh_eof s \<or> bh_readError s"

definition read_test :: "nat \<Rightarrow> 'x buffer_helper_scheme \<Rightarrow> 'x buffer_helper_scheme" where
  \<comment> \<open>\<open>read\<close> with \<open>mutex\<close> held, from the test of the loop until it is given back or \<open>wait\<close> is called\<close>
  "read_test n s =
     (if (bh_empty s \<or> bh_waitForInitialFillSize s) \<and> \<not> stops_waiting s then
        if bh_checkSocket s then
          s\<lparr>bh_checkSocket := False, bh_client := Idle, bh_returned := Some CHECK_SOCKET\<rparr>
        else s\<lparr>bh_client := To_wait (Read n)\<rparr>
      else if bh_readError s \<or> bh_threadShutdown s then
        s\<lparr>bh_client := Idle, bh_returned := Some (- 1)\<rparr>
      else if bh_empty s \<and> bh_eof s then s\<lparr>bh_client := Idle, bh_returned := Some 0\<rparr>
      else s\<lparr>bh_client := Copy n (bh_b s)\<rparr>)"

definition size_sub :: "nat \<Rightarrow> nat \<Rightarrow> nat" where
  \<comment> \<open>subtraction of two values of type \<open>size_t\<close>\<close>
  "size_sub x y = nat ((int x - int y) mod 2 ^ 64)"

definition read_sizes :: "nat \<Rightarrow> nat \<Rightarrow> nat \<Rightarrow> nat \<Rightarrow> nat \<times> nat" where
  \<comment> \<open>\<open>read1\<close> and \<open>read2\<close>\<close>
  "read_sizes a bLocal bufSize n =
     (let currentFillSize = fill_size bLocal a bufSize;
          maxRead1 = (if a < bLocal then size_sub bLocal a else size_sub bufSize a);
          read1 = (if maxRead1 > n then n else maxRead1);
          maxRead2 = nat ((currentFillSize - int read1) mod 2 ^ 64);
          read2 = (if read1 < n then n - read1 else 0)
      in (read1, if read2 > maxRead2 then maxRead2 else read2))"

definition read_copy :: "nat \<Rightarrow> nat \<Rightarrow> 'x buffer_helper_scheme \<Rightarrow> string result" where
  "read_copy n bLocal s =
     (let (read1, read2) = read_sizes (bh_a s) bLocal (bh_bufSize s) n
      in bind_result (cells_read (bh_buffer s) (bh_a s) read1) (\<lambda>xs.
           if read2 \<noteq> 0 then bind_result (cells_read (bh_buffer s) 0 read2) (\<lambda>ys. Inr (xs @ ys))
           else Inr xs))"

definition read_done :: "string \<Rightarrow> 'x buffer_helper_scheme \<Rightarrow> 'x buffer_helper_scheme" where
  "read_done xs s =
     (let signalled = (bh_signalAfterEveryRead s \<or> bh_a s = bh_b s);
          s = (if signalled then wake_thread s else s);
          a = bh_a s + length xs;
          a = (if a \<ge> bh_bufSize s then a - bh_bufSize s else a);
          s = s\<lparr>bh_a := a\<rparr>;
          s = (if a = bh_b s then
                 (if \<not> signalled then wake_thread (s\<lparr>bh_empty := True\<rparr>) else s\<lparr>bh_empty := True\<rparr>)
               else s)
      in s\<lparr>bh_posRead := bh_posRead s + int (length xs), bh_client := Idle,
           bh_returned := Some (int (length xs)), bh_delivered := bh_delivered s @ xs\<rparr>)"

definition seek_call :: "int \<Rightarrow> whence \<Rightarrow> 'x buffer_helper_scheme \<Rightarrow> 'x buffer_helper_scheme result" where
  "seek_call offset whence s =
     (if \<not> bh_seekEnabled s then
        Inl (Throw ''seek currently disabled in this IOHandlerBufferHelper'')
      else if \<not> bh_isOpen s then Inl Abort
      else if whence = SEEK_SET \<and> offset < 0 \<or> whence = SEEK_END \<and> offset > 0 then Inl Abort
      else if whence = SEEK_CUR \<and> offset = 0 then Inr s
      else Inr (wake_thread (s\<lparr>bh_doSeek := True, bh_seekOffset := offset, bh_seekWhence := whence,
                               bh_client := Ready Seek\<rparr>)))"

definition seek_test :: "'x buffer_helper_scheme \<Rightarrow> 'x buffer_helper_scheme" where
  "seek_test s =
     (if \<not> bh_doSeek s \<or> stops_waiting s then s\<lparr>bh_client := Idle\<rparr>
      else s\<lparr>bh_client := To_wait Seek\<rparr>)"

inductive read_step :: "'x buffer_helper_scheme \<Rightarrow> 'x buffer_helper_scheme \<Rightarrow> bool" where
  call: "bh_client s = Idle \<Longrightarrow> bh_isOpen s \<Longrightarrow> 0 < n \<Longrightarrow>
     read_step s (s\<lparr>bh_client := Ready (Read n), bh_returned := None\<rparr>)"
| test: "bh_client s = Ready (Read n) \<Longrightarrow> read_step s (read_test n s)"
| sleep: "bh_client s = To_wait (Read n) \<Longrightarrow> read_step s (s\<lparr>bh_client := In_wait (Read n)\<rparr>)"
| copy: "bh_client s = Copy n bLocal \<Longrightarrow> read_copy n bLocal s = Inr xs \<Longrightarrow>
     read_step s (s\<lparr>bh_client := Copied xs\<rparr>)"
| fault: "bh_client s = Copy n bLocal \<Longrightarrow> read_copy n bLocal s = Inl e \<Longrightarrow>
     read_step s (s\<lparr>bh_client := Failed\<rparr>)"
| finish: "bh_client s = Copied xs \<Longrightarrow> read_step s (read_done xs s)"
| close: "bh_client s = Idle \<Longrightarrow> bh_isOpen s \<Longrightarrow>
     read_step s (wake_thread (s\<lparr>bh_isOpen := False, bh_threadShutdown := True, bh_client := Joining\<rparr>))"

inductive seek_step :: "'x buffer_helper_scheme \<Rightarrow> 'x buffer_helper_scheme \<Rightarrow> bool" where
  call: "bh_client s = Idle \<Longrightarrow> seek_call offset whence s = Inr s' \<Longrightarrow> seek_step s s'"
| test: "bh_client s = Ready Seek \<Longrightarrow> seek_step s (seek_test s)"
| sleep: "bh_client s = To_wait Seek \<Longrightarrow> seek_step s (s\<lparr>bh_client := In_wait Seek\<rparr>)"

inductive joined :: "'x buffer_helper_scheme \<Rightarrow> 'x buffer_helper_scheme \<Rightarrow> bool" where
  \<comment> \<open>the end of \<open>close\<close>, once the thread has ended\<close>
  "bh_client s = Joining \<Longrightarrow> joined s (s\<lparr>bh_buffer := [], bh_client := Closed\<rparr>)"

inductive_cases read_stepE: "read_step s s'"
inductive_cases seek_stepE: "seek_step s s'"
inductive_simps joined_iff: "joined s s'"

section \<open>A seek inside the buffer\<close>

definition seek_in_buffer :: "'x buffer_helper_scheme \<Rightarrow> 'x buffer_helper_scheme" where
  "seek_in_buffer s =
     (if bh_doSeek s \<and> \<not> bh_empty s
         \<and> (bh_seekWhence s = SEEK_SET \<or> bh_seekWhence s = SEEK_CUR \<and> bh_seekOffset s > 0) then
        (let currentFillSize = fill_size (bh_b s) (bh_a s) (bh_bufSize s);
             relSeek = to_int32 (bh_seekOffset s);
             relSeek = (if bh_seekWhence s = SEEK_SET then to_int32 (relSeek - bh_posRead s) else relSeek)
         in if relSeek \<le> currentFillSize then
              (let a = nat ((int (bh_a s) + relSeek) mod 2 ^ 64);
                   a = (if a \<ge> bh_bufSize s then a - bh_bufSize s else a);
                   s = s\<lparr>bh_a := a, bh_posRead := bh_posRead s + relSeek\<rparr>;
                   s = (if a = bh_b s then s\<lparr>bh_empty := True, bh_a := 0, bh_b := 0\<rparr> else s)
               in wake_client (s\<lparr>bh_doSeek := False\<rparr>))
            else s)
      else s)"


section \<open>What the buffer holds\<close>

definition ring_holds :: "'x buffer_helper_scheme \<Rightarrow> string \<Rightarrow> bool" where
  "ring_holds s C \<longleftrightarrow> length (bh_buffer s) = bh_bufSize s \<and> bh_bufSize s < 2 ^ 31
     \<and> bh_a s < bh_bufSize s \<and> length C \<le> bh_bufSize s
     \<and> bh_b s = (bh_a s + length C) mod bh_bufSize s \<and> (bh_empty s \<longleftrightarrow> C = [])
     \<and> (\<forall>j < length C. bh_buffer s ! ((bh_a s + j) mod bh_bufSize s) = Some (C ! j))"

definition ring_bytes :: "'x buffer_helper_scheme \<Rightarrow> nat" where
  \<comment> \<open>how many bytes lie between \<open>a\<close> and \<open>b\<close>\<close>
  "ring_bytes s =
     (if bh_empty s then 0 else if bh_a s < bh_b s then bh_b s - bh_a s else bh_bufSize s - bh_a s + bh_b s)"

definition ring_contents :: "'x buffer_helper_scheme \<Rightarrow> string" where
  \<comment> \<open>the bytes in the ring from \<open>a\<close> on\<close>
  "ring_contents s = map (\<lambda>j. the (bh_buffer s ! ((bh_a s + j) mod bh_bufSize s))) [0..<ring_bytes s]"

lemma ring_holds_contents: "ring_holds s C \<Longrightarrow> ring_contents s = C"
proof -
  assume r: "ring_holds s C"
  have "ring_bytes s = length C"
  proof (cases "C = []")
    case False
    then have "\<not> bh_empty s" "0 < length C" "bh_a s < bh_bufSize s" "length C \<le> bh_bufSize s"
      "bh_b s = (if bh_a s + length C < bh_bufSize s then bh_a s + length C else bh_a s + length C - bh_bufSize s)"
      using r mod_ring [of "bh_a s" "bh_bufSize s" "length C"] by (auto simp: ring_holds_def)
    then show ?thesis unfolding ring_bytes_def by auto
  qed (use r in \<open>simp add: ring_holds_def ring_bytes_def\<close>)
  then show ?thesis
    using r by (intro nth_equalityI) (simp_all add: ring_contents_def ring_holds_def)
qed

definition client_ok :: "'x buffer_helper_scheme \<Rightarrow> string \<Rightarrow> bool" where
  "client_ok s C \<longleftrightarrow> (case bh_client s of
       Idle \<Rightarrow> True
     | Ready (Read n) \<Rightarrow> 0 < n
     | To_wait (Read n) \<Rightarrow> 0 < n
     | In_wait (Read n) \<Rightarrow> 0 < n
     | Copy n bLocal \<Rightarrow> 0 < n \<and> (\<exists>k. 0 < k \<and> k \<le> length C \<and> bLocal = (bh_a s + k) mod bh_bufSize s)
     | Copied xs \<Rightarrow> xs \<noteq> [] \<and> length xs \<le> length C \<and> xs = take (length xs) C
     | Joining \<Rightarrow> \<not> bh_isOpen s
     | _ \<Rightarrow> False)"

definition bh_inv :: "'x buffer_helper_scheme \<Rightarrow> string \<Rightarrow> bool" where
  "bh_inv s C \<longleftrightarrow> ring_holds s C \<and> client_ok s C \<and> \<not> bh_doSeek s
     \<and> bh_initialFillSize s \<le> bh_bufSize s"

lemma mod_wrap: "a < N \<Longrightarrow> k \<le> N \<Longrightarrow> (a + k) mod N = (if a + k < N then a + k else a + k - (N::nat))"
  by (rule mod_ring)

lemma cells_read_ok:
  assumes "i + n \<le> length d" "n \<le> length xs" "\<And>j. j < n \<Longrightarrow> d ! (i + j) = Some (xs ! j)"
  shows "cells_read d i n = Inr (take n xs)"
proof -
  have "take n (drop i d) = map Some (take n xs)"
    using assms by (intro nth_equalityI) auto
  then show ?thesis using assms(1) by (simp add: cells_read_def comp_def)
qed

lemma fill_size_ring:
  assumes "a < N" "0 < k" "k \<le> N" "N < 2 ^ 31"
  shows "fill_size ((a + k) mod N) a N = int k"
proof (cases "a + k < N")
  case False
  then have "a + k - N \<le> a" using assms by simp
  then show ?thesis using False assms by (simp add: fill_size_def mod_wrap Let_def of_nat_diff)
qed (use assms in \<open>simp add: fill_size_def mod_wrap Let_def\<close>)

lemma size_sub_eq: "y \<le> x \<Longrightarrow> x < 2 ^ 64 \<Longrightarrow> size_sub x y = x - y"
proof -
  assume a: "y \<le> x" "x < 2 ^ 64"
  have "(int x - int y) mod 2 ^ 64 = int x - int y" by (rule mod_pos_pos_trivial) (use a in auto)
  then show ?thesis by (simp add: size_sub_def)
qed

lemma read_sizes_ring:
  assumes "a < N" "0 < k" "k \<le> N" "N < 2 ^ 31" "0 < n"
  shows "read_sizes a ((a + k) mod N) N n =
    (if a + k < N then (min n k, 0) else (min n (N - a), min n k - min n (N - a)))"
proof -
  have m: "nat ((int k - int r) mod 2 ^ 64) = k - r" if "r \<le> k" for r
    using size_sub_eq [OF that] assms by (simp add: size_sub_def)
  show ?thesis
  proof (cases "a + k < N")
    case True
    then show ?thesis using assms m [of "min n k"] mod_wrap [OF assms(1,3)] size_sub_eq [of a "a + k"]
      unfolding read_sizes_def fill_size_ring [OF assms(1-4)] by (auto simp: Let_def min_def)
  next
    case False
    then have "N - a \<le> k" by simp
    then show ?thesis using assms False m [of "min n (N - a)"] mod_wrap [OF assms(1,3)] size_sub_eq [of a N]
      unfolding read_sizes_def fill_size_ring [OF assms(1-4)] by (auto simp: Let_def min_def)
  qed
qed

lemma read_copy_ring:
  assumes "ring_holds s C" "0 < k" "k \<le> length C" "0 < n"
  shows "read_copy n ((bh_a s + k) mod bh_bufSize s) s = Inr (take (min n k) C)"
proof -
  let ?a = "bh_a s" and ?N = "bh_bufSize s" and ?d = "bh_buffer s"
  have r: "length ?d = ?N" "?N < 2 ^ 31" "?a < ?N" "length C \<le> ?N"
    and c: "\<And>j. j < length C \<Longrightarrow> ?d ! ((?a + j) mod ?N) = Some (C ! j)"
    using assms(1) by (simp_all add: ring_holds_def)
  have k: "k \<le> ?N" using assms(3) r by simp
  note sz = read_sizes_ring [OF r(3) assms(2) k r(2) assms(4)]
  have first: "cells_read ?d ?a m = Inr (take m C)" if "m \<le> length C" "?a + m \<le> ?N" for m
  proof (rule cells_read_ok)
    fix j assume "j < m"
    then show "?d ! (?a + j) = Some (C ! j)" using c [of j] that by simp
  qed (use that r in auto)
  show ?thesis
  proof (cases "?a + k < ?N")
    case True
    then show ?thesis using assms first [of "min n k"] unfolding read_copy_def sz by simp
  next
    case False
    define m where "m = min n (?N - ?a)"
    define m2 where "m2 = min n k - m"
    have m: "m \<le> length C" "?a + m \<le> ?N" using False assms(3) r(3) by (auto simp: m_def)
    have snd: "cells_read ?d 0 m2 = Inr (take m2 (drop m C))" if "m2 \<noteq> 0"
    proof (rule cells_read_ok)
      have e: "m = ?N - ?a" using that by (auto simp: m2_def m_def min_def split: if_splits)
      show "0 + m2 \<le> length ?d" using r e assms(3) k by (auto simp: m2_def)
      show "m2 \<le> length (drop m C)" using assms(3) by (auto simp: m2_def)
      fix j assume j: "j < m2"
      have "m + j < length C" using j assms(3) by (auto simp: m2_def)
      moreover have "(?a + (m + j)) mod ?N = j"
      proof -
        have "?a + (m + j) = j + ?N" using e r(3) by simp
        moreover have "j < ?N" using j k by (auto simp: m2_def)
        ultimately show ?thesis by (simp only: mod_add_self2 mod_less)
      qed
      ultimately show "?d ! (0 + j) = Some (drop m C ! j)" using c [of "m + j"] by simp
    qed
    have t: "take m C @ take m2 (drop m C) = take (min n k) C"
      using False r(3) by (simp add: take_add [symmetric] m2_def m_def)
    show ?thesis
    proof (cases "m2 = 0")
      case True
      then show ?thesis using False t first [OF m] unfolding read_copy_def sz by (simp add: m_def m2_def)
    next
      case m2: False
      then show ?thesis using False t first [OF m] snd unfolding read_copy_def sz by (simp flip: m_def m2_def)
    qed
  qed
qed

lemma ring_holds_drop:
  assumes "ring_holds s C" "0 < n" "n \<le> length C"
    and "a' = (if bh_a s + n \<ge> bh_bufSize s then bh_a s + n - bh_bufSize s else bh_a s + n)"
  shows "a' = bh_b s \<longleftrightarrow> n = length C"
    and "ring_holds (s\<lparr>bh_a := a', bh_empty := (n = length C)\<rparr>) (drop n C)"
proof -
  let ?a = "bh_a s" and ?N = "bh_bufSize s"
  have r: "length (bh_buffer s) = ?N" "?N < 2 ^ 31" "?a < ?N" "length C \<le> ?N"
      "bh_b s = (?a + length C) mod ?N" and e: "bh_empty s \<longleftrightarrow> C = []"
    and c: "\<And>j. j < length C \<Longrightarrow> bh_buffer s ! ((?a + j) mod ?N) = Some (C ! j)"
    using assms(1) by (simp_all add: ring_holds_def)
  have n: "n \<le> ?N" using assms(3) r by simp
  have a': "a' = (?a + n) mod ?N" using assms(4) mod_wrap [OF r(3) n] by auto
  have b: "(?a + n + m) mod ?N = (a' + m) mod ?N" for m unfolding a' by (simp add: mod_add_left_eq)
  have l: "bh_b s = (a' + (length C - n)) mod ?N" using b [of "length C - n"] assms(3) r(5) by simp
  have a'_less: "a' < ?N" using r(3) a' by simp
  show "a' = bh_b s \<longleftrightarrow> n = length C"
  proof
    assume x: "a' = bh_b s"
    show "n = length C"
    proof (rule ccontr)
      assume "n \<noteq> length C"
      then have "0 < length C - n" "length C - n < ?N" using assms(2,3) r(4) by auto
      moreover have "(a' + (length C - n)) mod ?N = a'" using x l by simp
      ultimately show False using a'_less mod_wrap [OF a'_less, of "length C - n"] by (auto split: if_splits)
    qed
  next
    assume "n = length C" then show "a' = bh_b s" using l a'_less by simp
  qed
  show "ring_holds (s\<lparr>bh_a := a', bh_empty := (n = length C)\<rparr>) (drop n C)"
    unfolding ring_holds_def using r l a'_less assms(3) b [THEN sym] c by (auto simp: add.assoc)
qed

lemma ring_holds_put:
  assumes "ring_holds s C" "length C + length ys \<le> bh_bufSize s" "ys \<noteq> []"
    and "\<And>j. j < length ys \<Longrightarrow> bh_buffer s ! ((bh_b s + j) mod bh_bufSize s) = Some (ys ! j)"
    and "b' = (bh_b s + length ys) mod bh_bufSize s"
  shows "ring_holds (s\<lparr>bh_b := b', bh_empty := False\<rparr>) (C @ ys)"
proof -
  have "bh_buffer s ! ((bh_a s + j) mod bh_bufSize s) = Some ((C @ ys) ! j)" if j: "j < length (C @ ys)" for j
  proof (cases "j < length C")
    case True
    then show ?thesis using assms(1) by (simp add: ring_holds_def nth_append)
  next
    case False
    then have "(bh_a s + j) mod bh_bufSize s = (bh_a s + length C + (j - length C)) mod bh_bufSize s" by simp
    also have "\<dots> = (bh_b s + (j - length C)) mod bh_bufSize s"
      using assms(1) unfolding ring_holds_def by (metis mod_add_left_eq)
    finally have "(bh_a s + j) mod bh_bufSize s = (bh_b s + (j - length C)) mod bh_bufSize s" .
    then show ?thesis using assms(4) [of "j - length C"] j False by (simp add: nth_append)
  qed
  then show ?thesis using assms by (simp add: ring_holds_def mod_add_left_eq add.assoc)
qed


section \<open>What the client preserves\<close>

definition same_storage :: "'x buffer_helper_scheme \<Rightarrow> 'x buffer_helper_scheme \<Rightarrow> bool" where
  \<comment> \<open>what only the thread changes\<close>
  "same_storage s s' \<longleftrightarrow> bh_b s' = bh_b s \<and> bh_buffer s' = bh_buffer s \<and> bh_bufSize s' = bh_bufSize s
     \<and> bh_initialFillSize s' = bh_initialFillSize s \<and> bh_eof s' = bh_eof s
     \<and> bh_readError s' = bh_readError s \<and> bh_waitForInitialFillSize s' = bh_waitForInitialFillSize s
     \<and> bh_doSeek s' = bh_doSeek s \<and> buffer_helper.more s' = buffer_helper.more s"

lemmas client_step_defs = read_test_def read_done_def wake_thread_def Let_def

lemma read_step_storage: "read_step s s' \<Longrightarrow> same_storage s s'"
  by (erule read_stepE) (simp_all add: same_storage_def client_step_defs)

lemma ring_holds_cong:
  "bh_buffer s' = bh_buffer s \<Longrightarrow> bh_bufSize s' = bh_bufSize s \<Longrightarrow> bh_a s' = bh_a s \<Longrightarrow> bh_b s' = bh_b s
     \<Longrightarrow> bh_empty s' = bh_empty s \<Longrightarrow> ring_holds s' C = ring_holds s C"
  by (simp add: ring_holds_def)

lemma ring_holds_empty: "ring_holds s C \<Longrightarrow> bh_empty s \<longleftrightarrow> C = []"
  by (simp add: ring_holds_def)

lemma client_ok_simps:
  "bh_client s = Idle \<Longrightarrow> client_ok s C"
  "bh_client s = Ready (Read n) \<Longrightarrow> client_ok s C \<longleftrightarrow> 0 < n"
  "bh_client s = To_wait (Read n) \<Longrightarrow> client_ok s C \<longleftrightarrow> 0 < n"
  "bh_client s = In_wait (Read n) \<Longrightarrow> client_ok s C \<longleftrightarrow> 0 < n"
  "bh_client s = Joining \<Longrightarrow> client_ok s C \<longleftrightarrow> \<not> bh_isOpen s"
  "bh_client s = Copied xs \<Longrightarrow> client_ok s C \<longleftrightarrow> xs \<noteq> [] \<and> length xs \<le> length C \<and> xs = take (length xs) C"
  "bh_client s = Copy n bLocal \<Longrightarrow> client_ok s C \<longleftrightarrow>
     0 < n \<and> (\<exists>k. 0 < k \<and> k \<le> length C \<and> bLocal = (bh_a s + k) mod bh_bufSize s)"
  by (simp_all add: client_ok_def)

lemma read_test_inv:
  assumes "bh_inv s C" "bh_client s = Ready (Read n)"
  shows "bh_inv (read_test n s) C \<and> bh_delivered (read_test n s) = bh_delivered s"
proof -
  have i: "ring_holds s C" "0 < n" using assms by (simp_all add: bh_inv_def client_ok_simps)
  have r: "ring_holds (read_test n s) C"
    using i(1) by (subst ring_holds_cong [of _ s]) (simp_all add: read_test_def)
  have "client_ok (read_test n s) C"
  proof (cases "(bh_empty s \<or> bh_waitForInitialFillSize s) \<and> \<not> stops_waiting s
      \<or> bh_readError s \<or> bh_threadShutdown s \<or> bh_empty s \<and> bh_eof s")
    case True
    then have "bh_client (read_test n s) \<in> {Idle, To_wait (Read n)}" by (auto simp: read_test_def)
    then show ?thesis using i(2) by (auto simp: client_ok_def)
  next
    case False
    then have c: "read_test n s = s\<lparr>bh_client := Copy n (bh_b s)\<rparr>" "\<not> bh_empty s"
      by (auto simp: read_test_def stops_waiting_def)
    then have "0 < length C" using ring_holds_empty [OF i(1)] by simp
    then show ?thesis unfolding c(1) using i
      by (auto simp: client_ok_def ring_holds_def intro!: exI [of _ "length C"])
  qed
  then show ?thesis using assms(1) r by (simp add: bh_inv_def read_test_def)
qed

lemma read_done_inv:
  assumes "bh_inv s C" "bh_client s = Copied xs"
  shows "bh_inv (read_done xs s) (drop (length xs) C)
    \<and> bh_delivered (read_done xs s) = bh_delivered s @ take (length xs) C"
proof -
  have i: "ring_holds s C" "xs \<noteq> []" "length xs \<le> length C" "xs = take (length xs) C"
    using assms by (simp_all add: bh_inv_def client_ok_simps)
  have x: "0 < length xs" using i(2) by simp
  define a' where "a' = (if bh_a s + length xs \<ge> bh_bufSize s then bh_a s + length xs - bh_bufSize s
    else bh_a s + length xs)"
  note d = ring_holds_drop [OF i(1) x i(3) a'_def]
  have e: "\<not> bh_empty s" using ring_holds_empty [OF i(1)] i(2,3) by auto
  have "ring_holds (read_done xs s) (drop (length xs) C)"
    using d(2) by (rule ring_holds_cong [THEN iffD1, rotated 5])
      (use d(1) e in \<open>auto simp: read_done_def wake_thread_def Let_def a'_def\<close>)
  then show ?thesis using assms(1) i(4) by (simp add: bh_inv_def client_ok_simps client_step_defs)
qed

lemma read_step_inv:
  assumes "bh_inv s C" "read_step s s'"
  shows "\<exists>n \<le> length C. bh_inv s' (drop n C) \<and> bh_delivered s' = bh_delivered s @ take n C"
  using assms(2)
proof (cases rule: read_step.cases)
  case (test n)
  then show ?thesis using read_test_inv [OF assms(1)] by (intro exI [of _ 0]) simp
next
  case (finish xs)
  then show ?thesis using read_done_inv [OF assms(1)] assms(1)
    by (intro exI [of _ "length xs"]) (simp add: bh_inv_def client_ok_simps)
next
  case (copy n bLocal xs)
  have "ring_holds s C" "0 < n" using assms(1) copy by (simp_all add: bh_inv_def client_ok_simps)
  moreover obtain k where k: "0 < k" "k \<le> length C" "bLocal = (bh_a s + k) mod bh_bufSize s"
    using assms(1) copy by (auto simp: bh_inv_def client_ok_simps)
  ultimately have "xs = take (min n k) C" "0 < min n k" using copy read_copy_ring [of s C k n] by simp_all
  then show ?thesis using assms(1) k copy(1)
    by (intro exI [of _ 0]) (auto simp: bh_inv_def client_ok_def ring_holds_def)
next
  case (fault n bLocal e)
  have "ring_holds s C" "0 < n" using assms(1) fault by (simp_all add: bh_inv_def client_ok_simps)
  moreover obtain k where "0 < k" "k \<le> length C" "bLocal = (bh_a s + k) mod bh_bufSize s"
    using assms(1) fault by (auto simp: bh_inv_def client_ok_simps)
  ultimately show ?thesis using fault read_copy_ring [of s C k n] by simp
qed (use assms(1) in \<open>auto simp: bh_inv_def client_ok_def ring_holds_def wake_thread_def\<close>)


section \<open>The client with a filling thread\<close>

inductive spurious :: "'x buffer_helper_scheme \<Rightarrow> 'x buffer_helper_scheme \<Rightarrow> bool" where
  \<comment> \<open>\<open>cond.wait\<close> may return without a notification\<close>
  client: "bh_client s = In_wait c \<Longrightarrow> spurious s (s\<lparr>bh_client := Ready c\<rparr>)"
| thread: "spurious s (s\<lparr>bh_asleep := False\<rparr>)"

inductive_cases spuriousE: "spurious s s'"

inductive buffer_reach ::
  "('x buffer_helper_scheme \<Rightarrow> 'x buffer_helper_scheme \<Rightarrow> bool) \<Rightarrow> ('x buffer_helper_scheme \<Rightarrow> bool)
     \<Rightarrow> 'x buffer_helper_scheme \<Rightarrow> 'x buffer_helper_scheme \<Rightarrow> bool"
  for thread_step ended s0 where
  start: "buffer_reach thread_step ended s0 s0"
| client: "buffer_reach thread_step ended s0 s \<Longrightarrow> read_step s s' \<Longrightarrow> buffer_reach thread_step ended s0 s'"
| thread: "buffer_reach thread_step ended s0 s \<Longrightarrow> thread_step s s' \<Longrightarrow> buffer_reach thread_step ended s0 s'"
| wakeup: "buffer_reach thread_step ended s0 s \<Longrightarrow> spurious s s' \<Longrightarrow> buffer_reach thread_step ended s0 s'"
| joined: "buffer_reach thread_step ended s0 s \<Longrightarrow> ended s \<Longrightarrow> joined s s' \<Longrightarrow>
     buffer_reach thread_step ended s0 s'"

lemma spurious_inv:
  assumes "bh_inv s C" "spurious s s'"
  shows "bh_inv s' C \<and> same_storage s s' \<and> bh_delivered s' = bh_delivered s"
  using assms(2)
proof (cases rule: spurious.cases)
  case (client c)
  then obtain n where "c = Read n" using assms(1) by (cases c) (auto simp: bh_inv_def client_ok_def)
  then show ?thesis using client assms(1) by (auto simp: bh_inv_def client_ok_def ring_holds_def same_storage_def)
next
  case thread
  then show ?thesis using assms(1)
    by (auto simp: bh_inv_def client_ok_def ring_holds_def same_storage_def split: client.splits client_call.splits)
qed

locale producer =
  fixes thread_step :: "'x buffer_helper_scheme \<Rightarrow> 'x buffer_helper_scheme \<Rightarrow> bool"
    and thread_ok :: "'x buffer_helper_scheme \<Rightarrow> string \<Rightarrow> bool"
    and obtained :: "'x buffer_helper_scheme \<Rightarrow> string"
    and ended :: "'x buffer_helper_scheme \<Rightarrow> bool"
  assumes step_law: "bh_inv s C \<Longrightarrow> thread_ok s C \<Longrightarrow> thread_step s s' \<Longrightarrow>
      \<exists>ys. bh_inv s' (C @ ys) \<and> thread_ok s' (C @ ys) \<and> obtained s' = obtained s @ ys
        \<and> bh_delivered s' = bh_delivered s"
    and client_law: "thread_ok s C \<Longrightarrow> same_storage s s' \<Longrightarrow> n \<le> length C \<Longrightarrow> thread_ok s' (drop n C)"
    and frame: "buffer_helper.more s' = buffer_helper.more s \<Longrightarrow> obtained s' = obtained s \<and> ended s' = ended s"
    and ended_law: "ended s \<Longrightarrow> \<not> thread_step s s'"
begin

lemma same_storage_frame: "same_storage s s' \<Longrightarrow> obtained s' = obtained s \<and> ended s' = ended s"
  by (rule frame) (simp add: same_storage_def)

lemma reach_law:
  assumes "bh_inv s0 []" "thread_ok s0 []" "obtained s0 = bh_delivered s0"
    and "buffer_reach thread_step ended s0 s"
  shows "(\<exists>C. bh_inv s C \<and> thread_ok s C \<and> obtained s = bh_delivered s @ C)
    \<or> bh_client s = Closed \<and> ended s \<and> (\<exists>C. obtained s = bh_delivered s @ C)"
  using assms(4)
proof induction
  case start
  then show ?case using assms(1-3) by (intro disjI1 exI [of _ "[]"]) simp
next
  case (client s s')
  from client.IH show ?case
  proof (elim disjE exE conjE)
    fix C assume i: "bh_inv s C" "thread_ok s C" "obtained s = bh_delivered s @ C"
    obtain n where n: "n \<le> length C" "bh_inv s' (drop n C)" "bh_delivered s' = bh_delivered s @ take n C"
      using read_step_inv [OF i(1) client.hyps(2)] by blast
    note st = read_step_storage [OF client.hyps(2)]
    show ?thesis using n i client_law [OF i(2) st n(1)] same_storage_frame [OF st]
      by (intro disjI1 exI [of _ "drop n C"]) simp
  qed (use client.hyps(2) in \<open>auto elim: read_stepE\<close>)
next
  case (thread s s')
  from thread.IH show ?case
  proof (elim disjE exE conjE)
    fix C assume i: "bh_inv s C" "thread_ok s C" "obtained s = bh_delivered s @ C"
    from step_law [OF i(1,2) thread.hyps(2)] obtain ys where
      "bh_inv s' (C @ ys)" "thread_ok s' (C @ ys)" "obtained s' = obtained s @ ys" "bh_delivered s' = bh_delivered s"
      by blast
    then show ?thesis using i(3) by (intro disjI1 exI [of _ "C @ ys"]) simp
  qed (use thread.hyps(2) ended_law in blast)
next
  case (wakeup s s')
  from wakeup.IH show ?case
  proof (elim disjE exE conjE)
    fix C assume i: "bh_inv s C" "thread_ok s C" "obtained s = bh_delivered s @ C"
    note l = spurious_inv [OF i(1) wakeup.hyps(2)]
    show ?thesis using l i(3) client_law [OF i(2), of s' 0] same_storage_frame [of s s']
      by (intro disjI1 exI [of _ C]) simp
  next
    fix C assume c: "bh_client s = Closed" "ended s" "obtained s = bh_delivered s @ C"
    then have "s' = s\<lparr>bh_asleep := False\<rparr>" using wakeup.hyps(2) by (auto elim: spuriousE)
    then show ?thesis using c frame [of s' s] by (intro disjI2) auto
  qed
next
  case (joined s s')
  then have s': "s' = s\<lparr>bh_buffer := [], bh_client := Closed\<rparr>" by (simp add: joined_iff)
  then have "obtained s' = obtained s \<and> ended s' = ended s" using frame [of s' s] by simp
  then show ?case using joined s' by auto
qed

end


section \<open>Facts for the threads\<close>

definition woken :: "client \<Rightarrow> client" where
  "woken c = (case c of In_wait k \<Rightarrow> Ready k | _ \<Rightarrow> c)"

lemma wake_client_eq: "wake_client s = s\<lparr>bh_client := woken (bh_client s)\<rparr>"
  by (simp add: wake_client_def woken_def split: client.split)

lemma bh_inv_woken:
  assumes "bh_inv s C"
  shows "bh_inv (s\<lparr>bh_client := woken (bh_client s)\<rparr>) C"
proof -
  have "client_ok (s\<lparr>bh_client := woken (bh_client s)\<rparr>) C"
    using assms by (auto simp: bh_inv_def client_ok_def woken_def split: client.splits client_call.splits)
  then show ?thesis using assms by (simp add: bh_inv_def ring_holds_def)
qed

lemma client_ok_cong:
  assumes "bh_client s' = bh_client s" "bh_a s' = bh_a s" "bh_bufSize s' = bh_bufSize s" "bh_isOpen s' = bh_isOpen s"
  shows "client_ok s' C = client_ok s C"
  using assms by (cases "bh_client s") (simp_all add: client_ok_def split: client_call.split)

lemma bh_inv_cong:
  "bh_buffer s' = bh_buffer s \<Longrightarrow> bh_bufSize s' = bh_bufSize s \<Longrightarrow> bh_a s' = bh_a s \<Longrightarrow> bh_b s' = bh_b s
     \<Longrightarrow> bh_empty s' = bh_empty s \<Longrightarrow> bh_client s' = bh_client s \<Longrightarrow> bh_isOpen s' = bh_isOpen s
     \<Longrightarrow> bh_doSeek s' = bh_doSeek s \<Longrightarrow> bh_initialFillSize s' = bh_initialFillSize s
     \<Longrightarrow> bh_inv s C \<Longrightarrow> bh_inv s' C"
  by (simp add: bh_inv_def ring_holds_def client_ok_cong [of s' s])

lemma seek_in_buffer_idle [simp]: "\<not> bh_doSeek s \<Longrightarrow> seek_in_buffer s = s"
  by (simp add: seek_in_buffer_def)

lemma bh_inv_reset:
  assumes "bh_inv s C"
  shows "bh_inv (if bh_empty s then s\<lparr>bh_a := 0, bh_b := 0\<rparr> else s) C"
proof (cases "bh_empty s")
  case True
  then have "C = []" using assms by (simp add: bh_inv_def ring_holds_def)
  then show ?thesis using assms True
    by (auto simp: bh_inv_def ring_holds_def client_ok_def split: client.splits client_call.splits)
qed (use assms in simp)

lemma bh_inv_put:
  assumes "bh_inv s C" "length C + length ys \<le> bh_bufSize s" "ys \<noteq> []"
    and "\<And>j. j < length ys \<Longrightarrow> bh_buffer s ! ((bh_b s + j) mod bh_bufSize s) = Some (ys ! j)"
    and "b' = (bh_b s + length ys) mod bh_bufSize s"
  shows "bh_inv (s\<lparr>bh_b := b', bh_empty := False\<rparr>) (C @ ys)"
proof -
  have "ring_holds (s\<lparr>bh_b := b', bh_empty := False\<rparr>) (C @ ys)"
    using assms by (intro ring_holds_put) (simp_all add: bh_inv_def)
  moreover have "client_ok (s\<lparr>bh_b := b', bh_empty := False\<rparr>) (C @ ys)"
    using assms(1) by (auto simp: bh_inv_def client_ok_def intro: trans_le_add1
      split: client.splits client_call.splits)
  ultimately show ?thesis using assms(1) by (simp add: bh_inv_def)
qed

lemma bh_inv_new:
  assumes "new_buffer bufSize initialFillSize signal seek = Inr s" "bufSize < 2 ^ 31"
  shows "bh_inv s [] \<and> bh_delivered s = [] \<and> bh_bufSize s = bufSize
    \<and> bh_initialFillSize s = initialFillSize \<and> bh_waitForInitialFillSize s = (0 < initialFillSize)"
proof -
  have "0 < bufSize" "initialFillSize \<le> bufSize" using assms by (simp_all add: new_buffer_def split: if_splits)
  then show ?thesis using assms by (auto simp: new_buffer_def bh_inv_def ring_holds_def client_ok_def)
qed

lemma cells_write_ring:
  assumes "length d = N" "b + length ys \<le> N"
  shows "\<exists>d'. cells_write d (int b) ys = Inr d' \<and> length d' = N
    \<and> (\<forall>j < length ys. d' ! (b + j) = Some (ys ! j)) \<and> (\<forall>j. j < b \<or> b + length ys \<le> j \<longrightarrow> d' ! j = d ! j)"
  using assms by (auto simp: cells_write_def nth_append)

end
