(* ===== verification/Buffered_IO.thy ===== *)
theory Buffered_IO
  imports Buffer_Helper
begin

text \<open>
  \<open>BufferedIOHandler\<close> (src/buffered_io_handler.cc): the thread that fills the ring buffer from
  another IO handler. Between \<open>lock.unlock()\<close> and \<open>lock.lock()\<close> that handler writes into the
  buffer itself, at most \<open>chunkSize\<close> bytes; the bytes it writes and the number it returns are
  free. The theory shows that the thread keeps the laws of \<open>producer\<close> and that the thread and
  the client never wait for each other.
\<close>

section \<open>The thread\<close>

datatype buffered_pc =
    B_head                 \<comment> \<open>before the loop\<close>
  | B_waited               \<comment> \<open>in \<open>cond.wait\<close> or after it\<close>
  | B_reading nat          \<comment> \<open>before the read of the underlying handler, with \<open>chunkSize\<close>\<close>
  | B_got int string       \<comment> \<open>after it, with \<open>readBytes\<close> and the bytes it wrote\<close>
  | B_done
  | B_failed

record buffered_io = buffer_helper +
  bi_maxChunkSize :: nat
  bi_pc :: buffered_pc
  bi_obtained :: string    \<comment> \<open>the bytes put into the buffer so far\<close>

definition new_BufferedIOHandler :: "nat \<Rightarrow> nat \<Rightarrow> nat \<Rightarrow> buffered_io result" where
  "new_BufferedIOHandler bufSize maxChunkSize initialFillSize =
     bind_result (new_buffer bufSize initialFillSize False False) (\<lambda>s.
       if maxChunkSize = 0 then Inl (Throw ''maxChunkSize must be positive'')
       else Inr (buffer_helper.extend s
         \<lparr>bi_maxChunkSize = maxChunkSize, bi_pc = B_head, bi_obtained = []\<rparr>))"

definition max_write :: "'x buffer_helper_scheme \<Rightarrow> nat" where
  "max_write s = (if bh_empty s then bh_bufSize s
                  else if bh_a s < bh_b s then bh_bufSize s - bh_b s else bh_a s - bh_b s)"

definition underlying_seek :: "bool \<Rightarrow> 'x buffer_helper_scheme \<Rightarrow> 'x buffer_helper_scheme" where
  \<comment> \<open>a seek that was not done inside the buffer; the flag tells whether the handler's own seek returned\<close>
  "underlying_seek returns s =
     (if bh_doSeek s then
        (let s = (if returns then s\<lparr>bh_empty := True, bh_a := 0, bh_b := 0\<rparr> else s)
         in wake_client (s\<lparr>bh_waitForInitialFillSize := (bh_initialFillSize s > 0), bh_doSeek := False\<rparr>))
      else s)"

definition buffered_head :: "bool \<Rightarrow> buffered_io \<Rightarrow> buffered_io" where
  \<comment> \<open>from the head of the loop to the wait or the release of the lock\<close>
  "buffered_head returns s =
     (let s = (if bh_empty s then s\<lparr>bh_a := 0, bh_b := 0\<rparr> else s);
          s = underlying_seek returns (seek_in_buffer s);
          maxWrite = max_write s
      in if maxWrite = 0 then s\<lparr>bh_asleep := True, bi_pc := B_waited\<rparr>
         else s\<lparr>bi_pc := B_reading (if bi_maxChunkSize s > maxWrite then maxWrite else bi_maxChunkSize s)\<rparr>)"

definition initial_fill :: "'x buffer_helper_scheme \<Rightarrow> 'x buffer_helper_scheme" where
  "initial_fill s =
     (if bh_waitForInitialFillSize s
         \<and> (fill_size (bh_b s) (bh_a s) (bh_bufSize s)) mod 2 ^ 64 \<ge> int (bh_initialFillSize s)
      then wake_client (s\<lparr>bh_waitForInitialFillSize := False\<rparr>) else s)"

definition end_of_loop :: "bool \<Rightarrow> int \<Rightarrow> bool \<Rightarrow> buffered_io \<Rightarrow> buffered_io" where
  \<comment> \<open>from the condition of the loop, without releasing the lock before the next turn; the second
      flag is \<open>maxWrite == 0\<close>\<close>
  "end_of_loop returns readBytes waited s =
     (if (waited \<or> readBytes > 0 \<or> readBytes = CHECK_SOCKET) \<and> \<not> bh_threadShutdown s
      then buffered_head returns s
      else
        (let s = (if bh_threadShutdown s then s
                  else s\<lparr>bh_eof := (bh_eof s \<or> readBytes = 0), bh_readError := (bh_readError s \<or> readBytes < 0)\<rparr>)
         in wake_client (s\<lparr>bi_pc := B_done\<rparr>)))"

definition buffered_commit :: "bool \<Rightarrow> int \<Rightarrow> string \<Rightarrow> buffered_io \<Rightarrow> buffered_io" where
  "buffered_commit returns readBytes ys s =
     (if readBytes > 0 then
        (let b = bh_b s + nat readBytes
         in if b > bh_bufSize s then s\<lparr>bi_pc := B_failed\<rparr>
            else
              (let s = s\<lparr>bh_b := (if b = bh_bufSize s then 0 else b), bi_obtained := bi_obtained s @ ys\<rparr>;
                   s = (if bh_empty s then wake_client (s\<lparr>bh_empty := False\<rparr>) else s)
               in end_of_loop returns readBytes False (initial_fill s)))
      else if readBytes = CHECK_SOCKET then
        end_of_loop returns readBytes False (wake_client (s\<lparr>bh_checkSocket := True\<rparr>))
      else end_of_loop returns readBytes False s)"

inductive buffered_step :: "buffered_io \<Rightarrow> buffered_io \<Rightarrow> bool" where
  head: "bi_pc s = B_head \<Longrightarrow> lock_free s \<Longrightarrow> buffered_step s (buffered_head returns s)"
| waited: "bi_pc s = B_waited \<Longrightarrow> \<not> bh_asleep s \<Longrightarrow> lock_free s \<Longrightarrow>
     buffered_step s (end_of_loop returns readBytes True s)"
| read: "bi_pc s = B_reading chunkSize \<Longrightarrow> 0 < length ys \<Longrightarrow> length ys \<le> chunkSize \<Longrightarrow>
     cells_write (bh_buffer s) (int (bh_b s)) ys = Inr d \<Longrightarrow>
     buffered_step s (s\<lparr>bh_buffer := d, bi_pc := B_got (int (length ys)) ys\<rparr>)"
| read_none: "bi_pc s = B_reading chunkSize \<Longrightarrow> readBytes \<le> 0 \<Longrightarrow>
     buffered_step s (s\<lparr>bi_pc := B_got readBytes []\<rparr>)"
| read_fault: "bi_pc s = B_reading chunkSize \<Longrightarrow> 0 < length ys \<Longrightarrow> length ys \<le> chunkSize \<Longrightarrow>
     cells_write (bh_buffer s) (int (bh_b s)) ys = Inl e \<Longrightarrow> buffered_step s (s\<lparr>bi_pc := B_failed\<rparr>)"
| got: "bi_pc s = B_got readBytes ys \<Longrightarrow> lock_free s \<Longrightarrow> buffered_step s (buffered_commit returns readBytes ys s)"

inductive_cases buffered_stepE: "buffered_step s s'"

definition buffered_ended :: "buffered_io \<Rightarrow> bool" where
  "buffered_ended s \<longleftrightarrow> bi_pc s = B_done"

abbreviation buffered_reach :: "buffered_io \<Rightarrow> buffered_io \<Rightarrow> bool" where
  "buffered_reach \<equiv> buffer_reach buffered_step buffered_ended"


section \<open>What the thread preserves\<close>

definition buffered_ok :: "buffered_io \<Rightarrow> string \<Rightarrow> bool" where
  "buffered_ok s C \<longleftrightarrow> 0 < bi_maxChunkSize s
     \<and> (bh_waitForInitialFillSize s \<longrightarrow> length C < bh_initialFillSize s)
     \<and> (case bi_pc s of
          B_reading c \<Rightarrow> 0 < c \<and> bh_b s + c \<le> bh_bufSize s \<and> length C + c \<le> bh_bufSize s
        | B_got n ys \<Rightarrow>
            if 0 < n then n = int (length ys) \<and> bh_b s + length ys \<le> bh_bufSize s
              \<and> length C + length ys \<le> bh_bufSize s
              \<and> (\<forall>j < length ys. bh_buffer s ! (bh_b s + j) = Some (ys ! j))
            else ys = []
        | B_failed \<Rightarrow> False
        | _ \<Rightarrow> True)"

lemma max_write_ring:
  assumes "ring_holds s C" "bh_empty s \<longrightarrow> bh_b s = 0"
  shows "bh_b s + max_write s \<le> bh_bufSize s \<and> length C + max_write s \<le> bh_bufSize s
    \<and> (max_write s = 0 \<longleftrightarrow> length C = bh_bufSize s)"
proof -
  have r: "bh_a s < bh_bufSize s" "length C \<le> bh_bufSize s" "bh_empty s \<longleftrightarrow> C = []"
    and b: "bh_b s = (if bh_a s + length C < bh_bufSize s then bh_a s + length C
                      else bh_a s + length C - bh_bufSize s)"
    using assms(1) mod_wrap by (auto simp: ring_holds_def)
  show ?thesis
  proof (cases "C = []")
    case True
    then show ?thesis using r assms(2) by (simp add: max_write_def)
  next
    case False
    then have "0 < length C" by simp
    then show ?thesis using r(1,2) b False unfolding max_write_def r(3) by auto
  qed
qed

lemma wake_client_fields [simp]:
  "bh_inv s C \<Longrightarrow> bh_inv (wake_client s) C"
  "bh_delivered (wake_client s) = bh_delivered s" "buffer_helper.more (wake_client s) = buffer_helper.more s"
  "bh_bufSize (wake_client s) = bh_bufSize s" "bh_b (wake_client s) = bh_b s" "bh_a (wake_client s) = bh_a s"
  "bh_buffer (wake_client s) = bh_buffer s"
  "bh_waitForInitialFillSize (wake_client s) = bh_waitForInitialFillSize s"
  "bh_initialFillSize (wake_client s) = bh_initialFillSize s"
  "bh_threadShutdown (wake_client s) = bh_threadShutdown s"
  "bh_empty (wake_client s) = bh_empty s" "bh_asleep (wake_client s) = bh_asleep s"
  by (simp_all add: wake_client_eq bh_inv_woken)

lemma buffered_wake_fields [simp]:
  "bi_pc (wake_client s) = bi_pc s" "bi_obtained (wake_client s) = bi_obtained s"
  "bi_maxChunkSize (wake_client s) = bi_maxChunkSize s"
  by (simp_all add: wake_client_eq)

lemma initial_fill_law:
  fixes s :: buffered_io
  assumes "bh_inv s C" "C \<noteq> []"
  shows "bh_inv (initial_fill s) C" "bh_delivered (initial_fill s) = bh_delivered s"
    "bi_obtained (initial_fill s) = bi_obtained s" "bi_maxChunkSize (initial_fill s) = bi_maxChunkSize s"
    "bh_threadShutdown (initial_fill s) = bh_threadShutdown s" "bh_asleep (initial_fill s) = bh_asleep s"
    "bh_empty (initial_fill s) = bh_empty s"
    "bh_initialFillSize (initial_fill s) = bh_initialFillSize s"
    "bh_waitForInitialFillSize (initial_fill s) \<longrightarrow> length C < bh_initialFillSize s"
proof -
  have r: "ring_holds s C" using assms(1) by (simp add: bh_inv_def)
  have f: "fill_size (bh_b s) (bh_a s) (bh_bufSize s) = int (length C)"
    using r fill_size_ring [of "bh_a s" "bh_bufSize s" "length C"] assms(2) by (simp add: ring_holds_def)
  have m: "int (length C) mod 2 ^ 64 = int (length C)" using r by (simp add: ring_holds_def)
  have e: "initial_fill s = (if bh_waitForInitialFillSize s \<and> bh_initialFillSize s \<le> length C
      then wake_client (s\<lparr>bh_waitForInitialFillSize := False\<rparr>) else s)"
    unfolding initial_fill_def f m by simp
  have "bh_inv (s\<lparr>bh_waitForInitialFillSize := False\<rparr>) C" by (rule bh_inv_cong [OF _ _ _ _ _ _ _ _ _ assms(1)]) simp_all
  then show "bh_inv (initial_fill s) C" using assms(1) by (simp add: e)
  show "bh_waitForInitialFillSize (initial_fill s) \<longrightarrow> length C < bh_initialFillSize s" by (auto simp: e)
qed (simp_all add: initial_fill_def)

definition reset_empty :: "buffered_io \<Rightarrow> buffered_io" where
  "reset_empty s = (if bh_empty s then s\<lparr>bh_a := 0, bh_b := 0\<rparr> else s)"

lemma reset_empty_inv: "bh_inv s C \<Longrightarrow> bh_inv (reset_empty s) C"
  unfolding reset_empty_def by (rule bh_inv_reset)

lemma reset_empty_fields [simp]:
  "bh_doSeek (reset_empty s) = bh_doSeek s" "bi_maxChunkSize (reset_empty s) = bi_maxChunkSize s"
  "bi_obtained (reset_empty s) = bi_obtained s" "bh_delivered (reset_empty s) = bh_delivered s"
  "bh_waitForInitialFillSize (reset_empty s) = bh_waitForInitialFillSize s"
  "bh_initialFillSize (reset_empty s) = bh_initialFillSize s" "bh_bufSize (reset_empty s) = bh_bufSize s"
  "bh_empty (reset_empty s) = bh_empty s" "bh_empty s \<Longrightarrow> bh_b (reset_empty s) = 0"
  "bh_client (reset_empty s) = bh_client s" "bh_threadShutdown (reset_empty s) = bh_threadShutdown s"
  "bh_eof (reset_empty s) = bh_eof s" "bh_readError (reset_empty s) = bh_readError s" "bh_asleep (reset_empty s) = bh_asleep s"
  by (simp_all add: reset_empty_def)

lemma buffered_head_eq:
  assumes "\<not> bh_doSeek s"
  shows "buffered_head r s =
    (if max_write (reset_empty s) = 0 then (reset_empty s)\<lparr>bh_asleep := True, bi_pc := B_waited\<rparr>
     else (reset_empty s)\<lparr>bi_pc := B_reading (min (bi_maxChunkSize s) (max_write (reset_empty s)))\<rparr>)"
proof -
  have t: "\<not> bh_doSeek (reset_empty s)" using assms by simp
  show ?thesis unfolding buffered_head_def Let_def reset_empty_def [symmetric] seek_in_buffer_idle [OF t]
    using t by (simp add: underlying_seek_def min_def)
qed

lemma buffered_head_law:
  assumes "bh_inv s C" "0 < bi_maxChunkSize s" "bh_waitForInitialFillSize s \<longrightarrow> length C < bh_initialFillSize s"
  shows "bh_inv (buffered_head r s) C \<and> buffered_ok (buffered_head r s) C
    \<and> bi_obtained (buffered_head r s) = bi_obtained s \<and> bh_delivered (buffered_head r s) = bh_delivered s"
proof -
  let ?t = "reset_empty s"
  have t: "bh_inv ?t C" by (rule reset_empty_inv [OF assms(1)])
  have h: "buffered_head r s = (if max_write ?t = 0 then ?t\<lparr>bh_asleep := True, bi_pc := B_waited\<rparr>
     else ?t\<lparr>bi_pc := B_reading (min (bi_maxChunkSize s) (max_write ?t))\<rparr>)"
    using assms(1) by (intro buffered_head_eq) (simp add: bh_inv_def)
  have m: "bh_b ?t + max_write ?t \<le> bh_bufSize ?t" "length C + max_write ?t \<le> bh_bufSize ?t"
    using max_write_ring [of ?t C] t by (simp_all add: bh_inv_def)
  have "bh_inv (buffered_head r s) C" by (rule bh_inv_cong [OF _ _ _ _ _ _ _ _ _ t]) (simp_all add: h)
  moreover have "buffered_ok (buffered_head r s) C" using assms(2,3) m by (auto simp: h buffered_ok_def)
  ultimately show ?thesis by (simp add: h)
qed

lemma end_of_loop_law:
  assumes "bh_inv s C" "0 < bi_maxChunkSize s" "bh_waitForInitialFillSize s \<longrightarrow> length C < bh_initialFillSize s"
  shows "bh_inv (end_of_loop r n w s) C \<and> buffered_ok (end_of_loop r n w s) C
    \<and> bi_obtained (end_of_loop r n w s) = bi_obtained s \<and> bh_delivered (end_of_loop r n w s) = bh_delivered s"
proof -
  define t where "t = (if bh_threadShutdown s then s
    else s\<lparr>bh_eof := (bh_eof s \<or> n = 0), bh_readError := (bh_readError s \<or> n < 0)\<rparr>)"
  have e: "end_of_loop r n w s = (if (w \<or> n > 0 \<or> n = CHECK_SOCKET) \<and> \<not> bh_threadShutdown s
      then buffered_head r s else wake_client (t\<lparr>bi_pc := B_done\<rparr>))"
    by (simp add: end_of_loop_def Let_def t_def)
  have "bh_inv (t\<lparr>bi_pc := B_done\<rparr>) C"
    by (rule bh_inv_cong [OF _ _ _ _ _ _ _ _ _ assms(1)]) (simp_all add: t_def)
  moreover have "buffered_ok (wake_client (t\<lparr>bi_pc := B_done\<rparr>)) C"
    using assms(2,3) by (simp add: buffered_ok_def t_def)
  moreover have "bi_obtained t = bi_obtained s" "bh_delivered t = bh_delivered s" by (simp_all add: t_def)
  ultimately show ?thesis using buffered_head_law [OF assms, of r] by (simp add: e)
qed

lemma buffered_commit_law:
  assumes "bh_inv s C" "buffered_ok s C" "bi_pc s = B_got n ys"
  shows "bh_inv (buffered_commit r n ys s) (C @ ys) \<and> buffered_ok (buffered_commit r n ys s) (C @ ys)
    \<and> bi_obtained (buffered_commit r n ys s) = bi_obtained s @ ys
    \<and> bh_delivered (buffered_commit r n ys s) = bh_delivered s"
proof (cases "0 < n")
  case True
  have k: "n = int (length ys)" "bh_b s + length ys \<le> bh_bufSize s" "length C + length ys \<le> bh_bufSize s"
    and d: "\<And>j. j < length ys \<Longrightarrow> bh_buffer s ! (bh_b s + j) = Some (ys ! j)"
    and o: "0 < bi_maxChunkSize s" "bh_waitForInitialFillSize s \<longrightarrow> length C < bh_initialFillSize s"
    using assms(2,3) True by (auto simp: buffered_ok_def)
  have ys: "ys \<noteq> []" using k(1) True by auto
  define b' where "b' = (if bh_b s + length ys = bh_bufSize s then 0 else bh_b s + length ys)"
  have b': "b' = (bh_b s + length ys) mod bh_bufSize s" using k(2) by (simp add: b'_def)
  have i: "bh_inv (s\<lparr>bh_b := b', bh_empty := False\<rparr>) (C @ ys)"
    by (rule bh_inv_put [OF assms(1) k(3) ys _ b']) (use d k(2) in simp)
  define t where "t = (if bh_empty s then wake_client (s\<lparr>bh_b := b', bi_obtained := bi_obtained s @ ys, bh_empty := False\<rparr>)
     else s\<lparr>bh_b := b', bi_obtained := bi_obtained s @ ys\<rparr>)"
  have "bh_inv (s\<lparr>bh_b := b', bi_obtained := bi_obtained s @ ys, bh_empty := False\<rparr>) (C @ ys)"
    by (rule bh_inv_cong [OF _ _ _ _ _ _ _ _ _ i]) simp_all
  moreover have "bh_inv (s\<lparr>bh_b := b', bi_obtained := bi_obtained s @ ys\<rparr>) (C @ ys)" if "\<not> bh_empty s"
    by (rule bh_inv_cong [OF _ _ _ _ _ _ _ _ _ i]) (simp_all add: that)
  ultimately have t: "bh_inv t (C @ ys)" by (simp add: t_def)
  have f: "bi_maxChunkSize t = bi_maxChunkSize s" "bi_obtained t = bi_obtained s @ ys"
    "bh_delivered t = bh_delivered s" by (simp_all add: t_def)
  have c: "C @ ys \<noteq> []" using ys by simp
  have "buffered_commit r n ys s = end_of_loop r n False (initial_fill t)"
    using True k(2) unfolding buffered_commit_def k(1) by (simp add: Let_def t_def b'_def)
  then show ?thesis
    using end_of_loop_law [of "initial_fill t" "C @ ys" r n False] initial_fill_law [OF t c] o(1) f by simp
next
  case False
  then have ys: "ys = []" and o: "0 < bi_maxChunkSize s"
    "bh_waitForInitialFillSize s \<longrightarrow> length C < bh_initialFillSize s"
    using assms(2,3) by (auto simp: buffered_ok_def)
  define t where "t = (if n = CHECK_SOCKET then wake_client (s\<lparr>bh_checkSocket := True\<rparr>) else s)"
  have "bh_inv (s\<lparr>bh_checkSocket := True\<rparr>) C" by (rule bh_inv_cong [OF _ _ _ _ _ _ _ _ _ assms(1)]) simp_all
  then have t: "bh_inv t C" "0 < bi_maxChunkSize t"
    "bh_waitForInitialFillSize t \<longrightarrow> length C < bh_initialFillSize t" "bi_obtained t = bi_obtained s"
    "bh_delivered t = bh_delivered s"
    using assms(1) o by (simp_all add: t_def)
  have "buffered_commit r n ys s = end_of_loop r n False t" using False by (simp add: buffered_commit_def t_def)
  then show ?thesis using end_of_loop_law [OF t(1,2,3), of r n False] t(4,5) ys by simp
qed

lemma ring_free_part:
  assumes "a < N" "j < l" "b = (a + l) mod N" "b + m \<le> N" "l + m \<le> (N :: nat)"
  shows "(a + j) mod N < b \<or> b + m \<le> (a + j) mod N"
proof -
  have "(a + j) mod N = (if a + j < N then a + j else a + j - N)"
    "b = (if a + l < N then a + l else a + l - N)"
    using assms mod_wrap [of a N] by simp_all
  then show ?thesis using assms(1,2,4,5) by (cases "a + j < N"; cases "a + l < N") auto
qed

lemma buffered_step_law:
  assumes "bh_inv s C" "buffered_ok s C" "buffered_step s s'"
  shows "\<exists>ys. bh_inv s' (C @ ys) \<and> buffered_ok s' (C @ ys) \<and> bi_obtained s' = bi_obtained s @ ys
    \<and> bh_delivered s' = bh_delivered s"
  using assms(3)
proof (cases rule: buffered_step.cases)
  case (head r)
  have "0 < bi_maxChunkSize s" "bh_waitForInitialFillSize s \<longrightarrow> length C < bh_initialFillSize s"
    using assms(2) by (simp_all add: buffered_ok_def)
  then show ?thesis using head buffered_head_law [OF assms(1)] by (intro exI [of _ "[]"]) simp
next
  case (waited r n)
  have "bh_inv (end_of_loop r n True s) C \<and> buffered_ok (end_of_loop r n True s) C
    \<and> bi_obtained (end_of_loop r n True s) = bi_obtained s \<and> bh_delivered (end_of_loop r n True s) = bh_delivered s"
    by (rule end_of_loop_law [OF assms(1)]) (use assms(2) in \<open>simp_all add: buffered_ok_def\<close>)
  then show ?thesis using waited by (intro exI [of _ "[]"]) simp
next
  case (got n ys r)
  then show ?thesis using buffered_commit_law [OF assms(1,2)] by blast
next
  case (read_none c n)
  have "bh_inv s' C" unfolding read_none(1) by (rule bh_inv_cong [OF _ _ _ _ _ _ _ _ _ assms(1)]) simp_all
  then show ?thesis using read_none assms(2) by (intro exI [of _ "[]"]) (simp add: buffered_ok_def)
next
  case (read c ys d)
  have k: "0 < c" "bh_b s + c \<le> bh_bufSize s" "length C + c \<le> bh_bufSize s"
    using assms(2) read(2) unfolding buffered_ok_def by simp_all
  have r: "ring_holds s C" using assms(1) by (simp add: bh_inv_def)
  have l: "length (bh_buffer s) = bh_bufSize s" using r by (simp add: ring_holds_def)
  have d: "length d = bh_bufSize s" "\<forall>j < length ys. d ! (bh_b s + j) = Some (ys ! j)"
    "\<forall>j. j < bh_b s \<or> bh_b s + length ys \<le> j \<longrightarrow> d ! j = bh_buffer s ! j"
    using cells_write_ring [OF l, of "bh_b s" ys] read k by auto
  have "ring_holds (s\<lparr>bh_buffer := d\<rparr>) C"
  proof -
    have "d ! ((bh_a s + j) mod bh_bufSize s) = bh_buffer s ! ((bh_a s + j) mod bh_bufSize s)" if j: "j < length C" for j
    proof -
      have "(bh_a s + j) mod bh_bufSize s < bh_b s \<or> bh_b s + length ys \<le> (bh_a s + j) mod bh_bufSize s"
        by (rule ring_free_part [OF _ j]) (use r k read(4) in \<open>simp_all add: ring_holds_def\<close>)
      then show ?thesis using d(3) by blast
    qed
    then show ?thesis using r d(1) by (simp add: ring_holds_def)
  qed
  then have "bh_inv (s\<lparr>bh_buffer := d\<rparr>) C"
    using assms(1) by (simp add: bh_inv_def client_ok_cong [of "s\<lparr>bh_buffer := d\<rparr>" s])
  then have "bh_inv s' C" by (rule bh_inv_cong [rotated -1]) (simp_all add: read(1))
  moreover have "buffered_ok s' C" using assms(2) read(3,4) k d(2) by (auto simp: read(1) buffered_ok_def)
  ultimately show ?thesis by (intro exI [of _ "[]"]) (simp add: read(1))
next
  case (read_fault c ys e)
  have "length (bh_buffer s) = bh_bufSize s" "bh_b s + length ys \<le> bh_bufSize s"
    using assms read_fault by (auto simp: buffered_ok_def bh_inv_def ring_holds_def)
  then show ?thesis using cells_write_ring [of "bh_buffer s" "bh_bufSize s" "bh_b s" ys] read_fault by auto
qed


interpretation buffered: producer buffered_step buffered_ok bi_obtained buffered_ended
proof
  fix s s' :: buffered_io and C :: string and n :: nat
  show "buffered_ok s C \<Longrightarrow> same_storage s s' \<Longrightarrow> n \<le> length C \<Longrightarrow> buffered_ok s' (drop n C)"
    by (cases s; cases s'; cases "bi_pc s") (auto simp: buffered_ok_def same_storage_def split: if_splits)
  show "buffer_helper.more s' = buffer_helper.more s \<Longrightarrow>
      bi_obtained s' = bi_obtained s \<and> buffered_ended s' = buffered_ended s"
    by (cases s; cases s') (simp add: buffered_ended_def)
  show "buffered_ended s \<Longrightarrow> \<not> buffered_step s s'" by (auto simp: buffered_ended_def elim: buffered_stepE)
qed (rule buffered_step_law)

lemma new_BufferedIOHandler_law:
  assumes "new_BufferedIOHandler bufSize maxChunkSize initialFillSize = Inr s" "bufSize < 2 ^ 31"
  shows "bh_inv s [] \<and> buffered_ok s [] \<and> bi_obtained s = bh_delivered s \<and> bh_delivered s = []"
proof -
  obtain t where t: "new_buffer bufSize initialFillSize False False = Inr t" "0 < maxChunkSize"
    "s = buffer_helper.extend t \<lparr>bi_maxChunkSize = maxChunkSize, bi_pc = B_head, bi_obtained = []\<rparr>"
    using assms(1) by (auto simp: new_BufferedIOHandler_def bind_result_Inr_iff split: if_splits)
  note l = bh_inv_new [OF t(1) assms(2)]
  then show ?thesis using t(2)
    by (simp add: t(3) buffer_helper.extend_def buffered_ok_def bh_inv_def ring_holds_def client_ok_def
        split: client.splits)
qed

section \<open>Nobody waits for ever\<close>

definition waits_ok :: "buffered_io \<Rightarrow> bool" where
  \<comment> \<open>who sleeps has a reason that the other one will remove\<close>
  "waits_ok s \<longleftrightarrow>
     (bh_asleep s \<longrightarrow> bi_pc s = B_waited \<and> bh_a s = bh_b s \<and> \<not> bh_empty s \<and> \<not> bh_threadShutdown s)
     \<and> (bi_pc s = B_head \<longrightarrow> bh_empty s)
     \<and> (bh_client s = Joining \<longrightarrow> bh_threadShutdown s)
     \<and> (\<forall>n. bh_client s \<in> {To_wait (Read n), In_wait (Read n)} \<longrightarrow>
          (bh_empty s \<or> bh_waitForInitialFillSize s) \<and> \<not> stops_waiting s)
     \<and> (buffered_ended s \<longrightarrow> stops_waiting s)"

lemma read_step_waits:
  assumes "waits_ok s" "bh_inv s C" "read_step s s'"
  shows "waits_ok s'"
  using assms(3)
proof (cases rule: read_step.cases)
  case (test n)
  have "bh_client (read_test n s) = To_wait (Read n) \<and> (bh_empty s \<or> bh_waitForInitialFillSize s) \<and> \<not> stops_waiting s
    \<or> bh_client (read_test n s) = Idle \<or> bh_client (read_test n s) = Copy n (bh_b s)"
    by (simp add: read_test_def)
  moreover have "stops_waiting (read_test n s) = stops_waiting s" by (simp add: read_test_def stops_waiting_def)
  moreover have "bh_asleep (read_test n s) = bh_asleep s" "bi_pc (read_test n s) = bi_pc s"
    "bh_a (read_test n s) = bh_a s" "bh_b (read_test n s) = bh_b s" "bh_empty (read_test n s) = bh_empty s"
    "bh_threadShutdown (read_test n s) = bh_threadShutdown s"
    "bh_waitForInitialFillSize (read_test n s) = bh_waitForInitialFillSize s" by (simp_all add: read_test_def)
  ultimately show ?thesis using assms(1) test(1) by (auto simp: waits_ok_def buffered_ended_def)
next
  case (finish xs)
  have "\<not> bh_asleep s'" if "bh_asleep s"
    using assms(1) that by (simp add: finish(1) waits_ok_def client_step_defs)
  moreover have "bh_client s' = Idle" "bi_pc s' = bi_pc s" "stops_waiting s' = stops_waiting s"
    "bh_empty s \<longrightarrow> bh_empty s'" "bh_asleep s' \<longrightarrow> bh_asleep s"
    by (simp_all add: finish(1) client_step_defs stops_waiting_def)
  ultimately show ?thesis using assms(1) by (auto simp: waits_ok_def buffered_ended_def)
qed (use assms(1) in \<open>auto simp: waits_ok_def buffered_ended_def stops_waiting_def wake_thread_def\<close>)


definition client_waits :: "buffered_io \<Rightarrow> bool" where
  "client_waits s \<longleftrightarrow> lock_free s \<and> (bh_client s = Joining \<longrightarrow> bh_threadShutdown s)
     \<and> (\<forall>n. bh_client s = In_wait (Read n) \<longrightarrow>
          (bh_empty s \<or> bh_waitForInitialFillSize s) \<and> \<not> stops_waiting s)"

lemma waits_ok_client: "waits_ok s \<Longrightarrow> lock_free s \<Longrightarrow> client_waits s"
  by (auto simp: waits_ok_def client_waits_def)

lemma client_waits_To_wait: "client_waits s \<Longrightarrow> bh_client s \<noteq> To_wait c"
  by (auto simp: client_waits_def lock_free_def)

lemma client_waits_woken: "client_waits s \<Longrightarrow> client_waits (wake_client s)"
  by (auto simp: client_waits_def wake_client_eq woken_def lock_free_def stops_waiting_def split: client.splits)

lemma wake_client_not_waiting [simp]: "bh_client (wake_client s) \<noteq> In_wait c"
  by (auto simp: wake_client_eq woken_def split: client.splits)

lemma wake_client_other: "bh_client (wake_client s) = Joining \<longleftrightarrow> bh_client s = Joining"
  "lock_free (wake_client s) = lock_free s" "stops_waiting (wake_client s) = stops_waiting s"
  by (auto simp: wake_client_eq woken_def lock_free_def stops_waiting_def split: client.splits)

lemma buffered_head_waits:
  assumes "bh_inv s C" "client_waits s" "\<not> bh_asleep s" "\<not> bh_threadShutdown s \<or> bh_empty s"
  shows "waits_ok (buffered_head r s)"
proof -
  let ?t = "reset_empty s"
  have t: "bh_inv ?t C" by (rule reset_empty_inv [OF assms(1)])
  have d: "\<not> bh_doSeek s" using assms(1) by (simp add: bh_inv_def)
  have m: "bh_a ?t = bh_b ?t \<and> \<not> bh_empty ?t" if "max_write ?t = 0"
  proof -
    have "bh_b ?t < bh_bufSize ?t" "0 < bh_bufSize ?t" using t by (auto simp: bh_inv_def ring_holds_def)
    moreover have "length C = bh_bufSize ?t" using max_write_ring [of ?t C] t that by (simp add: bh_inv_def)
    ultimately show ?thesis using t that mod_wrap [of "bh_a ?t" "bh_bufSize ?t" "length C"]
      by (auto simp: bh_inv_def ring_holds_def)
  qed
  show ?thesis
  proof (cases "max_write ?t = 0")
    case True
    then show ?thesis using assms(2,4) m client_waits_To_wait [OF assms(2)]
      by (auto simp: buffered_head_eq [OF d] waits_ok_def client_waits_def stops_waiting_def buffered_ended_def)
  next
    case False
    then show ?thesis using assms(2,3) client_waits_To_wait [OF assms(2)]
      by (auto simp: buffered_head_eq [OF d] waits_ok_def client_waits_def stops_waiting_def buffered_ended_def)
  qed
qed

lemma end_of_loop_waits:
  assumes "bh_inv s C" "client_waits s" "\<not> bh_asleep s" "w \<longrightarrow> bi_pc s = B_waited"
  shows "waits_ok (end_of_loop r n w s)"
proof (cases "(w \<or> n > 0 \<or> n = CHECK_SOCKET) \<and> \<not> bh_threadShutdown s")
  case True
  then show ?thesis using buffered_head_waits [OF assms(1-3)] by (simp add: end_of_loop_def)
next
  case False
  define t where "t = (if bh_threadShutdown s then s
    else s\<lparr>bh_eof := (bh_eof s \<or> n = 0), bh_readError := (bh_readError s \<or> n < 0)\<rparr>)"
  have "end_of_loop r n w s = wake_client (t\<lparr>bi_pc := B_done\<rparr>)"
    using False by (simp only: end_of_loop_def Let_def t_def if_False)
  moreover have "stops_waiting (t\<lparr>bi_pc := B_done\<rparr>)" using False by (auto simp: t_def stops_waiting_def)
  moreover have "bh_client t = bh_client s" "bh_asleep t = bh_asleep s" "bh_threadShutdown t = bh_threadShutdown s"
    by (simp_all add: t_def)
  moreover have "bh_client (wake_client (t\<lparr>bi_pc := B_done\<rparr>)) \<noteq> To_wait c" for c
    using client_waits_To_wait [OF assms(2)] \<open>bh_client t = bh_client s\<close>
    by (auto simp: wake_client_eq woken_def split: client.splits)
  ultimately show ?thesis using assms(2,3)
    by (auto simp: waits_ok_def wake_client_other client_waits_def)
qed


lemma lock_free_updates [simp]:
  "lock_free (s\<lparr>bh_empty := x\<rparr>) = lock_free s" "lock_free (s\<lparr>bh_b := i\<rparr>) = lock_free s"
  "lock_free (s\<lparr>bh_waitForInitialFillSize := x\<rparr>) = lock_free s" "lock_free (s\<lparr>bh_checkSocket := x\<rparr>) = lock_free s"
  "lock_free (t\<lparr>bi_obtained := ys\<rparr>) = lock_free t"
  by (simp_all add: lock_free_def)

lemma initial_fill_waits:
  fixes s :: buffered_io
  assumes "client_waits s"
  shows "client_waits (initial_fill s)"
  using assms by (auto simp: initial_fill_def wake_client_other client_waits_def stops_waiting_def)

lemma buffered_commit_waits:
  assumes "bh_inv s C" "buffered_ok s C" "bi_pc s = B_got n ys" "client_waits s" "\<not> bh_asleep s"
  shows "waits_ok (buffered_commit r n ys s)"
proof (cases "0 < n")
  case True
  have k: "n = int (length ys)" "bh_b s + length ys \<le> bh_bufSize s" "length C + length ys \<le> bh_bufSize s"
    and d: "\<And>j. j < length ys \<Longrightarrow> bh_buffer s ! (bh_b s + j) = Some (ys ! j)"
    using assms(2,3) True by (auto simp: buffered_ok_def)
  have ys: "ys \<noteq> []" "C @ ys \<noteq> []" using k(1) True by auto
  define u where "u = s\<lparr>bh_b := (if bh_b s + length ys = bh_bufSize s then 0 else bh_b s + length ys),
    bi_obtained := bi_obtained s @ ys\<rparr>"
  define t where "t = (if bh_empty s then wake_client (u\<lparr>bh_empty := False\<rparr>) else u)"
  have "(if bh_b s + length ys = bh_bufSize s then 0 else bh_b s + length ys) = (bh_b s + length ys) mod bh_bufSize s"
    using k(2) by simp
  from bh_inv_put [OF assms(1) k(3) ys(1) _ this] d k(2)
  have i: "bh_inv (s\<lparr>bh_b := if bh_b s + length ys = bh_bufSize s then 0 else bh_b s + length ys, bh_empty := False\<rparr>)
    (C @ ys)" by simp
  have "bh_inv (u\<lparr>bh_empty := False\<rparr>) (C @ ys)"
    by (rule bh_inv_cong [OF _ _ _ _ _ _ _ _ _ i]) (simp_all add: u_def)
  moreover have "bh_inv u (C @ ys)" if "\<not> bh_empty s"
    by (rule bh_inv_cong [OF _ _ _ _ _ _ _ _ _ i]) (simp_all add: u_def that)
  ultimately have t: "bh_inv t (C @ ys)" by (simp add: t_def)
  have "client_waits t"
    using assms(4) by (auto simp: t_def u_def client_waits_def wake_client_other stops_waiting_def)
  then have c: "client_waits (initial_fill t)" by (rule initial_fill_waits)
  have a: "\<not> bh_asleep (initial_fill t)" using assms(5) by (simp add: initial_fill_def t_def u_def)
  have "buffered_commit r n ys s = end_of_loop r n False (initial_fill t)"
    using True k(2) unfolding buffered_commit_def k(1) by (simp add: Let_def t_def u_def)
  then show ?thesis
    using end_of_loop_waits [OF initial_fill_law(1) [OF t ys(2)] c a] by simp
next
  case False
  define t where "t = (if n = CHECK_SOCKET then wake_client (s\<lparr>bh_checkSocket := True\<rparr>) else s)"
  have "bh_inv (s\<lparr>bh_checkSocket := True\<rparr>) C" by (rule bh_inv_cong [OF _ _ _ _ _ _ _ _ _ assms(1)]) simp_all
  then have t: "bh_inv t C" using assms(1) by (simp add: t_def)
  have "client_waits t" "\<not> bh_asleep t"
    using assms(4,5) by (auto simp: t_def client_waits_def wake_client_other stops_waiting_def)
  moreover have "buffered_commit r n ys s = end_of_loop r n False t" using False by (simp add: buffered_commit_def t_def)
  ultimately show ?thesis using end_of_loop_waits [OF t, of False r n] by simp
qed

lemma buffered_step_waits:
  assumes "bh_inv s C" "buffered_ok s C" "waits_ok s" "buffered_step s s'"
  shows "waits_ok s'"
  using assms(4)
proof (cases rule: buffered_step.cases)
  case (head r)
  then have "\<not> bh_asleep s" "bh_empty s" using assms(3) by (auto simp: waits_ok_def)
  then show ?thesis using head buffered_head_waits [OF assms(1) waits_ok_client [OF assms(3)]] by simp
next
  case (waited r n)
  then show ?thesis using end_of_loop_waits [OF assms(1) waits_ok_client [OF assms(3)]] by simp
next
  case (got n ys r)
  then have "\<not> bh_asleep s" using assms(3) by (auto simp: waits_ok_def)
  then show ?thesis using got buffered_commit_waits [OF assms(1,2) _ waits_ok_client [OF assms(3)]] by simp
qed (use assms(3) in \<open>auto simp: waits_ok_def buffered_ended_def stops_waiting_def\<close>)

lemma buffered_reach_waits:
  assumes "new_BufferedIOHandler bufSize maxChunkSize initialFillSize = Inr s0" "bufSize < 2 ^ 31"
    and "buffered_reach s0 s"
  shows "waits_ok s"
  using assms(3)
proof induction
  case start
  have "bh_client s0 = Idle" "\<not> bh_asleep s0" "bi_pc s0 = B_head" "bh_empty s0"
    using assms(1) by (auto simp: new_BufferedIOHandler_def new_buffer_def bind_result_Inr_iff
        buffer_helper.extend_def split: if_splits)
  then show ?case by (simp add: waits_ok_def buffered_ended_def)
next
  case (client s s')
  from buffered.reach_law [of s0 s] new_BufferedIOHandler_law [OF assms(1,2)] client.hyps(1)
  consider (running) C where "bh_inv s C" | (closed) "bh_client s = Closed" by auto
  then show ?case
  proof cases
    case running
    then show ?thesis using read_step_waits client by blast
  next
    case closed
    then show ?thesis using client.hyps(2) by (auto elim: read_stepE)
  qed
next
  case (thread s s')
  from buffered.reach_law [of s0 s] new_BufferedIOHandler_law [OF assms(1,2)] thread.hyps(1)
  consider (running) C where "bh_inv s C" "buffered_ok s C" | (ended) "buffered_ended s" by auto
  then show ?case
  proof cases
    case running
    then show ?thesis using buffered_step_waits thread by blast
  next
    case ended
    then show ?thesis using thread.hyps(2) buffered.ended_law by blast
  qed
next
  case (wakeup s s')
  then show ?case by (auto simp: waits_ok_def stops_waiting_def buffered_ended_def elim!: spuriousE)
next
  case (joined s s')
  then show ?case by (auto simp: joined_iff waits_ok_def stops_waiting_def buffered_ended_def)
qed

lemma buffered_thread_can_run:
  assumes "bh_inv s C" "buffered_ok s C" "waits_ok s"
    and "bh_client s = In_wait (Read n) \<or> bh_client s = Joining \<and> \<not> buffered_ended s"
  shows "\<exists>s'. buffered_step s s'"
proof -
  have l: "lock_free s" using assms(4) by (auto simp: lock_free_def)
  have e: "\<not> buffered_ended s" using assms(3,4) by (auto simp: waits_ok_def)
  have a: "\<not> bh_asleep s"
  proof
    assume a: "bh_asleep s"
    then have f: "bh_a s = bh_b s" "\<not> bh_empty s" "\<not> bh_threadShutdown s" using assms(3) by (auto simp: waits_ok_def)
    have "length C = bh_bufSize s"
      using assms(1) f mod_wrap [of "bh_a s" "bh_bufSize s" "length C"]
      by (auto simp: bh_inv_def ring_holds_def split: if_splits)
    then have "\<not> bh_waitForInitialFillSize s" using assms(1,2) by (auto simp: buffered_ok_def bh_inv_def)
    then show False using assms(3,4) f by (auto simp: waits_ok_def)
  qed
  show ?thesis
  proof (cases "bi_pc s")
    case B_head then show ?thesis using l buffered_step.head by blast
  next
    case B_waited then show ?thesis using l a buffered_step.waited by blast
  next
    case (B_reading c) then show ?thesis using buffered_step.read_none [of s c "-1"] by auto
  next
    case (B_got k ys) then show ?thesis using l buffered_step.got by blast
  qed (use e assms(2) in \<open>simp_all add: buffered_ended_def buffered_ok_def\<close>)
qed

section \<open>A run\<close>

lemma buffered_run:
  \<comment> \<open>a block of four bytes; two bytes are written, one of them is read\<close>
  "\<exists>s0 s. new_BufferedIOHandler 4 2 1 = Inr s0 \<and> buffered_reach s0 s \<and> bh_client s = Idle
     \<and> bh_delivered s = ''a'' \<and> ring_contents s = ''b''"
proof -
  define s0 :: buffered_io where "s0 = buffer_helper.extend
    \<lparr>bh_bufSize = 4, bh_initialFillSize = 1, bh_buffer = replicate 4 None, bh_isOpen = True, bh_eof = False,
     bh_readError = False, bh_waitForInitialFillSize = True, bh_signalAfterEveryRead = False, bh_checkSocket = False,
     bh_empty = True, bh_a = 0, bh_b = 0, bh_posRead = 0, bh_seekEnabled = False,
     bh_doSeek = False, bh_seekOffset = 0, bh_seekWhence = SEEK_SET,
     bh_threadShutdown = False, bh_asleep = False, bh_client = Idle, bh_returned = None, bh_delivered = []\<rparr>
    \<lparr>bi_maxChunkSize = 2, bi_pc = B_head, bi_obtained = []\<rparr>"
  have new: "new_BufferedIOHandler 4 2 1 = Inr s0"
    by (simp add: new_BufferedIOHandler_def new_buffer_def s0_def)
  define s1 where "s1 = s0\<lparr>bi_pc := B_reading 2\<rparr>"
  define s2 where "s2 = s1\<lparr>bh_buffer := [Some CHR ''a'', Some CHR ''b'', None, None], bi_pc := B_got 2 ''ab''\<rparr>"
  define s3 where "s3 = s2\<lparr>bh_b := 2, bh_empty := False, bh_waitForInitialFillSize := False, bi_obtained := ''ab'',
    bi_pc := B_reading 2\<rparr>"
  define s4 where "s4 = s3\<lparr>bh_client := Ready (Read 1), bh_returned := None\<rparr>"
  define s5 where "s5 = s4\<lparr>bh_client := Copy 1 2\<rparr>"
  define s6 where "s6 = s5\<lparr>bh_client := Copied ''a''\<rparr>"
  define s7 where "s7 = read_done ''a'' s6"
  note st = s0_def buffer_helper.extend_def
  have 1: "buffered_head False s0 = s1"
    by (simp add: buffered_head_def s1_def st underlying_seek_def seek_in_buffer_def max_write_def)
  have "cells_write (bh_buffer s1) (int (bh_b s1)) ''ab'' = Inr [Some CHR ''a'', Some CHR ''b'', None, None]"
    by (simp add: s1_def st cells_write_def eval_nat_numeral)
  then have 2: "buffered_step s1 s2"
    unfolding s2_def using buffered_step.read [of s1 2 "''ab''"] by (simp add: s1_def)
  have 3: "buffered_commit False 2 ''ab'' s2 = s3"
    by (simp add: buffered_commit_def s3_def s2_def s1_def st end_of_loop_def initial_fill_def buffered_head_def
        underlying_seek_def seek_in_buffer_def max_write_def wake_client_def fill_size_def Let_def)
  have 5: "read_test 1 s4 = s5"
    by (simp add: read_test_def s5_def s4_def s3_def s2_def s1_def st stops_waiting_def)
  have 6: "read_copy 1 2 s5 = Inr ''a''"
    by (simp add: read_copy_def read_sizes_def s5_def s4_def s3_def s2_def s1_def st fill_size_def size_sub_def
        cells_read_def filled_def Let_def)
  have lock: "lock_free s0" "lock_free s2" by (simp_all add: lock_free_def s2_def s1_def st)
  have b1: "buffered_step s0 s1" using buffered_step.head [OF _ lock(1), of False] 1 by (simp add: st)
  have b3: "buffered_step s2 s3"
    using buffered_step.got [OF _ lock(2), of 2 "''ab''" False] 3 by (simp add: s2_def)
  have c4: "read_step s3 s4"
    unfolding s4_def by (rule read_step.call) (simp_all add: s3_def s2_def s1_def st)
  have c5: "read_step s4 s5" using read_step.test [of s4 1] 5 by (simp add: s4_def)
  have c6: "read_step s5 s6"
    unfolding s6_def by (rule read_step.copy [OF _ 6]) (simp add: s5_def)
  have c7: "read_step s6 s7" unfolding s7_def by (rule read_step.finish) (simp add: s6_def)
  have "buffered_reach s0 s0" by (rule buffer_reach.start)
  then have "buffered_reach s0 s1" by (rule buffer_reach.thread) (rule b1)
  then have "buffered_reach s0 s2" by (rule buffer_reach.thread) (rule 2)
  then have "buffered_reach s0 s3" by (rule buffer_reach.thread) (rule b3)
  then have "buffered_reach s0 s4" by (rule buffer_reach.client) (rule c4)
  then have "buffered_reach s0 s5" by (rule buffer_reach.client) (rule c5)
  then have "buffered_reach s0 s6" by (rule buffer_reach.client) (rule c6)
  then have "buffered_reach s0 s7" by (rule buffer_reach.client) (rule c7)
  moreover have "bh_client s7 = Idle" "bh_delivered s7 = ''a''" "ring_contents s7 = ''b''"
    by (simp_all add: s7_def s6_def s5_def s4_def s3_def s2_def s1_def st read_done_def wake_thread_def
        ring_contents_def ring_bytes_def Let_def)
  ultimately show ?thesis using new by blast
qed

end
