(* ===== verification/Curl_IO.thy ===== *)
theory Curl_IO
  imports Buffered_IO
begin

text \<open>
  \<open>CurlIOHandler\<close> (src/curl_io_handler.cc): the thread that runs \<open>curl_easy_perform\<close> and the
  callback through which curl hands over the bytes it received. The bytes and the result are
  free; as documented, curl ends the transfer with an error when the callback takes fewer
  bytes than it was given. Setting the handle up and the option for the start position are left
  out. Without a seek the thread keeps the laws of \<open>producer\<close>.
\<close>

section \<open>The thread\<close>

datatype curl_pc =
    C_loop                      \<comment> \<open>at the head of the loop of \<open>threadProc\<close>\<close>
  | C_perform                   \<comment> \<open>inside \<open>curl_easy_perform\<close>\<close>
  | C_callback string           \<comment> \<open>before the lock in \<open>curlCallback\<close>\<close>
  | C_waiting string            \<comment> \<open>in \<open>cond.wait\<close> of \<open>curlCallback\<close> or after it\<close>
  | C_copy string nat           \<comment> \<open>unlocked, with \<open>maxWrite\<close>\<close>
  | C_copied string
  | C_result bool               \<comment> \<open>after \<open>curl_easy_perform\<close>; whether it returned \<open>CURLE_OK\<close>\<close>
  | C_flagged                   \<comment> \<open>before the last \<open>notify_one\<close>\<close>
  | C_done
  | C_failed

record curl_io = buffer_helper +
  ci_pc :: curl_pc
  ci_obtained :: string         \<comment> \<open>the bytes put into the buffer so far\<close>

abbreviation CURL_MAX_WRITE_SIZE :: nat where "CURL_MAX_WRITE_SIZE \<equiv> 16384"

definition new_CurlIOHandler :: "zstring \<Rightarrow> nat \<Rightarrow> nat \<Rightarrow> curl_io result" where
  "new_CurlIOHandler URL bufSize initialFillSize =
     bind_result (new_buffer bufSize initialFillSize True True) (\<lambda>s.
       if \<not> string_ok URL then Inl (Throw ''URL has not been set correctly'')
       else if bufSize < CURL_MAX_WRITE_SIZE then
         Inl (Throw (''bufSize must be at least CURL_MAX_WRITE_SIZE('' @ show_nat CURL_MAX_WRITE_SIZE @ '')''))
       else Inr (buffer_helper.extend s \<lparr>ci_pc = C_loop, ci_obtained = []\<rparr>))"

definition curl_head :: "curl_io \<Rightarrow> curl_io" where
  \<comment> \<open>the locked part of the loop of \<open>threadProc\<close>\<close>
  "curl_head s =
     (if bh_doSeek s then
        (let s = (case bh_seekWhence s of
                    SEEK_SET \<Rightarrow> s\<lparr>bh_posRead := bh_seekOffset s\<rparr>
                  | SEEK_CUR \<Rightarrow> s\<lparr>bh_posRead := bh_posRead s + bh_seekOffset s\<rparr>
                  | SEEK_END \<Rightarrow> s)
         in wake_client (s\<lparr>bh_waitForInitialFillSize := (bh_initialFillSize s > 0), bh_doSeek := False,
                           ci_pc := C_perform\<rparr>))
      else s\<lparr>ci_pc := C_perform\<rparr>)"

definition curl_seek :: "curl_io \<Rightarrow> curl_io \<times> bool" where
  \<comment> \<open>the seeks at the head of the callback's loop, and whether the callback returns 0\<close>
  "curl_seek s =
     (let s = seek_in_buffer s
      in if bh_doSeek s then (s\<lparr>bh_a := 0, bh_b := 0, bh_empty := True, ci_pc := C_result False\<rparr>, True)
         else (s, False))"

definition buffer_free :: "'x buffer_helper_scheme \<Rightarrow> int" where
  "buffer_free s =
     (if bh_empty s then to_int32 (int (bh_bufSize s))
      else (let f = to_int32 (int (bh_a s) - int (bh_b s))
            in if f < 0 then to_int32 (f + int (bh_bufSize s)) else f))"

definition curl_space :: "string \<Rightarrow> curl_io \<Rightarrow> curl_io" where
  \<comment> \<open>the rest of the callback's loop after the wait, and the next turn up to its wait, if the bytes
      do not fit\<close>
  "curl_space xs s =
     (if bh_threadShutdown s then s\<lparr>ci_pc := C_result False\<rparr>
      else
        (let s = (if bh_empty s then s\<lparr>bh_a := 0, bh_b := 0\<rparr> else s)
         in if buffer_free s mod 2 ^ 64 < int (length xs) then
              (let (s, stop) = curl_seek s
               in if stop then s else s\<lparr>ci_pc := C_waiting xs, bh_asleep := True\<rparr>)
            else s\<lparr>ci_pc := C_copy xs (max_write s)\<rparr>))"

definition curl_callback :: "string \<Rightarrow> curl_io \<Rightarrow> curl_io" where
  "curl_callback xs s = (let (s, stop) = curl_seek s in if stop then s else curl_space xs s)"

definition curl_copy :: "string \<Rightarrow> nat \<Rightarrow> curl_io \<Rightarrow> char cells result" where
  "curl_copy xs maxWrite s =
     (let write1 = (if length xs > maxWrite then maxWrite else length xs);
          write2 = (if write1 < length xs then length xs - write1 else 0)
      in bind_result (cells_write (bh_buffer s) (int (bh_b s)) (take write1 xs)) (\<lambda>d.
           if write2 \<noteq> 0 then cells_write d 0 (take write2 (drop maxWrite xs)) else Inr d))"

definition curl_commit :: "string \<Rightarrow> curl_io \<Rightarrow> curl_io" where
  "curl_commit xs s =
     (let b = bh_b s + length xs;
          b = (if b \<ge> bh_bufSize s then b - bh_bufSize s else b);
          s = s\<lparr>bh_b := b, ci_obtained := ci_obtained s @ xs\<rparr>;
          s = (if bh_empty s then wake_client (s\<lparr>bh_empty := False\<rparr>) else s)
      in (initial_fill s)\<lparr>ci_pc := C_perform\<rparr>)"

inductive curl_step :: "curl_io \<Rightarrow> curl_io \<Rightarrow> bool" where
  head: "ci_pc s = C_loop \<Longrightarrow> lock_free s \<Longrightarrow> curl_step s (curl_head s)"
| data: "ci_pc s = C_perform \<Longrightarrow> 0 < length xs \<Longrightarrow> length xs \<le> CURL_MAX_WRITE_SIZE \<Longrightarrow>
     length xs \<le> bh_bufSize s \<Longrightarrow> curl_step s (s\<lparr>ci_pc := C_callback xs\<rparr>)"
| too_much: "ci_pc s = C_perform \<Longrightarrow> length (xs :: string) \<le> CURL_MAX_WRITE_SIZE \<Longrightarrow> bh_bufSize s < length xs \<Longrightarrow>
     curl_step s (s\<lparr>ci_pc := C_failed\<rparr>)"
| finished: "ci_pc s = C_perform \<Longrightarrow> curl_step s (s\<lparr>ci_pc := C_result success\<rparr>)"
| callback: "ci_pc s = C_callback xs \<Longrightarrow> lock_free s \<Longrightarrow> curl_step s (curl_callback xs s)"
| waited: "ci_pc s = C_waiting xs \<Longrightarrow> \<not> bh_asleep s \<Longrightarrow> lock_free s \<Longrightarrow> curl_step s (curl_space xs s)"
| copy: "ci_pc s = C_copy xs maxWrite \<Longrightarrow> curl_copy xs maxWrite s = Inr d \<Longrightarrow>
     curl_step s (s\<lparr>bh_buffer := d, ci_pc := C_copied xs\<rparr>)"
| copy_fault: "ci_pc s = C_copy xs maxWrite \<Longrightarrow> curl_copy xs maxWrite s = Inl e \<Longrightarrow>
     curl_step s (s\<lparr>ci_pc := C_failed\<rparr>)"
| copied: "ci_pc s = C_copied xs \<Longrightarrow> lock_free s \<Longrightarrow> curl_step s (curl_commit xs s)"
| again: "ci_pc s = C_result success \<Longrightarrow> bh_doSeek s \<Longrightarrow> curl_step s (s\<lparr>ci_pc := C_loop\<rparr>)"
| flags: "ci_pc s = C_result success \<Longrightarrow> \<not> bh_doSeek s \<Longrightarrow>
     curl_step s (s\<lparr>bh_readError := (bh_readError s \<or> \<not> success), bh_eof := (bh_eof s \<or> success), ci_pc := C_flagged\<rparr>)"
| notify: "ci_pc s = C_flagged \<Longrightarrow> curl_step s (wake_client (s\<lparr>ci_pc := C_done\<rparr>))"

inductive_cases curl_stepE: "curl_step s s'"

definition curl_ended :: "curl_io \<Rightarrow> bool" where
  "curl_ended s \<longleftrightarrow> ci_pc s = C_done"

abbreviation curl_reach :: "curl_io \<Rightarrow> curl_io \<Rightarrow> bool" where
  "curl_reach \<equiv> buffer_reach curl_step curl_ended"


section \<open>What the thread preserves\<close>

definition curl_ok :: "curl_io \<Rightarrow> string \<Rightarrow> bool" where
  "curl_ok s C \<longleftrightarrow> CURL_MAX_WRITE_SIZE \<le> bh_bufSize s
     \<and> (case ci_pc s of
          C_callback xs \<Rightarrow> xs \<noteq> [] \<and> length xs \<le> bh_bufSize s
        | C_waiting xs \<Rightarrow> xs \<noteq> [] \<and> length xs \<le> bh_bufSize s
        | C_copy xs m \<Rightarrow> xs \<noteq> [] \<and> length C + length xs \<le> bh_bufSize s
            \<and> bh_b s + min (length xs) m \<le> bh_bufSize s \<and> (m < length xs \<longrightarrow> bh_b s + m = bh_bufSize s)
        | C_copied xs \<Rightarrow> xs \<noteq> [] \<and> length C + length xs \<le> bh_bufSize s
            \<and> (\<forall>j < length xs. bh_buffer s ! ((bh_b s + j) mod bh_bufSize s) = Some (xs ! j))
        | C_failed \<Rightarrow> False
        | _ \<Rightarrow> True)"

lemma buffer_free_ring:
  assumes "ring_holds s C" "C \<noteq> [] \<or> bh_empty s"
  shows "buffer_free s mod 2 ^ 64 = int (bh_bufSize s - length C)"
proof -
  have r: "bh_a s < bh_bufSize s" "length C \<le> bh_bufSize s" "bh_bufSize s < 2 ^ 31" "bh_empty s \<longleftrightarrow> C = []"
    and b: "bh_b s = (if bh_a s + length C < bh_bufSize s then bh_a s + length C
                      else bh_a s + length C - bh_bufSize s)"
    using assms(1) mod_wrap by (auto simp: ring_holds_def)
  have f: "buffer_free s = int (bh_bufSize s) - int (length C)"
  proof (cases "C = []")
    case True
    then show ?thesis using r by (simp add: buffer_free_def)
  next
    case False
    then have l: "0 < length C" by simp
    show ?thesis
    proof (cases "bh_a s + length C < bh_bufSize s")
      case True
      then show ?thesis using r b l False by (simp add: buffer_free_def Let_def)
    next
      case wrap: False
      then have "int (bh_b s) = int (bh_a s) + int (length C) - int (bh_bufSize s)" using b by simp
      then show ?thesis using r False by (simp add: buffer_free_def Let_def)
    qed
  qed
  show ?thesis unfolding f using r by (subst mod_pos_pos_trivial) auto
qed

lemma curl_max_write_ring:
  assumes "ring_holds s C" "bh_empty s \<longrightarrow> bh_b s = 0" "length C + n \<le> bh_bufSize s"
  shows "bh_b s + min n (max_write s) \<le> bh_bufSize s \<and> (max_write s < n \<longrightarrow> bh_b s + max_write s = bh_bufSize s)"
proof -
  have r: "bh_a s < bh_bufSize s" "length C \<le> bh_bufSize s" "bh_empty s \<longleftrightarrow> C = []"
    and b: "bh_b s = (if bh_a s + length C < bh_bufSize s then bh_a s + length C
                      else bh_a s + length C - bh_bufSize s)"
    using assms(1) mod_wrap by (auto simp: ring_holds_def)
  show ?thesis
  proof (cases "C = []")
    case True
    then show ?thesis using r assms(2,3) by (simp add: max_write_def)
  next
    case False
    then have "0 < length C" by simp
    then show ?thesis using r(1,2) b False assms(3) unfolding max_write_def r(3) by auto
  qed
qed

lemma curl_space_law:
  assumes "bh_inv s C" "xs \<noteq> []" "length xs \<le> bh_bufSize s" "CURL_MAX_WRITE_SIZE \<le> bh_bufSize s"
  shows "bh_inv (curl_space xs s) C \<and> curl_ok (curl_space xs s) C
    \<and> ci_obtained (curl_space xs s) = ci_obtained s \<and> bh_delivered (curl_space xs s) = bh_delivered s"
proof -
  define t where "t = (if bh_empty s then s\<lparr>bh_a := 0, bh_b := 0\<rparr> else s)"
  have t: "bh_inv t C" unfolding t_def by (rule bh_inv_reset [OF assms(1)])
  have f: "\<not> bh_doSeek t" "ci_obtained t = ci_obtained s" "bh_delivered t = bh_delivered s"
    "bh_bufSize t = bh_bufSize s" "bh_empty t \<longrightarrow> bh_b t = 0" "bh_threadShutdown t = bh_threadShutdown s"
    using assms(1) by (simp_all add: t_def bh_inv_def)
  have r: "ring_holds t C" "C \<noteq> [] \<or> bh_empty t" "length C \<le> bh_bufSize t"
    using t by (auto simp: bh_inv_def ring_holds_def)
  have e: "curl_space xs s = (if bh_threadShutdown s then s\<lparr>ci_pc := C_result False\<rparr>
      else if bh_bufSize s - length C < length xs then t\<lparr>ci_pc := C_waiting xs, bh_asleep := True\<rparr>
      else t\<lparr>ci_pc := C_copy xs (max_write t)\<rparr>)"
    unfolding curl_space_def Let_def t_def [symmetric] buffer_free_ring [OF r(1,2)] curl_seek_def
      seek_in_buffer_idle [OF f(1)] using f(1,4) by simp
  have i: "bh_inv (s\<lparr>ci_pc := C_result False\<rparr>) C"
    by (rule bh_inv_cong [OF _ _ _ _ _ _ _ _ _ assms(1)]) simp_all
  have "bh_inv (t\<lparr>ci_pc := p\<rparr>) C" "bh_inv (t\<lparr>ci_pc := p, bh_asleep := True\<rparr>) C" for p
    by (rule bh_inv_cong [OF _ _ _ _ _ _ _ _ _ t]; simp)+
  moreover have "curl_ok (curl_space xs s) C"
    using assms(2-4) f curl_max_write_ring [OF r(1) f(5), of "length xs"] r(3)
    by (auto simp: e curl_ok_def)
  ultimately show ?thesis using i f by (simp add: e)
qed

lemma curl_callback_law:
  assumes "bh_inv s C" "xs \<noteq> []" "length xs \<le> bh_bufSize s" "CURL_MAX_WRITE_SIZE \<le> bh_bufSize s"
  shows "bh_inv (curl_callback xs s) C \<and> curl_ok (curl_callback xs s) C
    \<and> ci_obtained (curl_callback xs s) = ci_obtained s \<and> bh_delivered (curl_callback xs s) = bh_delivered s"
proof -
  have "\<not> bh_doSeek s" using assms(1) by (simp add: bh_inv_def)
  then have "curl_callback xs s = curl_space xs s" by (simp add: curl_callback_def curl_seek_def)
  then show ?thesis using curl_space_law [OF assms] by simp
qed


lemma ring_holds_other:
  assumes "ring_holds s C" "length d = bh_bufSize s"
    and "\<And>i. i < bh_bufSize s \<Longrightarrow> P i \<Longrightarrow> d ! i = bh_buffer s ! i"
    and "\<And>j. j < length C \<Longrightarrow> P ((bh_a s + j) mod bh_bufSize s)"
  shows "ring_holds (s\<lparr>bh_buffer := d\<rparr>) C"
proof -
  have "d ! ((bh_a s + j) mod bh_bufSize s) = bh_buffer s ! ((bh_a s + j) mod bh_bufSize s)" if "j < length C" for j
    by (rule assms(3)) (use assms(1,4) that in \<open>auto simp: ring_holds_def\<close>)
  then show ?thesis using assms(1,2) by (simp add: ring_holds_def)
qed

lemma curl_copy_law:
  assumes "ring_holds s C" "xs \<noteq> []" "length C + length xs \<le> bh_bufSize s"
    and "bh_b s + min (length xs) m \<le> bh_bufSize s" "m < length xs \<longrightarrow> bh_b s + m = bh_bufSize s"
  shows "\<exists>d. curl_copy xs m s = Inr d \<and> ring_holds (s\<lparr>bh_buffer := d\<rparr>) C
    \<and> (\<forall>j < length xs. d ! ((bh_b s + j) mod bh_bufSize s) = Some (xs ! j))"
proof -
  let ?N = "bh_bufSize s" and ?b = "bh_b s"
  have r: "bh_a s < ?N" "length C \<le> ?N" "length (bh_buffer s) = ?N"
    and b: "?b = (bh_a s + length C) mod ?N" using assms(1) by (simp_all add: ring_holds_def)
  have b_less: "?b < ?N" using r b by simp
  define w1 where "w1 = min (length xs) m"
  have w1: "?b + w1 \<le> ?N" "w1 \<le> length xs" using assms(4) by (simp_all add: w1_def)
  obtain d1 where d1: "cells_write (bh_buffer s) (int ?b) (take w1 xs) = Inr d1" "length d1 = ?N"
    "\<forall>j < w1. d1 ! (?b + j) = Some (xs ! j)" "\<forall>j. j < ?b \<or> ?b + w1 \<le> j \<longrightarrow> d1 ! j = bh_buffer s ! j"
    using cells_write_ring [OF r(3), of ?b "take w1 xs"] w1 by auto
  have inside: "(?b + j) mod ?N = (if j < ?N - ?b then ?b + j else ?b + j - ?N)" if "j < length xs" for j
    using mod_wrap [OF b_less, of j] assms(3) that by auto
  have outside: "(bh_a s + j) mod ?N \<noteq> (?b + k) mod ?N" if "j < length C" "k < length xs" for j k
  proof -
    have "(?b + k) mod ?N = (bh_a s + (length C + k)) mod ?N" unfolding b by (simp add: mod_add_left_eq add.assoc)
    moreover have "(bh_a s + j) mod ?N \<noteq> (bh_a s + (length C + k)) mod ?N"
      using mod_wrap [OF r(1), of j] mod_wrap [OF r(1), of "length C + k"] that assms(3) r(1,2) by (auto split: if_splits)
    ultimately show ?thesis by simp
  qed
  have keep: "ring_holds (s\<lparr>bh_buffer := d\<rparr>) C"
    if "length d = ?N" "\<And>i. i < ?N \<Longrightarrow> (\<And>k. k < length xs \<Longrightarrow> i \<noteq> (?b + k) mod ?N) \<Longrightarrow> d ! i = bh_buffer s ! i" for d
    by (rule ring_holds_other [OF assms(1) that(1), where P = "\<lambda>i. \<forall>k < length xs. i \<noteq> (?b + k) mod ?N"])
      (use that(2) outside in blast)+
  show ?thesis
  proof (cases "length xs \<le> m")
    case True
    then have w: "w1 = length xs" by (simp add: w1_def)
    then have c: "curl_copy xs m s = Inr d1" using d1(1) True by (simp add: curl_copy_def w1_def)
    have pos: "(?b + j) mod ?N = ?b + j" if "j < length xs" for j using inside [OF that] w w1 that by auto
    have "ring_holds (s\<lparr>bh_buffer := d1\<rparr>) C"
    proof (rule keep [OF d1(2)])
      fix i assume i: "i < ?N" "\<And>k. k < length xs \<Longrightarrow> i \<noteq> (?b + k) mod ?N"
      have "i < ?b \<or> ?b + w1 \<le> i"
      proof (rule ccontr)
        assume "\<not> ?thesis"
        then have "i - ?b < length xs" "i = ?b + (i - ?b)" using w by auto
        then show False using i(2) pos by metis
      qed
      then show "d1 ! i = bh_buffer s ! i" using d1(4) by blast
    qed
    then show ?thesis using c d1(3) pos w by auto
  next
    case False
    then have m: "w1 = m" "?b + m = ?N" using assms(5) by (auto simp: w1_def)
    define ys where "ys = drop m xs"
    have ys: "0 + length ys \<le> ?N" "ys \<noteq> []" "take (length xs - m) ys = ys" "length ys = length xs - m"
      using False assms(3) by (auto simp: ys_def)
    obtain d2 where d2: "cells_write d1 0 ys = Inr d2" "length d2 = ?N"
      "\<forall>j < length ys. d2 ! j = Some (ys ! j)" "\<forall>j. length ys \<le> j \<longrightarrow> d2 ! j = d1 ! j"
      using cells_write_ring [OF d1(2) ys(1)] by auto
    have "curl_copy xs m s = Inr d2"
      using d1(1) d2(1) False ys(3) m(1) by (simp add: curl_copy_def w1_def ys_def)
    moreover have at: "(?b + j) mod ?N = (if j < m then ?b + j else j - m)" if "j < length xs" for j
      using inside [OF that] m(2) by auto
    moreover have low: "length ys \<le> ?b" using m(2) assms(3) r b_less ys(4) by simp
    have "d2 ! ((?b + j) mod ?N) = Some (xs ! j)" if j: "j < length xs" for j
    proof (cases "j < m")
      case True
      then show ?thesis using at [OF j] d1(3) d2(4) m(1) low by simp
    next
      case False
      then show ?thesis using at [OF j] d2(3) j by (simp add: ys_def)
    qed
    moreover have "ring_holds (s\<lparr>bh_buffer := d2\<rparr>) C"
    proof (rule keep [OF d2(2)])
      fix i assume i: "i < ?N" "\<And>k. k < length xs \<Longrightarrow> i \<noteq> (?b + k) mod ?N"
      have "\<not> i < length ys"
      proof
        assume l: "i < length ys"
        then have "m + i < length xs" by (simp add: ys_def)
        from i(2) [OF this] at [OF this] show False by simp
      qed
      moreover have "i < ?b"
      proof (rule ccontr)
        assume "\<not> i < ?b"
        then have "i - ?b < m" "i = ?b + (i - ?b)" using i(1) m(2) by auto
        moreover then have "i - ?b < length xs" using False by simp
        ultimately show False using i(2) at by (metis (no_types, lifting))
      qed
      ultimately show "d2 ! i = bh_buffer s ! i" using d1(4) d2(4) by simp
    qed
    ultimately show ?thesis by auto
  qed
qed

lemma initial_fill_curl [simp]:
  "ci_obtained (initial_fill s) = ci_obtained s" "ci_pc (initial_fill s) = ci_pc s"
  "bh_bufSize (initial_fill s) = bh_bufSize s" "bh_delivered (initial_fill s) = bh_delivered s"
  by (simp_all add: initial_fill_def wake_client_eq)

lemma initial_fill_inv: "bh_inv s C \<Longrightarrow> bh_inv (initial_fill s) C"
proof -
  assume i: "bh_inv s C"
  have "bh_inv (s\<lparr>bh_waitForInitialFillSize := False\<rparr>) C" by (rule bh_inv_cong [OF _ _ _ _ _ _ _ _ _ i]) simp_all
  then show ?thesis using i by (simp add: initial_fill_def)
qed

lemma curl_commit_law:
  assumes "bh_inv s C" "curl_ok s C" "ci_pc s = C_copied xs"
  shows "bh_inv (curl_commit xs s) (C @ xs) \<and> curl_ok (curl_commit xs s) (C @ xs)
    \<and> ci_obtained (curl_commit xs s) = ci_obtained s @ xs \<and> bh_delivered (curl_commit xs s) = bh_delivered s"
proof -
  have k: "xs \<noteq> []" "length C + length xs \<le> bh_bufSize s" "CURL_MAX_WRITE_SIZE \<le> bh_bufSize s"
    and d: "\<And>j. j < length xs \<Longrightarrow> bh_buffer s ! ((bh_b s + j) mod bh_bufSize s) = Some (xs ! j)"
    using assms(2,3) by (auto simp: curl_ok_def)
  define b' where "b' = (if bh_b s + length xs \<ge> bh_bufSize s then bh_b s + length xs - bh_bufSize s
    else bh_b s + length xs)"
  have "bh_b s < bh_bufSize s" using assms(1) by (auto simp: bh_inv_def ring_holds_def)
  then have b': "b' = (bh_b s + length xs) mod bh_bufSize s"
    using mod_wrap [of "bh_b s" "bh_bufSize s" "length xs"] k(2) by (auto simp: b'_def)
  note p = bh_inv_put [OF assms(1) k(2,1) d b']
  define u where "u = s\<lparr>bh_b := b', ci_obtained := ci_obtained s @ xs\<rparr>"
  define t where "t = (if bh_empty s then wake_client (u\<lparr>bh_empty := False\<rparr>) else u)"
  have "bh_inv (u\<lparr>bh_empty := False\<rparr>) (C @ xs)"
    by (rule bh_inv_cong [OF _ _ _ _ _ _ _ _ _ p]) (simp_all add: u_def)
  moreover have "bh_inv u (C @ xs)" if "\<not> bh_empty s"
    by (rule bh_inv_cong [OF _ _ _ _ _ _ _ _ _ p]) (simp_all add: u_def that)
  ultimately have t: "bh_inv t (C @ xs)" by (simp add: t_def)
  have e: "curl_commit xs s = (initial_fill t)\<lparr>ci_pc := C_perform\<rparr>"
    unfolding curl_commit_def Let_def b'_def [symmetric] u_def [symmetric] t_def by (simp add: u_def)
  have "bh_inv (curl_commit xs s) (C @ xs)"
    by (rule bh_inv_cong [OF _ _ _ _ _ _ _ _ _ initial_fill_inv [OF t]]) (simp_all add: e)
  moreover have "ci_obtained t = ci_obtained s @ xs" "bh_delivered t = bh_delivered s" "bh_bufSize t = bh_bufSize s"
    by (simp_all add: t_def u_def wake_client_eq)
  ultimately show ?thesis using k(3) by (simp add: e curl_ok_def)
qed

lemma curl_step_law:
  assumes "bh_inv s C" "curl_ok s C" "curl_step s s'"
  shows "\<exists>ys. bh_inv s' (C @ ys) \<and> curl_ok s' (C @ ys) \<and> ci_obtained s' = ci_obtained s @ ys
    \<and> bh_delivered s' = bh_delivered s"
proof -
  have d: "\<not> bh_doSeek s" using assms(1) by (simp add: bh_inv_def)
  have move: ?thesis if "s' = s\<lparr>ci_pc := p\<rparr>" "curl_ok (s\<lparr>ci_pc := p\<rparr>) C" for p
  proof -
    have "bh_inv (s\<lparr>ci_pc := p\<rparr>) C" by (rule bh_inv_cong [OF _ _ _ _ _ _ _ _ _ assms(1)]) simp_all
    then show ?thesis using that by (intro exI [of _ "[]"]) simp
  qed
  show ?thesis
    using assms(3)
  proof (cases rule: curl_step.cases)
    case head
    show ?thesis by (rule move [of C_perform]) (use head d assms(2) in \<open>simp_all add: curl_head_def curl_ok_def\<close>)
  next
    case (data xs)
    show ?thesis by (rule move [of "C_callback xs"]) (use data assms(2) in \<open>simp_all add: curl_ok_def\<close>)
  next
    case (finished success)
    show ?thesis by (rule move [of "C_result success"]) (use finished assms(2) in \<open>simp_all add: curl_ok_def\<close>)
  next
    case (callback xs)
    then show ?thesis using curl_callback_law [OF assms(1), of xs] assms(2)
      by (intro exI [of _ "[]"]) (simp add: curl_ok_def)
  next
    case (waited xs)
    then show ?thesis using curl_space_law [OF assms(1), of xs] assms(2)
      by (intro exI [of _ "[]"]) (simp add: curl_ok_def)
  next
    case (copied xs)
    then show ?thesis using curl_commit_law [OF assms(1,2)] by blast
  next
    case (copy xs m d)
    have r: "ring_holds s C" using assms(1) by (simp add: bh_inv_def)
    have k: "xs \<noteq> []" "length C + length xs \<le> bh_bufSize s" "bh_b s + min (length xs) m \<le> bh_bufSize s"
      "m < length xs \<longrightarrow> bh_b s + m = bh_bufSize s" using assms(2) copy(2) by (simp_all add: curl_ok_def)
    from curl_copy_law [OF r k] copy(3)
    have c: "ring_holds (s\<lparr>bh_buffer := d\<rparr>) C"
      "\<forall>j < length xs. d ! ((bh_b s + j) mod bh_bufSize s) = Some (xs ! j)" by auto
    have "bh_inv (s\<lparr>bh_buffer := d\<rparr>) C"
      using assms(1) c(1) client_ok_cong [of "s\<lparr>bh_buffer := d\<rparr>" s C] by (simp add: bh_inv_def)
    then have "bh_inv s' C" by (rule bh_inv_cong [rotated -1]) (simp_all add: copy(1))
    then show ?thesis using copy(1) assms(2) k c(2) by (intro exI [of _ "[]"]) (simp add: curl_ok_def)
  next
    case (copy_fault xs m e)
    have "ring_holds s C" using assms(1) by (simp add: bh_inv_def)
    then show ?thesis using curl_copy_law [of s C xs m] copy_fault assms(2) by (auto simp: curl_ok_def)
  next
    case (flags success)
    have "bh_inv s' C" unfolding flags(1) by (rule bh_inv_cong [OF _ _ _ _ _ _ _ _ _ assms(1)]) simp_all
    then show ?thesis using flags assms(2) by (intro exI [of _ "[]"]) (simp add: curl_ok_def)
  next
    case notify
    have "bh_inv (s\<lparr>ci_pc := C_done\<rparr>) C" by (rule bh_inv_cong [OF _ _ _ _ _ _ _ _ _ assms(1)]) simp_all
    from bh_inv_woken [OF this] show ?thesis using notify assms(2)
      by (intro exI [of _ "[]"]) (simp add: curl_ok_def wake_client_eq)
  qed (use d assms(2) in \<open>auto simp: curl_ok_def\<close>)
qed

interpretation curl: producer curl_step curl_ok ci_obtained curl_ended
proof
  fix s s' :: curl_io and C :: string and n :: nat
  show "curl_ok s C \<Longrightarrow> same_storage s s' \<Longrightarrow> n \<le> length C \<Longrightarrow> curl_ok s' (drop n C)"
    by (cases s; cases s'; cases "ci_pc s") (auto simp: curl_ok_def same_storage_def)
  show "buffer_helper.more s' = buffer_helper.more s \<Longrightarrow>
      ci_obtained s' = ci_obtained s \<and> curl_ended s' = curl_ended s"
    by (cases s; cases s') (simp add: curl_ended_def)
  show "curl_ended s \<Longrightarrow> \<not> curl_step s s'" by (auto simp: curl_ended_def elim: curl_stepE)
qed (rule curl_step_law)

lemma new_CurlIOHandler_law:
  assumes "new_CurlIOHandler URL bufSize initialFillSize = Inr s" "bufSize < 2 ^ 31"
  shows "bh_inv s [] \<and> curl_ok s [] \<and> ci_obtained s = bh_delivered s \<and> bh_delivered s = []"
proof -
  obtain t where t: "new_buffer bufSize initialFillSize True True = Inr t" "CURL_MAX_WRITE_SIZE \<le> bufSize"
    "s = buffer_helper.extend t \<lparr>ci_pc = C_loop, ci_obtained = []\<rparr>"
    using assms(1) by (auto simp: new_CurlIOHandler_def bind_result_Inr_iff split: if_splits)
  note l = bh_inv_new [OF t(1) assms(2)]
  then show ?thesis using t(2)
    by (simp add: t(3) buffer_helper.extend_def curl_ok_def bh_inv_def ring_holds_def client_ok_def
        split: client.splits)
qed


section \<open>What goes wrong\<close>

text \<open>
  The last wake-up of \<open>threadProc\<close> is sent without \<open>mutex\<close>: a client that has just found the
  buffer empty and the transfer not ended misses it and waits for ever.
\<close>

lemma curl_end_missed:
  assumes "new_CurlIOHandler URL bufSize 0 = Inr s0"
  shows "\<exists>s. curl_reach s0 s \<and> bh_client s = In_wait (Read 1) \<and> bh_eof s
    \<and> \<not> (\<exists>s'. curl_step s s' \<or> read_step s s')"
proof -
  have s0: "bh_client s0 = Idle" "bh_isOpen s0" "bh_empty s0" "\<not> stops_waiting s0" "\<not> bh_checkSocket s0"
    "\<not> bh_doSeek s0" "ci_pc s0 = C_loop"
    using assms by (auto simp: new_CurlIOHandler_def new_buffer_def bind_result_Inr_iff
        buffer_helper.extend_def stops_waiting_def split: if_splits)
  define s1 where "s1 = s0\<lparr>ci_pc := C_perform\<rparr>"
  define s2 where "s2 = s1\<lparr>bh_client := Ready (Read 1), bh_returned := None\<rparr>"
  define s3 where "s3 = s2\<lparr>bh_client := To_wait (Read 1)\<rparr>"
  define s4 where "s4 = s3\<lparr>ci_pc := C_result True\<rparr>"
  define s5 where "s5 = s4\<lparr>bh_readError := (bh_readError s4 \<or> \<not> True), bh_eof := (bh_eof s4 \<or> True), ci_pc := C_flagged\<rparr>"
  define s6 where "s6 = wake_client (s5\<lparr>ci_pc := C_done\<rparr>)"
  define s7 where "s7 = s6\<lparr>bh_client := In_wait (Read 1)\<rparr>"
  note d = s1_def s2_def s3_def s4_def s5_def s6_def s7_def
  have "curl_step s0 s1"
    using curl_step.head [of s0] s0 by (simp add: d curl_head_def lock_free_def)
  then have r1: "curl_reach s0 s1" by (rule buffer_reach.thread [OF buffer_reach.start])
  have "read_step s1 s2" unfolding s2_def by (rule read_step.call) (simp_all add: d s0)
  then have r2: "curl_reach s0 s2" by (rule buffer_reach.client [OF r1])
  have "read_step s2 (read_test 1 s2)" by (rule read_step.test) (simp add: d)
  moreover have "read_test 1 s2 = s3" using s0 by (simp add: d read_test_def stops_waiting_def)
  ultimately have r3: "curl_reach s0 s3" using buffer_reach.client [OF r2] by simp
  have "curl_step s3 s4" unfolding s4_def by (rule curl_step.finished) (simp add: d)
  then have r4: "curl_reach s0 s4" by (rule buffer_reach.thread [OF r3])
  have "curl_step s4 s5" unfolding s5_def by (rule curl_step.flags) (simp_all add: d s0)
  then have r5: "curl_reach s0 s5" by (rule buffer_reach.thread [OF r4])
  have "curl_step s5 s6" unfolding s6_def by (rule curl_step.notify) (simp add: d)
  then have r6: "curl_reach s0 s6" by (rule buffer_reach.thread [OF r5])
  have "read_step s6 s7" unfolding s7_def
    by (rule read_step.sleep) (simp add: d wake_client_def)
  then have r7: "curl_reach s0 s7" by (rule buffer_reach.client [OF r6])
  have "bh_client s7 = In_wait (Read 1)" "bh_eof s7" "ci_pc s7 = C_done" by (simp_all add: d wake_client_def)
  then show ?thesis using r7 by (intro exI [of _ s7]) (auto elim: curl_stepE read_stepE)
qed

text \<open>
  While the client waits for the initial fill, the callback may wait for room: neither goes on.
\<close>

lemma curl_fill_deadlock:
  assumes "new_CurlIOHandler URL CURL_MAX_WRITE_SIZE initialFillSize = Inr s0" "1 < initialFillSize"
  shows "\<exists>s. curl_reach s0 s \<and> bh_client s = In_wait (Read 1) \<and> bh_asleep s \<and> \<not> stops_waiting s
    \<and> \<not> (\<exists>s'. curl_step s s' \<or> read_step s s')"
proof -
  define N where "N = CURL_MAX_WRITE_SIZE"
  have s0: "bh_client s0 = Idle" "bh_isOpen s0" "bh_empty s0" "\<not> bh_threadShutdown s0" "\<not> bh_eof s0"
    "\<not> bh_readError s0" "\<not> bh_checkSocket s0" "\<not> bh_doSeek s0" "ci_pc s0 = C_loop" "bh_bufSize s0 = N"
    "bh_waitForInitialFillSize s0" "bh_initialFillSize s0 = initialFillSize"
    using assms by (auto simp: new_CurlIOHandler_def new_buffer_def bind_result_Inr_iff N_def
        buffer_helper.extend_def split: if_splits)
  have i0: "bh_inv s0 []" "curl_ok s0 []" using new_CurlIOHandler_law [OF assms(1)] by simp_all
  have N: "1 < N" "N < 2 ^ 31" by (simp_all add: N_def)
  define s1 where "s1 = s0\<lparr>ci_pc := C_perform\<rparr>"
  define s2 where "s2 = s1\<lparr>ci_pc := C_callback ''x''\<rparr>"
  define s3 where "s3 = s2\<lparr>bh_a := 0, bh_b := 0, ci_pc := C_copy ''x'' N\<rparr>"
  have "curl_step s0 s1" using curl_step.head [of s0] s0 by (simp add: s1_def curl_head_def lock_free_def)
  then have r1: "curl_reach s0 s1" by (rule buffer_reach.thread [OF buffer_reach.start])
  have "curl_step s1 s2" unfolding s2_def by (rule curl_step.data) (use N s0 in \<open>simp_all add: s1_def\<close>)
  then have r2: "curl_reach s0 s2" by (rule buffer_reach.thread [OF r1])
  have i2: "bh_inv s2 []" by (rule bh_inv_cong [OF _ _ _ _ _ _ _ _ _ i0(1)]) (simp_all add: s1_def s2_def)
  have "curl_callback ''x'' s2 = s3"
    using N s0 by (simp add: curl_callback_def curl_seek_def curl_space_def s2_def s1_def s3_def
        buffer_free_def max_write_def Let_def)
  then have "curl_step s2 s3" using curl_step.callback [of s2 "''x''"] s0 by (simp add: s2_def s1_def lock_free_def)
  then have r3: "curl_reach s0 s3" by (rule buffer_reach.thread [OF r2])
  obtain C3 where i3: "bh_inv s3 C3" "curl_ok s3 C3" "ci_obtained s3 = bh_delivered s3 @ C3"
    using curl.reach_law [of s0 s3] new_CurlIOHandler_law [OF assms(1)] r3 s0(1)
    by (auto simp: s3_def s2_def s1_def)
  have C3: "C3 = []" using i3(1) s0 by (simp add: bh_inv_def ring_holds_def s3_def s2_def s1_def)
  obtain d where d: "curl_copy ''x'' N s3 = Inr d"
    using curl_copy_law [of s3 C3 "''x''" N] i3(1,2) by (auto simp: bh_inv_def curl_ok_def s3_def)
  define s4 where "s4 = s3\<lparr>bh_buffer := d, ci_pc := C_copied ''x''\<rparr>"
  have "curl_step s3 s4" unfolding s4_def by (rule curl_step.copy [OF _ d]) (simp add: s3_def)
  then have r4: "curl_reach s0 s4" by (rule buffer_reach.thread [OF r3])
  define s5 where "s5 = curl_commit ''x'' s4"
  have "curl_step s4 s5" unfolding s5_def
    by (rule curl_step.copied) (use s0 in \<open>simp_all add: s4_def s3_def s2_def s1_def lock_free_def\<close>)
  then have r5: "curl_reach s0 s5" by (rule buffer_reach.thread [OF r4])
  have f5: "bh_client s5 = Idle" "bh_isOpen s5" "\<not> bh_threadShutdown s5" "\<not> bh_eof s5" "\<not> bh_readError s5"
    "\<not> bh_checkSocket s5" "\<not> bh_doSeek s5" "ci_pc s5 = C_perform" "bh_bufSize s5 = N" "\<not> bh_empty s5"
    "bh_waitForInitialFillSize s5" "bh_a s5 = 0" "bh_b s5 = 1"
    using s0 N assms(2) by (simp_all add: s5_def curl_commit_def s4_def s3_def s2_def s1_def initial_fill_def
        fill_size_def wake_client_def Let_def)
  define xs where "xs = replicate N (CHR ''x'')"
  define s6 where "s6 = s5\<lparr>ci_pc := C_callback xs\<rparr>"
  define s7 where "s7 = s6\<lparr>ci_pc := C_waiting xs, bh_asleep := True\<rparr>"
  have "curl_step s5 s6" unfolding s6_def
    by (rule curl_step.data) (use f5 N in \<open>simp_all add: xs_def\<close>, simp add: N_def)
  then have r6: "curl_reach s0 s6" by (rule buffer_reach.thread [OF r5])
  have "buffer_free s6 = int N - 1" using f5 N by (simp add: buffer_free_def s6_def Let_def)
  then have b: "buffer_free s6 mod 2 ^ 64 < int (length xs)" using N by (simp add: xs_def)
  have ds: "\<not> bh_doSeek s6" using f5 by (simp add: s6_def)
  have e6: "\<not> bh_threadShutdown s6" "\<not> bh_empty s6" using f5 by (simp_all add: s6_def)
  have "curl_callback xs s6 = s7"
    unfolding curl_callback_def curl_seek_def seek_in_buffer_idle [OF ds] curl_space_def
    using ds e6 b by (simp add: s7_def Let_def)
  then have "curl_step s6 s7" using curl_step.callback [of s6 xs] f5 by (simp add: s6_def lock_free_def)
  then have r7: "curl_reach s0 s7" by (rule buffer_reach.thread [OF r6])
  define s8 where "s8 = s7\<lparr>bh_client := Ready (Read 1), bh_returned := None\<rparr>"
  define s9 where "s9 = s8\<lparr>bh_client := To_wait (Read 1)\<rparr>"
  define s10 where "s10 = s9\<lparr>bh_client := In_wait (Read 1)\<rparr>"
  have "read_step s7 s8" unfolding s8_def by (rule read_step.call) (use f5 in \<open>simp_all add: s7_def s6_def\<close>)
  then have r8: "curl_reach s0 s8" by (rule buffer_reach.client [OF r7])
  have "read_step s8 (read_test 1 s8)" by (rule read_step.test) (simp add: s8_def)
  moreover have "read_test 1 s8 = s9"
    using f5 by (simp add: s9_def s8_def s7_def s6_def read_test_def stops_waiting_def)
  ultimately have r9: "curl_reach s0 s9" using buffer_reach.client [OF r8] by simp
  have "read_step s9 s10" unfolding s10_def by (rule read_step.sleep) (simp add: s9_def)
  then have r10: "curl_reach s0 s10" by (rule buffer_reach.client [OF r9])
  have "bh_client s10 = In_wait (Read 1)" "bh_asleep s10" "ci_pc s10 = C_waiting xs" "\<not> stops_waiting s10"
    using f5 by (simp_all add: s10_def s9_def s8_def s7_def s6_def stops_waiting_def)
  then show ?thesis using r10 by (intro exI [of _ s10]) (auto elim: curl_stepE read_stepE)
qed

text \<open>
  A seek to a position before the start of the memory block is taken for one inside the buffer,
  and the next \<open>read\<close> uses an offset outside the block.
\<close>

lemma backward_seek_faults:
  fixes s :: "'x buffer_helper_scheme"
  assumes "ring_holds s C" "C \<noteq> []" "bh_seekEnabled s" "bh_isOpen s" "0 \<le> offset"
    and "offset + int (bh_a s) < bh_posRead s" "bh_posRead s < 2 ^ 31" "0 < n"
  shows "\<exists>s1. seek_call offset SEEK_SET s = Inr s1
    \<and> \<not> bh_doSeek (seek_in_buffer s1) \<and> read_copy n (bh_b (seek_in_buffer s1)) (seek_in_buffer s1) = Inl Abort"
proof -
  define s1 where "s1 = wake_thread (s\<lparr>bh_doSeek := True, bh_seekOffset := offset, bh_seekWhence := SEEK_SET,
    bh_client := Ready Seek\<rparr>)"
  have c: "seek_call offset SEEK_SET s = Inr s1" using assms(3-5) by (simp add: seek_call_def s1_def)
  have r: "bh_a s < bh_bufSize s" "bh_bufSize s < 2 ^ 31" "length C \<le> bh_bufSize s" "length (bh_buffer s) = bh_bufSize s"
    "bh_b s = (bh_a s + length C) mod bh_bufSize s" "\<not> bh_empty s"
    using assms(1,2) by (simp_all add: ring_holds_def)
  have f: "fill_size (bh_b s) (bh_a s) (bh_bufSize s) = int (length C)"
    unfolding r(5) by (rule fill_size_ring) (use r assms(2) in auto)
  define k where "k = offset - bh_posRead s"
  have k: "k < 0" "- (2 ^ 31) < k" "int (bh_a s) + k < 0" using assms(5,6,7) by (auto simp: k_def)
  have rel: "to_int32 (to_int32 offset - bh_posRead s) = k"
    using assms(5-7) k by (simp add: k_def)
  define a where "a = nat ((int (bh_a s) + k) mod 2 ^ 64)"
  have "(int (bh_a s) + k) mod 2 ^ 64 = (int (bh_a s) + k + 2 ^ 64) mod 2 ^ 64" by simp
  also have "\<dots> = int (bh_a s) + k + 2 ^ 64"
    by (rule mod_pos_pos_trivial) (use k in \<open>simp_all\<close>)
  finally have "(int (bh_a s) + k) mod 2 ^ 64 = int (bh_a s) + k + 2 ^ 64" .
  then have a: "int a = int (bh_a s) + k + 2 ^ 64" using k by (simp add: a_def)
  have big: "2 * bh_bufSize s < a" using a k(2) r(2) by simp
  define t where "t = s1\<lparr>bh_a := a - bh_bufSize s, bh_posRead := bh_posRead s + k, bh_doSeek := False\<rparr>"
  have bl: "bh_b s < bh_bufSize s" "bh_bufSize s < a - bh_bufSize s" using r(1,5) big by auto
  have nb: "a - bh_bufSize s \<noteq> bh_b s" using bl by linarith
  have e: "seek_in_buffer s1 = wake_client t"
    using nb big r(6) f rel k(1) a_def [symmetric]
    by (simp add: seek_in_buffer_def s1_def wake_thread_def t_def Let_def)
  have "read_copy n (bh_b s) (wake_client t) = Inl Abort"
  proof -
    obtain m1 m2 where m: "read_sizes (a - bh_bufSize s) (bh_b s) (bh_bufSize s) n = (m1, m2)" by fastforce
    have "cells_read (bh_buffer s) (a - bh_bufSize s) m1 = Inl Abort"
      using big r(4) by (auto simp: cells_read_def)
    then show ?thesis using m
      by (simp add: read_copy_def t_def s1_def wake_thread_def wake_client_eq)
  qed
  moreover have "bh_b (wake_client t) = bh_b s" "\<not> bh_doSeek (wake_client t)"
    by (simp_all add: t_def s1_def wake_client_eq wake_thread_def)
  ultimately show ?thesis using c by (intro exI [of _ s1]) (simp add: e)
qed

end
