(* ===== verification/Actions.thy ===== *)
theory Actions
  imports Prelude
begin

text \<open>
  Sequences of operations on a state that may fail. A failing operation keeps the
  state it has reached: an exception thrown half way does not undo the statements
  the database has already executed.
\<close>

named_theorems action_simps "evaluation of sequenced operations on a state"

type_synonym ('s, 'a) action = "'s \<Rightarrow> 'a result \<times> 's"

definition and_then :: "('s, 'a) action \<Rightarrow> ('a \<Rightarrow> ('s, 'b) action) \<Rightarrow> ('s, 'b) action" where
  "and_then m f s = (case m s of (Inl e, t) \<Rightarrow> (Inl e, t) | (Inr x, t) \<Rightarrow> f x t)"

definition give :: "'a \<Rightarrow> ('s, 'a) action" where
  "give x s = (Inr x, s)"

definition throw :: "failure \<Rightarrow> ('s, 'a) action" where
  "throw e s = (Inl e, s)"

definition of_result :: "'a result \<Rightarrow> ('s, 'a) action" where
  "of_result r s = (r, s)"

definition look :: "('s \<Rightarrow> 'a) \<Rightarrow> ('s, 'a) action" where
  "look f s = (Inr (f s), s)"

definition change :: "('s \<Rightarrow> 's) \<Rightarrow> ('s, unit) action" where
  "change f s = (Inr (), f s)"

fun for_each :: "('a \<Rightarrow> ('s, unit) action) \<Rightarrow> 'a list \<Rightarrow> ('s, unit) action" where
  "for_each f [] = give ()"
| "for_each f (x # xs) = and_then (f x) (\<lambda>_. for_each f xs)"

fun map_each :: "('a \<Rightarrow> ('s, 'b) action) \<Rightarrow> 'a list \<Rightarrow> ('s, 'b list) action" where
  "map_each f [] = give []"
| "map_each f (x # xs) = and_then (f x) (\<lambda>y. and_then (map_each f xs) (\<lambda>ys. give (y # ys)))"

lemma action_apply [simp, action_simps]:
  "give x s = (Inr x, s)" "throw e s = (Inl e, s)" "of_result r s = (r, s)"
  "look f s = (Inr (f s), s)" "change g s = (Inr (), g s)"
  by (simp_all add: give_def throw_def of_result_def look_def change_def)

lemma and_then_Inr [action_simps]: "m s = (Inr x, t) \<Longrightarrow> and_then m f s = f x t"
  and and_then_Inl [action_simps]: "m s = (Inl e, t) \<Longrightarrow> and_then m f s = (Inl e, t)"
  by (simp_all add: and_then_def)

lemma and_then_simps [simp, action_simps]:
  "and_then (give x) f = f x"
  "and_then (throw e) f = throw e"
  "and_then (of_result r) f s = (case r of Inl e \<Rightarrow> (Inl e, s) | Inr x \<Rightarrow> f x s)"
  "and_then (look g) f s = f (g s) s"
  "and_then (change h) u s = u () (h s)"
  by (simp_all add: and_then_def fun_eq_iff split: sum.split)

lemma and_then_assoc: "and_then (and_then m f) g = and_then m (\<lambda>x. and_then (f x) g)"
  by (simp add: and_then_def fun_eq_iff split: prod.split sum.split)

lemma and_then_done:
  "and_then m f s = (Inr y, u) \<longleftrightarrow> (\<exists>x t. m s = (Inr x, t) \<and> f x t = (Inr y, u))"
  by (auto simp: and_then_def split: prod.split sum.split)

lemma and_then_cong [fundef_cong]:
  "s = s' \<Longrightarrow> m s' = m' s' \<Longrightarrow> (\<And>x t. m' s' = (Inr x, t) \<Longrightarrow> f x t = f' x t) \<Longrightarrow>
     and_then m f s = and_then m' f' s'"
  by (auto simp: and_then_def split: prod.split sum.split)

text \<open>
  A property of the state that an operation keeps, whether it fails or not, and
  how it goes through a sequence.
\<close>

definition keeps :: "('s \<Rightarrow> bool) \<Rightarrow> ('s, 'a) action \<Rightarrow> bool" where
  "keeps P m \<longleftrightarrow> (\<forall>s. P s \<longrightarrow> P (snd (m s)))"

named_theorems keeps_intros "operations that keep a property of the state"

lemma keepsI: "(\<And>s. P s \<Longrightarrow> P (snd (m s))) \<Longrightarrow> keeps P m"
  by (simp add: keeps_def)

lemma keepsD: "keeps P m \<Longrightarrow> P s \<Longrightarrow> P (snd (m s))"
  by (simp add: keeps_def)

lemma keeps_simple [keeps_intros, simp]:
  "keeps P (give x)" "keeps P (throw e)" "keeps P (of_result r)" "keeps P (look f)"
  by (simp_all add: keeps_def)

lemma keeps_change [keeps_intros]: "(\<And>s. P s \<Longrightarrow> P (g s)) \<Longrightarrow> keeps P (change g)"
  by (simp add: keeps_def)

lemma keeps_and_then [keeps_intros]:
  "keeps P m \<Longrightarrow> (\<And>x. keeps P (f x)) \<Longrightarrow> keeps P (and_then m f)"
  unfolding keeps_def and_then_def by (fastforce split: prod.split sum.split)

lemma keeps_at: "P (snd (m s)) \<Longrightarrow> (\<And>x. keeps P (f x)) \<Longrightarrow> P (snd (and_then m f s))"
  by (auto simp: and_then_def keeps_def split: prod.split sum.split)

lemma keeps_if [keeps_intros]: "(b \<Longrightarrow> keeps P m) \<Longrightarrow> (\<not> b \<Longrightarrow> keeps P n) \<Longrightarrow> keeps P (if b then m else n)"
  by simp

lemma keeps_for_each [keeps_intros]: "(\<And>x. x \<in> set xs \<Longrightarrow> keeps P (f x)) \<Longrightarrow> keeps P (for_each f xs)"
  by (induction xs) (auto intro!: keeps_intros)

lemma keeps_map_each [keeps_intros]: "(\<And>x. x \<in> set xs \<Longrightarrow> keeps P (f x)) \<Longrightarrow> keeps P (map_each f xs)"
  by (induction xs) (auto intro!: keeps_intros)

text \<open>
  What holds after an operation that has returned, with the rule for a sequence.
\<close>

definition returns :: "('s \<Rightarrow> bool) \<Rightarrow> ('s, 'a) action \<Rightarrow> ('a \<Rightarrow> 's \<Rightarrow> bool) \<Rightarrow> bool" where
  "returns P m Q \<longleftrightarrow> (\<forall>s x t. P s \<longrightarrow> m s = (Inr x, t) \<longrightarrow> Q x t)"

lemma returnsI: "(\<And>s x t. P s \<Longrightarrow> m s = (Inr x, t) \<Longrightarrow> Q x t) \<Longrightarrow> returns P m Q"
  by (simp add: returns_def)

lemma returnsD: "returns P m Q \<Longrightarrow> P s \<Longrightarrow> m s = (Inr x, t) \<Longrightarrow> Q x t"
  by (simp add: returns_def)

lemma returns_and_then: "returns P m Q \<Longrightarrow> (\<And>x. returns (Q x) (f x) R) \<Longrightarrow> returns P (and_then m f) R"
  unfolding returns_def and_then_done by blast

lemma returns_give: "(\<And>s. P s \<Longrightarrow> Q x s) \<Longrightarrow> returns P (give x) Q"
  by (simp add: returns_def)

lemma returns_of_result: "(\<And>x. r = Inr x \<Longrightarrow> returns P (f x) Q) \<Longrightarrow> returns P (and_then (of_result r) f) Q"
  by (simp add: returns_def split: sum.split)

lemma returns_pre: "returns P m Q \<Longrightarrow> (\<And>s. P' s \<Longrightarrow> P s) \<Longrightarrow> returns P' m Q"
  by (auto simp: returns_def)

lemma returns_post: "returns P m Q \<Longrightarrow> (\<And>x s. Q x s \<Longrightarrow> Q' x s) \<Longrightarrow> returns P m Q'"
  unfolding returns_def by blast

lemma returns_if: "(b \<Longrightarrow> returns P m Q) \<Longrightarrow> (\<not> b \<Longrightarrow> returns P n Q) \<Longrightarrow> returns P (if b then m else n) Q"
  by simp

lemma returns_assuming: "(\<And>s. P s \<Longrightarrow> b) \<Longrightarrow> (b \<Longrightarrow> returns P m Q) \<Longrightarrow> returns P m Q"
  unfolding returns_def by blast

section \<open>Actions that succeed\<close>

definition succeeds :: "('s \<Rightarrow> bool) \<Rightarrow> ('s, 'a) action \<Rightarrow> ('a \<Rightarrow> 's \<Rightarrow> bool) \<Rightarrow> bool" where
  \<comment> \<open>total correctness: the action returns, and then the second predicate holds\<close>
  "succeeds P m Q \<longleftrightarrow> (\<forall>s. P s \<longrightarrow> (\<exists>x t. m s = (Inr x, t) \<and> Q x t))"

lemma succeedsI: "(\<And>s. P s \<Longrightarrow> \<exists>x t. m s = (Inr x, t) \<and> Q x t) \<Longrightarrow> succeeds P m Q"
  by (simp add: succeeds_def)

lemma succeedsD: "succeeds P m Q \<Longrightarrow> P s \<Longrightarrow> \<exists>x t. m s = (Inr x, t) \<and> Q x t"
  by (simp add: succeeds_def)

lemma succeeds_and_then:
  "succeeds P m R \<Longrightarrow> (\<And>x. succeeds (R x) (f x) Q) \<Longrightarrow> succeeds P (and_then m f) Q"
  unfolding succeeds_def and_then_done by blast

lemma succeeds_give: "(\<And>s. P s \<Longrightarrow> Q x s) \<Longrightarrow> succeeds P (give x) Q"
  by (simp add: succeeds_def)

lemma succeeds_change: "(\<And>s. P s \<Longrightarrow> Q () (h s)) \<Longrightarrow> succeeds P (change h) Q"
  by (simp add: succeeds_def change_def)

lemma succeeds_if: "succeeds P m Q \<Longrightarrow> succeeds P m' Q \<Longrightarrow> succeeds P (if b then m else m') Q"
  by simp

end
