(* ===== verification/Virtual_Paths.thy ===== *)
theory Virtual_Paths
  imports Escape
begin

text \<open>
  Paths of virtual containers (src/storage.cc:
  \<open>stripAndUnescapeVirtualContainerFromPath\<close>; \<open>FallbackLayout::esc\<close> of
  src/layout/fallback_layout.cc). A virtual path is the titles of its containers,
  each escaped and preceded by a separator; the operation takes off the last
  title.
\<close>

abbreviation VIRTUAL_CONTAINER_SEPARATOR :: char where "VIRTUAL_CONTAINER_SEPARATOR \<equiv> CHR ''/''"
abbreviation VIRTUAL_CONTAINER_ESCAPE :: char where "VIRTUAL_CONTAINER_ESCAPE \<equiv> CHR 0x5C"

lemma rindex_scan_less: "rindex_scan s n c < int n"
  by (induction s n c rule: rindex_scan.induct) auto

lemma z_rindex_end_le: "0 \<le> i \<Longrightarrow> z_rindex_end z i c \<le> i"
  using rindex_scan_less [of "the z" "nat i + 1" c] unfolding z_rindex_end_def
  by (cases z) (simp_all del: rindex_scan.simps)

section \<open>Definitions\<close>

function separator_loop :: "string \<Rightarrow> int \<Rightarrow> int" where
  \<comment> \<open>the final \<open>sep\<close> of the loop over the escaped separators\<close>
  "separator_loop path sep =
     (if sep > 0 then
        (if byte_at path (nat (sep - 1)) \<noteq> VIRTUAL_CONTAINER_ESCAPE then sep
         else separator_loop path (z_rindex_end (Some path) (sep - 1) VIRTUAL_CONTAINER_SEPARATOR))
      else sep)"
  by pat_completeness auto
termination
proof (relation "measure (\<lambda>(_, sep). nat sep)", goal_cases)
  case (2 path sep)
  then show ?case using z_rindex_end_le [of "sep - 1" "Some path" VIRTUAL_CONTAINER_SEPARATOR] by simp
qed simp

declare separator_loop.simps [simp del]

definition stripAndUnescape :: "zstring \<Rightarrow> (zstring \<times> zstring) result" where
  \<comment> \<open>\<open>stripAndUnescapeVirtualContainerFromPath\<close>: the values of \<open>first\<close> and \<open>last\<close>\<close>
  "stripAndUnescape z =
     (case z of
        None \<Rightarrow> Inl Abort
      | Some path \<Rightarrow>
          if byte_at path 0 \<noteq> VIRTUAL_CONTAINER_SEPARATOR then
            Inl (Throw ''got non-absolute virtual path; needs to start with: /'')
          else
            (let sep = z_rindex z VIRTUAL_CONTAINER_SEPARATOR
             in if sep = 0 then
                  bind_result (z_substring_from z 1) (\<lambda>title. Inr (Some ''/'', title))
                else
                  (let sep = separator_loop path sep
                   in if sep = 0 then
                        bind_result (z_substring_from z (sep + 1)) (\<lambda>title.
                        bind_result (unescape title VIRTUAL_CONTAINER_ESCAPE) (\<lambda>title.
                          Inr (Some ''/'', title)))
                      else
                        bind_result (z_substring z 0 sep) (\<lambda>front.
                        bind_result (z_substring_from z (sep + 1)) (\<lambda>title.
                        bind_result (unescape title VIRTUAL_CONTAINER_ESCAPE) (\<lambda>title.
                          Inr (front, title)))))))"

definition esc :: "zstring \<Rightarrow> zstring result" where
  "esc str = escape str VIRTUAL_CONTAINER_ESCAPE VIRTUAL_CONTAINER_SEPARATOR"

section \<open>Escaped titles\<close>

definition esc_title :: "string \<Rightarrow> string" where
  "esc_title t = escape_spec (\<lambda>x. x = VIRTUAL_CONTAINER_ESCAPE \<or> x = VIRTUAL_CONTAINER_SEPARATOR) t"

definition vpath :: "string list \<Rightarrow> string" where
  \<comment> \<open>the path of the container with these titles, from the top\<close>
  "vpath ts = concat (map (\<lambda>t. VIRTUAL_CONTAINER_SEPARATOR # esc_title t) ts)"

definition title_ok :: "string \<Rightarrow> bool" where
  \<comment> \<open>a title that can stand before another one in a path\<close>
  "title_ok t \<longleftrightarrow> nul_free t \<and> t \<noteq> [] \<and> last t \<noteq> VIRTUAL_CONTAINER_ESCAPE \<and> last t \<noteq> VIRTUAL_CONTAINER_SEPARATOR"

definition escaped_separators :: "string \<Rightarrow> bool" where
  "escaped_separators e \<longleftrightarrow>
     (\<forall>i < length e. e ! i = VIRTUAL_CONTAINER_SEPARATOR \<longrightarrow> 0 < i \<and> e ! (i - 1) = VIRTUAL_CONTAINER_ESCAPE)"

lemma esc_esc_title: "nul_free t \<Longrightarrow> esc (Some t) = Inr (Some (esc_title t))"
  unfolding esc_def esc_title_def by (rule escape_correct) simp_all

lemma esc_title_simps [simp]:
  "esc_title [] = []" "nul_free t \<Longrightarrow> nul_free (esc_title t)" "esc_title t = [] \<longleftrightarrow> t = []"
  by (simp_all add: esc_title_def) (cases t; simp)

lemma vpath_simps [simp]: "vpath [] = []" "vpath (ts @ [t]) = vpath ts @ VIRTUAL_CONTAINER_SEPARATOR # esc_title t"
  "vpath (t # ts) = VIRTUAL_CONTAINER_SEPARATOR # esc_title t @ vpath ts"
  by (simp_all add: vpath_def)

lemma nul_free_vpath [simp]: "\<forall>t \<in> set ts. nul_free t \<Longrightarrow> nul_free (vpath ts)"
  by (induction ts) auto

lemma last_esc_title: "t \<noteq> [] \<Longrightarrow> last (esc_title t) = last t"
proof (induction t)
  case (Cons c t)
  then show ?case by (cases t) (auto simp: esc_title_def)
qed simp

lemma escaped_separators_Cons:
  "escaped_separators e \<Longrightarrow> c \<noteq> VIRTUAL_CONTAINER_SEPARATOR \<Longrightarrow> escaped_separators (c # e)"
  unfolding escaped_separators_def
proof (intro allI impI)
  fix i assume e: "\<forall>i<length e. e ! i = VIRTUAL_CONTAINER_SEPARATOR \<longrightarrow> 0 < i \<and> e ! (i - 1) = VIRTUAL_CONTAINER_ESCAPE"
    and c: "c \<noteq> VIRTUAL_CONTAINER_SEPARATOR" and i: "i < length (c # e)" "(c # e) ! i = VIRTUAL_CONTAINER_SEPARATOR"
  obtain j where j: "i = Suc j" using c i by (cases i) auto
  then have "0 < j" "e ! (j - 1) = VIRTUAL_CONTAINER_ESCAPE" using e i by auto
  then show "0 < i \<and> (c # e) ! (i - 1) = VIRTUAL_CONTAINER_ESCAPE" using j by simp
qed

lemma escaped_separators_pair:
  assumes "escaped_separators e"
  shows "escaped_separators (VIRTUAL_CONTAINER_ESCAPE # c # e)"
  unfolding escaped_separators_def
proof (intro allI impI)
  fix i assume i: "i < length (VIRTUAL_CONTAINER_ESCAPE # c # e)"
    "(VIRTUAL_CONTAINER_ESCAPE # c # e) ! i = VIRTUAL_CONTAINER_SEPARATOR"
  have "i \<noteq> 0" using i by (intro notI) simp
  show "0 < i \<and> (VIRTUAL_CONTAINER_ESCAPE # c # e) ! (i - 1) = VIRTUAL_CONTAINER_ESCAPE"
  proof (cases "i = 1")
    case False
    then obtain j where j: "i = Suc (Suc j)" using \<open>i \<noteq> 0\<close> by (cases i) (auto simp: gr0_conv_Suc)
    then have "0 < j" "e ! (j - 1) = VIRTUAL_CONTAINER_ESCAPE"
      using assms i by (auto simp: escaped_separators_def)
    then show ?thesis using j by (cases j) simp_all
  qed simp
qed

lemma escaped_separators_title: "escaped_separators (esc_title t)"
proof (induction t)
  case Nil
  then show ?case by (simp add: escaped_separators_def)
next
  case (Cons c t)
  show ?case
  proof (cases "c = VIRTUAL_CONTAINER_ESCAPE \<or> c = VIRTUAL_CONTAINER_SEPARATOR")
    case True
    then have "esc_title (c # t) = VIRTUAL_CONTAINER_ESCAPE # c # esc_title t" by (auto simp: esc_title_def)
    then show ?thesis using escaped_separators_pair [OF Cons.IH, of c] by simp
  next
    case False
    then have "esc_title (c # t) = c # esc_title t" by (auto simp: esc_title_def)
    then show ?thesis using escaped_separators_Cons [OF Cons.IH, of c] False by simp
  qed
qed

lemma unescape_esc_title: "nul_free t \<Longrightarrow> unescape (Some (esc_title t)) VIRTUAL_CONTAINER_ESCAPE = Inr (Some t)"
  using unescape_escape [of t VIRTUAL_CONTAINER_SEPARATOR] esc_esc_title [of t] by (simp add: esc_def)

section \<open>Taking off the last title\<close>

lemma rindex_scan_found:
  "p < n \<Longrightarrow> byte_at s p = c \<Longrightarrow> \<exists>q. rindex_scan s n c = int q \<and> p \<le> q \<and> q < n \<and> byte_at s q = c"
proof (induction n)
  case (Suc n)
  show ?case
  proof (cases "byte_at s n = c")
    case False
    then have "p < n" using Suc.prems by (cases "p = n") auto
    then show ?thesis using Suc False by auto
  qed (use Suc.prems in auto)
qed simp

lemma separator_loop_escaped:
  assumes "escaped_separators e" "p = [] \<or> last p \<noteq> VIRTUAL_CONTAINER_ESCAPE"
  defines "path \<equiv> p @ VIRTUAL_CONTAINER_SEPARATOR # e"
  shows "length p \<le> q \<Longrightarrow> q < length path \<Longrightarrow> byte_at path q = VIRTUAL_CONTAINER_SEPARATOR \<Longrightarrow>
    separator_loop path (int q) = int (length p)"
proof (induction q rule: less_induct)
  case (less q)
  show ?case
  proof (cases "q = length p")
    case True
    have "byte_at path (nat (int q - 1)) \<noteq> VIRTUAL_CONTAINER_ESCAPE" if "0 < q"
    proof -
      have "nat (int q - 1) = length p - 1" "p \<noteq> []" using True that by auto
      then obtain p' x where "p = p' @ [x]" by (cases p rule: rev_cases) auto
      then have "byte_at path (nat (int q - 1)) = last p"
        using \<open>nat (int q - 1) = length p - 1\<close> by (simp add: path_def byte_at_def nth_append)
      then show ?thesis using assms(2) \<open>p \<noteq> []\<close> by simp
    qed
    then show ?thesis using True by (subst separator_loop.simps) simp
  next
    case False
    define i where "i = q - length p - 1"
    have q: "q = length p + Suc i" "i < length e" using False less.prems by (auto simp: i_def path_def)
    then have "e ! i = VIRTUAL_CONTAINER_SEPARATOR"
      using less.prems(3) by (simp add: path_def byte_at_def nth_append)
    then have i: "0 < i" "e ! (i - 1) = VIRTUAL_CONTAINER_ESCAPE"
      using assms(1) q(2) by (auto simp: escaped_separators_def)
    have n: "nat (int q - 1) = length p + i" using q by simp
    have e: "byte_at path (nat (int q - 1)) = VIRTUAL_CONTAINER_ESCAPE"
      using i q(2) unfolding n by (simp add: path_def byte_at_def nth_append)
    have "byte_at path (length p) = VIRTUAL_CONTAINER_SEPARATOR" by (simp add: path_def byte_at_def nth_append)
    then obtain r where r: "rindex_scan path (length p + i + 1) VIRTUAL_CONTAINER_SEPARATOR = int r"
      "length p \<le> r" "r < length p + i + 1" "byte_at path r = VIRTUAL_CONTAINER_SEPARATOR"
      using rindex_scan_found [of "length p" "length p + i + 1" path] by auto
    have "z_rindex_end (Some path) (int q - 1) VIRTUAL_CONTAINER_SEPARATOR = int r"
      using r(1) q unfolding z_rindex_end_def n by (simp add: path_def)
    then have "separator_loop path (int q) = separator_loop path (int r)"
      using e q by (subst separator_loop.simps) simp
    also have "\<dots> = int (length p)" using r q less.prems by (intro less.IH) simp_all
    finally show ?thesis .
  qed
qed

lemma separator_found:
  assumes "nul_free (p @ VIRTUAL_CONTAINER_SEPARATOR # e)"
  shows "\<exists>q. z_rindex (Some (p @ VIRTUAL_CONTAINER_SEPARATOR # e)) VIRTUAL_CONTAINER_SEPARATOR = int q
    \<and> length p \<le> q \<and> q < length (p @ VIRTUAL_CONTAINER_SEPARATOR # e)
    \<and> byte_at (p @ VIRTUAL_CONTAINER_SEPARATOR # e) q = VIRTUAL_CONTAINER_SEPARATOR"
proof -
  let ?path = "p @ VIRTUAL_CONTAINER_SEPARATOR # e"
  obtain q where q: "strrchr ?path VIRTUAL_CONTAINER_SEPARATOR = Some q"
    using strrchr_None [OF assms, of VIRTUAL_CONTAINER_SEPARATOR] by (cases "strrchr ?path VIRTUAL_CONTAINER_SEPARATOR") auto
  note D = strrchr_Some_D [OF q _ assms]
  have "length p \<le> q"
  proof (rule ccontr)
    assume "\<not> length p \<le> q"
    then have "VIRTUAL_CONTAINER_SEPARATOR \<in> set (drop (Suc q) ?path)" by simp
    then show False using D by simp
  qed
  then show ?thesis using q D by (simp add: z_rindex_def byte_at_def)
qed

lemma strip_last_title:
  assumes "nul_free p" "p \<noteq> []" "hd p = VIRTUAL_CONTAINER_SEPARATOR" "last p \<noteq> VIRTUAL_CONTAINER_ESCAPE" "nul_free t"
  shows "stripAndUnescape (Some (p @ VIRTUAL_CONTAINER_SEPARATOR # esc_title t)) = Inr (Some p, Some t)"
proof -
  let ?path = "p @ VIRTUAL_CONTAINER_SEPARATOR # esc_title t"
  have nf: "nul_free ?path" using assms by simp
  obtain q where q: "z_rindex (Some ?path) VIRTUAL_CONTAINER_SEPARATOR = int q"
    "length p \<le> q" "q < length ?path" "byte_at ?path q = VIRTUAL_CONTAINER_SEPARATOR"
    using separator_found [OF nf] by blast
  have l: "separator_loop ?path (int q) = int (length p)"
    by (rule separator_loop_escaped [OF escaped_separators_title _ q(2-4)]) (use assms in simp)
  have h: "byte_at ?path 0 = VIRTUAL_CONTAINER_SEPARATOR" using assms(2,3) by (cases p) (simp_all add: byte_at_def)
  have pos: "0 < int q" "0 < int (length p)" using q(2) assms(2) by (cases p; simp)+
  have s1: "z_substring (Some ?path) 0 (int (length p)) = Inr (Some p)"
    using nf by (simp add: cstring_simps)
  have s2: "z_substring_from (Some ?path) (int (length p) + 1) = Inr (Some (esc_title t))"
    using nf by (simp add: z_substring_from_def cstring_simps nat_add_distrib)
  show ?thesis
    using pos unfolding stripAndUnescape_def
    by (simp add: h q(1) l s1 s2 unescape_esc_title [OF assms(5)] Let_def)
qed

lemma strip_top_title:
  assumes "nul_free t" "VIRTUAL_CONTAINER_SEPARATOR \<in> set t"
  shows "stripAndUnescape (Some (VIRTUAL_CONTAINER_SEPARATOR # esc_title t)) = Inr (Some ''/'', Some t)"
proof -
  let ?path = "[] @ VIRTUAL_CONTAINER_SEPARATOR # esc_title t"
  have nf: "nul_free ?path" using assms by simp
  obtain q where q: "z_rindex (Some ?path) VIRTUAL_CONTAINER_SEPARATOR = int q"
    "length ([]::string) \<le> q" "q < length ?path" "byte_at ?path q = VIRTUAL_CONTAINER_SEPARATOR"
    using separator_found [OF nf] by blast
  have l: "separator_loop ?path (int q) = int (length ([]::string))"
    by (rule separator_loop_escaped [OF escaped_separators_title _ q(2-4)]) simp
  have "VIRTUAL_CONTAINER_SEPARATOR \<in> set (esc_title t)" using assms(2) by (induction t) (auto simp: esc_title_def)
  then obtain a b where ab: "esc_title t = a @ VIRTUAL_CONTAINER_SEPARATOR # b" by (meson split_list)
  then have "Suc (length a) \<le> q"
    using separator_found [of "VIRTUAL_CONTAINER_SEPARATOR # a" b] nf q(1) by (simp only: append_Cons append_Nil ab) simp
  then have "0 < q" by simp
  have s2: "z_substring_from (Some ?path) 1 = Inr (Some (esc_title t))"
    using nf by (simp add: z_substring_from_def cstring_simps)
  have h: "byte_at ?path 0 = VIRTUAL_CONTAINER_SEPARATOR" by (simp add: byte_at_def)
  show ?thesis
    using \<open>0 < q\<close> q(1) l s2 h unescape_esc_title [OF assms(1)] unfolding stripAndUnescape_def by (simp add: Let_def)
qed

lemma strip_top_verbatim:
  assumes "nul_free t" "VIRTUAL_CONTAINER_SEPARATOR \<notin> set t"
  shows "stripAndUnescape (Some (VIRTUAL_CONTAINER_SEPARATOR # t)) = Inr (Some ''/'', Some t)"
proof -
  have "z_rindex (Some (VIRTUAL_CONTAINER_SEPARATOR # t)) VIRTUAL_CONTAINER_SEPARATOR = 0"
    using strrchr_split [of "[]" VIRTUAL_CONTAINER_SEPARATOR t] assms by (simp add: z_rindex_def)
  then show ?thesis using assms
    unfolding stripAndUnescape_def by (simp add: Let_def byte_at_def z_substring_from_def cstring_simps)
qed

lemma strrchr_bound: "strrchr s c = Some i \<Longrightarrow> c \<noteq> NUL \<Longrightarrow> i < length s"
  by (induction s arbitrary: i) (auto split: if_splits option.splits)

lemma strip_shorter:
  assumes "stripAndUnescape (Some p) = Inr (Some f, l)" "p \<noteq> ''/''"
  shows "length f < length p"
proof -
  have h: "byte_at p 0 = VIRTUAL_CONTAINER_SEPARATOR" using assms(1) by (auto simp: stripAndUnescape_def split: if_splits)
  then obtain c r where p: "p = c # r" "c = VIRTUAL_CONTAINER_SEPARATOR" by (cases p) (simp_all add: byte_at_def)
  then have two: "2 \<le> length p" using assms(2) by (cases r) auto
  define sep where "sep = separator_loop p (z_rindex (Some p) VIRTUAL_CONTAINER_SEPARATOR)"
  have le: "separator_loop p s \<le> s" for s
  proof (induction p s rule: separator_loop.induct)
    case (1 p s)
    then show ?case
      using z_rindex_end_le [of "s - 1" "Some p" VIRTUAL_CONTAINER_SEPARATOR]
      by (subst separator_loop.simps) auto
  qed
  have "z_rindex (Some p) VIRTUAL_CONTAINER_SEPARATOR < int (length p)" 
    using assms(1) by (auto simp: z_rindex_def split: option.split dest: strrchr_bound)
  then have sep: "sep < int (length p)" using le [of "z_rindex (Some p) VIRTUAL_CONTAINER_SEPARATOR"] by (simp add: sep_def)
  have "f = ''/'' \<or> z_substring (Some p) 0 sep = Inr (Some f)"
  proof (cases "z_rindex (Some p) VIRTUAL_CONTAINER_SEPARATOR = 0")
    case True
    then show ?thesis using assms(1) h by (auto simp: stripAndUnescape_def bind_result_Inr_iff)
  next
    case False
    then show ?thesis using assms(1) h
      by (cases "sep = 0") (auto simp: stripAndUnescape_def Let_def sep_def [symmetric] bind_result_Inr_iff)
  qed
  then consider "f = ''/''" | "z_substring (Some p) 0 sep = Inr (Some f)" by blast
  then show ?thesis
  proof cases
    case 2
    then show ?thesis using sep two by (auto simp: z_substring_def strncpy_def min_def split: if_splits)
  qed (use two in simp)
qed

section \<open>Reduced paths\<close>

lemma squeeze_append:
  "a = [] \<or> last a \<noteq> c \<Longrightarrow> squeeze c (a @ b) = squeeze c a @ squeeze c b"
proof (induction a)
  case (Cons x a)
  show ?case
  proof (cases a)
    case Nil
    then show ?thesis using Cons.prems squeeze_Cons_other [of b c] by (cases b) auto
  next
    case (Cons y r)
    then show ?thesis using Cons.IH Cons.prems by auto
  qed
qed simp

lemma hd_esc_title: "t \<noteq> [] \<Longrightarrow> hd (esc_title t) \<noteq> VIRTUAL_CONTAINER_SEPARATOR"
  by (cases t) (auto simp: esc_title_def)

lemma squeeze_esc_title: "squeeze VIRTUAL_CONTAINER_SEPARATOR (esc_title t) = esc_title t"
proof (induction t)
  case (Cons c t)
  let ?S = VIRTUAL_CONTAINER_SEPARATOR
  have o: "squeeze ?S (c' # esc_title t) = c' # esc_title t" for c'
  proof (cases "t = []")
    case False
    then have "hd (esc_title t) \<noteq> ?S" by (rule hd_esc_title)
    then show ?thesis using Cons.IH by (cases "esc_title t") auto
  qed simp
  have "squeeze ?S (VIRTUAL_CONTAINER_ESCAPE # c # esc_title t) = VIRTUAL_CONTAINER_ESCAPE # squeeze ?S (c # esc_title t)"
    by simp
  then show ?case using o [of c] by (auto simp: esc_title_def)
qed simp

lemma squeeze_vpath:
  "\<forall>t \<in> set (butlast ts). title_ok t \<Longrightarrow> [] \<notin> set ts \<Longrightarrow> squeeze VIRTUAL_CONTAINER_SEPARATOR (vpath ts) = vpath ts"
proof (induction ts)
  case (Cons t ts)
  let ?S = VIRTUAL_CONTAINER_SEPARATOR
  have t: "t \<noteq> []" using Cons.prems by auto
  have h: "squeeze ?S (?S # esc_title t @ r) = ?S # squeeze ?S (esc_title t @ r)" for r
    using hd_esc_title [OF t] t squeeze_Cons_other [of "esc_title t @ r" ?S]
    by (cases "esc_title t") auto
  show ?case
  proof (cases ts)
    case Nil
    then show ?thesis using h [of "[]"] squeeze_esc_title [of t] by simp
  next
    case (Cons u us)
    then have "title_ok t" using Cons.prems by simp
    then have "last (esc_title t) \<noteq> ?S" using last_esc_title [OF t] by (simp add: title_ok_def)
    then have "squeeze ?S (esc_title t @ vpath ts) = esc_title t @ squeeze ?S (vpath ts)"
      using squeeze_append [of "esc_title t" ?S "vpath ts"] squeeze_esc_title [of t] by simp
    moreover have "squeeze ?S (vpath ts) = vpath ts" using Cons.IH Cons.prems Cons by simp
    ultimately show ?thesis using h [of "vpath ts"] by simp
  qed
qed simp

lemma vpath_snoc:
  assumes "ts \<noteq> []" "\<forall>t \<in> set ts. title_ok t"
  shows "vpath ts \<noteq> []" "hd (vpath ts) = VIRTUAL_CONTAINER_SEPARATOR" "nul_free (vpath ts)"
    "last (vpath ts) \<noteq> VIRTUAL_CONTAINER_ESCAPE"
proof -
  obtain us t where ts: "ts = us @ [t]" using assms(1) by (cases ts rule: rev_cases) auto
  show "vpath ts \<noteq> []" unfolding ts by simp
  show "hd (vpath ts) = VIRTUAL_CONTAINER_SEPARATOR" using assms(1) by (cases ts) simp_all
  show "nul_free (vpath ts)" using assms(2) by (intro nul_free_vpath) (simp add: title_ok_def)
  have "title_ok t" using assms(2) ts by simp
  then have "last (vpath ts) = last t" unfolding ts using last_esc_title [of t] by (auto simp: title_ok_def)
  then show "last (vpath ts) \<noteq> VIRTUAL_CONTAINER_ESCAPE" using \<open>title_ok t\<close> by (simp add: title_ok_def)
qed

lemma strip_vpath:
  assumes "ts \<noteq> []" "\<forall>t \<in> set ts. title_ok t" "nul_free t"
  shows "stripAndUnescape (Some (vpath (ts @ [t]))) = Inr (Some (vpath ts), Some t)"
  using strip_last_title [of "vpath ts" t] vpath_snoc [OF assms(1,2)] assms(3) by simp

lemma vpath_neq_separator: "ts \<noteq> [] \<Longrightarrow> [] \<notin> set ts \<Longrightarrow> vpath ts \<noteq> ''/''"
  by (cases ts) auto

end
