(* ===== verification/Sql_Store.thy ===== *)
theory Sql_Store
  imports Actions Virtual_Paths Sql_Objects
begin

text \<open>
  The containers of the SQL storage (src/storage/sql_storage.cc): \<open>getNextID\<close>,
  \<open>loadLastID\<close>, \<open>loadObject\<close>, \<open>loadObjectByServiceID\<close>, \<open>getServiceObjectIDs\<close>,
  \<open>createContainer\<close>, \<open>buildContainerPath\<close>, \<open>addContainerChain\<close>,
  \<open>findObjectByPath\<close>, \<open>findObjectIDByPath\<close> and \<open>ensurePathExistence\<close>, on the
  cache and the buffer of Storage_Cache and a table of rows.

  A table is the list of its rows in the order a scan meets them, a row a map from
  columns to their text (\<open>None\<close> is SQL's NULL). A SELECT is a filter of the list:
  \<open>=\<close> never holds of NULL, LIMIT 1 keeps the first row. \<open>st_pending\<close> holds the
  rows of the statements that are still in the insert buffer: a SELECT does not
  see them.
\<close>

type_synonym table_row = "string \<Rightarrow> zstring"

record store =
  st_rows :: "table_row list"
  st_pending :: "table_row list"
  st_active :: "int \<Rightarrow> (zstring \<times> zstring) option"   \<comment> \<open>action and state of the active items\<close>
  st_autoscans :: "table_row list"
  st_lastID :: int
  st_sql :: sql_state
  st_fresh :: nat   \<comment> \<open>the address the next cache object gets\<close>
  st_fsRootName :: zstring
  st_settings :: "string \<rightharpoonup> zstring"   \<comment> \<open>the table of the internal settings\<close>

section \<open>Selecting\<close>

definition col_is :: "table_row \<Rightarrow> string \<Rightarrow> zstring \<Rightarrow> bool" where
  \<comment> \<open>\<open>column = literal\<close>\<close>
  "col_is r c lit \<longleftrightarrow> r c \<noteq> None \<and> r c = literal_value lit"

definition at_location :: "zstring \<Rightarrow> table_row \<Rightarrow> bool" where
  "at_location dbLocation r \<longleftrightarrow>
     col_is r ''location_hash'' (sql_uint (stringHash (the dbLocation))) \<and> col_is r ''location'' (sql_quote dbLocation)"

definition with_id :: "int \<Rightarrow> table_row \<Rightarrow> bool" where
  "with_id i r \<longleftrightarrow> col_is r ''id'' (sql_int i)"

definition row_id :: "table_row \<Rightarrow> int" where
  "row_id r = z_toInt (r ''id'')"

definition joined_row :: "store \<Rightarrow> table_row \<Rightarrow> sql_row" where
  \<comment> \<open>the joins of \<open>SQL_QUERY\<close>\<close>
  "joined_row st r =
     select_row r
       (case find (\<lambda>rf. rf ''id'' \<noteq> None \<and> rf ''id'' = r ''ref_id'') (st_rows st) of
          None \<Rightarrow> (\<lambda>_. None) | Some rf \<Rightarrow> rf)
       (case find (\<lambda>a. a ''obj_id'' \<noteq> None \<and> a ''obj_id'' = r ''id'') (st_autoscans st) of
          None \<Rightarrow> None | Some a \<Rightarrow> a ''persistent'')"

section \<open>Cache and buffer\<close>

definition set_sql :: "sql_state \<Rightarrow> store \<Rightarrow> store" where
  \<comment> \<open>the pending rows are in the table once the buffer is empty\<close>
  "set_sql ss st =
     (if ss_insertBufferEmpty ss
      then st\<lparr>st_sql := ss, st_rows := st_rows st @ st_pending st, st_pending := []\<rparr>
      else st\<lparr>st_sql := ss\<rparr>)"

definition flush :: "store \<Rightarrow> store" where
  "flush st = set_sql (flushInsertBuffer (st_sql st)) st"

definition set_cache :: "storage_cache \<Rightarrow> store \<Rightarrow> store" where
  "set_cache c st = st\<lparr>st_sql := (st_sql st)\<lparr>ss_cache := Some c\<rparr>\<rparr>"

definition check_flushed :: "store \<Rightarrow> store" where
  \<comment> \<open>\<open>if (cache->flushed()) flushInsertBuffer();\<close>\<close>
  "check_flushed st =
     (case ss_cache (st_sql st) of
        None \<Rightarrow> st
      | Some c \<Rightarrow>
          (let (fl, c) = sc_flushed c; st = set_cache c st
           in if fl then flush st else st))"

definition cached :: "store \<Rightarrow> int \<Rightarrow> cache_object option" where
  "cached st i =
     (case ss_cache (st_sql st) of
        None \<Rightarrow> None
      | Some c \<Rightarrow> map_option (sc_objects c) (sc_getObject c i))"

definition update_cached :: "int \<Rightarrow> (cache_object \<Rightarrow> cache_object) \<Rightarrow> store \<Rightarrow> store" where
  \<comment> \<open>the cache object of the ID is created when it is missing, then changed\<close>
  "update_cached i f st =
     (case ss_cache (st_sql st) of
        None \<Rightarrow> st
      | Some c \<Rightarrow>
          (let (a, c) = sc_getObjectDefinitely c (st_fresh st) i;
               st = check_flushed (set_cache c (st\<lparr>st_fresh := st_fresh st + 1\<rparr>))
           in case ss_cache (st_sql st) of
                None \<Rightarrow> st
              | Some c \<Rightarrow> set_cache (c\<lparr>sc_objects := (sc_objects c)(a := f (sc_objects c a))\<rparr>) st))"

definition store_addObjectToCache :: "cds_object \<Rightarrow> (store, unit) action" where
  "store_addObjectToCache ob st =
     (case addObjectToCache (st_sql st) (st_fresh st) ob of
        Inl e \<Rightarrow> (Inl e, st)
      | Inr ss \<Rightarrow> (Inr (), set_sql ss (st\<lparr>st_fresh := st_fresh st + 1\<rparr>)))"

definition object_of_row :: "table_row \<Rightarrow> (store, cds_object) action" where
  \<comment> \<open>\<open>createObjectFromRow\<close>\<close>
  "object_of_row r st =
     and_then (of_result (createObjectFromRow (st_active st) (joined_row st r))) (\<lambda>ob.
     and_then (store_addObjectToCache ob) (\<lambda>_. give ob)) st"

section \<open>Objects\<close>

definition loadObject :: "int \<Rightarrow> (store, cds_object) action" where
  "loadObject objectID st =
     (case Option.bind (cached st objectID) co_obj of
        Some ob \<Rightarrow> (Inr ob, st)
      | None \<Rightarrow>
          (case find (with_id objectID) (st_rows st) of
             Some r \<Rightarrow> object_of_row r st
           | None \<Rightarrow> (Inl (Throw (''Object not found: '' @ show_int objectID)), st)))"

definition loadObjectByServiceID :: "zstring \<Rightarrow> (store, cds_object option) action" where
  "loadObjectByServiceID serviceID =
     and_then (change flush) (\<lambda>_ st.
       case find (\<lambda>r. col_is r ''service_id'' (sql_quote serviceID)) (st_rows st) of
         Some r \<Rightarrow> and_then (object_of_row r) (\<lambda>ob. give (Some ob)) st
       | None \<Rightarrow> give None st)"

definition getServiceObjectIDs :: "char \<Rightarrow> (store, int list) action" where
  \<comment> \<open>\<open>LIKE\<close> ignores the case of letters; \<open>_\<close> and \<open>%\<close> as prefixes match any text\<close>
  "getServiceObjectIDs servicePrefix =
     and_then (change flush) (\<lambda>_. look (\<lambda>st.
       map row_id (filter (\<lambda>r. case r ''service_id'' of
           None \<Rightarrow> False
         | Some s \<Rightarrow> servicePrefix = CHR ''%''
                    \<or> s \<noteq> [] \<and> (servicePrefix = CHR ''_'' \<or> tolower (hd s) = tolower servicePrefix))
         (st_rows st))))"

definition getNextID :: "(store, int) action" where
  \<comment> \<open>the increment of the largest \<open>int\<close> is undefined\<close>
  "getNextID st =
     (if st_lastID st < CDS_ID_FS_ROOT then
        (Inl (Throw ''SQLStorage::getNextID() called, but lastID hasn''), st)
      else if st_lastID st + 1 \<ge> 2 ^ 31 then (Inl Abort, st)
      else (Inr (st_lastID st + 1), st\<lparr>st_lastID := st_lastID st + 1\<rparr>))"

definition loadLastID :: "(store, unit) action" where
  \<comment> \<open>\<open>MAX\<close> of no rows is NULL, which reads as 0\<close>
  "loadLastID st =
     (let st = st\<lparr>st_lastID := (if st_rows st = [] then 0 else Max (set (map row_id (st_rows st))))\<rparr>
      in if st_lastID st < CDS_ID_FS_ROOT
         then (Inl (Throw ''could not load correct lastID (db not initialized?)''), st)
         else (Inr (), st))"

section \<open>Virtual containers\<close>

definition container_row :: "int \<Rightarrow> int \<Rightarrow> zstring \<Rightarrow> zstring \<Rightarrow> zstring \<Rightarrow> int \<Rightarrow> table_row" where
  "container_row newID parentID name dbLocation upnpClass refID =
     stored_row newID
       (put_col ''parent_id'' (sql_int parentID)
       (put_col ''object_type'' (sql_uint OBJECT_TYPE_CONTAINER)
       (put_col ''upnp_class'' (if string_ok upnpClass then sql_quote upnpClass else sql_quote (Some ''object.container''))
       (put_col ''dc_title'' (sql_quote name)
       (put_col ''location'' (sql_quote dbLocation)
       (put_col ''location_hash'' (sql_uint (stringHash (the dbLocation)))
       (put_col ''metadata'' SQL_NULL
       (put_col ''ref_id'' (if refID > 0 then sql_int refID else SQL_NULL) []))))))))"

definition createContainer ::
  "int \<Rightarrow> zstring \<Rightarrow> zstring \<Rightarrow> bool \<Rightarrow> zstring \<Rightarrow> int \<Rightarrow> (store, int) action" where
  \<comment> \<open>the dictionary that is filled for an album is a variable of the inner block: the
      one the statement uses stays null, and the argument \<open>itemMetadata\<close> has no effect\<close>
  "createContainer parentID name path isVirtual upnpClass refID =
     and_then (if refID > 0 then and_then (loadObject refID) (\<lambda>_. give ()) else give ()) (\<lambda>_.
     and_then getNextID (\<lambda>newID.
     and_then (change (\<lambda>st. st\<lparr>st_rows := st_rows st @
         [container_row newID parentID name
            (addLocationPrefix (if isVirtual then LOC_VIRT_PREFIX else LOC_DIR_PREFIX) path) upnpClass refID]\<rparr>)) (\<lambda>_.
     and_then (change (\<lambda>st. case ss_cache (st_sql st) of
         None \<Rightarrow> st
       | Some c \<Rightarrow>
           update_cached newID (\<lambda>co. (co_setObjectType (co_setNumChildren (co\<lparr>co_parentID := parentID\<rparr>) 0)
             OBJECT_TYPE_CONTAINER)\<lparr>co_location := path\<rparr>)
             (check_flushed (set_cache (sc_addChild c parentID) st)))) (\<lambda>_.
     give newID))))"

definition buildContainerPath :: "int \<Rightarrow> zstring \<Rightarrow> (store, zstring) action" where
  "buildContainerPath parentID title st =
     (if parentID = CDS_ID_ROOT then (Inr (z_append (Some [VIRTUAL_CONTAINER_SEPARATOR]) title), st)
      else case find (with_id parentID) (st_rows st) of
        None \<Rightarrow> (Inr None, st)
      | Some r \<Rightarrow>
          (case stripLocationPrefix (r ''location'') of
             Inl e \<Rightarrow> (Inl e, st)
           | Inr p \<Rightarrow>
               if locationPrefix (r ''location'') \<noteq> LOC_VIRT_PREFIX then
                 (Inl (Throw ''tried to build a virtual container path with an non-virtual parentID''), st)
               else (Inr (z_append (z_append_char p VIRTUAL_CONTAINER_SEPARATOR) title), st)))"

lemma reduce_loop_length:
  assumes "ch \<noteq> NUL" "pos3 \<le> pos" "pos < length s" "s ! pos = ch" "reduce_loop s ch pos pos3 out = (q, out')"
  shows "q \<le> length s \<and> length out' + (length s - q) \<le> length out + (length s - pos3)"
  using assms
proof (induction s ch pos pos3 out arbitrary: q out' rule: reduce_loop.induct)
  case (1 s ch pos pos3 out)
  define o2 where "o2 = (if pos = pos3 then out @ [ch] else out @ strncpy (pos - pos3 + 1) (drop pos3 s))"
  define p2 where "p2 = skip_run s ch pos"
  have found: "p < length s \<and> s ! p = ch" if "strchr_from s i ch = Some p" for i p
    using that strchr_Some_D [of "drop i s" ch] "1.prems"(1) by (auto simp: strchr_from_def)
  have p2: "pos < p2" "p2 \<le> length s"
    using skip_run_gt [of pos s ch] "1.prems" length_takeWhile_le [of "\<lambda>c. c = ch" "drop pos s"]
    by (auto simp: p2_def skip_run_def)
  have o2: "length o2 = length out + (pos - pos3 + 1)"
    using "1.prems" length_takeWhile_le [of _ "drop pos3 s"] by (auto simp: o2_def strncpy_def min_def cstr_def)
  have step: "reduce_loop s ch pos pos3 out =
    (if byte_at s (pos + 1) = ch then
       (if byte_at s p2 = NUL then (p2, o2)
        else case strchr_from s p2 ch of None \<Rightarrow> (p2, o2) | Some p \<Rightarrow> reduce_loop s ch p p2 o2)
     else if byte_at s (pos + 1) = NUL then (pos3, out)
     else case strchr_from s (pos + 1) ch of None \<Rightarrow> (pos3, out) | Some p \<Rightarrow> reduce_loop s ch p pos3 out)"
    by (subst reduce_loop.simps) (simp only: Let_def p2_def o2_def)
  show ?case
  proof (cases "byte_at s (pos + 1) = ch")
    case True
    have fin: "q \<le> length s \<and> length out' + (length s - q) \<le> length out + (length s - pos3)" if "(p2, o2) = (q, out')"
      using that p2 o2 "1.prems"(2) by auto
    show ?thesis
    proof (cases "byte_at s p2 = NUL \<or> strchr_from s p2 ch = None")
      case False
      then obtain p where p: "strchr_from s p2 ch = Some p" by auto
      have "reduce_loop s ch p p2 o2 = (q, out')" using "1.prems"(5) True False p by (simp add: step)
      then have "q \<le> length s \<and> length out' + (length s - q) \<le> length o2 + (length s - p2)"
        using found [OF p] strchr_from_ge [OF p] False p "1.prems"(1)
        by (intro "1.IH"(1) [OF True o2_def p2_def refl]) auto
      then show ?thesis using o2 p2 "1.prems"(2) by linarith
    qed (use "1.prems"(5) True fin in \<open>auto simp: step split: if_splits option.splits\<close>)
  next
    case False
    show ?thesis
    proof (cases "byte_at s (pos + 1) = NUL \<or> strchr_from s (pos + 1) ch = None")
      case True
      then have "(pos3, out) = (q, out')" using "1.prems"(5) False by (auto simp: step split: if_splits)
      then show ?thesis using "1.prems"(2,3) by auto
    next
      case F: False
      then obtain p where p: "strchr_from s (pos + 1) ch = Some p" by auto
      have "reduce_loop s ch p pos3 out = (q, out')" using "1.prems"(5) False F p by (simp add: step)
      then show ?thesis
        using found [OF p] strchr_from_ge [OF p] F False p "1.prems"(1,2)
        by (intro "1.IH"(2)) auto
    qed
  qed
qed

lemma z_reduce_length:
  assumes "z_reduce (Some s) ch = Inr z"
  shows "\<exists>t. z = Some t \<and> length t \<le> length s"
proof (cases "ch = NUL \<or> strchr s ch = None")
  case False
  then obtain pos where pos: "strchr s ch = Some pos" by auto
  obtain q out where r: "reduce_loop s ch pos 0 '''' = (q, out)" by fastforce
  note D = strchr_Some_D [OF pos]
  have "q \<le> length s \<and> length out + (length s - q) \<le> length s"
    using reduce_loop_length [OF _ _ _ _ r] D False by auto
  moreover have "length (strncpy n x) = n" for n x by (simp add: strncpy_def)
  moreover have "length (cstr x) \<le> length x" for x by (simp add: cstr_def length_takeWhile_le)
  ultimately have "length (cstr (out @ strncpy (length s - q) (drop q s))) \<le> length s"
    by (metis length_append order_trans)
  then show ?thesis using assms False pos r by (auto simp: z_reduce_def)
qed (use assms in \<open>auto simp: z_reduce_def split: if_splits\<close>)

definition path_size :: "zstring \<Rightarrow> nat" where
  "path_size z = (case z of None \<Rightarrow> 0 | Some p \<Rightarrow> length p)"

lemma strip_path_size:
  assumes "z_reduce z VIRTUAL_CONTAINER_SEPARATOR = Inr path" "\<not> z_eq_char path VIRTUAL_CONTAINER_SEPARATOR"
    "stripAndUnescape path = Inr (newpath, title)"
  shows "path_size newpath < path_size z"
proof -
  obtain s where s: "z = Some s" using assms(1,3) by (cases z) (auto simp: z_reduce_def stripAndUnescape_def)
  obtain t where t: "path = Some t" "length t \<le> length s" using z_reduce_length assms(1) s by blast
  have "t \<noteq> []" using assms(3) t by (auto simp: stripAndUnescape_def byte_at_def)
  show ?thesis
  proof (cases newpath)
    case None
    then show ?thesis using \<open>t \<noteq> []\<close> t s by (auto simp: path_size_def)
  next
    case (Some f)
    have "t \<noteq> ''/''" using assms(2) t by (auto simp: z_eq_char_def byte_at_def)
    then have "length f < length t" using strip_shorter [of t f title] assms(3) t Some by simp
    then show ?thesis using t s Some by (simp add: path_size_def)
  qed
qed

function addContainerChain ::
  "zstring \<Rightarrow> zstring \<Rightarrow> int \<Rightarrow> int option \<Rightarrow> (store, int \<times> int option) action" where
  \<comment> \<open>the ID of the container and what \<open>updateID\<close> points to; \<open>None\<close> when it is null\<close>
  "addContainerChain path lastClass lastRefID updateID st =
     (case z_reduce path VIRTUAL_CONTAINER_SEPARATOR of
        Inl e \<Rightarrow> (Inl e, st)
      | Inr path \<Rightarrow>
          if z_eq_char path VIRTUAL_CONTAINER_SEPARATOR then (Inr (CDS_ID_ROOT, updateID), st)
          else
            (case find (at_location (addLocationPrefix LOC_VIRT_PREFIX path)) (st_rows st) of
               Some r \<Rightarrow> (Inr (row_id r, updateID), st)
             | None \<Rightarrow>
                 (case stripAndUnescape path of
                    Inl e \<Rightarrow> (Inl e, st)
                  | Inr (newpath, container) \<Rightarrow>
                      and_then (addContainerChain newpath None INVALID_OBJECT_ID updateID)
                        (\<lambda>(parentContainerID, updateID).
                          and_then (createContainer parentContainerID container path True lastClass lastRefID)
                            (\<lambda>containerID. give (containerID,
                               if updateID = Some INVALID_OBJECT_ID then Some parentContainerID else updateID))) st)))"
  by pat_completeness auto
termination
proof (relation "measure (\<lambda>(path, _). path_size path)", goal_cases)
  case 2
  then show ?case using strip_path_size by (fastforce simp: in_measure)
qed simp

declare addContainerChain.simps [simp del]

section \<open>Directories\<close>

definition cached_at :: "store \<Rightarrow> zstring \<Rightarrow> cds_object option" where
  \<comment> \<open>the first cached object at the location that is known not to be virtual\<close>
  "cached_at st dbLocation =
     (case ss_cache (st_sql st) of
        None \<Rightarrow> None
      | Some c \<Rightarrow>
          (case sc_getObjects c (the dbLocation) of
             None \<Rightarrow> None
           | Some objects \<Rightarrow>
               (case find (\<lambda>a. co_obj (sc_objects c a) \<noteq> None \<and> co_knowVirtualObj (sc_objects c a)
                               \<and> \<not> co_virtualObj (sc_objects c a)) objects of
                  None \<Rightarrow> None
                | Some a \<Rightarrow> co_obj (sc_objects c a))))"

definition path_location :: "zstring \<Rightarrow> zstring result" where
  \<comment> \<open>the location \<open>_findObjectByPath\<close> looks for\<close>
  "path_location fullpath =
     bind_result (z_reduce fullpath DIR_SEPARATOR) (\<lambda>fullpath.
     bind_result (split_path fullpath) (\<lambda>pathAr.
       Inr (if string_ok (Some (pathAr ! 1)) then addLocationPrefix LOC_FILE_PREFIX fullpath
            else addLocationPrefix LOC_DIR_PREFIX (Some (pathAr ! 0)))))"

definition findObjectByPath :: "zstring \<Rightarrow> (store, cds_object option) action" where
  "findObjectByPath fullpath st =
     (case path_location fullpath of
        Inl e \<Rightarrow> (Inl e, st)
      | Inr dbLocation \<Rightarrow>
          (case cached_at st dbLocation of
             Some ob \<Rightarrow> (Inr (Some ob), st)
           | None \<Rightarrow>
               (case find (\<lambda>r. at_location dbLocation r \<and> r ''ref_id'' = None) (st_rows st) of
                  None \<Rightarrow> (Inr None, st)
                | Some r \<Rightarrow> and_then (object_of_row r) (\<lambda>ob. give (Some ob)) st)))"

definition findObjectIDByPath :: "zstring \<Rightarrow> (store, int) action" where
  "findObjectIDByPath fullpath =
     and_then (findObjectByPath fullpath) (\<lambda>ob.
       give (case ob of None \<Rightarrow> INVALID_OBJECT_ID | Some ob \<Rightarrow> o_id ob))"

definition clean_path :: "zstring \<Rightarrow> zstring result" where
  \<comment> \<open>without runs of separators and without the last one; \<open>charAt\<close> of an empty path is
      outside of the buffer\<close>
  "clean_path path =
     bind_result (z_reduce path DIR_SEPARATOR) (\<lambda>cleanPath.
       case cleanPath of
         None \<Rightarrow> Inl Abort
       | Some s \<Rightarrow>
           if z_eq_char cleanPath DIR_SEPARATOR then Inr cleanPath
           else if s = [] then Inl Abort
           else if last s = DIR_SEPARATOR then z_substring cleanPath 0 (int (length s) - 1)
           else Inr cleanPath)"

lemma clean_path_size: "clean_path z = Inr c \<Longrightarrow> path_size c \<le> path_size z"
proof -
  assume c: "clean_path z = Inr c"
  obtain s where s: "z = Some s" using c by (cases z) (auto simp: clean_path_def z_reduce_def)
  obtain t where t: "z_reduce z DIR_SEPARATOR = Inr (Some t)" "length t \<le> length s"
    using c z_reduce_length [of s DIR_SEPARATOR] s by (auto simp: clean_path_def bind_result_Inr_iff)
  have "c = Some t \<or> z_substring (Some t) 0 (int (length t) - 1) = Inr c"
    using c t by (auto simp: clean_path_def split: if_splits)
  then show ?thesis
    using t(2) s by (auto simp: path_size_def z_substring_def strncpy_def min_def Let_def split: if_splits)
qed

lemma split_path_size:
  assumes "split_path z = Inr ar" "\<not> z_eq_char z DIR_SEPARATOR"
  shows "length (ar ! 0) < path_size z"
proof -
  have ok: "string_ok z" using assms(1) by (auto simp: split_path_def split: if_splits)
  then obtain s where s: "z = Some s" by (cases z) auto
  have ne: "s \<noteq> []" using ok s by auto
  define pos where "pos = z_rindex z DIR_SEPARATOR"
  have pos: "\<not> pos < 0" "ar ! 0 = (if pos = 0 then [DIR_SEPARATOR] else take (nat pos) s)"
    using assms(1) ok s by (auto simp: split_path_def pos_def Let_def split: if_splits)
  have lt: "pos < int (length s)"
    using pos(1) s unfolding pos_def z_rindex_def by (auto split: option.splits dest: strrchr_bound)
  show ?thesis
  proof (cases "pos = 0")
    case True
    have "strrchr s DIR_SEPARATOR = Some 0" using True s by (auto simp: pos_def z_rindex_def split: option.splits)
    then have "hd s = DIR_SEPARATOR" using ne by (cases s) (auto split: if_splits option.splits)
    then have "1 < length s" using assms(2) s ne by (cases s; cases "tl s") (auto simp: z_eq_char_def byte_at_def)
    then show ?thesis using True pos(2) s by (simp add: path_size_def)
  next
    case False
    then show ?thesis using pos lt s by (simp add: path_size_def)
  qed
qed

function ensurePathExistence ::
  "(zstring \<Rightarrow> zstring) \<Rightarrow> zstring \<Rightarrow> (store, int \<times> int) action" where
  \<comment> \<open>with \<open>_ensurePathExistence\<close>: the ID and \<open>*changedContainer\<close>; \<open>f2i\<close> is the conversion
      from the character set of the file system\<close>
  "ensurePathExistence f2i path st =
     (case clean_path path of
        Inl e \<Rightarrow> (Inl e, st)
      | Inr path \<Rightarrow>
          if z_eq_char path DIR_SEPARATOR then (Inr (CDS_ID_FS_ROOT, INVALID_OBJECT_ID), st)
          else
            and_then (findObjectByPath (z_append_char path DIR_SEPARATOR)) (\<lambda>found st.
              case found of
                Some ob \<Rightarrow> (Inr (o_id ob, INVALID_OBJECT_ID), st)
              | None \<Rightarrow>
                  (case split_path path of
                     Inl e \<Rightarrow> (Inl e, st)
                   | Inr pathAr \<Rightarrow>
                       and_then (ensurePathExistence f2i (Some (pathAr ! 0))) (\<lambda>(parentID, changed).
                       and_then (createContainer parentID (f2i (Some (pathAr ! 1))) path False None INVALID_OBJECT_ID) (\<lambda>newID.
                         give (newID, if changed = INVALID_OBJECT_ID then parentID else changed))) st)) st)"
  by pat_completeness auto
termination
proof (relation "measure (\<lambda>(_, path, _). path_size path)", goal_cases)
  case (2 f2i path st c found st' s)
  then show ?case
    using clean_path_size [of path c] split_path_size [of c s] by (auto simp: path_size_def)
qed simp

declare ensurePathExistence.simps [simp del]

section \<open>What an operation does to the table\<close>

definition table :: "store \<Rightarrow> table_row list" where
  "table st = st_rows st @ st_pending st"

definition grows_to :: "store \<Rightarrow> store \<Rightarrow> bool" where
  \<comment> \<open>nothing but the cache and the buffer changes, and the buffer may have been written\<close>
  "grows_to st st' \<longleftrightarrow> st_active st' = st_active st \<and> st_autoscans st' = st_autoscans st \<and> st_lastID st' = st_lastID st
     \<and> (st_rows st' = st_rows st \<and> st_pending st' = st_pending st
        \<or> st_rows st' = st_rows st @ st_pending st \<and> st_pending st' = [])"

lemma grows_to_refl [simp]: "grows_to st st"
  by (simp add: grows_to_def)

lemma grows_to_trans [trans]: "grows_to st st' \<Longrightarrow> grows_to st' st'' \<Longrightarrow> grows_to st st''"
  by (auto simp: grows_to_def)

lemma grows_to_table: "grows_to st st' \<Longrightarrow> table st' = table st"
  by (auto simp: grows_to_def table_def)

lemma grows_to_set_sql [simp]: "grows_to st (set_sql ss st)"
  by (simp add: grows_to_def set_sql_def)

lemma grows_to_set_cache [simp]: "grows_to st (set_cache c st)"
  by (simp add: grows_to_def set_cache_def)

lemma grows_to_fresh [simp]: "grows_to st (st\<lparr>st_fresh := n\<rparr>)"
  by (simp add: grows_to_def)

lemma grows_to_flush [simp]: "grows_to st (flush st)"
  by (simp add: flush_def)

lemma grows_to_check_flushed [simp]: "grows_to st (check_flushed st)"
proof (cases "ss_cache (st_sql st)")
  case (Some c)
  obtain fl c' where c: "sc_flushed c = (fl, c')" by fastforce
  have "grows_to st (flush (set_cache c' st))"
    using grows_to_trans [OF grows_to_set_cache grows_to_flush] .
  then show ?thesis using Some c by (simp add: check_flushed_def Let_def)
qed (simp add: check_flushed_def)

lemma grows_to_update_cached [simp]: "grows_to st (update_cached i f st)"
proof (cases "ss_cache (st_sql st)")
  case (Some c)
  obtain a c' where c: "sc_getObjectDefinitely c (st_fresh st) i = (a, c')" by fastforce
  define st1 where "st1 = check_flushed (set_cache c' (st\<lparr>st_fresh := st_fresh st + 1\<rparr>))"
  have 1: "grows_to st st1" unfolding st1_def
    by (rule grows_to_trans [OF grows_to_trans [OF grows_to_fresh grows_to_set_cache] grows_to_check_flushed])
  have "update_cached i f st = (case ss_cache (st_sql st1) of None \<Rightarrow> st1
      | Some c \<Rightarrow> set_cache (c\<lparr>sc_objects := (sc_objects c)(a := f (sc_objects c a))\<rparr>) st1)"
    by (simp only: update_cached_def Some option.case c Let_def prod.case st1_def)
  then show ?thesis using 1 grows_to_trans [OF 1 grows_to_set_cache] by (cases "ss_cache (st_sql st1)") simp_all
qed (simp add: update_cached_def)

lemma grows_to_addObjectToCache: "grows_to st (snd (store_addObjectToCache ob st))"
  using grows_to_trans [OF grows_to_fresh grows_to_set_sql]
  by (simp add: store_addObjectToCache_def split: sum.split)

lemma grows_to_object_of_row: "grows_to st (snd (object_of_row r st))"
  using grows_to_addObjectToCache
  by (simp add: object_of_row_def and_then_def split: sum.split prod.split) (metis snd_conv)

lemma grows_to_loadObject: "grows_to st (snd (loadObject i st))"
  using grows_to_object_of_row by (simp add: loadObject_def split: option.split)

lemma find_append: "find P (xs @ ys) = (case find P xs of None \<Rightarrow> find P ys | Some x \<Rightarrow> Some x)"
  by (induction xs) auto

lemma createContainer_effect:
  assumes "CDS_ID_FS_ROOT \<le> st_lastID st" "st_lastID st + 1 < 2 ^ 31"
    and "0 < refID \<longrightarrow> (\<exists>ob st1. loadObject refID st = (Inr ob, st1))"
  shows "\<exists>st'. createContainer parentID name path isVirtual upnpClass refID st = (Inr (st_lastID st + 1), st')
    \<and> st_lastID st' = st_lastID st + 1 \<and> st_active st' = st_active st \<and> st_autoscans st' = st_autoscans st
    \<and> (let new = container_row (st_lastID st + 1) parentID name
              (addLocationPrefix (if isVirtual then LOC_VIRT_PREFIX else LOC_DIR_PREFIX) path) upnpClass refID
       in st_rows st' = st_rows st @ [new] \<and> st_pending st' = st_pending st
          \<or> st_rows st' = st_rows st @ [new] @ st_pending st \<and> st_pending st' = []
          \<or> st_rows st' = st_rows st @ st_pending st @ [new] \<and> st_pending st' = [])"
proof -
  define new where "new = container_row (st_lastID st + 1) parentID name
    (addLocationPrefix (if isVirtual then LOC_VIRT_PREFIX else LOC_DIR_PREFIX) path) upnpClass refID"
  define check where "check = (if refID > 0 then and_then (loadObject refID) (\<lambda>_. give ()) else give ())"
  obtain st1 where st1: "check st = (Inr (), st1)" "grows_to st st1"
    using assms(3) grows_to_loadObject [of st refID] by (cases "0 < refID") (auto simp: check_def and_then_def)
  have l1: "st_lastID st1 = st_lastID st" using st1(2) by (simp add: grows_to_def)
  define st2 where "st2 = st1\<lparr>st_lastID := st_lastID st + 1\<rparr>"
  have n: "getNextID st1 = (Inr (st_lastID st + 1), st2)"
    using assms(1,2) l1 by (simp add: getNextID_def st2_def)
  define st3 where "st3 = st2\<lparr>st_rows := st_rows st2 @ [new]\<rparr>"
  define tell where "tell = (\<lambda>s. case ss_cache (st_sql s) of
         None \<Rightarrow> s
       | Some c \<Rightarrow>
           update_cached (st_lastID st + 1) (\<lambda>co. (co_setObjectType (co_setNumChildren (co\<lparr>co_parentID := parentID\<rparr>) 0)
             OBJECT_TYPE_CONTAINER)\<lparr>co_location := path\<rparr>)
             (check_flushed (set_cache (sc_addChild c parentID) s)))"
  have g: "grows_to st3 (tell st3)"
    using grows_to_trans [OF grows_to_trans [OF grows_to_set_cache grows_to_check_flushed] grows_to_update_cached]
    by (simp add: tell_def split: option.split)
  have e: "createContainer parentID name path isVirtual upnpClass refID st = (Inr (st_lastID st + 1), tell st3)"
    unfolding createContainer_def check_def [symmetric]
    by (subst and_then_Inr [of check, OF st1(1)], subst and_then_Inr [of getNextID, OF n])
      (simp only: and_then_simps action_apply new_def st3_def tell_def)
  show ?thesis
    unfolding new_def [symmetric] Let_def e using g st1(2)
    by (auto simp: grows_to_def st3_def st2_def)
qed

definition virtual_at :: "store \<Rightarrow> string \<Rightarrow> int option" where
  \<comment> \<open>the ID of the virtual container with that path\<close>
  "virtual_at st path = map_option row_id (find (at_location (Some (LOC_VIRT_PREFIX # path))) (st_rows st))"

definition plain_pending :: "store \<Rightarrow> bool" where
  \<comment> \<open>the insert buffer holds items only\<close>
  "plain_pending st \<longleftrightarrow> (\<forall>r \<in> set (st_pending st). \<forall>path. nul_free path \<longrightarrow> \<not> at_location (Some (LOC_VIRT_PREFIX # path)) r)"

lemma sql_literals_not_None [simp]: "sql_int i \<noteq> None" "sql_uint w \<noteq> None" "sql_quote z \<noteq> None"
  by (simp_all add: sql_int_def sql_uint_def sql_quote_def)

lemma stored_col:
  "stored_row n d c = (if c = ''id'' then sql_int n
     else if d_get d (Some c) = None then column_default c else literal_value (d_get d (Some c)))"
  by (auto simp: stored_row_def split: option.split)

lemma container_row_cols:
  "container_row i p name loc cls ref ''id'' = Some (show_int i)"
  "container_row i p name loc cls ref ''parent_id'' = Some (show_int p)"
  "container_row i p name loc cls ref ''object_type'' = Some (show_int (uint OBJECT_TYPE_CONTAINER))"
  "container_row i p name loc cls ref ''upnp_class'' =
     literal_value (sql_quote (if string_ok cls then cls else Some ''object.container''))"
  "container_row i p name loc cls ref ''dc_title'' = literal_value (sql_quote name)"
  "container_row i p name loc cls ref ''location'' = literal_value (sql_quote loc)"
  "container_row i p name loc cls ref ''location_hash'' = literal_value (sql_uint (stringHash (the loc)))"
  "container_row i p name loc cls ref ''ref_id'' = (if ref > 0 then Some (show_int ref) else None)"
  "container_row i p name loc cls ref ''metadata'' = None"
  "container_row i p name loc cls ref ''auxdata'' = None"
  "container_row i p name loc cls ref ''resources'' = None"
  "container_row i p name loc cls ref ''flags'' = Some ''1''"
  "container_row i p name loc cls ref ''update_id'' = Some ''0''"
  "container_row i p name loc cls ref ''mime_type'' = None"
  "container_row i p name loc cls ref ''track_number'' = None"
  "container_row i p name loc cls ref ''service_id'' = None"
  unfolding container_row_def stored_col
  by (simp_all add: get_put_col column_default_def sql_uint_int) (simp_all add: sql_int_def)

lemma at_location_container_row:
  assumes "nul_free p" "nul_free q"
  shows "at_location (Some p) (container_row i parent name (Some q) cls ref) \<longleftrightarrow> p = q"
  using assms by (auto simp: at_location_def col_is_def container_row_cols sql_uint_int)

lemma find_no_match: "(\<And>x. x \<in> set xs \<Longrightarrow> \<not> P x) \<Longrightarrow> find P xs = None"
  by (simp add: find_None_iff)

lemma container_row_id [simp]:
  "- (2 ^ 31) \<le> i \<Longrightarrow> i < 2 ^ 31 \<Longrightarrow> row_id (container_row i parent name loc cls ref) = i"
  by (simp add: row_id_def container_row_cols)

lemma createContainer_virtual:
  fixes parentID :: int and name upnpClass :: zstring
  assumes "CDS_ID_FS_ROOT \<le> st_lastID st" "st_lastID st + 1 < 2 ^ 31" "plain_pending st" "nul_free path"
    and "0 < refID \<longrightarrow> (\<exists>ob st1. loadObject refID st = (Inr ob, st1))"
  defines "new \<equiv> container_row (st_lastID st + 1) parentID name (Some (LOC_VIRT_PREFIX # path)) upnpClass refID"
  shows "\<exists>st'. createContainer parentID name (Some path) True upnpClass refID st = (Inr (st_lastID st + 1), st')
    \<and> st_lastID st' = st_lastID st + 1 \<and> plain_pending st'
    \<and> (\<forall>p. nul_free p \<longrightarrow> find (at_location (Some (LOC_VIRT_PREFIX # p))) (st_rows st')
         = (case find (at_location (Some (LOC_VIRT_PREFIX # p))) (st_rows st) of
              Some r \<Rightarrow> Some r | None \<Rightarrow> if p = path then Some new else None))"
proof -
  have loc: "addLocationPrefix LOC_VIRT_PREFIX (Some path) = Some (LOC_VIRT_PREFIX # path)"
    using assms(4) by (simp add: addLocationPrefix_def cstring_simps)
  obtain st' where st': "createContainer parentID name (Some path) True upnpClass refID st = (Inr (st_lastID st + 1), st')"
    "st_lastID st' = st_lastID st + 1"
    "st_rows st' = st_rows st @ [new] \<and> st_pending st' = st_pending st
          \<or> st_rows st' = st_rows st @ [new] @ st_pending st \<and> st_pending st' = []
          \<or> st_rows st' = st_rows st @ st_pending st @ [new] \<and> st_pending st' = []"
    using createContainer_effect [OF assms(1,2,5), of parentID name "Some path" True upnpClass]
    unfolding if_True loc Let_def new_def [symmetric] by blast
  have pp: "plain_pending st'" using st'(3) assms(3) by (auto simp: plain_pending_def)
  have "find (at_location (Some (LOC_VIRT_PREFIX # p))) (st_rows st')
         = (case find (at_location (Some (LOC_VIRT_PREFIX # p))) (st_rows st) of
              Some r \<Rightarrow> Some r | None \<Rightarrow> if p = path then Some new else None)" if p: "nul_free p" for p
  proof -
    have none: "find (at_location (Some (LOC_VIRT_PREFIX # p))) (st_pending st) = None"
      using assms(3) p by (intro find_no_match) (simp add: plain_pending_def)
    have "at_location (Some (LOC_VIRT_PREFIX # p)) new \<longleftrightarrow> p = path"
      unfolding new_def using at_location_container_row [of "LOC_VIRT_PREFIX # p" "LOC_VIRT_PREFIX # path"] p assms(4) by simp
    then show ?thesis using st'(3) none by (auto simp: find_append split: option.split)
  qed
  then show ?thesis using st' pp by blast
qed

section \<open>Chains of containers\<close>

text \<open>
  The specification: a map from paths to IDs and the last ID given out. A chain is
  the list of its titles from the bottom; a container that is missing gets the
  next ID after the ones above it.
\<close>

fun chain_spec :: "string list \<Rightarrow> (string \<rightharpoonup> int) \<times> int \<Rightarrow> int \<times> (string \<rightharpoonup> int) \<times> int" where
  "chain_spec [] s = (CDS_ID_ROOT, s)"
| "chain_spec (t # ts) (m, n) =
     (let path = vpath (rev (t # ts))
      in case m path of
           Some i \<Rightarrow> (i, m, n)
         | None \<Rightarrow> (let (_, m, n) = chain_spec ts (m, n) in (n + 1, m(path \<mapsto> n + 1), n + 1)))"

definition virtual_map :: "store \<Rightarrow> (string \<rightharpoonup> int) \<times> int" where
  \<comment> \<open>the abstraction\<close>
  "virtual_map st = ((\<lambda>p. if nul_free p then virtual_at st p else None), st_lastID st)"

definition chain_path :: "string list \<Rightarrow> string" where
  "chain_path ts = (if ts = [] then ''/'' else vpath ts)"

definition chain_ok :: "string list \<Rightarrow> bool" where
  "chain_ok ts \<longleftrightarrow> (\<forall>t \<in> set (butlast ts). title_ok t) \<and> (\<forall>t \<in> set ts. nul_free t \<and> t \<noteq> [])"

definition titles_match :: "store \<Rightarrow> bool" where
  \<comment> \<open>below the first level a container has the last title of its path and hangs below the
      container of the rest\<close>
  "titles_match st \<longleftrightarrow>
     (\<forall>ts t r. ts \<noteq> [] \<longrightarrow> (\<forall>u \<in> set ts. title_ok u) \<longrightarrow> nul_free t \<longrightarrow> t \<noteq> [] \<longrightarrow>
        find (at_location (Some (LOC_VIRT_PREFIX # vpath (ts @ [t])))) (st_rows st) = Some r \<longrightarrow>
        r ''dc_title'' = Some t \<and> virtual_at st (vpath ts) = Some (z_toInt (r ''parent_id'')))"

definition ids_in_range :: "store \<Rightarrow> bool" where
  "ids_in_range st \<longleftrightarrow> (\<forall>r \<in> set (st_rows st). - (2 ^ 31) \<le> row_id r \<and> row_id r < 2 ^ 31)"

lemma chain_spec_bounds:
  "chain_spec ts (m, n) = (i, m', n') \<Longrightarrow> n \<le> n' \<and> n' \<le> n + int (length ts)"
proof (induction ts arbitrary: i m' n')
  case (Cons t ts)
  then show ?case
    by (cases "chain_spec ts (m, n)") (fastforce simp: Let_def split: option.splits)
qed simp

lemma chain_ok_snoc:
  assumes "chain_ok (ts @ [t])"
  shows "\<forall>u \<in> set ts. title_ok u" "nul_free t" "t \<noteq> []" "chain_ok ts"
  using assms by (auto simp: chain_ok_def dest: in_set_butlastD)

lemma squeeze_chain_path:
  assumes "chain_ok ts"
  shows "z_reduce (Some (chain_path ts)) VIRTUAL_CONTAINER_SEPARATOR = Inr (Some (chain_path ts))"
proof -
  have "nul_free (chain_path ts)" using assms by (simp add: chain_path_def chain_ok_def)
  moreover have "squeeze VIRTUAL_CONTAINER_SEPARATOR (chain_path ts) = chain_path ts"
    using squeeze_vpath [of ts] assms by (auto simp: chain_path_def chain_ok_def)
  ultimately show ?thesis by (simp add: z_reduce_squeeze)
qed

lemma strip_chain_path:
  assumes "chain_ok (ts @ [t])"
  shows "stripAndUnescape (Some (vpath (ts @ [t])))
    = Inr (Some (chain_path ts),
           Some (if ts = [] \<and> VIRTUAL_CONTAINER_SEPARATOR \<notin> set t then esc_title t else t))"
proof (cases "ts = []")
  case True
  have "VIRTUAL_CONTAINER_SEPARATOR \<in> set t \<longleftrightarrow> VIRTUAL_CONTAINER_SEPARATOR \<in> set (esc_title t)"
    by (induction t) (auto simp: esc_title_def)
  then show ?thesis
    using strip_top_title [of t] strip_top_verbatim [of "esc_title t"] chain_ok_snoc [OF assms] True
    by (simp add: chain_path_def)
next
  case False
  then show ?thesis using strip_vpath [OF False chain_ok_snoc(1,2) [OF assms]] by (simp add: chain_path_def)
qed

lemma vpath_snoc_inj:
  assumes "chain_ok (ts @ [t])" "chain_ok (us @ [u])" "ts \<noteq> []" "us \<noteq> []" "vpath (ts @ [t]) = vpath (us @ [u])"
  shows "vpath ts = vpath us" "t = u"
proof -
  have strip: "stripAndUnescape (Some (vpath (xs @ [x]))) = Inr (Some (vpath xs), Some x)"
    if "chain_ok (xs @ [x])" "xs \<noteq> []" for xs x
    using strip_vpath [OF that(2) chain_ok_snoc(1,2) [OF that(1)]] .
  have "(Inr (Some (vpath ts), Some t) :: (zstring \<times> zstring) result) = Inr (Some (vpath us), Some u)"
    using strip [OF assms(1,3)] strip [OF assms(2,4)] unfolding assms(5) by (rule trans [OF sym])
  then show "vpath ts = vpath us" "t = u" by simp_all
qed

lemma top_path_differs:
  assumes "chain_ok (ts @ [t])" "chain_ok [u]" "ts \<noteq> []"
  shows "vpath (ts @ [t]) \<noteq> vpath [u]"
proof
  assume eq: "vpath (ts @ [t]) = vpath [u]"
  have "stripAndUnescape (Some (vpath [u])) = Inr (Some (vpath ts), Some t)"
    using strip_vpath [OF assms(3) chain_ok_snoc(1,2) [OF assms(1)]] unfolding eq .
  then have "vpath ts = ''/''"
    using strip_chain_path [of "[]" u] assms(2) by (simp add: chain_path_def)
  moreover have "[] \<notin> set ts" using chain_ok_snoc(1) [OF assms(1)] by (auto simp: title_ok_def)
  ultimately show False using vpath_neq_separator [OF assms(3)] by blast
qed

lemma container_row_columns:
  assumes "nul_free t" "- (2 ^ 31) \<le> p" "p < 2 ^ 31"
  shows "container_row i p (Some t) loc cls ref ''dc_title'' = Some t"
    "z_toInt (container_row i p (Some t) loc cls ref ''parent_id'') = p"
  using assms by (simp_all add: container_row_cols)

lemma length_vpath_rev: "length (vpath (rev us)) < length (vpath (rev (u # us)))"
  by simp

lemma chain_spec_other:
  "chain_spec us (m, n) = (i, m', n') \<Longrightarrow> length (vpath (rev us)) < length p \<Longrightarrow> m' p = m p"
proof (induction us arbitrary: i m' n')
  case (Cons t ts)
  show ?case
  proof (cases "m (vpath (rev (t # ts)))")
    case None
    obtain j m1 n1 where c: "chain_spec ts (m, n) = (j, m1, n1)" by (cases "chain_spec ts (m, n)")
    then have "m' = m1(vpath (rev (t # ts)) \<mapsto> n1 + 1)" using Cons.prems(1) None by (auto simp: Let_def)
    moreover have "m1 p = m p" using Cons.IH [OF c] Cons.prems(2) length_vpath_rev [of ts t] by simp
    moreover have "p \<noteq> vpath (rev (t # ts))" using Cons.prems(2) by blast
    ultimately show ?thesis by simp
  qed (use Cons.prems in \<open>simp add: Let_def\<close>)
qed simp

lemma row_id_range: "- (2 ^ 31) \<le> row_id r \<and> row_id r < 2 ^ 31"
  unfolding row_id_def z_toInt_def by (rule to_int32_range)

lemma virtual_at_range: "virtual_at st p = Some i \<Longrightarrow> - (2 ^ 31) \<le> i \<and> i < 2 ^ 31"
  using row_id_range by (auto simp: virtual_at_def)

lemma titles_match_create:
  assumes tm: "titles_match st" and ok: "chain_ok (ts @ [t])"
    and up: "ts \<noteq> [] \<longrightarrow> virtual_at st (vpath ts) = Some parent"
    and new: "new = container_row i parent (Some title) (Some (LOC_VIRT_PREFIX # vpath (ts @ [t]))) cls ref"
    and title: "ts \<noteq> [] \<longrightarrow> title = t"
    and rows: "\<forall>p. nul_free p \<longrightarrow> find (at_location (Some (LOC_VIRT_PREFIX # p))) (st_rows st')
         = (case find (at_location (Some (LOC_VIRT_PREFIX # p))) (st_rows st) of
              Some r \<Rightarrow> Some r | None \<Rightarrow> if p = vpath (ts @ [t]) then Some new else None)"
  shows "titles_match st'"
  unfolding titles_match_def
proof (intro allI impI)
  fix us u r
  assume us: "us \<noteq> []" "\<forall>u \<in> set us. title_ok u" and u: "nul_free u" "u \<noteq> []"
    and r: "find (at_location (Some (LOC_VIRT_PREFIX # vpath (us @ [u])))) (st_rows st') = Some r"
  have nf: "nul_free (vpath us)" "nul_free (vpath (us @ [u]))"
    using us u nul_free_vpath [of us] nul_free_vpath [of "us @ [u]"] by (auto simp: title_ok_def)
  have mono: "virtual_at st' (vpath us) = Some j" if "virtual_at st (vpath us) = Some j" for j
    using rows nf(1) that by (auto simp: virtual_at_def split: option.splits)
  have uok: "chain_ok (us @ [u])" using us u by (auto simp: chain_ok_def title_ok_def)
  show "r ''dc_title'' = Some u \<and> virtual_at st' (vpath us) = Some (z_toInt (r ''parent_id''))"
  proof (cases "find (at_location (Some (LOC_VIRT_PREFIX # vpath (us @ [u])))) (st_rows st)")
    case (Some r')
    then have "r' = r" using r rows nf(2) by simp
    then have "r ''dc_title'' = Some u \<and> virtual_at st (vpath us) = Some (z_toInt (r ''parent_id''))"
      using tm us u Some unfolding titles_match_def by blast
    then show ?thesis using mono by blast
  next
    case None
    then have p: "vpath (us @ [u]) = vpath (ts @ [t])" and rn: "r = new"
      using r rows nf(2) by (simp_all split: if_splits)
    have ts: "ts \<noteq> []" using top_path_differs [OF uok, of t] ok us(1) p by auto
    note eq = vpath_snoc_inj [OF uok ok us(1) ts p]
    have parent: "virtual_at st (vpath us) = Some parent" using up ts eq(1) by simp
    then show ?thesis
      using mono [OF parent] virtual_at_range [OF parent] title ts u(1)
      unfolding rn new eq(2) by (simp add: container_row_columns)
  qed
qed

lemma addContainerChain_chain:
  assumes "chain_ok ts" "lastRefID \<le> 0" "plain_pending st" "CDS_ID_FS_ROOT \<le> st_lastID st"
    "st_lastID st + int (length ts) < 2 ^ 31" "titles_match st"
  shows "\<exists>i upd' st'. addContainerChain (Some (chain_path ts)) lastClass lastRefID upd st = (Inr (i, upd'), st')
    \<and> chain_spec (rev ts) (virtual_map st) = (i, virtual_map st')
    \<and> plain_pending st' \<and> titles_match st' \<and> (ts \<noteq> [] \<longrightarrow> virtual_at st' (vpath ts) = Some i)"
  using assms(1,2,5)
proof (induction ts arbitrary: lastClass lastRefID upd rule: rev_induct)
  case Nil
  have "addContainerChain (Some (chain_path [])) lastClass lastRefID upd st = (Inr (CDS_ID_ROOT, upd), st)"
    using squeeze_chain_path [of "[]"]
    by (subst addContainerChain.simps) (simp add: chain_path_def chain_ok_def z_eq_char_def byte_at_def)
  then show ?case using assms(3,6) by simp
next
  case (snoc t ts)
  define path where "path = vpath (ts @ [t])"
  note ok = snoc.prems(1)
  have nf: "nul_free path" unfolding path_def using ok by (intro nul_free_vpath) (simp add: chain_ok_def)
  have red: "z_reduce (Some path) VIRTUAL_CONTAINER_SEPARATOR = Inr (Some path)"
    using squeeze_chain_path [OF ok] by (simp add: chain_path_def path_def)
  have "path \<noteq> ''/''" unfolding path_def using ok by (intro vpath_neq_separator) (auto simp: chain_ok_def)
  then have ne: "\<not> z_eq_char (Some path) VIRTUAL_CONTAINER_SEPARATOR"
    by (cases path) (auto simp: z_eq_char_def byte_at_def)
  have loc: "addLocationPrefix LOC_VIRT_PREFIX (Some path) = Some (LOC_VIRT_PREFIX # path)"
    using nf by (simp add: addLocationPrefix_def cstring_simps)
  have cp: "chain_path (ts @ [t]) = path" by (simp add: chain_path_def path_def)
  have rv: "vpath (rev (t # rev ts)) = path" by (simp add: path_def)
  show ?case
  proof (cases "find (at_location (Some (LOC_VIRT_PREFIX # path))) (st_rows st)")
    case (Some r)
    have v: "virtual_at st path = Some (row_id r)" using Some by (simp add: virtual_at_def)
    have "addContainerChain (Some path) lastClass lastRefID upd st = (Inr (row_id r, upd), st)"
      using Some by (subst addContainerChain.simps) (simp add: red ne loc)
    moreover have "chain_spec (rev (ts @ [t])) (virtual_map st) = (row_id r, virtual_map st)"
      using v nf rv by (simp add: virtual_map_def)
    ultimately show ?thesis using v assms(3,6) unfolding cp path_def [symmetric] by simp
  next
    case None
    define title where "title = (if ts = [] \<and> VIRTUAL_CONTAINER_SEPARATOR \<notin> set t then esc_title t else t)"
    have strip: "stripAndUnescape (Some path) = Inr (Some (chain_path ts), Some title)"
      using strip_chain_path [OF ok] by (simp add: path_def title_def)
    obtain j upd1 st1 where st1: "addContainerChain (Some (chain_path ts)) None INVALID_OBJECT_ID upd st = (Inr (j, upd1), st1)"
      "chain_spec (rev ts) (virtual_map st) = (j, virtual_map st1)" "plain_pending st1" "titles_match st1"
      "ts \<noteq> [] \<longrightarrow> virtual_at st1 (vpath ts) = Some j"
      using snoc.IH [of INVALID_OBJECT_ID None upd] chain_ok_snoc(4) [OF ok] snoc.prems(3) by auto
    have last: "st_lastID st \<le> st_lastID st1" "st_lastID st1 \<le> st_lastID st + int (length ts)"
      using chain_spec_bounds [of "rev ts" "fst (virtual_map st)" "st_lastID st" j "fst (virtual_map st1)" "st_lastID st1"] st1(2)
      by (simp_all add: virtual_map_def)
    have absent: "find (at_location (Some (LOC_VIRT_PREFIX # path))) (st_rows st1) = None"
    proof -
      have "fst (virtual_map st1) path = fst (virtual_map st) path"
        by (rule chain_spec_other [of "rev ts" _ "st_lastID st" j _ "st_lastID st1"])
          (use st1(2) in \<open>simp_all add: virtual_map_def path_def\<close>)
      then show ?thesis using None nf by (simp add: virtual_map_def virtual_at_def)
    qed
    define new where "new = container_row (st_lastID st1 + 1) j (Some title) (Some (LOC_VIRT_PREFIX # path)) lastClass lastRefID"
    obtain st2 where st2: "createContainer j (Some title) (Some path) True lastClass lastRefID st1 = (Inr (st_lastID st1 + 1), st2)"
      "st_lastID st2 = st_lastID st1 + 1" "plain_pending st2"
      "\<forall>p. nul_free p \<longrightarrow> find (at_location (Some (LOC_VIRT_PREFIX # p))) (st_rows st2)
         = (case find (at_location (Some (LOC_VIRT_PREFIX # p))) (st_rows st1) of
              Some r \<Rightarrow> Some r | None \<Rightarrow> if p = path then Some new else None)"
      using createContainer_virtual [of st1 path lastRefID j "Some title" lastClass] st1(3) nf last assms(4) snoc.prems(2,3)
      unfolding new_def by auto
    have run: "addContainerChain (Some path) lastClass lastRefID upd st
      = (Inr (st_lastID st1 + 1, if upd1 = Some INVALID_OBJECT_ID then Some j else upd1), st2)"
      using None by (subst addContainerChain.simps) (simp add: red ne loc strip and_then_def st1(1) st2(1))
    have newid: "row_id new = st_lastID st1 + 1"
      unfolding new_def using last assms(4) snoc.prems(3) by (intro container_row_id) simp_all
    have abs: "virtual_map st2 = ((fst (virtual_map st1))(path \<mapsto> st_lastID st1 + 1), st_lastID st1 + 1)"
      using st2(2,4) absent nf newid
      by (auto simp: virtual_map_def virtual_at_def fun_eq_iff split: option.split)
    have spec: "chain_spec (rev (ts @ [t])) (virtual_map st) = (st_lastID st1 + 1, virtual_map st2)"
    proof -
      have m: "fst (virtual_map st) path = None" using None nf by (simp add: virtual_map_def virtual_at_def)
      have c: "chain_spec (rev ts) (fst (virtual_map st), st_lastID st) = (j, fst (virtual_map st1), st_lastID st1)"
        using st1(2) by (simp add: virtual_map_def)
      have "chain_spec (rev (ts @ [t])) (fst (virtual_map st), st_lastID st)
        = (st_lastID st1 + 1, (fst (virtual_map st1))(path \<mapsto> st_lastID st1 + 1), st_lastID st1 + 1)"
        using m c rv by simp
      then show ?thesis unfolding abs by (simp add: virtual_map_def)
    qed
    have tm: "titles_match st2"
      by (rule titles_match_create [OF st1(4) ok st1(5) _ _ st2(4) [unfolded path_def]])
        (auto simp: new_def path_def title_def)
    have "virtual_at st2 path = Some (st_lastID st1 + 1)"
      using st2(4) absent nf newid by (simp add: virtual_at_def)
    then show ?thesis using run spec st2(3) tm unfolding cp path_def [symmetric] by simp
  qed
qed

lemma addContainerChain_again:
  assumes "chain_ok ts" "ts \<noteq> []" "virtual_at st (vpath ts) = Some i"
  shows "addContainerChain (Some (vpath ts)) lastClass lastRefID upd st = (Inr (i, upd), st)"
proof -
  have nf: "nul_free (vpath ts)" using assms(1) by (intro nul_free_vpath) (simp add: chain_ok_def)
  have red: "z_reduce (Some (vpath ts)) VIRTUAL_CONTAINER_SEPARATOR = Inr (Some (vpath ts))"
    using squeeze_chain_path [OF assms(1)] assms(2) by (simp add: chain_path_def)
  have "vpath ts \<noteq> ''/''" using assms by (intro vpath_neq_separator) (auto simp: chain_ok_def)
  then have ne: "\<not> z_eq_char (Some (vpath ts)) VIRTUAL_CONTAINER_SEPARATOR"
    by (cases "vpath ts") (auto simp: z_eq_char_def byte_at_def)
  have loc: "addLocationPrefix LOC_VIRT_PREFIX (Some (vpath ts)) = Some (LOC_VIRT_PREFIX # vpath ts)"
    using nf by (simp add: addLocationPrefix_def cstring_simps)
  show ?thesis
    using assms(3) by (subst addContainerChain.simps) (auto simp: red ne loc virtual_at_def)
qed

section \<open>Titles that are not kept apart\<close>

lemma addContainerChain_reduced:
  "z_reduce p VIRTUAL_CONTAINER_SEPARATOR = z_reduce q VIRTUAL_CONTAINER_SEPARATOR \<Longrightarrow>
     addContainerChain p cls ref upd st = addContainerChain q cls ref upd st"
  by (simp add: addContainerChain.simps [of p cls ref upd st] addContainerChain.simps [of q cls ref upd st])

lemma esc_title_append: "esc_title (s @ t) = esc_title s @ esc_title t"
  by (induction s) (auto simp: esc_title_def)

lemma separator_title_merged:
  assumes "\<forall>t \<in> set ts. nul_free t" "nul_free t" "nul_free u" "u \<noteq> []"
  shows "addContainerChain (Some (vpath (ts @ [t @ ''/'', u]))) cls ref upd st
    = addContainerChain (Some (vpath (ts @ [t @ ''/'' @ u]))) cls ref upd st"
proof (rule addContainerChain_reduced)
  let ?S = VIRTUAL_CONTAINER_SEPARATOR
  define x where "x = vpath ts @ ?S # esc_title t @ [VIRTUAL_CONTAINER_ESCAPE]"
  have one: "esc_title ''/'' = [VIRTUAL_CONTAINER_ESCAPE, ?S]" by (simp add: esc_title_def)
  have sep: "esc_title (?S # y) = VIRTUAL_CONTAINER_ESCAPE # ?S # esc_title y" for y by (simp add: esc_title_def)
  have a: "vpath (ts @ [t @ ''/'', u]) = x @ ?S # ?S # esc_title u"
    by (simp add: x_def esc_title_append one vpath_def)
  have b: "vpath (ts @ [t @ ''/'' @ u]) = x @ ?S # esc_title u"
    by (simp add: x_def esc_title_append sep vpath_def)
  have hd: "hd (esc_title u) \<noteq> ?S" using hd_esc_title [OF assms(4)] .
  have "squeeze ?S (x @ y) = squeeze ?S x @ squeeze ?S y" for y
    by (rule squeeze_append) (simp add: x_def)
  moreover have "squeeze ?S (?S # ?S # esc_title u) = squeeze ?S (?S # esc_title u)" by simp
  ultimately have sq: "squeeze ?S (x @ ?S # ?S # esc_title u) = squeeze ?S (x @ ?S # esc_title u)" by simp
  have nf: "nul_free (x @ ?S # ?S # esc_title u)" "nul_free (x @ ?S # esc_title u)"
    using assms by (simp_all add: x_def)
  show "z_reduce (Some (vpath (ts @ [t @ ''/'', u]))) ?S = z_reduce (Some (vpath (ts @ [t @ ''/'' @ u]))) ?S"
    unfolding a b using z_reduce_squeeze [OF nf(1), of ?S] z_reduce_squeeze [OF nf(2), of ?S] sq by simp
qed

section \<open>Reading a container back\<close>

definition loaded_container :: "int \<Rightarrow> int \<Rightarrow> string \<Rightarrow> string \<Rightarrow> bool \<Rightarrow> zstring \<Rightarrow> cds_object" where
  "loaded_container i parent title path isVirtual cls =
     new_CdsContainer\<lparr>o_id := i, o_refID := 0, o_parentID := parent, o_title := Some title,
       o_upnpClass := (if string_ok cls then map_option cstr cls else Some ''object.container''),
       o_location := Some path, o_virt := isVirtual, o_objectFlags := 1\<rparr>"

lemma read_container:
  fixes isVirtual :: bool
  assumes "nul_free title" "nul_free path" "- (2 ^ 31) \<le> parent" "parent < 2 ^ 31" "- (2 ^ 31) \<le> i" "i < 2 ^ 31"
  defines "prefix \<equiv> (if isVirtual then LOC_VIRT_PREFIX else LOC_DIR_PREFIX)"
  shows "createObjectFromRow active
      (select_row (container_row i parent (Some title) (Some (prefix # path)) cls (- 333)) (\<lambda>_. None) None)
    = Inr (loaded_container i parent title path isVirtual cls)"
proof -
  define row where "row = container_row i parent (Some title) (Some (prefix # path)) cls (- 333)"
  note c = container_row_cols [of i parent "Some title" "Some (prefix # path)" cls "- 333", folded row_def]
  have pfx: "nul_free (prefix # path)" using assms(2) by (simp add: prefix_def)
  have null: "z_toInt None = 0" by (simp add: z_toInt_def z_toLong_def)
  have ty: "word_of_int (z_toInt (row ''object_type'')) = OBJECT_TYPE_CONTAINER"
    unfolding c using z_toInt_show [of "uint OBJECT_TYPE_CONTAINER"] by simp
  have ids: "z_toInt (row ''id'') = i" "z_toInt (row ''parent_id'') = parent" "z_toInt (row ''ref_id'') = 0"
    unfolding c using assms null by simp_all
  have fl: "z_toUInt (row ''flags'') = 1" "z_toInt (row ''update_id'') = 0"
  proof -
    have "show_int (uint (1 :: 32 word)) = ''1''" "show_int 0 = ''0''" by code_simp+
    then show "z_toUInt (row ''flags'') = 1" "z_toInt (row ''update_id'') = 0"
      unfolding c using z_toUInt_show [of 1] z_toInt_show [of 0] by simp_all
  qed
  have dn: "d_decode [] (fallbackString None None) = []" by (simp add: fallbackString_def d_decode_def)
  have rs: "\<not> string_ok (fallbackString None None)" by (simp add: fallbackString_def)
  have fb: "fallbackString (Some x) v = Some x" for x v by (simp add: fallbackString_def)
  have cls: "fallbackString (row ''upnp_class'') None =
      (if string_ok cls then map_option cstr cls else Some ''object.container'')"
  proof (cases cls)
    case None
    then show ?thesis unfolding c by (simp add: literal_value_quote fb)
  next
    case (Some x)
    have "nul_free ''object.container''" by (simp add: nul_free_def)
    then show ?thesis unfolding c using Some by (simp add: literal_value_quote fb)
  qed
  have loc: "stripLocationPrefix (row ''location'') = Inr (Some path)" "locationPrefix (row ''location'') = prefix"
    unfolding c using pfx stripLocationPrefix_add [of path prefix]
    by (simp_all add: literal_value_quote locationPrefix_def byte_at_def stripLocationPrefix_def
        z_substring_from_def cstring_simps)
  have ic: "IS_CDS_CONTAINER OBJECT_TYPE_CONTAINER" "\<not> IS_CDS_ITEM OBJECT_TYPE_CONTAINER"
    "\<not> IS_CDS_PURE_ITEM OBJECT_TYPE_CONTAINER" "\<not> IS_CDS_ACTIVE_ITEM OBJECT_TYPE_CONTAINER"
    by (simp_all add: IS_CDS_defs)
  have co: "createObject OBJECT_TYPE_CONTAINER = Inr new_CdsContainer" using ic by (simp add: createObject_def)
  have tl: "row ''dc_title'' = Some title" unfolding c using assms(1) by simp
  have common: "row_common (select_row row (\<lambda>_. None) None) OBJECT_TYPE_CONTAINER new_CdsContainer
    = Inr ((loaded_container i parent title path isVirtual cls)\<lparr>o_location := None, o_virt := False\<rparr>, False)"
    by (simp add: row_common_def Let_def ids fl c(9,10,11) dn rs ic cls tl loaded_container_def new_Cds_defs)
  have "row_container (select_row row (\<lambda>_. None) None)
      ((loaded_container i parent title path isVirtual cls)\<lparr>o_location := None, o_virt := False\<rparr>)
    = Inr (loaded_container i parent title path isVirtual cls)"
    by (simp add: row_container_def loc fl loaded_container_def new_Cds_defs prefix_def)
  then show ?thesis
    unfolding createObjectFromRow_def row_def [symmetric] Let_def select_row_simps ty co bind_result_simps common
    using ic by simp
qed

definition ids_below :: "store \<Rightarrow> bool" where
  \<comment> \<open>every ID has been given out\<close>
  "ids_below st \<longleftrightarrow> (\<forall>r \<in> set (table st). row_id r \<le> st_lastID st)"

lemma no_row_with_next_id:
  assumes "ids_below st" "- (2 ^ 31) \<le> i" "i < 2 ^ 31" "st_lastID st < i"
  shows "find (with_id i) (table st) = None"
proof (rule find_no_match)
  fix r assume r: "r \<in> set (table st)"
  show "\<not> with_id i r"
  proof
    assume "with_id i r"
    then have "row_id r = i" using assms(2,3) by (auto simp: with_id_def col_is_def row_id_def)
    then show False using assms(1,4) r by (auto simp: ids_below_def)
  qed
qed

lemma created_container_found:
  assumes "nul_free title" "nul_free path" "- (2 ^ 31) \<le> parent" "parent < 2 ^ 31"
    and "CDS_ID_FS_ROOT \<le> st_lastID st" "st_lastID st + 1 < 2 ^ 31"
    and "ids_below st" "ss_cache (st_sql st) = None"
    and "\<forall>a \<in> set (st_autoscans st). a ''obj_id'' \<noteq> Some (show_int (st_lastID st + 1))"
  shows "\<exists>st' st''. createContainer parent (Some title) (Some path) isVirtual cls INVALID_OBJECT_ID st
      = (Inr (st_lastID st + 1), st')
    \<and> loadObject (st_lastID st + 1) st' = (Inr (loaded_container (st_lastID st + 1) parent title path isVirtual cls), st'')"
proof -
  let ?n = "st_lastID st + 1"
  let ?prefix = "if isVirtual then LOC_VIRT_PREFIX else LOC_DIR_PREFIX"
  define new where "new = container_row ?n parent (Some title) (Some (?prefix # path)) cls (- 333)"
  define st' where "st' = st\<lparr>st_lastID := ?n, st_rows := st_rows st @ [new]\<rparr>"
  have loc: "addLocationPrefix ?prefix (Some path) = Some (?prefix # path)"
    using assms(2) by (simp add: addLocationPrefix_def cstring_simps)
  have next_id: "getNextID st = (Inr ?n, st\<lparr>st_lastID := ?n\<rparr>)" using assms(5,6) by (simp add: getNextID_def)
  have c: "createContainer parent (Some title) (Some path) isVirtual cls INVALID_OBJECT_ID st = (Inr ?n, st')"
    unfolding createContainer_def loc
    using assms(8) by (simp add: and_then_Inr [of getNextID, OF next_id] st'_def new_def)
  have "find (with_id ?n) (st_rows st @ st_pending st) = None"
    using no_row_with_next_id [OF assms(7), of ?n] assms(5,6) by (simp add: table_def)
  then have "find (with_id ?n) (st_rows st) = None" by (simp add: find_append split: option.splits)
  moreover have "with_id ?n new" by (simp add: with_id_def col_is_def new_def container_row_cols)
  ultimately have f: "find (with_id ?n) (st_rows st') = Some new" by (simp add: st'_def find_append)
  have "find (\<lambda>a. a ''obj_id'' \<noteq> None \<and> a ''obj_id'' = new ''id'') (st_autoscans st) = None"
    by (rule find_no_match) (use assms(9) in \<open>simp add: new_def container_row_cols\<close>)
  moreover have "find (\<lambda>rf. rf ''id'' \<noteq> None \<and> rf ''id'' = new ''ref_id'') xs = None" for xs
    by (rule find_no_match) (auto simp: new_def container_row_cols)
  ultimately have j: "joined_row st' new = select_row new (\<lambda>_. None) None"
    by (simp add: joined_row_def st'_def)
  have r: "createObjectFromRow (st_active st') (joined_row st' new)
    = Inr (loaded_container ?n parent title path isVirtual cls)"
    unfolding j unfolding new_def using assms(1-6) by (intro read_container) simp_all
  have "ss_cache (st_sql st') = None" using assms(8) by (simp add: st'_def)
  then have "\<exists>st''. loadObject ?n st' = (Inr (loaded_container ?n parent title path isVirtual cls), st'')"
    using f r by (simp add: loadObject_def cached_def object_of_row_def store_addObjectToCache_def
      addObjectToCache_def and_then_def)
  then show ?thesis using c by blast
qed

end
