(* ===== verification/Sql_Browse.thy ===== *)
theory Sql_Browse
  imports Sql_Store "HOL-Library.Char_ord" "HOL-Library.List_Lexorder" "HOL-Library.Multiset"
begin

text \<open>
  Listing and counting in the SQL storage (src/storage/sql_storage.cc: \<open>browse\<close>,
  \<open>getChildCount\<close>, \<open>getMimeTypes\<close>, \<open>getTotalFiles\<close>, \<open>getObjects\<close>,
  \<open>incrementUpdateIDs\<close>, \<open>getPathIDs\<close>, \<open>clearFlagInDB\<close>, the name of the file
  system's root; \<open>BrowseParam\<close> of src/storage.h).

  The order in which the database returns rows with equal keys is its own choice,
  so the sorting of a listing is an argument: it gets the flags of the ORDER BY
  clause and the rows. LIMIT and OFFSET are SQLite's: a negative limit is none.
\<close>

unbundle bit_operations_syntax

section \<open>Parameters\<close>

abbreviation BROWSE_DIRECT_CHILDREN :: "32 word" where "BROWSE_DIRECT_CHILDREN \<equiv> 0x1"
abbreviation BROWSE_ITEMS :: "32 word" where "BROWSE_ITEMS \<equiv> 0x2"
abbreviation BROWSE_CONTAINERS :: "32 word" where "BROWSE_CONTAINERS \<equiv> 0x4"
abbreviation BROWSE_EXACT_CHILDCOUNT :: "32 word" where "BROWSE_EXACT_CHILDCOUNT \<equiv> 0x8"
abbreviation BROWSE_TRACK_SORT :: "32 word" where "BROWSE_TRACK_SORT \<equiv> 0x10"
abbreviation BROWSE_HIDE_FS_ROOT :: "32 word" where "BROWSE_HIDE_FS_ROOT \<equiv> 0x20"

record browse_param =
  bp_flags :: "32 word"
  bp_objectID :: int
  bp_startingIndex :: int
  bp_requestedCount :: int

definition new_BrowseParam :: "int \<Rightarrow> 32 word \<Rightarrow> browse_param" where
  "new_BrowseParam objectID flags =
     \<lparr>bp_flags = flags, bp_objectID = objectID, bp_startingIndex = 0, bp_requestedCount = 0\<rparr>"

definition bp_getFlag :: "browse_param \<Rightarrow> 32 word \<Rightarrow> bool" where
  "bp_getFlag p msk \<longleftrightarrow> bp_flags p AND msk \<noteq> 0"

definition bp_setFlag :: "32 word \<Rightarrow> browse_param \<Rightarrow> browse_param" where
  "bp_setFlag msk p = p\<lparr>bp_flags := bp_flags p OR msk\<rparr>"

definition bp_clearFlag :: "32 word \<Rightarrow> browse_param \<Rightarrow> browse_param" where
  \<comment> \<open>\<open>flags &= !mask\<close>: the logical negation\<close>
  "bp_clearFlag msk p = p\<lparr>bp_flags := bp_flags p AND (if msk = 0 then 1 else 0)\<rparr>"

definition bp_changeFlag :: "32 word \<Rightarrow> bool \<Rightarrow> browse_param \<Rightarrow> browse_param" where
  "bp_changeFlag msk v p = (if v then bp_setFlag msk p else bp_clearFlag msk p)"

definition bp_setRange :: "int \<Rightarrow> int \<Rightarrow> browse_param \<Rightarrow> browse_param" where
  "bp_setRange startingIndex requestedCount p =
     p\<lparr>bp_startingIndex := startingIndex, bp_requestedCount := requestedCount\<rparr>"

section \<open>Counting\<close>

definition row_type :: "table_row \<Rightarrow> int" where
  "row_type r = z_toInt (r ''object_type'')"

definition child_of :: "int \<Rightarrow> table_row \<Rightarrow> bool" where
  "child_of i r \<longleftrightarrow> col_is r ''parent_id'' (sql_int i)"

definition is_container_row :: "table_row \<Rightarrow> bool" where
  "is_container_row r \<longleftrightarrow> col_is r ''object_type'' (sql_uint OBJECT_TYPE_CONTAINER)"

definition is_item_row :: "table_row \<Rightarrow> bool" where
  \<comment> \<open>\<open>(object_type & 2) = 2\<close>\<close>
  "is_item_row r \<longleftrightarrow> r ''object_type'' \<noteq> None \<and> row_type r AND 2 = 2"

definition counted_child :: "int \<Rightarrow> bool \<Rightarrow> bool \<Rightarrow> bool \<Rightarrow> table_row \<Rightarrow> bool" where
  \<comment> \<open>the WHERE clause of \<open>getChildCount\<close>\<close>
  "counted_child contId containers items hideFsRoot r \<longleftrightarrow>
     child_of contId r
     \<and> (if containers \<and> \<not> items then is_container_row r
        else if items \<and> \<not> containers then is_item_row r else True)
     \<and> (contId = CDS_ID_ROOT \<and> hideFsRoot \<longrightarrow> r ''id'' \<noteq> None \<and> \<not> with_id CDS_ID_FS_ROOT r)"

definition getChildCount :: "int \<Rightarrow> bool \<Rightarrow> bool \<Rightarrow> bool \<Rightarrow> (store, int) action" where
  "getChildCount contId containers items hideFsRoot st =
     (if \<not> containers \<and> \<not> items then (Inr 0, st)
      else
        (let use_cache = (containers \<and> items \<and> \<not> (contId = CDS_ID_ROOT \<and> hideFsRoot))
         in case (if use_cache then cached st contId else None) of
              Some co \<Rightarrow>
                if co_knowNumChildren co then (Inr (co_numChildren co), st)
                else
                  (let st = flush st;
                       childCount = int (length (filter (counted_child contId containers items hideFsRoot) (st_rows st)))
                   in (Inr childCount, update_cached contId (\<lambda>co. co_setNumChildren co childCount) st))
            | None \<Rightarrow>
                (let st = flush st;
                     childCount = int (length (filter (counted_child contId containers items hideFsRoot) (st_rows st)))
                 in (Inr childCount,
                     if use_cache then update_cached contId (\<lambda>co. co_setNumChildren co childCount) st else st))))"

definition getTotalFiles :: "(store, int) action" where
  "getTotalFiles =
     and_then (change flush) (\<lambda>_. look (\<lambda>st.
       int (length (filter (\<lambda>r. r ''object_type'' \<noteq> None \<and> \<not> is_container_row r) (st_rows st)))))"

section \<open>Listing\<close>

definition object_type_of :: "int \<Rightarrow> (store, 32 word) action" where
  \<comment> \<open>from the cache or the table\<close>
  "object_type_of objectID st =
     (case cached st objectID of
        Some co \<Rightarrow>
          if co_knowObjectType co then (Inr (co_objectType co), st)
          else (case find (with_id objectID) (st_rows st) of
                  None \<Rightarrow> (Inl (Throw (''Object not found: '' @ show_int objectID)), st)
                | Some r \<Rightarrow> (Inr (word_of_int (row_type r)),
                            update_cached objectID (\<lambda>co. co_setObjectType co (word_of_int (row_type r))) st))
      | None \<Rightarrow>
          (case find (with_id objectID) (st_rows st) of
             None \<Rightarrow> (Inl (Throw (''Object not found: '' @ show_int objectID)), st)
           | Some r \<Rightarrow> (Inr (word_of_int (row_type r)),
                       update_cached objectID (\<lambda>co. co_setObjectType co (word_of_int (row_type r))) st)))"

definition listed_child :: "int \<Rightarrow> bool \<Rightarrow> bool \<Rightarrow> bool \<Rightarrow> table_row \<Rightarrow> bool" where
  \<comment> \<open>the WHERE clause of \<open>browse\<close>\<close>
  "listed_child objectID getContainers getItems hideFsRoot r \<longleftrightarrow>
     child_of objectID r
     \<and> (objectID = CDS_ID_ROOT \<and> hideFsRoot \<longrightarrow> r ''id'' \<noteq> None \<and> \<not> with_id CDS_ID_FS_ROOT r)
     \<and> (if \<not> getContainers \<and> \<not> getItems then False
        else if getContainers \<and> \<not> getItems then is_container_row r
        else if \<not> getContainers \<and> getItems then is_item_row r
        else True)"

definition limit_offset :: "int \<Rightarrow> int \<Rightarrow> 'a list \<Rightarrow> 'a list" where
  "limit_offset requestedCount startingIndex rows =
     (if requestedCount = 0 \<and> startingIndex = 0 then rows
      else
        (let limit = (if requestedCount = 0 then 2 ^ 31 - 1 else requestedCount);
             rest = drop (nat startingIndex) rows
         in if limit < 0 then rest else take (nat limit) rest))"

definition count_children :: "bool \<Rightarrow> bool \<Rightarrow> bool \<Rightarrow> cds_object \<Rightarrow> (store, cds_object) action" where
  "count_children getContainers getItems hideFsRoot ob =
     (if IS_CDS_CONTAINER (o_objectType ob) then
        (case o_part ob of
           CdsContainer c \<Rightarrow>
             and_then (getChildCount (o_id ob) getContainers getItems hideFsRoot) (\<lambda>n.
               give (ob\<lparr>o_part := CdsContainer (c\<lparr>c_childCount := n\<rparr>)\<rparr>))
         | _ \<Rightarrow> throw Abort)
      else give ob)"

definition browse ::
  "(bool \<Rightarrow> bool \<Rightarrow> table_row list \<Rightarrow> table_row list) \<Rightarrow> browse_param \<Rightarrow> (store, cds_object list \<times> int) action" where
  \<comment> \<open>the objects and \<open>totalMatches\<close>; the first flag of the order asks for the containers
      first, the second for the track numbers before the titles\<close>
  "browse order param =
     and_then (change flush) (\<lambda>_.
     let objectID = bp_objectID param;
         getContainers = bp_getFlag param BROWSE_CONTAINERS;
         getItems = bp_getFlag param BROWSE_ITEMS;
         hideFsRoot = bp_getFlag param BROWSE_HIDE_FS_ROOT
     in and_then (object_type_of objectID) (\<lambda>objectType.
        let children = (bp_getFlag param BROWSE_DIRECT_CHILDREN \<and> IS_CDS_CONTAINER objectType)
        in and_then (if children then getChildCount objectID getContainers getItems hideFsRoot else give 1) (\<lambda>totalMatches.
           and_then (look (\<lambda>st.
             if children then
               limit_offset (bp_requestedCount param) (bp_startingIndex param)
                 (order (getContainers \<and> getItems) (bp_getFlag param BROWSE_TRACK_SORT)
                   (filter (listed_child objectID getContainers getItems hideFsRoot) (st_rows st)))
             else take 1 (filter (with_id objectID) (st_rows st)))) (\<lambda>rows.
           and_then (map_each object_of_row rows) (\<lambda>arr.
           and_then (map_each (count_children getContainers getItems hideFsRoot) arr) (\<lambda>arr.
             give (arr, totalMatches)))))))"

definition getObjects :: "int \<Rightarrow> bool \<Rightarrow> (store, int list option) action" where
  \<comment> \<open>the set of the IDs as a list without duplicates\<close>
  "getObjects parentID withoutContainer =
     and_then (change flush) (\<lambda>_. look (\<lambda>st.
       let rows = filter (\<lambda>r. (withoutContainer \<longrightarrow> r ''object_type'' \<noteq> None \<and> \<not> is_container_row r)
                              \<and> child_of parentID r) (st_rows st)
       in if rows = [] then None else Some (remdups (map row_id rows))))"

definition getMimeTypes :: "(store, string list) action" where
  "getMimeTypes =
     and_then (change flush) (\<lambda>_. look (\<lambda>st.
       sorted_list_of_set (set (List.map_filter (\<lambda>r. r ''mime_type'') (st_rows st)))))"

section \<open>What the cache answers\<close>

lemma flushInsertBuffer_cache [simp]: "ss_cache (flushInsertBuffer ss) = ss_cache ss"
  by (simp add: flushInsertBuffer_def sqlite_flushInsertBuffer_def exec_sql_def split: option.split)

lemma flush_cached [simp]: "cached (flush st) i = cached st i"
  by (simp add: cached_def flush_def set_sql_def)

lemma check_flushed_cache:
  "ss_cache (st_sql (check_flushed st)) = map_option (\<lambda>c. snd (sc_flushed c)) (ss_cache (st_sql st))"
  by (auto simp: check_flushed_def flush_def set_sql_def set_cache_def Let_def split: option.split prod.split)

lemma cached_update:
  assumes "ss_cache (st_sql st) \<noteq> None"
  shows "cached (update_cached i f st) i = Some (f (case cached st i of None \<Rightarrow> new_CacheObject | Some co \<Rightarrow> co))"
proof -
  obtain c where c: "ss_cache (st_sql st) = Some c" using assms by auto
  obtain a c1 where d: "sc_getObjectDefinitely c (st_fresh st) i = (a, c1)" by fastforce
  define c2 where "c2 = snd (sc_flushed c1)"
  have s: "ss_cache (st_sql (check_flushed (set_cache c1 (st\<lparr>st_fresh := st_fresh st + 1\<rparr>)))) = Some c2"
    by (simp add: check_flushed_cache c2_def set_cache_def)
  have u: "ss_cache (st_sql (update_cached i f st)) = Some (c2\<lparr>sc_objects := (sc_objects c2)(a := f (sc_objects c2 a))\<rparr>)"
    using c d s by (simp add: update_cached_def Let_def set_cache_def)
  have g: "sc_getObject c2 i = Some a" "sc_objects c2 = sc_objects c1"
    using getObjectDefinitely_finds [OF d] by (auto simp: c2_def sc_flushed_def sc_getObject_def)
  have o: "sc_objects c1 a = (case cached st i of None \<Rightarrow> new_CacheObject | Some co \<Rightarrow> co)"
    using d c by (auto simp: cached_def sc_getObjectDefinitely_def sc_getObject_def Let_def
        sc_ensureFillLevelOk_def split: option.splits if_splits)
  have "sc_getObject (c2\<lparr>sc_objects := h\<rparr>) i = Some a" for h using g(1) by (simp add: sc_getObject_def)
  then show ?thesis using u g(2) o by (simp add: cached_def)
qed

lemma cached_no_cache: "ss_cache (st_sql st) = None \<Longrightarrow> cached st i = None \<and> update_cached i f st = st"
  by (simp add: cached_def update_cached_def)

section \<open>What a listing holds\<close>

lemma createObjectFromRow_stages:
  assumes "createObjectFromRow active row = Inr ob"
  defines "t \<equiv> (word_of_int (z_toInt (row col_object_type)) :: 32 word)"
  obtains o1 o2 z o3 o4 where "createObject t = Inr o1" "row_common row t o1 = Inr (o2, z)"
    "(if IS_CDS_CONTAINER t then row_container row o2 else Inr o2) = Inr o3"
    "(if IS_CDS_ITEM t then row_item row t z o3 else Inr o3) = Inr o4"
    "(if IS_CDS_ACTIVE_ITEM t then row_active active o4 else Inr o4) = Inr ob"
proof -
  note a = assms(1) [unfolded createObjectFromRow_def Let_def, folded t_def]
  obtain o1 where o1: "createObject t = Inr o1" using a by (cases "createObject t") simp_all
  obtain p where p: "row_common row t o1 = Inr p" using a o1 by (cases "row_common row t o1") simp_all
  obtain o2 z where o2: "p = (o2, z)" by (cases p)
  note a3 = a [unfolded o1 bind_result_simps p o2 prod.case]
  obtain o3 where o3: "(if IS_CDS_CONTAINER t then row_container row o2 else Inr o2) = Inr o3"
    using a3 by (cases "if IS_CDS_CONTAINER t then row_container row o2 else Inr o2") (simp_all only: bind_result_simps sum.distinct)
  note a4 = a3 [unfolded o3 bind_result_simps]
  obtain o4 where o4: "(if IS_CDS_ITEM t then row_item row t z o3 else Inr o3) = Inr o4"
    using a4 by (cases "if IS_CDS_ITEM t then row_item row t z o3 else Inr o3") (simp_all only: bind_result_simps sum.distinct)
  note a5 = a4 [unfolded o4 bind_result_simps]
  obtain o5 where o5: "(if IS_CDS_ACTIVE_ITEM t then row_active active o4 else Inr o4) = Inr o5"
    using a5 by (cases "if IS_CDS_ACTIVE_ITEM t then row_active active o4 else Inr o4") (simp_all only: bind_result_simps sum.distinct)
  have "o5 = ob" using a5 [unfolded o5 bind_result_simps] by (simp split: if_splits)
  then show thesis using that o1 p o2 o3 o4 o5 by simp
qed

lemma row_item_shape:
  assumes "row_item row t z ob = Inr ob'"
  obtains i loc i' where "the_item ob = Some i" "ob' = set_item (ob\<lparr>o_location := loc\<rparr>) i'"
  using assms that
  by (cases z; cases "the_item ob") (auto simp only: row_item_def bind_result_Inr_iff not_True_eq_False not_False_eq_True
      if_True if_False option.case sum.inject sum.distinct option.distinct option.inject)

abbreviation row_tag :: "cds_object \<Rightarrow> int \<times> int \<times> int \<times> zstring \<times> 32 word" where
  "row_tag ob \<equiv> (o_id ob, o_refID ob, o_parentID ob, o_title ob, o_objectType ob)"

lemma createObjectFromRow_tag:
  assumes "createObjectFromRow active row = Inr ob"
  shows "\<exists>o1. createObject (word_of_int (z_toInt (row col_object_type))) = Inr o1
    \<and> row_tag ob = (z_toInt (row col_id), z_toInt (row col_ref_id), z_toInt (row col_parent_id), row col_dc_title, o_objectType o1)"
  using assms
proof (rule createObjectFromRow_stages)
  fix o1 o2 z o3 o4
  let ?t = "word_of_int (z_toInt (row col_object_type)) :: 32 word"
  assume c: "row_common row ?t o1 = Inr (o2, z)"
    "(if IS_CDS_CONTAINER ?t then row_container row o2 else Inr o2) = Inr o3"
    "(if IS_CDS_ITEM ?t then row_item row ?t z o3 else Inr o3) = Inr o4"
    "(if IS_CDS_ACTIVE_ITEM ?t then row_active active o4 else Inr o4) = Inr ob"
    and o1: "createObject ?t = Inr o1"
  have "row_tag o2 = (z_toInt (row col_id), z_toInt (row col_ref_id), z_toInt (row col_parent_id), row col_dc_title, o_objectType o1)"
    using c(1) by (auto simp: row_common_def Let_def bind_result_Inr_iff)
  moreover have "row_tag o3 = row_tag o2"
    using c(2) by (auto simp: row_container_def Let_def bind_result_Inr_iff split: if_splits cds_part.splits)
  moreover have "row_tag o4 = row_tag o3"
  proof (cases "IS_CDS_ITEM ?t")
    case True
    then have "row_item row ?t z o3 = Inr o4" using c(3) by simp
    then show ?thesis by (rule row_item_shape) (cases "o_part o3"; simp add: set_item_def)
  qed (use c(3) in simp)
  moreover have "row_tag ob = row_tag o4"
    using c(4) by (auto simp: row_active_def split: if_splits cds_part.splits option.splits)
  ultimately show ?thesis using o1 by simp
qed

lemma createObjectFromRow_id: "createObjectFromRow active row = Inr ob \<Longrightarrow> o_id ob = z_toInt (row col_id)"
  using createObjectFromRow_tag by blast

lemma createObject_type:
  assumes "createObject t = Inr ob"
  shows "t \<in> {0x1, 0x2, 0x6, 0xA, 0x1A} \<Longrightarrow> o_objectType ob = t" "odd t \<longleftrightarrow> o_objectType ob = 0x1"
  using assms by (auto simp: createObject_def new_Cds_defs IS_CDS_defs even_iff_mod_2_eq_zero and_one_eq split: if_splits)

lemma d_inv_decode_loop: "d_inv d \<Longrightarrow> d_inv (d_decode_loop d s)"
  by (induction d s rule: d_decode_loop.induct) (simp_all add: Let_def d_put_inv split: option.split)

lemma d_inv_decode: "d_inv (d_decode [] z)"
proof -
  have "d_inv []" by (simp add: d_inv_def)
  then show ?thesis by (simp add: d_decode_def d_inv_decode_loop split: option.split)
qed

lemma decode_resources_inv: "decode_resources ss = Inr rs \<Longrightarrow> \<forall>r \<in> set rs. r_inv r"
proof (induction ss arbitrary: rs)
  case (Cons s ss)
  obtain x xs where "r_decode (Some s) = Inr x" "decode_resources ss = Inr xs" "rs = x # xs"
    using Cons.prems by (auto simp: bind_result_Inr_iff)
  moreover have "r_inv x"
    using \<open>r_decode (Some s) = Inr x\<close> d_inv_decode
    by (auto simp: r_decode_def Let_def r_inv_def CdsResource_of_def d_inv_def [of "[]"] split: if_splits)
  ultimately show ?case using Cons.IH by simp
qed simp

lemma createObjectFromRow_typed:
  assumes "createObjectFromRow active row = Inr ob"
  shows "cds_inv ob"
  using assms
proof (rule createObjectFromRow_stages)
  fix o1 o2 z o3 o4
  let ?t = "word_of_int (z_toInt (row col_object_type)) :: 32 word"
  assume c: "createObject ?t = Inr o1" "row_common row ?t o1 = Inr (o2, z)"
    "(if IS_CDS_CONTAINER ?t then row_container row o2 else Inr o2) = Inr o3"
    "(if IS_CDS_ITEM ?t then row_item row ?t z o3 else Inr o3) = Inr o4"
    "(if IS_CDS_ACTIVE_ITEM ?t then row_active active o4 else Inr o4) = Inr ob"
  have "cds_inv o2"
    using c(2) createObject_inv [OF c(1)] d_inv_decode
    by (auto simp: row_common_def Let_def bind_result_Inr_iff cds_inv_def dest: decode_resources_inv)
  then have 3: "cds_inv o3"
    using c(3) by (auto simp: row_container_def Let_def bind_result_Inr_iff cds_inv_def class_type_def
        split: if_splits cds_part.splits)
  have 4: "cds_inv o4"
  proof (cases "IS_CDS_ITEM ?t")
    case True
    then have "row_item row ?t z o3 = Inr o4" using c(4) by simp
    then obtain loc i' where "o4 = set_item (o3\<lparr>o_location := loc\<rparr>) i'" by (rule row_item_shape)
    then show ?thesis using 3 by (cases "o_part o3") (simp_all add: set_item_def cds_inv_def class_type_def)
  qed (use c(4) 3 in simp)
  then show ?thesis
    using c(5) by (auto simp: row_active_def cds_inv_def class_type_def split: if_splits cds_part.splits option.splits)
qed

definition readable :: "store \<Rightarrow> table_row \<Rightarrow> bool" where
  "readable st r \<longleftrightarrow> (\<exists>ob. createObjectFromRow (st_active st) (joined_row st r) = Inr ob)"

lemma grows_to_readable:
  "grows_to st st' \<Longrightarrow> st_pending st = [] \<Longrightarrow> readable st' r = readable st r \<and> st_pending st' = [] \<and> st_rows st' = st_rows st"
  by (auto simp: grows_to_def readable_def joined_row_def)

lemma addObjectToCache_runs: "\<exists>ss'. addObjectToCache ss new ob = Inr ss'" if "cds_inv ob"
proof (cases "ss_cache ss")
  case None
  then show ?thesis by (simp add: addObjectToCache_def)
next
  case (Some c)
  obtain a c1 where d: "sc_getObjectDefinitely c new (o_id ob) = (a, c1)" by fastforce
  obtain fl c2 where f: "sc_flushed c1 = (fl, c2)" by fastforce
  show ?thesis using Some d f co_setObject_law [OF that, of "sc_objects c2 a"]
    by (fastforce simp: addObjectToCache_def Let_def)
qed

lemma object_of_row_readable:
  assumes "readable st r"
  shows "\<exists>ob st'. object_of_row r st = (Inr ob, st') \<and> grows_to st st' \<and> o_id ob = row_id r \<and> cds_inv ob"
proof -
  obtain ob where ob: "createObjectFromRow (st_active st) (joined_row st r) = Inr ob" "cds_inv ob"
    using assms createObjectFromRow_typed by (auto simp: readable_def)
  have "\<exists>ss. addObjectToCache (st_sql st) (st_fresh st) ob = Inr ss" by (rule addObjectToCache_runs [OF ob(2)])
  then obtain st' where st': "store_addObjectToCache ob st = (Inr (), st')"
    by (auto simp: store_addObjectToCache_def)
  have run: "object_of_row r st = (Inr ob, st')" using ob st' by (simp add: object_of_row_def and_then_def)
  moreover have "grows_to st st'" using grows_to_addObjectToCache [of st ob] st' by simp
  moreover have "o_id ob = row_id r"
    using createObjectFromRow_id [OF ob(1)] by (simp add: joined_row_def row_id_def)
  ultimately show ?thesis using ob(2) by blast
qed

lemma objects_of_rows:
  assumes "st_pending st = []" "\<forall>r \<in> set rows. readable st r"
  shows "\<exists>arr st'. map_each object_of_row rows st = (Inr arr, st') \<and> grows_to st st'
    \<and> map o_id arr = map row_id rows \<and> (\<forall>ob \<in> set arr. cds_inv ob)"
  using assms
proof (induction rows arbitrary: st)
  case (Cons r rows)
  obtain ob st1 where 1: "object_of_row r st = (Inr ob, st1)" "grows_to st st1" "o_id ob = row_id r" "cds_inv ob"
    using object_of_row_readable Cons.prems(2) by fastforce
  note g = grows_to_readable [OF 1(2) Cons.prems(1)]
  obtain arr st' where 2: "map_each object_of_row rows st1 = (Inr arr, st')" "grows_to st1 st'"
    "map o_id arr = map row_id rows" "\<forall>ob \<in> set arr. cds_inv ob"
    using Cons.IH [of st1] Cons.prems(2) g by auto
  show ?case using 1 2 grows_to_trans [OF 1(2) 2(2)] by (simp add: and_then_def)
qed simp

lemma getChildCount_runs: "\<exists>n st'. getChildCount i cs its h st = (Inr n, st') \<and> grows_to st st'"
proof -
  have "grows_to st (flush st)" "grows_to st (update_cached i f (flush st))" for f
    using grows_to_trans [OF grows_to_flush grows_to_update_cached] by auto
  then show ?thesis by (auto simp: getChildCount_def Let_def split: option.split)
qed

lemma children_counted:
  assumes "\<forall>ob \<in> set arr. cds_inv ob"
  shows "\<exists>arr' st'. map_each (count_children cs its h) arr st = (Inr arr', st') \<and> map o_id arr' = map o_id arr"
  using assms
proof (induction arr arbitrary: st)
  case (Cons ob arr)
  have "\<exists>ob' st'. count_children cs its h ob st = (Inr ob', st') \<and> o_id ob' = o_id ob"
  proof (cases "IS_CDS_CONTAINER (o_objectType ob)")
    case True
    then obtain c where "o_part ob = CdsContainer c"
      using Cons.prems by (cases "o_part ob") (auto simp: cds_inv_def class_type_def IS_CDS_defs)
    then show ?thesis using True getChildCount_runs [of "o_id ob" cs its h st]
      by (auto simp: count_children_def and_then_def)
  qed (simp add: count_children_def)
  then obtain ob' st1 where 1: "count_children cs its h ob st = (Inr ob', st1)" "o_id ob' = o_id ob" by blast
  obtain arr' st' where 2: "map_each (count_children cs its h) arr st1 = (Inr arr', st')" "map o_id arr' = map o_id arr"
    using Cons.IH [of st1] Cons.prems by auto
  show ?case using 1 2 by (simp add: and_then_def)
qed simp

lemma counted_listed:
  "filter (counted_child i cs its h) rows =
     (if cs \<or> its then filter (listed_child i cs its h) rows else filter (counted_child i cs its h) rows)"
  by (auto simp: counted_child_def listed_child_def intro!: filter_cong)

definition cache_right :: "store \<Rightarrow> int \<Rightarrow> bool" where
  \<comment> \<open>what the cache knows about the container is what the table says\<close>
  "cache_right st i \<longleftrightarrow>
     (\<forall>co. cached st i = Some co \<longrightarrow>
        (co_knowNumChildren co \<longrightarrow> co_numChildren co = int (length (filter (child_of i) (table st))))
        \<and> (co_knowObjectType co \<longrightarrow> IS_CDS_CONTAINER (co_objectType co)))"

lemma table_flush [simp]: "table (flush st) = table st"
  by (rule grows_to_table) simp

lemma child_of_counted: "counted_child i True True False = child_of i"
  "i \<noteq> CDS_ID_ROOT \<Longrightarrow> counted_child i True True h = child_of i"
  by (simp_all add: counted_child_def fun_eq_iff)

lemma getChildCount_counts:
  assumes "cache_right st i" "ss_insertBufferOn (st_sql st) \<or> st_pending st = []" "st_pending (flush st) = []"
  shows "\<exists>st'. getChildCount i cs its h st
    = (Inr (if cs \<or> its then int (length (filter (counted_child i cs its h) (table st))) else 0), st') \<and> grows_to st st'"
proof -
  obtain n st' where r: "getChildCount i cs its h st = (Inr n, st')" "grows_to st st'"
    using getChildCount_runs [of i cs its h st] by blast
  have rows: "st_rows (flush st) = table st" using assms(3) table_flush [of st] by (simp add: table_def)
  have "n = int (length (filter (counted_child i cs its h) (table st)))" if "cs \<or> its"
  proof (cases "cs \<and> its \<and> \<not> (i = CDS_ID_ROOT \<and> h) \<and> (\<exists>co. cached st i = Some co \<and> co_knowNumChildren co)")
    case True
    then have "counted_child i cs its h = child_of i" by (auto simp: counted_child_def fun_eq_iff)
    then show ?thesis using True r(1) assms(1) by (auto simp: getChildCount_def cache_right_def Let_def)
  next
    case False
    then show ?thesis using r(1) that rows by (auto simp: getChildCount_def Let_def split: if_splits option.splits)
  qed
  then show ?thesis using r by (cases "cs \<or> its") (auto simp: getChildCount_def)
qed

lemma object_type_of_container:
  assumes "find (with_id i) (st_rows st) = Some r" "is_container_row r" "cache_right st i"
  shows "\<exists>t st'. object_type_of i st = (Inr t, st') \<and> IS_CDS_CONTAINER t \<and> grows_to st st' \<and> cache_right st' i"
proof -
  define t where "t = (word_of_int (row_type r) :: 32 word)"
  have "row_type r = 1"
    using assms(2) z_toInt_show [of 1] by (auto simp: is_container_row_def row_type_def col_is_def sql_uint_int)
  then have t: "IS_CDS_CONTAINER t" by (simp add: t_def IS_CDS_defs)
  define st' where "st' = update_cached i (\<lambda>co. co_setObjectType co t) st"
  have g: "grows_to st st'" by (simp add: st'_def)
  have cr: "cache_right st' i"
  proof (cases "ss_cache (st_sql st) = None")
    case True
    then show ?thesis using assms(3) cached_no_cache [OF True] by (simp add: st'_def)
  next
    case False
    have "co_numChildren co = int (length (filter (child_of i) (table st)))"
      if "co_knowNumChildren co" "cached st' i = Some co" for co
      using that cached_update [OF False, of i "\<lambda>co. co_setObjectType co t"] assms(3)
      by (auto simp: st'_def cache_right_def co_setObjectType_def new_CacheObject_def split: option.splits)
    moreover have "IS_CDS_CONTAINER (co_objectType co)" if "cached st' i = Some co" for co
      using that cached_update [OF False, of i "\<lambda>co. co_setObjectType co t"] t
      by (auto simp: st'_def co_setObjectType_def)
    ultimately show ?thesis using grows_to_table [OF g] by (simp add: cache_right_def)
  qed
  show ?thesis
  proof (cases "\<exists>co. cached st i = Some co \<and> co_knowObjectType co")
    case True
    then show ?thesis using assms(3) by (auto simp: object_type_of_def cache_right_def)
  next
    case False
    then have "object_type_of i st = (Inr t, st')"
      using assms(1) by (auto simp: object_type_of_def st'_def t_def split: option.split)
    then show ?thesis using t g cr by blast
  qed
qed

lemma browse_children:
  assumes p: "p = \<lparr>bp_flags = f, bp_objectID = i, bp_startingIndex = start, bp_requestedCount = cnt\<rparr>"
    and d: "bp_getFlag p BROWSE_DIRECT_CHILDREN"
    and fl: "cs = bp_getFlag p BROWSE_CONTAINERS" "its = bp_getFlag p BROWSE_ITEMS" "h = bp_getFlag p BROWSE_HIDE_FS_ROOT"
    and some: "cs \<or> its"
    and pend: "st_pending (flush st) = []"
    and cont: "find (with_id i) (table st) = Some r" "is_container_row r"
    and cache: "cache_right st i"
    and order: "\<And>a b rows. mset (order a b rows) = mset rows"
    and read: "\<forall>r \<in> set (table st). listed_child i cs its h r \<longrightarrow> readable (flush st) r"
  defines "children \<equiv> order (cs \<and> its) (bp_getFlag p BROWSE_TRACK_SORT) (filter (listed_child i cs its h) (table st))"
  shows "\<exists>arr st'. browse order p st = (Inr (arr, int (length children)), st')
    \<and> map o_id arr = map row_id (limit_offset cnt start children)"
proof -
  define st1 where "st1 = flush st"
  have p1: "st_pending st1 = []" and rows1: "st_rows st1 = table st"
    using pend table_flush [of st] by (simp_all add: st1_def table_def)
  have cr1: "cache_right st1 i" using cache by (simp add: cache_right_def st1_def)
  obtain t st2 where 2: "object_type_of i st1 = (Inr t, st2)" "IS_CDS_CONTAINER t" "grows_to st1 st2" "cache_right st2 i"
    using object_type_of_container [of i st1 r] cont cr1 rows1 by auto
  note g2 = grows_to_readable [OF 2(3) p1]
  have t2: "table st2 = table st" using grows_to_table [OF 2(3)] by (simp add: st1_def)
  have pf2: "st_pending (flush st2) = []" using g2 by (simp add: flush_def set_sql_def)
  have tot: "(if cs \<or> its then int (length (filter (counted_child i cs its h) (table st2))) else 0) = int (length children)"
    using some t2 counted_listed [of i cs its h "table st"] mset_eq_length [OF order]
    by (simp add: children_def)
  obtain st3 where 3: "getChildCount i cs its h st2 = (Inr (int (length children)), st3)" "grows_to st2 st3"
    using getChildCount_counts [OF 2(4) _ pf2, of cs its h] g2 unfolding tot by blast
  have g3: "grows_to st1 st3" by (rule grows_to_trans [OF 2(3) 3(2)])
  note r3 = grows_to_readable [OF g3 p1]
  define rows where "rows = limit_offset cnt start children"
  have sub: "set rows \<subseteq> set (filter (listed_child i cs its h) (table st))"
  proof -
    have "set rows \<subseteq> set children"
      by (auto simp: rows_def limit_offset_def Let_def dest: in_set_takeD in_set_dropD split: if_splits)
    also have "\<dots> = set (filter (listed_child i cs its h) (table st))"
      unfolding children_def by (rule mset_eq_setD) (rule order)
    finally show ?thesis .
  qed
  have rd: "\<forall>r \<in> set rows. readable st3 r"
    using sub read r3 by (auto simp: st1_def)
  obtain arr st4 where 4: "map_each object_of_row rows st3 = (Inr arr, st4)" "map o_id arr = map row_id rows"
    "\<forall>ob \<in> set arr. cds_inv ob"
    using objects_of_rows [OF _ rd] r3 by blast
  obtain arr' st5 where 5: "map_each (count_children cs its h) arr st4 = (Inr arr', st5)" "map o_id arr' = map o_id arr"
    using children_counted [OF 4(3)] by blast
  have id: "bp_objectID p = i" "bp_startingIndex p = start" "bp_requestedCount p = cnt" by (simp_all add: p)
  have rows3: "st_rows st3 = table st" using r3 rows1 by simp
  have "browse order p st = (Inr (arr', int (length children)), st5)"
    unfolding browse_def Let_def id fl [symmetric]
    using d 2(1,2) 3(1) 4(1) 5(1)
    by (simp add: st1_def [symmetric] and_then_def rows3 children_def [symmetric] rows_def [symmetric])
  then show ?thesis using 4(2) 5(2) by (simp add: rows_def)
qed

lemma pages_cover:
  assumes "0 < n"
  shows "concat (map (\<lambda>k. limit_offset (int n) (int k * int n) xs) [0..<m]) = take (m * n) xs"
proof (induction m)
  case (Suc m)
  have "limit_offset (int n) (int m * int n) xs = take n (drop (m * n) xs)"
    using assms by (simp add: limit_offset_def nat_mult_distrib)
  then show ?case using Suc by (simp add: take_add add.commute [of n])
qed simp

end
