(* ===== verification/Sql_Autoscans.thy ===== *)
theory Sql_Autoscans
  imports Sql_Browse Autoscan IntArrays
begin

text \<open>
  The autoscan directories in the SQL storage (src/storage/sql_storage.cc:
  \<open>addAutoscanDirectory\<close>, \<open>updateAutoscanDirectory\<close>, the removals,
  \<open>_checkOverlappingAutoscans\<close>, \<open>getPathIDs\<close>, \<open>isAutoscanChild\<close>,
  \<open>_fillAutoscanDirectory\<close>, \<open>getAutoscanList\<close>, \<open>updateAutoscanPersistentList\<close>),
  on the rows of the table of the autoscans. A path of IDs is kept as text
  between commas, so that LIKE finds an ID in it.
\<close>

unbundle bit_operations_syntax

section \<open>The way to the root\<close>

partial_function (option) path_ids :: "store \<Rightarrow> int \<Rightarrow> int list \<Rightarrow> int list option" where
  \<comment> \<open>the loop of \<open>getPathIDs\<close>; it does not end on a cycle\<close>
  "path_ids st objectID pathIDs =
     (if objectID = CDS_ID_ROOT then Some pathIDs
      else case find (with_id objectID) (st_rows st) of
        None \<Rightarrow> Some (pathIDs @ [objectID])
      | Some r \<Rightarrow> path_ids st (z_toInt (r ''parent_id'')) (pathIDs @ [objectID]))"

definition getPathIDs :: "int \<Rightarrow> (store, int list option option) action" where
  \<comment> \<open>the outer \<open>None\<close>: the loop does not end; the inner one: null\<close>
  "getPathIDs objectID =
     and_then (change flush) (\<lambda>_.
       if objectID = INVALID_OBJECT_ID then give (Some None)
       else look (\<lambda>st. map_option Some (path_ids st objectID [])))"

definition rows_where :: "(table_row \<Rightarrow> bool) \<Rightarrow> (table_row \<Rightarrow> table_row) \<Rightarrow> table_row list \<Rightarrow> table_row list" where
  \<comment> \<open>UPDATE \<open>\<dots>\<close> SET \<open>\<dots>\<close> WHERE\<close>
  "rows_where P f rows = map (\<lambda>r. if P r then f r else r) rows"

abbreviation OBJECT_FLAG_PERSISTENT_CONTAINER :: int where "OBJECT_FLAG_PERSISTENT_CONTAINER \<equiv> 8"

definition autoscanChangePersistentFlag :: "int \<Rightarrow> bool \<Rightarrow> (store, unit) action" where
  "autoscanChangePersistentFlag objectID persistent =
     (if objectID = INVALID_OBJECT_ID \<or> objectID = -666 then give ()
      else change (\<lambda>st. st\<lparr>st_rows := rows_where (with_id objectID)
        (\<lambda>r. r(''flags'' := map_option (\<lambda>f. show_int
           (if persistent then fst (strtol f) OR OBJECT_FLAG_PERSISTENT_CONTAINER
            else fst (strtol f) AND NOT OBJECT_FLAG_PERSISTENT_CONTAINER)) (r ''flags''))) (st_rows st)\<rparr>))"

section \<open>Overlaps\<close>

definition sql_bool :: "bool \<Rightarrow> zstring" where
  \<comment> \<open>\<open>mapBool\<close>\<close>
  "sql_bool b = sql_int (if b then 1 else 0)"

definition other_scan :: "int \<Rightarrow> table_row \<Rightarrow> bool" where
  \<comment> \<open>\<open>AND id != storageID\<close>, when there is a storage ID\<close>
  "other_scan storageID a \<longleftrightarrow> (storageID \<ge> 0 \<longrightarrow> a ''id'' \<noteq> None \<and> \<not> with_id storageID a)"

definition like_id :: "int \<Rightarrow> table_row \<Rightarrow> bool" where
  \<comment> \<open>\<open>path_ids LIKE '%,id,%'\<close>\<close>
  "like_id objectID a \<longleftrightarrow>
     (case a ''path_ids'' of None \<Rightarrow> False
      | Some t \<Rightarrow> strstr t ('','' @ show_int objectID @ '','') \<noteq> None)"

definition scan_conflict :: "string \<Rightarrow> table_row \<Rightarrow> (store, 'a) action" where
  \<comment> \<open>the object of the other autoscan is loaded for the message\<close>
  "scan_conflict msg a =
     and_then (loadObject (z_toInt (a ''obj_id''))) (\<lambda>ob.
       throw (Throw (the (z_append (Some msg) (o_location ob)))))"

definition checkOverlappingAutoscans :: "autoscan_directory \<Rightarrow> (store, int list option) action" where
  "checkOverlappingAutoscans adir =
     (let checkObjectID = ad_objectID adir; storageID = ad_storageID adir
      in if checkObjectID = INVALID_OBJECT_ID then give None
         else
           and_then (look (\<lambda>st. find (\<lambda>a. col_is a ''obj_id'' (sql_int checkObjectID) \<and> other_scan storageID a)
                                     (st_autoscans st))) (\<lambda>same.
           case same of
             Some a \<Rightarrow>
               and_then (loadObject checkObjectID) (\<lambda>ob.
                 throw (Throw (the (z_append (Some ''There is already an Autoscan set on '') (o_location ob)))))
           | None \<Rightarrow>
               and_then (look (\<lambda>st. if ad_recursive adir
                                    then find (\<lambda>a. like_id checkObjectID a \<and> other_scan storageID a) (st_autoscans st)
                                    else None)) (\<lambda>below.
               case below of
                 Some a \<Rightarrow>
                   scan_conflict ''Overlapping Autoscans are not allowed. There is already an Autoscan set on '' a
               | None \<Rightarrow>
                   and_then (getPathIDs checkObjectID) (\<lambda>path.
                   case path of
                     None \<Rightarrow> throw Abort
                   | Some None \<Rightarrow> throw (Throw ''getPathIDs returned nullptr'')
                   | Some (Some pathIDs) \<Rightarrow>
                       and_then (look (\<lambda>st. find (\<lambda>a. (\<exists>i \<in> set pathIDs. col_is a ''obj_id'' (sql_int i))
                           \<and> col_is a ''recursive'' (sql_bool True) \<and> other_scan storageID a) (st_autoscans st))) (\<lambda>above.
                       case above of
                         Some a \<Rightarrow>
                           scan_conflict ''Overlapping Autoscans are not allowed. There is already a recursive Autoscan set on '' a
                       | None \<Rightarrow> give (Some pathIDs))))))"

section \<open>Adding and changing\<close>

definition ids_text :: "int list \<Rightarrow> string" where
  \<comment> \<open>the IDs between commas\<close>
  "ids_text ids = '','' @ join (CHR '','') (map show_int ids) @ '',''"

definition next_scan_id :: "table_row list \<Rightarrow> int" where
  \<comment> \<open>SQLite's choice of an integer primary key\<close>
  "next_scan_id rows = (if rows = [] then 1 else Max (set (map row_id rows)) + 1)"

definition scan_columns :: "autoscan_directory \<Rightarrow> int \<Rightarrow> int list option \<Rightarrow> dictionary" where
  "scan_columns adir objectID pathIDs =
     put_col ''obj_id'' (if objectID \<ge> 0 then sql_int objectID else SQL_NULL)
    (put_col ''scan_level'' (sql_quote (mapScanlevel (ad_level adir)))
    (put_col ''scan_mode'' (sql_quote (mapScanmode (ad_mode adir)))
    (put_col ''recursive'' (sql_bool (ad_recursive adir))
    (put_col ''hidden'' (sql_bool (ad_hidden adir))
    (put_col ''interval'' (sql_uint (ad_interval adir))
    (put_col ''persistent'' (sql_bool (ad_persistent adir))
    (put_col ''location'' (if objectID \<ge> 0 then SQL_NULL else sql_quote (ad_location adir))
    (put_col ''path_ids'' (case pathIDs of None \<Rightarrow> SQL_NULL | Some ids \<Rightarrow> sql_quote (Some (ids_text ids))) []))))))))"

definition scan_default :: "string \<Rightarrow> zstring" where
  "scan_default c = (if c = ''persistent'' then Some ''0'' else if c = ''touched'' then Some ''1'' else None)"

definition new_scan_row :: "int \<Rightarrow> dictionary \<Rightarrow> table_row" where
  "new_scan_row i d c =
     (if c = ''id'' then sql_int i
      else if d_get d (Some c) = None then scan_default c else literal_value (d_get d (Some c)))"

definition updated_row :: "dictionary \<Rightarrow> table_row \<Rightarrow> table_row" where
  "updated_row d r c = (if d_get d (Some c) = None then r c else literal_value (d_get d (Some c)))"

definition addAutoscanDirectory :: "autoscan_directory \<Rightarrow> (store, autoscan_directory) action" where
  "addAutoscanDirectory adir =
     (if ad_storageID adir \<ge> 0 then throw (Throw ''tried to add autoscan directory with a storage id set'')
      else
        and_then (if z_eq (ad_location adir) (Some ''/'') then give CDS_ID_FS_ROOT
                  else findObjectIDByPath (z_append_char (ad_location adir) DIR_SEPARATOR)) (\<lambda>objectID.
        if \<not> ad_persistent adir \<and> objectID < 0 then
          throw (Throw ''tried to add non-persistent autoscan directory with an illegal objectID or location'')
        else
          and_then (checkOverlappingAutoscans adir) (\<lambda>pathIDs.
          and_then (autoscanChangePersistentFlag objectID True) (\<lambda>_ st.
            let i = next_scan_id (st_autoscans st);
                d = put_col ''last_modified'' (sql_int (ad_last_mod_previous_scan adir)) (scan_columns adir objectID pathIDs)
            in (Inr (adir\<lparr>ad_storageID := i\<rparr>),
                st\<lparr>st_autoscans := st_autoscans st @ [new_scan_row i d]\<rparr>)))))"

definition getAutoscanObjectID :: "int \<Rightarrow> store \<Rightarrow> int" where
  "getAutoscanObjectID autoscanID st =
     (case find (with_id autoscanID) (st_autoscans st) of
        None \<Rightarrow> INVALID_OBJECT_ID
      | Some a \<Rightarrow> if string_ok (a ''obj_id'') then z_toInt (a ''obj_id'') else INVALID_OBJECT_ID)"

definition updateAutoscanDirectory :: "autoscan_directory \<Rightarrow> (store, unit) action" where
  "updateAutoscanDirectory adir =
     and_then (checkOverlappingAutoscans adir) (\<lambda>pathIDs.
     and_then (look (getAutoscanObjectID (ad_storageID adir))) (\<lambda>objectIDold.
     let objectID = ad_objectID adir
     in and_then (if objectIDold \<noteq> objectID then
                    and_then (autoscanChangePersistentFlag objectIDold False)
                      (\<lambda>_. autoscanChangePersistentFlag objectID True)
                  else give ()) (\<lambda>_.
        change (\<lambda>st.
          let d = scan_columns adir objectID pathIDs;
              d = (if ad_last_mod_previous_scan adir > 0
                   then put_col ''last_modified'' (sql_int (ad_last_mod_previous_scan adir)) d else d);
              d = put_col ''touched'' (sql_bool True) d
          in st\<lparr>st_autoscans := rows_where (with_id (ad_storageID adir)) (updated_row d) (st_autoscans st)\<rparr>))))"

definition removeAutoscanDirectoryByObjectID :: "int \<Rightarrow> (store, unit) action" where
  "removeAutoscanDirectoryByObjectID objectID =
     (if objectID = INVALID_OBJECT_ID then give ()
      else and_then (change (\<lambda>st. st\<lparr>st_autoscans :=
                       filter (\<lambda>a. \<not> col_is a ''obj_id'' (sql_int objectID)) (st_autoscans st)\<rparr>))
             (\<lambda>_. autoscanChangePersistentFlag objectID False))"

definition removeAutoscanDirectory :: "int \<Rightarrow> (store, unit) action" where
  "removeAutoscanDirectory autoscanID =
     (if autoscanID = INVALID_OBJECT_ID then give ()
      else and_then (look (getAutoscanObjectID autoscanID)) (\<lambda>objectID.
           and_then (change (\<lambda>st. st\<lparr>st_autoscans := filter (\<lambda>a. \<not> with_id autoscanID a) (st_autoscans st)\<rparr>)) (\<lambda>_.
             if objectID \<noteq> INVALID_OBJECT_ID then autoscanChangePersistentFlag objectID False else give ())))"

definition autoscanUpdateLM :: "autoscan_directory \<Rightarrow> (store, unit) action" where
  "autoscanUpdateLM adir =
     change (\<lambda>st. st\<lparr>st_autoscans := rows_where (with_id (ad_storageID adir))
       (\<lambda>a. a(''last_modified'' := literal_value (sql_int (ad_last_mod_previous_scan adir)))) (st_autoscans st)\<rparr>)"

section \<open>Asking\<close>

definition getAutoscanDirectoryInfo :: "int \<Rightarrow> string \<Rightarrow> store \<Rightarrow> int" where
  \<comment> \<open>with the field \<open>persistent\<close> it is \<open>getAutoscanDirectoryType\<close>, with \<open>recursive\<close>
      \<open>isAutoscanDirectoryRecursive\<close>\<close>
  "getAutoscanDirectoryInfo objectID field st =
     (if objectID = INVALID_OBJECT_ID then 0
      else case find (\<lambda>a. col_is a ''obj_id'' (sql_int objectID)) (st_autoscans st) of
        None \<Rightarrow> 0
      | Some a \<Rightarrow> if \<not> remapBool (a field) then 1 else 2)"

definition isAutoscanChild :: "int \<Rightarrow> (store, int) action" where
  "isAutoscanChild objectID =
     and_then (getPathIDs objectID) (\<lambda>path.
       case path of
         None \<Rightarrow> throw Abort
       | Some None \<Rightarrow> give INVALID_OBJECT_ID
       | Some (Some pathIDs) \<Rightarrow>
           look (\<lambda>st. case find (\<lambda>i. getAutoscanDirectoryInfo i ''recursive'' st = 2) pathIDs of
             None \<Rightarrow> INVALID_OBJECT_ID | Some i \<Rightarrow> i))"

definition fillAutoscanDirectory :: "store \<Rightarrow> table_row \<Rightarrow> autoscan_directory option result" where
  "fillAutoscanDirectory st a =
     (let objectID = (if string_ok (a ''obj_id'') then z_toInt (a ''obj_id'') else INVALID_OBJECT_ID);
          t_location = (case find (\<lambda>r. r ''id'' \<noteq> None \<and> r ''id'' = a ''obj_id'') (st_rows st) of
                          None \<Rightarrow> None | Some r \<Rightarrow> r ''location'')
      in bind_result (if objectID = INVALID_OBJECT_ID then Inr (a ''location'') else stripLocationPrefix t_location) (\<lambda>location.
         if objectID \<noteq> INVALID_OBJECT_ID \<and> locationPrefix t_location \<noteq> LOC_DIR_PREFIX then Inr None
         else
           bind_result (remapScanlevel (a ''scan_level'')) (\<lambda>level.
           bind_result (remapScanmode (a ''scan_mode'')) (\<lambda>md.
             let interval = (if md = Timed then z_toInt (a ''interval'') else 0);
                 last_modified = z_toLong (a ''last_modified'');
                 dir = \<lparr>ad_location = location, ad_mode = md, ad_level = level,
                        ad_recursive = remapBool (a ''recursive''), ad_hidden = remapBool (a ''hidden''),
                        ad_persistent = remapBool (a ''persistent''), ad_interval = word_of_int interval,
                        ad_taskCount = 0, ad_scanID = INVALID_SCAN_ID, ad_objectID = objectID,
                        ad_storageID = row_id a, ad_last_mod_previous_scan = 0,
                        ad_last_mod_current_scan = 0, ad_timer_parameter = 0\<rparr>
             in Inr (Some (ad_updateLMT (ad_setCurrentLMT dir last_modified)))))))"

definition getAutoscanDirectory :: "int \<Rightarrow> store \<Rightarrow> autoscan_directory option result" where
  \<comment> \<open>the join asks for an object with that ID\<close>
  "getAutoscanDirectory objectID st =
     (if find (with_id objectID) (st_rows st) = None then Inr None
      else case find (\<lambda>a. col_is a ''obj_id'' (sql_int objectID)) (st_autoscans st) of
        None \<Rightarrow> Inr None
      | Some a \<Rightarrow> fillAutoscanDirectory st a)"

definition fill_or_remove :: "table_row \<Rightarrow> (store, autoscan_directory option) action" where
  "fill_or_remove a =
     and_then (\<lambda>st. (fillAutoscanDirectory st a, st)) (\<lambda>dir.
       case dir of
         None \<Rightarrow> and_then (removeAutoscanDirectory (row_id a)) (\<lambda>_. give None)
       | Some d \<Rightarrow> give (Some d))"

definition getAutoscanList :: "scan_mode \<Rightarrow> (store, autoscan_directory list) action" where
  "getAutoscanList scanmode =
     and_then (look (\<lambda>st. filter (\<lambda>a. col_is a ''scan_mode'' (sql_quote (mapScanmode scanmode))) (st_autoscans st))) (\<lambda>rows.
     and_then (map_each fill_or_remove rows) (\<lambda>dirs. give (List.map_filter id dirs)))"

definition persist_scan :: "scan_mode \<Rightarrow> autoscan_directory \<Rightarrow> (store, unit) action" where
  \<comment> \<open>one turn of the loop; the failed assertions end the program\<close>
  "persist_scan scanmode ad =
     (if \<not> ad_persistent ad \<or> ad_mode ad \<noteq> scanmode then throw Abort
      else if \<not> string_ok (ad_location ad) then
        throw (Throw ''AutoscanDirectoy with illegal location given to SQLStorage::updateAutoscanPersistentList'')
      else
        and_then (findObjectIDByPath (z_append_char (ad_location ad) DIR_SEPARATOR)) (\<lambda>objectID.
        and_then (look (\<lambda>st. find (\<lambda>a. if objectID = INVALID_OBJECT_ID
                                       then col_is a ''location'' (sql_quote (ad_location ad))
                                       else col_is a ''obj_id'' (sql_int objectID)) (st_autoscans st))) (\<lambda>row.
          case row of
            Some a \<Rightarrow> updateAutoscanDirectory (ad\<lparr>ad_storageID := row_id a\<rparr>)
          | None \<Rightarrow> and_then (addAutoscanDirectory ad) (\<lambda>_. give ()))))"

definition updateAutoscanPersistentList :: "scan_mode \<Rightarrow> autoscan_directory option list \<Rightarrow> (store, unit) action" where
  "updateAutoscanPersistentList scanmode dirs =
     and_then (change (\<lambda>st. st\<lparr>st_autoscans := rows_where
         (\<lambda>a. col_is a ''persistent'' (sql_bool True) \<and> col_is a ''scan_mode'' (sql_quote (mapScanmode scanmode)))
         (\<lambda>a. a(''touched'' := literal_value (sql_bool False))) (st_autoscans st)\<rparr>)) (\<lambda>_.
     and_then (for_each (persist_scan scanmode) (List.map_filter id dirs)) (\<lambda>_.
       change (\<lambda>st. st\<lparr>st_autoscans := filter
         (\<lambda>a. \<not> (col_is a ''touched'' (sql_bool False) \<and> col_is a ''scan_mode'' (sql_quote (mapScanmode scanmode))))
         (st_autoscans st)\<rparr>)))"

section \<open>The path to the root\<close>

definition parent_of :: "store \<Rightarrow> int \<Rightarrow> int option" where
  "parent_of st i = map_option (\<lambda>r. z_toInt (r ''parent_id'')) (find (with_id i) (st_rows st))"

fun is_path :: "store \<Rightarrow> int \<Rightarrow> int list \<Rightarrow> bool" where
  \<comment> \<open>the objects from \<open>i\<close> up to below the root, or to a missing one\<close>
  "is_path st i [] \<longleftrightarrow> i = CDS_ID_ROOT"
| "is_path st i (p # ps) \<longleftrightarrow> i \<noteq> CDS_ID_ROOT \<and> p = i
     \<and> (case parent_of st i of None \<Rightarrow> ps = [] | Some q \<Rightarrow> is_path st q ps)"

definition parents_first :: "store \<Rightarrow> bool" where
  \<comment> \<open>a parent got its ID before its children\<close>
  "parents_first st \<longleftrightarrow> (\<forall>i q. 0 < i \<longrightarrow> parent_of st i = Some q \<longrightarrow> 0 \<le> q \<and> q < i)"

lemma path_ids_step:
  "path_ids st i acc =
     (if i = CDS_ID_ROOT then Some acc
      else case parent_of st i of None \<Rightarrow> Some (acc @ [i]) | Some q \<Rightarrow> path_ids st q (acc @ [i]))"
  by (subst path_ids.simps) (simp add: parent_of_def split: option.split)

lemma path_ids_ends:
  assumes "parents_first st" "0 \<le> i"
  shows "\<exists>ps. path_ids st i acc = Some (acc @ ps) \<and> is_path st i ps \<and> sorted_wrt (>) ps \<and> (\<forall>p \<in> set ps. 0 < p \<and> p \<le> i)"
  using assms(2)
proof (induction "nat i" arbitrary: i acc rule: less_induct)
  case less
  show ?case
  proof (cases "i = CDS_ID_ROOT")
    case True
    then have "path_ids st i acc = Some (acc @ [])" by (simp add: path_ids_step)
    then show ?thesis using True by (intro exI [of _ "[]"]) simp
  next
    case False
    show ?thesis
    proof (cases "parent_of st i")
      case None
      then have "path_ids st i acc = Some (acc @ [i])" using False by (simp add: path_ids_step)
      then show ?thesis using None False less.prems by (intro exI [of _ "[i]"]) simp
    next
      case (Some q)
      have q: "0 \<le> q" "q < i" using assms(1) Some False less.prems unfolding parents_first_def by force+
      obtain ps where ps: "path_ids st q (acc @ [i]) = Some ((acc @ [i]) @ ps)" "is_path st q ps"
        "sorted_wrt (>) ps" "\<forall>p \<in> set ps. 0 < p \<and> p \<le> q"
        using less.hyps [of q "acc @ [i]"] q by auto
      have "path_ids st i acc = Some (acc @ (i # ps))" using False Some ps(1) by (simp add: path_ids_step)
      moreover have "is_path st i (i # ps)" using False Some ps(2) by simp
      moreover have "sorted_wrt (>) (i # ps)" using ps(3,4) q by auto
      moreover have "\<forall>p \<in> set (i # ps). 0 < p \<and> p \<le> i" using ps(4) q False less.prems by auto
      ultimately show ?thesis by blast
    qed
  qed
qed

lemma is_path_unique: "is_path st i ps \<Longrightarrow> is_path st i qs \<Longrightarrow> ps = qs"
proof (induction ps arbitrary: i qs)
  case (Cons p ps)
  then show ?case by (cases qs) (auto split: option.splits)
next
  case Nil
  then show ?case by (cases qs) auto
qed

lemma is_path_cong: "parent_of st = parent_of st' \<Longrightarrow> is_path st i ps = is_path st' i ps"
  by (induction ps arbitrary: i) (auto split: option.split)

definition path_of :: "store \<Rightarrow> int \<Rightarrow> int list" where
  "path_of st i = (case path_ids st i [] of None \<Rightarrow> [] | Some ps \<Rightarrow> ps)"

lemma path_of_is_path: "parents_first st \<Longrightarrow> 0 \<le> i \<Longrightarrow> path_ids st i [] = Some (path_of st i) \<and> is_path st i (path_of st i)"
  using path_ids_ends [of st i "[]"] by (auto simp: path_of_def)

lemma path_of_cong:
  assumes "parent_of st = parent_of st'" "parents_first st" "0 \<le> i"
  shows "path_of st i = path_of st' i"
proof -
  have "parents_first st'" using assms(1,2) by (simp add: parents_first_def)
  then have "is_path st' i (path_of st' i)" using path_of_is_path assms(3) by blast
  moreover have "is_path st' i (path_of st i)"
    using path_of_is_path [OF assms(2,3)] is_path_cong [OF assms(1)] by simp
  ultimately show ?thesis by (rule is_path_unique [symmetric])
qed

lemma cycle_does_not_end:
  assumes "parent_of st (- 1) = Some (- 1)"
  shows "path_ids st (- 1) acc = None"
proof -
  obtain r where r: "find (with_id (- 1)) (st_rows st) = Some r" "z_toInt (r ''parent_id'') = - 1"
    using assms by (auto simp: parent_of_def)
  have False if "path_ids st (- 1) acc = Some ps" for ps
  proof -
    have "st = st \<longrightarrow> - 1 \<noteq> (- 1 :: int)"
    proof (rule path_ids.raw_induct [of "\<lambda>st' i acc y. st' = st \<longrightarrow> i \<noteq> - 1" st "- 1" acc ps])
      fix f st' i acc' y
      assume ih: "\<And>st' i acc y. f st' i acc = Some y \<Longrightarrow> st' = st \<longrightarrow> i \<noteq> - 1"
        and eq: "(if i = CDS_ID_ROOT then Some acc'
          else case find (with_id i) (st_rows st') of None \<Rightarrow> Some (acc' @ [i])
               | Some r \<Rightarrow> f st' (z_toInt (r ''parent_id'')) (acc' @ [i])) = Some y"
      show "st' = st \<longrightarrow> i \<noteq> - 1"
      proof (intro impI notI)
        assume "st' = st" "i = - 1"
        then have "f st (- 1) (acc' @ [- 1]) = Some y" using eq r by simp
        then show False using ih by blast
      qed
    qed (rule that)
    then show False by simp
  qed
  then show ?thesis by (cases "path_ids st (- 1) acc") auto
qed

section \<open>Finding an ID between commas\<close>

lemma show_int_inj: "show_int i = show_int j \<Longrightarrow> i = j"
proof -
  assume eq: "show_int i = show_int j"
  have "strtol_in (min i j) (max i j) (show_int i @ []) = (i, [])"
    "strtol_in (min i j) (max i j) (show_int j @ []) = (j, [])"
    by (rule strtol_in_show_int; simp)+
  then show "i = j" using eq by simp
qed

lemma comma_not_in_show_int: "CHR '','' \<notin> set (show_int i)"
  using set_show_int [of "CHR '',''" i] by (auto simp: is_digit_def)

definition commas :: "int list \<Rightarrow> string" where
  "commas ids = concat (map (\<lambda>i. CHR '','' # show_int i) ids) @ '',''"

lemma prefixb_number:
  assumes "r = [] \<or> hd r = CHR '',''" "r \<noteq> []"
  shows "prefixb (show_int i @ '','') (show_int j @ r) \<longleftrightarrow> i = j"
proof
  assume "prefixb (show_int i @ '','') (show_int j @ r)"
  then obtain z where z: "show_int j @ r = show_int i @ CHR '','' # z" by (auto simp: prefixb_append)
  obtain r' where r: "r = CHR '','' # r'" using assms by (cases r) auto
  have "takeWhile (\<lambda>c. c \<noteq> CHR '','') (show_int j @ r) = show_int j"
    "takeWhile (\<lambda>c. c \<noteq> CHR '','') (show_int i @ CHR '','' # z) = show_int i"
    unfolding r using comma_not_in_show_int by (simp_all add: takeWhile_split)
  then have "show_int j = show_int i" using z by simp
  then show "i = j" using show_int_inj by metis
next
  assume "i = j"
  then show "prefixb (show_int i @ '','') (show_int j @ r)"
    using assms by (cases r) (auto simp: prefixb_append)
qed

lemma strstr_skip:
  assumes "CHR '','' \<notin> set a" "n \<noteq> []" "hd n = CHR '',''"
  shows "strstr (a @ s) n \<noteq> None \<longleftrightarrow> strstr s n \<noteq> None"
  using assms
proof (induction a)
  case (Cons c a)
  then have "\<not> prefixb n (c # a @ s)" by (cases n) auto
  then show ?case using Cons by simp
qed simp

lemma commas_hd: "commas ids \<noteq> []" "hd (commas ids) = CHR '',''"
  by (cases ids; simp add: commas_def)+

lemma strstr_commas: "strstr (commas ids) ('','' @ show_int i @ '','') \<noteq> None \<longleftrightarrow> i \<in> set ids"
proof (induction ids)
  case Nil
  have "\<not> prefixb ('','' @ show_int i @ '','') '',''" by (cases "show_int i") auto
  then show ?case by (simp add: commas_def)
next
  case (Cons j ids)
  let ?n = "'','' @ show_int i @ '',''"
  have c: "commas (j # ids) = CHR '','' # (show_int j @ commas ids)" by (simp add: commas_def)
  have "prefixb ?n (CHR '','' # (show_int j @ commas ids)) \<longleftrightarrow> i = j"
    using prefixb_number [of "commas ids" i j] commas_hd [of ids] by simp
  moreover have "strstr (show_int j @ commas ids) ?n \<noteq> None \<longleftrightarrow> i \<in> set ids"
    using strstr_skip [OF comma_not_in_show_int, of ?n j "commas ids"] Cons.IH by simp
  ultimately show ?case unfolding c by (cases "i = j") auto
qed

lemma ids_text_commas: "ids \<noteq> [] \<Longrightarrow> ids_text ids = commas ids"
  using concat_seps [of ids "CHR '',''" show_int] by (simp add: ids_text_def commas_def)

section \<open>No two autoscans overlap\<close>

definition scan_row_ok :: "store \<Rightarrow> table_row \<Rightarrow> bool" where
  \<comment> \<open>the path of the directory is kept with it\<close>
  "scan_row_ok st a \<longleftrightarrow> a ''obj_id'' = None
     \<or> (\<exists>j. 0 < j \<and> j < 2 ^ 31 \<and> a ''obj_id'' = Some (show_int j) \<and> a ''path_ids'' = Some (ids_text (path_of st j)))"

definition apart :: "store \<Rightarrow> table_row \<Rightarrow> table_row \<Rightarrow> bool" where
  "apart st a b \<longleftrightarrow>
     (\<forall>i j. a ''obj_id'' = Some (show_int i) \<longrightarrow> b ''obj_id'' = Some (show_int j) \<longrightarrow>
        i \<noteq> j \<and> (a ''recursive'' = Some ''1'' \<longrightarrow> i \<notin> set (path_of st j))
        \<and> (b ''recursive'' = Some ''1'' \<longrightarrow> j \<notin> set (path_of st i)))"

definition scans_ok :: "store \<Rightarrow> bool" where
  "scans_ok st \<longleftrightarrow> (\<forall>a \<in> set (st_autoscans st). scan_row_ok st a) \<and> sorted_wrt (apart st) (st_autoscans st)"

lemma sql_bool_literal: "literal_value (sql_bool b) = Some (if b then ''1'' else ''0'')"
proof -
  have "show_int 1 = ''1''" "show_int 0 = ''0''" by code_simp+
  then show ?thesis by (simp add: sql_bool_def)
qed

lemma grows_to_findObjectByPath: "grows_to st (snd (findObjectByPath p st))"
proof (cases "path_location p")
  case (Inr l)
  show ?thesis
  proof (cases "cached_at st l")
    case None
    then show ?thesis using Inr grows_to_object_of_row
      by (auto simp: findObjectByPath_def and_then_def split: option.split sum.split prod.split) (metis snd_conv)+
  qed (use Inr in \<open>simp add: findObjectByPath_def\<close>)
qed (simp add: findObjectByPath_def)

lemma grows_to_findObjectIDByPath: "grows_to st (snd (findObjectIDByPath p st))"
  using grows_to_findObjectByPath [of st p]
  by (auto simp: findObjectIDByPath_def and_then_def split: sum.split prod.split)

lemma scan_conflict_fails: "scan_conflict msg a st \<noteq> (Inr x, st')"
  by (auto simp: scan_conflict_def and_then_def split: sum.split prod.split)

lemma load_then_throw: "and_then (loadObject i) (\<lambda>ob. throw (g ob)) st \<noteq> (Inr x, st')"
  by (auto simp: and_then_def split: sum.split prod.split)

lemma getPathIDs_result:
  assumes "getPathIDs i st = (Inr p, st')" "i \<noteq> INVALID_OBJECT_ID"
  shows "st' = flush st \<and> p = map_option Some (path_ids (flush st) i [])"
  using assms by (auto simp: getPathIDs_def)

lemma check_passes:
  assumes c: "checkOverlappingAutoscans adir st = (Inr p, st')" and i: "i = ad_objectID adir" "i \<noteq> INVALID_OBJECT_ID"
  shows "\<exists>ids. p = Some ids \<and> path_ids (flush st) i [] = Some ids \<and> st' = flush st
    \<and> find (\<lambda>a. col_is a ''obj_id'' (sql_int i) \<and> other_scan (ad_storageID adir) a) (st_autoscans st) = None
    \<and> (ad_recursive adir \<longrightarrow> find (\<lambda>a. like_id i a \<and> other_scan (ad_storageID adir) a) (st_autoscans st) = None)
    \<and> find (\<lambda>a. (\<exists>k \<in> set ids. col_is a ''obj_id'' (sql_int k)) \<and> col_is a ''recursive'' (sql_bool True)
         \<and> other_scan (ad_storageID adir) a) (st_autoscans (flush st)) = None"
proof -
  note d = c [unfolded checkOverlappingAutoscans_def Let_def, folded i(1)]
  have same: "find (\<lambda>a. col_is a ''obj_id'' (sql_int i) \<and> other_scan (ad_storageID adir) a) (st_autoscans st) = None"
  proof (rule ccontr)
    assume "\<not> ?thesis"
    then show False using d i(2) by (auto simp: load_then_throw)
  qed
  define below where "below = (if ad_recursive adir
    then find (\<lambda>a. like_id i a \<and> other_scan (ad_storageID adir) a) (st_autoscans st) else None)"
  have b: "below = None"
  proof (rule ccontr)
    assume "below \<noteq> None"
    then show False using d i(2) same by (auto simp: below_def scan_conflict_fails)
  qed
  define rest where "rest = (\<lambda>path. case path of
                     None \<Rightarrow> throw Abort
                   | Some None \<Rightarrow> throw (Throw ''getPathIDs returned nullptr'')
                   | Some (Some pathIDs) \<Rightarrow>
                       and_then (look (\<lambda>st. find (\<lambda>a. (\<exists>i \<in> set pathIDs. col_is a ''obj_id'' (sql_int i))
                           \<and> col_is a ''recursive'' (sql_bool True) \<and> other_scan (ad_storageID adir) a) (st_autoscans st))) (\<lambda>above.
                       case above of
                         Some a \<Rightarrow>
                           scan_conflict ''Overlapping Autoscans are not allowed. There is already a recursive Autoscan set on '' a
                       | None \<Rightarrow> give (Some pathIDs)))"
  have "and_then (getPathIDs i) rest st = (Inr p, st')"
    using d i(2) same b unfolding rest_def below_def by (simp split: if_splits)
  then obtain q st1 where q: "getPathIDs i st = (Inr q, st1)" "rest q st1 = (Inr p, st')"
    unfolding and_then_done by blast
  note g = getPathIDs_result [OF q(1) i(2)]
  obtain ids where ids: "path_ids (flush st) i [] = Some ids"
    using q(2) g by (cases "path_ids (flush st) i []") (simp_all add: rest_def)
  define above where "above = find (\<lambda>a. (\<exists>k \<in> set ids. col_is a ''obj_id'' (sql_int k)) \<and> col_is a ''recursive'' (sql_bool True)
         \<and> other_scan (ad_storageID adir) a) (st_autoscans (flush st))"
  have r: "(case above of Some a \<Rightarrow>
        scan_conflict ''Overlapping Autoscans are not allowed. There is already a recursive Autoscan set on '' a
      | None \<Rightarrow> give (Some ids)) (flush st) = (Inr p, st')"
    using q(2) g ids by (simp add: rest_def above_def)
  have a: "above = None" using r by (cases above) (auto simp: scan_conflict_fails)
  have ps: "p = Some ids" "st' = flush st" using r unfolding a by simp_all
  have nb: "ad_recursive adir \<longrightarrow> find (\<lambda>a. like_id i a \<and> other_scan (ad_storageID adir) a) (st_autoscans st) = None"
    using b unfolding below_def by (simp split: if_splits)
  show ?thesis
    using ps ids same nb a [unfolded above_def] by (intro exI [of _ ids] conjI)
qed

lemma parent_of_flags:
  "parent_of (st\<lparr>st_rows := rows_where P (\<lambda>r. r(''flags'' := g r)) (st_rows st)\<rparr>) = parent_of st"
proof -
  have "find (with_id i) (rows_where P (\<lambda>r. r(''flags'' := g r)) rows)
      = map_option (\<lambda>r. if P r then r(''flags'' := g r) else r) (find (with_id i) rows)" for i rows
    by (induction rows) (auto simp: rows_where_def with_id_def col_is_def)
  then show ?thesis by (auto simp: parent_of_def fun_eq_iff map_option.compositionality comp_def intro!: option.map_cong0)
qed

lemma change_flag_frame:
  assumes "autoscanChangePersistentFlag i b st = (r, st')"
  shows "r = Inr () \<and> parent_of st' = parent_of st \<and> st_autoscans st' = st_autoscans st
    \<and> st_pending st' = st_pending st \<and> st_lastID st' = st_lastID st"
  using assms by (auto simp: autoscanChangePersistentFlag_def parent_of_flags split: if_splits)

lemma path_of_nonempty: "parents_first st \<Longrightarrow> 0 < i \<Longrightarrow> path_of st i \<noteq> []"
  using path_of_is_path [of st i] by auto

lemma scan_row_columns:
  assumes "d = put_col ''last_modified'' l (scan_columns adir j (Some ids))" "0 < j"
  shows "new_scan_row i d ''obj_id'' = Some (show_int j)"
    "new_scan_row i d ''recursive'' = Some (if ad_recursive adir then ''1'' else ''0'')"
    "new_scan_row i d ''path_ids'' = Some (cstr (ids_text ids))"
  using assms sql_bool_literal [of "ad_recursive adir"]
  by (simp_all add: new_scan_row_def scan_columns_def get_put_col literal_value_quote sql_bool_def)

lemma nul_free_ids_text: "nul_free (ids_text ids)"
  by (simp add: ids_text_def) (rule nul_free_join; auto)

lemma scan_row_cong:
  assumes "parent_of st' = parent_of st" "parents_first st" "scan_row_ok st a"
  shows "scan_row_ok st' a"
proof -
  have "parents_first st'" using assms(1,2) by (simp add: parents_first_def)
  then have p: "path_of st' j = path_of st j" if "0 < j" for j
    using path_of_cong [OF assms(1)] that by simp
  show ?thesis using assms(3) p unfolding scan_row_ok_def by metis
qed

lemma apart_cong:
  assumes "parent_of st' = parent_of st" "parents_first st" "scan_row_ok st a" "scan_row_ok st b" "apart st a b"
  shows "apart st' a b"
  unfolding apart_def
proof (intro allI impI)
  fix i j assume ij: "a ''obj_id'' = Some (show_int i)" "b ''obj_id'' = Some (show_int j)"
  have "parents_first st'" using assms(1,2) by (simp add: parents_first_def)
  moreover have "0 < i" "0 < j" using ij assms(3,4) by (auto simp: scan_row_ok_def dest: show_int_inj)
  ultimately have p: "path_of st' i = path_of st i" "path_of st' j = path_of st j"
    using path_of_cong [OF assms(1)] by simp_all
  show "i \<noteq> j \<and> (a ''recursive'' = Some ''1'' \<longrightarrow> i \<notin> set (path_of st' j))
        \<and> (b ''recursive'' = Some ''1'' \<longrightarrow> j \<notin> set (path_of st' i))"
    using assms(5) ij by (simp add: apart_def p)
qed

lemma scans_ok_cong:
  assumes "parent_of st' = parent_of st" "parents_first st" "scans_ok st"
  shows "(\<forall>a \<in> set (st_autoscans st). scan_row_ok st' a) \<and> sorted_wrt (apart st') (st_autoscans st)"
proof -
  have "\<forall>a \<in> set (st_autoscans st). scan_row_ok st a" using assms(3) by (simp add: scans_ok_def)
  moreover have "sorted_wrt (apart st') (st_autoscans st)"
    using assms(3) apart_cong [OF assms(1,2)] unfolding scans_ok_def
    by (auto elim!: sorted_wrt_mono_rel [rotated])
  ultimately show ?thesis using scan_row_cong [OF assms(1,2)] by blast
qed

lemma addAutoscanDirectory_keeps:
  assumes run: "addAutoscanDirectory adir st = (Inr adir', st')"
    and ok: "scans_ok st" "parents_first st" "st_pending st = []"
    and i: "i = ad_objectID adir" "0 < i" "i < 2 ^ 31"
    and found: "if z_eq (ad_location adir) (Some ''/'') then i = CDS_ID_FS_ROOT
      else fst (findObjectIDByPath (z_append_char (ad_location adir) DIR_SEPARATOR) st) = Inr i"
  shows "scans_ok st' \<and> parents_first st'"
proof -
  define look_up where "look_up = (if z_eq (ad_location adir) (Some ''/'') then give CDS_ID_FS_ROOT
                  else findObjectIDByPath (z_append_char (ad_location adir) DIR_SEPARATOR))"
  obtain st1 where 1: "look_up st = (Inr i, st1)" "grows_to st st1"
    using found grows_to_findObjectIDByPath [of st "z_append_char (ad_location adir) DIR_SEPARATOR"]
    by (cases "findObjectIDByPath (z_append_char (ad_location adir) DIR_SEPARATOR) st")
       (auto simp: look_up_def split: if_splits)
  have sid: "ad_storageID adir < 0" using run by (auto simp: addAutoscanDirectory_def split: if_splits)
  have s1: "st_rows st1 = st_rows st" "st_pending st1 = []" "st_autoscans st1 = st_autoscans st"
    using 1(2) ok(3) by (auto simp: grows_to_def)
  define finish where "finish = (\<lambda>pathIDs. and_then (autoscanChangePersistentFlag i True) (\<lambda>_ st.
            let n = next_scan_id (st_autoscans st);
                d = put_col ''last_modified'' (sql_int (ad_last_mod_previous_scan adir)) (scan_columns adir i pathIDs)
            in (Inr (adir\<lparr>ad_storageID := n\<rparr>), st\<lparr>st_autoscans := st_autoscans st @ [new_scan_row n d]\<rparr>)))"
  have "addAutoscanDirectory adir st = and_then (checkOverlappingAutoscans adir) finish st1"
    using sid 1(1) i(2) unfolding addAutoscanDirectory_def look_up_def [symmetric] finish_def
    by (simp add: and_then_Inr [of look_up])
  then have "and_then (checkOverlappingAutoscans adir) finish st1 = (Inr adir', st')" using run by simp
  then obtain p st2 where 2: "checkOverlappingAutoscans adir st1 = (Inr p, st2)" "finish p st2 = (Inr adir', st')"
    unfolding and_then_done by blast
  have inv: "i \<noteq> INVALID_OBJECT_ID" using i(2) by simp
  obtain ids where c: "p = Some ids" "path_ids (flush st1) i [] = Some ids" "st2 = flush st1"
    "find (\<lambda>a. col_is a ''obj_id'' (sql_int i) \<and> other_scan (ad_storageID adir) a) (st_autoscans st1) = None"
    "ad_recursive adir \<longrightarrow> find (\<lambda>a. like_id i a \<and> other_scan (ad_storageID adir) a) (st_autoscans st1) = None"
    "find (\<lambda>a. (\<exists>k \<in> set ids. col_is a ''obj_id'' (sql_int k)) \<and> col_is a ''recursive'' (sql_bool True)
         \<and> other_scan (ad_storageID adir) a) (st_autoscans (flush st1)) = None"
    using check_passes [OF 2(1) i(1) inv] by blast
  have g2: "grows_to st1 st2" using c(3) by simp
  have s2: "parent_of st2 = parent_of st" "st_autoscans st2 = st_autoscans st" "st_pending st2 = []"
    using g2 s1 by (auto simp: grows_to_def parent_of_def fun_eq_iff)
  have ids: "ids = path_of st2 i" using c(2,3) by (simp add: path_of_def)
  obtain st3 where 3: "autoscanChangePersistentFlag i True st2 = (Inr (), st3)"
    using change_flag_frame [of i True st2] by (cases "autoscanChangePersistentFlag i True st2") auto
  note f = change_flag_frame [OF 3]
  define n where "n = next_scan_id (st_autoscans st)"
  define d where "d = put_col ''last_modified'' (sql_int (ad_last_mod_previous_scan adir)) (scan_columns adir i (Some ids))"
  define new where "new = new_scan_row n d"
  have st': "st' = st3\<lparr>st_autoscans := st_autoscans st @ [new]\<rparr>"
    using 2(2) f s2 c(1) unfolding finish_def by (simp add: and_then_Inr [of "autoscanChangePersistentFlag i True", OF 3] Let_def n_def d_def new_def)
  have par: "parent_of st' = parent_of st" using f s2 by (simp add: st' parent_of_def fun_eq_iff)
  have pf': "parents_first st'" using par ok(2) by (simp add: parents_first_def)
  note old = scans_ok_cong [OF par ok(2,1)]
  have ids': "ids = path_of st' i"
  proof -
    have "parent_of st2 = parent_of st'" using par s2(1) by simp
    moreover have "parents_first st2" using s2(1) ok(2) by (simp add: parents_first_def)
    ultimately show ?thesis using ids path_of_cong i(2) by simp
  qed
  have ne: "ids \<noteq> []" using path_of_nonempty [OF pf' i(2)] ids' by simp
  note cols = scan_row_columns [OF d_def i(2), of n, folded new_def]
  have "scan_row_ok st' new"
    using cols(1,3) i(2,3) ids' nul_free_ids_text by (auto simp: scan_row_ok_def)
  moreover have "apart st' a new" if a: "a \<in> set (st_autoscans st)" for a
    unfolding apart_def
  proof (intro allI impI)
    fix j k assume jk: "a ''obj_id'' = Some (show_int j)" "new ''obj_id'' = Some (show_int k)"
    have k: "k = i" using jk(2) cols(1) show_int_inj by simp
    have row: "a ''path_ids'' = Some (ids_text (path_of st' j))" "0 < j"
    proof -
      obtain m where m: "0 < m" "a ''obj_id'' = Some (show_int m)" "a ''path_ids'' = Some (ids_text (path_of st' m))"
        using old a jk(1) unfolding scan_row_ok_def by (metis option.distinct(1))
      have "m = j" using m(2) jk(1) show_int_inj by simp
      then show "a ''path_ids'' = Some (ids_text (path_of st' j))" "0 < j" using m by simp_all
    qed
    have other: "other_scan (ad_storageID adir) a" using sid by (simp add: other_scan_def)
    have no: "\<not> P a" if "find P (st_autoscans st) = None" for P using that a by (simp add: find_None_iff)
    have "j \<noteq> i"
      using no [of "\<lambda>a. col_is a ''obj_id'' (sql_int i) \<and> other_scan (ad_storageID adir) a"] c(4) s1(3) other jk(1)
      by (auto simp: col_is_def)
    moreover have "j \<notin> set ids" if "a ''recursive'' = Some ''1''"
      using no [of "\<lambda>a. (\<exists>k \<in> set ids. col_is a ''obj_id'' (sql_int k)) \<and> col_is a ''recursive'' (sql_bool True)
         \<and> other_scan (ad_storageID adir) a"] c(3,6) s2(2) other jk(1) that
      by (auto simp: col_is_def sql_bool_literal)
    moreover have "i \<notin> set (path_of st' j)" if "new ''recursive'' = Some ''1''"
    proof -
      have "ad_recursive adir" using that cols(2) by (simp split: if_splits)
      then have "\<not> like_id i a"
        using no [of "\<lambda>a. like_id i a \<and> other_scan (ad_storageID adir) a"] c(5) s1(3) other by auto
      moreover have "ids_text (path_of st' j) = commas (path_of st' j)"
        using path_of_nonempty [OF pf' row(2)] by (rule ids_text_commas)
      ultimately show ?thesis using strstr_commas [of "path_of st' j" i] row(1) by (simp add: like_id_def)
    qed
    ultimately show "j \<noteq> k \<and> (a ''recursive'' = Some ''1'' \<longrightarrow> j \<notin> set (path_of st' k))
        \<and> (new ''recursive'' = Some ''1'' \<longrightarrow> k \<notin> set (path_of st' j))"
      using k ids' by blast
  qed
  ultimately show ?thesis using old pf' by (auto simp: scans_ok_def st' sorted_wrt_append)
qed

end
