(* ===== verification/Sql_Removal.thy ===== *)
theory Sql_Removal
  imports Sql_Autoscans
begin

text \<open>
  Removal of objects from the SQL storage (src/storage/sql_storage.cc:
  \<open>removeObject\<close>, \<open>removeObjects\<close>, \<open>_removeObjects\<close>, \<open>_recursiveRemove\<close>,
  \<open>_purgeEmptyContainers\<close>). A buffer of IDs between commas is the list of their
  texts; its length in bytes, which decides when rows are deleted, is
  \<open>buffer_length\<close>. The rows a deletion leaves are those of SQLite as the server
  opens it, without its foreign keys enforced.
\<close>

unbundle bit_operations_syntax

section \<open>Buffers of IDs\<close>

type_synonym id_buffer = "string list"

definition buffer_length :: "id_buffer \<Rightarrow> nat" where
  "buffer_length ids = (\<Sum>i \<leftarrow> ids. length i + 1)"

definition in_ids :: "string \<Rightarrow> id_buffer \<Rightarrow> table_row \<Rightarrow> bool" where
  \<comment> \<open>\<open>column IN (ids)\<close>\<close>
  "in_ids c ids r \<longleftrightarrow> (case r c of None \<Rightarrow> False | Some v \<Rightarrow> v \<in> set ids)"

definition col_text :: "string \<Rightarrow> table_row \<Rightarrow> string" where
  \<comment> \<open>what \<open>col_c_str\<close> adds to a buffer: nothing for NULL\<close>
  "col_text c r = (case r c of None \<Rightarrow> [] | Some v \<Rightarrow> v)"

record changed_containers =
  cc_upnp :: id_buffer
  cc_ui :: id_buffer

section \<open>Deleting rows\<close>

definition delete_scans :: "id_buffer \<Rightarrow> store \<Rightarrow> id_buffer" where
  \<comment> \<open>the autoscans on the objects that are not persistent; the UPDATE statement for the others is
      added to the query string, which is cleared without being executed\<close>
  "delete_scans objectIDs st =
     map (col_text ''id'')
       (filter (\<lambda>a. \<not> remapBool (a ''persistent''))
         (filter (\<lambda>a. \<exists>r \<in> set (st_rows st). in_ids ''id'' objectIDs r \<and> r ''id'' = a ''obj_id'') (st_autoscans st)))"

definition removeRows :: "id_buffer \<Rightarrow> store \<Rightarrow> store" where
  \<comment> \<open>\<open>_removeObjects\<close>\<close>
  "removeRows objectIDs st =
     (let delete_as = delete_scans objectIDs st
      in st\<lparr>st_autoscans := (if delete_as = [] then st_autoscans st
                            else filter (\<lambda>a. \<not> in_ids ''id'' delete_as a) (st_autoscans st)),
            st_active := (\<lambda>i. if show_int i \<in> set objectIDs then None else st_active st i),
            st_rows := filter (\<lambda>r. \<not> in_ids ''id'' objectIDs r) (st_rows st)\<rparr>)"

section \<open>What hangs below\<close>

definition child_actions :: "bool \<Rightarrow> table_row list \<Rightarrow> id_buffer \<times> id_buffer \<times> id_buffer \<times> id_buffer
    \<Rightarrow> id_buffer \<times> id_buffer \<times> id_buffer \<times> id_buffer" where
  \<comment> \<open>the loop over the children: \<open>recurseItems\<close>, \<open>recurseContainers\<close>, \<open>removeAddParents\<close>, \<open>remove\<close>\<close>
  "child_actions all rows bufs =
     foldl (\<lambda>(ri, rc, rp, rm) r.
       if IS_CDS_CONTAINER (word_of_int (row_type r)) then
         (ri, rc @ [col_text ''id'' r], rp, rm @ [col_text ''id'' r])
       else if all \<and> string_ok (r ''ref_id'') then
         (ri @ [col_text ''ref_id'' r], rc, rp @ [col_text ''ref_id'' r], rm)
       else (ri @ [col_text ''id'' r], rc, rp, rm @ [col_text ''id'' r])) bufs rows"

abbreviation MAX_REMOVE_SIZE :: nat where "MAX_REMOVE_SIZE \<equiv> 10000"
abbreviation MAX_REMOVE_RECURSION :: nat where "MAX_REMOVE_RECURSION \<equiv> 500"

function recursive_loop ::
  "bool \<Rightarrow> nat \<Rightarrow> id_buffer \<Rightarrow> id_buffer \<Rightarrow> id_buffer \<Rightarrow> id_buffer \<Rightarrow> changed_containers
    \<Rightarrow> (store, changed_containers) action" where
  "recursive_loop all cnt recurseItems recurseContainers removeAddParents remove changed st =
     (if recurseItems = [] \<and> removeAddParents = [] \<and> recurseContainers = [] then
        (Inr changed, if remove \<noteq> [] then removeRows remove st else st)
      else
        (let remove = remove @ removeAddParents;
             changed = changed\<lparr>cc_upnp := cc_upnp changed
               @ remdups (map (col_text ''parent_id'') (filter (in_ids ''id'' removeAddParents) (st_rows st)))\<rparr>;
             refs = remdups (map (\<lambda>r. (col_text ''id'' r, col_text ''parent_id'' r))
                      (filter (in_ids ''ref_id'' recurseItems) (st_rows st)));
             remove = remove @ map fst refs;
             changed = changed\<lparr>cc_upnp := cc_upnp changed @ map snd refs\<rparr>;
             (recurseItems, recurseContainers, removeAddParents, remove) =
               child_actions all (filter (in_ids ''parent_id'' recurseContainers) (st_rows st)) ([], [], [], remove);
             big = (buffer_length remove > MAX_REMOVE_SIZE);
             st = (if big then removeRows remove st else st);
             remove = (if big then [] else remove)
         in if cnt > MAX_REMOVE_RECURSION
            then (Inl (Throw ''there seems to be an infinite loop...''), st)
            else recursive_loop all (cnt + 1) recurseItems recurseContainers removeAddParents remove changed st))"
  by pat_completeness auto
termination
  by (relation "measure (\<lambda>(_, cnt, _). MAX_REMOVE_RECURSION + 1 - cnt)") auto

declare recursive_loop.simps [simp del]

definition recursiveRemove :: "id_buffer \<Rightarrow> id_buffer \<Rightarrow> bool \<Rightarrow> (store, changed_containers) action" where
  \<comment> \<open>\<open>_recursiveRemove\<close>: the query for the parents of the containers empties \<open>removeAddParents\<close>\<close>
  "recursiveRemove items containers all st =
     (let recurseItems = items; removeAddParents = items
      in if containers \<noteq> [] then
           recursive_loop all 0 recurseItems containers [] containers
             \<lparr>cc_upnp = [],
              cc_ui = remdups (map (col_text ''parent_id'')
                (filter (in_ids ''id'' (removeAddParents @ containers)) (st_rows st)))\<rparr> st
         else recursive_loop all 0 recurseItems [] removeAddParents [] \<lparr>cc_upnp = [], cc_ui = []\<rparr> st)"

section \<open>Empty containers\<close>

definition purge_rows :: "id_buffer \<Rightarrow> store \<Rightarrow> (string \<times> nat \<times> string \<times> 32 word) list" where
  \<comment> \<open>ID, number of children, parent and flags of the containers with these IDs\<close>
  "purge_rows ids st =
     map (\<lambda>r. (col_text ''id'' r,
               length (filter (\<lambda>b. b ''parent_id'' \<noteq> None \<and> b ''parent_id'' = r ''id'') (st_rows st)),
               col_text ''parent_id'' r, word_of_int (z_toInt (r ''flags''))))
       (filter (\<lambda>r. is_container_row r \<and> in_ids ''id'' ids r) (st_rows st))"

definition persistent_container :: "32 word \<Rightarrow> bool" where
  "persistent_container flags \<longleftrightarrow> flags AND 8 \<noteq> 0"

definition purge_upnp :: "id_buffer \<Rightarrow> store \<Rightarrow> id_buffer \<Rightarrow> id_buffer \<times> id_buffer \<times> id_buffer \<times> id_buffer" where
  \<comment> \<open>\<open>bufSelUI\<close>, \<open>bufSelUpnp\<close>, \<open>bufDel\<close> and what is added to \<open>changedContainers->upnp\<close>\<close>
  "purge_upnp selUpnp st selUI =
     foldl (\<lambda>(ui, upnp, del, out) (i, children, parent, flags).
       if persistent_container flags then (ui, upnp, del, out @ [i])
       else if children = 0 then (ui @ [parent], upnp, del @ [i], out)
       else (ui, upnp @ [i], del, out)) (selUI, [], [], []) (purge_rows selUpnp st)"

definition purge_ui :: "id_buffer \<Rightarrow> store \<Rightarrow> id_buffer \<Rightarrow> id_buffer \<times> id_buffer \<times> id_buffer" where
  \<comment> \<open>\<open>bufSelUI\<close>, \<open>bufDel\<close> and what is added to both lists of changed containers\<close>
  "purge_ui selUI st del =
     foldl (\<lambda>(ui, del, out) (i, children, parent, flags).
       if persistent_container flags then (ui, del, out @ [i])
       else if children = 0 then (ui @ [parent], del @ [i], out)
       else (ui @ [i], del, out)) ([], del, []) (purge_rows selUI st)"

function purge_loop :: "nat \<Rightarrow> id_buffer \<Rightarrow> id_buffer \<Rightarrow> changed_containers \<Rightarrow> (store, id_buffer \<times> id_buffer \<times> changed_containers) action" where
  "purge_loop cnt selUI selUpnp changed st =
     (let (selUI, selUpnp, del, out) = (if selUpnp \<noteq> [] then purge_upnp selUpnp st selUI else (selUI, [], [], []));
          changed = changed\<lparr>cc_upnp := cc_upnp changed @ out\<rparr>;
          (selUI, del, out) = (if selUI \<noteq> [] then purge_ui selUI st del else ([], del, []));
          changed = changed\<lparr>cc_ui := cc_ui changed @ out, cc_upnp := cc_upnp changed @ out\<rparr>;
          again = (del \<noteq> [] \<and> (selUI \<noteq> [] \<or> selUpnp \<noteq> []));
          st = (if del \<noteq> [] then removeRows del st else st)
      in if cnt \<ge> MAX_REMOVE_RECURSION then (Inl (Throw ''there seems to be an infinite loop...''), st)
         else if again then purge_loop (cnt + 1) selUI selUpnp changed st
         else (Inr (selUI, selUpnp, changed), st))"
  by pat_completeness auto
termination
  by (relation "measure (\<lambda>(cnt, _). MAX_REMOVE_RECURSION + 1 - cnt)") auto

declare purge_loop.simps [simp del]

definition clear_cache :: "store \<Rightarrow> store" where
  "clear_cache st = (case ss_cache (st_sql st) of None \<Rightarrow> st | Some c \<Rightarrow> set_cache (sc_clear c) st)"

definition purgeEmptyContainers :: "changed_containers \<Rightarrow> (store, changed_containers) action" where
  "purgeEmptyContainers changed =
     (if cc_upnp changed = [] \<and> cc_ui changed = [] then give \<lparr>cc_upnp = [], cc_ui = []\<rparr>
      else
        and_then (purge_loop 0 (cc_ui changed) (cc_upnp changed) \<lparr>cc_upnp = [], cc_ui = []\<rparr>) (\<lambda>(selUI, selUpnp, out).
        and_then (change clear_cache) (\<lambda>_.
          give \<lparr>cc_upnp = cc_upnp out @ selUI @ selUpnp, cc_ui = cc_ui out @ selUI\<rparr>)))"

section \<open>Removing objects\<close>

definition forbidden_id :: "int \<Rightarrow> bool" where
  "forbidden_id i \<longleftrightarrow> i \<le> CDS_ID_FS_ROOT"

definition removeObjects :: "int list \<Rightarrow> bool \<Rightarrow> (store, changed_containers option) action" where
  \<comment> \<open>the set as the list of its elements\<close>
  "removeObjects ids all =
     and_then (change flush) (\<lambda>_.
       if ids = [] then give None
       else case find forbidden_id ids of
         Some i \<Rightarrow> throw (Throw (''tried to delete a forbidden ID ('' @ show_int i @ '')!''))
       | None \<Rightarrow>
           and_then (look (\<lambda>st. filter (in_ids ''id'' (map show_int ids)) (st_rows st))) (\<lambda>rows.
             let containers = map (col_text ''id'') (filter (\<lambda>r. IS_CDS_CONTAINER (word_of_int (row_type r))) rows);
                 items = map (col_text ''id'') (filter (\<lambda>r. \<not> IS_CDS_CONTAINER (word_of_int (row_type r))) rows)
             in and_then (recursiveRemove items containers all) (\<lambda>changed.
                and_then (purgeEmptyContainers changed) (\<lambda>changed. give (Some changed)))))"

definition removeObject :: "int \<Rightarrow> bool \<Rightarrow> (store, changed_containers option) action" where
  "removeObject objectID all =
     and_then (change flush) (\<lambda>_.
     and_then (look (\<lambda>st. find (with_id objectID) (st_rows st))) (\<lambda>row.
       case row of
         None \<Rightarrow> give None
       | Some r \<Rightarrow>
           (let isContainer = IS_CDS_CONTAINER (word_of_int (row_type r) :: 32 word);
                ref = z_toInt (r ''ref_id'');
                objectID = (if all \<and> \<not> isContainer \<and> string_ok (r ''ref_id'') \<and> \<not> forbidden_id ref
                            then ref else objectID)
            in if forbidden_id objectID
               then throw (Throw (''tried to delete a forbidden ID ('' @ show_int objectID @ '')!''))
               else
                 and_then (if isContainer then recursiveRemove [] [show_int objectID] all
                           else recursiveRemove [show_int objectID] [] all) (\<lambda>changed.
                 and_then (purgeEmptyContainers changed) (\<lambda>changed. give (Some changed))))))"

section \<open>What a removal takes away\<close>

abbreviation row_text :: "table_row \<Rightarrow> string" where "row_text r \<equiv> col_text ''id'' r"

definition is_cont :: "table_row \<Rightarrow> bool" where
  "is_cont r \<longleftrightarrow> IS_CDS_CONTAINER (word_of_int (row_type r) :: 32 word)"

fun level :: "table_row list \<Rightarrow> id_buffer \<Rightarrow> nat \<Rightarrow> string set" where
  \<comment> \<open>the containers that many levels below the given ones\<close>
  "level T C 0 = set C"
| "level T C (Suc n) = {row_text r | r. r \<in> set T \<and> is_cont r \<and> (\<exists>p \<in> level T C n. r ''parent_id'' = Some p)}"

definition below :: "table_row list \<Rightarrow> id_buffer \<Rightarrow> string set" where
  "below T C = (\<Union>n. level T C n)"

definition item_ids :: "table_row list \<Rightarrow> id_buffer \<Rightarrow> id_buffer \<Rightarrow> string set" where
  \<comment> \<open>the items given, and those in a container that goes\<close>
  "item_ids T I C = set I \<union> {row_text r | r. r \<in> set T \<and> \<not> is_cont r \<and> (\<exists>p \<in> below T C. r ''parent_id'' = Some p)}"

definition doomed :: "table_row list \<Rightarrow> id_buffer \<Rightarrow> id_buffer \<Rightarrow> table_row \<Rightarrow> bool" where
  "doomed T I C r \<longleftrightarrow> row_text r \<in> set C \<or> (\<exists>p \<in> below T C. r ''parent_id'' = Some p)
     \<or> (\<exists>i \<in> item_ids T I C. r ''ref_id'' = Some i)"

definition tidy :: "table_row list \<Rightarrow> bool" where
  \<comment> \<open>every row has its own ID, and references lead from items to objects that are not references\<close>
  "tidy T \<longleftrightarrow> (\<forall>r \<in> set T. r ''id'' \<noteq> None) \<and> inj_on row_text (set T)
     \<and> (\<forall>r \<in> set T. r ''ref_id'' \<noteq> None \<longrightarrow> \<not> is_cont r)
     \<and> (\<forall>r \<in> set T. \<forall>q \<in> set T. r ''ref_id'' = Some (row_text q) \<longrightarrow> q ''ref_id'' = None)"

lemma in_ids_iff: "in_ids c ids r \<longleftrightarrow> (\<exists>v \<in> set ids. r c = Some v)"
  by (auto simp: in_ids_def split: option.split)

lemma in_ids_text: "r ''id'' \<noteq> None \<Longrightarrow> in_ids ''id'' ids r \<longleftrightarrow> row_text r \<in> set ids"
  by (auto simp: in_ids_def col_text_def)

lemma child_actions_items:
  "child_actions False rows (ri, rc, rp, rm) =
     (ri @ map row_text (filter (\<lambda>r. \<not> is_cont r) rows), rc @ map row_text (filter is_cont rows), rp,
      rm @ map row_text rows)"
proof (induction rows arbitrary: ri rc rp rm)
  case (Cons r rows)
  then show ?case by (simp add: child_actions_def is_cont_def)
qed (simp add: child_actions_def)

lemma level_below: "level T C n \<subseteq> below T C"
  by (auto simp: below_def)

lemma below_step: "p \<in> below T C \<Longrightarrow> r \<in> set T \<Longrightarrow> is_cont r \<Longrightarrow> r ''parent_id'' = Some p \<Longrightarrow> row_text r \<in> below T C"
proof -
  assume p: "p \<in> below T C" and r: "r \<in> set T" "is_cont r" "r ''parent_id'' = Some p"
  obtain n where "p \<in> level T C n" using p by (auto simp: below_def)
  then have "row_text r \<in> level T C (Suc n)" using r by auto
  then show ?thesis using level_below by blast
qed

lemma below_subset:
  assumes "set C \<subseteq> P" "\<And>r p. r \<in> set T \<Longrightarrow> is_cont r \<Longrightarrow> r ''parent_id'' = Some p \<Longrightarrow> p \<in> P \<Longrightarrow> row_text r \<in> P"
  shows "below T C \<subseteq> P"
proof -
  have "level T C n \<subseteq> P" for n
    using assms by (induction n) auto
  then show ?thesis by (auto simp: below_def)
qed

definition removal_inv :: "table_row list \<Rightarrow> id_buffer \<Rightarrow> id_buffer \<Rightarrow> string set \<Rightarrow> string set
    \<Rightarrow> id_buffer \<Rightarrow> id_buffer \<Rightarrow> bool" where
  \<comment> \<open>\<open>R\<close>: removed or about to be; \<open>P\<close>: the containers whose children have been seen\<close>
  "removal_inv T I C R P ri rc \<longleftrightarrow>
     (\<forall>r \<in> set T. row_text r \<in> R \<longrightarrow> doomed T I C r)
     \<and> set C \<subseteq> R \<and> set C \<subseteq> P \<union> set rc \<and> P \<subseteq> below T C \<and> set rc \<subseteq> below T C \<and> set ri \<subseteq> item_ids T I C
     \<and> (\<forall>r \<in> set T. \<forall>p \<in> P. r ''parent_id'' = Some p \<longrightarrow> row_text r \<in> R
          \<and> (is_cont r \<longrightarrow> row_text r \<in> P \<union> set rc)
          \<and> (\<not> is_cont r \<longrightarrow> row_text r \<in> set ri \<or> (\<forall>q \<in> set T. q ''ref_id'' = Some (row_text r) \<longrightarrow> row_text q \<in> R)))
     \<and> (\<forall>i \<in> set I. i \<in> set ri \<or> (\<forall>q \<in> set T. q ''ref_id'' = Some i \<longrightarrow> row_text q \<in> R))
     \<and> (\<forall>r \<in> set T. row_text r \<in> R \<longrightarrow> row_text r \<in> set C \<or> (\<exists>p \<in> P. r ''parent_id'' = Some p) \<or> r ''ref_id'' \<noteq> None)"

lemma removal_inv_end:
  assumes "removal_inv T I C R P [] []" "r \<in> set T"
  shows "row_text r \<in> R \<longleftrightarrow> doomed T I C r"
proof
  assume "doomed T I C r"
  have "below T C \<subseteq> P"
    by (rule below_subset) (use assms(1) in \<open>auto simp: removal_inv_def\<close>)
  then have P: "below T C = P" using assms(1) by (auto simp: removal_inv_def)
  consider "row_text r \<in> set C" | p where "p \<in> P" "r ''parent_id'' = Some p" | i where "i \<in> item_ids T I C" "r ''ref_id'' = Some i"
    using \<open>doomed T I C r\<close> P by (auto simp: doomed_def)
  then show "row_text r \<in> R"
  proof cases
    case 3
    then show ?thesis using assms P by (auto simp: removal_inv_def item_ids_def)
  qed (use assms in \<open>auto simp: removal_inv_def\<close>)
qed (use assms in \<open>auto simp: removal_inv_def\<close>)

lemma removal_inv_step:
  assumes inv: "removal_inv T I C R P ri rc" and tidy: "tidy T" and conts: "\<forall>r \<in> set T. row_text r \<in> set C \<longrightarrow> is_cont r"
    and cur: "set Tc \<subseteq> set T" "\<forall>r \<in> set T. r \<notin> set Tc \<longrightarrow> row_text r \<in> R"
  defines "refs \<equiv> filter (in_ids ''ref_id'' ri) Tc" and "kids \<equiv> filter (in_ids ''parent_id'' rc) Tc"
  shows "removal_inv T I C (R \<union> row_text ` set refs \<union> row_text ` set kids) (P \<union> set rc)
    (map row_text (filter (\<lambda>r. \<not> is_cont r) kids)) (map row_text (filter is_cont kids))"
proof -
  let ?R = "R \<union> row_text ` set refs \<union> row_text ` set kids" and ?P = "P \<union> set rc"
  let ?ri = "map row_text (filter (\<lambda>r. \<not> is_cont r) kids)" and ?rc = "map row_text (filter is_cont kids)"
  have refs: "r \<in> set refs \<longleftrightarrow> r \<in> set Tc \<and> (\<exists>i \<in> set ri. r ''ref_id'' = Some i)" for r
    by (auto simp: refs_def in_ids_iff)
  have kids: "r \<in> set kids \<longleftrightarrow> r \<in> set Tc \<and> (\<exists>p \<in> set rc. r ''parent_id'' = Some p)" for r
    by (auto simp: kids_def in_ids_iff)
  have Tc: "r \<in> set T" if "r \<in> set Tc" for r using that cur(1) by blast
  have sub: "set refs \<subseteq> set T" "set kids \<subseteq> set T" using Tc refs kids by blast+
  have img: "row_text r \<in> row_text ` X \<longleftrightarrow> r \<in> X" if "r \<in> set T" "X \<subseteq> set T" for r X
    using inj_on_image_mem_iff [of row_text "set T" r X] tidy that by (simp add: tidy_def)
  have newR: "row_text r \<in> ?R \<longleftrightarrow> row_text r \<in> R \<or> r \<in> set refs \<or> r \<in> set kids" if r: "r \<in> set T" for r
    using img [OF r sub(1)] img [OF r sub(2)] by blast
  have rc: "row_text r \<in> set ?rc \<longleftrightarrow> r \<in> set kids \<and> is_cont r" if r: "r \<in> set T" for r
    using img [OF r, of "set (filter is_cont kids)"] sub(2) by auto
  have ri: "row_text r \<in> set ?ri \<longleftrightarrow> r \<in> set kids \<and> \<not> is_cont r" if r: "r \<in> set T" for r
    using img [OF r, of "set (filter (\<lambda>r. \<not> is_cont r) kids)"] sub(2) by auto
  note I = inv [unfolded removal_inv_def]
  note doom = I [THEN conjunct1]
  note cR = I [THEN conjunct2, THEN conjunct1]
  note cP = I [THEN conjunct2, THEN conjunct2, THEN conjunct1]
  note Pb = I [THEN conjunct2, THEN conjunct2, THEN conjunct2, THEN conjunct1]
  note rcb = I [THEN conjunct2, THEN conjunct2, THEN conjunct2, THEN conjunct2, THEN conjunct1]
  note rib = I [THEN conjunct2, THEN conjunct2, THEN conjunct2, THEN conjunct2, THEN conjunct2, THEN conjunct1]
  note kid = I [THEN conjunct2, THEN conjunct2, THEN conjunct2, THEN conjunct2, THEN conjunct2, THEN conjunct2, THEN conjunct1]
  note itm = I [THEN conjunct2, THEN conjunct2, THEN conjunct2, THEN conjunct2, THEN conjunct2, THEN conjunct2, THEN conjunct2, THEN conjunct1]
  note why = I [THEN conjunct2, THEN conjunct2, THEN conjunct2, THEN conjunct2, THEN conjunct2, THEN conjunct2, THEN conjunct2, THEN conjunct2]
  have gone: "row_text r \<in> R" if "r \<in> set T" "r \<notin> set Tc" for r using that cur(2) by blast
  have seen: "\<forall>q \<in> set T. q ''ref_id'' = Some i \<longrightarrow> row_text q \<in> ?R" if "i \<in> set ri" for i
  proof (intro ballI impI)
    fix q assume q: "q \<in> set T" "q ''ref_id'' = Some i"
    show "row_text q \<in> ?R"
    proof (cases "q \<in> set Tc")
      case True
      then have "q \<in> set refs" using refs q that by auto
      then show ?thesis using newR [OF q(1)] by blast
    qed (use gone [OF q(1)] in blast)
  qed
  have 1: "\<forall>r \<in> set T. row_text r \<in> ?R \<longrightarrow> doomed T I C r"
  proof (intro ballI impI)
    fix r assume r: "r \<in> set T" "row_text r \<in> ?R"
    then consider "row_text r \<in> R" | "r \<in> set refs" | "r \<in> set kids" using newR [OF r(1)] by blast
    then show "doomed T I C r"
    proof cases
      case 1
      then show ?thesis using doom r(1) by blast
    next
      case 2
      then show ?thesis using refs rib unfolding doomed_def by blast
    next
      case 3
      then show ?thesis using kids rcb unfolding doomed_def by blast
    qed
  qed
  have 2: "set C \<subseteq> ?R \<and> set C \<subseteq> ?P \<union> set ?rc \<and> ?P \<subseteq> below T C" using cR cP Pb rcb by blast
  have 3: "set ?rc \<subseteq> below T C"
  proof
    fix c assume "c \<in> set ?rc"
    then obtain r where r: "r \<in> set kids" "is_cont r" "c = row_text r" by auto
    obtain p where p: "p \<in> set rc" "r ''parent_id'' = Some p" using r kids by blast
    have "p \<in> below T C" using rcb p(1) by blast
    then show "c \<in> below T C" using below_step [of p T C r] r p Tc kids by blast
  qed
  have 4: "set ?ri \<subseteq> item_ids T I C"
  proof
    fix c assume "c \<in> set ?ri"
    then obtain r where r: "r \<in> set kids" "\<not> is_cont r" "c = row_text r" by auto
    obtain p where p: "p \<in> set rc" "r ''parent_id'' = Some p" using r kids by blast
    have "p \<in> below T C" using rcb p(1) by blast
    moreover have "r \<in> set T" using r kids Tc by blast
    ultimately show "c \<in> item_ids T I C" using r p unfolding item_ids_def by blast
  qed
  have 5: "row_text r \<in> ?R \<and> (is_cont r \<longrightarrow> row_text r \<in> ?P \<union> set ?rc)
      \<and> (\<not> is_cont r \<longrightarrow> row_text r \<in> set ?ri \<or> (\<forall>q \<in> set T. q ''ref_id'' = Some (row_text r) \<longrightarrow> row_text q \<in> ?R))"
    if r: "r \<in> set T" "p \<in> ?P" "r ''parent_id'' = Some p" for r p
  proof (cases "p \<in> P")
    case True
    then have o: "row_text r \<in> R" "is_cont r \<longrightarrow> row_text r \<in> ?P"
      "\<not> is_cont r \<longrightarrow> row_text r \<in> set ri \<or> (\<forall>q \<in> set T. q ''ref_id'' = Some (row_text r) \<longrightarrow> row_text q \<in> R)"
      using kid r(1,3) True by blast+
    have "\<forall>q \<in> set T. q ''ref_id'' = Some (row_text r) \<longrightarrow> row_text q \<in> ?R" if "\<not> is_cont r"
      using o(3) that seen by blast
    then show ?thesis using o(1,2) by blast
  next
    case False
    then have prc: "p \<in> set rc" using r(2) by simp
    show ?thesis
    proof (cases "r \<in> set Tc")
      case True
      then have "r \<in> set kids" using kids prc r(3) by blast
      then show ?thesis using newR [OF r(1)] rc [OF r(1)] ri [OF r(1)] by blast
    next
      case notin: False
      then have R: "row_text r \<in> R" using gone r(1) by blast
      then consider "row_text r \<in> set C" | p' where "p' \<in> P" "r ''parent_id'' = Some p'" | "r ''ref_id'' \<noteq> None"
        using why r(1) by blast
      then show ?thesis
      proof cases
        case 1
        then have "is_cont r" "row_text r \<in> ?P" using conts r(1) cP by blast+
        then show ?thesis using R by blast
      next
        case 2
        then show ?thesis using False r(3) by simp
      next
        case 3
        then have "\<not> is_cont r" using tidy r(1) by (auto simp: tidy_def)
        moreover have "\<not> q ''ref_id'' = Some (row_text r)" if "q \<in> set T" for q
          using tidy [unfolded tidy_def, THEN conjunct2, THEN conjunct2, THEN conjunct2, rule_format, OF that r(1)] 3 by auto
        ultimately show ?thesis using R by blast
      qed
    qed
  qed
  have 6: "\<forall>i \<in> set I. i \<in> set ?ri \<or> (\<forall>q \<in> set T. q ''ref_id'' = Some i \<longrightarrow> row_text q \<in> ?R)"
    using itm seen by blast
  have 7: "row_text r \<in> set C \<or> (\<exists>p \<in> ?P. r ''parent_id'' = Some p) \<or> r ''ref_id'' \<noteq> None"
    if r: "r \<in> set T" "row_text r \<in> ?R" for r
  proof -
    consider "row_text r \<in> R" | "r \<in> set refs" | "r \<in> set kids" using newR [OF r(1)] r(2) by blast
    then show ?thesis
    proof cases
      case 1
      then show ?thesis using why r(1) by blast
    next
      case 2
      then show ?thesis using refs by auto
    next
      case 3
      then show ?thesis using kids by blast
    qed
  qed
  have 8: "\<forall>r \<in> set T. \<forall>p \<in> ?P. r ''parent_id'' = Some p \<longrightarrow> row_text r \<in> ?R
          \<and> (is_cont r \<longrightarrow> row_text r \<in> ?P \<union> set ?rc)
          \<and> (\<not> is_cont r \<longrightarrow> row_text r \<in> set ?ri \<or> (\<forall>q \<in> set T. q ''ref_id'' = Some (row_text r) \<longrightarrow> row_text q \<in> ?R))"
    by (intro ballI impI) (rule 5)
  have 9: "\<forall>r \<in> set T. row_text r \<in> ?R \<longrightarrow> row_text r \<in> set C \<or> (\<exists>p \<in> ?P. r ''parent_id'' = Some p) \<or> r ''ref_id'' \<noteq> None"
    by (intro ballI impI) (rule 7)
  show ?thesis unfolding removal_inv_def
    by (intro conjI 1 2 [THEN conjunct1] 2 [THEN conjunct2, THEN conjunct1] 2 [THEN conjunct2, THEN conjunct2] 3 4 8 6 9)
qed


lemma level_empty: "level T C m = {} \<Longrightarrow> m \<le> k \<Longrightarrow> level T C k = {}"
  by (induction k) (auto simp: le_Suc_eq)

lemma removeRows_rows: "st_rows (removeRows ids st) = filter (\<lambda>r. \<not> in_ids ''id'' ids r) (st_rows st)"
  by (simp add: removeRows_def Let_def)

lemma filter_ids:
  assumes "tidy T" "Tc = filter (\<lambda>r. row_text r \<notin> X) T"
  shows "filter (\<lambda>r. \<not> in_ids ''id'' ids r) Tc = filter (\<lambda>r. row_text r \<notin> X \<union> set ids) T"
  unfolding assms(2) filter_filter
  by (rule filter_cong) (use assms(1) in \<open>auto simp: tidy_def in_ids_text\<close>)

lemma recursive_loop_removes:
  assumes tidy: "tidy T" and conts: "\<forall>r \<in> set T. row_text r \<in> set C \<longrightarrow> is_cont r"
    and top: "level T C m = {}" "m \<le> MAX_REMOVE_RECURSION"
  shows "removal_inv T I C (X \<union> set rm) P ri rc \<Longrightarrow> st_rows st = filter (\<lambda>r. row_text r \<notin> X) T
    \<Longrightarrow> set rc \<subseteq> level T C k \<Longrightarrow> ri \<noteq> [] \<longrightarrow> k \<le> m \<Longrightarrow>
    \<exists>out st'. recursive_loop False k ri rc [] rm changed st = (Inr out, st')
      \<and> st_rows st' = filter (\<lambda>r. \<not> doomed T I C r) T"
proof (induction "m + 2 - k" arbitrary: k ri rc rm X P changed st rule: less_induct)
  case less
  note inv = less.prems(1) and rows = less.prems(2)
  show ?case
  proof (cases "ri = [] \<and> rc = []")
    case True
    have run: "recursive_loop False k ri rc [] rm changed st = (Inr changed, if rm \<noteq> [] then removeRows rm st else st)"
      using True by (subst recursive_loop.simps) simp
    have "st_rows (if rm \<noteq> [] then removeRows rm st else st) = filter (\<lambda>r. row_text r \<notin> X \<union> set rm) T"
      using filter_ids [OF tidy rows, of rm] rows by (simp add: removeRows_rows)
    also have "\<dots> = filter (\<lambda>r. \<not> doomed T I C r) T"
      using removal_inv_end [of T I C "X \<union> set rm" P] inv True by (intro filter_cong) auto
    finally show ?thesis using run by blast
  next
    case False
    have km: "k \<le> m"
    proof (rule ccontr)
      assume "\<not> k \<le> m"
      then have "rc = []" "ri = []" using level_empty [OF top(1), of k] less.prems(3,4) by auto
      then show False using False by simp
    qed
    define refs where "refs = filter (in_ids ''ref_id'' ri) (st_rows st)"
    define kids where "kids = filter (in_ids ''parent_id'' rc) (st_rows st)"
    define pairs where "pairs = remdups (map (\<lambda>r. (row_text r, col_text ''parent_id'' r)) refs)"
    define rm' where "rm' = (rm @ map fst pairs) @ map row_text kids"
    define ri' where "ri' = map row_text (filter (\<lambda>r. \<not> is_cont r) kids)"
    define rc' where "rc' = map row_text (filter is_cont kids)"
    define big where "big = (buffer_length rm' > MAX_REMOVE_SIZE)"
    define st2 where "st2 = (if big then removeRows rm' st else st)"
    define rm2 where "rm2 = (if big then [] else rm')"
    define X2 where "X2 = (if big then X \<union> set rm' else X)"
    define ch where "ch = changed\<lparr>cc_upnp := cc_upnp changed @ remdups (map (col_text ''parent_id'') (filter (in_ids ''id'' []) (st_rows st)))\<rparr>"
    have step: "recursive_loop False k ri rc [] rm changed st
      = recursive_loop False (k + 1) ri' rc' [] rm2 (ch\<lparr>cc_upnp := cc_upnp ch @ map snd pairs\<rparr>) st2"
    proof -
      have e: "(ri = [] \<and> ([] :: id_buffer) = [] \<and> rc = []) = False" "(k > MAX_REMOVE_RECURSION) = False"
        using False km top(2) by simp_all
      show ?thesis
        by (subst recursive_loop.simps)
          (simp only: e if_False Let_def child_actions_items prod.case append_Nil append_Nil2
            refs_def kids_def pairs_def rm'_def ri'_def rc'_def big_def st2_def rm2_def ch_def)
    qed
    have cur: "set (st_rows st) \<subseteq> set T" "\<forall>r \<in> set T. r \<notin> set (st_rows st) \<longrightarrow> row_text r \<in> X \<union> set rm"
      using rows by auto
    have inv': "removal_inv T I C (X \<union> set rm \<union> row_text ` set refs \<union> row_text ` set kids) (P \<union> set rc) ri' rc'"
      using removal_inv_step [OF inv tidy conts cur] by (simp add: refs_def kids_def ri'_def rc'_def)
    have "set (map fst pairs) = row_text ` set refs" by (auto simp: pairs_def image_iff)
    then have R: "X2 \<union> set rm2 = X \<union> set rm \<union> row_text ` set refs \<union> row_text ` set kids"
      by (auto simp: X2_def rm2_def rm'_def)
    have rows2: "st_rows st2 = filter (\<lambda>r. row_text r \<notin> X2) T"
      using filter_ids [OF tidy rows, of rm'] rows by (simp add: st2_def X2_def removeRows_rows)
    have lev: "set rc' \<subseteq> level T C (k + 1)"
      using cur(1) less.prems(3) by (auto simp: rc'_def kids_def in_ids_iff)
    have "ri' \<noteq> [] \<longrightarrow> k + 1 \<le> m"
    proof
      assume "ri' \<noteq> []"
      then have "rc \<noteq> []" by (auto simp: ri'_def kids_def in_ids_iff)
      then have "level T C k \<noteq> {}" using less.prems(3) by auto
      then have "\<not> m \<le> k" using level_empty [OF top(1)] by blast
      then show "k + 1 \<le> m" by simp
    qed
    then show ?thesis
      unfolding step using km less.hyps [of "k + 1" X2 rm2 "P \<union> set rc" ri' rc' st2, unfolded R] inv' rows2 lev by auto
  qed
qed

lemma removes_containers:
  assumes "tidy (st_rows st)" "\<forall>r \<in> set (st_rows st). row_text r \<in> set C \<longrightarrow> is_cont r" "C \<noteq> []"
    and "level (st_rows st) C m = {}" "m \<le> MAX_REMOVE_RECURSION"
  shows "\<exists>out st'. recursiveRemove I C False st = (Inr out, st')
    \<and> st_rows st' = filter (\<lambda>r. \<not> doomed (st_rows st) I C r) (st_rows st)"
proof -
  have inv: "removal_inv (st_rows st) I C ({} \<union> set C) {} I C"
    using level_below [of "st_rows st" C 0] by (auto simp: removal_inv_def doomed_def item_ids_def)
  show ?thesis
    using recursive_loop_removes [OF assms(1,2,4,5) inv, of st 0] assms(3)
    by (auto simp: recursiveRemove_def Let_def)
qed

lemma in_ids_Nil [simp]: "in_ids c [] r = False"
  by (simp add: in_ids_def split: option.split)

lemma removes_items:
  assumes "I \<noteq> []" "(\<forall>r \<in> set (st_rows st). r ''id'' \<noteq> None) \<and> inj_on row_text (set (st_rows st))"
  shows "\<exists>out st'. recursiveRemove I [] False st = (Inr out, st')
    \<and> st_rows st' = filter (\<lambda>r. \<not> (row_text r \<in> set I \<or> in_ids ''ref_id'' I r)) (st_rows st)"
proof -
  let ?T = "st_rows st"
  define refs where "refs = filter (in_ids ''ref_id'' I) ?T"
  define pairs where "pairs = remdups (map (\<lambda>r. (row_text r, col_text ''parent_id'' r)) refs)"
  define rm where "rm = I @ map fst pairs"
  define big where "big = (buffer_length rm > MAX_REMOVE_SIZE)"
  define st2 where "st2 = (if big then removeRows rm st else st)"
  define rm2 where "rm2 = (if big then [] else rm)"
  have one: "\<exists>ch. recursiveRemove I [] False st = recursive_loop False 1 [] [] [] rm2 ch st2"
    unfolding recursiveRemove_def Let_def using assms(1)
    by (subst recursive_loop.simps)
      (simp add: Let_def child_actions_items refs_def pairs_def rm_def big_def st2_def rm2_def, blast)
  have two: "recursive_loop False 1 [] [] [] rm2 ch st2 = (Inr ch, if rm2 \<noteq> [] then removeRows rm2 st2 else st2)" for ch
    by (subst recursive_loop.simps) simp
  have "rm \<noteq> []" using assms(1) by (simp add: rm_def)
  then have fin: "(if rm2 \<noteq> [] then removeRows rm2 st2 else st2) = removeRows rm st"
    by (simp add: rm2_def st2_def)
  have "set (map fst pairs) = row_text ` set refs" by (auto simp: pairs_def image_iff)
  then have mem: "row_text r \<in> set rm \<longleftrightarrow> row_text r \<in> set I \<or> (\<exists>q \<in> set refs. row_text q = row_text r)" for r
    by (auto simp: rm_def image_iff) metis+
  have img: "(\<exists>q \<in> set refs. row_text q = row_text r) \<longleftrightarrow> in_ids ''ref_id'' I r" if r: "r \<in> set ?T" for r
  proof
    assume "\<exists>q \<in> set refs. row_text q = row_text r"
    then obtain q where q: "q \<in> set ?T" "in_ids ''ref_id'' I q" "row_text q = row_text r" by (auto simp: refs_def)
    then have "q = r" using assms(2) r by (auto simp: tidy_def inj_on_def)
    then show "in_ids ''ref_id'' I r" using q(2) by simp
  qed (use r in \<open>auto simp: refs_def\<close>)
  have "st_rows (removeRows rm st) = filter (\<lambda>r. \<not> (row_text r \<in> set I \<or> in_ids ''ref_id'' I r)) ?T"
    unfolding removeRows_rows
    by (rule filter_cong) (use assms(2) mem img in \<open>auto simp: tidy_def in_ids_text\<close>)
  then show ?thesis using one two fin by auto
qed

text \<open>
  With items and containers in one call the items themselves stay: the query for
  the parents of the containers has emptied the buffer they were in.
\<close>

lemma items_left_over:
  assumes "tidy (st_rows st)" "\<forall>r \<in> set (st_rows st). row_text r \<in> set C \<longrightarrow> is_cont r" "C \<noteq> []"
    and "level (st_rows st) C m = {}" "m \<le> MAX_REMOVE_RECURSION"
    and "r \<in> set (st_rows st)" "row_text r \<in> set I" "row_text r \<notin> set C"
    and "\<forall>p \<in> below (st_rows st) C. r ''parent_id'' \<noteq> Some p" "r ''ref_id'' = None"
  shows "\<exists>out st'. recursiveRemove I C False st = (Inr out, st') \<and> r \<in> set (st_rows st')"
  using removes_containers [OF assms(1-5), of I] assms(6-10) by (auto simp: doomed_def)

text \<open>
  A container that refers to a removed item, as an album does to its first track,
  goes with it, and what it holds is left without a parent.
\<close>

lemma album_orphans:
  assumes ids: "(\<forall>r \<in> set (st_rows st). r ''id'' \<noteq> None) \<and> inj_on row_text (set (st_rows st))"
    and c: "c \<in> set (st_rows st)" "c ''ref_id'' = Some i"
    and r: "r \<in> set (st_rows st)" "r ''parent_id'' = Some (row_text c)" "row_text r \<noteq> i" "r ''ref_id'' \<noteq> Some i"
  shows "\<exists>out st'. recursiveRemove [i] [] False st = (Inr out, st')
    \<and> c \<notin> set (st_rows st') \<and> r \<in> set (st_rows st')"
  using removes_items [of "[i]", OF _ ids] c r by (auto simp: in_ids_iff)

lemma persistent_scan_left:
  assumes "a \<in> set (st_autoscans st)" "remapBool (a ''persistent'')" "a ''id'' \<noteq> None" "inj_on row_text (set (st_autoscans st))"
  shows "a \<in> set (st_autoscans (removeRows ids st))"
proof -
  have "\<not> in_ids ''id'' (delete_scans ids st) a"
  proof
    assume "in_ids ''id'' (delete_scans ids st) a"
    then obtain b where b: "b \<in> set (st_autoscans st)" "\<not> remapBool (b ''persistent'')" "row_text b = row_text a"
      using assms(3) by (auto simp: in_ids_text delete_scans_def)
    then have "b = a" using assms(1,4) by (auto simp: inj_on_def)
    then show False using b(2) assms(2) by simp
  qed
  then show ?thesis using assms(1) by (simp add: removeRows_def Let_def)
qed

end
