(* ===== verification/Sql_Add.thy ===== *)
theory Sql_Add
  imports Sql_Removal
begin

text \<open>
  Adding and updating objects (src/storage/sql_storage.cc): \<open>checkRefID\<close>,
  \<open>_addUpdateObject\<close>, \<open>addObject\<close>, \<open>updateObject\<close>, \<open>incrementUpdateIDs\<close>,
  \<open>getFsRootName\<close>, \<open>clearFlagInDB\<close> and the internal settings, on the store of Sql_Store.
  The columns are those of Sql_Objects.

  Shown: every object that is read from a row is well typed; an object that was added is
  loaded again, from the row when there is no cache and from the cache while its statement
  still waits in the insert buffer.
\<close>

unbundle bit_operations_syntax

section \<open>References\<close>

definition store_checkRefID :: "cds_object \<Rightarrow> (store, cds_object option) action" where
  "store_checkRefID ob =
     (if \<not> o_virt ob then throw (Throw ''checkRefID called for a non-virtual object'')
      else if \<not> string_ok (o_location ob) then throw (Throw ''tried to check refID without a location set'')
      else if o_refID ob > 0 then (\<lambda>st.
        case loadObject (o_refID ob) st of
          (Inl Abort, st) \<Rightarrow> (Inl Abort, st)
        | (Inl (Throw _), st) \<Rightarrow> (Inl (Throw ''illegal refID was set''), st)
        | (Inr refObj, st) \<Rightarrow>
            if z_eq (o_location refObj) (o_location ob) then (Inr (Some refObj), st)
            else findObjectByPath (o_location ob) st)
      else findObjectByPath (o_location ob))"

definition store_find_reference :: "cds_object \<Rightarrow> (store, cds_object option \<times> bool \<times> bool) action" where
  \<comment> \<open>\<open>refObj\<close>, \<open>hasReference\<close>, \<open>playlistRef\<close>; \<open>loadObject\<close> never returns null\<close>
  "store_find_reference ob =
     (let objectType = o_objectType ob; playlistRef = (getFlag ob OBJECT_FLAG_PLAYLIST_REF \<noteq> 0)
      in if playlistRef then
           (if IS_CDS_PURE_ITEM objectType then
              throw (Throw ''tried to add pure item with PLAYLIST_REF flag set'')
            else if o_refID ob \<le> 0 then throw (Throw ''PLAYLIST_REF flag set but refId is <=0'')
            else and_then (loadObject (o_refID ob)) (\<lambda>refObj. give (Some refObj, False, True)))
         else if o_virt ob \<and> IS_CDS_PURE_ITEM objectType then
           and_then (store_checkRefID ob) (\<lambda>refObj.
             if refObj = None then
               throw (Throw ''tried to add or update a virtual object with illegal reference id and an illegal location'')
             else give (refObj, True, False))
         else if o_refID ob > 0 then
           (if getFlag ob OBJECT_FLAG_ONLINE_SERVICE \<noteq> 0 then
              and_then (loadObject (o_refID ob)) (\<lambda>refObj. give (Some refObj, True, False))
            else if IS_CDS_CONTAINER objectType then give (None, False, False)
            else throw (Throw ''refId set, but it makes no sense''))
         else give (None, False, False))"

definition needs_path :: "cds_object \<Rightarrow> bool \<Rightarrow> bool \<Rightarrow> bool" where
  \<comment> \<open>the object is a file whose directory has to exist\<close>
  "needs_path ob hasReference isUpdate \<longleftrightarrow>
     (IS_CDS_CONTAINER (o_objectType ob) \<longrightarrow> isUpdate \<and> o_virt ob)
     \<and> IS_CDS_ITEM (o_objectType ob) \<and> IS_CDS_PURE_ITEM (o_objectType ob)
     \<and> \<not> hasReference \<and> string_ok (o_location ob)"

definition has_duplicate :: "store \<Rightarrow> int \<Rightarrow> int \<Rightarrow> zstring \<Rightarrow> bool" where
  \<comment> \<open>the query sees the table only, not the insert buffer\<close>
  "has_duplicate st parentID refID title \<longleftrightarrow>
     (\<exists>r \<in> set (st_rows st). col_is r ''parent_id'' (sql_int parentID) \<and> col_is r ''ref_id'' (sql_int refID)
        \<and> col_is r ''dc_title'' (sql_quote title))"

definition store_addUpdateObject ::
  "(zstring \<Rightarrow> zstring) \<Rightarrow> cds_object \<Rightarrow> bool
    \<Rightarrow> (store, (cds_object \<times> dictionary \<times> dictionary option) option \<times> int) action" where
  \<comment> \<open>with \<open>*changedContainer\<close>, which is \<open>INVALID_OBJECT_ID\<close> before the call\<close>
  "store_addUpdateObject f2i ob isUpdate =
     and_then (store_find_reference ob) (\<lambda>(refObj, hasReference, playlistRef).
     and_then
       (if needs_path ob hasReference isUpdate then
          (case split_path (o_location ob) of
             Inl e \<Rightarrow> throw e
           | Inr pathAr \<Rightarrow> ensurePathExistence f2i (Some (pathAr ! 0)))
        else give (INVALID_OBJECT_ID, INVALID_OBJECT_ID)) (\<lambda>(parentID, changedContainer) st.
     and_then (of_result (columns_of (\<lambda>_. Inr parentID) (has_duplicate st) ob isUpdate
                (refObj, hasReference, playlistRef))) (\<lambda>data.
       give (data, changedContainer)) st))"

section \<open>Adding\<close>

definition TQ :: "string \<Rightarrow> string" where
  "TQ s = CHR 0x22 # s @ [CHR 0x22]"

definition column_text :: "zstring \<Rightarrow> string" where
  "column_text z = (case z of None \<Rightarrow> [] | Some s \<Rightarrow> s)"

definition insert_statement :: "string \<Rightarrow> dictionary \<Rightarrow> int option \<Rightarrow> int \<Rightarrow> string" where
  \<comment> \<open>the third argument is the ID that was given out before, the fourth the one given out now\<close>
  "insert_statement tableName d lastInsertID newID =
     (let fields = join (CHR '','') (map (\<lambda>(k, v). TQ (column_text k)) d);
          vals = join (CHR '','') (map (\<lambda>(k, v).
            case lastInsertID of
              Some i \<Rightarrow> if z_eq k (Some ''id'') \<and> z_toInt v = INVALID_OBJECT_ID then show_int i else column_text v
            | None \<Rightarrow> column_text v) d)
      in ''INSERT INTO '' @ TQ tableName @ '' ('' @ fields
         @ (if lastInsertID = None then '','' @ TQ ''id'' else [])
         @ '') VALUES ('' @ vals
         @ (if lastInsertID = None then '','' @ column_text (sql_int newID) else []) @ '')'')"

definition insert_row :: "string \<Rightarrow> (store \<Rightarrow> store) \<Rightarrow> (store \<Rightarrow> store) \<Rightarrow> (store, unit) action" where
  \<comment> \<open>\<open>exec\<close> or \<open>addToInsertBuffer\<close>: the first function is the effect of the statement, the
      second keeps what is still to be done\<close>
  "insert_row q now later st =
     (if \<not> ss_insertBufferOn (st_sql st) then (Inr (), now (st\<lparr>st_sql := exec_sql (st_sql st) q\<rparr>))
      else case addToInsertBuffer (st_sql st) q of
             Inl e \<Rightarrow> (Inl e, st)
           | Inr ss \<Rightarrow> (Inr (), set_sql ss (later st)))"

definition store_cache_added :: "cds_object \<Rightarrow> (store, unit) action" where
  "store_cache_added ob st =
     (case cache_added (st_sql st) (st_fresh st) ob of
        Inl e \<Rightarrow> (Inl e, st)
      | Inr ss \<Rightarrow> (Inr (), set_sql ss (st\<lparr>st_fresh := st_fresh st + 1\<rparr>)))"

definition add_active :: "int \<Rightarrow> dictionary \<Rightarrow> store \<Rightarrow> store" where
  \<comment> \<open>the row of an active item is read together with its object only, after a flush: it counts
      as inserted at once\<close>
  "add_active i d st =
     st\<lparr>st_active := (st_active st)(i \<mapsto>
       (literal_value (d_get d (Some ''action'')), literal_value (d_get d (Some ''state''))))\<rparr>"

definition insert_object :: "int \<Rightarrow> cds_object \<times> dictionary \<times> dictionary option \<Rightarrow> (store, cds_object \<times> int) action" where
  \<comment> \<open>the statements and the cache\<close>
  "insert_object changedContainer = (\<lambda>(ob, d, active).
     and_then getNextID (\<lambda>lastInsertID.
     let ob = ob\<lparr>o_id := lastInsertID\<rparr>; r = stored_row lastInsertID d
     in and_then (insert_row (insert_statement ''mt_cds_object'' d None lastInsertID)
          (\<lambda>st. st\<lparr>st_rows := st_rows st @ [r]\<rparr>) (\<lambda>st. st\<lparr>st_pending := st_pending st @ [r]\<rparr>)) (\<lambda>_.
        and_then
          (case active of
             None \<Rightarrow> give ()
           | Some a \<Rightarrow>
               insert_row (insert_statement ''mt_cds_active_item'' a (Some lastInsertID) lastInsertID)
                 (add_active lastInsertID a) (add_active lastInsertID a)) (\<lambda>_.
        and_then (store_cache_added ob) (\<lambda>_.
          give (ob, changedContainer))))))"

definition addObject :: "(zstring \<Rightarrow> zstring) \<Rightarrow> cds_object \<Rightarrow> (store, cds_object \<times> int) action" where
  \<comment> \<open>the object with the members that are set, and \<open>*changedContainer\<close>\<close>
  "addObject f2i ob =
     (if o_id ob \<noteq> INVALID_OBJECT_ID then throw (Throw ''tried to add an object with an object ID set'')
      else
        and_then (store_addUpdateObject f2i ob False) (\<lambda>(data, changedContainer).
        case data of
          None \<Rightarrow> give (clearFlag ob OBJECT_FLAG_USE_RESOURCE_REF, changedContainer)
        | Some row \<Rightarrow> insert_object changedContainer row))"

section \<open>The name of the root directory\<close>

definition setFsRootName :: "zstring \<Rightarrow> (store, unit) action" where
  "setFsRootName rootName =
     (if string_ok rootName then change (\<lambda>st. st\<lparr>st_fsRootName := rootName\<rparr>)
      else and_then (loadObject CDS_ID_FS_ROOT) (\<lambda>fsRootObj.
        change (\<lambda>st. st\<lparr>st_fsRootName := o_title fsRootObj\<rparr>)))"

definition getFsRootName :: "(store, zstring) action" where
  "getFsRootName st =
     (if string_ok (st_fsRootName st) then (Inr (st_fsRootName st), st)
      else and_then (setFsRootName None) (\<lambda>_. look st_fsRootName) st)"

section \<open>Updating\<close>

definition update_active :: "int \<Rightarrow> dictionary \<Rightarrow> store \<Rightarrow> store" where
  \<comment> \<open>an UPDATE of a row that is missing changes nothing\<close>
  "update_active i d st =
     st\<lparr>st_active := (st_active st)(i := map_option (\<lambda>_.
       (literal_value (d_get d (Some ''action'')), literal_value (d_get d (Some ''state'')))) (st_active st i))\<rparr>"

definition update_object_row :: "int \<Rightarrow> dictionary \<Rightarrow> store \<Rightarrow> store" where
  "update_object_row i d st = st\<lparr>st_rows := rows_where (with_id i) (updated_row d) (st_rows st)\<rparr>"

definition updateObject :: "(zstring \<Rightarrow> zstring) \<Rightarrow> cds_object \<Rightarrow> (store, cds_object \<times> int) action" where
  "updateObject f2i ob =
     and_then (change flush) (\<lambda>_.
     if o_id ob = CDS_ID_FS_ROOT then
       and_then (setFsRootName (o_title ob)) (\<lambda>_.
       and_then (change (update_object_row (o_id ob)
         (put_col ''upnp_class'' (sql_quote (o_upnpClass ob)) (put_col ''dc_title'' (sql_quote (o_title ob)) [])))) (\<lambda>_.
       and_then (store_addObjectToCache ob) (\<lambda>_. give (ob, INVALID_OBJECT_ID))))
     else if forbidden_id (o_id ob) then
       throw (Throw (''tried to update an object with a forbidden ID ('' @ show_int (o_id ob) @ '')!''))
     else
       and_then (store_addUpdateObject f2i ob True) (\<lambda>(data, changedContainer).
       case data of
         None \<Rightarrow> give (clearFlag ob OBJECT_FLAG_USE_RESOURCE_REF, changedContainer)
       | Some (ob, d, active) \<Rightarrow>
           and_then (change (update_object_row (o_id ob) d)) (\<lambda>_.
           and_then (case active of None \<Rightarrow> give () | Some a \<Rightarrow> change (update_active (o_id ob) a)) (\<lambda>_.
           and_then (store_addObjectToCache ob) (\<lambda>_. give (ob, changedContainer))))))"

section \<open>Update IDs, flags and settings\<close>

definition incrementUpdateIDs :: "int list \<Rightarrow> (store, zstring) action" where
  \<comment> \<open>the IDs in the order of the set; \<open>NULL + 1\<close> is NULL, and an empty value prints as nothing\<close>
  "incrementUpdateIDs ids st =
     (if ids = [] then (Inr None, st)
      else
        (let sel = in_ids ''id'' (map show_int ids);
             st = st\<lparr>st_rows := rows_where sel (\<lambda>r. r(''update_id'' :=
                 map_option (\<lambda>u. show_int (fst (strtol u) + 1)) (r ''update_id''))) (st_rows st)\<rparr>;
             buf = concat (map (\<lambda>r. '','' @ col_text ''id'' r @ '','' @ col_text ''update_id'' r)
                              (filter sel (st_rows st)))
         in (Inr (if buf = [] then None else Some (tl buf)), st)))"

definition clearFlagInDB :: "int \<Rightarrow> (store, unit) action" where
  "clearFlagInDB flag =
     change (\<lambda>st. st\<lparr>st_rows := rows_where (\<lambda>r. case r ''flags'' of None \<Rightarrow> False | Some f \<Rightarrow> fst (strtol f) AND flag \<noteq> 0)
       (\<lambda>r. r(''flags'' := map_option (\<lambda>f. show_int (fst (strtol f) AND NOT flag)) (r ''flags''))) (st_rows st)\<rparr>)"

definition getInternalSetting :: "string \<Rightarrow> (store, zstring) action" where
  "getInternalSetting key =
     look (\<lambda>st. case st_settings st (cstr key) of None \<Rightarrow> None | Some v \<Rightarrow> v)"

definition storeInternalSetting :: "string \<Rightarrow> zstring \<Rightarrow> (store, unit) action" where
  "storeInternalSetting key v =
     change (\<lambda>st. st\<lparr>st_settings := (st_settings st)(cstr key \<mapsto> literal_value (sql_quote v))\<rparr>)"

section \<open>The IDs\<close>

definition ids_unique :: "store \<Rightarrow> bool" where
  \<comment> \<open>every row has an ID of its own, and the next ID is larger than all\<close>
  "ids_unique st \<longleftrightarrow> distinct (map row_id (table st)) \<and> (\<forall>r \<in> set (table st). row_id r \<le> st_lastID st)
     \<and> CDS_ID_FS_ROOT \<le> st_lastID st \<and> st_lastID st < 2 ^ 31"

definition adds :: "table_row \<Rightarrow> store \<Rightarrow> store \<Rightarrow> bool" where
  "adds r st st' \<longleftrightarrow> mset (table st') = mset (table st) + {#r#} \<and> st_lastID st' = st_lastID st
     \<and> st_autoscans st' = st_autoscans st"

lemma ids_unique_cong:
  "table st' = table st \<Longrightarrow> st_lastID st' = st_lastID st \<Longrightarrow> ids_unique st' = ids_unique st"
  by (simp add: ids_unique_def)

lemma grows_to_unique: "grows_to st st' \<Longrightarrow> ids_unique st' = ids_unique st"
  by (intro ids_unique_cong grows_to_table) (auto simp: grows_to_def)

definition kept :: "table_row set \<Rightarrow> store \<Rightarrow> bool" where
  \<comment> \<open>the IDs are in order and the rows of the set are still there, as they were\<close>
  "kept R st \<longleftrightarrow> ids_unique st \<and> R \<subseteq> set (table st)"

lemma kept_none [simp]: "kept {} st = ids_unique st"
  by (simp add: kept_def)

lemma grows_to_kept: "grows_to st st' \<Longrightarrow> kept R st' = kept R st"
  using grows_to_unique [of st st'] grows_to_table [of st st'] by (simp add: kept_def)

lemma keeps_grows: "(\<And>st. grows_to st (snd (m st))) \<Longrightarrow> keeps (kept R) m"
  by (intro keepsI) (blast intro: grows_to_kept [THEN iffD2])

lemma adds_grows: "adds r st st' \<Longrightarrow> grows_to st' st'' \<Longrightarrow> adds r st st''"
  using grows_to_table [of st' st''] by (auto simp: adds_def grows_to_def)

lemma adds_unique:
  assumes "ids_unique st" "adds r (st\<lparr>st_lastID := st_lastID st + 1\<rparr>) st'" "row_id r = st_lastID st + 1"
    "st_lastID st + 1 < 2 ^ 31"
  shows "ids_unique st'"
proof -
  have m: "mset (table st') = mset (r # table st)" using assms(2) by (simp add: adds_def table_def)
  have "row_id r \<notin> set (map row_id (table st))" using assms(1,3) by (auto simp: ids_unique_def)
  then have "distinct (map row_id (r # table st))" using assms(1) by (simp add: ids_unique_def)
  moreover have "mset (map row_id (table st')) = mset (map row_id (r # table st))" using m by simp
  ultimately have "distinct (map row_id (table st'))" by (metis mset_eq_imp_distinct_iff)
  moreover have "set (table st') = insert r (set (table st))" using mset_eq_setD [OF m] by simp
  ultimately show ?thesis using assms by (auto simp: ids_unique_def adds_def)
qed

lemma adds_kept:
  assumes "kept R st" "adds r (st\<lparr>st_lastID := st_lastID st + 1\<rparr>) st'" "row_id r = st_lastID st + 1"
    "st_lastID st + 1 < 2 ^ 31"
  shows "kept R st'"
proof -
  have m: "mset (table st') = mset (r # table st)" using assms(2) by (simp add: adds_def table_def)
  have s: "set (table st') = insert r (set (table st))" using mset_eq_setD [OF m] by simp
  have "ids_unique st" using assms(1) by (simp add: kept_def)
  from adds_unique [OF this assms(2-4)] show ?thesis using assms(1) by (auto simp: kept_def s)
qed

definition new_row :: "int \<Rightarrow> (store, 'a) action \<Rightarrow> bool" where
  \<comment> \<open>the operation adds one row, with that ID, or none\<close>
  "new_row n m \<longleftrightarrow> (\<forall>st. (\<exists>r. row_id r = n \<and> adds r st (snd (m st))) \<or> grows_to st (snd (m st)))"

lemma new_rowI: "row_id r = n \<Longrightarrow> (\<And>st. adds r st (snd (m st)) \<or> grows_to st (snd (m st))) \<Longrightarrow> new_row n m"
  unfolding new_row_def by blast

lemma keeps_getNextID:
  assumes "\<And>n. n < 2 ^ 31 \<Longrightarrow> CDS_ID_FS_ROOT < n \<Longrightarrow> new_row n (f n)"
  shows "keeps (kept R) (and_then getNextID f)"
proof (rule keepsI)
  fix st assume k: "kept R st"
  then have u: "ids_unique st" by (simp add: kept_def)
  let ?n = "st_lastID st + 1"
  show "kept R (snd (and_then getNextID f st))"
  proof (cases "?n < 2 ^ 31")
    case True
    have n: "getNextID st = (Inr ?n, st\<lparr>st_lastID := ?n\<rparr>)"
      using True u by (simp add: getNextID_def ids_unique_def)
    have e: "and_then getNextID f st = f ?n (st\<lparr>st_lastID := ?n\<rparr>)" by (rule and_then_Inr) (rule n)
    have w: "kept R (st\<lparr>st_lastID := ?n\<rparr>)"
    proof -
      have "table (st\<lparr>st_lastID := ?n\<rparr>) = table st" by (simp add: table_def)
      moreover have "\<forall>r \<in> set (table st). row_id r \<le> ?n" using u by (fastforce simp: ids_unique_def)
      ultimately show ?thesis using k True by (simp add: kept_def ids_unique_def)
    qed
    have "CDS_ID_FS_ROOT < ?n" using u by (simp add: ids_unique_def)
    from assms [OF True this] show ?thesis
      unfolding e new_row_def using adds_kept [OF k _ _ True] grows_to_kept [THEN iffD2, OF _ w] by blast
  next
    case False
    then have "getNextID st = (Inl Abort, st)" using u by (simp add: getNextID_def ids_unique_def)
    then show ?thesis using k by (simp add: and_then_Inl)
  qed
qed

lemma keeps_createContainer: "keeps (kept R) (createContainer parentID name path isVirtual cls refID)"
proof -
  have check: "keeps (kept R) (if refID > 0 then and_then (loadObject refID) (\<lambda>_. give ()) else give ())"
    by (intro keeps_intros keeps_grows grows_to_loadObject)
  have new: "adds (container_row n parentID name loc cls refID) st (snd
      (and_then (change (\<lambda>st. st\<lparr>st_rows := st_rows st @ [container_row n parentID name loc cls refID]\<rparr>)) (\<lambda>_.
       and_then (change (\<lambda>st. case ss_cache (st_sql st) of
         None \<Rightarrow> st
       | Some c \<Rightarrow> update_cached n g (check_flushed (set_cache (sc_addChild c parentID) st)))) (\<lambda>_. give n)) st))"
    for n loc st g
  proof -
    let ?s = "st\<lparr>st_rows := st_rows st @ [container_row n parentID name loc cls refID]\<rparr>"
    have "adds (container_row n parentID name loc cls refID) st ?s" by (simp add: adds_def table_def)
    moreover have "grows_to ?s (case ss_cache (st_sql ?s) of None \<Rightarrow> ?s
       | Some c \<Rightarrow> update_cached n g (check_flushed (set_cache (sc_addChild c parentID) ?s)))"
      using grows_to_trans [OF grows_to_trans [OF grows_to_set_cache grows_to_check_flushed] grows_to_update_cached]
      by (simp split: option.split)
    ultimately show ?thesis by (simp add: adds_grows)
  qed
  show ?thesis
    unfolding createContainer_def
    by (rule keeps_and_then [OF check], rule keeps_getNextID, rule new_rowI [OF _ disjI1 [OF new]],
      rule container_row_id) simp_all
qed

lemma keeps_addContainerChain: "keeps (kept R) (addContainerChain path cls refID updateID)"
proof (rule keepsI)
  fix st assume "kept R st"
  then show "kept R (snd (addContainerChain path cls refID updateID st))"
  proof (induction path cls refID updateID st rule: addContainerChain.induct)
    case (1 path cls refID updateID st)
    show ?case
    proof (cases "z_reduce path VIRTUAL_CONTAINER_SEPARATOR")
      case red: (Inr p)
      show ?thesis
      proof (cases "z_eq_char p VIRTUAL_CONTAINER_SEPARATOR
          \<or> find (at_location (addLocationPrefix LOC_VIRT_PREFIX p)) (st_rows st) \<noteq> None
          \<or> (\<exists>e. stripAndUnescape p = Inl e)")
        case True
        then show ?thesis using red 1(2) by (subst addContainerChain.simps) (auto split: option.split)
      next
        case False
        then obtain newpath title where f: "stripAndUnescape p = Inr (newpath, title)"
          by (cases "stripAndUnescape p") auto
        have ih: "kept R (snd (addContainerChain newpath None INVALID_OBJECT_ID updateID st))"
          using 1(1) [OF red _ _ f refl] False 1(2) by simp
        have e: "addContainerChain path cls refID updateID st
          = and_then (addContainerChain newpath None INVALID_OBJECT_ID updateID) (\<lambda>(parentContainerID, updateID).
              and_then (createContainer parentContainerID title p True cls refID) (\<lambda>containerID.
                give (containerID, if updateID = Some INVALID_OBJECT_ID then Some parentContainerID else updateID))) st"
          using red False f by (subst addContainerChain.simps) auto
        have k: "keeps (kept R) (case x of (parentContainerID, updateID) \<Rightarrow>
              and_then (createContainer parentContainerID title p True cls refID) (\<lambda>containerID.
                give (containerID, if updateID = Some INVALID_OBJECT_ID then Some parentContainerID else updateID)))" for x
          by (cases x) (simp add: keeps_and_then keeps_createContainer)
        show ?thesis
          unfolding e by (rule keeps_at [of "kept R" "addContainerChain newpath None INVALID_OBJECT_ID updateID", OF ih k])
      qed
    qed (use 1(2) in \<open>subst addContainerChain.simps, simp\<close>)
  qed
qed

lemma ensurePathExistence_keeps:
  assumes find: "\<And>p. keeps P (findObjectByPath p)"
    and create: "\<And>parent name path. keeps P (createContainer parent name path False None INVALID_OBJECT_ID)"
  shows "keeps P (ensurePathExistence f2i path)"
proof (rule keepsI)
  fix st assume "P st"
  then show "P (snd (ensurePathExistence f2i path st))"
  proof (induction f2i path st rule: ensurePathExistence.induct)
    case (1 f2i path st)
    show ?case
    proof (cases "clean_path path")
      case cp: (Inr p)
      show ?thesis
      proof (cases "z_eq_char p DIR_SEPARATOR")
        case root: False
        obtain found st1 where fd: "findObjectByPath (z_append_char p DIR_SEPARATOR) st = (found, st1)" by fastforce
        have u1: "P st1" using keepsD [OF find 1(2), of "z_append_char p DIR_SEPARATOR"] fd by simp
        show ?thesis
        proof (cases "\<exists>pathAr. found = Inr None \<and> split_path p = Inr pathAr")
          case True
          then obtain pathAr where sp: "found = Inr None" "split_path p = Inr pathAr" by blast
          let ?dir = "ensurePathExistence f2i (Some (pathAr ! 0))"
          have ih: "P (snd (?dir st1))"
            using 1(1) [OF cp root fd [unfolded sp(1)] refl sp(2)] u1 by simp
          have e: "ensurePathExistence f2i path st
            = and_then ?dir (\<lambda>(parentID, changed).
                and_then (createContainer parentID (f2i (Some (pathAr ! 1))) p False None INVALID_OBJECT_ID) (\<lambda>newID.
                  give (newID, if changed = INVALID_OBJECT_ID then parentID else changed))) st1"
            using cp root fd sp by (subst ensurePathExistence.simps) (simp add: and_then_Inr [of "findObjectByPath (z_append_char p DIR_SEPARATOR)", OF fd [unfolded sp(1)]])
          have k: "keeps P (case x of (parentID, changed) \<Rightarrow>
                and_then (createContainer parentID (f2i (Some (pathAr ! 1))) p False None INVALID_OBJECT_ID) (\<lambda>newID.
                  give (newID, if changed = INVALID_OBJECT_ID then parentID else changed)))" for x
            by (cases x) (simp add: keeps_and_then create)
          show ?thesis unfolding e by (rule keeps_at [of P ?dir, OF ih k])
        next
          case False
          then show ?thesis
            using cp root fd u1 by (subst ensurePathExistence.simps)
              (cases found; auto simp: and_then_def split: option.split sum.split)
        qed
      qed (use cp 1(2) in \<open>subst ensurePathExistence.simps, simp\<close>)
    qed (use 1(2) in \<open>subst ensurePathExistence.simps, simp\<close>)
  qed
qed

lemmas keeps_ensurePathExistence =
  ensurePathExistence_keeps [OF keeps_grows [OF grows_to_findObjectByPath] keeps_createContainer]

lemma grows_store_checkRefID: "grows_to st (snd (store_checkRefID ob st))"
proof -
  have "grows_to st (snd (case loadObject (o_refID ob) st of
          (Inl Abort, st) \<Rightarrow> (Inl Abort, st)
        | (Inl (Throw _), st) \<Rightarrow> (Inl (Throw ''illegal refID was set''), st)
        | (Inr refObj, st) \<Rightarrow>
            if z_eq (o_location refObj) (o_location ob) then (Inr (Some refObj), st)
            else findObjectByPath (o_location ob) st))"
  proof -
    obtain r st1 where r: "loadObject (o_refID ob) st = (r, st1)" by fastforce
    have "grows_to st st1" using grows_to_loadObject [of st "o_refID ob"] r by simp
    then show ?thesis unfolding r using grows_to_trans [OF _ grows_to_findObjectByPath]
      by (cases r) (auto split: failure.split)
  qed
  then show ?thesis using grows_to_findObjectByPath by (simp add: store_checkRefID_def)
qed

lemma keeps_store_find_reference: "keeps (kept R) (store_find_reference ob)"
  unfolding store_find_reference_def Let_def
  by (intro keeps_if keeps_and_then keeps_simple keeps_grows [OF grows_to_loadObject]
      keeps_grows [OF grows_store_checkRefID])

lemma keeps_store_addUpdateObject: "keeps (kept R) (store_addUpdateObject f2i ob isUpdate)"
proof -
  have e: "keeps (kept R) (if b then (case split_path z of
             Inl e \<Rightarrow> throw e
           | Inr pathAr \<Rightarrow> ensurePathExistence f2i (Some (pathAr ! 0)))
        else give (INVALID_OBJECT_ID, INVALID_OBJECT_ID))" for b z
    using keeps_ensurePathExistence by (simp split: sum.split)
  have c: "keeps (kept R) (\<lambda>st. and_then (of_result (g st)) (\<lambda>data. give (data, ch)) st)"
    for g :: "store \<Rightarrow> (cds_object \<times> dictionary \<times> dictionary option) option result" and ch :: int
    by (intro keepsI) (simp split: sum.split)
  show ?thesis
    unfolding store_addUpdateObject_def
  proof (rule keeps_and_then [OF keeps_store_find_reference])
    fix x :: "cds_object option \<times> bool \<times> bool"
    obtain refObj hr pr where x: "x = (refObj, hr, pr)" by (cases x)
    show "keeps (kept R) (case x of (refObj, hasReference, playlistRef) \<Rightarrow>
      and_then (if needs_path ob hasReference isUpdate then (case split_path (o_location ob) of
             Inl e \<Rightarrow> throw e
           | Inr pathAr \<Rightarrow> ensurePathExistence f2i (Some (pathAr ! 0)))
        else give (INVALID_OBJECT_ID, INVALID_OBJECT_ID)) (\<lambda>(parentID, changedContainer) st.
         and_then (of_result (columns_of (\<lambda>_. Inr parentID) (has_duplicate st) ob isUpdate
                (refObj, hasReference, playlistRef))) (\<lambda>data. give (data, changedContainer)) st))"
      unfolding x prod.case
    proof (rule keeps_and_then [OF e])
      fix y :: "int \<times> int"
      show "keeps (kept R) (case y of (parentID, changedContainer) \<Rightarrow> \<lambda>st.
         and_then (of_result (columns_of (\<lambda>_. Inr parentID) (has_duplicate st) ob isUpdate
                (refObj, hr, pr))) (\<lambda>data. give (data, changedContainer)) st)"
        by (cases y) (simp only: prod.case c)
    qed
  qed
qed

lemma table_set_sql [simp]: "table (set_sql ss st) = table st"
  by (simp add: set_sql_def table_def)

lemma set_sql_frame [simp]:
  "st_lastID (set_sql ss st) = st_lastID st" "st_autoscans (set_sql ss st) = st_autoscans st"
  "st_active (set_sql ss st) = st_active st"
  by (simp_all add: set_sql_def)

lemma insert_row_adds:
  assumes "insert_row q (\<lambda>st. st\<lparr>st_rows := st_rows st @ [r]\<rparr>) (\<lambda>st. st\<lparr>st_pending := st_pending st @ [r]\<rparr>) st = (x, st')"
  shows "(x = Inr () \<and> adds r st st') \<or> (\<exists>e. x = Inl e \<and> st' = st)"
  using assms
  by (auto simp: insert_row_def adds_def table_def set_sql_def split: if_splits sum.splits)

lemma insert_active_same:
  assumes "insert_row q (add_active i a) (add_active i a) st = (x, st')"
  shows "table st' = table st \<and> st_lastID st' = st_lastID st \<and> st_autoscans st' = st_autoscans st"
  using assms by (auto simp: insert_row_def add_active_def table_def set_sql_def split: if_splits sum.splits)

lemma grows_store_cache_added: "grows_to st (snd (store_cache_added ob st))"
  by (simp add: store_cache_added_def grows_to_def set_sql_def split: sum.split)

lemma stored_row_id [simp]: "- (2 ^ 31) \<le> n \<Longrightarrow> n < 2 ^ 31 \<Longrightarrow> row_id (stored_row n d) = n"
  by (simp add: row_id_def stored_row_def sql_int_def)

lemma adds_table: "adds r st st' \<Longrightarrow> table st'' = table st' \<Longrightarrow> st_lastID st'' = st_lastID st' \<Longrightarrow>
    st_autoscans st'' = st_autoscans st' \<Longrightarrow> adds r st st''"
  by (simp add: adds_def)

lemma keeps_addObject: "keeps (kept R) (addObject f2i ob)"
proof -
  define ins where "ins = (\<lambda>q r. insert_row q (\<lambda>st. st\<lparr>st_rows := st_rows st @ [r]\<rparr>) (\<lambda>st. st\<lparr>st_pending := st_pending st @ [r]\<rparr>))"
  have act: "table (snd (m st)) = table st \<and> st_lastID (snd (m st)) = st_lastID st \<and> st_autoscans (snd (m st)) = st_autoscans st"
    if "m = (case active of None \<Rightarrow> give () | Some a \<Rightarrow> insert_row (q a) (add_active i a) (add_active i a))"
    for active q i st and m :: "(store, unit) action"
  proof (cases active)
    case (Some a)
    obtain x st' where "insert_row (q a) (add_active i a) (add_active i a) st = (x, st')" by fastforce
    then show ?thesis using insert_active_same Some that by fastforce
  qed (use that in simp)
  have rest: "adds r st (snd (and_then (ins q r) (\<lambda>_. and_then m (\<lambda>_. and_then (store_cache_added ob') (\<lambda>_. give (ob', ch)))) st))
      \<or> grows_to st (snd (and_then (ins q r) (\<lambda>_. and_then m (\<lambda>_. and_then (store_cache_added ob') (\<lambda>_. give (ob', ch)))) st))"
    if m: "m = (case active of None \<Rightarrow> give () | Some a \<Rightarrow> insert_row (q' a) (add_active i a) (add_active i a))"
    for q r active q' i ob' ch st and m :: "(store, unit) action"
  proof -
    obtain x st1 where 1: "ins q r st = (x, st1)" by fastforce
    show ?thesis
    proof (cases x)
      case (Inl e)
      then have "st1 = st" using insert_row_adds 1 unfolding ins_def by fastforce
      then show ?thesis by (simp add: and_then_Inl [of "ins q r", OF 1 [unfolded Inl]])
    next
      case (Inr u)
      have a1: "adds r st st1" using insert_row_adds 1 Inr unfolding ins_def by fastforce
      obtain y st2 where 2: "m st1 = (y, st2)" by fastforce
      have a2: "adds r st st2" using adds_table [OF a1] act [OF m, of st1] 2 by simp
      note e1 = and_then_Inr [of "ins q r", OF 1 [unfolded Inr]]
      show ?thesis
      proof (cases y)
        case (Inl e)
        show ?thesis using a2 by (simp add: e1 and_then_Inl [of m, OF 2 [unfolded Inl]])
      next
        case (Inr v)
        have "grows_to st2 (snd (and_then (store_cache_added ob') (\<lambda>_. give (ob', ch)) st2))"
          using grows_store_cache_added [of st2 ob'] by (auto simp: and_then_def split: prod.split sum.split)
        then show ?thesis using adds_grows [OF a2] by (simp add: e1 and_then_Inr [of m, OF 2 [unfolded Inr]])
      qed
    qed
  qed
  have fold: "insert_row q (\<lambda>st. st\<lparr>st_rows := st_rows st @ [r]\<rparr>) (\<lambda>st. st\<lparr>st_pending := st_pending st @ [r]\<rparr>) = ins q r"
    for q r by (simp add: ins_def)
  show ?thesis
    unfolding addObject_def
  proof (intro keeps_if keeps_simple keeps_and_then keeps_store_addUpdateObject)
    fix x :: "(cds_object \<times> dictionary \<times> dictionary option) option \<times> int"
    obtain data ch where x: "x = (data, ch)" by (cases x)
    show "keeps (kept R) (case x of (data, changedContainer) \<Rightarrow>
        (case data of
          None \<Rightarrow> give (clearFlag ob OBJECT_FLAG_USE_RESOURCE_REF, changedContainer)
        | Some row \<Rightarrow> insert_object changedContainer row))"
    proof (cases data)
      case None
      then show ?thesis by (simp add: x)
    next
      case (Some a)
      obtain ob' d active where a: "a = (ob', d, active)" by (cases a)
      show ?thesis
        unfolding x prod.case Some option.case a Let_def insert_object_def fold
        by (rule keeps_getNextID, rule new_rowI [OF _ rest [OF refl]], rule stored_row_id) simp_all
    qed
  qed
qed

section \<open>An object that was added is found\<close>

lemma columns_of_plain:
  assumes "plain_item ob i"
    and "columns_of ensure duplicate ob False (None, False, False) = Inr data"
  shows "\<exists>ob' p pa. data = Some (ob', item_row_columns ob i p, None) \<and> o_parentID ob' = p
    \<and> ob' = (clearFlag ob OBJECT_FLAG_USE_RESOURCE_REF)\<lparr>o_parentID := p\<rparr>
    \<and> split_path (o_location ob) = Inr pa \<and> ensure (Some (pa ! 0)) = Inr p"
proof -
  have "data \<noteq> None"
    using assms(2) by (auto simp: columns_of_def Let_def bind_result_Inr_iff split: if_splits)
  then obtain ob' d active where d: "data = Some (ob', d, active)" by auto
  have "addUpdateObject (\<lambda>_. Inr None) (\<lambda>_. Inr None) ensure duplicate ob False = Inr (Some (ob', d, active))"
    using assms(2) d find_reference_plain [OF assms(1)] by (simp add: addUpdateObject_def)
  from addUpdateObject_plain [OF assms(1) this] show ?thesis using d by blast
qed

lemma store_find_reference_plain:
  "plain_item ob i \<Longrightarrow> store_find_reference ob st = (Inr (None, False, False), st)"
  by (simp add: store_find_reference_def plain_item_def Let_def IS_CDS_defs cds_inv_def class_type_def)

lemma addObject_plain:
  assumes pl: "plain_item ob i" and run: "addObject f2i ob st = (Inr (ob', ch), st')"
  obtains p pa st1 st2 n q where "split_path (o_location ob) = Inr pa"
    "ensurePathExistence f2i (Some (pa ! 0)) st = (Inr (p, ch), st1)"
    "getNextID st1 = (Inr n, st1\<lparr>st_lastID := n\<rparr>)" "n = st_lastID st1 + 1" "n < 2 ^ 31" "CDS_ID_FS_ROOT < n"
    "ob' = (clearFlag ob OBJECT_FLAG_USE_RESOURCE_REF)\<lparr>o_parentID := p, o_id := n\<rparr>"
    "insert_row q (\<lambda>st. st\<lparr>st_rows := st_rows st @ [stored_row n (item_row_columns ob i p)]\<rparr>)
       (\<lambda>st. st\<lparr>st_pending := st_pending st @ [stored_row n (item_row_columns ob i p)]\<rparr>) (st1\<lparr>st_lastID := n\<rparr>)
       = (Inr (), st2)"
    "store_cache_added ob' st2 = (Inr (), st')"
proof -
  have np: "needs_path ob False False"
    using pl by (auto simp: needs_path_def plain_item_def cds_inv_def class_type_def IS_CDS_defs cstring_simps)
  obtain data ch' st1 where 1: "store_addUpdateObject f2i ob False st = (Inr (data, ch'), st1)"
    and rest: "(case data of
          None \<Rightarrow> give (clearFlag ob OBJECT_FLAG_USE_RESOURCE_REF, ch')
        | Some row \<Rightarrow> insert_object ch' row) st1 = (Inr (ob', ch), st')"
    using run by (auto simp: addObject_def and_then_done split: if_splits)
  obtain pa p where e: "split_path (o_location ob) = Inr pa"
      "ensurePathExistence f2i (Some (pa ! 0)) st = (Inr (p, ch'), st1)"
      "columns_of (\<lambda>_. Inr p) (has_duplicate st1) ob False (None, False, False) = Inr data"
    using 1 np unfolding store_addUpdateObject_def
    by (auto simp: and_then_Inr [OF store_find_reference_plain [OF pl]] and_then_done split: sum.splits)
      (metis sum.exhaust)
  have data: "data = Some ((clearFlag ob OBJECT_FLAG_USE_RESOURCE_REF)\<lparr>o_parentID := p\<rparr>, item_row_columns ob i p, None)"
    using columns_of_plain [OF pl e(3)] by auto
  from rest have r: "\<exists>n st2 st3. getNextID st1 = (Inr n, st2)
    \<and> insert_row (insert_statement ''mt_cds_object'' (item_row_columns ob i p) None n)
       (\<lambda>st. st\<lparr>st_rows := st_rows st @ [stored_row n (item_row_columns ob i p)]\<rparr>)
       (\<lambda>st. st\<lparr>st_pending := st_pending st @ [stored_row n (item_row_columns ob i p)]\<rparr>) st2 = (Inr (), st3)
    \<and> store_cache_added ((clearFlag ob OBJECT_FLAG_USE_RESOURCE_REF)\<lparr>o_parentID := p, o_id := n\<rparr>) st3 = (Inr (), st')
    \<and> ob' = (clearFlag ob OBJECT_FLAG_USE_RESOURCE_REF)\<lparr>o_parentID := p, o_id := n\<rparr> \<and> ch = ch'"
    unfolding data by (auto simp: and_then_done Let_def insert_object_def)
  then obtain n st2 st3 where s: "getNextID st1 = (Inr n, st2)"
    "insert_row (insert_statement ''mt_cds_object'' (item_row_columns ob i p) None n)
       (\<lambda>st. st\<lparr>st_rows := st_rows st @ [stored_row n (item_row_columns ob i p)]\<rparr>)
       (\<lambda>st. st\<lparr>st_pending := st_pending st @ [stored_row n (item_row_columns ob i p)]\<rparr>) st2 = (Inr (), st3)"
    "store_cache_added ob' st3 = (Inr (), st')"
    "ob' = (clearFlag ob OBJECT_FLAG_USE_RESOURCE_REF)\<lparr>o_parentID := p, o_id := n\<rparr>" "ch = ch'" by blast
  have n: "n = st_lastID st1 + 1" "n < 2 ^ 31" "CDS_ID_FS_ROOT < n" "st2 = st1\<lparr>st_lastID := n\<rparr>"
    using s(1) by (auto simp: getNextID_def split: if_splits)
  show thesis
    by (rule that [OF e(1) e(2) [folded s(5)] s(1) [unfolded n(4)] n(1,2,3) s(4) s(2) [unfolded n(4)] s(3)])
qed

definition no_cache :: "store \<Rightarrow> bool" where
  "no_cache st \<longleftrightarrow> ss_cache (st_sql st) = None \<and> \<not> ss_insertBufferOn (st_sql st)"

lemma no_cache_set_sql [simp]: "no_cache (set_sql ss st) \<longleftrightarrow> ss_cache ss = None \<and> \<not> ss_insertBufferOn ss"
  by (simp add: no_cache_def set_sql_def)

definition with_scans :: "table_row list \<Rightarrow> int \<Rightarrow> store \<Rightarrow> bool" where
  \<comment> \<open>these autoscans, and at least that many IDs given out\<close>
  "with_scans scans k st \<longleftrightarrow> no_cache st \<and> st_autoscans st = scans \<and> k \<le> st_lastID st"

lemma no_cache_addObjectToCache: "no_cache st \<Longrightarrow> snd (store_addObjectToCache ob st) = set_sql (st_sql st) (st\<lparr>st_fresh := st_fresh st + 1\<rparr>)"
  by (simp add: store_addObjectToCache_def addObjectToCache_def no_cache_def)

lemma with_scans_object_of_row: "with_scans scans k st \<Longrightarrow> with_scans scans k (snd (object_of_row r st))"
  by (auto simp: object_of_row_def and_then_def with_scans_def no_cache_def store_addObjectToCache_def
      addObjectToCache_def set_sql_def split: sum.split)

lemma with_scans_load: "keeps (with_scans scans k) (loadObject i)"
  using with_scans_object_of_row by (auto simp: keeps_def loadObject_def split: option.split)

lemma with_scans_find: "keeps (with_scans scans k) (findObjectByPath p)"
proof (rule keepsI)
  fix st assume w: "with_scans scans k st"
  have "with_scans scans k (snd (and_then (object_of_row r) (\<lambda>ob. give (Some ob)) st))" for r
    by (rule keeps_at [of "with_scans scans k" "object_of_row r", OF with_scans_object_of_row [OF w]]) simp
  then show "with_scans scans k (snd (findObjectByPath p st))"
    using w by (auto simp: findObjectByPath_def split: sum.split option.split)
qed

lemma with_scans_create: "keeps (with_scans scans k) (createContainer parent name path isVirtual cls refID)"
proof -
  have "keeps (with_scans scans k) getNextID"
    by (auto simp: keeps_def getNextID_def with_scans_def no_cache_def)
  then show ?thesis
    unfolding createContainer_def
    by (intro keeps_and_then keeps_if keeps_simple with_scans_load keeps_change)
      (auto simp: with_scans_def no_cache_def)
qed

lemma find_only:
  assumes "ids_unique st" "r \<in> set (st_rows st)" "with_id n r" "- (2 ^ 31) \<le> n" "n < 2 ^ 31"
  shows "find (with_id n) (st_rows st) = Some r"
proof -
  have "find (with_id n) (st_rows st) \<noteq> None" using assms(2,3) by (auto simp: find_None_iff)
  then obtain x where x: "find (with_id n) (st_rows st) = Some x" by auto
  then have "x \<in> set (st_rows st)" "with_id n x" by (auto simp: find_Some_iff)
  moreover from this have "row_id x = row_id r"
    using assms(3-5) by (auto simp: with_id_def col_is_def row_id_def)
  moreover have "inj_on row_id (set (table st))" using assms(1) by (simp add: ids_unique_def distinct_map)
  ultimately have "x = r" using assms(2) by (auto simp: inj_on_def table_def)
  then show ?thesis using x by simp
qed

lemma item_row_no_ref: "stored_row n (item_row_columns ob i p) ''ref_id'' = None"
  by (simp add: stored_row_def item_row_columns_def item_columns_def put_location_def resource_columns_def
      common_columns_def Let_def get_put_col column_default_def)

lemma added_file_loads:
  assumes pl: "plain_item ob i" and run: "addObject f2i ob st = (Inr (ob', ch), st')"
    and ok: "ids_unique st" "no_cache st"
    and scans: "\<forall>a \<in> set (st_autoscans st). \<forall>n > st_lastID st. a ''obj_id'' \<noteq> Some (show_int n)"
    and range: "- (2 ^ 31) \<le> o_parentID ob'" "o_parentID ob' < 2 ^ 31"
  shows "st_lastID st < o_id ob' \<and> ids_unique st'
    \<and> (\<exists>st''. loadObject (o_id ob') st' = (Inr (as_stored (o_id ob') (o_parentID ob') ob), st''))"
proof -
  obtain p pa st1 st2 n q where a: "split_path (o_location ob) = Inr pa"
    "ensurePathExistence f2i (Some (pa ! 0)) st = (Inr (p, ch), st1)"
    "getNextID st1 = (Inr n, st1\<lparr>st_lastID := n\<rparr>)" "n = st_lastID st1 + 1" "n < 2 ^ 31" "CDS_ID_FS_ROOT < n"
    "ob' = (clearFlag ob OBJECT_FLAG_USE_RESOURCE_REF)\<lparr>o_parentID := p, o_id := n\<rparr>"
    and ins: "insert_row q (\<lambda>st. st\<lparr>st_rows := st_rows st @ [stored_row n (item_row_columns ob i p)]\<rparr>)
       (\<lambda>st. st\<lparr>st_pending := st_pending st @ [stored_row n (item_row_columns ob i p)]\<rparr>) (st1\<lparr>st_lastID := n\<rparr>)
       = (Inr (), st2)"
    and ca: "store_cache_added ob' st2 = (Inr (), st')"
    by (rule addObject_plain [OF pl run])
  define r where "r = stored_row n (item_row_columns ob i p)"
  have u: "ids_unique st'" using keepsD [OF keeps_addObject, of "{}" st f2i ob] ok(1) run by simp
  have "with_scans (st_autoscans st) (st_lastID st) st" using ok(2) by (simp add: with_scans_def)
  then have w1: "with_scans (st_autoscans st) (st_lastID st) st1"
    using keepsD [OF ensurePathExistence_keeps [OF with_scans_find with_scans_create], of _ _ st f2i "Some (pa ! 0)"] a(2)
    by simp
  then have nc: "no_cache (st1\<lparr>st_lastID := n\<rparr>)" by (simp add: with_scans_def no_cache_def)
  have st2: "st_rows st2 = st_rows st1 @ [r]" "no_cache st2" "st_autoscans st2 = st_autoscans st"
    using ins nc w1 by (auto simp: insert_row_def no_cache_def exec_sql_def r_def with_scans_def)
  have st': "set (st_rows st2) \<subseteq> set (st_rows st')" "no_cache st'" "st_autoscans st' = st_autoscans st"
  proof -
    have "st' = set_sql (st_sql st2) (st2\<lparr>st_fresh := st_fresh st2 + 1\<rparr>)"
      using ca st2(2) by (simp add: store_cache_added_def cache_added_def no_cache_def)
    then show "set (st_rows st2) \<subseteq> set (st_rows st')" "no_cache st'" "st_autoscans st' = st_autoscans st"
      using st2(2,3) by (simp_all add: no_cache_def set_sql_def)
  qed
  have "with_id n r" by (simp add: r_def with_id_def col_is_def stored_row_def) (simp add: sql_int_def)
  then have f: "find (with_id n) (st_rows st') = Some r"
    using find_only [OF u, of r n] st'(1) st2(1) a(5,6) by auto
  have rid: "r ''id'' = Some (show_int n)" by (simp add: r_def stored_row_def sql_int_def z_from_def)
  have "st_lastID st < n" using w1 a(4) by (simp add: with_scans_def)
  then have "find (\<lambda>a. a ''obj_id'' \<noteq> None \<and> a ''obj_id'' = r ''id'') (st_autoscans st') = None"
    unfolding rid st'(3) using scans by (intro find_no_match) auto
  moreover have "find (\<lambda>rf. rf ''id'' \<noteq> None \<and> rf ''id'' = r ''ref_id'') xs = None" for xs
    by (rule find_no_match) (auto simp: r_def item_row_no_ref)
  ultimately have j: "joined_row st' r = select_row r (\<lambda>_. None) None" by (simp add: joined_row_def)
  have "createObjectFromRow (st_active st') (joined_row st' r) = Inr (as_stored n p ob)"
    unfolding j unfolding r_def using range a(5,6,7) by (intro read_stored_item [OF pl]) simp_all
  then have "\<exists>st''. object_of_row r st' = (Inr (as_stored n p ob), st'')"
    using st'(2) by (simp add: object_of_row_def and_then_def store_addObjectToCache_def addObjectToCache_def no_cache_def)
  moreover have "cached st' n = None" using st'(2) by (simp add: no_cache_def cached_def)
  ultimately have "\<exists>st''. loadObject n st' = (Inr (as_stored n p ob), st'')"
    using f by (simp add: loadObject_def)
  then show ?thesis using a(7) u \<open>st_lastID st < n\<close> by simp
qed

lemma columns_of_plain_ok:
  assumes "plain_item ob i" "split_path (o_location ob) = Inr pa" "p \<noteq> INVALID_OBJECT_ID"
  shows "columns_of (\<lambda>_. Inr p) duplicate ob False (None, False, False)
    = Inr (Some ((clearFlag ob OBJECT_FLAG_USE_RESOURCE_REF)\<lparr>o_parentID := p\<rparr>, item_row_columns ob i p, None))"
proof -
  have ty: "o_objectType ob = OBJECT_TYPE_ITEM" "o_part ob = CdsItem i"
    using assms(1) by (auto simp: plain_item_def cds_inv_def class_type_def)
  have loc: "string_ok (o_location ob)"
    using assms(1) by (auto simp: plain_item_def string_ok_def z_eq_def cstring_simps)
  have "\<exists>data. columns_of (\<lambda>_. Inr p) duplicate ob False (None, False, False) = Inr data"
    unfolding columns_of_def prod.case Let_def
    by (simp add: ty loc assms(2,3) IS_CDS_defs item_location_def the_item_def clearFlag_def)
  then show ?thesis using columns_of_plain [OF assms(1), of "\<lambda>_. Inr p" duplicate] by fastforce
qed

lemma insert_row_runs: "\<exists>st'. insert_row q now later st = (Inr (), st')"
  by (simp add: insert_row_def addToInsertBuffer_def Let_def)

lemma cache_added_runs: "\<exists>st'. store_cache_added ob st = (Inr (), st')" if "cds_inv ob"
proof -
  have "\<exists>ss'. cache_added ss new ob = Inr ss'" for ss new
    using addObjectToCache_runs [OF that] by (auto simp: cache_added_def Let_def split: option.split prod.split)
  from this [of "st_sql st" "st_fresh st"] show ?thesis by (auto simp: store_cache_added_def)
qed

lemma addObject_succeeds:
  assumes pl: "plain_item ob i" and "split_path (o_location ob) = Inr pa"
    and e: "ensurePathExistence f2i (Some (pa ! 0)) st = (Inr (p, ch), st1)"
    and "p \<noteq> INVALID_OBJECT_ID" "CDS_ID_FS_ROOT \<le> st_lastID st1" "st_lastID st1 + 1 < 2 ^ 31"
    and "o_id ob = INVALID_OBJECT_ID"
  defines "n \<equiv> st_lastID st1 + 1"
  shows "\<exists>st'. addObject f2i ob st = (Inr ((clearFlag ob OBJECT_FLAG_USE_RESOURCE_REF)\<lparr>o_parentID := p, o_id := n\<rparr>, ch), st')"
proof -
  have np: "needs_path ob False False"
    using pl by (auto simp: needs_path_def plain_item_def cds_inv_def class_type_def IS_CDS_defs cstring_simps)
  have i: "o_id ob = INVALID_OBJECT_ID" using assms(7) .
  let ?ob = "(clearFlag ob OBJECT_FLAG_USE_RESOURCE_REF)\<lparr>o_parentID := p\<rparr>"
  let ?d = "item_row_columns ob i p"
  have add: "store_addUpdateObject f2i ob False st = (Inr (Some (?ob, ?d, None), ch), st1)"
    unfolding store_addUpdateObject_def
    by (simp add: and_then_Inr [OF store_find_reference_plain [OF pl]] np assms(2)
        and_then_Inr [of "ensurePathExistence f2i (Some (pa ! 0))", OF e] columns_of_plain_ok [OF pl assms(2,4)])
  have next_id: "getNextID st1 = (Inr n, st1\<lparr>st_lastID := n\<rparr>)" using assms(5,6) by (simp add: getNextID_def n_def)
  obtain st2 where row: "insert_row (insert_statement ''mt_cds_object'' ?d None n)
      (\<lambda>st. st\<lparr>st_rows := st_rows st @ [stored_row n ?d]\<rparr>)
      (\<lambda>st. st\<lparr>st_pending := st_pending st @ [stored_row n ?d]\<rparr>) (st1\<lparr>st_lastID := n\<rparr>) = (Inr (), st2)"
    using insert_row_runs by blast
  have "cds_inv (?ob\<lparr>o_id := n\<rparr>)" using pl by (simp add: plain_item_def cds_inv_def clearFlag_def)
  then obtain st' where cache: "store_cache_added (?ob\<lparr>o_id := n\<rparr>) st2 = (Inr (), st')"
    using cache_added_runs by blast
  have "addObject f2i ob st = insert_object ch (?ob, ?d, None) st1"
    by (simp add: addObject_def i and_then_Inr [of "store_addUpdateObject f2i ob False", OF add])
  also have "\<dots> = (Inr (?ob\<lparr>o_id := n\<rparr>, ch), st')"
    using row cache unfolding insert_object_def by (simp add: and_then_def next_id Let_def give_def)
  finally show ?thesis by blast
qed

section \<open>The cache answers for what waits in the buffer\<close>

lemma addObjectToCache_stores:
  assumes "addObjectToCache ss new ob = Inr ss'" "ss_cache ss \<noteq> None" "cds_inv ob"
  shows "\<exists>c a ob'. ss_cache ss' = Some c \<and> sc_getObject c (o_id ob) = Some a
    \<and> co_obj (sc_objects c a) = Some ob' \<and> cds_equals ob ob' exactly = Inr True"
proof -
  obtain c0 where c0: "ss_cache ss = Some c0" using assms(2) by auto
  obtain a c1 where d: "sc_getObjectDefinitely c0 new (o_id ob) = (a, c1)" by fastforce
  have m: "map_of (sc_idHash c1) (o_id ob) = Some a"
    using d by (auto simp: sc_getObjectDefinitely_def Let_def split: option.splits)
  obtain fl c2 where f: "sc_flushed c1 = (fl, c2)" by fastforce
  have i2: "sc_idHash c2 = sc_idHash c1" using f by (auto simp: sc_flushed_def split: if_splits)
  obtain co ob' where co: "co_setObject (sc_objects c2 a) ob = Inr co" "co_obj co = Some ob'"
    "cds_equals ob ob' exactly = Inr True"
    using co_setObject_law [OF assms(3)] by blast
  have "ss_cache ss' = Some (sc_checkLocation (c2\<lparr>sc_objects := (sc_objects c2)(a := co)\<rparr>) a)"
    using assms(1) c0 d f co(1) by (auto simp: addObjectToCache_def Let_def)
  then show ?thesis using m i2 co(2,3) by (simp add: sc_getObject_def)
qed

lemma cache_added_stores:
  assumes "cache_added ss new ob = Inr ss'" "ss_cache ss \<noteq> None" "cds_inv ob"
  shows "\<exists>c a ob'. ss_cache ss' = Some c \<and> sc_getObject c (o_id ob) = Some a
    \<and> co_obj (sc_objects c a) = Some ob' \<and> cds_equals ob ob' exactly = Inr True"
proof -
  obtain c where c: "ss_cache ss = Some c" using assms(2) by auto
  obtain fl c2 where f: "sc_flushed (sc_addChild c (o_parentID ob)) = (fl, c2)" by fastforce
  have "addObjectToCache (flush_if fl (ss\<lparr>ss_cache := Some c2\<rparr>)) new ob = Inr ss'"
    using assms(1) c f by (simp add: cache_added_def Let_def)
  moreover have "ss_cache (flush_if fl (ss\<lparr>ss_cache := Some c2\<rparr>)) \<noteq> None" by (simp add: flush_if_def)
  ultimately show ?thesis using addObjectToCache_stores assms(3) by blast
qed

definition cache_on :: "store \<Rightarrow> bool" where
  "cache_on st \<longleftrightarrow> ss_cache (st_sql st) \<noteq> None"

lemma cache_on_set_sql [simp]: "cache_on (set_sql ss st) \<longleftrightarrow> ss_cache ss \<noteq> None"
  by (simp add: cache_on_def set_sql_def)

lemma cache_on_flush [simp]: "cache_on (flush st) = cache_on st"
  by (simp add: flush_def) (simp add: cache_on_def)

lemma cache_on_set_cache [simp]: "cache_on (set_cache c st)"
  by (simp add: cache_on_def set_cache_def)

lemma cache_on_check_flushed: "cache_on st \<Longrightarrow> cache_on (check_flushed st)"
  by (simp add: check_flushed_def Let_def split: option.split prod.split)

lemma cache_on_update_cached: "cache_on st \<Longrightarrow> cache_on (update_cached i f st)"
  using cache_on_check_flushed
  by (auto simp: update_cached_def Let_def cache_on_def [of st] split: option.split prod.split)

lemma cache_on_addObjectToCache: "cache_on st \<Longrightarrow> cache_on (snd (store_addObjectToCache ob st))"
  by (auto simp: store_addObjectToCache_def addObjectToCache_def cache_on_def [of st] Let_def bind_result_Inr_iff
      split: sum.split option.split prod.split)

lemma keeps_cache_row: "keeps cache_on (object_of_row r)"
proof -
  have "keeps cache_on (and_then (of_result x) (\<lambda>ob. and_then (store_addObjectToCache ob) (\<lambda>_. give ob)))" for x
    by (intro keeps_and_then keeps_simple keepsI) (rule cache_on_addObjectToCache)
  then show ?thesis by (simp add: keeps_def object_of_row_def)
qed

lemma keeps_cache_load: "keeps cache_on (loadObject i)"
  using keeps_cache_row by (auto simp: keeps_def loadObject_def split: option.split)

lemma keeps_cache_find: "keeps cache_on (findObjectByPath p)"
proof -
  have "keeps cache_on (and_then (object_of_row r) (\<lambda>ob. give (Some ob)))" for r
    by (intro keeps_and_then keeps_cache_row keeps_simple)
  then show ?thesis by (auto simp: keeps_def findObjectByPath_def split: option.split sum.split)
qed

lemma keeps_cache_create: "keeps cache_on (createContainer parent name path isVirtual cls refID)"
proof -
  have "keeps cache_on getNextID" by (auto simp: keeps_def getNextID_def cache_on_def)
  moreover have "cache_on (st\<lparr>st_rows := rows\<rparr>) = cache_on st" for st rows by (simp add: cache_on_def)
  ultimately show ?thesis
    unfolding createContainer_def
    by (intro keeps_and_then keeps_if keeps_simple keeps_cache_load keeps_change)
      (auto intro!: cache_on_update_cached cache_on_check_flushed split: option.split)
qed

lemma keeps_cache_find_reference: "keeps cache_on (store_find_reference ob)"
proof -
  have "keeps cache_on (\<lambda>st. case loadObject (o_refID ob) st of
          (Inl Abort, st) \<Rightarrow> (Inl Abort, st)
        | (Inl (Throw _), st) \<Rightarrow> (Inl (Throw ''illegal refID was set''), st)
        | (Inr refObj, st) \<Rightarrow>
            if z_eq (o_location refObj) (o_location ob) then (Inr (Some refObj), st)
            else findObjectByPath (o_location ob) st)"
  proof (rule keepsI)
    fix st assume c: "cache_on st"
    obtain r st1 where r: "loadObject (o_refID ob) st = (r, st1)" by fastforce
    have "cache_on st1" using keepsD [OF keeps_cache_load c, of "o_refID ob"] r by simp
    then show "cache_on (snd (case loadObject (o_refID ob) st of
          (Inl Abort, st) \<Rightarrow> (Inl Abort, st)
        | (Inl (Throw _), st) \<Rightarrow> (Inl (Throw ''illegal refID was set''), st)
        | (Inr refObj, st) \<Rightarrow>
            if z_eq (o_location refObj) (o_location ob) then (Inr (Some refObj), st)
            else findObjectByPath (o_location ob) st))"
      unfolding r using keepsD [OF keeps_cache_find] by (cases r) (auto split: failure.split)
  qed
  then have "keeps cache_on (store_checkRefID ob)"
    using keeps_cache_find by (simp add: store_checkRefID_def)
  then show ?thesis
    unfolding store_find_reference_def Let_def
    by (intro keeps_if keeps_and_then keeps_simple keeps_cache_load)
qed

lemma item_location_inv:
  "item_location ensure ob hr upd d = Inr (ob', d') \<Longrightarrow> cds_inv ob \<Longrightarrow> cds_inv ob'"
  by (auto simp: item_location_def Let_def bind_result_Inr_iff cds_inv_def split: if_splits)

lemma columns_of_inv:
  assumes "columns_of ensure duplicate ob upd ref = Inr (Some (ob', d, a))" "cds_inv ob"
  shows "cds_inv ob'"
proof -
  have "cds_inv (clearFlag ob f)" for f using assms(2) by (simp add: clearFlag_def cds_inv_def)
  then show ?thesis
    using assms(1)
    by (cases ref) (auto simp: columns_of_def Let_def bind_result_Inr_iff dest!: item_location_inv
        split: if_splits option.splits prod.splits)
qed

lemma store_addUpdateObject_result:
  assumes "store_addUpdateObject f2i ob upd st = (Inr (Some (ob', d, a), ch), st1)" "cache_on st" "cds_inv ob"
  shows "cache_on st1 \<and> cds_inv ob'"
proof -
  obtain ref hr pr s1 where 1: "store_find_reference ob st = (Inr (ref, hr, pr), s1)"
    and r1: "and_then (if needs_path ob hr upd then (case split_path (o_location ob) of
             Inl e \<Rightarrow> throw e
           | Inr pathAr \<Rightarrow> ensurePathExistence f2i (Some (pathAr ! 0)))
        else give (INVALID_OBJECT_ID, INVALID_OBJECT_ID)) (\<lambda>(parentID, changedContainer) st.
      and_then (of_result (columns_of (\<lambda>_. Inr parentID) (has_duplicate st) ob upd (ref, hr, pr))) (\<lambda>data.
       give (data, changedContainer)) st) s1 = (Inr (Some (ob', d, a), ch), st1)"
    using assms(1) by (auto simp: store_addUpdateObject_def and_then_done)
  have c1: "cache_on s1" using keepsD [OF keeps_cache_find_reference assms(2), of ob] 1 by simp
  obtain p ch' s2 where 2: "(if needs_path ob hr upd then (case split_path (o_location ob) of
             Inl e \<Rightarrow> throw e
           | Inr pathAr \<Rightarrow> ensurePathExistence f2i (Some (pathAr ! 0)))
        else give (INVALID_OBJECT_ID, INVALID_OBJECT_ID)) s1 = (Inr (p, ch'), s2)"
    and r2: "and_then (of_result (columns_of (\<lambda>_. Inr p) (has_duplicate s2) ob upd (ref, hr, pr))) (\<lambda>data.
       give (data, ch')) s2 = (Inr (Some (ob', d, a), ch), st1)"
    using r1 [unfolded and_then_done [of "if needs_path ob hr upd then _ else _"]] by auto
  have "keeps cache_on (if b then (case split_path z of
             Inl e \<Rightarrow> throw e
           | Inr pathAr \<Rightarrow> ensurePathExistence f2i (Some (pathAr ! 0)))
        else give (INVALID_OBJECT_ID, INVALID_OBJECT_ID))" for b z
    using ensurePathExistence_keeps [OF keeps_cache_find keeps_cache_create] by (simp split: sum.split)
  from keepsD [OF this c1, of "needs_path ob hr upd" "o_location ob"] have "cache_on s2" using 2 by simp
  moreover have "st1 = s2" "columns_of (\<lambda>_. Inr p) (has_duplicate s2) ob upd (ref, hr, pr) = Inr (Some (ob', d, a))"
    using r2 by (auto split: sum.splits)
  ultimately show ?thesis using columns_of_inv assms(3) by blast
qed

lemma insert_row_cache:
  assumes "insert_row q now later st = (Inr u, st')" "cache_on st"
    "\<And>s. st_sql (now s) = st_sql s" "\<And>s. st_sql (later s) = st_sql s"
  shows "cache_on st'"
proof (cases "ss_insertBufferOn (st_sql st)")
  case True
  then obtain ss where "addToInsertBuffer (st_sql st) q = Inr ss" "st' = set_sql ss (later st)"
    using assms(1) by (auto simp: insert_row_def split: sum.splits)
  moreover from this have "ss_cache ss = ss_cache (st_sql st)"
    by (auto simp: addToInsertBuffer_def sqlite_addToInsertBuffer_def Let_def split: if_splits)
  ultimately show ?thesis using assms(2) by (simp add: cache_on_def [of st])
next
  case False
  then show ?thesis using assms by (auto simp: insert_row_def cache_on_def exec_sql_def)
qed

lemma added_object_cached:
  assumes run: "addObject f2i ob st = (Inr (ob', ch), st')" and "o_id ob' \<noteq> INVALID_OBJECT_ID"
    and "cache_on st" "cds_inv ob"
  shows "\<exists>ob''. loadObject (o_id ob') st' = (Inr ob'', st') \<and> cds_equals ob' ob'' exactly = Inr True"
proof -
  have i: "o_id ob = INVALID_OBJECT_ID" using run by (auto simp: addObject_def split: if_splits)
  obtain data ch' st1 where 1: "store_addUpdateObject f2i ob False st = (Inr (data, ch'), st1)"
    and rest: "(case data of
          None \<Rightarrow> give (clearFlag ob OBJECT_FLAG_USE_RESOURCE_REF, ch')
        | Some row \<Rightarrow> insert_object ch' row) st1 = (Inr (ob', ch), st')"
    using run by (auto simp: addObject_def and_then_done split: if_splits)
  obtain ob1 d active where d: "data = Some (ob1, d, active)"
    using rest i assms(2) by (cases data) (auto simp: clearFlag_def)
  have s1: "cache_on st1" "cds_inv ob1"
    using store_addUpdateObject_result [OF 1 [unfolded d] assms(3,4)] by simp_all
  obtain n st2 st3 st4 where s: "getNextID st1 = (Inr n, st2)"
    "insert_row (insert_statement ''mt_cds_object'' d None n)
       (\<lambda>st. st\<lparr>st_rows := st_rows st @ [stored_row n d]\<rparr>)
       (\<lambda>st. st\<lparr>st_pending := st_pending st @ [stored_row n d]\<rparr>) st2 = (Inr (), st3)"
    "(case active of None \<Rightarrow> give ()
       | Some a \<Rightarrow> insert_row (insert_statement ''mt_cds_active_item'' a (Some n) n) (add_active n a) (add_active n a)) st3
       = (Inr (), st4)"
    "store_cache_added (ob1\<lparr>o_id := n\<rparr>) st4 = (Inr (), st')" "ob' = ob1\<lparr>o_id := n\<rparr>"
    using rest unfolding d by (auto simp: and_then_done Let_def insert_object_def)
  have "cache_on st2" using s(1) s1(1) by (auto simp: getNextID_def cache_on_def split: if_splits)
  then have c3: "cache_on st3" by (rule insert_row_cache [OF s(2)]) simp_all
  have c4: "cache_on st4"
  proof (cases active)
    case (Some a)
    show ?thesis using s(3) unfolding Some option.case
      by (rule insert_row_cache [OF _ c3]) (simp_all add: add_active_def)
  qed (use s(3) c3 in simp)
  have inv: "cds_inv ob'" using s1(2) s(5) by (simp add: cds_inv_def)
  obtain ss where ss: "cache_added (st_sql st4) (st_fresh st4) ob' = Inr ss"
    "st' = set_sql ss (st4\<lparr>st_fresh := st_fresh st4 + 1\<rparr>)"
    using s(4,5) by (auto simp: store_cache_added_def split: sum.splits)
  have on: "ss_cache (st_sql st4) \<noteq> None" using c4 by (simp add: cache_on_def)
  obtain c a ob'' where h: "ss_cache ss = Some c" "sc_getObject c (o_id ob') = Some a"
    "co_obj (sc_objects c a) = Some ob''" "cds_equals ob' ob'' exactly = Inr True"
    using cache_added_stores [OF ss(1) on inv, of exactly] by blast
  have "cached st' (o_id ob') = Some (sc_objects c a)"
    using h(1,2) ss(2) by (simp add: cached_def set_sql_def)
  then show ?thesis using h(3,4) by (auto simp: loadObject_def)
qed

end
