(* ===== verification/Content_Manager.thy ===== *)
theory Content_Manager
  imports Sql_Add
begin

text \<open>
  The content manager on top of the storage (src/content_manager.cc): \<open>addObject\<close>,
  \<open>addContainer\<close>, \<open>addContainerChain\<close>, both versions of \<open>updateObject\<close>, \<open>_removeObject\<close>,
  \<open>ensurePathExistence\<close> and \<open>convertObject\<close>. The import of files is in File_Import.

  The state holds the storage, the number of files, and the IDs that were passed to
  \<open>UpdateManager::containerChanged\<close> and \<open>containersChanged\<close> and to
  \<open>SessionManager::containerChangedUI\<close>, in the order of the calls; the managers themselves
  are in Update_Manager and Sessions.

  Modelled is the build without JavaScript.
\<close>

record manager =
  cm_store :: store
  cm_upnp :: "int list"
  cm_ui :: "int list"
  cm_totalFiles :: int

definition on_store :: "(store, 'a) action \<Rightarrow> (manager, 'a) action" where
  "on_store m s = (let (r, st) = m (cm_store s) in (r, s\<lparr>cm_store := st\<rparr>))"

definition upnp_changed :: "int list \<Rightarrow> (manager, unit) action" where
  "upnp_changed ids = change (\<lambda>s. s\<lparr>cm_upnp := cm_upnp s @ ids\<rparr>)"

definition ui_changed :: "int list \<Rightarrow> (manager, unit) action" where
  "ui_changed ids = change (\<lambda>s. s\<lparr>cm_ui := cm_ui s @ ids\<rparr>)"

section \<open>Containers\<close>

definition cm_addContainerChain :: "zstring \<Rightarrow> zstring \<Rightarrow> int \<Rightarrow> (manager, int) action" where
  "cm_addContainerChain chain lastClass lastRefID =
     (if \<not> string_ok chain then throw (Throw ''addContainerChain() called with empty chain parameter'')
      else
        and_then (on_store (addContainerChain chain lastClass lastRefID (Some INVALID_OBJECT_ID))) (\<lambda>(containerID, updateID).
        and_then (upnp_changed [the updateID]) (\<lambda>_.
        and_then (ui_changed [the updateID]) (\<lambda>_. give containerID))))"

definition cm_addContainer :: "int \<Rightarrow> zstring \<Rightarrow> zstring \<Rightarrow> (manager, unit) action" where
  "cm_addContainer parentID title upnpClass =
     and_then (of_result (escape title VIRTUAL_CONTAINER_ESCAPE VIRTUAL_CONTAINER_SEPARATOR)) (\<lambda>t.
     and_then (on_store (buildContainerPath parentID t)) (\<lambda>chain.
     and_then (cm_addContainerChain chain upnpClass INVALID_OBJECT_ID) (\<lambda>_. give ())))"

definition cm_ensurePathExistence :: "(zstring \<Rightarrow> zstring) \<Rightarrow> zstring \<Rightarrow> (manager, int) action" where
  "cm_ensurePathExistence f2i path =
     and_then (on_store (ensurePathExistence f2i path)) (\<lambda>(containerID, updateID).
     and_then (if updateID \<noteq> INVALID_OBJECT_ID
               then and_then (upnp_changed [updateID]) (\<lambda>_. ui_changed [updateID]) else give ()) (\<lambda>_.
       give containerID))"

section \<open>Objects\<close>

definition object_added :: "int \<Rightarrow> cds_object \<Rightarrow> (manager, unit) action" where
  \<comment> \<open>the reports after an object was added: the grandparent is told when the container was empty\<close>
  "object_added containerChanged ob =
     and_then (upnp_changed [containerChanged]) (\<lambda>_.
     and_then (ui_changed [containerChanged]) (\<lambda>_.
     and_then
       (if o_parentID ob \<noteq> -1 then
          and_then (on_store (getChildCount (o_parentID ob) True True False)) (\<lambda>n.
            if n = 1 then
              and_then (on_store (loadObject (o_parentID ob))) (\<lambda>parent. upnp_changed [o_parentID parent])
            else give ())
        else give ()) (\<lambda>_.
     and_then (upnp_changed [o_parentID ob]) (\<lambda>_.
     and_then (if IS_CDS_CONTAINER (o_objectType ob) then ui_changed [o_parentID ob] else give ()) (\<lambda>_.
       if \<not> o_virt ob \<and> IS_CDS_ITEM (o_objectType ob)
       then change (\<lambda>s. s\<lparr>cm_totalFiles := cm_totalFiles s + 1\<rparr>) else give ())))))"

definition cm_addObject :: "(zstring \<Rightarrow> zstring) \<Rightarrow> (zstring \<Rightarrow> bool) \<Rightarrow> cds_object \<Rightarrow> (manager, cds_object) action" where
  \<comment> \<open>the object as the call leaves it; the second argument is \<open>check_path\<close>\<close>
  "cm_addObject f2i check_path ob =
     and_then (of_result (validate check_path ob)) (\<lambda>_.
     and_then (if \<not> IS_CDS_ITEM_EXTERNAL_URL (o_objectType ob)
               then and_then (of_result (z_reduce (o_location ob) DIR_SEPARATOR)) (\<lambda>l. give (ob\<lparr>o_location := l\<rparr>))
               else give ob) (\<lambda>ob.
     and_then (on_store (addObject f2i ob)) (\<lambda>(ob, containerChanged).
     and_then (object_added containerChanged ob) (\<lambda>_. give ob))))"

definition store_changed :: "(zstring \<Rightarrow> zstring) \<Rightarrow> cds_object \<Rightarrow> (manager, unit) action" where
  \<comment> \<open>the call of the storage and the reports that follow it in every version of \<open>updateObject\<close>\<close>
  "store_changed f2i ob =
     and_then (on_store (updateObject f2i ob)) (\<lambda>(_, containerChanged).
     and_then (upnp_changed [containerChanged]) (\<lambda>_. ui_changed [containerChanged]))"

definition cm_updateObject :: "(zstring \<Rightarrow> zstring) \<Rightarrow> (zstring \<Rightarrow> bool) \<Rightarrow> cds_object \<Rightarrow> bool \<Rightarrow> (manager, unit) action" where
  "cm_updateObject f2i check_path ob send_updates =
     and_then (of_result (validate check_path ob)) (\<lambda>_.
     and_then (on_store (updateObject f2i ob)) (\<lambda>(ob, containerChanged).
       if send_updates then
         and_then (upnp_changed [containerChanged]) (\<lambda>_.
         and_then (ui_changed [containerChanged]) (\<lambda>_.
         and_then (upnp_changed [o_parentID ob]) (\<lambda>_.
           if IS_CDS_CONTAINER (o_objectType ob) then ui_changed [o_parentID ob] else give ())))
       else give ()))"

definition clone_of :: "cds_object \<Rightarrow> cds_object result" where
  "clone_of ob = bind_result (createObject (o_objectType ob)) (copyTo ob)"

definition with_text :: "zstring \<Rightarrow> (zstring \<Rightarrow> cds_object \<Rightarrow> cds_object) \<Rightarrow> cds_object \<Rightarrow> cds_object" where
  \<comment> \<open>\<open>if (string_ok(text)) clone->set(text)\<close>\<close>
  "with_text text f ob = (if string_ok text then f text ob else ob)"

definition set_mime :: "zstring \<Rightarrow> cds_object \<Rightarrow> cds_object" where
  "set_mime m ob = (case the_item ob of None \<Rightarrow> ob | Some i \<Rightarrow> set_item ob (i\<lparr>i_mimeType := m\<rparr>))"

definition mime_of :: "cds_object \<Rightarrow> zstring" where
  "mime_of ob = (case the_item ob of None \<Rightarrow> None | Some i \<Rightarrow> i_mimeType i)"

definition set_protocol_info :: "zstring \<Rightarrow> cds_object \<Rightarrow> cds_object result" where
  \<comment> \<open>on the first resource; there is none to point to in an empty list\<close>
  "set_protocol_info info ob =
     (case o_resources ob of
        [] \<Rightarrow> Inl Abort
      | r # rs \<Rightarrow> Inr (ob\<lparr>o_resources := r_addAttribute r (Some ''protocolInfo'') info # rs\<rparr>))"

definition new_protocol :: "zstring \<Rightarrow> zstring \<Rightarrow> cds_object \<Rightarrow> cds_object result" where
  "new_protocol mimetype protocol ob =
     (if string_ok mimetype \<and> string_ok protocol then
        set_protocol_info (renderProtocolInfo mimetype protocol None) (set_mime mimetype ob)
      else if string_ok protocol then
        set_protocol_info (renderProtocolInfo (mime_of ob) protocol None) ob
      else if string_ok mimetype then
        (let ob = set_mime mimetype ob
         in case o_resources ob of
              [] \<Rightarrow> Inl Abort
            | r # _ \<Rightarrow>
                (case split_string (r_getAttribute r (Some ''protocolInfo'')) (CHR '':'') False of
                   [] \<Rightarrow> Inl Abort
                 | p # _ \<Rightarrow> set_protocol_info (renderProtocolInfo mimetype (Some p) None) ob))
      else Inr ob)"

definition new_description :: "zstring \<Rightarrow> cds_object \<Rightarrow> cds_object" where
  "new_description description ob =
     (if string_ok description then ob\<lparr>o_metadata := d_put (o_metadata ob) (Some ''dc:description'') description\<rparr>
      else ob\<lparr>o_metadata := d_remove (o_metadata ob) (Some ''dc:description'')\<rparr>)"

definition new_title_class :: "dictionary \<Rightarrow> cds_object \<Rightarrow> cds_object" where
  "new_title_class parameters ob =
     with_text (d_get parameters (Some ''class'')) (\<lambda>t ob. ob\<lparr>o_upnpClass := t\<rparr>)
       (with_text (d_get parameters (Some ''title'')) (\<lambda>t ob. ob\<lparr>o_title := t\<rparr>) ob)"

definition edited_item :: "dictionary \<Rightarrow> cds_object \<Rightarrow> cds_object result" where
  "edited_item parameters ob =
     bind_result (clone_of ob) (\<lambda>c.
     bind_result (new_protocol (d_get parameters (Some ''mime-type'')) (d_get parameters (Some ''protocol''))
       (with_text (d_get parameters (Some ''location'')) (\<lambda>t ob. ob\<lparr>o_location := t\<rparr>) (new_title_class parameters c))) (\<lambda>c.
       Inr (new_description (d_get parameters (Some ''description'')) c)))"

definition edited_active :: "dictionary \<Rightarrow> cds_object \<Rightarrow> cds_object result" where
  "edited_active parameters ob =
     bind_result (clone_of ob) (\<lambda>c.
       let c = new_description (d_get parameters (Some ''description'')) (new_title_class parameters c);
           state = d_get parameters (Some ''state''); action = d_get parameters (Some ''action'')
       in case o_part c of
            CdsActiveItem i a s \<Rightarrow>
              (let c = c\<lparr>o_part := CdsActiveItem i a (if z_eq state None then s else state)\<rparr>;
                   c = with_text (d_get parameters (Some ''mime-type'')) set_mime c
               in case o_part c of
                    CdsActiveItem i a s \<Rightarrow>
                      Inr (c\<lparr>o_part := CdsActiveItem i (if string_ok action then action else a) s\<rparr>)
                  | _ \<Rightarrow> Inl Abort)
          | _ \<Rightarrow> Inl Abort)"

definition edited_container :: "dictionary \<Rightarrow> cds_object \<Rightarrow> cds_object result" where
  "edited_container parameters ob = bind_result (clone_of ob) (\<lambda>c. Inr (new_title_class parameters c))"

definition save_edited :: "(zstring \<Rightarrow> zstring) \<Rightarrow> (zstring \<Rightarrow> bool) \<Rightarrow> cds_object \<Rightarrow> cds_object result \<Rightarrow> (manager, unit) action" where
  \<comment> \<open>nothing happens when the clone equals the object\<close>
  "save_edited f2i check_path ob edited =
     and_then (of_result edited) (\<lambda>c.
     and_then (of_result (cds_equals ob c True)) (\<lambda>same.
       if same then give ()
       else
         and_then (of_result (validate check_path c)) (\<lambda>_.
         and_then (store_changed f2i c) (\<lambda>_.
         and_then (upnp_changed [o_parentID ob]) (\<lambda>_.
           if IS_CDS_CONTAINER (o_objectType ob) then ui_changed [o_parentID ob] else give ())))))"

definition cm_updateObjectByID ::
  "(zstring \<Rightarrow> zstring) \<Rightarrow> (zstring \<Rightarrow> bool) \<Rightarrow> int \<Rightarrow> dictionary \<Rightarrow> (manager, unit) action" where
  \<comment> \<open>\<open>updateObject(int, Dictionary)\<close>: an active item goes through the first part as well\<close>
  "cm_updateObjectByID f2i check_path objectID parameters =
     and_then (on_store (loadObject objectID)) (\<lambda>ob.
     let objectType = o_objectType ob
     in and_then (if IS_CDS_ITEM objectType then save_edited f2i check_path ob (edited_item parameters ob) else give ()) (\<lambda>_.
        if IS_CDS_ACTIVE_ITEM objectType then save_edited f2i check_path ob (edited_active parameters ob)
        else if IS_CDS_CONTAINER objectType then save_edited f2i check_path ob (edited_container parameters ob)
        else give ()))"

definition csv_ids :: "id_buffer \<Rightarrow> int list" where
  "csv_ids ids = map (\<lambda>i. z_toInt (Some i)) ids"

definition cm_removeObject :: "int \<Rightarrow> bool \<Rightarrow> (manager, unit) action" where
  \<comment> \<open>\<open>_removeObject\<close>\<close>
  "cm_removeObject objectID all =
     (if objectID = CDS_ID_ROOT then throw (Throw ''cannot remove root container'')
      else if objectID = CDS_ID_FS_ROOT then throw (Throw ''cannot remove PC-Directory container'')
      else if forbidden_id objectID then throw (Throw ''tried to remove illegal object id'')
      else
        and_then (on_store (removeObject objectID all)) (\<lambda>changedContainers.
        case changedContainers of
          None \<Rightarrow> give ()
        | Some c \<Rightarrow>
            and_then (ui_changed (csv_ids (cc_ui c))) (\<lambda>_. upnp_changed (csv_ids (cc_upnp c)))))"

definition convertObject :: "cds_object \<Rightarrow> 32 word \<Rightarrow> cds_object result" where
  "convertObject oldObj newType =
     (let oldType = o_objectType oldObj
      in if oldType = newType then Inr oldObj
         else if \<not> IS_CDS_ITEM oldType \<or> \<not> IS_CDS_ITEM newType then
           Inl (Throw (''Cannot convert object type '' @ show_int (sint oldType) @ '' to '' @ show_int (sint newType)))
         else bind_result (createObject newType) (copyTo oldObj))"

section \<open>The rows that are there stay\<close>

text \<open>
  Adding never changes or removes a row, and no ID is given twice, whether the operation
  fails or not.
\<close>

definition rows_kept :: "table_row set \<Rightarrow> manager \<Rightarrow> bool" where
  "rows_kept R s \<longleftrightarrow> kept R (cm_store s)"

lemma keeps_on_store: "keeps (kept R) m \<Longrightarrow> keeps (rows_kept R) (on_store m)"
  by (auto simp: keeps_def on_store_def rows_kept_def split: prod.split)

lemma keeps_changed:
  "keeps (rows_kept R) (upnp_changed ids)" "keeps (rows_kept R) (ui_changed ids)"
  "keeps (rows_kept R) (change (\<lambda>s. s\<lparr>cm_totalFiles := f s\<rparr>))"
  by (simp_all add: keeps_def upnp_changed_def ui_changed_def rows_kept_def)

lemma grows_to_getChildCount: "grows_to st (snd (getChildCount i containers items hideFsRoot st))"
  using grows_to_trans [OF grows_to_flush grows_to_update_cached]
  by (simp add: getChildCount_def Let_def split: option.split)

lemma keeps_cm_addContainerChain: "keeps (rows_kept R) (cm_addContainerChain chain cls refID)"
  unfolding cm_addContainerChain_def
  by (auto intro!: keeps_intros keeps_on_store keeps_addContainerChain keeps_changed split: prod.split)

lemma keeps_cm_addContainer: "keeps (rows_kept R) (cm_addContainer parentID title cls)"
proof -
  have "grows_to st (snd (buildContainerPath parentID t st))" for t st
    by (simp add: buildContainerPath_def split: option.split sum.split)
  then show ?thesis
    unfolding cm_addContainer_def
    by (intro keeps_intros keeps_on_store keeps_grows keeps_cm_addContainerChain)
qed

lemma keeps_cm_ensurePathExistence: "keeps (rows_kept R) (cm_ensurePathExistence f2i path)"
  unfolding cm_ensurePathExistence_def
  by (auto intro!: keeps_intros keeps_on_store keeps_ensurePathExistence keeps_changed split: prod.split)

lemma keeps_object_added: "keeps (rows_kept R) (object_added ch ob)"
  unfolding object_added_def
  by (auto intro!: keeps_intros keeps_on_store keeps_changed keeps_grows
      grows_to_getChildCount grows_to_loadObject split: prod.split)

lemma keeps_cm_addObject: "keeps (rows_kept R) (cm_addObject f2i cp ob)"
  unfolding cm_addObject_def
  by (auto intro!: keeps_intros keeps_on_store keeps_addObject keeps_object_added split: prod.split)

end
