(* ===== verification/Fallback_Layout.thy ===== *)
theory Fallback_Layout
  imports Content_Manager ZBuffer
begin

text \<open>
  The layout that is built in (src/layout/fallback_layout.cc): \<open>processCdsObject\<close> files a clone
  of the object into virtual containers, one row for each. The methods change the clone; here
  they return it. \<open>addYouTube\<close> is left out; the services are those of the build without
  YouTube.
\<close>

abbreviation OBJECT_FLAG_OGG_THEORA :: "32 word" where "OBJECT_FLAG_OGG_THEORA \<equiv> 0x80"

abbreviation MUSIC_ALBUM :: zstring where "MUSIC_ALBUM \<equiv> Some ''object.container.album.musicAlbum''"
abbreviation MUSIC_GENRE :: zstring where "MUSIC_GENRE \<equiv> Some ''object.container.genre.musicGenre''"

section \<open>Filing an object\<close>

definition layout_add ::
  "(zstring \<Rightarrow> zstring) \<Rightarrow> (zstring \<Rightarrow> bool) \<Rightarrow> cds_object \<Rightarrow> int \<Rightarrow> bool \<Rightarrow> (manager, cds_object) action" where
  "layout_add f2i cp ob parentID use_ref =
     (let ob = ob\<lparr>o_parentID := parentID\<rparr>;
          ob = (if use_ref then setFlag ob OBJECT_FLAG_USE_RESOURCE_REF else ob);
          ob = ob\<lparr>o_id := INVALID_OBJECT_ID\<rparr>
      in cm_addObject f2i cp ob)"

definition file_under ::
  "(zstring \<Rightarrow> zstring) \<Rightarrow> (zstring \<Rightarrow> bool) \<Rightarrow> zstring \<Rightarrow> zstring \<Rightarrow> int \<Rightarrow> bool \<Rightarrow> cds_object \<Rightarrow> (manager, cds_object) action" where
  \<comment> \<open>\<open>id = addContainerChain(chain, class, ref); add(obj, id, use_ref);\<close>\<close>
  "file_under f2i cp chain cls refID use_ref ob =
     and_then (cm_addContainerChain chain cls refID) (\<lambda>i. layout_add f2i cp ob i use_ref)"

definition file_main :: "(zstring \<Rightarrow> zstring) \<Rightarrow> (zstring \<Rightarrow> bool) \<Rightarrow> zstring \<Rightarrow> cds_object \<Rightarrow> (manager, cds_object) action" where
  \<comment> \<open>the first container: the rows that follow refer to the file, or to this row when the
      object is not in the database\<close>
  "file_main f2i cp chain ob =
     and_then (cm_addContainerChain chain None INVALID_OBJECT_ID) (\<lambda>i.
       if o_id ob \<noteq> INVALID_OBJECT_ID then layout_add f2i cp (ob\<lparr>o_refID := o_id ob\<rparr>) i True
       else and_then (layout_add f2i cp ob i True) (\<lambda>ob. give (ob\<lparr>o_refID := o_id ob\<rparr>)))"

definition path_below :: "(zstring \<Rightarrow> zstring) \<Rightarrow> zstring \<Rightarrow> zstring \<Rightarrow> zstring result" where
  \<comment> \<open>\<open>dir\<close>: the directories between the parent of the root path and the file, or the name of
      the directory of the file\<close>
  "path_below f2i location rootpath =
     (if string_ok rootpath then
        bind_result (z_substring rootpath 0 (z_rindex rootpath DIR_SEPARATOR)) (\<lambda>root.
        bind_result (z_substring location (z_length root)
                       (z_rindex location DIR_SEPARATOR - z_length root)) (\<lambda>dir.
        bind_result (z_startsWith dir (Some [DIR_SEPARATOR])) (\<lambda>b.
        bind_result (if b then z_substring_from dir 1 else Inr dir) (\<lambda>dir. Inr (f2i dir)))))
      else bind_result (get_last_path location) (\<lambda>dir. esc (f2i dir)))"

definition file_directories ::
  "(zstring \<Rightarrow> zstring) \<Rightarrow> (zstring \<Rightarrow> bool) \<Rightarrow> zstring \<Rightarrow> zstring \<Rightarrow> cds_object \<Rightarrow> (manager, cds_object) action" where
  "file_directories f2i cp prefix rootpath ob =
     and_then (of_result (path_below f2i (o_location ob) rootpath)) (\<lambda>dir.
       if string_ok dir then file_under f2i cp (z_append prefix dir) None INVALID_OBJECT_ID True ob else give ob)"

section \<open>Videos and images\<close>

definition addVideo ::
  "(zstring \<Rightarrow> zstring) \<Rightarrow> (zstring \<Rightarrow> bool) \<Rightarrow> cds_object \<Rightarrow> zstring \<Rightarrow> (manager, cds_object) action" where
  "addVideo f2i cp ob rootpath =
     and_then (file_main f2i cp (Some ''/Video/All Video'') ob) (\<lambda>ob.
       file_directories f2i cp (Some ''/Video/Directories/'') rootpath ob)"

definition year_month :: "zstring \<Rightarrow> (zstring \<times> zstring) option result" where
  \<comment> \<open>the first two parts of a date that has three\<close>
  "year_month date =
     (let y = z_index date 0 (CHR ''-'')
      in if y > 0 then
           bind_result (z_substring date 0 y) (\<lambda>year.
           bind_result (z_substring_from date (y + 1)) (\<lambda>month.
             let m = z_index month 0 (CHR ''-'')
             in if m > 0 then bind_result (z_substring month 0 m) (\<lambda>month. Inr (Some (year, month)))
                else Inr None))
         else Inr None)"

definition addImage ::
  "(zstring \<Rightarrow> zstring) \<Rightarrow> (zstring \<Rightarrow> bool) \<Rightarrow> cds_object \<Rightarrow> zstring \<Rightarrow> (manager, cds_object) action" where
  "addImage f2i cp ob rootpath =
     and_then (file_main f2i cp (Some ''/Photos/All Photos'') ob) (\<lambda>ob.
     let date = d_get (o_metadata ob) (Some ''dc:date'')
     in and_then
          (if string_ok date then
             and_then (of_result (year_month date)) (\<lambda>ym.
             and_then
               (case ym of
                  None \<Rightarrow> give ob
                | Some (year, month) \<Rightarrow>
                    and_then (of_result (esc year)) (\<lambda>year.
                    and_then (of_result (esc month)) (\<lambda>month.
                      file_under f2i cp (z_append (z_append (z_append (Some ''/Photos/Year/'') year) (Some ''/'')) month)
                        None INVALID_OBJECT_ID True ob))) (\<lambda>ob.
             and_then (of_result (esc date)) (\<lambda>d.
               file_under f2i cp (z_append (Some ''/Photos/Date/'') d) None INVALID_OBJECT_ID True ob)))
           else give ob) (\<lambda>ob.
        file_directories f2i cp (Some ''/Photos/Directories/'') rootpath ob))"

section \<open>Audio\<close>

record song =
  sg_title :: zstring
  sg_artist :: zstring
  sg_album :: zstring
  sg_date :: zstring
  sg_genre :: zstring
  sg_artist_full :: zstring
  sg_album_full :: zstring
  sg_desc :: zstring

definition or_unknown :: "zstring \<Rightarrow> zstring" where
  "or_unknown z = (if string_ok z then z else Some ''Unknown'')"

definition song_of :: "cds_object \<Rightarrow> song result" where
  \<comment> \<open>the variables of \<open>addAudio\<close> before the first container\<close>
  "song_of ob =
     (let meta = o_metadata ob;
          title = d_get meta (Some ''dc:title'');
          title = (if string_ok title then title else o_title ob);
          artist = d_get meta (Some ''upnp:artist'');
          desc = (if string_ok artist then artist else None);
          album = d_get meta (Some ''upnp:album'');
          desc = (if string_ok album then z_append (z_append desc (Some '', '')) album else desc);
          desc = (if string_ok desc then z_append desc (Some '', '') else desc);
          desc = z_append desc title;
          date = d_get meta (Some ''dc:date'');
          i = z_index date 0 (CHR ''-'')
      in bind_result (if string_ok date \<and> i > 0 then z_substring date 0 i else Inr date) (\<lambda>year.
         let genre = d_get meta (Some ''upnp:genre'');
             desc = (if string_ok date then z_append (z_append desc (Some '', '')) year else desc);
             desc = (if string_ok genre then z_append (z_append desc (Some '', '')) genre else desc)
         in Inr \<lparr>sg_title = title, sg_artist = or_unknown artist, sg_album = or_unknown album,
                 sg_date = (if string_ok date then year else Some ''Unknown''), sg_genre = or_unknown genre,
                 sg_artist_full = (if string_ok artist then artist else None),
                 sg_album_full = (if string_ok album then album else None), sg_desc = desc\<rparr>))"

definition described :: "song \<Rightarrow> cds_object \<Rightarrow> cds_object" where
  "described sg ob =
     (if string_ok (d_get (o_metadata ob) (Some ''dc:description'')) then ob
      else ob\<lparr>o_metadata := d_put (o_metadata ob) (Some ''dc:description'') (sg_desc sg)\<rparr>)"

definition full_name :: "song \<Rightarrow> zstring" where
  "full_name sg =
     (let temp = (if string_ok (sg_artist_full sg) then sg_artist_full sg else None);
          temp = (if string_ok (sg_album_full sg)
                  then z_append (z_append (z_append temp (Some '' - '')) (sg_album_full sg)) (Some '' - '')
                  else z_append temp (Some '' - ''))
      in z_append temp (sg_title sg))"

definition addAudio ::
  "(zstring \<Rightarrow> zstring) \<Rightarrow> (zstring \<Rightarrow> bool) \<Rightarrow> cds_object \<Rightarrow> (manager, cds_object) action" where
  "addAudio f2i cp ob =
     and_then (of_result (song_of ob)) (\<lambda>sg.
     and_then (file_main f2i cp (Some ''/Audio/All Audio'') ((described sg ob)\<lparr>o_title := sg_title sg\<rparr>)) (\<lambda>ob.
     and_then (of_result (esc (sg_artist sg))) (\<lambda>artist.
     let artists = z_append (Some ''/Audio/Artists/'') artist
     in and_then (file_under f2i cp (z_append artists (Some ''/All Songs'')) None INVALID_OBJECT_ID True ob) (\<lambda>ob.
        and_then (of_result (esc (sg_album sg))) (\<lambda>album.
        and_then (file_under f2i cp (z_append (z_append artists (Some ''/'')) album) MUSIC_ALBUM (o_id ob) True ob) (\<lambda>ob.
        and_then (file_under f2i cp (z_append (Some ''/Audio/Albums/'') album) MUSIC_ALBUM (o_id ob) True ob) (\<lambda>ob.
        and_then (of_result (esc (sg_genre sg))) (\<lambda>genre.
        and_then (file_under f2i cp (z_append (Some ''/Audio/Genres/'') genre) MUSIC_GENRE INVALID_OBJECT_ID True ob) (\<lambda>ob.
        and_then (of_result (esc (sg_date sg))) (\<lambda>date.
        and_then (file_under f2i cp (z_append (Some ''/Audio/Year/'') date) None INVALID_OBJECT_ID True ob) (\<lambda>ob.
        and_then (file_under f2i cp (Some ''/Audio/All - full name'') None INVALID_OBJECT_ID True
          (ob\<lparr>o_title := full_name sg\<rparr>)) (\<lambda>ob.
          file_under f2i cp (z_append artists (Some ''/All - full name'')) None INVALID_OBJECT_ID True ob))))))))))))"

section \<open>Online services\<close>

definition addSopCast ::
  "(zstring \<Rightarrow> zstring) \<Rightarrow> (zstring \<Rightarrow> bool) \<Rightarrow> cds_object \<Rightarrow> (manager, cds_object) action" where
  "addSopCast f2i cp ob =
     (let ref_set = (o_id ob \<noteq> INVALID_OBJECT_ID);
          ob = (if ref_set then ob\<lparr>o_refID := o_id ob\<rparr> else ob)
      in and_then (file_under f2i cp (Some ''/Online Services/SopCast/All Channels'') None INVALID_OBJECT_ID ref_set ob) (\<lambda>ob.
         let ob = (if ref_set then ob else ob\<lparr>o_refID := o_id ob\<rparr>);
             temp = d_get (o_auxdata ob) (Some ''S2'')
         in if string_ok temp then
              and_then (of_result (esc temp)) (\<lambda>g.
                file_under f2i cp (z_append (Some ''/Online Services/SopCast/Groups/'') g) None INVALID_OBJECT_ID True ob)
            else give ob))"

lemma tk_nextToken_decreases:
  assumes "tk_nextToken t seps = (Some s, t')" "s \<noteq> []"
  shows "tk_len t' - tk_pos t' < tk_len t - tk_pos t"
proof -
  let ?rest = "take (tk_len t - tk_pos t) (drop (tk_pos t) (tk_str t))"
  let ?p = "tk_pos t + length (takeWhile (is_sep seps) ?rest)"
  let ?q = "?p + length (takeWhile (\<lambda>c. \<not> is_sep seps c) (dropWhile (is_sep seps) ?rest))"
  have p: "?p < tk_len t" and t: "t' = t\<lparr>tk_pos := ?q\<rparr>" and s: "s = take (?q - ?p) (drop ?p (tk_str t))"
    using assms(1) by (auto simp: tk_nextToken_def Let_def split: if_splits)
  have "?q \<noteq> ?p" using s assms(2) by auto
  then have "tk_pos t < ?q" by linarith
  moreover have "tk_pos t < tk_len t" using p by linarith
  moreover have "tk_len t' = tk_len t" "tk_pos t' = ?q" using t by simp_all
  ultimately show ?thesis by linarith
qed

lemma tk_nextToken_ok:
  assumes "(nxt, t') = tk_nextToken t seps" "string_ok nxt"
  shows "tk_len t' - tk_pos t' < tk_len t - tk_pos t"
proof -
  obtain s where s: "nxt = Some s" using assms(2) by (cases nxt) (simp_all add: string_ok_def z_eq_def)
  moreover have "s \<noteq> []" using assms(2) s by (auto simp: string_ok_def z_eq_def cstr_def)
  ultimately have s: "nxt = Some s" "s \<noteq> []" by simp_all
  show ?thesis by (rule tk_nextToken_decreases [OF assms(1) [symmetric, unfolded s(1)] s(2)])
qed

lemma tk_nextToken_rest: "tk_nextToken t seps = (z, t') \<Longrightarrow> tk_len t' - tk_pos t' \<le> tk_len t - tk_pos t"
  by (auto simp: tk_nextToken_def Let_def split: if_splits)

function genre_loop ::
  "(zstring \<Rightarrow> zstring) \<Rightarrow> (zstring \<Rightarrow> bool) \<Rightarrow> tokenizer \<Rightarrow> zstring \<Rightarrow> cds_object \<Rightarrow> (manager, cds_object) action" where
  "genre_loop f2i cp tk genre ob =
     (case (if string_ok genre then (genre, tk) else tk_nextToken tk '','') of (genre, tk) \<Rightarrow>
      case tk_nextToken tk '','' of (nxt, tk) \<Rightarrow>
        and_then (of_result (trim_string genre)) (\<lambda>genre.
          if \<not> string_ok genre then give ob
          else
            and_then (of_result (esc genre)) (\<lambda>g.
            and_then (file_under f2i cp (z_append (Some ''/Online Services/Apple Trailers/Genres/'') g)
              None INVALID_OBJECT_ID True ob) (\<lambda>ob.
              if string_ok nxt then genre_loop f2i cp tk nxt ob else give ob))))"
  by pat_completeness auto

termination
  apply (relation "measure (\<lambda>(f2i, cp, tk, genre, ob). tk_len tk - tk_pos tk)")
   apply simp
  subgoal premises p for f2i cp tk genre ob g1 tk1 nxt tk2
  proof -
    have "tk_len tk1 - tk_pos tk1 \<le> tk_len tk - tk_pos tk"
      using p(1) tk_nextToken_rest [of tk "'',''" g1 tk1]
      by (simp split: if_splits)
    then show ?thesis using tk_nextToken_ok [OF p(2,4)] by simp
  qed
  done

declare genre_loop.simps [simp del]

definition file_month ::
  "(zstring \<Rightarrow> zstring) \<Rightarrow> (zstring \<Rightarrow> bool) \<Rightarrow> zstring \<Rightarrow> zstring \<Rightarrow> cds_object \<Rightarrow> (manager, cds_object) action" where
  \<comment> \<open>under the first seven characters of a date\<close>
  "file_month f2i cp prefix date ob =
     (if string_ok date \<and> z_length date \<ge> 7 then
        and_then (of_result (z_substring date 0 7)) (\<lambda>d.
        and_then (of_result (esc d)) (\<lambda>d.
          file_under f2i cp (z_append prefix d) None INVALID_OBJECT_ID True ob))
      else give ob)"

definition addATrailers ::
  "(zstring \<Rightarrow> zstring) \<Rightarrow> (zstring \<Rightarrow> bool) \<Rightarrow> cds_object \<Rightarrow> (manager, cds_object) action" where
  "addATrailers f2i cp ob =
     and_then (file_main f2i cp (Some ''/Online Services/Apple Trailers/All Trailers'') ob) (\<lambda>ob.
     let temp = d_get (o_metadata ob) (Some ''upnp:genre'')
     in and_then (if string_ok temp then genre_loop f2i cp (tk_init (the temp)) None ob else give ob) (\<lambda>ob.
        and_then (file_month f2i cp (Some ''/Online Services/Apple Trailers/Release Date/'')
          (d_get (o_metadata ob) (Some ''dc:date'')) ob) (\<lambda>ob.
          file_month f2i cp (Some ''/Online Services/Apple Trailers/Post Date/'') (d_get (o_auxdata ob) (Some ''T0'')) ob)))"

section \<open>The choice of the layout\<close>

definition processCdsObject ::
  "(zstring \<Rightarrow> zstring) \<Rightarrow> (zstring \<Rightarrow> bool) \<Rightarrow> dictionary \<Rightarrow> cds_object \<Rightarrow> zstring \<Rightarrow> (manager, unit) action" where
  \<comment> \<open>with the option that maps MIME types to content types\<close>
  "processCdsObject f2i cp mappings ob rootpath =
     and_then (of_result (clone_of ob)) (\<lambda>clone.
     let clone = clone\<lparr>o_virt := True\<rparr>
     in if getFlag clone OBJECT_FLAG_ONLINE_SERVICE \<noteq> 0 then
          (let service = z_toInt (d_get (o_auxdata clone) (Some ''ols''))
           in if service = 2 then and_then (addSopCast f2i cp clone) (\<lambda>_. give ())
              else if service = 4 then and_then (addATrailers f2i cp clone) (\<lambda>_. give ())
              else give ())
        else
          (let mimetype = mime_of ob; content_type = d_get mappings mimetype
           in and_then (of_result (z_startsWith mimetype (Some ''video''))) (\<lambda>video.
              and_then (of_result (z_startsWith mimetype (Some ''image''))) (\<lambda>image.
              and_then (of_result (z_startsWith mimetype (Some ''audio''))) (\<lambda>audio.
                and_then
                  (if video then addVideo f2i cp clone rootpath
                   else if image then addImage f2i cp clone rootpath
                   else if audio \<and> \<not> z_eq content_type (Some ''playlist'') then addAudio f2i cp clone
                   else if z_eq content_type (Some ''ogg'') then
                     (if getFlag ob OBJECT_FLAG_OGG_THEORA \<noteq> 0 then addVideo f2i cp clone rootpath
                      else addAudio f2i cp clone)
                   else give clone) (\<lambda>_. give ()))))))"

section \<open>The rows of a layout\<close>

lemma createContainer_row:
  assumes "createContainer parent name path isVirtual cls refID st = (Inr n, st')" "ids_unique st"
  shows "container_row n parent name (addLocationPrefix (if isVirtual then LOC_VIRT_PREFIX else LOC_DIR_PREFIX) path) cls refID
      \<in> set (table st') \<and> CDS_ID_FS_ROOT < n \<and> n < 2 ^ 31"
proof -
  let ?r = "container_row n parent name (addLocationPrefix (if isVirtual then LOC_VIRT_PREFIX else LOC_DIR_PREFIX) path) cls refID"
  obtain st1 st2 st3 where
    1: "(if refID > 0 then and_then (loadObject refID) (\<lambda>_. give ()) else give ()) st = (Inr (), st1)"
    and 2: "getNextID st1 = (Inr n, st2)"
    and 3: "st3 = st2\<lparr>st_rows := st_rows st2 @ [?r]\<rparr>"
    and 4: "grows_to st3 st'"
  proof -
    from assms(1) obtain st1 st2 where
      "(if refID > 0 then and_then (loadObject refID) (\<lambda>_. give ()) else give ()) st = (Inr (), st1)"
      "getNextID st1 = (Inr n, st2)"
      and e: "st' = (let st3 = st2\<lparr>st_rows := st_rows st2 @ [?r]\<rparr> in case ss_cache (st_sql st3) of None \<Rightarrow> st3
         | Some c \<Rightarrow> update_cached n (\<lambda>co. (co_setObjectType (co_setNumChildren (co\<lparr>co_parentID := parent\<rparr>) 0)
             OBJECT_TYPE_CONTAINER)\<lparr>co_location := path\<rparr>) (check_flushed (set_cache (sc_addChild c parent) st3)))"
      unfolding createContainer_def and_then_done by (auto simp: Let_def)
    moreover have "grows_to (st2\<lparr>st_rows := st_rows st2 @ [?r]\<rparr>) st'"
      unfolding e Let_def
      using grows_to_trans [OF grows_to_trans [OF grows_to_set_cache grows_to_check_flushed] grows_to_update_cached]
      by (simp split: option.split)
    ultimately show ?thesis using that by blast
  qed
  have g1: "grows_to st st1" using 1 grows_to_loadObject [of st refID]
    by (cases "refID > 0") (auto simp: and_then_def split: prod.splits sum.splits)
  have u1: "ids_unique st1" using grows_to_unique [OF g1] assms(2) by simp
  have "CDS_ID_FS_ROOT < n \<and> n < 2 ^ 31"
    using 2 u1 by (auto simp: getNextID_def ids_unique_def split: if_splits)
  moreover have "?r \<in> set (table st')"
    using grows_to_table [OF 4] by (simp add: 3 table_def)
  ultimately show ?thesis by simp
qed

definition container_at :: "store \<Rightarrow> string \<Rightarrow> int \<Rightarrow> bool" where
  "container_at st path i \<longleftrightarrow>
     (\<exists>c \<in> set (table st). at_location (Some (LOC_VIRT_PREFIX # path)) c \<and> row_id c = i)"

lemma addContainerChain_row:
  assumes "addContainerChain (Some chain) cls refID upd st = (Inr (i, u), st')" "nul_free chain"
    "squeeze VIRTUAL_CONTAINER_SEPARATOR chain \<noteq> [VIRTUAL_CONTAINER_SEPARATOR]" "ids_unique st"
  shows "container_at st' (squeeze VIRTUAL_CONTAINER_SEPARATOR chain) i"
proof -
  let ?p = "squeeze VIRTUAL_CONTAINER_SEPARATOR chain"
  have nf: "nul_free ?p" using assms(2) set_squeeze [of VIRTUAL_CONTAINER_SEPARATOR chain] by (auto simp: nul_free_def)
  have red: "z_reduce (Some chain) VIRTUAL_CONTAINER_SEPARATOR = Inr (Some ?p)"
    using z_reduce_squeeze [OF assms(2)] by simp
  have ne: "\<not> z_eq_char (Some ?p) VIRTUAL_CONTAINER_SEPARATOR"
    using assms(3) nf by (cases ?p; cases "tl ?p") (auto simp: z_eq_char_def byte_at_def nul_free_def)
  have loc: "addLocationPrefix LOC_VIRT_PREFIX (Some ?p) = Some (LOC_VIRT_PREFIX # ?p)"
    using nf by (simp add: addLocationPrefix_def cstring_simps)
  show ?thesis
  proof (cases "find (at_location (Some (LOC_VIRT_PREFIX # ?p))) (st_rows st)")
    case (Some r)
    then have "addContainerChain (Some chain) cls refID upd st = (Inr (row_id r, upd), st)"
      by (subst addContainerChain.simps) (simp add: red ne loc)
    then have "i = row_id r" "st' = st" using assms(1) by simp_all
    then show ?thesis using Some by (auto simp: container_at_def find_Some_iff table_def)
  next
    case None
    obtain newpath title j v st1 where
      1: "addContainerChain newpath None INVALID_OBJECT_ID upd st = (Inr (j, v), st1)"
      and 2: "createContainer j title (Some ?p) True cls refID st1 = (Inr i, st')"
      using assms(1) None by (subst (asm) addContainerChain.simps)
        (auto simp: red ne loc and_then_done split: sum.splits)
    have "ids_unique st1" using keepsD [OF keeps_addContainerChain, of "{}" st] assms(4) 1 by (metis kept_none snd_conv)
    note r = createContainer_row [OF 2 this, simplified, unfolded loc]
    have "at_location (Some (LOC_VIRT_PREFIX # ?p)) (container_row i j title (Some (LOC_VIRT_PREFIX # ?p)) cls refID)"
      using nf by (subst at_location_container_row) simp_all
    then show ?thesis using r by (fastforce simp: container_at_def)
  qed
qed

lemma insert_object_row:
  assumes "insert_object ch (ob, d, active) st = (Inr (ob', ch'), st')" "ids_unique st"
  shows "\<exists>n. stored_row n d \<in> set (table st') \<and> ob' = ob\<lparr>o_id := n\<rparr> \<and> CDS_ID_FS_ROOT < n \<and> n < 2 ^ 31"
proof -
  obtain n st1 where 1: "getNextID st = (Inr n, st1)"
    and 2: "(let r = stored_row n d in and_then (insert_row (insert_statement ''mt_cds_object'' d None n)
          (\<lambda>st. st\<lparr>st_rows := st_rows st @ [r]\<rparr>) (\<lambda>st. st\<lparr>st_pending := st_pending st @ [r]\<rparr>)) (\<lambda>_.
        and_then (case active of None \<Rightarrow> give ()
           | Some a \<Rightarrow> insert_row (insert_statement ''mt_cds_active_item'' a (Some n) n) (add_active n a) (add_active n a)) (\<lambda>_.
        and_then (store_cache_added (ob\<lparr>o_id := n\<rparr>)) (\<lambda>_. give (ob\<lparr>o_id := n\<rparr>, ch))))) st1 = (Inr (ob', ch'), st')"
    using assms(1) unfolding insert_object_def prod.case Let_def and_then_done [of getNextID] by blast
  obtain st2 u where 3: "insert_row (insert_statement ''mt_cds_object'' d None n)
      (\<lambda>st. st\<lparr>st_rows := st_rows st @ [stored_row n d]\<rparr>) (\<lambda>st. st\<lparr>st_pending := st_pending st @ [stored_row n d]\<rparr>) st1
        = (Inr u, st2)"
    and 4: "and_then (case active of None \<Rightarrow> give ()
           | Some a \<Rightarrow> insert_row (insert_statement ''mt_cds_active_item'' a (Some n) n) (add_active n a) (add_active n a)) (\<lambda>_.
        and_then (store_cache_added (ob\<lparr>o_id := n\<rparr>)) (\<lambda>_. give (ob\<lparr>o_id := n\<rparr>, ch))) st2 = (Inr (ob', ch'), st')"
    using 2 unfolding Let_def and_then_done [of "insert_row _ _ _"] by blast
  obtain st3 v where 5: "(case active of None \<Rightarrow> give ()
           | Some a \<Rightarrow> insert_row (insert_statement ''mt_cds_active_item'' a (Some n) n) (add_active n a) (add_active n a)) st2
      = (Inr v, st3)"
    and 6: "and_then (store_cache_added (ob\<lparr>o_id := n\<rparr>)) (\<lambda>_. give (ob\<lparr>o_id := n\<rparr>, ch)) st3 = (Inr (ob', ch'), st')"
    using 4 unfolding and_then_done [of "case active of None \<Rightarrow> give () | Some a \<Rightarrow> _ a"] by blast
  have row: "stored_row n d \<in> set (table st2)"
  proof -
    have "adds (stored_row n d) st1 st2" using insert_row_adds [OF 3] by simp
    then have "set (table st2) = insert (stored_row n d) (set (table st1))"
      using mset_eq_setD [of "table st2" "stored_row n d # table st1"] by (simp add: adds_def)
    then show ?thesis by simp
  qed
  have "table st3 = table st2" using 5 insert_active_same by (cases active) fastforce+
  moreover have "grows_to st3 st'" and "ob' = ob\<lparr>o_id := n\<rparr>"
    using 6 grows_store_cache_added [of st3 "ob\<lparr>o_id := n\<rparr>"] by (auto simp: and_then_done)
  ultimately have "stored_row n d \<in> set (table st') \<and> ob' = ob\<lparr>o_id := n\<rparr>"
    using row grows_to_table by simp
  moreover have "CDS_ID_FS_ROOT < n \<and> n < 2 ^ 31"
    using 1 assms(2) by (auto simp: getNextID_def ids_unique_def split: if_splits)
  ultimately show ?thesis by blast
qed

definition reference_row :: "table_row \<Rightarrow> int \<Rightarrow> zstring \<Rightarrow> bool" where
  \<comment> \<open>a row below that parent, with that title, that refers to a row\<close>
  "reference_row r parentID title \<longleftrightarrow>
     col_is r ''parent_id'' (sql_int parentID) \<and> col_is r ''dc_title'' (sql_quote title)
     \<and> (\<exists>k. col_is r ''ref_id'' (sql_int k))"

lemma column_names: "nul_free ''parent_id''" "nul_free ''ref_id''" "nul_free ''dc_title''" "nul_free ''object_type''"
  "nul_free ''upnp_class''" "nul_free ''metadata''" "nul_free ''auxdata''" "nul_free ''resources''" "nul_free ''flags''"
  "nul_free ''track_number''" "nul_free ''service_id''" "nul_free ''mime_type''"
  by (simp_all add: nul_free_def)

lemma common_columns_get:
  "d_get (common_columns ob refObj True False False) (Some ''ref_id'') = sql_int (o_id (the refObj))"
  "d_get (common_columns ob refObj True False False) (Some ''dc_title'') = sql_quote (o_title ob)"
  unfolding common_columns_def Let_def if_distrib [of "\<lambda>d. d_get d _"]
  by (simp_all add: get_put_col column_names)

lemma reference_columns_get:
  assumes "k = ''ref_id'' \<or> k = ''dc_title''"
  shows "d_get (item_columns ob i ref True False
      (put_col ''flags'' f (resource_columns ob' refObj True False d))) (Some k) = d_get d (Some k)"
  using assms unfolding item_columns_def resource_columns_def Let_def if_distrib [of "\<lambda>d. d_get d _"]
  by (auto simp: get_put_col column_names)

definition same_song :: "cds_object \<Rightarrow> cds_object \<Rightarrow> bool" where
  \<comment> \<open>what filing an object leaves alone\<close>
  "same_song ob ob' \<longleftrightarrow> o_virt ob' = o_virt ob \<and> o_objectType ob' = o_objectType ob \<and> o_title ob' = o_title ob
     \<and> o_metadata ob' = o_metadata ob \<and> o_auxdata ob' = o_auxdata ob"

lemma columns_of_reference:
  assumes "columns_of ensure duplicate ob False (Some refObj, True, False) = Inr data" "IS_CDS_PURE_ITEM (o_objectType ob)"
  shows "(data = None \<and> duplicate (o_parentID ob) (o_id refObj) (o_title ob)) \<or>
    (\<exists>d. data = Some (clearFlag ob OBJECT_FLAG_USE_RESOURCE_REF, d, None)
       \<and> (\<forall>n. reference_row (stored_row n d) (o_parentID ob) (o_title ob)))"
proof -
  have ty: "\<not> IS_CDS_CONTAINER (o_objectType ob)" "IS_CDS_ITEM (o_objectType ob)"
    "\<not> IS_CDS_ACTIVE_ITEM (o_objectType ob)"
    using assms(2) by (simp_all add: IS_CDS_defs)
  let ?ob = "clearFlag ob OBJECT_FLAG_USE_RESOURCE_REF"
  let ?c = "common_columns ob (Some refObj) True False False"
  let ?d = "\<lambda>i ref. put_col ''parent_id'' (z_from (o_parentID ob)) (item_columns ?ob i ref True False
      (put_col ''flags'' (sql_uint (o_objectFlags ?ob)) (resource_columns ob (Some refObj) True False ?c)))"
  have cf: "o_parentID ?ob = o_parentID ob" "o_title ?ob = o_title ob" by (simp_all add: clearFlag_def)
  have zf: "z_from k = sql_int k" for k by (simp add: z_from_def sql_int_def)
  have quoted: "sql_quote t \<noteq> None" "sql_int k \<noteq> None" for t k by (simp_all add: sql_quote_def sql_int_def)
  have "d_get (?d i ref) (Some ''ref_id'') = sql_int (o_id refObj)" "d_get (?d i ref) (Some ''dc_title'') = sql_quote (o_title ob)"
    "d_get (?d i ref) (Some ''parent_id'') = sql_int (o_parentID ob)" for i ref
    by (simp_all add: reference_columns_get common_columns_get get_put_col column_names zf)
  then have "stored_row n (?d i ref) ''ref_id'' = literal_value (sql_int (o_id refObj))"
    "stored_row n (?d i ref) ''dc_title'' = literal_value (sql_quote (o_title ob))"
    "stored_row n (?d i ref) ''parent_id'' = literal_value (sql_int (o_parentID ob))" for i ref n
    by (simp_all add: stored_col quoted)
  then have row: "reference_row (stored_row n (?d i ref)) (o_parentID ob) (o_title ob)" for n i ref
    unfolding reference_row_def col_is_def by (auto simp: literal_value_quote)
  show ?thesis
    using assms(1) unfolding columns_of_def prod.case Let_def
    by (auto simp: ty item_location_def cf row split: option.splits if_splits)
qed

lemma store_find_reference_virtual:
  assumes "store_find_reference ob st = (Inr x, st')" "o_virt ob" "IS_CDS_PURE_ITEM (o_objectType ob)"
  shows "\<exists>refObj. x = (Some refObj, True, False)"
  using assms by (auto simp: store_find_reference_def Let_def and_then_def split: if_splits prod.splits sum.splits)

lemma addObject_virtual_row:
  assumes "addObject f2i ob st = (Inr (ob', ch), st')" "o_virt ob" "IS_CDS_PURE_ITEM (o_objectType ob)" "ids_unique st"
  shows "(\<exists>r \<in> set (table st'). reference_row r (o_parentID ob) (o_title ob)) \<and> same_song ob ob' \<and> o_parentID ob' = o_parentID ob"
proof -
  obtain data ch1 st1 where
    1: "store_addUpdateObject f2i ob False st = (Inr (data, ch1), st1)"
    and 2: "(case data of None \<Rightarrow> give (clearFlag ob OBJECT_FLAG_USE_RESOURCE_REF, ch1)
        | Some row \<Rightarrow> insert_object ch1 row) st1 = (Inr (ob', ch), st')"
    using assms(1) by (auto simp: addObject_def and_then_done split: if_splits)
  obtain x st0 where 3: "store_find_reference ob st = (Inr x, st0)"
    using 1 unfolding store_addUpdateObject_def and_then_done by blast
  then obtain refObj where x: "x = (Some refObj, True, False)" using store_find_reference_virtual assms(2,3) by blast
  have e: "store_addUpdateObject f2i ob False st
      = and_then (of_result (columns_of (\<lambda>_. Inr INVALID_OBJECT_ID) (has_duplicate st0) ob False (Some refObj, True, False)))
          (\<lambda>data. give (data, INVALID_OBJECT_ID)) st0"
    unfolding store_addUpdateObject_def
    by (simp add: and_then_Inr [of "store_find_reference ob", OF 3 [unfolded x]] needs_path_def)
  have c: "columns_of (\<lambda>_. Inr INVALID_OBJECT_ID) (has_duplicate st0) ob False (Some refObj, True, False) = Inr data"
    and st1: "st1 = st0"
    using 1 unfolding e by (auto split: sum.splits)
  have u: "ids_unique st1"
    using keepsD [OF keeps_store_find_reference, of "{}" st ob] assms(4) 3 by (simp add: st1)
  have same: "same_song ob (clearFlag ob m)" "o_parentID (clearFlag ob m) = o_parentID ob" for m
    by (simp_all add: same_song_def clearFlag_def)
  from columns_of_reference [OF c assms(3)] show ?thesis
  proof (elim disjE exE conjE)
    assume d: "data = None" and dup: "has_duplicate st0 (o_parentID ob) (o_id refObj) (o_title ob)"
    from dup obtain r where r: "r \<in> set (st_rows st0)" "reference_row r (o_parentID ob) (o_title ob)"
      by (auto simp: has_duplicate_def reference_row_def)
    have "ob' = clearFlag ob OBJECT_FLAG_USE_RESOURCE_REF" "st' = st0" using 2 by (simp_all add: d st1)
    then show ?thesis using same r by (auto simp: table_def)
  next
    fix d assume d: "data = Some (clearFlag ob OBJECT_FLAG_USE_RESOURCE_REF, d, None)"
      and row: "\<forall>n. reference_row (stored_row n d) (o_parentID ob) (o_title ob)"
    obtain n where "stored_row n d \<in> set (table st')"
      "ob' = (clearFlag ob OBJECT_FLAG_USE_RESOURCE_REF)\<lparr>o_id := n\<rparr>"
      using insert_object_row [OF 2 [unfolded d option.case] u] by blast
    then show ?thesis using row same by (auto simp: same_song_def)
  qed
qed

section \<open>Where an object is filed\<close>

definition filed :: "store \<Rightarrow> string \<Rightarrow> zstring \<Rightarrow> bool" where
  \<comment> \<open>the container of the chain is there, with a row of that title that refers to another\<close>
  "filed st chain title \<longleftrightarrow>
     (\<exists>i. container_at st (squeeze VIRTUAL_CONTAINER_SEPARATOR chain) i
        \<and> (\<exists>r \<in> set (table st). reference_row r i title))"

definition filed_in :: "(string \<times> zstring) set \<Rightarrow> manager \<Rightarrow> bool" where
  "filed_in F s \<longleftrightarrow> ids_unique (cm_store s) \<and> (\<forall>(chain, title) \<in> F. filed (cm_store s) chain title)"

lemma filed_kept: "filed st chain title \<Longrightarrow> kept (set (table st)) st' \<Longrightarrow> filed st' chain title"
  unfolding filed_def container_at_def kept_def by blast

lemma keeps_filed_in:
  assumes "\<And>R. keeps (rows_kept R) m"
  shows "keeps (filed_in F) m"
proof (rule keepsI)
  fix s assume f: "filed_in F s"
  then have "rows_kept (set (table (cm_store s))) s" by (simp add: filed_in_def rows_kept_def kept_def)
  then have k: "kept (set (table (cm_store s))) (cm_store (snd (m s)))"
    using keepsD [OF assms] by (simp add: rows_kept_def)
  then show "filed_in F (snd (m s))"
    using f filed_kept [OF _ k] by (auto simp: filed_in_def kept_def)
qed

lemma on_store_done: "on_store m s = (Inr x, s') \<longleftrightarrow> (\<exists>st'. m (cm_store s) = (Inr x, st') \<and> s' = s\<lparr>cm_store := st'\<rparr>)"
  by (auto simp: on_store_def split: prod.split)

lemma cm_addObject_row:
  assumes "cm_addObject f2i cp ob s = (Inr ob', s')" "o_virt ob" "IS_CDS_PURE_ITEM (o_objectType ob)"
    "ids_unique (cm_store s)"
  shows "(\<exists>r \<in> set (table (cm_store s')). reference_row r (o_parentID ob) (o_title ob)) \<and> same_song ob ob'"
proof -
  have ty: "\<not> IS_CDS_ITEM_EXTERNAL_URL (o_objectType ob)" using assms(3) by (simp add: IS_CDS_defs)
  obtain l ob1 ch s1 u where
    1: "on_store (addObject f2i (ob\<lparr>o_location := l\<rparr>)) s = (Inr (ob1, ch), s1)"
    and 2: "object_added ch ob1 s1 = (Inr u, s')" and ob': "ob' = ob1"
    using assms(1) by (auto simp: cm_addObject_def ty and_then_done split: sum.splits)
  obtain st1 where 3: "addObject f2i (ob\<lparr>o_location := l\<rparr>) (cm_store s) = (Inr (ob1, ch), st1)"
    and s1: "s1 = s\<lparr>cm_store := st1\<rparr>"
    using 1 by (auto simp: on_store_done)
  from addObject_virtual_row [OF 3] assms(2-4) obtain r where
    r: "r \<in> set (table st1)" "reference_row r (o_parentID ob) (o_title ob)" and same: "same_song ob ob'"
    by (auto simp: same_song_def ob')
  have "ids_unique st1" using keepsD [OF keeps_addObject, of "{}"] assms(4) 3 by (metis kept_none snd_conv)
  then have "rows_kept {r} s1" using r by (simp add: rows_kept_def kept_def s1)
  then have "rows_kept {r} s'" using keepsD [OF keeps_object_added] 2 by (metis snd_conv)
  then show ?thesis using r same by (auto simp: rows_kept_def kept_def)
qed

definition song_item :: "cds_object \<Rightarrow> bool" where
  "song_item ob \<longleftrightarrow> o_virt ob \<and> IS_CDS_PURE_ITEM (o_objectType ob)"

definition plain_chain :: "zstring \<Rightarrow> bool" where
  \<comment> \<open>the text of a chain: more than the separator\<close>
  "plain_chain chain \<longleftrightarrow> (\<exists>c. chain = Some c \<and> nul_free c
     \<and> squeeze VIRTUAL_CONTAINER_SEPARATOR c \<noteq> [VIRTUAL_CONTAINER_SEPARATOR])"

lemma cm_addContainerChain_row:
  assumes "cm_addContainerChain chain cls refID s = (Inr i, s')" "plain_chain chain" "ids_unique (cm_store s)"
  shows "container_at (cm_store s') (squeeze VIRTUAL_CONTAINER_SEPARATOR (the chain)) i"
proof -
  obtain u st' where "addContainerChain chain cls refID (Some INVALID_OBJECT_ID) (cm_store s) = (Inr (i, u), st')"
    and "cm_store s' = st'"
    using assms(1) by (auto simp: cm_addContainerChain_def and_then_done on_store_done upnp_changed_def ui_changed_def
        split: if_splits)
  then show ?thesis using addContainerChain_row assms(2,3) by (auto simp: plain_chain_def)
qed

lemma layout_add_files:
  assumes "layout_add f2i cp ob i use_ref s = (Inr ob', s')" "song_item ob" "ids_unique (cm_store s)"
    "container_at (cm_store s) (squeeze VIRTUAL_CONTAINER_SEPARATOR chain) i" "filed_in F s"
  shows "filed_in (insert (chain, o_title ob) F) s' \<and> same_song ob ob'"
proof -
  define ob1 where "ob1 = (if use_ref then setFlag (ob\<lparr>o_parentID := i\<rparr>) OBJECT_FLAG_USE_RESOURCE_REF
      else ob\<lparr>o_parentID := i\<rparr>)\<lparr>o_id := INVALID_OBJECT_ID\<rparr>"
  have run: "cm_addObject f2i cp ob1 s = (Inr ob', s')" using assms(1) by (simp add: layout_add_def Let_def ob1_def)
  have ob1: "same_song ob ob1" "o_parentID ob1 = i" by (simp_all add: ob1_def same_song_def setFlag_def)
  then have "o_virt ob1" "IS_CDS_PURE_ITEM (o_objectType ob1)" "o_title ob1 = o_title ob"
    using assms(2) by (simp_all add: same_song_def song_item_def)
  note row = cm_addObject_row [OF run this(1,2) assms(3), unfolded this(3) ob1(2)]
  have "rows_kept (set (table (cm_store s))) s" using assms(3) by (simp add: rows_kept_def kept_def)
  then have "kept (set (table (cm_store s))) (cm_store s')"
    using keepsD [OF keeps_cm_addObject] run by (metis rows_kept_def snd_conv)
  then have "container_at (cm_store s') (squeeze VIRTUAL_CONTAINER_SEPARATOR chain) i"
    using assms(4) unfolding container_at_def kept_def by blast
  moreover have "filed_in F s'" using keepsD [OF keeps_filed_in [OF keeps_cm_addObject] assms(5)] run by (metis snd_conv)
  ultimately show ?thesis
    using row ob1(1) by (auto simp: filed_in_def filed_def same_song_def)
qed

definition next_song :: "(string \<times> zstring) set \<Rightarrow> cds_object \<Rightarrow> cds_object \<Rightarrow> manager \<Rightarrow> bool" where
  \<comment> \<open>the object is filed so far and is still the same song\<close>
  "next_song F ob ob' s \<longleftrightarrow> filed_in F s \<and> same_song ob ob' \<and> song_item ob'"

lemma file_under_files:
  assumes "plain_chain chain"
  shows "returns (next_song F ob0 ob) (file_under f2i cp chain cls refID use_ref ob)
    (next_song (insert (the chain, o_title ob) F) ob0)"
proof (rule returnsI)
  fix s ob' s' assume p: "next_song F ob0 ob s" and run: "file_under f2i cp chain cls refID use_ref ob s = (Inr ob', s')"
  obtain i s1 where 1: "cm_addContainerChain chain cls refID s = (Inr i, s1)"
    and 2: "layout_add f2i cp ob i use_ref s1 = (Inr ob', s')"
    using run by (auto simp: file_under_def and_then_done)
  have f: "filed_in F s1"
    using keepsD [OF keeps_filed_in [OF keeps_cm_addContainerChain]] p 1 by (metis next_song_def snd_conv)
  have c: "container_at (cm_store s1) (squeeze VIRTUAL_CONTAINER_SEPARATOR (the chain)) i"
    using cm_addContainerChain_row [OF 1 assms] p by (simp add: next_song_def filed_in_def)
  have "song_item ob" "ids_unique (cm_store s1)" using p f by (simp_all add: next_song_def filed_in_def)
  from layout_add_files [OF 2 this c f] show "next_song (insert (the chain, o_title ob) F) ob0 ob' s'"
    using p by (auto simp: next_song_def same_song_def song_item_def)
qed

lemma file_main_files:
  assumes "plain_chain chain" "song_item ob"
  shows "returns (filed_in F) (file_main f2i cp chain ob) (next_song (insert (the chain, o_title ob) F) ob)"
proof (rule returnsI)
  fix s ob' s' assume p: "filed_in F s" and run: "file_main f2i cp chain ob s = (Inr ob', s')"
  obtain i s1 where 1: "cm_addContainerChain chain None INVALID_OBJECT_ID s = (Inr i, s1)"
    and 2: "(if o_id ob \<noteq> INVALID_OBJECT_ID then layout_add f2i cp (ob\<lparr>o_refID := o_id ob\<rparr>) i True
       else and_then (layout_add f2i cp ob i True) (\<lambda>ob. give (ob\<lparr>o_refID := o_id ob\<rparr>))) s1 = (Inr ob', s')"
    using run unfolding file_main_def and_then_done [of "cm_addContainerChain _ _ _"] by blast
  have f: "filed_in F s1"
    using keepsD [OF keeps_filed_in [OF keeps_cm_addContainerChain]] p 1 by (metis snd_conv)
  have c: "container_at (cm_store s1) (squeeze VIRTUAL_CONTAINER_SEPARATOR (the chain)) i"
    using cm_addContainerChain_row [OF 1 assms(1)] p by (simp add: filed_in_def)
  have u: "ids_unique (cm_store s1)" using f by (simp add: filed_in_def)
  have add: "filed_in (insert (the chain, o_title x) F) t \<and> same_song x y"
    if "layout_add f2i cp x i True s1 = (Inr y, t)" "song_item x" for x y t
    by (rule layout_add_files [OF that u c f])
  show "next_song (insert (the chain, o_title ob) F) ob ob' s'"
  proof (cases "o_id ob \<noteq> INVALID_OBJECT_ID")
    case True
    then show ?thesis using add [of "ob\<lparr>o_refID := o_id ob\<rparr>"] 2 assms(2)
      by (auto simp: next_song_def same_song_def song_item_def)
  next
    case False
    then show ?thesis using add [of ob] 2 assms(2)
      by (auto simp: next_song_def same_song_def song_item_def and_then_done)
  qed
qed

definition slash_start :: "zstring \<Rightarrow> bool" where
  "slash_start z \<longleftrightarrow> (\<exists>c r. z = Some (VIRTUAL_CONTAINER_SEPARATOR # c # r) \<and> c \<noteq> VIRTUAL_CONTAINER_SEPARATOR \<and> nul_free (c # r))"

lemma squeeze_not_Nil: "s \<noteq> [] \<Longrightarrow> squeeze c s \<noteq> []"
  by (induction c s rule: squeeze.induct) auto

lemma slash_start_plain: "slash_start z \<Longrightarrow> plain_chain z"
proof -
  assume "slash_start z"
  then obtain c r where z: "z = Some (VIRTUAL_CONTAINER_SEPARATOR # c # r)" "c \<noteq> VIRTUAL_CONTAINER_SEPARATOR"
    "nul_free (c # r)" by (auto simp: slash_start_def)
  then show ?thesis using squeeze_not_Nil [of "c # r" VIRTUAL_CONTAINER_SEPARATOR]
    by (simp add: plain_chain_def nul_free_def)
qed

lemma slash_start_append: "slash_start z \<Longrightarrow> slash_start (z_append z y)"
  using nul_free_cstr by (auto simp: slash_start_def z_append_def cstring_simps split: option.split)

lemma plain_chain_append: "slash_start z \<Longrightarrow> plain_chain (z_append z y)"
  by (intro slash_start_plain slash_start_append)

lemma slash_start_texts:
  "slash_start (Some ''/Audio/All Audio'')" "slash_start (Some ''/Audio/Artists/'')" "slash_start (Some ''/Audio/Albums/'')"
  "slash_start (Some ''/Audio/Genres/'')" "slash_start (Some ''/Audio/Year/'')" "slash_start (Some ''/Audio/All - full name'')"
  by (simp_all add: slash_start_def nul_free_def)

definition audio_places :: "song \<Rightarrow> (zstring \<times> zstring) list result" where
  \<comment> \<open>the chains a song is filed under, each with the title it has there\<close>
  "audio_places sg =
     bind_result (esc (sg_artist sg)) (\<lambda>artist. bind_result (esc (sg_album sg)) (\<lambda>album.
     bind_result (esc (sg_genre sg)) (\<lambda>genre. bind_result (esc (sg_date sg)) (\<lambda>date.
       let artists = z_append (Some ''/Audio/Artists/'') artist
       in Inr [(Some ''/Audio/All Audio'', sg_title sg),
               (z_append artists (Some ''/All Songs''), sg_title sg),
               (z_append (z_append artists (Some ''/'')) album, sg_title sg),
               (z_append (Some ''/Audio/Albums/'') album, sg_title sg),
               (z_append (Some ''/Audio/Genres/'') genre, sg_title sg),
               (z_append (Some ''/Audio/Year/'') date, sg_title sg),
               (Some ''/Audio/All - full name'', full_name sg),
               (z_append artists (Some ''/All - full name''), full_name sg)]))))"

lemma same_song_refl [simp]: "same_song ob ob"
  by (simp add: same_song_def)

lemma next_file_under:
  assumes "plain_chain chain" "same_song ob0 ob" "song_item ob"
    and "\<And>ob'. same_song ob0 ob' \<Longrightarrow> song_item ob' \<Longrightarrow> returns (filed_in (insert (the chain, o_title ob0) F)) (f ob') Q"
  shows "returns (filed_in F) (and_then (file_under f2i cp chain cls refID use_ref ob) f) Q"
proof (rule returns_and_then)
  show "returns (filed_in F) (file_under f2i cp chain cls refID use_ref ob) (next_song (insert (the chain, o_title ob0) F) ob0)"
    using returns_pre [OF file_under_files [OF assms(1), of F ob0 ob f2i cp cls refID use_ref], of "filed_in F"] assms(2,3)
    by (simp add: next_song_def same_song_def)
  show "returns (next_song (insert (the chain, o_title ob0) F) ob0 ob') (f ob') Q" for ob'
    by (rule returns_assuming [where b = "same_song ob0 ob' \<and> song_item ob'"], simp add: next_song_def,
        rule returns_pre [OF assms(4)]) (simp_all add: next_song_def)
qed

lemma next_file_main:
  assumes "plain_chain chain" "song_item ob0"
    and "\<And>ob'. same_song ob0 ob' \<Longrightarrow> song_item ob' \<Longrightarrow> returns (filed_in (insert (the chain, o_title ob0) F)) (f ob') Q"
  shows "returns (filed_in F) (and_then (file_main f2i cp chain ob0) f) Q"
proof (rule returns_and_then [OF file_main_files [OF assms(1,2)]])
  show "returns (next_song (insert (the chain, o_title ob0) F) ob0 ob') (f ob') Q" for ob'
    by (rule returns_assuming [where b = "same_song ob0 ob' \<and> song_item ob'"], simp add: next_song_def,
        rule returns_pre [OF assms(3)]) (simp_all add: next_song_def)
qed

lemma last_file_under:
  assumes "plain_chain chain" "same_song ob0 ob" "song_item ob"
    and "\<And>ob' s. filed_in (insert (the chain, o_title ob0) F) s \<Longrightarrow> Q ob' s"
  shows "returns (filed_in F) (file_under f2i cp chain cls refID use_ref ob) Q"
proof -
  have "and_then m give = m" for m :: "(manager, cds_object) action"
    by (simp add: and_then_def fun_eq_iff split: prod.split sum.split)
  then show ?thesis using next_file_under [OF assms(1-3), of F give Q] assms(4)
    by (simp add: returns_give)
qed

lemma addAudio_files:
  assumes "song_item ob" "song_of ob = Inr sg"
  shows "returns (filed_in {}) (addAudio f2i cp ob)
    (\<lambda>_ s. \<exists>places. audio_places sg = Inr places \<and> filed_in ((\<lambda>(chain, title). (the chain, title)) ` set places) s)"
proof -
  let ?ob = "(described sg ob)\<lparr>o_title := sg_title sg\<rparr>"
  have song: "song_item ?ob" "o_title ?ob = sg_title sg" using assms(1) by (simp_all add: song_item_def described_def)
  have named: "song_item (ob\<lparr>o_title := t\<rparr>)" if "song_item ob" for ob t using that by (simp add: song_item_def)
  note plain = slash_start_texts [THEN slash_start_plain] slash_start_texts [THEN plain_chain_append]
    slash_start_texts [THEN slash_start_append, THEN plain_chain_append]
    slash_start_texts [THEN slash_start_append, THEN slash_start_append, THEN plain_chain_append]
  have known: "and_then (of_result (song_of ob)) f = f sg" for f :: "song \<Rightarrow> (manager, cds_object) action"
    by (simp add: fun_eq_iff assms(2))
  show ?thesis
    unfolding addAudio_def known Let_def
    by (rule next_file_main [OF plain(1) song(1)],
        (rule returns_of_result | rule next_file_under, rule plain, assumption, assumption)+,
        rule next_file_under, rule plain, rule same_song_refl, rule named, assumption,
        rule last_file_under, rule plain, assumption, assumption)
      (simp add: audio_places_def Let_def song insert_commute)
qed

section \<open>The layout keeps every row\<close>

lemma keeps_case_option:
  "keeps P m \<Longrightarrow> (\<And>x. keeps P (f x)) \<Longrightarrow> keeps P (case z of None \<Rightarrow> m | Some x \<Rightarrow> f x)"
  by (cases z) simp_all

lemma keeps_layout_add: "keeps (rows_kept R) (layout_add f2i cp ob i use_ref)"
  by (simp add: layout_add_def Let_def keeps_cm_addObject)

lemma keeps_file_under: "keeps (rows_kept R) (file_under f2i cp chain cls refID use_ref ob)"
  unfolding file_under_def by (intro keeps_intros keeps_cm_addContainerChain keeps_layout_add)

lemma keeps_file_main: "keeps (rows_kept R) (file_main f2i cp chain ob)"
  unfolding file_main_def by (intro keeps_intros keeps_cm_addContainerChain keeps_layout_add)

lemma keeps_file_directories: "keeps (rows_kept R) (file_directories f2i cp prefix rootpath ob)"
  unfolding file_directories_def by (intro keeps_intros keeps_file_under)

lemma keeps_file_month: "keeps (rows_kept R) (file_month f2i cp prefix date ob)"
  unfolding file_month_def by (intro keeps_intros keeps_file_under)

lemmas keeps_filing = keeps_file_under keeps_file_main keeps_file_directories keeps_file_month

lemma keeps_addVideo: "keeps (rows_kept R) (addVideo f2i cp ob rootpath)"
  unfolding addVideo_def by (intro keeps_intros keeps_filing)

lemma keeps_addImage: "keeps (rows_kept R) (addImage f2i cp ob rootpath)"
  unfolding addImage_def Let_def
  by (intro keeps_intros keeps_filing keeps_case_option) (auto intro!: keeps_intros keeps_filing)

lemma keeps_addAudio: "keeps (rows_kept R) (addAudio f2i cp ob)"
  unfolding addAudio_def Let_def by (intro keeps_intros keeps_filing)

lemma keeps_addSopCast: "keeps (rows_kept R) (addSopCast f2i cp ob)"
  unfolding addSopCast_def Let_def by (intro keeps_intros keeps_filing)

lemma keeps_genre_loop: "keeps (rows_kept R) (genre_loop f2i cp tk genre ob)"
proof (induction f2i cp tk genre ob rule: genre_loop.induct)
  case (1 f2i cp tk genre ob)
  obtain g tk1 where g: "(if string_ok genre then (genre, tk) else tk_nextToken tk '','') = (g, tk1)" by fastforce
  obtain nxt tk2 where n: "tk_nextToken tk1 '','' = (nxt, tk2)" by fastforce
  show ?case
    by (subst genre_loop.simps) (auto simp: g n intro!: keeps_intros keeps_filing 1 [OF g [symmetric] n [symmetric]])
qed

lemma keeps_addATrailers: "keeps (rows_kept R) (addATrailers f2i cp ob)"
  unfolding addATrailers_def Let_def by (intro keeps_intros keeps_filing keeps_genre_loop)

lemma keeps_processCdsObject: "keeps (rows_kept R) (processCdsObject f2i cp mappings ob rootpath)"
  unfolding processCdsObject_def Let_def
  by (intro keeps_intros keeps_addVideo keeps_addImage keeps_addAudio keeps_addSopCast keeps_addATrailers)


section \<open>An example\<close>

definition demo_song :: cds_object where
  "demo_song = new_CdsItem\<lparr>o_id := 11, o_virt := True, o_title := Some ''t'', o_location := Some ''/a.mp3'',
     o_metadata := [(Some ''upnp:artist'', Some ''Bj/rk''), (Some ''dc:date'', Some ''1995-06-13'')]\<rparr>"

lemma song_of_demo:
  "song_of demo_song = Inr \<lparr>sg_title = Some ''t'', sg_artist = Some ''Bj/rk'', sg_album = Some ''Unknown'',
      sg_date = Some ''1995'', sg_genre = Some ''Unknown'', sg_artist_full = Some ''Bj/rk'', sg_album_full = None,
      sg_desc = Some ''Bj/rk, t, 1995''\<rparr>"
  by (simp add: song_of_def demo_song_def new_Cds_defs z_eq_def z_append_def string_ok_def cstr_def or_unknown_def
        Let_def z_index_def index_from_def) (simp add: z_substring_def strncpy_def cstr_def bind_result_def)

end
