(* ===== verification/File_Import.thy ===== *)
theory File_Import
  imports Fallback_Layout
begin

text \<open>
  Importing files (src/content_manager.cc, metadata_handler.cc, tools.cc): \<open>get_filename\<close>,
  \<open>check_path\<close>, \<open>check_path_ex\<close>, \<open>extension2mimetype\<close>, \<open>mimetype2upnpclass\<close>,
  \<open>setMetadata\<close>, \<open>createObjectFromFile\<close>, \<open>addVirtualItem\<close>, \<open>_addFile\<close> and
  \<open>addRecursive\<close>, with the layout as an interface that Fallback_Layout provides.

  The record \<open>import_env\<close> holds what the code reads: the file system at the time of the call
  (\<open>stat\<close>, \<open>opendir\<close> and \<open>readdir\<close>, with the texts of \<open>strerror\<close>), the character set
  conversion, libmagic, the test for Theora, the metadata handlers, the options, and for every
  entry of a directory whether the loop still runs when it is read (neither shutdown nor an
  invalid task). Directories are nested at most as deep as a path can be long: \<open>opendir\<close> fails
  with \<open>ENAMETOOLONG\<close> from \<open>PATH_MAX\<close> bytes on.
\<close>

section \<open>The surroundings\<close>

datatype file_kind = Regular_File | Fifo_File | Directory_File | Other_File

record file_status =
  fs_kind :: file_kind
  fs_mtime :: int
  fs_size :: int

record import_env =
  ie_stat :: "string \<Rightarrow> int + file_status"        \<comment> \<open>the error number or the status\<close>
  ie_entries :: "string \<Rightarrow> int + string list"
  ie_strerror :: "int \<Rightarrow> string"
  ie_alive :: "string \<Rightarrow> bool"
  ie_f2i :: "zstring \<Rightarrow> zstring"
  ie_magic :: "zstring \<Rightarrow> zstring"
  ie_isTheora :: "zstring \<Rightarrow> bool"
  ie_handlers :: "zstring \<Rightarrow> cds_object \<Rightarrow> cds_object result"
  ie_extensions :: "dictionary option"
  ie_classes :: "dictionary option"
  ie_contents :: dictionary
  ie_ignore_unknown :: bool
  ie_case_sensitive :: bool
  ie_configFilename :: zstring

definition PATH_MAX :: nat where
  "PATH_MAX = 4096"

definition opendir :: "import_env \<Rightarrow> string \<Rightarrow> int + string list" where
  "opendir env path = (if length path < PATH_MAX then ie_entries env path else Inl 36)"

definition c_str :: "zstring \<Rightarrow> string" where
  "c_str z = (case z of None \<Rightarrow> [] | Some s \<Rightarrow> cstr s)"

section \<open>Paths\<close>

definition get_filename :: "zstring \<Rightarrow> zstring result" where
  \<comment> \<open>the last character of an empty path is read in front of the text\<close>
  "get_filename path =
     (case path of
        None \<Rightarrow> Inl Abort
      | Some s \<Rightarrow>
          if s = [] then Inl Abort
          else bind_result (if last s = DIR_SEPARATOR then z_substring path 0 (z_length path - 1) else Inr path) (\<lambda>path.
            let pos = z_rindex path DIR_SEPARATOR
            in if pos < 0 then Inr path else z_substring_from path (pos + 1)))"

definition check_path :: "import_env \<Rightarrow> zstring \<Rightarrow> bool \<Rightarrow> bool" where
  "check_path env path needDir =
     (case ie_stat env (c_str path) of
        Inl _ \<Rightarrow> False
      | Inr st \<Rightarrow> \<not> (needDir \<and> fs_kind st \<noteq> Directory_File \<or> \<not> needDir \<and> fs_kind st = Directory_File))"

definition check_path_ex :: "import_env \<Rightarrow> zstring \<Rightarrow> bool \<Rightarrow> bool \<Rightarrow> (int \<times> int) result" where
  \<comment> \<open>the time of the last change and \<open>*filesize\<close>; the digit of the flag follows the error number\<close>
  "check_path_ex env path needDir existenceUnneeded =
     (case ie_stat env (c_str path) of
        Inl errno \<Rightarrow>
          if existenceUnneeded \<and> errno = 2 then Inr (0, 0)
          else Inl (Throw (ie_strerror env errno @ '': '' @ c_str path @ '' (errno: '' @ show_int errno
                 @ (if existenceUnneeded then ''1'' else ''0'') @ '')''))
      | Inr st \<Rightarrow>
          if needDir \<and> fs_kind st \<noteq> Directory_File then Inl (Throw (''Not a directory: '' @ c_str path))
          else if \<not> needDir \<and> fs_kind st = Directory_File then Inl (Throw (''Not a file: '' @ c_str path))
          else Inr (fs_mtime st, if fs_kind st = Regular_File then fs_size st else 0))"

section \<open>Types\<close>

definition extension2mimetype :: "import_env \<Rightarrow> zstring \<Rightarrow> zstring" where
  "extension2mimetype env extension =
     (case ie_extensions env of
        None \<Rightarrow> None
      | Some d \<Rightarrow> d_get d (if \<not> ie_case_sensitive env then z_toLower extension else extension))"

definition mimetype2upnpclass :: "import_env \<Rightarrow> zstring \<Rightarrow> zstring" where
  "mimetype2upnpclass env mimeType =
     (case ie_classes env of
        None \<Rightarrow> None
      | Some d \<Rightarrow>
          (let upnpClass = d_get d mimeType
           in if upnpClass \<noteq> None then upnpClass
              else (let parts = split_string mimeType (CHR ''/'') False
                    in if length parts \<noteq> 2 then None
                       else d_get d (z_append (Some (parts ! 0)) (Some ''/*'')))))"

section \<open>An object for a file\<close>

definition setMetadata :: "import_env \<Rightarrow> cds_object \<Rightarrow> cds_object result" where
  \<comment> \<open>what the handlers for the content type add is \<open>ie_handlers\<close>\<close>
  "setMetadata env item =
     (let location = o_location item
      in bind_result (string_ok_ex location) (\<lambda>_.
         bind_result (check_path_ex env location False False) (\<lambda>(_, filesize).
         let mimetype = mime_of item;
             resource = r_addAttribute (new_CdsResource 0) (Some ''protocolInfo'')
                          (renderProtocolInfo mimetype (Some ''http-get'') None);
             resource = r_addAttribute resource (Some ''size'') (z_from filesize);
             item = item\<lparr>o_resources := o_resources item @ [resource]\<rparr>;
             content_type = d_get (ie_contents env) mimetype;
             item = (if z_eq content_type (Some ''ogg'') \<and> ie_isTheora env (o_location item)
                     then setFlag item OBJECT_FLAG_OGG_THEORA else item)
         in ie_handlers env content_type item)))"

definition file_type :: "import_env \<Rightarrow> string \<Rightarrow> zstring \<Rightarrow> bool \<Rightarrow> (zstring \<times> zstring) option result" where
  \<comment> \<open>MIME type and class; \<open>None\<close> when files of unknown extension are ignored\<close>
  "file_type env path filename magic =
     (let dotIndex = z_rindex filename (CHR ''.'')
      in bind_result (if dotIndex > 0 then z_substring_from filename (dotIndex + 1) else Inr None) (\<lambda>extension.
         let mimetype = (if magic then extension2mimetype env extension else None)
         in if mimetype = None \<and> magic \<and> ie_ignore_unknown env then Inr None
            else
              (let mimetype = (if mimetype = None \<and> magic then ie_magic env (Some path) else mimetype);
                   upnp_class = (if mimetype \<noteq> None then mimetype2upnpclass env mimetype else None);
                   upnp_class = (if \<not> string_ok upnp_class \<and> z_eq (d_get (ie_contents env) mimetype) (Some ''ogg'')
                                 then (if ie_isTheora env (Some path) then Some ''object.item.videoItem''
                                       else Some ''object.item.audioItem.musicTrack'')
                                 else upnp_class)
               in Inr (Some (mimetype, upnp_class)))))"

definition createObjectFromFile :: "import_env \<Rightarrow> string \<Rightarrow> bool \<Rightarrow> bool \<Rightarrow> cds_object option result" where
  "createObjectFromFile env path magic allow_fifo =
     bind_result (get_filename (Some path)) (\<lambda>filename.
     case ie_stat env (cstr path) of
       Inl errno \<Rightarrow> Inl (Throw (''Failed to stat '' @ path @ '' , '' @ ie_strerror env errno))
     | Inr st \<Rightarrow>
         if fs_kind st = Regular_File \<or> allow_fifo \<and> fs_kind st = Fifo_File then
           bind_result (file_type env path filename magic) (\<lambda>types.
           case types of
             None \<Rightarrow> Inr None
           | Some (mimetype, upnp_class) \<Rightarrow>
               (let item = new_CdsItem\<lparr>o_location := Some path, o_mtime := fs_mtime st, o_sizeOnDisk := fs_size st\<rparr>;
                    item = (if mimetype \<noteq> None then set_mime mimetype item else item);
                    item = (if upnp_class \<noteq> None then item\<lparr>o_upnpClass := upnp_class\<rparr> else item);
                    item = item\<lparr>o_title := ie_f2i env filename\<rparr>
                in bind_result (if magic then setMetadata env item else Inr item) (\<lambda>item. Inr (Some item))))
         else if fs_kind st = Directory_File then Inr (Some new_CdsContainer)
         else Inl (Throw (''ContentManager: skipping file '' @ cstr path)))"

section \<open>Adding files\<close>

abbreviation add_item :: "import_env \<Rightarrow> cds_object \<Rightarrow> (manager, cds_object) action" where
  "add_item env \<equiv> cm_addObject (ie_f2i env) (\<lambda>p. check_path env p False)"

type_synonym layout = "cds_object \<Rightarrow> zstring \<Rightarrow> (manager, unit) action"

definition addVirtualItem :: "import_env \<Rightarrow> cds_object \<Rightarrow> bool \<Rightarrow> (manager, cds_object) action" where
  "addVirtualItem env ob allow_fifo =
     and_then (of_result (validate (\<lambda>p. check_path env p False) ob)) (\<lambda>_.
     let path = o_location ob
     in and_then (of_result (check_path_ex env path False False)) (\<lambda>_.
        and_then (on_store (findObjectByPath path)) (\<lambda>pcdir.
        and_then
          (case pcdir of
             Some _ \<Rightarrow> give ob
           | None \<Rightarrow>
               and_then (of_result (createObjectFromFile env (the path) True allow_fifo)) (\<lambda>pcdir.
               case pcdir of
                 None \<Rightarrow> throw (Throw (''Could not add '' @ c_str path))
               | Some pcdir \<Rightarrow>
                   if IS_CDS_ITEM (o_objectType pcdir) then
                     and_then (add_item env pcdir) (\<lambda>pcdir. give (ob\<lparr>o_refID := o_id pcdir\<rparr>))
                   else give ob)) (\<lambda>ob.
        add_item env ob))))"

definition lay_out :: "layout option \<Rightarrow> cds_object \<Rightarrow> zstring \<Rightarrow> (manager, unit) action" where
  "lay_out lay ob rootpath = (case lay of None \<Rightarrow> give () | Some process \<Rightarrow> process ob rootpath)"

definition caught :: "('s, 'a) action \<Rightarrow> 'a \<Rightarrow> ('s, 'a) action" where
  \<comment> \<open>an exception is logged, and the variables keep their values\<close>
  "caught m x s = (case m s of (Inl (Throw _), t) \<Rightarrow> (Inr x, t) | r \<Rightarrow> r)"

fun each_entry :: "('a \<Rightarrow> 'b \<Rightarrow> ('s, 'b) action) \<Rightarrow> 'a list \<Rightarrow> 'b \<Rightarrow> ('s, 'b) action" where
  "each_entry f [] acc = give acc"
| "each_entry f (x # xs) acc = and_then (f x acc) (each_entry f xs)"

definition hidden_entry :: "bool \<Rightarrow> string \<Rightarrow> bool" where
  \<comment> \<open>the directory itself, its parent, and what starts with a dot unless wanted\<close>
  "hidden_entry hidden name \<longleftrightarrow> name = ''.'' \<or> name = ''..'' \<or> \<not> hidden \<and> byte_at name 0 = CHR ''.''"

definition entry_object :: "import_env \<Rightarrow> string \<Rightarrow> int \<Rightarrow> (manager, cds_object option \<times> int) action" where
  \<comment> \<open>the object of an entry, from the database or created, and \<open>parentID\<close>\<close>
  "entry_object env newPath parentID =
     and_then (if parentID > 0 then on_store (findObjectByPath (Some newPath)) else give None) (\<lambda>ob.
     case ob of
       Some ob \<Rightarrow> give (Some ob, parentID)
     | None \<Rightarrow>
         and_then (of_result (createObjectFromFile env newPath True False)) (\<lambda>ob.
         case ob of
           None \<Rightarrow> give (None, parentID)
         | Some ob \<Rightarrow>
             if IS_CDS_ITEM (o_objectType ob) then
               and_then (add_item env ob) (\<lambda>ob. give (Some ob, o_parentID ob))
             else give (Some ob, parentID)))"

function addRecursive ::
  "import_env \<Rightarrow> layout option \<Rightarrow> bool \<Rightarrow> zstring option \<Rightarrow> string \<Rightarrow> (manager, unit) action" where
  \<comment> \<open>\<open>task\<close> is the root path of the task when there is one\<close>
  "addRecursive env lay hidden task path =
     (if \<not> hidden \<and> byte_at path 0 = CHR ''.'' then give ()
      else
        (case opendir env path of
           Inl errno \<Rightarrow> throw (Throw (''could not list directory '' @ path @ '' : '' @ ie_strerror env errno))
         | Inr names \<Rightarrow>
             and_then (on_store (findObjectIDByPath (Some (path @ [DIR_SEPARATOR])))) (\<lambda>parentID.
             and_then
               (each_entry (\<lambda>name parentID.
                  if hidden_entry hidden name then give parentID
                  else
                    (let newPath = path @ DIR_SEPARATOR # name
                     in if z_eq (ie_configFilename env) (Some newPath) then give parentID
                        else
                          and_then (caught (entry_object env newPath parentID) (None, parentID)) (\<lambda>(ob, parentID).
                          case ob of
                            None \<Rightarrow> give parentID
                          | Some ob \<Rightarrow>
                              and_then (caught
                                (and_then
                                  (if IS_CDS_ITEM (o_objectType ob)
                                   then lay_out lay ob (case task of None \<Rightarrow> None | Some rootpath \<Rightarrow> rootpath)
                                   else give ()) (\<lambda>_.
                                 if IS_CDS_CONTAINER (o_objectType ob)
                                 then addRecursive env lay hidden task newPath else give ())) ()) (\<lambda>_.
                              give parentID))))
                  (takeWhile (\<lambda>name. ie_alive env (path @ DIR_SEPARATOR # name)) names) parentID) (\<lambda>_. give ()))))"
  by pat_completeness auto

termination
proof (relation "measure (\<lambda>(env, lay, hidden, task, path). PATH_MAX - length path)", goal_cases)
  case (2 env lay hidden task path names)
  then have "length path < PATH_MAX" by (simp add: opendir_def split: if_splits)
  then show ?case using 2 by simp
qed simp

declare addRecursive.simps [simp del]

definition new_file_object ::
  "import_env \<Rightarrow> layout option \<Rightarrow> string \<Rightarrow> zstring \<Rightarrow> zstring option \<Rightarrow> (manager, cds_object option) action" where
  \<comment> \<open>a file that is not in the database is added and laid out\<close>
  "new_file_object env lay path rootpath task =
     and_then (of_result (createObjectFromFile env path True False)) (\<lambda>ob.
     case ob of
       None \<Rightarrow> give None
     | Some ob \<Rightarrow>
         if IS_CDS_ITEM (o_objectType ob) then
           and_then (add_item env ob) (\<lambda>ob.
           and_then (lay_out lay ob (if \<not> string_ok rootpath \<and> task \<noteq> None then the task else rootpath)) (\<lambda>_.
             give (Some ob)))
         else give (Some ob))"

definition addFile ::
  "import_env \<Rightarrow> layout option \<Rightarrow> string \<Rightarrow> zstring \<Rightarrow> bool \<Rightarrow> bool \<Rightarrow> zstring option \<Rightarrow> (manager, int) action" where
  \<comment> \<open>\<open>_addFile\<close>\<close>
  "addFile env lay path rootpath recursive hidden task =
     and_then (if \<not> hidden then of_result (get_filename (Some path)) else give None) (\<lambda>filename.
     if string_ok filename \<and> byte_at (the filename) 0 = CHR ''.'' then give INVALID_OBJECT_ID
     else if z_eq (ie_configFilename env) (Some path) then give INVALID_OBJECT_ID
     else
       and_then (on_store (findObjectByPath (Some path))) (\<lambda>ob.
       and_then (case ob of Some ob \<Rightarrow> give (Some ob) | None \<Rightarrow> new_file_object env lay path rootpath task) (\<lambda>ob.
       case ob of
         None \<Rightarrow> give INVALID_OBJECT_ID
       | Some ob \<Rightarrow>
           and_then (if recursive \<and> IS_CDS_CONTAINER (o_objectType ob)
                     then addRecursive env lay hidden task path else give ()) (\<lambda>_.
             give (o_id ob)))))"

section \<open>The interface of a layout\<close>

locale import_layout =
  fixes process :: layout
  assumes process_keeps: "keeps (rows_kept R) (process ob rootpath)"

lemma keeps_caught [keeps_intros]: "keeps P m \<Longrightarrow> keeps P (caught m x)"
  by (fastforce simp: keeps_def caught_def split: prod.split sum.split failure.split)

lemma keeps_each_entry [keeps_intros]: "(\<And>x acc. keeps P (f x acc)) \<Longrightarrow> keeps P (each_entry f xs acc)"
  by (induction xs arbitrary: acc) (auto intro!: keeps_intros)

lemma keeps_case_opt [keeps_intros]:
  "keeps P m \<Longrightarrow> (\<And>x. keeps P (f x)) \<Longrightarrow> keeps P (case z of None \<Rightarrow> m | Some x \<Rightarrow> f x)"
  by (rule keeps_case_option)

lemmas keeps_reading = keeps_on_store [OF keeps_grows [OF grows_to_findObjectByPath]]
  keeps_on_store [OF keeps_grows [OF grows_to_findObjectIDByPath]]

lemma keeps_entry_object: "keeps (rows_kept R) (entry_object env newPath parentID)"
  unfolding entry_object_def
  by (intro keeps_intros keeps_reading keeps_cm_addObject)

lemma keeps_addVirtualItem: "keeps (rows_kept R) (addVirtualItem env ob allow_fifo)"
  unfolding addVirtualItem_def Let_def
  by (intro keeps_intros keeps_reading keeps_cm_addObject)

context import_layout begin

lemma keeps_lay_out: "lay \<in> {None, Some process} \<Longrightarrow> keeps (rows_kept R) (lay_out lay ob rootpath)"
  by (auto simp: lay_out_def process_keeps)

lemma keeps_addRecursive:
  assumes "lay \<in> {None, Some process}"
  shows "keeps (rows_kept R) (addRecursive env lay hidden task path)"
  using assms
proof (induction env lay hidden task path rule: addRecursive.induct)
  case (1 env lay hidden task path)
  show ?case
  proof (cases "\<not> hidden \<and> byte_at path 0 = CHR ''.''")
    case False
    show ?thesis
    proof (cases "opendir env path")
      case (Inr names)
      have deeper: "keeps (rows_kept R) (addRecursive env lay hidden task (path @ DIR_SEPARATOR # name))"
        if "\<not> hidden_entry hidden name" "\<not> z_eq (ie_configFilename env) (Some (path @ DIR_SEPARATOR # name))"
          "IS_CDS_CONTAINER (o_objectType ob)" for name and ob :: cds_object
        by (rule 1(1) [OF False Inr that(1) refl that(2) refl that(3) 1(2)])
      show ?thesis
        using False
        by (subst addRecursive.simps, simp only: Inr Let_def if_not_P [OF False] sum.case)
          (intro keeps_intros keeps_reading; simp split: prod.split;
            intro allI impI keeps_intros keeps_entry_object keeps_lay_out [OF 1(2)];
            auto intro: deeper)
    qed (use False in \<open>subst addRecursive.simps, simp\<close>)
  qed (subst addRecursive.simps, simp)
qed

lemma keeps_new_file_object:
  "lay \<in> {None, Some process} \<Longrightarrow> keeps (rows_kept R) (new_file_object env lay path rootpath task)"
  unfolding new_file_object_def
  by (intro keeps_intros keeps_cm_addObject keeps_lay_out)

lemma keeps_addFile:
  assumes "lay \<in> {None, Some process}"
  shows "keeps (rows_kept R) (addFile env lay path rootpath recursive hidden task)"
  unfolding addFile_def
  by (intro keeps_intros keeps_reading keeps_new_file_object [OF assms] keeps_addRecursive [OF assms])

end

abbreviation fallback_layout :: "import_env \<Rightarrow> layout" where
  "fallback_layout env \<equiv> processCdsObject (ie_f2i env) (\<lambda>p. check_path env p False) (ie_contents env)"

interpretation built_in: import_layout "fallback_layout env" for env
  by unfold_locales (rule keeps_processCdsObject)

section \<open>A file that was added has a row\<close>

definition handlers_fill :: "import_env \<Rightarrow> bool" where
  \<comment> \<open>the metadata handlers fill in metadata, auxdata, resources and the title, and change no more\<close>
  "handlers_fill env \<longleftrightarrow> (\<forall>content_type ob ob'. ie_handlers env content_type ob = Inr ob' \<longrightarrow>
     o_virt ob' = o_virt ob \<and> o_refID ob' = o_refID ob \<and> o_location ob' = o_location ob
     \<and> o_objectType ob' = o_objectType ob \<and> o_objectFlags ob' = o_objectFlags ob)"

definition new_file :: "cds_object \<Rightarrow> string \<Rightarrow> bool" where
  "new_file ob path \<longleftrightarrow> \<not> o_virt ob \<and> o_refID ob \<le> 0 \<and> IS_CDS_PURE_ITEM (o_objectType ob)
     \<and> getFlag ob OBJECT_FLAG_PLAYLIST_REF = 0 \<and> o_location ob = Some path"

definition file_at :: "store \<Rightarrow> string \<Rightarrow> int \<Rightarrow> bool" where
  "file_at st path i \<longleftrightarrow> (\<exists>r \<in> set (table st). at_location (Some (LOC_FILE_PREFIX # path)) r \<and> row_id r = i)"

lemma location_names: "nul_free ''location''" "nul_free ''location_hash''"
  by (simp_all add: nul_free_def)

lemma item_row_location:
  "at_location (Some (LOC_FILE_PREFIX # path)) (stored_row n (put_col ''parent_id'' p
     (item_columns ob i ref False False (put_location (Some (LOC_FILE_PREFIX # path)) d))))"
proof -
  let ?loc = "Some (LOC_FILE_PREFIX # path)"
  have get: "d_get (put_col ''parent_id'' p (item_columns ob i ref False False (put_location ?loc d))) (Some ''location'')
      = sql_quote ?loc"
    "d_get (put_col ''parent_id'' p (item_columns ob i ref False False (put_location ?loc d))) (Some ''location_hash'')
      = sql_uint (stringHash (LOC_FILE_PREFIX # path))"
    unfolding item_columns_def put_location_def Let_def if_distrib [of "\<lambda>d. d_get d _"]
    by (simp_all add: get_put_col column_names location_names)
  have quoted: "sql_quote z \<noteq> None" "sql_int k \<noteq> None" for z k by (simp_all add: sql_quote_def sql_int_def)
  show ?thesis
    by (simp add: at_location_def col_is_def stored_col get quoted sql_uint_int)
      (simp add: literal_value_quote)
qed

lemma columns_of_file:
  assumes "columns_of ensure duplicate ob False (None, False, False) = Inr data" "new_file ob path" "nul_free path"
  shows "\<exists>ob2 d. data = Some (ob2, d, None) \<and> o_objectType ob2 = o_objectType ob
    \<and> (\<forall>n. at_location (Some (LOC_FILE_PREFIX # path)) (stored_row n d))"
proof -
  have ty: "\<not> IS_CDS_CONTAINER (o_objectType ob)" "IS_CDS_ITEM (o_objectType ob)"
    "\<not> IS_CDS_ACTIVE_ITEM (o_objectType ob)" "IS_CDS_PURE_ITEM (o_objectType ob)"
    using assms(2) by (simp_all add: new_file_def IS_CDS_defs)
  let ?loc = "Some (LOC_FILE_PREFIX # path)"
  have loc: "addLocationPrefix LOC_FILE_PREFIX (o_location (clearFlag ob m)) = ?loc"
    "o_objectType (clearFlag ob m) = o_objectType ob" for m
    using assms(2,3) by (simp_all add: addLocationPrefix_def cstring_simps new_file_def clearFlag_def)
  note row = item_row_location [of path]
  have il: "o_objectType ob2 = o_objectType ob \<and> d2 = put_location ?loc d"
    if "item_location ensure (clearFlag ob m) False False d = Inr (ob2, d2)" for ob2 d2 d m
    using that ty(4) by (auto simp: item_location_def Let_def loc bind_result_def split: if_splits sum.splits)
  show ?thesis
    using assms(1) unfolding columns_of_def prod.case Let_def
    by (auto simp: ty bind_result_def row dest!: il split: option.splits if_splits sum.splits)
qed

lemma addObject_file_row:
  assumes "addObject f2i ob st = (Inr (ob', ch), st')" "new_file ob path" "nul_free path" "ids_unique st"
  shows "file_at st' path (o_id ob') \<and> CDS_ID_FS_ROOT < o_id ob' \<and> o_objectType ob' = o_objectType ob"
proof -
  obtain data ch1 st1 where
    1: "store_addUpdateObject f2i ob False st = (Inr (data, ch1), st1)"
    and 2: "(case data of None \<Rightarrow> give (clearFlag ob OBJECT_FLAG_USE_RESOURCE_REF, ch1)
        | Some row \<Rightarrow> insert_object ch1 row) st1 = (Inr (ob', ch), st')"
    using assms(1) by (auto simp: addObject_def and_then_done split: if_splits)
  have r: "store_find_reference ob = give (None, False, False)"
    using assms(2) by (simp add: store_find_reference_def new_file_def)
  let ?path = "if needs_path ob False False then
      (case split_path (o_location ob) of Inl e \<Rightarrow> throw e | Inr pathAr \<Rightarrow> ensurePathExistence f2i (Some (pathAr ! 0)))
    else give (INVALID_OBJECT_ID, INVALID_OBJECT_ID)"
  obtain parentID ch0 st0 where
    "and_then (of_result (columns_of (\<lambda>_. Inr parentID) (has_duplicate st0) ob False (None, False, False)))
       (\<lambda>data. give (data, ch0)) st0 = (Inr (data, ch1), st1)"
    using 1 unfolding store_addUpdateObject_def r and_then_simps prod.case and_then_done [of ?path]
    by (elim exE conjE) (simp add: case_prod_unfold)
  then have c: "columns_of (\<lambda>_. Inr parentID) (has_duplicate st0) ob False (None, False, False) = Inr data"
    by (simp split: sum.splits)
  have u: "ids_unique st1" using keepsD [OF keeps_store_addUpdateObject, of "{}" st f2i ob False] assms(4) 1 by simp
  obtain ob2 d where d: "data = Some (ob2, d, None)" "o_objectType ob2 = o_objectType ob"
    "\<forall>n. at_location (Some (LOC_FILE_PREFIX # path)) (stored_row n d)"
    using columns_of_file [OF c assms(2,3)] by blast
  obtain n where n: "stored_row n d \<in> set (table st')" "ob' = ob2\<lparr>o_id := n\<rparr>" "CDS_ID_FS_ROOT < n" "n < 2 ^ 31"
    using insert_object_row [OF 2 [unfolded d option.case] u] by blast
  have "row_id (stored_row n d) = n" using n(3,4) by simp
  then have "file_at st' path n" unfolding file_at_def using n(1) d(3) by blast
  then show ?thesis using n d by simp
qed

lemma file_at_kept: "file_at st path i \<Longrightarrow> kept (set (table st)) st' \<Longrightarrow> file_at st' path i"
  unfolding file_at_def kept_def by blast

lemma cm_addObject_file:
  assumes "cm_addObject f2i cp ob s = (Inr ob', s')" "new_file ob path" "nul_free path" "ids_unique (cm_store s)"
  shows "file_at (cm_store s') (squeeze DIR_SEPARATOR path) (o_id ob') \<and> CDS_ID_FS_ROOT < o_id ob'
    \<and> o_objectType ob' = o_objectType ob \<and> ids_unique (cm_store s')"
proof -
  have ty: "\<not> IS_CDS_ITEM_EXTERNAL_URL (o_objectType ob)" using assms(2) by (simp add: new_file_def IS_CDS_defs)
  have red: "z_reduce (o_location ob) DIR_SEPARATOR = Inr (Some (squeeze DIR_SEPARATOR path))"
    using z_reduce_squeeze [OF assms(3)] assms(2) by (simp add: new_file_def)
  let ?ob = "ob\<lparr>o_location := Some (squeeze DIR_SEPARATOR path)\<rparr>"
  obtain ob1 ch s1 u where
    1: "on_store (addObject f2i ?ob) s = (Inr (ob1, ch), s1)"
    and 2: "object_added ch ob1 s1 = (Inr u, s')" and ob': "ob' = ob1"
    using assms(1) by (auto simp: cm_addObject_def ty red and_then_done split: sum.splits)
  obtain st1 where 3: "addObject f2i ?ob (cm_store s) = (Inr (ob1, ch), st1)" and s1: "cm_store s1 = st1"
    using 1 by (auto simp: on_store_done)
  have nf: "nul_free (squeeze DIR_SEPARATOR path)"
    using assms(3) set_squeeze [of DIR_SEPARATOR path] by (auto simp: nul_free_def)
  have "new_file ?ob (squeeze DIR_SEPARATOR path)" using assms(2) by (simp add: new_file_def getFlag_def)
  note row = addObject_file_row [OF 3 this nf assms(4)]
  have "ids_unique st1" using keepsD [OF keeps_addObject, of "{}"] assms(4) 3 by (metis kept_none snd_conv)
  then have "rows_kept (set (table st1)) s1" by (simp add: rows_kept_def kept_def s1)
  then have k: "kept (set (table st1)) (cm_store s')"
    using keepsD [OF keeps_object_added] 2 by (metis rows_kept_def snd_conv)
  show ?thesis using row file_at_kept [OF _ k] k by (simp add: ob' kept_def)
qed

lemma createObjectFromFile_file:
  assumes "createObjectFromFile env path magic allow_fifo = Inr (Some ob)" "ie_stat env (cstr path) = Inr fs"
    "fs_kind fs = Regular_File" "handlers_fill env"
  shows "new_file ob path"
proof -
  have base: "new_file (new_CdsItem\<lparr>o_location := Some path, o_mtime := a, o_sizeOnDisk := b\<rparr>) path" for a b
    by (simp add: new_file_def new_Cds_defs IS_CDS_defs getFlag_def)
  have steps: "new_file (set_mime m ob) path" "new_file (ob\<lparr>o_upnpClass := c\<rparr>) path" "new_file (ob\<lparr>o_title := t\<rparr>) path"
    "new_file (ob\<lparr>o_resources := rs\<rparr>) path" if "new_file ob path" for ob m c t rs
    using that by (simp_all add: new_file_def getFlag_def set_mime_def set_item_def split: option.split cds_part.split)
  have theora: "new_file (setFlag ob OBJECT_FLAG_OGG_THEORA) path" if "new_file ob path" for ob
    using that by (simp add: new_file_def getFlag_def setFlag_def bit.conj_disj_distrib bit.conj_disj_distrib2)
  have fill: "new_file ob' path" if "ie_handlers env c ob = Inr ob'" "new_file ob path" for c ob ob'
    using assms(4) that unfolding handlers_fill_def new_file_def getFlag_def by metis
  have meta: "new_file ob' path" if "setMetadata env ob = Inr ob'" "new_file ob path" for ob ob'
    using that by (auto simp: setMetadata_def Let_def bind_result_def steps theora split: sum.splits if_splits
        elim!: fill)
  show ?thesis
    using assms(1-3) by (auto simp: createObjectFromFile_def Let_def bind_result_def base steps
        split: sum.splits option.splits if_splits elim!: meta)
qed

lemma addFile_row:
  assumes "addFile env lay path rootpath recursive hidden task s = (Inr i, s')" "i \<noteq> INVALID_OBJECT_ID"
    and regular: "ie_stat env (cstr path) = Inr fs" "fs_kind fs = Regular_File" "handlers_fill env" "nul_free path"
    and new: "findObjectByPath (Some path) (cm_store s) = (Inr None, st0)" "ids_unique (cm_store s)"
    and lay: "lay \<in> {None, Some (fallback_layout env)}"
  shows "file_at (cm_store s') (squeeze DIR_SEPARATOR path) i"
proof -
  let ?s = "s\<lparr>cm_store := st0\<rparr>"
  have found: "on_store (findObjectByPath (Some path)) s = (Inr None, ?s)" using new(1) by (simp add: on_store_def)
  define k where "k = (\<lambda>ob :: cds_object option. case ob of None \<Rightarrow> give INVALID_OBJECT_ID
       | Some ob \<Rightarrow> and_then (if recursive \<and> IS_CDS_CONTAINER (o_objectType ob)
                     then addRecursive env lay hidden task path else give ()) (\<lambda>_. give (o_id ob)))"
  obtain obo s2 where
    added: "new_file_object env lay path rootpath task ?s = (Inr obo, s2)" and k: "k obo s2 = (Inr i, s')"
    using assms(1,2) unfolding addFile_def k_def [symmetric]
    by (auto simp: and_then_Inr [of "on_store (findObjectByPath (Some path))", OF found]
        and_then_done [of "new_file_object env lay path rootpath task"] split: if_splits sum.splits)
  note k [unfolded k_def]
  with assms(2) obtain ob1 where obo: "obo = Some ob1"
    and 3: "and_then (if recursive \<and> IS_CDS_CONTAINER (o_objectType ob1)
                     then addRecursive env lay hidden task path else give ()) (\<lambda>_. give (o_id ob1)) s2 = (Inr i, s')"
    by (cases obo) auto
  obtain ob where c: "createObjectFromFile env path True False = Inr (Some ob)"
    using added obo by (auto simp: new_file_object_def split: sum.splits option.splits)
  have nf: "new_file ob path" by (rule createObjectFromFile_file [OF c regular(1-3)])
  then have item: "IS_CDS_ITEM (o_objectType ob)" by (simp add: new_file_def IS_CDS_defs)
  obtain s1 u root where
    1: "add_item env ob ?s = (Inr ob1, s1)" and 2: "lay_out lay ob1 root s1 = (Inr u, s2)"
    using added obo by (auto simp: new_file_object_def c item and_then_done)
  have u: "ids_unique (cm_store ?s)"
    using grows_to_unique [OF grows_to_findObjectByPath [of "cm_store s" "Some path"]] new by simp
  note row = cm_addObject_file [OF 1 nf regular(4) u]
  have "s' = s2" "i = o_id ob1" using 3 row nf by (auto simp: new_file_def IS_CDS_defs)
  have "rows_kept (set (table (cm_store s1))) s1" using row by (simp add: rows_kept_def kept_def)
  then have "rows_kept (set (table (cm_store s1))) s'"
    using keepsD [OF built_in.keeps_lay_out [OF lay]] 2 \<open>s' = s2\<close> by (metis snd_conv)
  then have k: "kept (set (table (cm_store s1))) (cm_store s')" by (simp add: rows_kept_def)
  show ?thesis using row file_at_kept [OF _ k] \<open>i = o_id ob1\<close> by simp
qed

end
