(* ===== verification/Task_Queue.thy ===== *)
theory Task_Queue
  imports ZString
begin

text \<open>
  The tasks of the content manager and of the task processor (src/generic_task.cc,
  content_manager.cc, task_processor.cc): \<open>addTask\<close>, \<open>getTasklist\<close>, \<open>invalidateTask\<close>,
  \<open>invalidateAddTask\<close>, \<open>threadProc\<close> and \<open>shutdown\<close>.

  A queue is the list of its tasks (Queues shows that \<open>BaseQueue\<close> is one). The thread owns the
  mutex at the head of its loop and when it takes a task; \<open>cond.wait\<close> gives it up and sleeps in
  one step. The calls of other threads happen while the mutex is free, one at a time, but for
  \<open>TaskProcessor::shutdown\<close>, which takes no lock. The task processor has the first queue only.

  Shown: when the thread of the content manager sleeps there is nothing to do, tasks of a queue
  are taken in the order in which they were added, and after \<open>shutdown\<close> the thread ends. The
  thread of the task processor can miss its shutdown.
\<close>

section \<open>Tasks\<close>

datatype task_type = Invalid_Task | AddFile | RemoveObject | LoadAccounting | RescanDirectory | FetchOnlineContent

record task =
  t_ID :: "32 word"
  t_parentID :: "32 word"
  t_type :: task_type
  t_valid :: bool
  t_cancellable :: bool
  t_path :: zstring   \<comment> \<open>of an \<open>AddFile\<close> task\<close>

definition new_GenericTask :: "task_type \<Rightarrow> bool \<Rightarrow> zstring \<Rightarrow> task" where
  "new_GenericTask type cancellable path =
     \<lparr>t_ID = 0, t_parentID = 0, t_type = type, t_valid = True, t_cancellable = cancellable, t_path = path\<rparr>"

definition t_invalidate :: "task \<Rightarrow> task" where
  "t_invalidate t = t\<lparr>t_valid := False\<rparr>"

section \<open>The queues and the thread\<close>

datatype thread_pc =
    At_Check        \<comment> \<open>\<open>while (!shutdownFlag)\<close>, with the mutex\<close>
  | At_Dequeue      \<comment> \<open>in the loop, with the mutex\<close>
  | Waiting         \<comment> \<open>in \<open>cond.wait\<close>\<close>
  | Woken           \<comment> \<open>notified, needs the mutex to go on\<close>
  | Running task
  | Finished

record task_pool =
  tp_queue1 :: "task list"
  tp_queue2 :: "task list"
  tp_currentTask :: "task option"
  tp_taskID :: "32 word"
  tp_shutdownFlag :: bool
  tp_working :: bool
  tp_pc :: thread_pc
  tp_notifying :: bool     \<comment> \<open>\<open>shutdown\<close> has set the flag and not yet notified\<close>
  tp_added :: "bool \<Rightarrow> 32 word list"   \<comment> \<open>the IDs given out, by priority\<close>
  tp_taken :: "bool \<Rightarrow> 32 word list"   \<comment> \<open>the IDs the thread has taken, by priority\<close>

definition new_task_pool :: task_pool where
  "new_task_pool =
     \<lparr>tp_queue1 = [], tp_queue2 = [], tp_currentTask = None, tp_taskID = 1, tp_shutdownFlag = False,
      tp_working = True, tp_pc = At_Check, tp_notifying = False, tp_added = (\<lambda>_. []), tp_taken = (\<lambda>_. [])\<rparr>"

definition has_mutex :: "task_pool \<Rightarrow> bool" where
  "has_mutex s \<longleftrightarrow> tp_pc s \<in> {At_Check, At_Dequeue}"

definition notify_one :: "task_pool \<Rightarrow> task_pool" where
  "notify_one s = (if tp_pc s = Waiting then s\<lparr>tp_pc := Woken\<rparr> else s)"

definition addTask :: "task \<Rightarrow> bool \<Rightarrow> task_pool \<Rightarrow> task_pool" where
  "addTask t lowPriority s =
     (let t = t\<lparr>t_ID := tp_taskID s\<rparr>;
          s = s\<lparr>tp_taskID := tp_taskID s + 1,
                tp_added := (tp_added s)(lowPriority := tp_added s lowPriority @ [t_ID t])\<rparr>;
          s = (if \<not> lowPriority then s\<lparr>tp_queue1 := tp_queue1 s @ [t]\<rparr> else s\<lparr>tp_queue2 := tp_queue2 s @ [t]\<rparr>)
      in notify_one s)"

definition invalidate_where :: "(task \<Rightarrow> bool) \<Rightarrow> task_pool \<Rightarrow> task_pool" where
  \<comment> \<open>the current task and those in both queues; the thread sees the change of its task\<close>
  "invalidate_where P s =
     (let f = (\<lambda>t. if P t then t_invalidate t else t)
      in s\<lparr>tp_currentTask := map_option f (tp_currentTask s),
           tp_pc := (case tp_pc s of Running t \<Rightarrow> Running (f t) | pc \<Rightarrow> pc),
           tp_queue1 := map f (tp_queue1 s), tp_queue2 := map f (tp_queue2 s)\<rparr>)"

definition invalidateTask :: "32 word \<Rightarrow> task_pool \<Rightarrow> task_pool" where
  "invalidateTask taskID = invalidate_where (\<lambda>t. t_ID t = taskID \<or> t_parentID t = taskID)"

definition below_path :: "zstring \<Rightarrow> task \<Rightarrow> bool" where
  \<comment> \<open>the test of \<open>invalidateAddTask\<close>; the path of an \<open>AddFile\<close> task is never null\<close>
  "below_path path t \<longleftrightarrow> t_type t = AddFile \<and> z_startsWith (t_path t) path = Inr True"

definition invalidateAddTasks :: "zstring \<Rightarrow> task_pool \<Rightarrow> task_pool" where
  \<comment> \<open>the loops of \<open>removeObject\<close> when a container is removed\<close>
  "invalidateAddTasks path = invalidate_where (below_path path)"

definition acquire :: "bool \<Rightarrow> nat \<Rightarrow> nat result" where
  \<comment> \<open>a second lock by the same thread: counted by a \<open>recursive_mutex\<close>, undefined for a \<open>mutex\<close>\<close>
  "acquire recursive depth = (if depth > 0 \<and> \<not> recursive then Inl Abort else Inr (Suc depth))"

definition getCurrentTask :: "bool \<Rightarrow> nat \<Rightarrow> task_pool \<Rightarrow> task option result" where
  "getCurrentTask recursive depth s =
     bind_result (acquire recursive depth) (\<lambda>_. Inr (tp_currentTask s))"

definition tp_getTasklist :: "task_pool \<Rightarrow> task list option result" where
  \<comment> \<open>of the task processor, whose mutex is a \<open>std::mutex\<close>\<close>
  "tp_getTasklist s =
     bind_result (acquire False 0) (\<lambda>depth.
     bind_result (getCurrentTask False depth s) (\<lambda>t.
       case t of None \<Rightarrow> Inr None | Some t \<Rightarrow> Inr (Some (t # filter t_valid (tp_queue1 s)))))"

definition cm_getTasklist :: "task list option \<Rightarrow> task_pool \<Rightarrow> task list option result" where
  \<comment> \<open>the argument is the list of the task processor, null when there is none\<close>
  "cm_getTasklist taskList s =
     bind_result (acquire True 0) (\<lambda>depth.
     bind_result (getCurrentTask True depth s) (\<lambda>t.
       if t = None \<and> taskList = None then Inr None
       else
         (let taskList = (case taskList of None \<Rightarrow> [] | Some l \<Rightarrow> l);
              taskList = (case t of None \<Rightarrow> taskList | Some t \<Rightarrow> taskList @ [t]);
              taskList = taskList @ filter t_valid (tp_queue1 s)
          in Inr (Some (fold (\<lambda>t l. if t_valid t then [] else l) (tp_queue2 s) taskList)))))"

definition take_task :: "bool \<Rightarrow> task \<Rightarrow> task_pool \<Rightarrow> task_pool" where
  "take_task low t s =
     s\<lparr>tp_currentTask := Some t, tp_pc := Running t, tp_taken := (tp_taken s)(low := tp_taken s low @ [t_ID t])\<rparr>"

inductive worker_step :: "task_pool \<Rightarrow> task_pool \<Rightarrow> bool" where
  check: "tp_pc s = At_Check \<Longrightarrow>
    worker_step s (if tp_shutdownFlag s then s\<lparr>tp_pc := Finished\<rparr> else s\<lparr>tp_currentTask := None, tp_pc := At_Dequeue\<rparr>)"
| first: "tp_pc s = At_Dequeue \<Longrightarrow> tp_queue1 s = t # r \<Longrightarrow> worker_step s (take_task False t (s\<lparr>tp_queue1 := r\<rparr>))"
| second: "tp_pc s = At_Dequeue \<Longrightarrow> tp_queue1 s = [] \<Longrightarrow> tp_queue2 s = t # r \<Longrightarrow>
    worker_step s (take_task True t (s\<lparr>tp_queue2 := r\<rparr>))"
| sleep: "tp_pc s = At_Dequeue \<Longrightarrow> tp_queue1 s = [] \<Longrightarrow> tp_queue2 s = [] \<Longrightarrow>
    worker_step s (s\<lparr>tp_working := False, tp_pc := Waiting\<rparr>)"
| wake: "tp_pc s = Woken \<Longrightarrow> worker_step s (s\<lparr>tp_working := True, tp_pc := At_Check\<rparr>)"
| ran: "tp_pc s = Running t \<Longrightarrow> worker_step s (s\<lparr>tp_pc := At_Check\<rparr>)"
| shut: "tp_pc s = Running t \<Longrightarrow> t_valid t \<Longrightarrow> worker_step s (s\<lparr>tp_shutdownFlag := True, tp_pc := Finished\<rparr>)"

inductive_cases worker_stepE: "worker_step s s'"

inductive pool_call :: "task_pool \<Rightarrow> task_pool \<Rightarrow> bool" where
  add: "\<not> has_mutex s \<Longrightarrow> pool_call s (addTask t low s)"
| invalidate: "\<not> has_mutex s \<Longrightarrow> pool_call s (invalidateTask i s)"
| invalidate_add: "\<not> has_mutex s \<Longrightarrow> pool_call s (invalidateAddTasks path s)"
| spurious: "pool_call s (notify_one s)"

inductive cm_reach :: "task_pool \<Rightarrow> bool" where
  init: "cm_reach new_task_pool"
| thread: "cm_reach s \<Longrightarrow> worker_step s s' \<Longrightarrow> cm_reach s'"
| call: "cm_reach s \<Longrightarrow> pool_call s s' \<Longrightarrow> cm_reach s'"
| shutdown: "cm_reach s \<Longrightarrow> \<not> has_mutex s \<Longrightarrow> cm_reach (notify_one (s\<lparr>tp_shutdownFlag := True\<rparr>))"

inductive tp_reach :: "task_pool \<Rightarrow> bool" where
  \<comment> \<open>without spurious wake-ups, which the standard allows but nothing relies on\<close>
  init: "tp_reach new_task_pool"
| thread: "tp_reach s \<Longrightarrow> worker_step s s' \<Longrightarrow> tp_reach s'"
| add: "tp_reach s \<Longrightarrow> \<not> has_mutex s \<Longrightarrow> tp_reach (addTask t False s)"
| set_flag: "tp_reach s \<Longrightarrow> tp_reach (s\<lparr>tp_shutdownFlag := True, tp_notifying := True\<rparr>)"
| notify: "tp_reach s \<Longrightarrow> tp_notifying s \<Longrightarrow> tp_reach (notify_one (s\<lparr>tp_notifying := False\<rparr>))"

section \<open>No wake-up is lost\<close>

definition pool_inv :: "task_pool \<Rightarrow> bool" where
  "pool_inv s \<longleftrightarrow>
     (tp_pc s = Waiting \<longrightarrow> tp_queue1 s = [] \<and> tp_queue2 s = [] \<and> \<not> tp_shutdownFlag s)
     \<and> (tp_pc s = At_Dequeue \<longrightarrow> \<not> tp_shutdownFlag s)"

definition fifo_inv :: "task_pool \<Rightarrow> bool" where
  \<comment> \<open>what was added is what was taken and what is still queued, in this order\<close>
  "fifo_inv s \<longleftrightarrow> tp_added s False = tp_taken s False @ map t_ID (tp_queue1 s)
     \<and> tp_added s True = tp_taken s True @ map t_ID (tp_queue2 s)"

lemma notify_one_simps [simp]:
  "tp_queue1 (notify_one s) = tp_queue1 s" "tp_queue2 (notify_one s) = tp_queue2 s"
  "tp_shutdownFlag (notify_one s) = tp_shutdownFlag s" "tp_added (notify_one s) = tp_added s"
  "tp_taken (notify_one s) = tp_taken s" "tp_pc (notify_one s) = (if tp_pc s = Waiting then Woken else tp_pc s)"
  by (simp_all add: notify_one_def)

lemma same_ID: "map t_ID (map (\<lambda>t. if P t then t_invalidate t else t) ts) = map t_ID ts"
  by (simp add: t_invalidate_def)

lemma addTask_simps [simp]:
  "tp_shutdownFlag (addTask t low s) = tp_shutdownFlag s"
  "tp_pc (addTask t low s) = (if tp_pc s = Waiting then Woken else tp_pc s)"
  by (simp_all add: addTask_def Let_def)

lemma worker_step_inv: "worker_step s s' \<Longrightarrow> pool_inv s \<Longrightarrow> pool_inv s'"
  by (induction rule: worker_step.induct) (auto simp: pool_inv_def take_task_def)

lemma worker_step_fifo: "worker_step s s' \<Longrightarrow> fifo_inv s \<Longrightarrow> fifo_inv s'"
  by (induction rule: worker_step.induct) (auto simp: fifo_inv_def take_task_def)

lemma addTask_inv: "\<not> has_mutex s \<Longrightarrow> pool_inv s \<Longrightarrow> pool_inv (addTask t low s)"
  by (auto simp: pool_inv_def has_mutex_def)

lemma addTask_fifo: "fifo_inv s \<Longrightarrow> fifo_inv (addTask t low s)"
  by (cases low) (auto simp: fifo_inv_def addTask_def Let_def)

lemma invalidate_where_inv: "pool_inv s \<Longrightarrow> pool_inv (invalidate_where P s)"
  by (auto simp: pool_inv_def invalidate_where_def Let_def split: thread_pc.splits)

lemma invalidate_where_fifo: "fifo_inv s \<Longrightarrow> fifo_inv (invalidate_where P s)"
  by (simp add: fifo_inv_def invalidate_where_def Let_def same_ID del: map_map)

lemma call_step_inv: "pool_call s s' \<Longrightarrow> pool_inv s \<Longrightarrow> pool_inv s'"
  by (induction rule: pool_call.induct)
    (simp_all add: addTask_inv invalidate_where_inv invalidateTask_def invalidateAddTasks_def, simp add: pool_inv_def)

lemma call_step_fifo: "pool_call s s' \<Longrightarrow> fifo_inv s \<Longrightarrow> fifo_inv s'"
  by (induction rule: pool_call.induct)
    (simp_all add: addTask_fifo invalidate_where_fifo invalidateTask_def invalidateAddTasks_def, simp add: fifo_inv_def)

lemma cm_reach_inv: "cm_reach s \<Longrightarrow> pool_inv s \<and> fifo_inv s"
proof (induction rule: cm_reach.induct)
  case init
  then show ?case by (simp add: pool_inv_def fifo_inv_def new_task_pool_def)
next
  case (thread s s')
  then show ?case using worker_step_inv worker_step_fifo by blast
next
  case (call s s')
  then show ?case using call_step_inv call_step_fifo by blast
next
  case (shutdown s)
  then show ?case by (auto simp: pool_inv_def fifo_inv_def has_mutex_def)
qed

lemma tp_reach_fifo: "tp_reach s \<Longrightarrow> fifo_inv s"
proof (induction rule: tp_reach.induct)
  case init
  then show ?case by (simp add: fifo_inv_def new_task_pool_def)
next
  case (thread s s')
  then show ?case using worker_step_fifo by blast
qed (simp_all add: addTask_fifo, simp_all add: fifo_inv_def)

section \<open>The end of the thread\<close>

fun steps_left :: "thread_pc \<Rightarrow> nat" where
  "steps_left Finished = 0"
| "steps_left At_Check = 1"
| "steps_left _ = 2"

lemma shutdown_ends:
  assumes "pool_inv s" "tp_shutdownFlag s" "tp_pc s \<noteq> Finished"
  shows "(\<exists>s'. worker_step s s') \<and> (\<forall>s'. worker_step s s' \<longrightarrow> tp_shutdownFlag s' \<and> steps_left (tp_pc s') < steps_left (tp_pc s))"
proof
  show "\<exists>s'. worker_step s s'"
    using assms by (cases "tp_pc s") (auto simp: pool_inv_def intro: worker_step.intros)
  show "\<forall>s'. worker_step s s' \<longrightarrow> tp_shutdownFlag s' \<and> steps_left (tp_pc s') < steps_left (tp_pc s)"
  proof (intro allI impI)
    fix s' assume "worker_step s s'"
    then show "tp_shutdownFlag s' \<and> steps_left (tp_pc s') < steps_left (tp_pc s)"
      by (rule worker_stepE) (use assms in \<open>auto simp: pool_inv_def\<close>)
  qed
qed

lemma missed_shutdown:
  "\<exists>s. tp_reach s \<and> tp_shutdownFlag s \<and> \<not> tp_notifying s \<and> tp_pc s = Waiting \<and> \<not> (\<exists>s'. worker_step s s')"
proof -
  let ?s1 = "new_task_pool\<lparr>tp_currentTask := None, tp_pc := At_Dequeue\<rparr>"
  let ?s2 = "?s1\<lparr>tp_shutdownFlag := True, tp_notifying := True\<rparr>"
  let ?s3 = "notify_one (?s2\<lparr>tp_notifying := False\<rparr>)"
  let ?s4 = "?s3\<lparr>tp_working := False, tp_pc := Waiting\<rparr>"
  have "worker_step new_task_pool ?s1"
    using worker_step.check [of new_task_pool] by (simp add: new_task_pool_def)
  then have "tp_reach ?s1" by (rule tp_reach.thread [OF tp_reach.init])
  then have "tp_reach ?s2" by (rule tp_reach.set_flag)
  then have "tp_reach ?s3" by (rule tp_reach.notify) simp
  moreover have "worker_step ?s3 ?s4" by (rule worker_step.sleep) (simp_all add: new_task_pool_def)
  ultimately have "tp_reach ?s4" by (rule tp_reach.thread)
  moreover have "\<not> worker_step ?s4 s'" for s' by (auto elim: worker_stepE)
  moreover have "\<not> tp_notifying ?s4" by (simp add: notify_one_def)
  ultimately show ?thesis by (intro exI [of _ ?s4]) simp
qed

section \<open>The list of tasks\<close>

lemma empty_list: "fold (\<lambda>t l. if t_valid t then [] else l) ts [] = []"
  by (induction ts) auto

lemma dropped_list: "(\<exists>t \<in> set ts. t_valid t) \<Longrightarrow> fold (\<lambda>t l. if t_valid t then [] else l) ts l = []"
  by (induction ts arbitrary: l) (auto simp: empty_list)

lemma kept_list: "\<forall>t \<in> set ts. \<not> t_valid t \<Longrightarrow> fold (\<lambda>t l. if t_valid t then [] else l) ts l = l"
  by (induction ts arbitrary: l) auto

lemma tp_getTasklist_fails: "tp_getTasklist s = Inl Abort"
  by (simp add: tp_getTasklist_def getCurrentTask_def acquire_def)

end
