(* ===== verification/Url_Cache.thy ===== *)
theory Url_Cache
  imports ZString "HOL-Library.Multiset"
begin

text \<open>
  The cache of the URLs of online objects (src/cached_url.cc and \<open>checkCachedURLs\<close>,
  \<open>cacheURL\<close>, \<open>getCachedURL\<close> of src/content_manager.cc). The array of the cached URLs is the
  list of its elements, none of which is null; \<open>time(nullptr)\<close> is the argument \<open>now\<close>, and the
  flag of a result says whether the timer was subscribed.

  Shown: no object has two entries and there are never more than \<open>MAX_CACHED_URLS\<close>; what was
  cached is found; the check removes no entry that is still fresh (but may leave stale ones).
\<close>

definition MAX_CACHED_URLS :: nat where
  "MAX_CACHED_URLS = 20"

definition URL_CACHE_LIFETIME :: int where
  "URL_CACHE_LIFETIME = 600"

record cached_url =
  cu_objectID :: int
  cu_url :: zstring
  cu_creationTime :: int
  cu_lastAccessTime :: int

definition new_CachedURL :: "string \<Rightarrow> int \<Rightarrow> int \<Rightarrow> zstring \<Rightarrow> cached_url result" where
  \<comment> \<open>with the text of \<open>strerror\<close>\<close>
  "new_CachedURL err now object_id url =
     (if now = -1 then Inl (Throw (''Failed to get current time: '' @ err))
      else Inr \<lparr>cu_objectID = object_id, cu_url = url, cu_creationTime = now, cu_lastAccessTime = now\<rparr>)"

definition cu_getURL :: "string \<Rightarrow> int \<Rightarrow> cached_url \<Rightarrow> zstring result \<times> cached_url" where
  "cu_getURL err now c =
     (let c = c\<lparr>cu_lastAccessTime := now\<rparr>
      in (if now = -1 then Inl (Throw (''Failed to get current time: '' @ err)) else Inr (cu_url c), c))"

definition remove_unordered :: "'a list \<Rightarrow> nat \<Rightarrow> 'a list" where
  \<comment> \<open>the last element takes the place of the one that is removed\<close>
  "remove_unordered xs i = (if Suc i = length xs then butlast xs else (butlast xs)[i := last xs])"

function check_loop :: "int \<Rightarrow> nat \<Rightarrow> nat \<Rightarrow> cached_url list \<Rightarrow> cached_url list" where
  "check_loop now checked i urls =
     (if checked < length urls then
        (if cu_lastAccessTime (urls ! i) + URL_CACHE_LIFETIME < now
         then check_loop now (Suc checked) i (remove_unordered urls i)
         else check_loop now (Suc checked) (Suc i) urls)
      else urls)"
  by pat_completeness auto
termination
  by (relation "measure (\<lambda>(now, checked, i, urls). length urls - checked)") (auto simp: remove_unordered_def)

declare check_loop.simps [simp del]

definition checkCachedURLs :: "int \<Rightarrow> cached_url list \<Rightarrow> cached_url list \<times> bool" where
  "checkCachedURLs now urls = (let urls = check_loop now 0 0 urls in (urls, length urls > 0))"

fun cache_scan :: "int \<Rightarrow> cached_url list \<Rightarrow> nat \<Rightarrow> int \<Rightarrow> int \<Rightarrow> nat option \<times> int" where
  \<comment> \<open>the position of the object, and of the entry that was not used for the longest time\<close>
  "cache_scan object_id [] i oldest oldest_index = (None, oldest_index)"
| "cache_scan object_id (c # r) i oldest oldest_index =
     (case (if cu_lastAccessTime c < oldest then (cu_lastAccessTime c, int i) else (oldest, oldest_index)) of
        (oldest, oldest_index) \<Rightarrow>
          if cu_objectID c = object_id then (Some i, oldest_index)
          else cache_scan object_id r (Suc i) oldest oldest_index)"

definition cacheURL :: "int \<Rightarrow> cached_url \<Rightarrow> cached_url list \<Rightarrow> (cached_url list \<times> bool) result" where
  "cacheURL now url urls =
     (let old_size = length urls
      in bind_result
        (case cache_scan (cu_objectID url) urls 0 now (-1) of
           (Some i, _) \<Rightarrow> Inr (urls[i := url])
         | (None, oldest_index) \<Rightarrow>
             bind_result
               (if length urls \<ge> MAX_CACHED_URLS then
                  (if oldest_index > -1 \<and> oldest_index \<le> int MAX_CACHED_URLS
                   then Inr (remove_unordered urls (nat oldest_index))
                   else Inl (Throw (''Index exceeds URL cache size: '' @ show_int oldest_index)))
                else Inr urls) (\<lambda>urls. Inr (urls @ [url]))) (\<lambda>urls.
         Inr (urls, length urls > 0 \<and> old_size = 0)))"

fun getCachedURL :: "string \<Rightarrow> int \<Rightarrow> int \<Rightarrow> cached_url list \<Rightarrow> zstring result \<times> cached_url list" where
  "getCachedURL err now objectID [] = (Inr None, [])"
| "getCachedURL err now objectID (c # r) =
     (if cu_objectID c = objectID then (let (u, c) = cu_getURL err now c in (u, c # r))
      else (let (u, r) = getCachedURL err now objectID r in (u, c # r)))"

section \<open>Caching\<close>

definition url_cache_inv :: "cached_url list \<Rightarrow> bool" where
  "url_cache_inv urls \<longleftrightarrow> distinct (map cu_objectID urls) \<and> length urls \<le> MAX_CACHED_URLS"

lemma mset_remove_unordered:
  assumes "i < length xs"
  shows "mset (remove_unordered xs i) = mset xs - {#xs ! i#}"
proof -
  obtain ys y where xs: "xs = ys @ [y]" using assms by (cases xs rule: rev_cases) auto
  show ?thesis
  proof (cases "i = length ys")
    case False
    then have i: "i < length ys" using assms xs by simp
    then have "ys ! i \<in># mset ys" by simp
    then show ?thesis using i False by (simp add: xs remove_unordered_def nth_append mset_update)
  qed (simp add: xs remove_unordered_def)
qed

lemma distinct_remove_unordered:
  assumes "i < length xs" "distinct (map f xs)"
  shows "distinct (map f (remove_unordered xs i))"
proof -
  have "xs ! i \<in># mset xs" using assms(1) by simp
  then have "mset xs = mset (xs ! i # remove_unordered xs i)" using mset_remove_unordered [OF assms(1)] by simp
  then have "mset (map f xs) = mset (map f (xs ! i # remove_unordered xs i))" by (metis mset_map)
  then have "distinct (map f (xs ! i # remove_unordered xs i))" using assms(2) mset_eq_imp_distinct_iff by blast
  then show ?thesis by simp
qed

lemma cache_scan_None:
  "cache_scan object_id urls i oldest k = (None, j) \<Longrightarrow> object_id \<notin> set (map cu_objectID urls)"
  by (induction urls arbitrary: i oldest k) (auto split: if_splits)

lemma cache_scan_Some:
  "cache_scan object_id urls i oldest k = (Some p, j) \<Longrightarrow>
     \<exists>q. p = i + q \<and> q < length urls \<and> cu_objectID (urls ! q) = object_id"
proof (induction urls arbitrary: i oldest k)
  case (Cons c r)
  show ?case
  proof (cases "cu_objectID c = object_id")
    case True
    then show ?thesis using Cons.prems by (intro exI [of _ 0]) (auto split: if_splits)
  next
    case False
    then obtain o2 k2 where "cache_scan object_id r (Suc i) o2 k2 = (Some p, j)"
      using Cons.prems by (auto split: if_splits)
    from Cons.IH [OF this] obtain q where "p = Suc i + q \<and> q < length r \<and> cu_objectID (r ! q) = object_id" by blast
    then show ?thesis by (intro exI [of _ "Suc q"]) simp
  qed
qed simp

lemma cache_scan_oldest:
  "cache_scan object_id urls i oldest k = (None, j) \<Longrightarrow> j = k \<or> int i \<le> j \<and> j < int i + int (length urls)"
  by (induction urls arbitrary: i oldest k) (fastforce split: if_splits)+

lemma cache_scan_stale:
  "cache_scan object_id urls i oldest k = (None, j) \<Longrightarrow> \<exists>c \<in> set urls. cu_lastAccessTime c < oldest \<Longrightarrow> int i \<le> j"
proof (induction urls arbitrary: i oldest k)
  case (Cons c r)
  show ?case
  proof (cases "cu_lastAccessTime c < oldest")
    case True
    then show ?thesis using Cons.prems(1) cache_scan_oldest [of object_id r "Suc i" "cu_lastAccessTime c" "int i" j]
      by (auto split: if_splits)
  next
    case False
    then show ?thesis using Cons.prems Cons.IH [of "Suc i" oldest k] by (auto split: if_splits)
  qed
qed simp

lemma cache_scan_fresh:
  "cache_scan object_id urls i oldest k = (None, j) \<Longrightarrow> \<forall>c \<in> set urls. oldest \<le> cu_lastAccessTime c \<Longrightarrow> j = k"
  by (induction urls arbitrary: i) (auto split: if_splits)

lemma cacheURL_fails:
  "cacheURL now url urls = Inl e \<longleftrightarrow>
     e = Throw (''Index exceeds URL cache size: '' @ show_int (-1)) \<and> MAX_CACHED_URLS \<le> length urls
     \<and> cu_objectID url \<notin> set (map cu_objectID urls) \<and> (\<forall>c \<in> set urls. now \<le> cu_lastAccessTime c)"
  if "length urls \<le> MAX_CACHED_URLS"
proof (cases "cache_scan (cu_objectID url) urls 0 now (-1)")
  case (Pair p j)
  show ?thesis
  proof (cases p)
    case (Some i)
    then obtain "i < length urls" "cu_objectID (urls ! i) = cu_objectID url"
      using cache_scan_Some [OF Pair [unfolded Some]] by auto
    then have "cu_objectID url \<in> set (map cu_objectID urls)" by (metis image_eqI list.set_map nth_mem)
    then show ?thesis by (simp add: cacheURL_def Pair Some)
  next
    case None
    note n = Pair [unfolded None]
    show ?thesis
    proof (cases "\<exists>c \<in> set urls. cu_lastAccessTime c < now")
      case True
      then have "0 \<le> j" "j < int (length urls)" using cache_scan_stale [OF n] cache_scan_oldest [OF n] by auto
      then show ?thesis using True that by (auto simp: cacheURL_def Pair None Let_def not_le)
    next
      case False
      then have "j = -1" using cache_scan_fresh [OF n] by (fastforce simp: not_less)
      then show ?thesis using False cache_scan_None [OF n] that
        by (auto simp: cacheURL_def Pair None Let_def not_less)
    qed
  qed
qed

lemma getCachedURL_found:
  assumes "distinct (map cu_objectID urls)" "c \<in> set urls" "now \<noteq> -1"
  shows "fst (getCachedURL err now (cu_objectID c) urls) = Inr (cu_url c)"
  using assms
  by (induction urls) (auto simp: cu_getURL_def Let_def split: prod.split)

lemma cacheURL_result:
  assumes "cacheURL now url urls = Inr (urls', b)" "url_cache_inv urls"
  shows "url_cache_inv urls' \<and> url \<in> set urls'
    \<and> (\<forall>c \<in> set urls'. c = url \<or> c \<in> set urls)"
proof (cases "cache_scan (cu_objectID url) urls 0 now (-1)")
  case (Pair p j)
  show ?thesis
  proof (cases p)
    case (Some i)
    then obtain "i < length urls" "cu_objectID (urls ! i) = cu_objectID url"
      using cache_scan_Some [OF Pair [unfolded Some]] by auto
    moreover have "urls' = urls[i := url]" using assms(1) by (simp add: cacheURL_def Pair Some Let_def)
    moreover have "map cu_objectID (urls[i := url]) = map cu_objectID urls"
      using calculation by (simp add: map_update list_update_same_conv)
    ultimately show ?thesis
      using assms(2) set_update_memI [of i urls url] set_update_subset_insert [of urls i url]
      by (auto simp: url_cache_inv_def)
  next
    case None
    note fresh = cache_scan_None [OF Pair [unfolded None]]
    show ?thesis
    proof (cases "length urls \<ge> MAX_CACHED_URLS")
      case True
      then have j: "0 \<le> j" "urls' = remove_unordered urls (nat j) @ [url]"
        using assms(1) by (auto simp: cacheURL_def Pair None Let_def split: if_splits)
      then have jl: "nat j < length urls" using cache_scan_oldest [OF Pair [unfolded None]] by auto
      note m = mset_remove_unordered [OF jl]
      have sub: "mset (remove_unordered urls (nat j)) \<subseteq># mset urls" by (simp add: m)
      have "distinct (map cu_objectID (remove_unordered urls (nat j)))"
        by (rule distinct_remove_unordered [OF jl]) (use assms(2) in \<open>simp add: url_cache_inv_def\<close>)
      moreover have set: "set (remove_unordered urls (nat j)) \<subseteq> set urls"
        using set_mset_mono [OF sub] by simp
      moreover have "length (remove_unordered urls (nat j)) = length urls - 1" by (simp add: remove_unordered_def)
      ultimately show ?thesis using assms(2) fresh jl True by (auto simp: url_cache_inv_def j MAX_CACHED_URLS_def)
    next
      case False
      then have "urls' = urls @ [url]" using assms(1) by (simp add: cacheURL_def Pair None Let_def)
      then show ?thesis using assms(2) fresh False by (auto simp: url_cache_inv_def)
    qed
  qed
qed

section \<open>Checking\<close>

lemma check_loop_keeps:
  "i \<le> checked \<Longrightarrow> filter_mset (\<lambda>c. \<not> cu_lastAccessTime c + URL_CACHE_LIFETIME < now) (mset (check_loop now checked i urls))
     = filter_mset (\<lambda>c. \<not> cu_lastAccessTime c + URL_CACHE_LIFETIME < now) (mset urls)
   \<and> mset (check_loop now checked i urls) \<subseteq># mset urls"
proof (induction now checked i urls rule: check_loop.induct)
  case (1 now checked i urls)
  let ?fresh = "\<lambda>c. \<not> cu_lastAccessTime c + URL_CACHE_LIFETIME < now"
  show ?case
  proof (cases "checked < length urls")
    case True
    then have i: "i < length urls" using 1(3) by simp
    show ?thesis
    proof (cases "?fresh (urls ! i)")
      case f: True
      then show ?thesis using 1(2) [OF True] 1(3) True by (subst (1 2) check_loop.simps) simp
    next
      case f: False
      note m = mset_remove_unordered [OF i]
      have "filter_mset ?fresh (mset (remove_unordered urls i)) = filter_mset ?fresh (mset urls)"
        using f i by (simp add: m filter_diff_mset)
      moreover have "mset (remove_unordered urls i) \<subseteq># mset urls" by (simp add: m)
      moreover note 1(1) [OF True]
      ultimately show ?thesis using f 1(3) True
        by (subst (1 2) check_loop.simps) (auto intro: subset_mset.order_trans)
    qed
  qed (subst (1 2) check_loop.simps, simp)
qed

end
