(* ===== verification/Import_Run.thy ===== *)
theory Import_Run
  imports File_Import
begin

text \<open>
  A new file is added: when its directory can be read, \<open>_addFile\<close> of a file that is not in the
  database returns (without cache and layout). \<open>directory_at\<close> is what \<open>addObject\<close> needs to
  load the parent for its reports.
\<close>

section \<open>Directories that can be read\<close>

definition directory_at :: "int \<Rightarrow> store \<Rightarrow> bool" where
  \<comment> \<open>the row of that ID can be read, and refers to no other\<close>
  "directory_at p st \<longleftrightarrow> ss_cache (st_sql st) = None
     \<and> (\<exists>r. find (with_id p) (st_rows st) = Some r \<and> r ''ref_id'' = None \<and> readable st r)"

lemma directory_at_more:
  assumes "directory_at p st" "st_rows st' = st_rows st @ xs" "st_active st' = st_active st"
    "st_autoscans st' = st_autoscans st" "ss_cache (st_sql st') = None"
  shows "directory_at p st'"
proof -
  obtain r where r: "find (with_id p) (st_rows st) = Some r" "r ''ref_id'' = None" "readable st r"
    using assms(1) by (auto simp: directory_at_def)
  have "find (\<lambda>rf. rf ''id'' \<noteq> None \<and> rf ''id'' = r ''ref_id'') xs = None" for xs
    by (rule find_no_match) (auto simp: r(2))
  then have "readable st' r" using r(3) by (simp add: readable_def joined_row_def assms(3,4))
  then show ?thesis using r assms(2,5) by (auto simp: directory_at_def find_append)
qed

lemma directory_at_flush:
  assumes "directory_at p st"
  shows "directory_at p (flush st)"
proof -
  have g: "grows_to st (flush st)" by simp
  then have xs: "\<exists>xs. st_rows (flush st) = st_rows st @ xs"
    unfolding grows_to_def by (metis append_Nil2)
  have "ss_cache (st_sql (flush st)) = None"
    using assms by (simp add: directory_at_def flush_def set_sql_def)
  then show ?thesis using xs g directory_at_more [OF assms] by (auto simp: grows_to_def)
qed

lemma loads_directory:
  assumes "directory_at p st"
  shows "\<exists>ob st'. loadObject p st = (Inr ob, st') \<and> grows_to st st'"
proof -
  obtain r where r: "find (with_id p) (st_rows st) = Some r" "readable st r" "cached st p = None"
    using assms by (auto simp: directory_at_def cached_def)
  then show ?thesis using object_of_row_readable [OF r(2)] by (auto simp: loadObject_def)
qed

lemma counts_directory:
  assumes "directory_at p st"
  shows "\<exists>n. getChildCount p True True False st = (Inr n, flush st)"
proof -
  have "ss_cache (st_sql (flush st)) = None" using assms by (simp add: directory_at_def flush_def set_sql_def)
  moreover have "cached st p = None" using assms by (simp add: directory_at_def cached_def)
  ultimately show ?thesis by (simp add: getChildCount_def cached_no_cache Let_def)
qed

section \<open>The reports of an addition\<close>

lemma succeeds_on_store:
  "succeeds P m Q \<Longrightarrow> succeeds (\<lambda>s. P (cm_store s)) (on_store m) (\<lambda>x s. Q x (cm_store s))"
  by (fastforce simp: succeeds_def on_store_done)

lemma object_added_succeeds:
  "succeeds (\<lambda>s. directory_at (o_parentID ob) (cm_store s)) (object_added ch ob) (\<lambda>_ _. True)"
proof -
  let ?p = "o_parentID ob"
  let ?there = "\<lambda>s. directory_at ?p (cm_store s)"
  have told: "succeeds ?there (upnp_changed ids) (\<lambda>_. ?there)" "succeeds ?there (ui_changed ids) (\<lambda>_. ?there)" for ids
    by (simp_all add: upnp_changed_def ui_changed_def succeeds_change)
  have more: "succeeds (\<lambda>_. True) (upnp_changed ids) (\<lambda>_ _. True)" "succeeds (\<lambda>_. True) (ui_changed ids) (\<lambda>_ _. True)" for ids
    by (simp_all add: upnp_changed_def ui_changed_def succeeds_change)
  have weak: "succeeds P (give ()) (\<lambda>_ _. True)" for P :: "manager \<Rightarrow> bool" by (rule succeeds_give) simp
  have count: "succeeds ?there (on_store (getChildCount ?p True True False)) (\<lambda>_. ?there)"
    by (rule succeeds_on_store, rule succeedsI) (use counts_directory directory_at_flush in fastforce)
  have load: "succeeds ?there (on_store (loadObject ?p)) (\<lambda>_ _. True)"
    using succeeds_on_store [of "directory_at ?p" "loadObject ?p" "\<lambda>_ _. True"] loads_directory
    by (fastforce simp: succeeds_def)
  have added: "succeeds (\<lambda>_. True) (change h) (\<lambda>_ _. True)" for h :: "manager \<Rightarrow> manager"
    by (rule succeeds_change) simp
  show ?thesis
    unfolding object_added_def
    by (rule succeeds_and_then [OF told(1)] succeeds_and_then [OF told(2)]
        succeeds_and_then [where R = "\<lambda>_ _. True"] succeeds_and_then [OF count] succeeds_if
        succeeds_and_then [OF load] more added weak)+
qed

section \<open>A new file\<close>

lemma addObject_adds:
  assumes pl: "plain_item ob i" and nc: "no_cache st" and pa: "split_path (o_location ob) = Inr pa"
    and e: "ensurePathExistence f2i (Some (pa ! 0)) st = (Inr (p, ch), st1)"
    and bounds: "p \<noteq> INVALID_OBJECT_ID" "CDS_ID_FS_ROOT \<le> st_lastID st1" "st_lastID st1 + 1 < 2 ^ 31"
    and new: "o_id ob = INVALID_OBJECT_ID" and dir: "directory_at p st1"
  shows "\<exists>st'. addObject f2i ob st = (Inr ((clearFlag ob OBJECT_FLAG_USE_RESOURCE_REF)\<lparr>o_parentID := p,
      o_id := st_lastID st1 + 1\<rparr>, ch), st') \<and> directory_at p st'"
proof -
  obtain st' where run: "addObject f2i ob st = (Inr ((clearFlag ob OBJECT_FLAG_USE_RESOURCE_REF)\<lparr>o_parentID := p,
      o_id := st_lastID st1 + 1\<rparr>, ch), st')"
    using addObject_succeeds [OF pl pa e bounds new] by blast
  obtain st2 ob' q where r: "getNextID st1 = (Inr (st_lastID st1 + 1), st1\<lparr>st_lastID := st_lastID st1 + 1\<rparr>)"
    "insert_row q (\<lambda>st. st\<lparr>st_rows := st_rows st @ [stored_row (st_lastID st1 + 1) (item_row_columns ob i p)]\<rparr>)
       (\<lambda>st. st\<lparr>st_pending := st_pending st @ [stored_row (st_lastID st1 + 1) (item_row_columns ob i p)]\<rparr>)
       (st1\<lparr>st_lastID := st_lastID st1 + 1\<rparr>) = (Inr (), st2)"
    "store_cache_added ob' st2 = (Inr (), st')"
    by (rule addObject_plain [OF pl run]) (use e pa in auto)
  have "with_scans (st_autoscans st) (st_lastID st) st" using nc by (simp add: with_scans_def)
  then have "with_scans (st_autoscans st) (st_lastID st) st1"
    using keepsD [OF ensurePathExistence_keeps [OF with_scans_find with_scans_create], of _ _ st f2i "Some (pa ! 0)"] e
    by simp
  then have nc1: "ss_cache (st_sql st1) = None" "\<not> ss_insertBufferOn (st_sql st1)" by (simp_all add: with_scans_def no_cache_def)
  then have st2: "\<exists>xs. st_rows st2 = st_rows st1 @ xs \<and> st_active st2 = st_active st1 \<and> st_autoscans st2 = st_autoscans st1
      \<and> ss_cache (st_sql st2) = None"
    using r(2) by (auto simp: insert_row_def exec_sql_def)
  have "\<exists>ss. st' = set_sql ss (st2\<lparr>st_fresh := st_fresh st2 + 1\<rparr>) \<and> ss_cache ss = None"
    using r(3) st2 by (auto simp: store_cache_added_def cache_added_def split: sum.splits)
  then obtain ss where "st' = set_sql ss (st2\<lparr>st_fresh := st_fresh st2 + 1\<rparr>)" "ss_cache ss = None" by blast
  then have "\<exists>xs. st_rows st' = st_rows st1 @ xs \<and> st_active st' = st_active st1 \<and> st_autoscans st' = st_autoscans st1
      \<and> ss_cache (st_sql st') = None"
    using st2 by (auto simp: set_sql_def)
  then have "directory_at p st'" using directory_at_more [OF dir] by auto
  then show ?thesis using run by blast
qed

lemma of_result_Inr: "and_then (of_result (Inr x)) f = f x"
  by (simp add: fun_eq_iff)

lemma cm_addObject_adds:
  assumes pl: "plain_item ob i" and v: "validate cp ob = Inr ()"
    and loc: "o_location ob = Some path" "squeeze DIR_SEPARATOR path = path"
    and nc: "no_cache (cm_store s)" and pa: "split_path (Some path) = Inr pa"
    and e: "ensurePathExistence f2i (Some (pa ! 0)) (cm_store s) = (Inr (p, ch), st1)"
    and bounds: "p \<noteq> INVALID_OBJECT_ID" "CDS_ID_FS_ROOT \<le> st_lastID st1" "st_lastID st1 + 1 < 2 ^ 31"
    and new: "o_id ob = INVALID_OBJECT_ID" and dir: "directory_at p st1"
  shows "\<exists>ob' s'. cm_addObject f2i cp ob s = (Inr ob', s') \<and> o_id ob' = st_lastID st1 + 1
    \<and> o_objectType ob' = o_objectType ob"
proof -
  have nf: "nul_free path" using pl loc(1) by (auto simp: plain_item_def)
  have ty: "\<not> IS_CDS_ITEM_EXTERNAL_URL (o_objectType ob)"
    using pl by (auto simp: plain_item_def cds_inv_def class_type_def IS_CDS_defs)
  have same: "ob\<lparr>o_location := Some path\<rparr> = ob" using loc(1) by simp
  have red: "z_reduce (o_location ob) DIR_SEPARATOR = Inr (Some path)"
    using z_reduce_squeeze [OF nf, of DIR_SEPARATOR] loc by simp
  let ?ob = "(clearFlag ob OBJECT_FLAG_USE_RESOURCE_REF)\<lparr>o_parentID := p, o_id := st_lastID st1 + 1\<rparr>"
  obtain st' where a: "addObject f2i ob (cm_store s) = (Inr (?ob, ch), st')" "directory_at p st'"
    using addObject_adds [OF pl nc _ e bounds new dir] pa loc(1) by auto
  have o: "on_store (addObject f2i ob) s = (Inr (?ob, ch), s\<lparr>cm_store := st'\<rparr>)"
    using a(1) by (simp add: on_store_def)
  obtain s' where s': "object_added ch ?ob (s\<lparr>cm_store := st'\<rparr>) = (Inr (), s')"
    using succeedsD [OF object_added_succeeds, of ?ob "s\<lparr>cm_store := st'\<rparr>" ch] a(2) by auto
  have "cm_addObject f2i cp ob s = and_then (on_store (addObject f2i ob)) (\<lambda>(ob, containerChanged).
      and_then (object_added containerChanged ob) (\<lambda>_. give ob)) s"
    by (simp add: cm_addObject_def v ty red same and_then_def give_def)
  also have "\<dots> = (Inr ?ob, s')"
    by (simp add: and_then_Inr [of "on_store (addObject f2i ob)", OF o] and_then_Inr [of "object_added ch ?ob", OF s'])
  finally have "cm_addObject f2i cp ob s = (Inr ?ob, s')" .
  then show ?thesis by (intro exI [of _ ?ob] exI [of _ s']) (simp add: clearFlag_def)
qed

lemma addFile_succeeds:
  assumes name: "get_filename (Some path) = Inr filename" "hidden \<or> \<not> (string_ok filename \<and> byte_at (the filename) 0 = CHR ''.'')"
    and config: "\<not> z_eq (ie_configFilename env) (Some path)"
    and new: "findObjectByPath (Some path) (cm_store s) = (Inr None, st0)"
    and made: "createObjectFromFile env path True False = Inr (Some ob)" "plain_item ob i" "o_id ob = INVALID_OBJECT_ID"
      "o_location ob = Some path" "validate (\<lambda>z. check_path env z False) ob = Inr ()"
    and path: "squeeze DIR_SEPARATOR path = path" "split_path (Some path) = Inr pa"
    and store: "no_cache st0" "ids_unique st0"
    and dir: "ensurePathExistence (ie_f2i env) (Some (pa ! 0)) st0 = (Inr (p, ch), st1)" "directory_at p st1"
      "p \<noteq> INVALID_OBJECT_ID" "CDS_ID_FS_ROOT \<le> st_lastID st1" "st_lastID st1 + 1 < 2 ^ 31"
  shows "\<exists>s'. addFile env None path rootpath recursive hidden task s = (Inr (st_lastID st1 + 1), s')
    \<and> file_at (cm_store s') path (st_lastID st1 + 1)"
proof -
  let ?s = "s\<lparr>cm_store := st0\<rparr>"
  have found: "on_store (findObjectByPath (Some path)) s = (Inr None, ?s)" using new by (simp add: on_store_def)
  have item: "IS_CDS_ITEM (o_objectType ob)" "\<not> IS_CDS_CONTAINER (o_objectType ob)"
    using made(2) by (auto simp: plain_item_def cds_inv_def class_type_def IS_CDS_defs)
  obtain ob' s' where add: "add_item env ob ?s = (Inr ob', s')" and ob': "o_id ob' = st_lastID st1 + 1" "o_objectType ob' = o_objectType ob"
    using cm_addObject_adds [OF made(2,5,4) path(1), of ?s pa "ie_f2i env" p ch st1] store(1) path(2) dir made(3) by auto
  have reg: "nul_free path" "new_file ob path"
    using made(2,4) by (auto simp: plain_item_def new_file_def cds_inv_def class_type_def IS_CDS_defs)
  have row: "file_at (cm_store s') path (st_lastID st1 + 1)"
    using cm_addObject_file [OF add reg(2,1)] store(2) ob'(1) path(1) by simp
  have "new_file_object env None path rootpath task ?s = (Inr (Some ob'), s')"
    by (simp add: new_file_object_def made(1) item and_then_Inr [of "add_item env ob", OF add] lay_out_def)
  note obj = and_then_Inr [of "new_file_object env None path rootpath task", OF this]
  have main: "and_then (on_store (findObjectByPath (Some path))) (\<lambda>ob.
       and_then (case ob of Some ob \<Rightarrow> give (Some ob) | None \<Rightarrow> new_file_object env None path rootpath task) (\<lambda>ob.
       case ob of
         None \<Rightarrow> give INVALID_OBJECT_ID
       | Some ob \<Rightarrow>
           and_then (if recursive \<and> IS_CDS_CONTAINER (o_objectType ob)
                     then addRecursive env None hidden task path else give ()) (\<lambda>_.
             give (o_id ob)))) s = (Inr (st_lastID st1 + 1), s')"
    by (simp add: and_then_Inr [of "on_store (findObjectByPath (Some path))", OF found] obj ob' item)
  have "addFile env None path rootpath recursive hidden task s = (Inr (st_lastID st1 + 1), s')"
    using name config unfolding addFile_def by (cases hidden) (auto simp: main)
  then show ?thesis using row by blast
qed

section \<open>An example\<close>

definition demo_env :: import_env where
  \<comment> \<open>a file system with one song\<close>
  "demo_env = \<lparr>ie_stat = (\<lambda>p. if p = ''/a.mp3'' then Inr \<lparr>fs_kind = Regular_File, fs_mtime = 5, fs_size = 7\<rparr> else Inl 2),
     ie_entries = (\<lambda>_. Inl 2), ie_strerror = (\<lambda>_. ''error''), ie_alive = (\<lambda>_. True), ie_f2i = (\<lambda>z. z),
     ie_magic = (\<lambda>_. None), ie_isTheora = (\<lambda>_. False), ie_handlers = (\<lambda>_ ob. Inr ob),
     ie_extensions = Some [(Some ''mp3'', Some ''audio/mpeg'')],
     ie_classes = Some [(Some ''audio/*'', Some ''object.item.audioItem.musicTrack'')],
     ie_contents = [(Some ''audio/mpeg'', Some ''mp3'')], ie_ignore_unknown = False, ie_case_sensitive = False,
     ie_configFilename = None\<rparr>"

lemma demo_name: "get_filename (Some ''/a.mp3'') = Inr (Some ''a.mp3'')"
  by (simp add: get_filename_def z_rindex_def z_substring_from_def z_substring_def strncpy_def cstr_def Let_def)

lemma demo_types: "file_type demo_env ''/a.mp3'' (Some ''a.mp3'') True
   = Inr (Some (Some ''audio/mpeg'', Some ''object.item.audioItem.musicTrack''))"
  by (simp add: file_type_def z_rindex_def z_substring_from_def z_substring_def strncpy_def cstr_def Let_def extension2mimetype_def demo_env_def
    mimetype2upnpclass_def z_eq_def bind_result_def split_string_def z_append_def z_toLower_def tolower_def)


lemma demo_env_simps:
  "ie_stat demo_env ''/a.mp3'' = Inr \<lparr>fs_kind = Regular_File, fs_mtime = 5, fs_size = 7\<rparr>"
  "ie_f2i demo_env = (\<lambda>z. z)" "ie_handlers demo_env c ob = Inr ob" "ie_isTheora demo_env z = False"
  "ie_contents demo_env = [(Some ''audio/mpeg'', Some ''mp3'')]" "ie_configFilename demo_env = None"
  by (simp_all add: demo_env_def)


definition demo_item :: item_part where
  "demo_item = new_item_part\<lparr>i_mimeType := Some ''audio/mpeg''\<rparr>"

definition demo_import :: cds_object where
  \<comment> \<open>the object that is made for the song\<close>
  "demo_import = new_CdsItem\<lparr>o_title := Some ''a.mp3'', o_upnpClass := Some ''object.item.audioItem.musicTrack'',
     o_location := Some ''/a.mp3'', o_mtime := 5, o_sizeOnDisk := 7,
     o_resources := [r_addAttribute (r_addAttribute (new_CdsResource 0) (Some ''protocolInfo'')
       (Some ''http-get:*:audio/mpeg:*'')) (Some ''size'') (z_from 7)], o_part := CdsItem demo_item\<rparr>"

lemma demo_made: "createObjectFromFile demo_env ''/a.mp3'' True False = Inr (Some demo_import)"
proof -
  have "renderProtocolInfo (Some ''audio/mpeg'') (Some ''http-get'') None = Some ''http-get:*:audio/mpeg:*''"
    by (simp add: renderProtocolInfo_def z_append_def cstr_def string_ok_def z_eq_def Let_def)
  then show ?thesis
    by (simp add: createObjectFromFile_def demo_name demo_types setMetadata_def demo_env_simps check_path_ex_def
        c_str_def cstr_def string_ok_ex_def string_ok_def Let_def bind_result_def new_Cds_defs z_eq_def set_mime_def
        the_item_def mime_of_def set_item_def demo_import_def demo_item_def)
qed

lemma demo_plain: "plain_item demo_import demo_item"
  by (simp add: plain_item_def demo_import_def demo_item_def new_Cds_defs new_item_part_def cds_inv_def d_inv_def d_plain_def
      r_inv_def r_plain_def new_CdsResource_def class_type_def getFlag_def r_addAttribute_def z_eq_def z_from_def z_key_def cstr_def)

lemma demo_valid: "validate (\<lambda>z. check_path demo_env z False) demo_import = Inr ()"
  by (simp add: validate_def item_validate_def object_validate_def demo_import_def demo_item_def new_Cds_defs
     string_ok_def z_eq_def check_path_def c_str_def cstr_def demo_env_simps bind_result_def)

definition demo_root :: table_row where
  "demo_root = container_row 1 0 (Some ''PC Directory'') (Some ''D/'') None INVALID_OBJECT_ID"

lemma demo_not_found: "find (\<lambda>r. at_location (Some ''F/a.mp3'') r \<and> P r) [demo_root] = None"
  by (simp add: demo_root_def at_location_container_row nul_free_def)

lemma demo_location: "path_location (Some ''/a.mp3'') = Inr (Some ''F/a.mp3'')"
proof -
  have "z_reduce (Some ''/a.mp3'') DIR_SEPARATOR = Inr (Some ''/a.mp3'')"
    by (subst z_reduce_squeeze) (simp_all add: nul_free_def)
  then show ?thesis
    by (simp add: path_location_def bind_result_def split_path_def z_rindex_def
        z_substring_from_def z_substring_def strncpy_def cstr_def Let_def
      string_ok_def z_eq_def addLocationPrefix_def z_append_def)
qed

lemma demo_readable: "readable st demo_root" if "st_autoscans st = []"
proof -
  have "demo_root ''ref_id'' = None" by (simp add: demo_root_def container_row_cols)
  then have "find (\<lambda>rf. rf ''id'' \<noteq> None \<and> rf ''id'' = demo_root ''ref_id'') (st_rows st) = None"
    by (intro find_no_match) auto
  then have "joined_row st demo_root = select_row demo_root (\<lambda>_. None) None"
    using that by (simp add: joined_row_def)
  then show ?thesis
    using read_container [of "''PC Directory''" "''/''" 0 1 "st_active st" False None]
    by (simp add: readable_def demo_root_def nul_free_def)
qed

lemma demo_directory:
  "ss_cache (st_sql st) = None \<Longrightarrow> st_autoscans st = [] \<Longrightarrow> st_rows st = [demo_root] \<Longrightarrow> directory_at CDS_ID_FS_ROOT st"
  using demo_readable by (simp add: directory_at_def demo_root_def with_id_def col_is_def container_row_cols)

end
