(* ===== verification/Rescan.thy ===== *)
theory Rescan
  imports Import_Run
begin

text \<open>
  Scanning directories again (src/content_manager.cc): \<open>_rescanDirectory\<close>, \<open>rescanDirectory\<close>,
  \<open>CMRescanDirectoryTask::run\<close>, \<open>timerNotify\<close> for a directory, and the operations on the two
  lists of autoscan directories: \<open>getAutoscanDirectory\<close>, \<open>removeAutoscanDirectory\<close> (three
  versions), \<open>setAutoscanDirectory\<close> and the handling of persistent directories.

  The state adds to the content manager the store and the lists of Autoscan, the tasks that are
  added with low priority, the timer parameters whose subscription is removed, and the calls of
  \<open>inotify.monitor\<close> (with \<open>True\<close>) and \<open>inotify.unmonitor\<close>.

  The surroundings are those of File_Import, with the option for inotify, the task that runs, and
  what other threads do to the directories before an entry is looked at.
\<close>

section \<open>State\<close>

datatype scan_task =
    Rescan_Task int int scan_mode bool zstring   \<comment> \<open>object, scan, mode, cancellable, description\<close>
  | Add_Task zstring zstring bool bool "32 word" bool
      \<comment> \<open>path, root path, recursive, hidden, ID of the parent, cancellable\<close>

record scanner =
  sn_cm :: manager
  sn_dirs :: autoscan_store
  sn_timed :: autoscan_list
  sn_inotify :: autoscan_list
  sn_tasks :: "scan_task list"
  sn_timer :: "nat list"
  sn_watches :: "(bool \<times> zstring) list"

record scan_env =
  se_import :: import_env
  se_layout :: "layout option"
  se_use_inotify :: bool
  se_others :: "string \<Rightarrow> autoscan_store \<Rightarrow> autoscan_store"
  se_running :: bool             \<comment> \<open>after the loop: no shutdown, and the task is valid\<close>
  se_taskID :: "32 word"
  se_cancellable :: bool

definition on_cm :: "(manager, 'a) action \<Rightarrow> (scanner, 'a) action" where
  "on_cm m s = (let (r, c) = m (sn_cm s) in (r, s\<lparr>sn_cm := c\<rparr>))"

abbreviation on_db :: "(store, 'a) action \<Rightarrow> (scanner, 'a) action" where
  "on_db m \<equiv> on_cm (on_store m)"

definition on_dirs :: "(autoscan_store \<Rightarrow> 'a result) \<Rightarrow> (scanner, 'a) action" where
  "on_dirs f s = (f (sn_dirs s), s)"

definition dir_of :: "nat \<Rightarrow> (scanner, autoscan_directory) action" where
  "dir_of a = on_dirs (\<lambda>st. ad_get st (Some a))"

definition set_dir :: "nat \<Rightarrow> (autoscan_directory \<Rightarrow> autoscan_directory) \<Rightarrow> (scanner, unit) action" where
  "set_dir a f =
     change (\<lambda>s. s\<lparr>sn_dirs := (sn_dirs s)\<lparr>st_dirs := (st_dirs (sn_dirs s))(a := map_option f (st_dirs (sn_dirs s) a))\<rparr>\<rparr>)"

definition list_of :: "scan_mode \<Rightarrow> scanner \<Rightarrow> autoscan_list" where
  "list_of m s = (case m of Timed \<Rightarrow> sn_timed s | INotify \<Rightarrow> sn_inotify s)"

definition set_list :: "scan_mode \<Rightarrow> autoscan_store \<times> autoscan_list \<Rightarrow> scanner \<Rightarrow> scanner" where
  "set_list m = (\<lambda>(st, l) s. case m of
     Timed \<Rightarrow> s\<lparr>sn_dirs := st, sn_timed := l\<rparr> | INotify \<Rightarrow> s\<lparr>sn_dirs := st, sn_inotify := l\<rparr>)"

definition on_list :: "scan_mode \<Rightarrow> (autoscan_store \<Rightarrow> autoscan_list \<Rightarrow> (autoscan_store \<times> autoscan_list) result)
    \<Rightarrow> (scanner, unit) action" where
  "on_list m f s =
     (case f (sn_dirs s) (list_of m s) of Inl e \<Rightarrow> (Inl e, s) | Inr r \<Rightarrow> (Inr (), set_list m r s))"

definition list_add :: "scan_mode \<Rightarrow> nat \<Rightarrow> (scanner, unit) action" where
  "list_add m a = on_list m (\<lambda>st l. bind_result (al_add st l a) (\<lambda>(st, l, _). Inr (st, l)))"

definition timer_removed :: "nat \<Rightarrow> (scanner, unit) action" where
  \<comment> \<open>\<open>removeTimerSubscriber\<close> with the parameter of the directory\<close>
  "timer_removed a = and_then (dir_of a) (\<lambda>d. change (\<lambda>s. s\<lparr>sn_timer := sn_timer s @ [ad_timer_parameter d]\<rparr>))"

definition watch :: "bool \<Rightarrow> zstring \<Rightarrow> (scanner, unit) action" where
  "watch on location = change (\<lambda>s. s\<lparr>sn_watches := sn_watches s @ [(on, location)]\<rparr>)"

definition unmonitor :: "autoscan_directory \<Rightarrow> (scanner, unit) action" where
  \<comment> \<open>the assertion of \<open>AutoscanInotify::unmonitor\<close> ends the program\<close>
  "unmonitor d = (if ad_persistent d then throw Abort else watch False (ad_location d))"

section \<open>The lists\<close>

definition sn_getAutoscanDirectory :: "int \<Rightarrow> scan_mode \<Rightarrow> (scanner, nat option) action" where
  "sn_getAutoscanDirectory scanID m = look (\<lambda>s. al_get (list_of m s) scanID)"

definition sn_getAutoscanByLocation :: "zstring \<Rightarrow> (scanner, nat option) action" where
  "sn_getAutoscanByLocation location =
     and_then (look sn_timed) (\<lambda>timed.
     and_then (on_dirs (\<lambda>st. al_getByLocation st timed location)) (\<lambda>dir.
       if dir = None then and_then (look sn_inotify) (\<lambda>l. on_dirs (\<lambda>st. al_getByLocation st l location))
       else give dir))"

definition sn_removeAutoscanDirectory :: "scan_env \<Rightarrow> int \<Rightarrow> scan_mode \<Rightarrow> (scanner, unit) action" where
  "sn_removeAutoscanDirectory env scanID m =
     (if m = INotify \<and> \<not> se_use_inotify env then give ()
      else
        and_then (look (\<lambda>s. al_get (list_of m s) scanID)) (\<lambda>adir.
        case adir of
          None \<Rightarrow> throw (Throw ''can not remove autoscan directory - was not an autoscan'')
        | Some a \<Rightarrow>
            and_then (on_list m (\<lambda>st l. al_remove st l scanID)) (\<lambda>_.
            and_then (dir_of a) (\<lambda>d.
            and_then (on_db (removeAutoscanDirectory (ad_storageID d))) (\<lambda>_.
            and_then (on_cm (ui_changed [ad_objectID d])) (\<lambda>_.
              case m of Timed \<Rightarrow> timer_removed a | INotify \<Rightarrow> unmonitor d))))))"

definition sn_removeAutoscanByObjectID :: "scan_env \<Rightarrow> int \<Rightarrow> (scanner, unit) action" where
  \<comment> \<open>the directory comes from the database with a timer parameter of its own, so there is no
      subscription to remove\<close>
  "sn_removeAutoscanByObjectID env objectID =
     and_then (on_db (\<lambda>st. (getAutoscanDirectory objectID st, st))) (\<lambda>adir.
     case adir of
       None \<Rightarrow> throw (Throw ''can not remove autoscan directory - was not an autoscan'')
     | Some d \<Rightarrow>
         if ad_mode d = INotify \<and> \<not> se_use_inotify env then give ()
         else
           and_then (on_list (ad_mode d) (\<lambda>st l.
             bind_result (al_removeByLocation st l (ad_location d)) (\<lambda>(st, l, _). Inr (st, l)))) (\<lambda>_.
           and_then (on_db (removeAutoscanDirectoryByObjectID objectID)) (\<lambda>_.
           and_then (on_cm (ui_changed [objectID])) (\<lambda>_.
             if ad_mode d = INotify then unmonitor d else give ()))))"

definition sn_removeAutoscanByLocation :: "scan_env \<Rightarrow> zstring \<Rightarrow> (scanner, unit) action" where
  "sn_removeAutoscanByLocation env location =
     and_then (look sn_timed) (\<lambda>timed.
     and_then (on_dirs (\<lambda>st. al_getByLocation st timed location)) (\<lambda>adir.
     and_then
       (if adir = None \<and> se_use_inotify env
        then and_then (look sn_inotify) (\<lambda>l. on_dirs (\<lambda>st. al_getByLocation st l location))
        else give adir) (\<lambda>adir.
     case adir of
       None \<Rightarrow> throw (Throw ''can not remove autoscan directory - was not an autoscan'')
     | Some a \<Rightarrow> and_then (dir_of a) (\<lambda>d. sn_removeAutoscanByObjectID env (ad_objectID d)))))"

definition handlePersistentRemove :: "scan_env \<Rightarrow> int \<Rightarrow> scan_mode \<Rightarrow> (scanner, unit) action" where
  \<comment> \<open>\<open>handlePeristentAutoscanRemove\<close>\<close>
  "handlePersistentRemove env scanID m =
     and_then (sn_getAutoscanDirectory scanID m) (\<lambda>adir.
     case adir of
       None \<Rightarrow> throw Abort
     | Some a \<Rightarrow>
         and_then (dir_of a) (\<lambda>d.
           if ad_persistent d then
             and_then (set_dir a (\<lambda>d. d\<lparr>ad_objectID := INVALID_OBJECT_ID\<rparr>)) (\<lambda>_.
             and_then (dir_of a) (\<lambda>d. on_db (updateAutoscanDirectory d)))
           else
             and_then (sn_removeAutoscanDirectory env (ad_scanID d) (ad_mode d)) (\<lambda>_.
               on_db (removeAutoscanDirectory (ad_storageID d)))))"

definition handlePersistentRecreate :: "scan_env \<Rightarrow> int \<Rightarrow> scan_mode \<Rightarrow> (scanner, unit) action" where
  "handlePersistentRecreate env scanID m =
     and_then (sn_getAutoscanDirectory scanID m) (\<lambda>adir.
     case adir of
       None \<Rightarrow> throw Abort
     | Some a \<Rightarrow>
         and_then (dir_of a) (\<lambda>d.
         and_then (on_cm (cm_ensurePathExistence (ie_f2i (se_import env)) (ad_location d))) (\<lambda>i.
         and_then (set_dir a (\<lambda>d. d\<lparr>ad_objectID := i\<rparr>)) (\<lambda>_.
         and_then (dir_of a) (\<lambda>d. on_db (updateAutoscanDirectory d))))))"

section \<open>Scanning\<close>

definition sn_rescanDirectory :: "int \<Rightarrow> int \<Rightarrow> scan_mode \<Rightarrow> zstring \<Rightarrow> bool \<Rightarrow> (scanner, unit) action" where
  "sn_rescanDirectory objectID scanID m descPath cancellable =
     and_then (sn_getAutoscanDirectory scanID m) (\<lambda>dir.
     case dir of
       None \<Rightarrow> give ()
     | Some a \<Rightarrow>
         and_then (set_dir a (\<lambda>d. d\<lparr>ad_taskCount := ad_taskCount d + 1\<rparr>)) (\<lambda>_.
         and_then (dir_of a) (\<lambda>d.
         let lvl = (if ad_level d = Basic then ''basic'' else ''full'');
             descPath = (if \<not> string_ok descPath then ad_location d else descPath);
             desc = z_append (Some (''Performing '' @ lvl @ '' scan: '')) descPath
         in change (\<lambda>s. s\<lparr>sn_tasks := sn_tasks s @ [Rescan_Task objectID scanID m cancellable desc]\<rparr>))))"

definition sn_timerNotify :: "int \<Rightarrow> (scanner, unit) action" where
  \<comment> \<open>\<open>timerNotify\<close> with the parameter of an autoscan directory, given by its ID\<close>
  "sn_timerNotify parameterID =
     and_then (look (\<lambda>s. al_get (sn_timed s) parameterID)) (\<lambda>dir.
     case dir of
       None \<Rightarrow> give ()
     | Some a \<Rightarrow>
         and_then (dir_of a) (\<lambda>d. sn_rescanDirectory (ad_objectID d) (ad_scanID d) (ad_mode d) None True))"

definition add_found :: "scan_env \<Rightarrow> string \<Rightarrow> zstring \<Rightarrow> bool \<Rightarrow> (scanner, unit) action" where
  \<comment> \<open>\<open>addFileInternal(path, location, false, false, hidden)\<close>\<close>
  "add_found env path location hidden =
     and_then (on_cm (addFile (se_import env) (se_layout env) path location False hidden None)) (\<lambda>_. give ())"

definition drop_scan :: "scan_env \<Rightarrow> nat \<Rightarrow> int \<Rightarrow> scan_mode \<Rightarrow> (scanner, unit) action" where
  \<comment> \<open>a directory that is not persistent is given up\<close>
  "drop_scan env a scanID m =
     and_then (sn_removeAutoscanDirectory env scanID m) (\<lambda>_.
     and_then (dir_of a) (\<lambda>d. on_db (removeAutoscanDirectory (ad_storageID d))))"

definition no_tasks :: "nat \<Rightarrow> (scanner, unit) action" where
  "no_tasks a = set_dir a (\<lambda>d. d\<lparr>ad_taskCount := -1\<rparr>)"

definition set_object :: "nat \<Rightarrow> int \<Rightarrow> (scanner, unit) action" where
  \<comment> \<open>\<open>adir->setObjectID(id); storage->updateAutoscanDirectory(adir);\<close>\<close>
  "set_object a i =
     and_then (set_dir a (\<lambda>d. d\<lparr>ad_objectID := i\<rparr>)) (\<lambda>_.
     and_then (dir_of a) (\<lambda>d. on_db (updateAutoscanDirectory d)))"

definition known_container :: "int \<Rightarrow> (scanner, zstring) action" where
  "known_container containerID =
     and_then (on_db (loadObject containerID)) (\<lambda>ob.
       if \<not> IS_CDS_CONTAINER (o_objectType ob) then throw (Throw ''Not a container'')
       else give (if containerID = CDS_ID_FS_ROOT then Some ''/'' else o_location ob))"

definition scan_start :: "scan_env \<Rightarrow> nat \<Rightarrow> int \<Rightarrow> scan_mode \<Rightarrow> int \<Rightarrow> (scanner, (int \<times> zstring) option) action" where
  \<comment> \<open>the container and its location; \<open>None\<close> when the function returns\<close>
  "scan_start env a scanID m containerID =
     and_then
       (if containerID = INVALID_OBJECT_ID then give (Some None)
        else
          and_then (caught (and_then (known_container containerID) (\<lambda>l. give (Some l))) None) (\<lambda>location.
          case location of
            Some l \<Rightarrow> give (Some (Some l))
          | None \<Rightarrow>
              and_then (dir_of a) (\<lambda>d.
                if ad_persistent d then give (Some None)
                else and_then (no_tasks a) (\<lambda>_. and_then (drop_scan env a scanID m) (\<lambda>_. give None))))) (\<lambda>start.
     case start of
       None \<Rightarrow> give None
     | Some (Some location) \<Rightarrow> give (Some (containerID, location))
     | Some None \<Rightarrow>
         and_then (dir_of a) (\<lambda>d.
           if \<not> check_path (se_import env) (ad_location d) True then
             and_then (set_object a INVALID_OBJECT_ID) (\<lambda>_.
               if ad_persistent d then give None
               else and_then (no_tasks a) (\<lambda>_. and_then (drop_scan env a scanID m) (\<lambda>_. give None)))
           else
             and_then (on_cm (cm_ensurePathExistence (ie_f2i (se_import env)) (ad_location d))) (\<lambda>i.
             and_then (set_object a i) (\<lambda>_. give (Some (i, ad_location d))))))"

definition not_listed :: "scan_env \<Rightarrow> nat \<Rightarrow> int \<Rightarrow> scan_mode \<Rightarrow> int \<Rightarrow> (scanner, unit) action" where
  \<comment> \<open>the directory cannot be opened\<close>
  "not_listed env a scanID m containerID =
     and_then (dir_of a) (\<lambda>d.
       if ad_persistent d then
         and_then (on_cm (cm_removeObject containerID False)) (\<lambda>_. set_object a INVALID_OBJECT_ID)
       else
         and_then (no_tasks a) (\<lambda>_.
         and_then (on_cm (cm_removeObject containerID False)) (\<lambda>_. drop_scan env a scanID m)))"

type_synonym scan_rest = "(int list option \<times> int) option"
  \<comment> \<open>\<open>list\<close> and \<open>last_modified_current_max\<close>; \<open>None\<close> when the function returns\<close>

definition erase_id :: "int \<Rightarrow> int list option \<Rightarrow> int list option" where
  "erase_id i l = map_option (removeAll i) l"

definition scan_file ::
  "scan_env \<Rightarrow> scan_level \<Rightarrow> string \<Rightarrow> zstring \<Rightarrow> bool \<Rightarrow> int \<Rightarrow> int list option \<times> int \<Rightarrow> (scanner, scan_rest) action" where
  \<comment> \<open>a regular file with its time\<close>
  "scan_file env lvl path location hidden mtime = (\<lambda>(list, lmt).
     and_then (on_db (findObjectIDByPath (Some path))) (\<lambda>objectID.
       if objectID > 0 then
         (if lvl = Full then
            (if lmt < mtime then
               and_then (on_cm (cm_removeObject objectID False)) (\<lambda>_.
               and_then (add_found env path location hidden) (\<lambda>_. give (Some (erase_id objectID list, mtime))))
             else give (Some (erase_id objectID list, lmt)))
          else give (Some (erase_id objectID list, lmt)))
       else if \<not> z_eq (ie_configFilename (se_import env)) (Some path) then
         and_then (add_found env path location hidden) (\<lambda>_. give (Some (list, if lmt < mtime then mtime else lmt)))
       else give (Some (list, lmt))))"

definition scan_directory ::
  "scan_env \<Rightarrow> nat \<Rightarrow> int \<Rightarrow> scan_mode \<Rightarrow> string \<Rightarrow> zstring \<Rightarrow> int list option \<times> int \<Rightarrow> (scanner, scan_rest) action" where
  \<comment> \<open>a directory that is found by a recursive scan\<close>
  "scan_directory env a scanID m path location = (\<lambda>(list, lmt).
     and_then (on_db (findObjectIDByPath (Some (path @ [DIR_SEPARATOR])))) (\<lambda>objectID.
       if objectID > 0 then
         and_then (sn_rescanDirectory objectID scanID m (Some (path @ [DIR_SEPARATOR])) (se_cancellable env)) (\<lambda>_.
           give (Some (erase_id objectID list, lmt)))
       else
         and_then (dir_of a) (\<lambda>d.
           if ad_scanID d = INVALID_SCAN_ID then give None
           else
             and_then (change (\<lambda>s. s\<lparr>sn_tasks := sn_tasks s @
               [Add_Task (Some path) location True (ad_hidden d) (se_taskID env) (se_cancellable env)]\<rparr>)) (\<lambda>_.
               give (Some (list, lmt))))))"

definition scan_entry ::
  "scan_env \<Rightarrow> nat \<Rightarrow> int \<Rightarrow> scan_mode \<Rightarrow> scan_level \<Rightarrow> string \<Rightarrow> string \<Rightarrow> scan_rest \<Rightarrow> (scanner, scan_rest) action" where
  "scan_entry env a scanID m lvl location name rest =
     (case rest of
        None \<Rightarrow> give None
      | Some found \<Rightarrow>
          and_then (dir_of a) (\<lambda>d.
            if hidden_entry (ad_hidden d) name then give (Some found)
            else
              (let path = location @ DIR_SEPARATOR # name
               in case ie_stat (se_import env) (cstr path) of
                    Inl _ \<Rightarrow> give (Some found)
                  | Inr fs \<Rightarrow>
                      and_then (change (\<lambda>s. s\<lparr>sn_dirs := se_others env path (sn_dirs s)\<rparr>)) (\<lambda>_.
                      and_then (dir_of a) (\<lambda>d.
                        if ad_scanID d = INVALID_SCAN_ID then give None
                        else if fs_kind fs = Regular_File then
                          scan_file env lvl path (Some location) (ad_hidden d) (fs_mtime fs) found
                        else if fs_kind fs = Directory_File \<and> ad_recursive d then
                          scan_directory env a scanID m path (Some location) found
                        else give (Some found))))))"

definition scan_end :: "scan_env \<Rightarrow> nat \<Rightarrow> scan_rest \<Rightarrow> (scanner, unit) action" where
  \<comment> \<open>what was not found any more is removed\<close>
  "scan_end env a rest =
     (case rest of
        None \<Rightarrow> give ()
      | Some (list, lmt) \<Rightarrow>
          if \<not> se_running env then give ()
          else
            and_then
              (if list \<noteq> None \<and> the list \<noteq> [] then
                 and_then (on_db (removeObjects (the list) False)) (\<lambda>changed.
                 case changed of
                   None \<Rightarrow> give ()
                 | Some c \<Rightarrow>
                     and_then (on_cm (ui_changed (csv_ids (cc_ui c)))) (\<lambda>_. on_cm (upnp_changed (csv_ids (cc_upnp c)))))
               else give ()) (\<lambda>_.
              set_dir a (\<lambda>d. ad_setCurrentLMT d lmt)))"

definition rescan :: "scan_env \<Rightarrow> int \<Rightarrow> int \<Rightarrow> scan_mode \<Rightarrow> scan_level \<Rightarrow> (scanner, unit) action" where
  \<comment> \<open>\<open>_rescanDirectory\<close>\<close>
  "rescan env containerID scanID m lvl =
     (if scanID = INVALID_SCAN_ID then give ()
      else
        and_then (sn_getAutoscanDirectory scanID m) (\<lambda>adir.
        case adir of
          None \<Rightarrow> throw (Throw ''ID valid but nullptr returned? this should never happen'')
        | Some a \<Rightarrow>
            and_then (scan_start env a scanID m containerID) (\<lambda>start.
            case start of
              None \<Rightarrow> give ()
            | Some (containerID, location) \<Rightarrow>
                and_then (dir_of a) (\<lambda>d.
                  if \<not> string_ok location then give ()
                  else
                    (case opendir (se_import env) (c_str location) of
                       Inl _ \<Rightarrow> not_listed env a scanID m containerID
                     | Inr names \<Rightarrow>
                         and_then (on_db (getObjects containerID (\<not> ad_recursive d))) (\<lambda>list.
                         and_then (each_entry (scan_entry env a scanID m lvl (the location))
                           (takeWhile (\<lambda>name. ie_alive (se_import env) (the location @ DIR_SEPARATOR # name)) names)
                           (Some (list, ad_last_mod_previous_scan d))) (\<lambda>rest.
                           scan_end env a rest)))))))"

definition run_rescan :: "scan_env \<Rightarrow> int \<Rightarrow> int \<Rightarrow> scan_mode \<Rightarrow> (scanner, unit) action" where
  \<comment> \<open>\<open>CMRescanDirectoryTask::run\<close>\<close>
  "run_rescan env objectID scanID m =
     and_then (sn_getAutoscanDirectory scanID m) (\<lambda>dir.
     case dir of
       None \<Rightarrow> give ()
     | Some a \<Rightarrow>
         and_then (dir_of a) (\<lambda>d.
         and_then (rescan env objectID (ad_scanID d) (ad_mode d) (ad_level d)) (\<lambda>_.
         and_then (set_dir a (\<lambda>d. d\<lparr>ad_taskCount := ad_taskCount d - 1\<rparr>)) (\<lambda>_.
         and_then (dir_of a) (\<lambda>d.
           if ad_taskCount d = 0 then set_dir a ad_updateLMT else give ())))))"

section \<open>Setting a directory\<close>

definition scan_location :: "autoscan_directory \<Rightarrow> (scanner, zstring) action" where
  "scan_location d =
     (if ad_objectID d = CDS_ID_FS_ROOT then give (Some ''/'')
      else
        and_then (on_db (loadObject (ad_objectID d))) (\<lambda>ob.
          if \<not> IS_CDS_CONTAINER (o_objectType ob) \<or> o_virt ob then
            throw (Throw ''tried to remove an illegal object (id) from the list of the autoscan directories'')
          else if \<not> string_ok (o_location ob) then
            throw (Throw ''tried to add an illegal object as autoscan - no location information available!'')
          else give (o_location ob)))"

definition enter_list :: "scan_env \<Rightarrow> nat \<Rightarrow> (scanner, unit) action" where
  \<comment> \<open>into the list of its mode, with the first scan or the watches\<close>
  "enter_list env a =
     and_then (dir_of a) (\<lambda>d.
     case ad_mode d of
       Timed \<Rightarrow>
         and_then (list_add Timed a) (\<lambda>_.
         and_then (on_dirs (\<lambda>st. case st_params st (ad_timer_parameter d) of None \<Rightarrow> Inl Abort | Some i \<Rightarrow> Inr i)) (\<lambda>i.
           sn_timerNotify i))
     | INotify \<Rightarrow>
         if se_use_inotify env then and_then (list_add INotify a) (\<lambda>_. watch True (ad_location d)) else give ())"

definition new_scan :: "scan_env \<Rightarrow> nat \<Rightarrow> (scanner, unit) action" where
  "new_scan env a =
     and_then (dir_of a) (\<lambda>d.
     and_then (scan_location d) (\<lambda>location.
     and_then (of_result (ad_setLocation d location)) (\<lambda>d.
     and_then (set_dir a (\<lambda>_. ad_resetLMT d)) (\<lambda>_.
     and_then (dir_of a) (\<lambda>d.
     and_then (on_db (addAutoscanDirectory d)) (\<lambda>d.
     and_then (set_dir a (\<lambda>_. d)) (\<lambda>_.
     and_then (enter_list env a) (\<lambda>_.
       on_cm (ui_changed [ad_objectID d])))))))))"

definition edited_scan :: "autoscan_directory \<Rightarrow> autoscan_directory \<Rightarrow> autoscan_directory" where
  \<comment> \<open>the copy of the original with the settings of the first argument but the mode\<close>
  "edited_scan dir copy =
     (let copy = (if ad_level copy = Full \<and> ad_level dir = Basic then ad_resetLMT (copy\<lparr>ad_level := Basic\<rparr>)
                  else if ad_level copy = Full \<and> ad_level dir = Full \<and> \<not> ad_recursive copy \<and> ad_recursive dir
                  then ad_resetLMT copy else copy)
      in copy\<lparr>ad_level := ad_level dir, ad_hidden := ad_hidden dir, ad_recursive := ad_recursive dir,
              ad_interval := ad_interval dir\<rparr>)"

definition put_dir :: "nat \<Rightarrow> autoscan_directory \<Rightarrow> (scanner, unit) action" where
  "put_dir a d = change (\<lambda>s. s\<lparr>sn_dirs := (sn_dirs s)\<lparr>st_dirs := (st_dirs (sn_dirs s))(a \<mapsto> d)\<rparr>\<rparr>)"

definition edit_scan :: "scan_env \<Rightarrow> nat \<Rightarrow> nat \<Rightarrow> nat \<Rightarrow> (scanner, unit) action" where
  \<comment> \<open>the address of the original, of the new settings, and of the copy\<close>
  "edit_scan env original a copy =
     and_then (dir_of original) (\<lambda>old.
     and_then (dir_of a) (\<lambda>dir.
     and_then
       (case ad_mode old of
          Timed \<Rightarrow> timer_removed original
        | INotify \<Rightarrow> if se_use_inotify env then unmonitor old else give ()) (\<lambda>_.
     and_then (put_dir copy (edited_scan dir old)) (\<lambda>_.
     and_then
       (if ad_mode old = Timed \<or> se_use_inotify env
        then on_list (ad_mode old) (\<lambda>st l. al_remove st l (ad_scanID old)) else give ()) (\<lambda>_.
     and_then (set_dir copy (\<lambda>d. d\<lparr>ad_mode := ad_mode dir\<rparr>)) (\<lambda>_.
     and_then (enter_list env copy) (\<lambda>_.
     and_then (dir_of copy) (\<lambda>d.
     and_then (on_db (updateAutoscanDirectory d)) (\<lambda>_.
       if ad_mode old \<noteq> ad_mode dir then on_cm (ui_changed [ad_objectID d]) else give ())))))))))"

definition sn_setAutoscanDirectory :: "scan_env \<Rightarrow> nat \<Rightarrow> nat \<Rightarrow> (scanner, unit) action" where
  \<comment> \<open>the addresses of the new settings and of the copy\<close>
  "sn_setAutoscanDirectory env a copy =
     and_then (dir_of a) (\<lambda>d.
     and_then (look sn_timed) (\<lambda>timed.
     and_then (on_dirs (\<lambda>st. al_getByObjectID st timed (ad_objectID d))) (\<lambda>original.
     and_then
       (if original = None \<and> se_use_inotify env
        then and_then (look sn_inotify) (\<lambda>l. on_dirs (\<lambda>st. al_getByObjectID st l (ad_objectID d)))
        else give original) (\<lambda>original.
     and_then
       (case original of
          None \<Rightarrow> give ()
        | Some b \<Rightarrow> and_then (dir_of b) (\<lambda>old. set_dir a (\<lambda>d. d\<lparr>ad_storageID := ad_storageID old\<rparr>))) (\<lambda>_.
     and_then (dir_of a) (\<lambda>d.
     and_then (on_db (checkOverlappingAutoscans d)) (\<lambda>_.
       case original of
         None \<Rightarrow> new_scan env a
       | Some b \<Rightarrow> edit_scan env b a copy)))))))"

section \<open>The IDs stay in order\<close>

text \<open>
  Whatever is added and removed, and however it fails, every row of the object table keeps an ID
  of its own, below the next one that is given.
\<close>

lemma submset_distinct: "mset xs \<subseteq># mset ys \<Longrightarrow> distinct ys \<Longrightarrow> distinct xs"
proof -
  assume sub: "mset xs \<subseteq># mset ys" and d: "distinct ys"
  obtain zs where "mset ys = mset (xs @ zs)"
    using sub ex_mset by (metis mset_append mset_subset_eq_exists_conv)
  then have "distinct (xs @ zs)" using d mset_eq_imp_distinct_iff by blast
  then show ?thesis by simp
qed

lemma shrunk_unique:
  assumes "ids_unique st" "mset (table st') \<subseteq># mset (table st)" "st_lastID st' = st_lastID st"
  shows "ids_unique st'"
proof -
  have "image_mset row_id (mset (table st')) \<subseteq># image_mset row_id (mset (table st))"
    using assms(2) by (rule image_mset_subseteq_mono)
  then have "mset (map row_id (table st')) \<subseteq># mset (map row_id (table st))" by simp
  then have "distinct (map row_id (table st'))"
    by (rule submset_distinct) (use assms(1) in \<open>simp add: ids_unique_def\<close>)
  moreover have "set (table st') \<subseteq> set (table st)" using set_mset_mono [OF assms(2)] by simp
  ultimately show ?thesis using assms(1,3) by (auto simp: ids_unique_def)
qed

lemma removeRows_unique: "ids_unique st \<Longrightarrow> ids_unique (removeRows ids st)"
  by (rule shrunk_unique) (simp_all add: table_def removeRows_def Let_def mset_filter multiset_filter_subset subset_mset.add_mono)

lemma recursive_loop_unique:
  "ids_unique st \<Longrightarrow> ids_unique (snd (recursive_loop all cnt ri rc rp rm changed st))"
proof (induction "MAX_REMOVE_RECURSION + 1 - cnt" arbitrary: cnt ri rc rp rm changed st rule: less_induct)
  case less
  have next_loop: "ids_unique (snd (recursive_loop all (cnt + 1) ri rc rp rm changed st))"
    if "ids_unique st" "\<not> MAX_REMOVE_RECURSION < cnt" for ri rc rp rm changed st
    by (rule less.hyps [OF _ that(1)]) (use that(2) in simp)
  show ?case
    by (subst recursive_loop.simps)
      (simp add: Let_def removeRows_unique less.prems next_loop [unfolded add_Suc_right add_0_right One_nat_def] split: prod.split)
qed

lemma purge_loop_unique: "ids_unique st \<Longrightarrow> ids_unique (snd (purge_loop cnt selUI selUpnp changed st))"
proof (induction "MAX_REMOVE_RECURSION + 1 - cnt" arbitrary: cnt selUI selUpnp changed st rule: less_induct)
  case less
  have next_loop: "ids_unique (snd (purge_loop (cnt + 1) selUI selUpnp changed st))"
    if "ids_unique st" "\<not> MAX_REMOVE_RECURSION \<le> cnt" for selUI selUpnp changed st
    by (rule less.hyps [OF _ that(1)]) (use that(2) in simp)
  obtain ui1 upnp1 del1 out1 where 1: "(if selUpnp \<noteq> [] then purge_upnp selUpnp st selUI else (selUI, [], [], [])) = (ui1, upnp1, del1, out1)"
    by (metis prod.exhaust)
  obtain ui2 del2 out2 where 2: "(if ui1 \<noteq> [] then purge_ui ui1 st del1 else ([], del1, [])) = (ui2, del2, out2)"
    by (metis prod.exhaust)
  let ?st = "if del2 \<noteq> [] then removeRows del2 st else st"
  have u: "ids_unique ?st" using less.prems by (simp add: removeRows_unique)
  show ?case
    by (subst purge_loop.simps) (use u in \<open>auto simp: 1 2 Let_def simp del: add_is_1 intro: next_loop [simplified]\<close>)
qed

lemma table_clear_cache [simp]: "table (clear_cache st) = table st" "st_lastID (clear_cache st) = st_lastID st"
  by (simp_all add: clear_cache_def set_cache_def table_def split: option.split)

lemma keeps_unique:
  "(\<And>st. ids_unique st \<Longrightarrow> ids_unique (snd (m st))) \<Longrightarrow> keeps (kept {}) m"
  by (simp add: keeps_def)

lemma keeps_same_table:
  "(\<And>st. table (g st) = table st \<and> st_lastID (g st) = st_lastID st) \<Longrightarrow> keeps (kept {}) (change g)"
proof (rule keeps_unique)
  fix st
  assume g: "\<And>st. table (g st) = table st \<and> st_lastID (g st) = st_lastID st" and u: "ids_unique st"
  have "ids_unique (g st)" using u g [of st] by (simp add: ids_unique_def)
  then show "ids_unique (snd (change g st))" by simp
qed

lemma keeps_flush [keeps_intros]: "keeps (kept R) (change flush)"
  by (rule keeps_grows) (simp add: change_def)

lemma keeps_recursiveRemove: "keeps (kept {}) (recursiveRemove items containers all)"
  by (intro keeps_unique) (simp add: recursiveRemove_def Let_def recursive_loop_unique)

lemma keeps_purgeEmptyContainers: "keeps (kept {}) (purgeEmptyContainers changed)"
proof -
  have "keeps (kept {}) (purge_loop cnt selUI selUpnp changed)" for cnt selUI selUpnp changed
    by (intro keeps_unique purge_loop_unique)
  then show ?thesis
    unfolding purgeEmptyContainers_def
    by (auto intro!: keeps_intros keeps_same_table split: prod.split)
qed

lemma keeps_removeObjects: "keeps (kept {}) (removeObjects ids all)"
  unfolding removeObjects_def Let_def
  by (auto intro!: keeps_intros keeps_recursiveRemove keeps_purgeEmptyContainers split: option.split)

lemma keeps_removeObject: "keeps (kept {}) (removeObject objectID all)"
  unfolding removeObject_def Let_def
  by (auto intro!: keeps_intros keeps_recursiveRemove keeps_purgeEmptyContainers split: option.split)

lemma rows_where_ids: "map row_id (rows_where P (\<lambda>r. r(''flags'' := f r)) rows) = map row_id rows"
  by (simp add: rows_where_def row_id_def)

lemma ids_unique_of_ids:
  assumes "map row_id (table st') = map row_id (table st)" "st_lastID st' = st_lastID st" "ids_unique st"
  shows "ids_unique st'"
proof -
  have bound: "(\<forall>r \<in> set rows. row_id r \<le> k) \<longleftrightarrow> (\<forall>i \<in> set (map row_id rows). i \<le> k)" for rows :: "table_row list" and k
    by simp
  show ?thesis using assms(3) unfolding ids_unique_def bound assms(1,2) .
qed

lemma keeps_persistent_flag: "keeps (kept {}) (autoscanChangePersistentFlag objectID b)"
proof -
  have "ids_unique (st\<lparr>st_rows := rows_where P (\<lambda>r. r(''flags'' := f r)) (st_rows st)\<rparr>)" if "ids_unique st" for st P f
    by (rule ids_unique_of_ids [OF _ _ that]) (simp_all add: table_def rows_where_ids)
  then show ?thesis
    unfolding autoscanChangePersistentFlag_def
    by (intro keeps_intros keeps_unique) (simp_all add: change_def)
qed

lemma keeps_autoscans: "keeps (kept {}) (change (\<lambda>st. st\<lparr>st_autoscans := f st\<rparr>))"
  by (rule keeps_same_table) (simp add: table_def)

lemma keeps_removeAutoscanDirectory: "keeps (kept {}) (removeAutoscanDirectory i)"
  unfolding removeAutoscanDirectory_def
  by (intro keeps_intros keeps_autoscans keeps_persistent_flag)

lemma keeps_removeAutoscanDirectoryByObjectID: "keeps (kept {}) (removeAutoscanDirectoryByObjectID i)"
  unfolding removeAutoscanDirectoryByObjectID_def
  by (intro keeps_intros keeps_autoscans keeps_persistent_flag)

lemma keeps_checkOverlappingAutoscans: "keeps (kept {}) (checkOverlappingAutoscans adir)"
proof -
  have load: "keeps (kept {}) (loadObject i)" for i by (rule keeps_grows [OF grows_to_loadObject])
  have path: "keeps (kept {}) (getPathIDs i)" for i unfolding getPathIDs_def by (intro keeps_intros)
  have conflict: "keeps (kept {}) (scan_conflict msg a)" for msg a
    unfolding scan_conflict_def by (intro keeps_intros load)
  show ?thesis
    unfolding checkOverlappingAutoscans_def Let_def
    by (auto intro!: keeps_intros load path conflict split: option.split)
qed

lemma keeps_updateAutoscanDirectory: "keeps (kept {}) (updateAutoscanDirectory adir)"
  unfolding updateAutoscanDirectory_def Let_def
  by (intro keeps_intros keeps_checkOverlappingAutoscans keeps_persistent_flag keeps_autoscans)

lemma keeps_addAutoscanDirectory: "keeps (kept {}) (addAutoscanDirectory adir)"
proof -
  have "keeps (kept {}) (\<lambda>st. (Inr (f st), st\<lparr>st_autoscans := g st\<rparr>))" for f g
    by (intro keeps_unique) (simp add: ids_unique_def table_def)
  note last = this
  have find: "keeps (kept {}) (findObjectIDByPath p)" for p
    by (rule keeps_grows [OF grows_to_findObjectIDByPath])
  show ?thesis
    unfolding addAutoscanDirectory_def Let_def
    by (intro keeps_intros keeps_checkOverlappingAutoscans keeps_persistent_flag find last)
qed


definition in_order :: "scanner \<Rightarrow> bool" where
  "in_order s \<longleftrightarrow> ids_unique (cm_store (sn_cm s))"

lemma keeps_on_cm: "keeps (rows_kept {}) m \<Longrightarrow> keeps in_order (on_cm m)"
  by (auto simp: keeps_def on_cm_def in_order_def rows_kept_def split: prod.split)

lemma keeps_on_db: "keeps (kept {}) m \<Longrightarrow> keeps in_order (on_db m)"
  by (intro keeps_on_cm keeps_on_store)

lemma keeps_cm_removeObject: "keeps (rows_kept {}) (cm_removeObject objectID all)"
  unfolding cm_removeObject_def
  by (intro keeps_intros keeps_on_store keeps_removeObject keeps_changed)

lemma in_order_frame [simp]:
  "in_order (s\<lparr>sn_dirs := d\<rparr>) = in_order s" "in_order (s\<lparr>sn_timed := l\<rparr>) = in_order s"
  "in_order (s\<lparr>sn_inotify := l\<rparr>) = in_order s" "in_order (s\<lparr>sn_tasks := t\<rparr>) = in_order s"
  "in_order (s\<lparr>sn_timer := p\<rparr>) = in_order s" "in_order (s\<lparr>sn_watches := w\<rparr>) = in_order s"
  by (simp_all add: in_order_def)

lemma keeps_on_dirs: "keeps in_order (on_dirs f)"
  by (simp add: keeps_def on_dirs_def)

lemma keeps_on_list: "keeps in_order (on_list m f)"
  by (simp add: keeps_def on_list_def set_list_def split: sum.split scan_mode.split prod.split)

lemmas keeps_database =
  keeps_on_db [OF keeps_removeAutoscanDirectory]
  keeps_on_db [OF keeps_removeAutoscanDirectoryByObjectID]
  keeps_on_db [OF keeps_updateAutoscanDirectory]
  keeps_on_db [OF keeps_addAutoscanDirectory]
  keeps_on_db [OF keeps_checkOverlappingAutoscans]
  keeps_on_db [OF keeps_removeObjects]
  keeps_on_db [OF keeps_grows [OF grows_to_loadObject]]
  keeps_on_db [OF keeps_grows [OF grows_to_findObjectIDByPath]]
  keeps_on_cm [OF keeps_changed(1)] keeps_on_cm [OF keeps_changed(2)]
  keeps_on_cm [OF keeps_cm_ensurePathExistence] keeps_on_cm [OF keeps_cm_removeObject]

lemma keeps_fields [keeps_intros]:
  "keeps in_order (dir_of a)" "keeps in_order (set_dir a f)" "keeps in_order (put_dir a d)"
  "keeps in_order (watch on location)" "keeps in_order (timer_removed a)" "keeps in_order (unmonitor d)"
  "keeps in_order (list_add m a)" "keeps in_order (sn_getAutoscanDirectory i m)"
  "keeps in_order (no_tasks a)" "keeps in_order (set_object a i)"
  unfolding dir_of_def set_dir_def put_dir_def watch_def timer_removed_def unmonitor_def list_add_def
    sn_getAutoscanDirectory_def no_tasks_def set_object_def
  by (intro keeps_intros keeps_on_dirs keeps_on_list keeps_database; simp)+

lemma keeps_case_mode [keeps_intros]:
  "keeps P m \<Longrightarrow> keeps P n \<Longrightarrow> keeps P (case md of Timed \<Rightarrow> m | INotify \<Rightarrow> n)"
  by (cases md) simp_all

lemma keeps_case_res [keeps_intros]:
  "(\<And>e. keeps P (f e)) \<Longrightarrow> (\<And>x. keeps P (g x)) \<Longrightarrow> keeps P (case r of Inl e \<Rightarrow> f e | Inr x \<Rightarrow> g x)"
  by (cases r) simp_all

lemma keeps_case_pair: "(\<And>x y. keeps P (f x y)) \<Longrightarrow> keeps P (case p of (x, y) \<Rightarrow> f x y)"
  by (cases p) simp

lemma keeps_reads: "keeps in_order (on_db (\<lambda>st. (f st, st)))"
  by (intro keeps_on_db) (simp add: keeps_def)

lemma keeps_removals [keeps_intros]:
  "keeps in_order (sn_removeAutoscanDirectory env i m)"
  "keeps in_order (sn_removeAutoscanByObjectID env i)"
  "keeps in_order (drop_scan env a i m)"
  unfolding sn_removeAutoscanDirectory_def sn_removeAutoscanByObjectID_def drop_scan_def
  by (intro keeps_intros keeps_on_list keeps_database keeps_reads)+

lemma keeps_sn_removeAutoscanByLocation: "keeps in_order (sn_removeAutoscanByLocation env location)"
  unfolding sn_removeAutoscanByLocation_def by (intro keeps_intros keeps_on_dirs)

lemma keeps_persistent_handlers:
  "keeps in_order (handlePersistentRemove env i m)" "keeps in_order (handlePersistentRecreate env i m)"
  unfolding handlePersistentRemove_def handlePersistentRecreate_def
  by (intro keeps_intros keeps_database)+

lemma keeps_sn_rescanDirectory [keeps_intros]: "keeps in_order (sn_rescanDirectory i scanID m path c)"
  unfolding sn_rescanDirectory_def Let_def by (intro keeps_intros; simp)

lemma keeps_sn_timerNotify [keeps_intros]: "keeps in_order (sn_timerNotify i)"
  unfolding sn_timerNotify_def by (intro keeps_intros)

lemma keeps_scan_start: "keeps in_order (scan_start env a scanID m containerID)"
  unfolding scan_start_def known_container_def by (intro keeps_intros keeps_database)

lemma keeps_not_listed: "keeps in_order (not_listed env a scanID m containerID)"
  unfolding not_listed_def by (intro keeps_intros keeps_database)

definition built_in_layout :: "scan_env \<Rightarrow> bool" where
  \<comment> \<open>objects are filed by the built-in layout, or not at all\<close>
  "built_in_layout env \<longleftrightarrow> se_layout env \<in> {None, Some (fallback_layout (se_import env))}"

lemma keeps_add_found: "built_in_layout env \<Longrightarrow> keeps in_order (add_found env path location hidden)"
proof -
  assume "built_in_layout env"
  then have "keeps (rows_kept {}) (addFile (se_import env) (se_layout env) path location False hidden None)"
    by (intro built_in.keeps_addFile) (simp add: built_in_layout_def)
  then show ?thesis unfolding add_found_def by (intro keeps_intros keeps_on_cm)
qed

lemma keeps_scan_file: "built_in_layout env \<Longrightarrow> keeps in_order (scan_file env lvl path location hidden t found)"
  unfolding scan_file_def by (intro keeps_case_pair keeps_intros keeps_database keeps_add_found)

lemma keeps_scan_directory: "keeps in_order (scan_directory env a scanID m path location found)"
  unfolding scan_directory_def by (intro keeps_case_pair keeps_intros keeps_database; simp)

lemma keeps_scan_entry: "built_in_layout env \<Longrightarrow> keeps in_order (scan_entry env a scanID m lvl location name rest)"
  unfolding scan_entry_def Let_def by (intro keeps_intros keeps_scan_file keeps_scan_directory; simp)

lemma keeps_scan_end: "keeps in_order (scan_end env a rest)"
  unfolding scan_end_def by (intro keeps_intros keeps_case_pair keeps_database)

lemma keeps_getObjects: "keeps (kept {}) (getObjects i b)"
  unfolding getObjects_def by (intro keeps_intros keeps_flush)

lemma keeps_rescan: "built_in_layout env \<Longrightarrow> keeps in_order (rescan env containerID scanID m lvl)"
  unfolding rescan_def
  by (intro keeps_intros keeps_case_pair keeps_scan_start keeps_not_listed keeps_scan_entry keeps_scan_end
      keeps_on_db [OF keeps_getObjects])

lemma keeps_run_rescan: "built_in_layout env \<Longrightarrow> keeps in_order (run_rescan env objectID scanID m)"
  unfolding run_rescan_def by (intro keeps_intros keeps_rescan)

lemma keeps_enter_list [keeps_intros]: "keeps in_order (enter_list env a)"
  unfolding enter_list_def by (intro keeps_intros keeps_on_dirs)

lemma keeps_sn_setAutoscanDirectory: "keeps in_order (sn_setAutoscanDirectory env a copy)"
  unfolding sn_setAutoscanDirectory_def new_scan_def edit_scan_def scan_location_def
  by (intro keeps_intros keeps_on_dirs keeps_on_list keeps_database)


section \<open>A scan that finds known files only\<close>

text \<open>
  Without a cache, looking an object up changes nothing but the address of the next cache object.
\<close>

abbreviation at_fresh :: "store \<Rightarrow> nat \<Rightarrow> store" where
  "at_fresh st k \<equiv> st\<lparr>st_fresh := k\<rparr>"

definition unbuffered :: "store \<Rightarrow> bool" where
  "unbuffered st \<longleftrightarrow> no_cache st \<and> st_pending st = []"

lemma unbuffered_fresh [simp]: "unbuffered (at_fresh st k) = unbuffered st"
  by (simp add: unbuffered_def no_cache_def)

lemma object_of_row_fresh:
  assumes "unbuffered st"
  shows "\<exists>k'. object_of_row r (at_fresh st k) = (fst (object_of_row r st), at_fresh st k')"
proof -
  have j: "joined_row (at_fresh st k) r = joined_row st r" by (simp add: joined_row_def)
  have s: "set_sql (st_sql st) (at_fresh st n) = at_fresh st n" for n
    using assms by (simp add: set_sql_def unbuffered_def)
  show ?thesis
  proof (cases "createObjectFromRow (st_active st) (joined_row st r)")
    case (Inl e)
    have "object_of_row r (at_fresh st k) = (fst (object_of_row r st), at_fresh st k)"
      using Inl by (simp add: object_of_row_def j)
    then show ?thesis ..
  next
    case (Inr ob)
    have "object_of_row r (at_fresh st k) = (fst (object_of_row r st), at_fresh st (k + 1))"
      using Inr assms s [of "k + 1"]
      by (simp add: object_of_row_def j and_then_def store_addObjectToCache_def addObjectToCache_def unbuffered_def no_cache_def)
    then show ?thesis ..
  qed
qed

lemma and_then_fresh:
  assumes "\<exists>k'. m (at_fresh st k) = (fst (m st), at_fresh st k')"
  shows "\<exists>k'. and_then m (\<lambda>x. give (f x)) (at_fresh st k) = (fst (and_then m (\<lambda>x. give (f x)) st), at_fresh st k')"
  using assms by (auto simp: and_then_def split: prod.split sum.split)

lemma find_fresh:
  assumes "unbuffered st"
  shows "\<exists>k'. findObjectByPath p (at_fresh st k) = (fst (findObjectByPath p st), at_fresh st k')"
proof (cases "path_location p")
  case (Inr l)
  have c: "cached_at st l = None" "cached_at (at_fresh st k) l = None"
    using assms by (simp_all add: cached_at_def unbuffered_def no_cache_def)
  show ?thesis
  proof (cases "find (\<lambda>r. at_location l r \<and> r ''ref_id'' = None) (st_rows st)")
    case None
    then show ?thesis using Inr c by (simp add: findObjectByPath_def) blast
  next
    case (Some r)
    have "findObjectByPath p (at_fresh st n) = and_then (object_of_row r) (\<lambda>ob. give (Some ob)) (at_fresh st n)" for n
      using Inr Some assms by (simp add: findObjectByPath_def cached_at_def unbuffered_def no_cache_def)
    from this [of k] this [of "st_fresh st"] show ?thesis
      using and_then_fresh [OF object_of_row_fresh [OF assms, of r k]] by simp
  qed
qed (simp add: findObjectByPath_def, blast)

lemma find_ID_fresh:
  assumes "unbuffered st"
  shows "\<exists>k'. findObjectIDByPath p (at_fresh st k) = (fst (findObjectIDByPath p st), at_fresh st k')"
  unfolding findObjectIDByPath_def by (rule and_then_fresh [OF find_fresh [OF assms]])

definition on_fresh :: "nat \<Rightarrow> scanner \<Rightarrow> scanner" where
  "on_fresh k s = s\<lparr>sn_cm := (sn_cm s)\<lparr>cm_store := at_fresh (cm_store (sn_cm s)) k\<rparr>\<rparr>"

lemma on_fresh_fresh [simp]: "on_fresh k (on_fresh n s) = on_fresh k s"
  by (simp add: on_fresh_def)

definition known_entry :: "scan_env \<Rightarrow> scan_level \<Rightarrow> autoscan_directory \<Rightarrow> string \<Rightarrow> store \<Rightarrow> int \<Rightarrow> (string \<Rightarrow> int) \<Rightarrow> string \<Rightarrow> bool" where
  \<comment> \<open>skipped, or a regular file with a row; a full scan must not see a later time than \<open>lmt\<close>\<close>
  "known_entry env lvl d location st lmt i name \<longleftrightarrow>
     hidden_entry (ad_hidden d) name
     \<or> (case ie_stat (se_import env) (cstr (location @ DIR_SEPARATOR # name)) of
          Inl _ \<Rightarrow> False
        | Inr fs \<Rightarrow> fs_kind fs = Regular_File \<and> (lvl = Full \<longrightarrow> fs_mtime fs \<le> lmt)
            \<and> fst (findObjectIDByPath (Some (location @ DIR_SEPARATOR # name)) st) = Inr (i name) \<and> 0 < i name)"

lemma dir_of_at: "st_dirs (sn_dirs s) a = Some d \<Longrightarrow> dir_of a s = (Inr d, s)"
  by (simp add: dir_of_def on_dirs_def ad_get_def)

lemma known_file_scanned:
  assumes "unbuffered (cm_store (sn_cm s))"
    and "fst (findObjectIDByPath (Some path) (cm_store (sn_cm s))) = Inr i" "0 < i" "lvl = Full \<longrightarrow> t \<le> lmt"
  shows "\<exists>k. scan_file env lvl path location hidden t (list, lmt) (on_fresh n s)
    = (Inr (Some (erase_id i list, lmt)), on_fresh k s)"
proof -
  obtain k where "findObjectIDByPath (Some path) (at_fresh (cm_store (sn_cm s)) n) = (Inr i, at_fresh (cm_store (sn_cm s)) k)"
    using find_ID_fresh [OF assms(1), of "Some path" n] assms(2) by auto
  then have "on_db (findObjectIDByPath (Some path)) (on_fresh n s) = (Inr i, on_fresh k s)"
    by (simp add: on_cm_def on_store_def on_fresh_def)
  note found = and_then_Inr [of "on_db (findObjectIDByPath (Some path))", OF this]
  have "scan_file env lvl path location hidden t (list, lmt) (on_fresh n s) = (Inr (Some (erase_id i list, lmt)), on_fresh k s)"
    unfolding scan_file_def prod.case found using assms(3,4) by (cases "lvl = Full") simp_all
  then show ?thesis ..
qed

lemma known_entry_scanned:
  assumes known: "known_entry env lvl d location (cm_store (sn_cm s)) lmt i name"
    and store: "unbuffered (cm_store (sn_cm s))" "st_dirs (sn_dirs s) a = Some d" "ad_scanID d \<noteq> INVALID_SCAN_ID"
    and alone: "\<And>p ds. se_others env p ds = ds"
  shows "\<exists>k. scan_entry env a scanID m lvl location name (Some (list, lmt)) (on_fresh n s)
    = (Inr (Some (if hidden_entry (ad_hidden d) name then list else erase_id (i name) list, lmt)), on_fresh k s)"
proof -
  have d: "dir_of a (on_fresh j s) = (Inr d, on_fresh j s)" for j
    by (rule dir_of_at) (simp add: on_fresh_def store(2))
  note here = and_then_Inr [of "dir_of a", OF d]
  show ?thesis
  proof (cases "hidden_entry (ad_hidden d) name")
    case True
    then show ?thesis by (simp add: scan_entry_def here) blast
  next
    case False
    let ?path = "location @ DIR_SEPARATOR # name"
    obtain fs where fs: "ie_stat (se_import env) (cstr ?path) = Inr fs" "fs_kind fs = Regular_File" "lvl = Full \<longrightarrow> fs_mtime fs \<le> lmt"
      "fst (findObjectIDByPath (Some ?path) (cm_store (sn_cm s))) = Inr (i name)" "0 < i name"
      using known False by (auto simp: known_entry_def split: sum.splits)
    have same: "on_fresh n s\<lparr>sn_dirs := sn_dirs (on_fresh n s)\<rparr> = on_fresh n s" by simp
    from known_file_scanned [OF store(1) fs(4,5,3)] obtain k where
      "scan_file env lvl ?path (Some location) (ad_hidden d) (fs_mtime fs) (list, lmt) (on_fresh n s)
         = (Inr (Some (erase_id (i name) list, lmt)), on_fresh k s)" by blast
    then show ?thesis
      using False fs(1,2) store(3) by (simp add: scan_entry_def here alone same Let_def) blast
  qed
qed

definition found_IDs :: "autoscan_directory \<Rightarrow> (string \<Rightarrow> int) \<Rightarrow> string list \<Rightarrow> int set" where
  "found_IDs d i names = i ` {name \<in> set names. \<not> hidden_entry (ad_hidden d) name}"

lemma known_entries_scanned:
  assumes "\<And>name. name \<in> set names \<Longrightarrow> known_entry env lvl d location (cm_store (sn_cm s)) lmt i name"
    and store: "unbuffered (cm_store (sn_cm s))" "st_dirs (sn_dirs s) a = Some d" "ad_scanID d \<noteq> INVALID_SCAN_ID"
    and alone: "\<And>p ds. se_others env p ds = ds"
  shows "\<exists>k. each_entry (scan_entry env a scanID m lvl location) names (Some (list, lmt)) (on_fresh n s)
    = (Inr (Some (map_option (filter (\<lambda>x. x \<notin> found_IDs d i names)) list, lmt)), on_fresh k s)"
  using assms(1)
proof (induction names arbitrary: list n)
  case Nil
  have "map_option (filter (\<lambda>x. x \<notin> found_IDs d i [])) list = list"
    by (cases list) (simp_all add: found_IDs_def)
  then show ?case by simp blast
next
  case (Cons name names)
  let ?rest = "if hidden_entry (ad_hidden d) name then list else erase_id (i name) list"
  obtain j where 1: "scan_entry env a scanID m lvl location name (Some (list, lmt)) (on_fresh n s)
      = (Inr (Some (?rest, lmt)), on_fresh j s)"
    using known_entry_scanned [OF Cons.prems store alone, of name scanID m list n] by auto
  have "map_option (filter (\<lambda>x. x \<notin> found_IDs d i names)) ?rest
      = map_option (filter (\<lambda>x. x \<notin> found_IDs d i (name # names))) list"
    by (cases list) (auto simp: found_IDs_def erase_id_def removeAll_filter_not_eq intro!: filter_cong)
  then show ?case
    using Cons.IH [of ?rest j] Cons.prems
    by (simp add: and_then_Inr [of "scan_entry env a scanID m lvl location name (Some (list, lmt))", OF 1])
qed


lemma load_fresh:
  assumes "unbuffered st"
  shows "\<exists>k'. loadObject i (at_fresh st k) = (fst (loadObject i st), at_fresh st k')"
proof -
  have c: "cached (at_fresh st n) i = None" for n using assms by (simp add: cached_def unbuffered_def no_cache_def)
  from c [of "st_fresh st"] have c0: "cached st i = None" by simp
  show ?thesis
  proof (cases "find (with_id i) (st_rows st)")
    case None
    then show ?thesis using c c0 by (simp add: loadObject_def) blast
  next
    case (Some r)
    then show ?thesis using c c0 object_of_row_fresh [OF assms, of r k] by (simp add: loadObject_def)
  qed
qed

text \<open>
  When every entry of the directory is known, the scan does nothing before its end, where it removes
  the children that were not found.
\<close>

lemma flush_unbuffered: "unbuffered st \<Longrightarrow> flush st = st"
  by (simp add: flush_def flushInsertBuffer_def set_sql_def unbuffered_def no_cache_def)

definition children_IDs :: "store \<Rightarrow> int \<Rightarrow> bool \<Rightarrow> int list option" where
  "children_IDs st i withoutContainer = (case fst (getObjects i withoutContainer st) of Inl _ \<Rightarrow> None | Inr l \<Rightarrow> l)"

lemma known_files_scanned:
  assumes adir: "scanID \<noteq> INVALID_SCAN_ID" "al_get (list_of m s) scanID = Some a" "st_dirs (sn_dirs s) a = Some d"
      "ad_scanID d \<noteq> INVALID_SCAN_ID"
    and container: "c \<noteq> INVALID_OBJECT_ID" "fst (loadObject c st) = Inr ob" "IS_CDS_CONTAINER (o_objectType ob)"
      "(if c = CDS_ID_FS_ROOT then Some ''/'' else o_location ob) = Some loc" "string_ok (Some loc)"
    and entries: "opendir (se_import env) (cstr loc) = Inr names" "\<And>p. ie_alive (se_import env) p"
      "\<And>name. name \<in> set names \<Longrightarrow> known_entry env lvl d loc st (ad_last_mod_previous_scan d) i name"
    and store: "st = cm_store (sn_cm s)" "unbuffered st"
    and alone: "\<And>p ds. se_others env p ds = ds"
  shows "\<exists>k. rescan env c scanID m lvl s
    = scan_end env a (Some (map_option (filter (\<lambda>x. x \<notin> found_IDs d i names)) (children_IDs st c (\<not> ad_recursive d)),
        ad_last_mod_previous_scan d)) (on_fresh k s)"
proof -
  have s: "s = on_fresh (st_fresh st) s" by (simp add: on_fresh_def store(1))
  have here: "dir_of a (on_fresh j s) = (Inr d, on_fresh j s)" for j
    by (rule dir_of_at) (simp add: on_fresh_def adir(3))
  obtain k where "loadObject c (at_fresh st (st_fresh st)) = (Inr ob, at_fresh st k)"
    using load_fresh [OF store(2), of c "st_fresh st"] container(2) by auto
  then have load: "on_db (loadObject c) s = (Inr ob, on_fresh k s)"
    by (simp add: on_cm_def on_store_def on_fresh_def store(1))
  have "known_container c s = (Inr (Some loc), on_fresh k s)"
    unfolding known_container_def and_then_Inr [of "on_db (loadObject c)", OF load] using container(3,4) by simp
  then have start: "scan_start env a scanID m c s = (Inr (Some (c, Some loc)), on_fresh k s)"
    using container(1) by (simp add: scan_start_def caught_def and_then_def)
  have "getObjects c (\<not> ad_recursive d) (at_fresh st k) = (Inr (children_IDs st c (\<not> ad_recursive d)), at_fresh st k)"
    using store(2) by (simp add: getObjects_def children_IDs_def flush_unbuffered Let_def)
  then have list: "on_db (getObjects c (\<not> ad_recursive d)) (on_fresh k s)
      = (Inr (children_IDs st c (\<not> ad_recursive d)), on_fresh k s)"
    by (simp add: on_cm_def on_store_def on_fresh_def store(1))
  obtain j where each: "each_entry (scan_entry env a scanID m lvl loc) names
      (Some (children_IDs st c (\<not> ad_recursive d), ad_last_mod_previous_scan d)) (on_fresh k s)
      = (Inr (Some (map_option (filter (\<lambda>x. x \<notin> found_IDs d i names)) (children_IDs st c (\<not> ad_recursive d)),
          ad_last_mod_previous_scan d)), on_fresh j s)"
    using known_entries_scanned [OF entries(3) [unfolded store(1)] store(2) [unfolded store(1)] adir(3,4) alone] by blast
  have alive: "takeWhile (\<lambda>name. ie_alive (se_import env) (loc @ DIR_SEPARATOR # name)) names = names"
    using entries(2) by (simp add: takeWhile_eq_all_conv)
  have "rescan env c scanID m lvl s = and_then (scan_start env a scanID m c) (\<lambda>start.
            case start of
              None \<Rightarrow> give ()
            | Some (containerID, location) \<Rightarrow>
                and_then (dir_of a) (\<lambda>d.
                  if \<not> string_ok location then give ()
                  else
                    (case opendir (se_import env) (c_str location) of
                       Inl _ \<Rightarrow> not_listed env a scanID m containerID
                     | Inr names \<Rightarrow>
                         and_then (on_db (getObjects containerID (\<not> ad_recursive d))) (\<lambda>list.
                         and_then (each_entry (scan_entry env a scanID m lvl (the location))
                           (takeWhile (\<lambda>name. ie_alive (se_import env) (the location @ DIR_SEPARATOR # name)) names)
                           (Some (list, ad_last_mod_previous_scan d))) (\<lambda>rest.
                           scan_end env a rest))))) s"
    using adir(1,2) by (simp add: rescan_def sn_getAutoscanDirectory_def)
  also have "\<dots> = scan_end env a (Some (map_option (filter (\<lambda>x. x \<notin> found_IDs d i names)) (children_IDs st c (\<not> ad_recursive d)),
        ad_last_mod_previous_scan d)) (on_fresh j s)"
    by (simp add: and_then_Inr [of "scan_start env a scanID m c", OF start] and_then_Inr [of "dir_of a", OF here]
        container(5) c_str_def entries(1) alive and_then_Inr [of "on_db (getObjects c (\<not> ad_recursive d))", OF list]
        and_then_Inr [of "each_entry (scan_entry env a scanID m lvl loc) names
          (Some (children_IDs st c (\<not> ad_recursive d), ad_last_mod_previous_scan d))", OF each])
  finally show ?thesis ..
qed

section \<open>What a scan removes\<close>

abbreviation items_of :: "store \<Rightarrow> table_row list" where
  "items_of st \<equiv> filter (\<lambda>r. \<not> is_container_row r) (st_rows st)"

definition own_texts :: "store \<Rightarrow> bool" where
  \<comment> \<open>every row has an ID, written in its own way\<close>
  "own_texts st \<longleftrightarrow> (\<forall>r \<in> set (st_rows st). r ''id'' \<noteq> None) \<and> inj_on row_text (set (st_rows st))"

definition container_texts :: "store \<Rightarrow> string set" where
  "container_texts st = row_text ` {r \<in> set (st_rows st). is_container_row r}"

lemma removeRows_items:
  assumes "own_texts st" "set ids \<subseteq> container_texts st"
  shows "items_of (removeRows ids st) = items_of st" "set (st_rows (removeRows ids st)) \<subseteq> set (st_rows st)"
    "own_texts (removeRows ids st)"
proof -
  have "\<not> in_ids ''id'' ids r" if r: "r \<in> set (st_rows st)" "\<not> is_container_row r" for r
  proof
    assume "in_ids ''id'' ids r"
    then have "row_text r \<in> container_texts st"
      using assms r(1) by (auto simp: own_texts_def in_ids_text)
    then obtain q where "q \<in> set (st_rows st)" "is_container_row q" "row_text r = row_text q"
      by (auto simp: container_texts_def)
    then show False using assms(1) r by (auto simp: own_texts_def inj_on_def)
  qed
  then show "items_of (removeRows ids st) = items_of st"
    by (auto simp: removeRows_rows intro!: filter_cong)
  show sub: "set (st_rows (removeRows ids st)) \<subseteq> set (st_rows st)" by (auto simp: removeRows_rows)
  show "own_texts (removeRows ids st)"
    using assms(1) sub unfolding own_texts_def by (auto intro: inj_on_subset)
qed

lemma purge_rows_texts: "(i, n, p, f) \<in> set (purge_rows ids st) \<Longrightarrow> i \<in> container_texts st"
  by (auto simp: purge_rows_def container_texts_def)

lemma foldl_keeps: "P a \<Longrightarrow> (\<And>b x. x \<in> set xs \<Longrightarrow> P b \<Longrightarrow> P (f b x)) \<Longrightarrow> P (foldl f a xs)"
  by (induction xs arbitrary: a) auto

lemma purge_upnp_texts:
  assumes "purge_upnp ids st ui = (ui', upnp, del, out)"
  shows "set del \<subseteq> container_texts st"
proof -
  have "(\<lambda>(ui, upnp, del, out). set del \<subseteq> container_texts st) (purge_upnp ids st ui)"
    unfolding purge_upnp_def by (rule foldl_keeps) (auto simp: purge_rows_texts split: if_splits)
  then show ?thesis by (simp add: assms)
qed

lemma purge_ui_texts:
  assumes "purge_ui ids st del0 = (ui', del, out)" "set del0 \<subseteq> container_texts st"
  shows "set del \<subseteq> container_texts st"
proof -
  have "(\<lambda>(ui, del, out). set del \<subseteq> container_texts st) (purge_ui ids st del0)"
    unfolding purge_ui_def by (rule foldl_keeps) (use assms(2) in \<open>auto simp: purge_rows_texts split: if_splits\<close>)
  then show ?thesis by (simp add: assms(1))
qed

abbreviation endless :: failure where "endless \<equiv> Throw ''there seems to be an infinite loop...''"

lemma purge_loop_items:
  assumes "own_texts st"
  shows "items_of (snd (purge_loop cnt selUI selUpnp changed st)) = items_of st
    \<and> set (st_rows (snd (purge_loop cnt selUI selUpnp changed st))) \<subseteq> set (st_rows st)
    \<and> fst (purge_loop cnt selUI selUpnp changed st) \<in> {Inl endless} \<union> range Inr"
  using assms
proof (induction "MAX_REMOVE_RECURSION + 1 - cnt" arbitrary: cnt selUI selUpnp changed st rule: less_induct)
  case less
  obtain ui1 upnp1 del1 out1 where 1: "(if selUpnp \<noteq> [] then purge_upnp selUpnp st selUI else (selUI, [], [], [])) = (ui1, upnp1, del1, out1)"
    by (metis prod.exhaust)
  obtain ui2 del2 out2 where 2: "(if ui1 \<noteq> [] then purge_ui ui1 st del1 else ([], del1, [])) = (ui2, del2, out2)"
    by (metis prod.exhaust)
  have "set del1 \<subseteq> container_texts st" using 1 purge_upnp_texts [of selUpnp st selUI] by (auto split: if_splits)
  then have del2: "set del2 \<subseteq> container_texts st" using 2 purge_ui_texts [of ui1 st del1] by (auto split: if_splits)
  define st' where "st' = (if del2 \<noteq> [] then removeRows del2 st else st)"
  have st': "items_of st' = items_of st" "set (st_rows st') \<subseteq> set (st_rows st)" "own_texts st'"
    using removeRows_items [OF less.prems del2] less.prems by (simp_all add: st'_def)
  let ?ch = "\<lambda>changed. changed\<lparr>cc_upnp := cc_upnp changed @ out1\<rparr>
    \<lparr>cc_ui := cc_ui (changed\<lparr>cc_upnp := cc_upnp changed @ out1\<rparr>) @ out2,
     cc_upnp := cc_upnp (changed\<lparr>cc_upnp := cc_upnp changed @ out1\<rparr>) @ out2\<rparr>"
  have run: "purge_loop cnt selUI selUpnp changed st =
     (if cnt \<ge> MAX_REMOVE_RECURSION then (Inl endless, st')
      else if del2 \<noteq> [] \<and> (ui2 \<noteq> [] \<or> upnp1 \<noteq> []) then purge_loop (cnt + 1) ui2 upnp1 (?ch changed) st'
      else (Inr (ui2, upnp1, ?ch changed), st'))"
    by (subst purge_loop.simps) (simp only: 1 2 Let_def prod.case st'_def)
  show ?case
  proof (cases "cnt \<ge> MAX_REMOVE_RECURSION")
    case True
    then show ?thesis using st' by (simp add: run)
  next
    case False
    have "MAX_REMOVE_RECURSION + 1 - (cnt + 1) < MAX_REMOVE_RECURSION + 1 - cnt" using False by simp
    from less.hyps [OF this st'(3), of ui2 upnp1 "?ch changed"] show ?thesis
      using False st' by (auto simp: run)
  qed
qed

lemma purge_items:
  assumes "own_texts st" "purgeEmptyContainers changed st = (r, st')"
  shows "items_of st' = items_of st" "set (st_rows st') \<subseteq> set (st_rows st)" "r \<in> {Inl endless} \<union> range Inr"
proof -
  have clear: "st_rows (clear_cache st) = st_rows st" for st
    by (simp add: clear_cache_def set_cache_def split: option.split)
  obtain q st1 where p: "purge_loop 0 (cc_ui changed) (cc_upnp changed) \<lparr>cc_upnp = [], cc_ui = []\<rparr> st = (q, st1)"
    by fastforce
  have st1: "items_of st1 = items_of st" "set (st_rows st1) \<subseteq> set (st_rows st)" "q \<in> {Inl endless} \<union> range Inr"
    using purge_loop_items [OF assms(1), of 0 "cc_ui changed" "cc_upnp changed" "\<lparr>cc_upnp = [], cc_ui = []\<rparr>"] by (simp_all add: p)
  have "(st' = st \<or> st_rows st' = st_rows st1) \<and> r \<in> {Inl endless} \<union> range Inr"
    using assms(2) st1(3) by (auto simp: purgeEmptyContainers_def and_then_def p clear split: if_splits)
  then show "items_of st' = items_of st" "set (st_rows st') \<subseteq> set (st_rows st)" "r \<in> {Inl endless} \<union> range Inr"
    using st1(1,2) by auto
qed

definition numbered :: "store \<Rightarrow> bool" where
  \<comment> \<open>every row has an ID of its own, written as the database writes a number\<close>
  "numbered st \<longleftrightarrow> (\<forall>r \<in> set (st_rows st). r ''id'' = Some (show_int (row_id r))) \<and> distinct (map row_id (st_rows st))"

definition goes_with :: "int set \<Rightarrow> table_row \<Rightarrow> bool" where
  \<comment> \<open>the row has one of the IDs or refers to one\<close>
  "goes_with ids r \<longleftrightarrow> row_id r \<in> ids \<or> (\<exists>i \<in> ids. r ''ref_id'' = Some (show_int i))"

lemma show_int_eq [simp]: "show_int i = show_int j \<longleftrightarrow> i = j"
  using show_int_inj by blast

lemma show_int_image [simp]: "show_int i \<in> show_int ` S \<longleftrightarrow> i \<in> S"
  by auto

lemma numbered_text: "numbered st \<Longrightarrow> r \<in> set (st_rows st) \<Longrightarrow> row_text r = show_int (row_id r)"
  by (auto simp: numbered_def col_text_def)

lemma numbered_own: "numbered st \<Longrightarrow> own_texts st"
  using numbered_text [of st]
  by (auto simp: own_texts_def numbered_def inj_on_def distinct_map dest!: show_int_inj)

lemma own_sub: "own_texts st \<Longrightarrow> set (st_rows st') \<subseteq> set (st_rows st) \<Longrightarrow> own_texts st'"
  unfolding own_texts_def by (auto intro: inj_on_subset)

lemma removeObjects_items:
  assumes "unbuffered st" "numbered st" "gone \<noteq> []" "\<forall>i \<in> set gone. 1 < i"
    and "\<forall>i \<in> set gone. \<exists>r \<in> set (st_rows st). row_id r = i" "\<forall>r \<in> set (st_rows st). row_id r \<in> set gone \<longrightarrow> \<not> is_cont r"
  shows "\<exists>q st'. removeObjects gone False st = (q, st') \<and> q \<in> {Inl endless} \<union> range (Inr \<circ> Some)
    \<and> items_of st' = filter (\<lambda>r. \<not> goes_with (set gone) r) (items_of st)
    \<and> set (st_rows st') \<subseteq> {r \<in> set (st_rows st). \<not> goes_with (set gone) r}"
proof -
  let ?rows = "filter (in_ids ''id'' (map show_int gone)) (st_rows st)"
  define I where "I = map row_text (filter (\<lambda>r. \<not> is_cont r) ?rows)"
  have own: "own_texts st" by (rule numbered_own [OF assms(2)])
  have member: "in_ids ''id'' (map show_int gone) r \<longleftrightarrow> row_id r \<in> set gone" if "r \<in> set (st_rows st)" for r
  proof -
    have "r ''id'' = Some (show_int (row_id r))" using assms(2) that by (simp add: numbered_def)
    then show ?thesis by (simp add: in_ids_iff)
  qed
  have conts: "filter is_cont ?rows = []" using assms(6) member by (auto simp: filter_empty_conv)
  have I: "set I = show_int ` set gone"
  proof
    show "set I \<subseteq> show_int ` set gone" using member numbered_text [OF assms(2)] by (auto simp: I_def)
    show "show_int ` set gone \<subseteq> set I"
    proof
      fix x assume "x \<in> show_int ` set gone"
      then obtain i where i: "i \<in> set gone" "x = show_int i" by (rule imageE)
      obtain r where r: "r \<in> set (st_rows st)" "row_id r = i" using bspec [OF assms(5) i(1)] by (rule bexE)
      have "x = row_text r" using numbered_text [OF assms(2) r(1)] r(2) i(2) by simp
      moreover have "r \<in> set (filter (\<lambda>r. \<not> is_cont r) ?rows)" using assms(6) member [OF r(1)] r i(1) by simp
      ultimately show "x \<in> set I" unfolding I_def set_map by (rule image_eqI)
    qed
  qed
  have "I \<noteq> []" using I assms(3) by (metis image_is_empty list.set(1) set_empty)
  then obtain out st1 where rm: "recursiveRemove I [] False st = (Inr out, st1)"
    and rows: "st_rows st1 = filter (\<lambda>r. \<not> (row_text r \<in> set I \<or> in_ids ''ref_id'' I r)) (st_rows st)"
    using removes_items [of I st] own by (auto simp: own_texts_def)
  have "row_text r \<in> set I \<or> in_ids ''ref_id'' I r \<longleftrightarrow> goes_with (set gone) r" if "r \<in> set (st_rows st)" for r
    unfolding I numbered_text [OF assms(2) that] goes_with_def in_ids_iff by simp
  then have rows1: "st_rows st1 = filter (\<lambda>r. \<not> goes_with (set gone) r) (st_rows st)"
    unfolding rows by (intro filter_cong) auto
  obtain q st2 where purge: "purgeEmptyContainers out st1 = (q, st2)" by fastforce
  have own1: "own_texts st1" by (rule own_sub [OF own]) (auto simp: rows1)
  note p = purge_items [OF own1 purge]
  have "find forbidden_id gone = None" using assms(4) by (auto simp: find_None_iff forbidden_id_def)
  then have run: "removeObjects gone False st = and_then (recursiveRemove I [] False) (\<lambda>changed.
      and_then (purgeEmptyContainers changed) (\<lambda>changed. give (Some changed))) st"
    using assms(3) conts
    by (simp add: removeObjects_def and_then_def flush_unbuffered [OF assms(1)] I_def is_cont_def [symmetric] Let_def)
  have "removeObjects gone False st = (map_sum id Some q, st2)"
    unfolding run and_then_Inr [of "recursiveRemove I [] False", OF rm] using purge
    by (cases q) (simp_all add: and_then_def)
  moreover have "map_sum id Some q \<in> {Inl endless} \<union> range (Inr \<circ> Some)" using p(3) by auto
  moreover have "items_of st2 = filter (\<lambda>r. \<not> goes_with (set gone) r) (items_of st)"
    using p(1) by (simp add: rows1 conj_commute)
  moreover have "set (st_rows st2) \<subseteq> {r \<in> set (st_rows st). \<not> goes_with (set gone) r}" using p(2) by (auto simp: rows1)
  ultimately show ?thesis by blast
qed

definition scan_done :: "int set \<Rightarrow> nat \<Rightarrow> autoscan_directory \<Rightarrow> scanner \<Rightarrow> unit result \<times> scanner \<Rightarrow> bool" where
  \<comment> \<open>the rows with the IDs, and those that refer to them, are gone; other items stay, and nothing else
      happened; only the search for empty containers can fail, when it takes too many rounds\<close>
  "scan_done ids a d s = (\<lambda>(q, s').
     items_of (cm_store (sn_cm s')) = filter (\<lambda>r. \<not> goes_with ids r) (items_of (cm_store (sn_cm s)))
     \<and> set (st_rows (cm_store (sn_cm s'))) \<subseteq> {r \<in> set (st_rows (cm_store (sn_cm s))). \<not> goes_with ids r}
     \<and> sn_tasks s' = sn_tasks s
     \<and> (q = Inr () \<and> st_dirs (sn_dirs s') a = Some d \<or> q = Inl endless \<and> ids \<noteq> {})
     \<and> (ids = {} \<longrightarrow> st_rows (cm_store (sn_cm s')) = st_rows (cm_store (sn_cm s))))"

lemma scan_end_removes:
  assumes "se_running env" "unbuffered (cm_store (sn_cm s))" "numbered (cm_store (sn_cm s))" "st_dirs (sn_dirs s) a = Some d"
    and "\<forall>i \<in> set gone. 1 < i" "\<forall>i \<in> set gone. \<exists>r \<in> set (st_rows (cm_store (sn_cm s))). row_id r = i"
    and "\<forall>r \<in> set (st_rows (cm_store (sn_cm s))). row_id r \<in> set gone \<longrightarrow> \<not> is_cont r"
    and l: "list = Some gone \<or> list = None \<and> gone = []"
  shows "scan_done (set gone) a (ad_setCurrentLMT d lmt) s (scan_end env a (Some (list, lmt)) s)"
proof (cases "gone = []")
  case True
  then have "scan_end env a (Some (list, lmt)) s
      = (Inr (), s\<lparr>sn_dirs := (sn_dirs s)\<lparr>st_dirs := (st_dirs (sn_dirs s))(a \<mapsto> ad_setCurrentLMT d lmt)\<rparr>\<rparr>)"
    using assms(1,4) l by (auto simp: scan_end_def set_dir_def)
  then show ?thesis using True by (simp add: scan_done_def goes_with_def)
next
  case False
  let ?st = "cm_store (sn_cm s)"
  from removeObjects_items [OF assms(2,3) False assms(5-7)] obtain q st' where
    r: "removeObjects gone False ?st = (q, st')" "q \<in> {Inl endless} \<union> range (Inr \<circ> Some)"
      "items_of st' = filter (\<lambda>r. \<not> goes_with (set gone) r) (items_of ?st)"
      "set (st_rows st') \<subseteq> {r \<in> set (st_rows ?st). \<not> goes_with (set gone) r}"
    by blast
  define s1 where "s1 = s\<lparr>sn_cm := (sn_cm s)\<lparr>cm_store := st'\<rparr>\<rparr>"
  have run: "on_db (removeObjects gone False) s = (q, s1)" by (simp add: on_cm_def on_store_def r(1) s1_def)
  have end_eq: "scan_end env a (Some (list, lmt)) s
      = and_then (and_then (on_db (removeObjects gone False)) (\<lambda>changed.
                 case changed of
                   None \<Rightarrow> give ()
                 | Some c \<Rightarrow>
                     and_then (on_cm (ui_changed (csv_ids (cc_ui c)))) (\<lambda>_. on_cm (upnp_changed (csv_ids (cc_upnp c))))))
          (\<lambda>_. set_dir a (\<lambda>d. ad_setCurrentLMT d lmt)) s"
    using assms(1) l False by (auto simp: scan_end_def)
  have dirs: "sn_dirs s1 = sn_dirs s" "sn_tasks s1 = sn_tasks s" "cm_store (sn_cm s1) = st'" by (simp_all add: s1_def)
  from r(2) consider "q = Inl endless" | c where "q = Inr (Some c)" by auto
  then show ?thesis
  proof cases
    case 1
    have "scan_end env a (Some (list, lmt)) s = (Inl endless, s1)" unfolding end_eq by (simp add: and_then_def run 1)
    then show ?thesis using False r(3,4) by (simp add: scan_done_def dirs)
  next
    case 2
    have run2: "on_db (removeObjects gone False) s = (Inr (Some c), s1)" using run 2 by simp
    let ?s2 = "s1\<lparr>sn_cm := (sn_cm s1)\<lparr>cm_ui := cm_ui (sn_cm s1) @ csv_ids (cc_ui c), cm_upnp := cm_upnp (sn_cm s1) @ csv_ids (cc_upnp c)\<rparr>,
        sn_dirs := (sn_dirs s)\<lparr>st_dirs := (st_dirs (sn_dirs s))(a \<mapsto> ad_setCurrentLMT d lmt)\<rparr>\<rparr>"
    have told: "on_cm (ui_changed ids) t = (Inr (), t\<lparr>sn_cm := (sn_cm t)\<lparr>cm_ui := cm_ui (sn_cm t) @ ids\<rparr>\<rparr>)"
      "on_cm (upnp_changed ids) t = (Inr (), t\<lparr>sn_cm := (sn_cm t)\<lparr>cm_upnp := cm_upnp (sn_cm t) @ ids\<rparr>\<rparr>)" for ids t
      by (simp_all add: on_cm_def ui_changed_def upnp_changed_def change_def)
    have "scan_end env a (Some (list, lmt)) s = (Inr (), ?s2)"
      unfolding end_eq using assms(4)
      by (simp add: and_then_def run2 told set_dir_def change_def dirs)
    then show ?thesis using False r(3,4) by (simp add: scan_done_def dirs)
  qed
qed

definition gone_IDs :: "store \<Rightarrow> int \<Rightarrow> autoscan_directory \<Rightarrow> (string \<Rightarrow> int) \<Rightarrow> string list \<Rightarrow> int set" where
  \<comment> \<open>the children of the container, for a scan that is not recursive those that are no containers,
      but for the IDs under which the entries are found\<close>
  "gone_IDs st c d i names =
     {row_id r | r. r \<in> set (st_rows st) \<and> child_of c r
        \<and> (ad_recursive d \<or> r ''object_type'' \<noteq> None \<and> \<not> is_container_row r)} - found_IDs d i names"

lemma children_IDs_set:
  assumes "unbuffered st"
  shows "set (case children_IDs st c (\<not> ad_recursive d) of None \<Rightarrow> [] | Some l \<Rightarrow> l) - found_IDs d i names = gone_IDs st c d i names"
  by (auto simp: children_IDs_def getObjects_def flush_unbuffered [OF assms] gone_IDs_def Let_def filter_empty_conv split: if_splits)

lemma scan_done_fresh: "scan_done ids a d (on_fresh k s) = scan_done ids a d s"
  by (simp add: scan_done_def on_fresh_def)

lemma known_scan_done:
  assumes end_eq: "rescan env c scanID m lvl s
    = scan_end env a (Some (map_option (filter (\<lambda>x. x \<notin> found_IDs d i names)) (children_IDs st c (\<not> ad_recursive d)),
        ad_last_mod_previous_scan d)) (on_fresh k s)"
    and st: "st = cm_store (sn_cm s)" "unbuffered st" "numbered st" "se_running env" "st_dirs (sn_dirs s) a = Some d"
    and gone: "\<forall>i \<in> gone_IDs st c d i names. 1 < i" "\<forall>r \<in> set (st_rows st). row_id r \<in> gone_IDs st c d i names \<longrightarrow> \<not> is_cont r"
  shows "scan_done (gone_IDs st c d i names) a (ad_setCurrentLMT d (ad_last_mod_previous_scan d)) s (rescan env c scanID m lvl s)"
proof -
  define all where "all = (case children_IDs st c (\<not> ad_recursive d) of None \<Rightarrow> [] | Some l \<Rightarrow> l)"
  define gone where "gone = filter (\<lambda>x. x \<notin> found_IDs d i names) all"
  have G: "set gone = gone_IDs st c d i names"
    using children_IDs_set [OF st(2), of c d i names] by (auto simp: gone_def all_def)
  have list: "map_option (filter (\<lambda>x. x \<notin> found_IDs d i names)) (children_IDs st c (\<not> ad_recursive d)) = Some gone
      \<or> map_option (filter (\<lambda>x. x \<notin> found_IDs d i names)) (children_IDs st c (\<not> ad_recursive d)) = None \<and> gone = []"
    by (cases "children_IDs st c (\<not> ad_recursive d)") (simp_all add: gone_def all_def)
  let ?s = "on_fresh k s"
  have rows: "st_rows (cm_store (sn_cm ?s)) = st_rows st" "sn_dirs ?s = sn_dirs s" by (simp_all add: on_fresh_def st(1))
  have "unbuffered (cm_store (sn_cm ?s))" "numbered (cm_store (sn_cm ?s))"
    using st(2,3) by (simp_all add: on_fresh_def st(1) numbered_def)
  moreover have "\<forall>i \<in> set gone. \<exists>r \<in> set (st_rows st). row_id r = i" unfolding G by (auto simp: gone_IDs_def)
  ultimately have "scan_done (set gone) a (ad_setCurrentLMT d (ad_last_mod_previous_scan d)) ?s (rescan env c scanID m lvl s)"
    unfolding end_eq using st(4,5) gone list by (intro scan_end_removes) (simp_all add: rows G)
  then show ?thesis by (simp add: scan_done_fresh G)
qed

section \<open>An example\<close>

definition demo_file_row :: "string \<Rightarrow> int \<Rightarrow> table_row" where
  \<comment> \<open>the row of a file in the root of the file system\<close>
  "demo_file_row path i = stored_row i (item_row_columns (demo_import\<lparr>o_location := Some path\<rparr>) demo_item 1)"

definition demo_rows_of :: "store \<Rightarrow> bool" where
  \<comment> \<open>the root with a song that is there and one that is gone\<close>
  "demo_rows_of st \<longleftrightarrow> unbuffered st \<and> st_autoscans st = []
     \<and> st_rows st = [demo_root, demo_file_row ''/a.mp3'' 7, demo_file_row ''/b.mp3'' 8]"

definition demo_scan :: scan_env where
  \<comment> \<open>a directory with one song\<close>
  "demo_scan = \<lparr>se_import = demo_env\<lparr>ie_stat := \<lambda>_. Inr \<lparr>fs_kind = Regular_File, fs_mtime = 5, fs_size = 7\<rparr>,
       ie_entries := \<lambda>_. Inr [''.'', ''..'', ''a.mp3''], ie_ignore_unknown := True\<rparr>,
     se_layout = None, se_use_inotify = False, se_others = (\<lambda>_ ds. ds), se_running = True,
     se_taskID = 0, se_cancellable = True\<rparr>"

lemma demo_file_plain: "nul_free path \<Longrightarrow> path \<noteq> [] \<Longrightarrow> plain_item (demo_import\<lparr>o_location := Some path\<rparr>) demo_item"
  using demo_plain unfolding plain_item_def cds_inv_def class_type_def getFlag_def by simp

lemma demo_file_cols:
  assumes "nul_free path" "path \<noteq> []"
  shows "demo_file_row path i ''ref_id'' = None" "demo_file_row path i ''id'' = sql_int i"
    "demo_file_row path i ''parent_id'' = sql_int 1"
  using stored_item [OF demo_file_plain [OF assms], of 1 i]
  by (simp_all add: demo_file_row_def sql_int_def z_from_def)

lemma demo_joined:
  assumes "st_autoscans st = []" "r ''ref_id'' = None"
  shows "joined_row st r = select_row r (\<lambda>_. None) None"
proof -
  have "find (\<lambda>rf. rf ''id'' \<noteq> None \<and> rf ''id'' = r ''ref_id'') (st_rows st) = None"
    using assms(2) by (intro find_no_match) auto
  then show ?thesis using assms(1) by (simp add: joined_row_def)
qed

lemma object_read:
  "unbuffered st \<Longrightarrow> createObjectFromRow (st_active st) (joined_row st r) = Inr ob \<Longrightarrow> fst (object_of_row r st) = Inr ob"
  by (simp add: object_of_row_def and_then_def store_addObjectToCache_def addObjectToCache_def unbuffered_def no_cache_def)

lemma demo_song_location: "path_location (Some ''//a.mp3'') = Inr (Some ''F/a.mp3'')"
proof -
  have "z_reduce (Some ''//a.mp3'') DIR_SEPARATOR = Inr (Some ''/a.mp3'')"
    by (subst z_reduce_squeeze) (simp_all add: nul_free_def)
  moreover have "z_reduce (Some ''/a.mp3'') DIR_SEPARATOR = Inr (Some ''/a.mp3'')"
    by (subst z_reduce_squeeze) (simp_all add: nul_free_def)
  ultimately show ?thesis using demo_location by (simp add: path_location_def)
qed

lemma demo_song_found:
  assumes "demo_rows_of st"
  shows "fst (findObjectIDByPath (Some ''//a.mp3'') st) = Inr 7"
proof -
  have st: "unbuffered st" "st_autoscans st = []"
    "st_rows st = [demo_root, demo_file_row ''/a.mp3'' 7, demo_file_row ''/b.mp3'' 8]"
    using assms by (simp_all add: demo_rows_of_def)
  have nf: "nul_free ''/a.mp3''" by (simp add: nul_free_def)
  have root: "\<not> at_location (Some ''F/a.mp3'') demo_root"
    by (simp add: demo_root_def at_location_container_row nul_free_def)
  have song: "at_location (Some ''F/a.mp3'') (demo_file_row ''/a.mp3'' 7)"
    using item_row_location [of "''/a.mp3''"] nf
    by (simp add: demo_file_row_def item_row_columns_def addLocationPrefix_def cstring_simps)
  have f: "find (\<lambda>r. at_location (Some ''F/a.mp3'') r \<and> r ''ref_id'' = None) (st_rows st) = Some (demo_file_row ''/a.mp3'' 7)"
    using root song demo_file_cols(1) [OF nf] by (simp add: st(3))
  have "fst (object_of_row (demo_file_row ''/a.mp3'' 7) st)
      = Inr (as_stored 7 1 (demo_import\<lparr>o_location := Some ''/a.mp3''\<rparr>))"
    by (rule object_read [OF st(1)])
      (simp add: demo_joined [OF st(2)] demo_file_cols(1) [OF nf],
        simp add: demo_file_row_def read_stored_item demo_file_plain nf)
  then obtain st' where "object_of_row (demo_file_row ''/a.mp3'' 7) st
      = (Inr (as_stored 7 1 (demo_import\<lparr>o_location := Some ''/a.mp3''\<rparr>)), st')" by (metis prod.collapse)
  then show ?thesis
    using f st(1)
    by (simp add: findObjectIDByPath_def findObjectByPath_def demo_song_location cached_at_def unbuffered_def no_cache_def
        and_then_def as_stored_def)
qed


lemma demo_root_read:
  assumes "demo_rows_of st"
  shows "fst (loadObject CDS_ID_FS_ROOT st) = Inr (loaded_container 1 0 ''PC Directory'' ''/'' False None)"
proof -
  have st: "unbuffered st" "st_autoscans st = []" "find (with_id 1) (st_rows st) = Some demo_root"
    using assms by (simp_all add: demo_rows_of_def demo_root_def with_id_def col_is_def container_row_cols)
  have "createObjectFromRow (st_active st) (joined_row st demo_root) = Inr (loaded_container 1 0 ''PC Directory'' ''/'' False None)"
    using read_container [of "''PC Directory''" "''/''" 0 1 "st_active st" False None]
    by (simp add: demo_joined [OF st(2)] demo_root_def container_row_cols nul_free_def)
  then have "fst (object_of_row demo_root st) = Inr (loaded_container 1 0 ''PC Directory'' ''/'' False None)"
    by (rule object_read [OF st(1)])
  then show ?thesis
    using st by (simp add: loadObject_def cached_def unbuffered_def no_cache_def)
qed

lemma child_of_iff: "r ''parent_id'' = Some (show_int j) \<Longrightarrow> child_of i r \<longleftrightarrow> i = j"
  using show_int_inj by (auto simp: child_of_def col_is_def)

lemma demo_children:
  assumes "demo_rows_of st"
  shows "children_IDs st CDS_ID_FS_ROOT False = Some [7, 8]"
proof -
  have st: "unbuffered st" "st_rows st = [demo_root, demo_file_row ''/a.mp3'' 7, demo_file_row ''/b.mp3'' 8]"
    using assms by (simp_all add: demo_rows_of_def)
  have nf: "nul_free ''/a.mp3''" "nul_free ''/b.mp3''" by (simp_all add: nul_free_def)
  have child: "\<not> child_of 1 demo_root" "child_of 1 (demo_file_row ''/a.mp3'' 7)" "child_of 1 (demo_file_row ''/b.mp3'' 8)"
    by (simp_all add: child_of_iff [of _ 0] child_of_iff [of _ 1] demo_file_cols(3) [OF nf(1)] demo_file_cols(3) [OF nf(2)]
        demo_root_def container_row_cols sql_int_def z_from_def)
  have ids: "row_id (demo_file_row ''/a.mp3'' 7) = 7" "row_id (demo_file_row ''/b.mp3'' 8) = 8"
    using demo_file_cols(2) [OF nf(1)] demo_file_cols(2) [OF nf(2)] z_toInt_show [of 7] z_toInt_show [of 8]
    by (simp_all add: row_id_def sql_int_def z_from_def)
  show ?thesis
    by (simp add: children_IDs_def getObjects_def flush_unbuffered [OF st(1)] st(2) child ids Let_def)
qed

lemma demo_known:
  assumes "demo_rows_of st" "ad_hidden d = False" "5 \<le> lmt" "name \<in> set [''.'', ''..'', ''a.mp3'']"
  shows "known_entry demo_scan Full d ''/'' st lmt (\<lambda>_. 7) name"
  using assms(2-4) demo_song_found [OF assms(1)]
  by (auto simp: known_entry_def demo_scan_def hidden_entry_def byte_at_def)


lemma demo_file_at:
  "nul_free path \<Longrightarrow> path \<noteq> [] \<Longrightarrow> nul_free q \<Longrightarrow> at_location (Some q) (demo_file_row path i) \<Longrightarrow> q = LOC_FILE_PREFIX # path"
  using stored_item(9) [OF demo_file_plain, of path 1 i]
  by (auto simp: at_location_def col_is_def demo_file_row_def addLocationPrefix_def cstring_simps)

lemma demo_other_location: "path_location (Some ''/x.bin'') = Inr (Some ''F/x.bin'')"
proof -
  have "z_reduce (Some ''/x.bin'') DIR_SEPARATOR = Inr (Some ''/x.bin'')"
    by (subst z_reduce_squeeze) (simp_all add: nul_free_def)
  then show ?thesis
    by (simp add: path_location_def bind_result_def split_path_def z_rindex_def
        z_substring_from_def z_substring_def strncpy_def cstr_def Let_def
        string_ok_def z_eq_def addLocationPrefix_def z_append_def)
qed

lemma demo_other_not_found:
  assumes "demo_rows_of st"
  shows "findObjectByPath (Some ''/x.bin'') st = (Inr None, st)"
proof -
  have st: "unbuffered st" "st_rows st = [demo_root, demo_file_row ''/a.mp3'' 7, demo_file_row ''/b.mp3'' 8]"
    using assms by (simp_all add: demo_rows_of_def)
  have "\<not> at_location (Some ''F/x.bin'') demo_root"
    by (simp add: demo_root_def at_location_container_row nul_free_def)
  moreover have "\<not> at_location (Some ''F/x.bin'') (demo_file_row ''/a.mp3'' 7)" "\<not> at_location (Some ''F/x.bin'') (demo_file_row ''/b.mp3'' 8)"
    using demo_file_at [of "''/a.mp3''" "''F/x.bin''" 7] demo_file_at [of "''/b.mp3''" "''F/x.bin''" 8]
    by (auto simp: nul_free_def)
  ultimately show ?thesis
    using st by (simp add: findObjectByPath_def demo_other_location cached_at_def unbuffered_def no_cache_def)
qed

lemma demo_ignored: "createObjectFromFile (se_import demo_scan) ''/x.bin'' True False = Inr None"
proof -
  have "get_filename (Some ''/x.bin'') = Inr (Some ''x.bin'')"
    by (simp add: get_filename_def z_rindex_def z_substring_from_def z_substring_def strncpy_def cstr_def Let_def)
  moreover have "file_type (se_import demo_scan) ''/x.bin'' (Some ''x.bin'') True = Inr None"
    by (simp add: file_type_def z_rindex_def z_substring_from_def z_substring_def strncpy_def cstr_def Let_def
        extension2mimetype_def demo_scan_def demo_env_def z_eq_def bind_result_def z_toLower_def tolower_def)
  ultimately show ?thesis by (simp add: createObjectFromFile_def bind_result_def demo_scan_def)
qed

lemma demo_other_scanned:
  assumes "demo_rows_of (cm_store (sn_cm s))"
  shows "scan_file demo_scan Full ''/x.bin'' (Some ''/'') False 9 (Some [7], 3) s = (Inr (Some (Some [7], 9)), s)"
proof -
  have f: "on_store (findObjectByPath (Some ''/x.bin'')) (sn_cm s) = (Inr None, sn_cm s)"
    using demo_other_not_found [OF assms] by (simp add: on_store_def)
  have fi: "on_db (findObjectIDByPath (Some ''/x.bin'')) s = (Inr INVALID_OBJECT_ID, s)"
    using demo_other_not_found [OF assms]
    by (simp add: findObjectIDByPath_def on_cm_def on_store_def and_then_def)
  have name: "get_filename (Some ''/x.bin'') = Inr (Some ''x.bin'')"
    by (simp add: get_filename_def z_rindex_def z_substring_from_def z_substring_def strncpy_def cstr_def Let_def)
  have e: "ie_configFilename (se_import demo_scan) = None" "\<not> z_eq None (Some ''/x.bin'')"
    by (simp_all add: demo_scan_def demo_env_def z_eq_def)
  have "addFile (se_import demo_scan) None ''/x.bin'' (Some ''/'') False False None (sn_cm s) = (Inr INVALID_OBJECT_ID, sn_cm s)"
    by (simp add: addFile_def name byte_at_def e and_then_Inr [of "on_store (findObjectByPath (Some ''/x.bin''))", OF f]
        new_file_object_def demo_ignored and_then_assoc)
  then have "add_found demo_scan ''/x.bin'' (Some ''/'') False s = (Inr (), s)"
    by (simp add: add_found_def demo_scan_def on_cm_def and_then_def)
  then show ?thesis
    by (simp add: scan_file_def and_then_Inr [of "on_db (findObjectIDByPath (Some ''/x.bin''))", OF fi] e
        and_then_Inr [of "add_found demo_scan ''/x.bin'' (Some ''/'') False"])
qed

lemma scan_raises_time:
  assumes "scan_file env lvl path location hidden t (list, lmt) s = (Inr (Some (list', lmt')), s')" "lvl = Full"
    and "\<not> z_eq (ie_configFilename (se_import env)) (Some path)"
  shows "lmt \<le> lmt' \<and> t \<le> lmt'"
  using assms by (auto simp: scan_file_def and_then_done give_def split: if_splits)

lemma demo_found: "\<not> ad_hidden d \<Longrightarrow> found_IDs d (\<lambda>_. 7) [''.'', ''..'', ''a.mp3''] = {7}"
proof -
  assume "\<not> ad_hidden d"
  then have d: "ad_hidden d = False" by simp
  have "hidden_entry False ''.''" "hidden_entry False ''..''" "\<not> hidden_entry False ''a.mp3''"
    by (simp_all add: hidden_entry_def byte_at_def)
  then have "''a.mp3'' \<in> {name \<in> set [''.'', ''..'', ''a.mp3'']. \<not> hidden_entry False name}" by simp
  then show ?thesis unfolding found_IDs_def d by (rule image_constant)
qed


lemma demo_rows_numbered:
  assumes "demo_rows_of st"
  shows "numbered st" "items_of st = [demo_file_row ''/a.mp3'' 7, demo_file_row ''/b.mp3'' 8]"
    "\<not> is_cont (demo_file_row ''/a.mp3'' 7)" "\<not> is_cont (demo_file_row ''/b.mp3'' 8)"
    "\<not> goes_with {8} (demo_file_row ''/a.mp3'' 7)" "goes_with {8} (demo_file_row ''/b.mp3'' 8)"
    "ad_recursive d \<Longrightarrow> gone_IDs st CDS_ID_FS_ROOT d (\<lambda>_. 7) names = {7, 8} - found_IDs d (\<lambda>_. 7) names"
    "r \<in> set (st_rows st) \<Longrightarrow> row_id r = 8 \<Longrightarrow> r = demo_file_row ''/b.mp3'' 8"
proof -
  have rows: "st_rows st = [demo_root, demo_file_row ''/a.mp3'' 7, demo_file_row ''/b.mp3'' 8]"
    using assms by (simp add: demo_rows_of_def)
  have nf: "nul_free ''/a.mp3''" "nul_free ''/b.mp3''" by (simp_all add: nul_free_def)
  have id: "demo_root ''id'' = Some (show_int 1)" "demo_file_row ''/a.mp3'' 7 ''id'' = Some (show_int 7)"
    "demo_file_row ''/b.mp3'' 8 ''id'' = Some (show_int 8)"
    using demo_file_cols(2) [OF nf(1)] demo_file_cols(2) [OF nf(2)]
    by (simp_all add: demo_root_def container_row_cols sql_int_def)
  then have n: "row_id demo_root = 1" "row_id (demo_file_row ''/a.mp3'' 7) = 7" "row_id (demo_file_row ''/b.mp3'' 8) = 8"
    using z_toInt_show [of 1] z_toInt_show [of 7] z_toInt_show [of 8] by (simp_all add: row_id_def)
  show "numbered st" by (simp add: numbered_def rows id n)
  have t: "demo_file_row ''/a.mp3'' i ''object_type'' = Some (show_int 2)" "demo_file_row ''/b.mp3'' i ''object_type'' = Some (show_int 2)" for i
    using stored_item(2) [OF demo_file_plain [OF nf(1)], of 1 i] stored_item(2) [OF demo_file_plain [OF nf(2)], of 1 i]
    by (simp_all add: demo_file_row_def)
  have c: "is_container_row demo_root" "\<not> is_container_row (demo_file_row ''/a.mp3'' i)" "\<not> is_container_row (demo_file_row ''/b.mp3'' i)" for i
    by (simp_all add: is_container_row_def col_is_def t demo_root_def container_row_cols sql_uint_int)
  then show "items_of st = [demo_file_row ''/a.mp3'' 7, demo_file_row ''/b.mp3'' 8]" by (simp add: rows)
  show "\<not> is_cont (demo_file_row ''/a.mp3'' 7)" "\<not> is_cont (demo_file_row ''/b.mp3'' 8)"
    using z_toInt_show [of 2] by (simp_all add: is_cont_def row_type_def t IS_CDS_defs)
  show "\<not> goes_with {8} (demo_file_row ''/a.mp3'' 7)" "goes_with {8} (demo_file_row ''/b.mp3'' 8)"
    using demo_file_cols(1) [OF nf(1)] by (simp_all add: goes_with_def n)
  have child: "\<not> child_of 1 demo_root" "child_of 1 (demo_file_row ''/a.mp3'' 7)" "child_of 1 (demo_file_row ''/b.mp3'' 8)"
    by (simp_all add: child_of_iff [of _ 0] child_of_iff [of _ 1] demo_file_cols(3) [OF nf(1)] demo_file_cols(3) [OF nf(2)]
        demo_root_def container_row_cols sql_int_def z_from_def)
  show "gone_IDs st CDS_ID_FS_ROOT d (\<lambda>_. 7) names = {7, 8} - found_IDs d (\<lambda>_. 7) names" if "ad_recursive d"
  proof -
    have "{row_id r | r. r \<in> set (st_rows st) \<and> child_of 1 r} = {7, 8}"
      using child n by (auto simp: rows)
    then show ?thesis using that by (simp add: gone_IDs_def)
  qed
  show "r = demo_file_row ''/b.mp3'' 8" if "r \<in> set (st_rows st)" "row_id r = 8"
    using that n by (auto simp: rows)
qed

end
