(* ===== verification/Spec2Isabelle.thy ===== *)
theory Spec2Isabelle
  imports Prelude ZString Containers Queues ZBuffer Codec Dictionary Objects IntArrays TextTools
    TimeTools Escape Paths Sorting Cds_Resources Cds_Objects Autoscan Timer Sessions
    Update_Manager Storage_Cache Sql_Objects Buffer_Helper Buffered_IO Curl_IO Actions
    Virtual_Paths Sql_Store Sql_Browse Sql_Autoscans Sql_Removal Sql_Add
    Content_Manager Fallback_Layout File_Import Task_Queue Url_Cache Import_Run Rescan
begin

text \<open>
  A verification library for the core of the Gerbera UPnP media server (C++ below src/src).

  \<^bold>\<open>The program.\<close> The server imports files into a database of media objects and offers
  them to UPnP players and to a web page. At the bottom lies the library zmm with strings,
  containers and reference counts. \<open>Dictionary\<close>, \<open>CdsResource\<close> and the classes below
  \<open>CdsObject\<close> hold the media objects. The storage writes them as rows, keeps a cache of
  objects, and buffers INSERT statements. The content manager imports a file in a task of its thread:
  it makes an object of the file, adds it, and a layout files references to it in virtual
  containers. It scans the directories in the \<open>AutoscanList\<close> again when the \<open>Timer\<close> calls it. Each
  change goes to the \<open>UpdateManager\<close>, which collects container IDs for the players, and to the
  \<open>SessionManager\<close>, which collects them for the web page.

  \<^bold>\<open>Representation.\<close> A call returns \<open>Inr\<close> a value, \<open>Inl (Throw msg)\<close> for an exception,
  or \<open>Inl Abort\<close> where the language leaves the behaviour undefined (theory \<open>Prelude\<close>).
  \<open>zmm::String\<close> is a \<open>zstring\<close>: \<open>None\<close> for the null reference, else the bytes. Numbers are
  integers, with a word where the code relies on the width. Memory blocks are lists of cells
  that may be uninitialised. Objects that are shared and mutated live in stores under addresses.

  \<^bold>\<open>Theories\<close>, with the files they model:
  \<open>ZString\<close> (zmm/strings.cc), \<open>Containers\<close>, \<open>IntArrays\<close> (zmm/base_array.h), \<open>Queues\<close>
  (zmm/base_stack.h, base_queue.h), \<open>ZBuffer\<close> (zmm/stringbuffer.cc, stringtokenizer.cc),
  \<open>Objects\<close> (zmm/object.cc, ref.h, array.cc, object_stack.h, object_queue.h),
  \<open>Codec\<close>, \<open>TextTools\<close>, \<open>TimeTools\<close>, \<open>Escape\<close>, \<open>Paths\<close>, \<open>Sorting\<close> (tools.cc),
  \<open>Dictionary\<close> (dictionary.cc), \<open>Cds_Resources\<close> (cds_resource.cc),
  \<open>Cds_Objects\<close> (cds_objects.cc, cds_objects.h), \<open>Autoscan\<close> (autoscan.cc, autoscan.h),
  \<open>Timer\<close> (timer.cc, timer.h), \<open>Sessions\<close> (session_manager.cc), \<open>Update_Manager\<close>
  (update_manager.cc), \<open>Storage_Cache\<close> (storage/storage_cache.cc, cache_object.cc and the insert buffer of
  sql_storage.cc and sqlite3_storage.cc), \<open>Sql_Objects\<close> (storage/sql_storage.cc: the rows of the
  objects), \<open>Virtual_Paths\<close> (storage.cc: paths of virtual containers), \<open>Sql_Store\<close>, \<open>Sql_Browse\<close>,
  \<open>Sql_Autoscans\<close>, \<open>Sql_Removal\<close>, \<open>Sql_Add\<close> (storage/sql_storage.cc: the tables, one theory for
  finding and creating, listing, the autoscans, removing, adding), \<open>Content_Manager\<close>, \<open>File_Import\<close>,
  \<open>Rescan\<close> (content_manager.cc: objects, imports, scans), \<open>Fallback_Layout\<close> (layout/fallback_layout.cc),
  \<open>Import_Run\<close> (an import that returns), \<open>Task_Queue\<close> (generic_task.cc, task_processor.cc and the
  queues of content_manager.cc), \<open>Url_Cache\<close> (cached_url.cc), \<open>Buffer_Helper\<close> (io_handler_buffer_helper.cc), \<open>Buffered_IO\<close> (buffered_io_handler.cc),
  \<open>Curl_IO\<close> (curl_io_handler.cc). \<open>Prelude\<close> and \<open>Actions\<close> hold what they share: the results of calls,
  numbers and their texts, and sequences of operations on a state. A definition has the name of the method, with a prefix for the class where names repeat: \<open>z_\<close>
  String, \<open>ba_\<close> BaseArray, \<open>bs_\<close> BaseStack, \<open>bq_\<close> BaseQueue, \<open>sb_\<close> StringBuffer, \<open>oa_\<close> ArrayBase,
  \<open>d_\<close> Dictionary, \<open>r_\<close> CdsResource, \<open>ad_\<close> AutoscanDirectory, \<open>al_\<close> AutoscanList, \<open>te_\<close>
  a timer element, \<open>bh_\<close> IOHandlerBufferHelper, \<open>bi_\<close> BufferedIOHandler, \<open>ci_\<close> CurlIOHandler, \<open>se_\<close> Session, \<open>sm_\<close> SessionManager, \<open>co_\<close> CacheObject, \<open>sc_\<close> StorageCache,
  \<open>cm_\<close> ContentManager, \<open>tp_\<close> the tasks, \<open>cu_\<close> CachedURL. The fields of \<open>import_env\<close> begin with \<open>ie_\<close>,
  those of \<open>scanner\<close> with \<open>sn_\<close>, and those of \<open>scan_env\<close>, as those of a session, with \<open>se_\<close>.

  \<^bold>\<open>State.\<close> A \<open>store\<close> is the database with what stands before it: the rows of the tables, the cache,
  the insert buffer and the last ID. A \<open>manager\<close> is a store with the calls made to the update and
  session managers, a \<open>scanner\<close> a manager with the lists of the autoscan directories and the tasks
  that were added. An operation is an \<open>action\<close>: it returns a result and the state it leaves, also when
  it fails. Threads are step relations; a step ends where the thread gives up its lock.

  \<^bold>\<open>Interfaces.\<close> \<open>sequence\<close> (BaseArray), \<open>stack\<close> (BaseStack), \<open>fifo\<close> (BaseQueue),
  \<open>text_buffer\<close> (StringBuffer), \<open>counted_heap\<close> (the reference counts), \<open>codec\<close>
  (hexadecimal and percent encoding), \<open>keyed_store\<close> (Dictionary), \<open>producer\<close> (the two threads that fill the ring buffer of
  \<open>IOHandlerBufferHelper\<close>), \<open>import_layout\<close> (what the import asks of a layout; the built-in one
  provides it). Each is interpreted on the model, and
  the clients use only its laws.

  \<^bold>\<open>Lemmas.\<close> The containers refine lists (\<open>_law\<close> lemmas), and never touch memory outside their
  blocks. The text functions equal short specifications on lists. The encodings have inverses.
  The managers keep invariants (\<open>al_inv\<close>, \<open>sm_inv\<close>, \<open>um_inv\<close>, \<open>timer_inv\<close>) that hold in every
  reachable state. Adding, importing and scanning keep the rows and the distinct IDs (\<open>keeps_\<close>
  lemmas), whether they fail or not. Removal, listing and the container chains are compared with sets
  of rows and with a map from paths to IDs. Some properties record what the code does against its intention; their text says so.

  \<^bold>\<open>Loops.\<close> \<open>quicksort\<close> runs on fuel, as its inner loops end only for a consistent comparator; one
  unit more than the number of elements is shown to be enough. Directories are walked to a depth of
  \<open>PATH_MAX\<close>, since \<open>opendir\<close> refuses longer paths. The loops of the removal count their rounds and
  throw after 500, as in the code. All other functions are total;
  those whose recursion is not structural have a termination proof.

  \<^bold>\<open>Parameters.\<close> The clock (which may be set back), random IDs, the order in which a hash set is iterated, the contents of
  other rows, the order of equal rows in a listing, the file system tree and the results of the
  network are arguments. \<open>import_env\<close> holds what an import reads: the file system, libmagic, the
  character sets, the options and the metadata handlers (\<open>ie_handlers\<close>), of which \<open>handlers_fill\<close> says
  that they only fill in an object and do not make it another one; \<open>scan_env\<close> adds what other
  threads do to the directories during a scan. SQLite's
  literals and C's \<open>strtol\<close>, \<open>strstr\<close> and \<open>memmove\<close> have their documented meaning.

  \<^bold>\<open>Not modelled.\<close> The configuration, the web pages, the UPnP services, scripting and with it the
  layouts in JavaScript, the handlers that extract metadata, the watches of inotify, transcoding, the
  online services with their part of the layout (\<open>addYouTube\<close>), and the start-up of the content manager:
  they are glue to the file system, to processes and to libraries. Of the modelled classes, locks are
  left out where every operation holds the lock throughout, destructors of objects are, and logging is.
\<close>

section \<open>Properties\<close>

text \<open>
  C1. \<open>normalizePath\<close> of an absolute path returns its normal form: the components of the
  path with the empty ones and \<open>.\<close> left out and each \<open>..\<close> taking away the component
  before it (none at the root), each preceded by one separator. The comment in tools.h announces an
  exception for \<open>/../\<close> and for \<open>/..\<close> at the end instead; the code has none, it resolves them.
\<close>

theorem normalizePath_normal_form:
  assumes "nul_free p"
  shows "normalizePath (Some (CHR ''/'' # p)) = Inr (Some (normal_form (CHR ''/'' # p)))"
  using assms by (rule normalizePath_correct)

theorem normalizePath_normal_form_witness:
  "normalizePath (Some ''/a/./b//../c/..'') = Inr (Some ''/a'')"
proof -
  have "nul_free ''a/./b//../c/..''" by simp
  from normalizePath_normal_form [OF this]
  have "normalizePath (Some ''/a/./b//../c/..'') = Inr (Some (normal_form ''/a/./b//../c/..''))" .
  also have "normal_form ''/a/./b//../c/..'' = ''/a''" by code_simp
  finally show ?thesis .
qed

text \<open>
  C2. What \<open>normalizePath\<close> returns is a path it leaves unchanged, and no component of it
  is \<open>.\<close> or \<open>..\<close>, so it cannot lead out of the directories it names. This is what the code does
  with \<open>..\<close>, for which the comment in tools.h announces an exception.
\<close>

theorem normalizePath_idempotent:
  assumes "nul_free p" "normalizePath (Some (CHR ''/'' # p)) = Inr (Some q)"
  shows "normalizePath (Some q) = Inr (Some q) \<and> (\<forall>c \<in> set (components q). \<not> is_dots c)"
proof -
  have q: "q = normal_form (CHR ''/'' # p)" using assms normalizePath_correct [OF assms(1)] by simp
  obtain r where r: "q = CHR ''/'' # r" "nul_free r"
    using normal_form_absolute [of "CHR ''/'' # p"] assms(1) unfolding q by auto
  have "normalizePath (Some q) = Inr (Some (normal_form q))"
    unfolding r(1) by (rule normalizePath_correct [OF r(2)])
  also have "normal_form q = q" unfolding q by (rule normal_form_idem)
  finally show ?thesis using components_not_dots unfolding q by blast
qed

theorem normalizePath_idempotent_witness:
  "normalizePath (Some ''/a'') = Inr (Some ''/a'')"
proof -
  have "nul_free ''a/../a''" by simp
  moreover have "normalizePath (Some (CHR ''/'' # ''a/../a'')) = Inr (Some ''/a'')" by code_simp
  ultimately show ?thesis using normalizePath_idempotent by blast
qed

text \<open>
  C8. \<open>quicksort\<close> with a consistent comparator returns, with one unit of fuel more than
  there are elements, an ordered permutation of the array.
\<close>

theorem quicksort_sorts:
  assumes "comparator cmp"
  shows "\<exists>ys. quicksort (length xs + 1) cmp xs (int (length xs)) = Some ys
    \<and> mset ys = mset xs \<and> ordered cmp ys"
  using assms by (rule quicksort_correct)

theorem quicksort_sorts_witness:
  "\<exists>ys. quicksort 5 (\<lambda>x y. x - y) [3, 1, 2, 1 :: int] 4 = Some ys
    \<and> mset ys = {#3, 1, 2, 1#} \<and> ordered (\<lambda>x y. x - y) ys"
proof -
  have "comparator (\<lambda>x y. x - y :: int)" by (auto simp: comparator_def)
  from quicksort_sorts [OF this, of "[3, 1, 2, 1]"]
  have "\<exists>ys. quicksort (length [3, 1, 2, 1 :: int] + 1) (\<lambda>x y. x - y) [3, 1, 2, 1 :: int] 4 = Some ys
    \<and> mset ys = {#3, 1, 2, 1#} \<and> ordered (\<lambda>x y. x - y) ys" by simp
  moreover have "length [3, 1, 2, 1 :: int] + 1 = 5" by simp
  ultimately show ?thesis by (simp only:)
qed

text \<open>
  C20. The text form of a resource is read back as the same resource, whichever of its
  dictionaries are empty, although the reader drops empty parts at the end.
\<close>

theorem resource_round_trip:
  assumes "r_inv r" "d_plain (r_attributes r)" "d_plain (r_parameters r)" "d_plain (r_options r)"
    and "- (2 ^ 31) \<le> r_handlerType r" "r_handlerType r < 2 ^ 31"
  shows "r_decode (r_encode r) = Inr r"
  using assms by (rule r_decode_encode)

theorem resource_round_trip_witness:
  "r_decode (r_encode (r_addParameter (new_CdsResource 3) (Some ''k~'') (Some ''a=b'')))
    = Inr (r_addParameter (new_CdsResource 3) (Some ''k~'') (Some ''a=b''))"
  by (rule resource_round_trip)
    (simp_all add: r_inv_def d_inv_def d_plain_def r_addParameter_def new_CdsResource_def)

text \<open>
  What \<open>_addUpdateObject\<close> writes for a new file is read back by
  \<open>createObjectFromRow\<close> as the same object, with the generated ID and the parent the path
  gave; reset are only the members the table has no column for, and the flag
  \<open>OBJECT_FLAG_USE_RESOURCE_REF\<close>.
\<close>

theorem stored_file_round_trip:
  assumes "plain_item ob i"
    and "addUpdateObject load find_by_path ensure_path duplicate ob False
      = Inr (Some (ob', d, active))"
    and "- (2 ^ 31) \<le> o_parentID ob'" "o_parentID ob' < 2 ^ 31" "- (2 ^ 31) \<le> new_id" "new_id < 2 ^ 31"
  shows "createObjectFromRow scan_info (select_row (stored_row new_id d) (\<lambda>_. None) None)
    = Inr (as_stored new_id (o_parentID ob') ob)"
proof -
  have "d = item_row_columns ob i (o_parentID ob')" using addUpdateObject_plain [OF assms(1,2)] by blast
  then show ?thesis using read_stored_item [OF assms(1,3-6)] by simp
qed

definition demo_file :: cds_object where
  "demo_file = new_CdsItem\<lparr>o_title := Some ''it's'', o_location := Some ''/m/a.mp3'',
     o_metadata := [(Some ''dc:date'', Some ''1=2&3'')], o_resources := [new_CdsResource 0]\<rparr>"

theorem stored_file_round_trip_witness:
  "\<exists>ob' d. addUpdateObject (\<lambda>_. Inr None) (\<lambda>_. Inr None) (\<lambda>_. Inr 5) (\<lambda>_ _ _. False) demo_file False
      = Inr (Some (ob', d, None))
    \<and> createObjectFromRow (\<lambda>_. None) (select_row (stored_row 9 d) (\<lambda>_. None) None)
      = Inr (as_stored 9 5 demo_file)"
proof -
  have p: "plain_item demo_file new_item_part"
    by (simp add: plain_item_def demo_file_def new_Cds_defs new_item_part_def cds_inv_def d_inv_def d_plain_def
        r_inv_def r_plain_def new_CdsResource_def class_type_def getFlag_def)
  have "\<exists>ob' d. addUpdateObject (\<lambda>_. Inr None) (\<lambda>_. Inr None) (\<lambda>_. Inr 5) (\<lambda>_ _ _. False) demo_file False
      = Inr (Some (ob', d, None)) \<and> o_parentID ob' = 5"
    by (simp add: addUpdateObject_def find_reference_def columns_of_def demo_file_def new_Cds_defs getFlag_def clearFlag_def
        IS_CDS_defs item_location_def string_ok_def z_eq_def cstr_def the_item_def split_path_def z_rindex_def
        Let_def)
  then obtain ob' d where a: "addUpdateObject (\<lambda>_. Inr None) (\<lambda>_. Inr None) (\<lambda>_. Inr 5) (\<lambda>_ _ _. False)
      demo_file False = Inr (Some (ob', d, None))" "o_parentID ob' = 5" by blast
  have "createObjectFromRow (\<lambda>_. None) (select_row (stored_row 9 d) (\<lambda>_. None) None)
      = Inr (as_stored 9 (o_parentID ob') demo_file)"
    by (rule stored_file_round_trip [OF p a(1)]) (simp_all add: a(2))
  then show ?thesis using a by auto
qed

text \<open>
  An item without a resource is written by \<open>_addUpdateObject\<close> with no value in the column
  of the resources, and \<open>createObjectFromRow\<close> throws for every such row.
\<close>

theorem item_without_resource_unreadable:
  assumes "word_of_int (z_toInt (row col_object_type)) = OBJECT_TYPE_ITEM"
    and "\<not> string_ok (fallbackString (row col_resources) (row col_ref_resources))"
  shows "createObjectFromRow active row
    = Inl (Throw ''tried to create object without at least one resource'')"
  using assms by (rule no_resources_unreadable)

theorem item_without_resource_unreadable_witness:
  "createObjectFromRow (\<lambda>_. None) (select_row (stored_row 9 (item_row_columns new_CdsItem new_item_part 5))
      (\<lambda>_. None) None)
    = Inl (Throw ''tried to create object without at least one resource'')"
proof (rule item_without_resource_unreadable)
  let ?d = "item_row_columns new_CdsItem new_item_part 5"
  have c: "stored_row 9 ?d ''object_type'' = Some (show_int 2)" "stored_row 9 ?d ''resources'' = None"
    by (simp_all add: stored_row_def item_row_columns_def item_columns_def put_location_def resource_columns_def
        common_columns_def Let_def d_size_def get_put_col new_Cds_defs new_item_part_def string_ok_encode
        sql_int_def literal_value_int [unfolded sql_int_def] string_ok_def [of None] z_eq_def)
  show "word_of_int (z_toInt (select_row (stored_row 9 ?d) (\<lambda>_. None) None col_object_type)) = OBJECT_TYPE_ITEM"
    by (simp add: c(1))
  show "\<not> string_ok (fallbackString (select_row (stored_row 9 ?d) (\<lambda>_. None) None col_resources)
      (select_row (stored_row 9 ?d) (\<lambda>_. None) None col_ref_resources))"
    by (simp add: c(2) fallbackString_def string_ok_def z_eq_def)
qed

text \<open>
  A virtual item may have a service ID of its own, which is written to its column, but what
  is read back is the service ID of the object it refers to.
\<close>

theorem own_service_id_not_read:
  "let d = item_columns ob (service_item ''S2'') (Some (service_item ''S1'')) True False [];
       row = select_row (stored_row 7 d) (\<lambda>c. if c = ''service_id'' then Some ''S1'' else None) None
   in literal_value (d_get d (Some ''service_id'')) = Some ''S2''
      \<and> map_option (\<lambda>i. i_serviceID i)
          (the_item (projr (row_item row OBJECT_TYPE_ITEM True new_CdsItem))) = Some (Some ''S1'')"
  by (rule own_service_id_lost)

text \<open>
  C21. The statements that \<open>addObject\<close> left in the insert buffer are all answered from the cache:
  when the cache dropped entries the buffer was flushed. So \<open>loadObject\<close> need not flush first.
\<close>

theorem pending_statements_cached:
  assumes "ss_cache st = Some c" "a \<notin> snd ` set (sc_idHash c)" "cds_inv ob"
    and "holds_queries st qs" "ss_insertBufferOn st"
    and "\<forall>q \<in> set qs. knows c (qid q)" "\<forall>q \<in> set queries. qid q = o_id ob"
  shows "\<exists>st' c' qs'. bind_result (insert_queries st queries) (\<lambda>st. cache_added st a ob) = Inr st'
    \<and> ss_cache st' = Some c' \<and> holds_queries st' qs' \<and> (\<forall>q \<in> set qs'. knows c' (qid q)) \<and> knows c' (o_id ob)"
proof -
  obtain st1 qs1 where s: "insert_queries st queries = Inr st1" "holds_queries st1 qs1" "ss_insertBufferOn st1"
    "ss_cache st1 = Some c" "set qs1 \<subseteq> set qs \<union> set queries"
    using insert_queries_law [OF assms(4,5), of queries] assms(1) by auto
  have "\<forall>q \<in> set qs1. qid q = o_id ob \<or> knows c (qid q)" using s(5) assms(6,7) by blast
  from cache_added_knows [OF s(4) assms(2,3) s(2,3) this] show ?thesis using s(1) by auto
qed

theorem pending_statements_cached_witness:
  "\<exists>st' c' qs'. bind_result (insert_queries empty_sql_state [''INSERT'']) (\<lambda>st. cache_added st 1 (item_at 5 ''/a''))
      = Inr st'
    \<and> ss_cache st' = Some c' \<and> holds_queries st' qs' \<and> (\<forall>q \<in> set qs'. knows c' 5) \<and> knows c' 5"
proof -
  have i: "cds_inv (item_at 5 ''/a'')" "o_id (item_at 5 ''/a'') = 5"
    by (simp_all add: item_at_def new_Cds_defs cds_inv_def d_inv_def class_type_def)
  have e: "ss_cache empty_sql_state = Some new_StorageCache" "ss_insertBufferOn empty_sql_state"
    "1 \<notin> snd ` set (sc_idHash new_StorageCache)" by (simp_all add: empty_sql_state_def new_StorageCache_def)
  have q: "\<forall>q \<in> set ([] :: string list). knows new_StorageCache 5" "\<forall>q \<in> set [''INSERT'']. 5 = o_id (item_at 5 ''/a'')"
    using i by simp_all
  from pending_statements_cached [OF e(1,3) i(1) empty_sql_state_holds e(2) q] show ?thesis using i(2) by simp
qed

text \<open>
  C22. The insert buffer loses and reorders nothing: a statement is added behind those that wait,
  and when the buffer is full all of them are executed, in order, as one transaction. It never
  holds more than 102400 bytes of statements.
\<close>

theorem insert_buffer_order:
  assumes "holds_queries st qs" "ss_insertBufferOn st"
  shows "\<exists>st'. addToInsertBuffer st q = Inr st' \<and> ss_insertBufferOn st' \<and> ss_cache st' = ss_cache st
    \<and> ss_insertBufferByteCount st' \<le> 102400
    \<and> (holds_queries st' (qs @ [q]) \<and> ss_executed st' = ss_executed st
       \<or> holds_queries st' [] \<and> ss_executed st' = ss_executed st @ [transaction (qs @ [q]) @ ''COMMIT;''])"
  using assms by (rule addToInsertBuffer_law)

theorem insert_buffer_order_witness:
  "\<exists>st'. addToInsertBuffer empty_sql_state ''INSERT'' = Inr st' \<and> ss_insertBufferByteCount st' \<le> 102400"
  using insert_buffer_order [OF empty_sql_state_holds, of "''INSERT''"] by (auto simp: empty_sql_state_def)

text \<open>
  When an object is cached again with another location, the cache still lists it under the
  old one.
\<close>

theorem moved_object_found_at_old_location:
  "bind_result (addObjectToCache empty_sql_state 1 (item_at 5 ''/a'')) (\<lambda>st.
   bind_result (addObjectToCache st 2 (item_at 5 ''/b'')) (\<lambda>st.
     Inr (map_option (\<lambda>c. (sc_getObjects c ''F/a'', sc_getObjects c ''F/b'', co_location (sc_objects c 1)))
            (ss_cache st))))
   = Inr (Some (Some [1], Some [1], Some ''F/b''))"
  by (rule stale_location)

text \<open>
  A container of the file system is looked up by its path with the prefix of a directory,
  but \<open>CacheObject::setObject\<close> records it with the prefix of a file.
\<close>

theorem directory_cached_as_file:
  assumes "o_part ob = CdsContainer p" "o_objectType ob = OBJECT_TYPE_CONTAINER" "\<not> o_virt ob"
    "o_location ob = Some l" "co_setObject c ob = Inr c'"
  shows "co_location c' = addLocationPrefix LOC_FILE_PREFIX (Some l)
    \<and> co_location c' \<noteq> addLocationPrefix LOC_DIR_PREFIX (Some l)"
  using assms by (rule cached_directory_location)

theorem directory_cached_as_file_witness:
  "\<exists>c'. co_setObject new_CacheObject (new_CdsContainer\<lparr>o_location := Some ''/music''\<rparr>) = Inr c'
    \<and> co_location c' = Some ''F/music''"
proof -
  let ?ob = "new_CdsContainer\<lparr>o_location := Some ''/music''\<rparr>"
  have "cds_inv ?ob" by (simp add: new_Cds_defs cds_inv_def d_inv_def class_type_def)
  then obtain c' where c: "co_setObject new_CacheObject ?ob = Inr c'" using co_setObject_law by blast
  have "co_location c' = addLocationPrefix LOC_FILE_PREFIX (Some ''/music'')
      \<and> co_location c' \<noteq> addLocationPrefix LOC_DIR_PREFIX (Some ''/music'')"
    by (rule directory_cached_as_file [OF _ _ _ _ c]) (simp_all add: new_Cds_defs)
  then show ?thesis using c by (simp add: addLocationPrefix_def z_append_def cstr_def)
qed

text \<open>
  C23. In every reachable state of the update manager the container that \<open>containerChanged\<close>
  does not insert again is in the set of the containers to report.
\<close>

theorem skipped_container_is_pending:
  assumes "um_reach inc now s"
  shows "finite (um_objectIDHash s)
    \<and> (um_lastContainerChanged s \<noteq> NO_OBJECT \<longrightarrow> um_lastContainerChanged s \<in> um_objectIDHash s)"
  using um_reach_inv [OF assms] by (simp add: um_inv_def)

theorem skipped_container_is_pending_witness:
  "um_lastContainerChanged (containerChanged (um_init (Timespec 0 0)) 7 1)
    \<in> um_objectIDHash (containerChanged (um_init (Timespec 0 0)) 7 1)"
proof -
  have "um_reach (\<lambda>_. Inr None) (Timespec 0 0) (containerChanged (um_init (Timespec 0 0)) 7 1)"
    by (rule um_reach.call [OF um_reach.start um_call_step.changed])
  from skipped_container_is_pending [OF this] show ?thesis
    by (simp add: containerChanged_def um_init_def haveUpdates_def um_notify_def Let_def)
qed

text \<open>
  No change is lost: after \<open>containersChanged\<close> every container of the call is in the set, or
  among those the call has still to insert once it gets the lock back; nothing else is added.
\<close>

theorem changed_containers_kept:
  assumes "um_inv s" "NO_OBJECT \<notin> set xs"
  shows "um_objectIDHash s \<union> set xs = um_objectIDHash (containersChanged s t xs p)
      \<union> (case um_calls (containersChanged s t xs p) t of None \<Rightarrow> {} | Some c \<Rightarrow> set (uc_rest c))"
  using assms by (rule containersChanged_law(2))

theorem changed_containers_kept_witness:
  "{1, 2 :: int} = um_objectIDHash (containersChanged (um_init (Timespec 0 0)) 0 [1, 2, 1] 1)"
proof -
  have "um_inv (um_init (Timespec 0 0))" "NO_OBJECT \<notin> set [1, 2, 1]" by (simp_all add: um_init_def um_inv_def)
  from changed_containers_kept [OF this, of 0 1] show ?thesis
    by (simp add: containersChanged_def containersChanged_run_def um_init_def haveUpdates_def Let_def um_notify_def
        insert_commute)
qed

text \<open>
  C24. The thread of the update manager can wait without a timeout while containers are left to
  report and no call is open: \<open>containersChanged\<close> decided about the signal before it let go of
  the lock. A further \<open>containerChanged\<close> does not wake it either.
\<close>

theorem updates_forgotten:
  assumes "\<forall>ids. \<exists>z. inc ids = Inr z"
  shows "\<exists>s. um_reach inc now s \<and> um_pc s = Um_wait \<and> (\<forall>t. um_calls s t = None)
    \<and> um_objectIDHash s = {1001..1029}
    \<and> (\<forall>x p. p \<le> um_flushPolicy s \<longrightarrow> um_pc (containerChanged s x p) = Um_wait)"
proof -
  obtain s where "um_reach inc now s" "um_pc s = Um_wait" "\<forall>t. um_calls s t = None"
    "um_objectIDHash s = {1001..1029}"
    using forgotten_updates [of inc now] assms by blast
  then show ?thesis using forgotten_not_signalled [of s] by blast
qed

theorem updates_forgotten_witness:
  "\<exists>s. um_reach (\<lambda>_. Inr None) (Timespec 0 0) s \<and> um_pc s = Um_wait \<and> um_objectIDHash s = {1001..1029}"
  using updates_forgotten [of "\<lambda>_. Inr None" "Timespec 0 0"] by blast

text \<open>
  C25. In every reachable state of the timer no pair of subscriber and parameter is subscribed
  twice, no interval is zero, and no callback was made a millisecond or more before its time, by the
  clock as \<open>notify\<close> read it for that subscriber. The clock may be set forward and back at any time.
\<close>

theorem timer_never_early:
  assumes "timer_reach now s" "ts_valid now"
  shows "timer_list_ok (tm_subscribers s)
    \<and> (\<forall>(e, t) \<in> set (tm_log s). ts_nanos (te_nextNotify e) < ts_nanos t + 1000000)"
  using timer_reach_inv [OF assms] by (auto simp: timer_inv_def due_within_def)

theorem timer_never_early_witness:
  \<comment> \<open>two subscribers, of which the first was called after 70 seconds\<close>
  "\<exists>s e. timer_reach (Timespec 0 0) s \<and> tm_log s = [(e, Timespec 70 0)] \<and> te_subscriber e = 1 \<and> tm_subscribers s \<noteq> []
     \<and> timer_list_ok (tm_subscribers s) \<and> ts_nanos (te_nextNotify e) < 70001000000"
proof -
  obtain s e where r: "timer_reach (Timespec 0 0) s" "tm_log s = [(e, Timespec 70 0)]" "tm_subscribers s \<noteq> []"
    "te_subscriber e = 1"
    using timer_run by blast
  have "ts_valid (Timespec 0 0)" by (simp add: ts_valid_def)
  from timer_never_early [OF r(1) this] r(2) have "timer_list_ok (tm_subscribers s)" "ts_nanos (te_nextNotify e) < 70001000000"
    by (simp_all add: ts_nanos_def)
  then show ?thesis using r by (intro exI [of _ s] exI [of _ e] conjI)
qed



text \<open>
  C28. The timer thread can sleep without a timeout while a subscriber waits for it and even
  after \<open>shutdown\<close>, which joins it: the threads that change the list signal without holding
  the mutex of the wait. It has no step of its own from there.
\<close>

theorem timer_lost_wakeup:
  "\<exists>s. timer_reach now s \<and> tm_subscribers s \<noteq> [] \<and> tm_shutdownFlag s \<and> \<not> (\<exists>s'. thread_step s s')"
  using lost_wakeup [of now] waiting_thread_is_stuck by blast

text \<open>
  The timer thread can dereference the null pointer \<open>getNextNotifyTime\<close> returns for an empty
  list, although it tested the list before: another thread may remove the last subscriber
  between the test and the call.
\<close>

theorem timer_null_dereference: "\<exists>s. timer_reach now s \<and> tm_pc s = Crashed"
  by (rule crash_reachable)

text \<open>
  The time \<open>getNextNotifyTime\<close> returns belongs to a subscriber and is less than a
  millisecond after the time of any other; null is returned exactly for the empty list.
\<close>

theorem next_notify_time_minimal:
  assumes "getNextNotifyTime subs = Some t"
  shows "subs \<noteq> [] \<and> (\<exists>e \<in> set subs. t = te_nextNotify e)
    \<and> (\<forall>e \<in> set subs. ts_nanos t < ts_nanos (te_nextNotify e) + 1000000)"
  using getNextNotifyTime_near [OF assms] by auto

theorem next_notify_time_minimal_witness:
  "\<exists>t. getNextNotifyTime [new_element (Timespec 0 0) 1 60 None True, new_element (Timespec 0 0) 2 5 None True]
      = Some t \<and> ts_nanos t < 5001000000"
proof -
  let ?e = "\<lambda>k i. new_element (Timespec 0 0) k i None True"
  obtain t where t: "getNextNotifyTime [?e 1 60, ?e 2 5] = Some t"
    by (cases "getNextNotifyTime [?e 1 60, ?e 2 5]") simp_all
  have "ts_nanos (te_nextNotify (?e 2 5)) = 5000000000"
    using te_update_time [of "Timespec 0 0" "\<lparr>te_subscriber = 2, te_notifyInterval = 5, te_parameter = None,
        te_once = True, te_nextNotify = Timespec 0 0\<rparr>"]
    by (simp add: new_element_def ts_valid_def ts_nanos_def)
  then show ?thesis using next_notify_time_minimal [OF t] t by auto
qed

text \<open>
  C29. A session is removed by the timer exactly when its last access lies more than its timeout
  back, which the code takes in seconds (\<open>getDeltaMillis > 1000 * timeout\<close>); the comments in
  session_manager.h at the constructor of \<open>Session\<close> and at \<open>createSession\<close> call it milliseconds,
  which it is not. The manager stays subscribed to the timer exactly while there are sessions,
  and the subscription never fails.
\<close>

theorem expired_sessions_removed:
  assumes "sm_inv self m" "ts_valid now"
  shows "\<exists>m'. sm_timerNotify self now m = Inr m' \<and> sm_inv self m'
    \<and> sm_sessions m'
        = filter (\<lambda>s. getDeltaMillis (se_last_access s) now \<le> 1000 * se_timeout s) (sm_sessions m)"
  using sm_timerNotify_law [OF assms] by (simp add: se_expired_def not_less)

definition one_session :: session_manager where
  "one_session = fst (projr (sm_createSession show_nat 1 (Timespec 0 0)
     \<lparr>sm_sessions = [], sm_accounts = None, sm_timerAdded = False, sm_timer = []\<rparr> 30))"

theorem expired_sessions_removed_witness:
  "\<exists>m'. sm_timerNotify 1 (Timespec 31 0) one_session = Inr m' \<and> sm_inv 1 m' \<and> sm_sessions m' = []"
proof -
  let ?m = "\<lparr>sm_sessions = [], sm_accounts = None, sm_timerAdded = False, sm_timer = []\<rparr>"
  have i: "sm_inv 1 ?m" "ts_valid (Timespec 0 0)" by (simp_all add: sm_inv_def ts_valid_def)
  have "\<exists>x. sm_createSession show_nat 1 (Timespec 0 0) ?m 30 = Inr x"
    by (simp add: sm_createSession_def find_session_id.simps sm_checkTimer_def addTimerSubscriber_def Let_def)
  then obtain m s where c: "sm_createSession show_nat 1 (Timespec 0 0) ?m 30 = Inr (m, s)" by auto
  have m: "one_session = m" unfolding one_session_def c by simp
  have s: "s = (new_Session (Timespec 0 0) 30)\<lparr>se_sessionID := Some (show_nat 0)\<rparr>"
    using c by (auto simp: sm_createSession_def find_session_id.simps Let_def bind_result_Inr_iff)
  have l: "sm_inv 1 one_session" "sm_sessions one_session = [s]"
    using sm_createSession_law [OF i c] by (simp_all add: m)
  have "ts_valid (Timespec 31 0)" by (simp add: ts_valid_def)
  from expired_sessions_removed [OF l(1) this] l(2) s show ?thesis
    by (auto simp: new_Session_def getDeltaMillis_def)
qed



text \<open>
  \<open>getUIUpdateIDs\<close> reports every container that changed since the last report, by its ID or
  as \<open>all\<close>, and nothing is left to report after it; null means that nothing changed.
\<close>

theorem session_reports_changes:
  assumes "se_inv s" "enumerates enum" "x \<noteq> -333"
    and "se_getUIUpdateIDs enum (se_containerChangedUI s x) = (ids, s')"
  shows "(ids = Some ''all'' \<or> (\<exists>ys. x \<in> set ys \<and> ids = toCSV ys)) \<and> ids \<noteq> None
    \<and> se_inv s' \<and> (\<forall>y. \<not> se_covers s' y)"
proof -
  note c = se_containerChangedUI_law [OF assms(1), where x = x]
  note l = se_getUIUpdateIDs_law [OF c(1) assms(2,4)]
  have x: "se_covers (se_containerChangedUI s x) x" using c(2) assms(3) .
  show ?thesis
  proof (cases "se_updateAll (se_containerChangedUI s x)")
    case True
    then have "ids = Some ''all''"
      using assms(4) by (simp add: se_getUIUpdateIDs_def se_hasUIUpdateIDs_def)
    then show ?thesis using l by simp
  next
    case False
    then have "x \<in> se_uiUpdateIDs (se_containerChangedUI s x)" using x by (simp add: se_covers_def)
    then show ?thesis using l x by metis
  qed
qed

theorem session_reports_changes_witness:
  "\<exists>ids s'. se_getUIUpdateIDs sorted_list_of_set (se_containerChangedUI (new_Session (Timespec 0 0) 30) 7) = (ids, s')
    \<and> ids \<noteq> None \<and> se_inv s'"
proof -
  have e: "enumerates sorted_list_of_set" by (simp add: enumerates_def)
  obtain ids s' where g: "se_getUIUpdateIDs sorted_list_of_set
      (se_containerChangedUI (new_Session (Timespec 0 0) 30) 7) = (ids, s')" by fastforce
  then show ?thesis using session_reports_changes [OF new_Session_inv e _ g] by simp
qed

text \<open>
  C31. A directory that is added to the list of autoscan directories gets its position as its
  scan ID, in an empty slot if there is one; the ID and the position of every
  other directory stay, and the invariant (each entry and its timer parameter know the position,
  no location twice) is kept. A location that is already there is refused.
\<close>

theorem autoscan_add:
  assumes "al_inv st l" "st_dirs st a = Some d" "fresh_dir st l a"
  shows "if al_knows st l (ad_location d)
    then al_add st l a = Inl (Throw ''Attempted to add same autoscan path twice'')
    else \<exists>k st'. al_add st l a = Inr (st', al_put l k a, int k) \<and> al_free l k \<and> (None \<in> set l \<longrightarrow> k < length l)
      \<and> al_inv st' (al_put l k a) \<and> (\<forall>b. b \<noteq> a \<longrightarrow> st_dirs st' b = st_dirs st b)"
proof (cases "al_knows st l (ad_location d)")
  case True
  then show ?thesis using al_add_dup [OF assms(1,2)] by simp
next
  case False
  from al_add_new [OF assms(1,2) False] obtain k st' where k: "al_free l k" "None \<in> set l \<longrightarrow> k < length l"
    "ad_setScanID st a (int k) = Inr st'" "al_add st l a = Inr (st', al_put l k a, int k)" by blast
  from al_put_inv [OF assms(1,2) False assms(3) k(1,3)] k show ?thesis using False by auto
qed

theorem autoscan_add_witness:
  "\<exists>k st'. al_add (new_AutoscanDirectory \<lparr>st_dirs = Map.empty, st_params = Map.empty\<rparr> 1 2
      (Some ''/m'') Timed Full True False (-1) 60 False) [] 1 = Inr (st', [Some 1], k) \<and> al_inv st' [Some 1]"
proof -
  let ?st = "new_AutoscanDirectory \<lparr>st_dirs = Map.empty, st_params = Map.empty\<rparr> 1 2
      (Some ''/m'') Timed Full True False (-1) 60 False"
  obtain d where d: "st_dirs ?st 1 = Some d" by (simp add: new_AutoscanDirectory_def)
  have f: "fresh_dir ?st [] 1" using d by (simp add: fresh_dir_def)
  show ?thesis using autoscan_add [OF al_inv_Nil d f] by (auto simp: al_put_def al_free_def)
qed

text \<open>
  Removing a directory by its object ID or its location takes a directory that has it, marks
  its scan ID as invalid and keeps the scan IDs, and so the positions, of all others.
\<close>

theorem autoscan_remove:
  assumes "al_inv st l" "al_removeByLocation st l loc = Inr (st', l', i)" "i \<noteq> INVALID_SCAN_ID"
  shows "al_inv st' l' \<and> l' = al_drop_slot l (nat i)
    \<and> (\<exists>a. l ! nat i = Some a \<and> z_eq loc (ad_location (dir_at st a)) \<and> ad_scanID (dir_at st' a) = INVALID_SCAN_ID
        \<and> (\<forall>b. b \<noteq> a \<longrightarrow> st_dirs st' b = st_dirs st b))"
proof -
  obtain r where r: "al_search st (\<lambda>d. z_eq loc (ad_location d)) l 0 = Inr r"
    "(case r of None \<Rightarrow> Inr (st, l, INVALID_SCAN_ID)
      | Some i \<Rightarrow> bind_result (al_remove_at st l i) (\<lambda>(st, l). Inr (st, l, int i))) = Inr (st', l', i)"
    using assms(2) unfolding al_removeByLocation_def bind_result_Inr_iff by blast
  obtain k where k: "r = Some k" using r(2) assms(3) by (cases r) auto
  obtain j a d where j: "k = 0 + j" "j < length l" "l ! j = Some a" "st_dirs st a = Some d" "z_eq loc (ad_location d)"
    using al_search_first r(1) unfolding k by blast
  obtain st1 where s: "al_remove_at st l k = Inr (st1, al_drop_slot l k)" "al_inv st1 (al_drop_slot l k)"
    "ad_scanID (dir_at st1 a) = INVALID_SCAN_ID" "\<forall>b. b \<noteq> a \<longrightarrow> st_dirs st1 b = st_dirs st b"
    using al_remove_at_law [OF assms(1), of k a] j(1,2,3) by auto
  have "st' = st1" "l' = al_drop_slot l k" "i = int k" using r(2) s(1) by (simp_all add: k)
  then show ?thesis using s j by auto
qed

theorem autoscan_remove_witness:
  "\<exists>st' l'. bind_result (one_directory (Some ''/m'')) (\<lambda>(st, l, _). al_removeByLocation st l (Some ''/m''))
    = Inr (st', l', 0) \<and> al_inv st' l'"
proof -
  let ?st = "new_AutoscanDirectory \<lparr>st_dirs = Map.empty, st_params = Map.empty\<rparr> 1 2
      (Some ''/m'') Timed Full True False (-1) 60 False"
  obtain d where d: "st_dirs ?st 1 = Some d" "ad_location d = Some ''/m''" by (simp add: new_AutoscanDirectory_def)
  have f: "fresh_dir ?st [] 1" using d by (simp add: fresh_dir_def)
  from al_add_new [OF al_inv_Nil d(1)] obtain k st1 where k: "al_free [] k" "ad_setScanID ?st 1 (int k) = Inr st1"
    "al_add ?st [] 1 = Inr (st1, al_put [] k 1, int k)" by auto
  have i: "al_inv st1 [Some 1]" and o: "one_directory (Some ''/m'') = Inr (st1, [Some 1], 0)"
    using al_put_inv(1) [OF al_inv_Nil d(1) _ f k(1,2)] k by (simp_all add: al_put_def al_free_def one_directory_def)
  have l: "st_dirs st1 1 = Some (d\<lparr>ad_scanID := 0\<rparr>)" using k d by (auto simp: ad_setScanID_eq al_free_def)
  have "\<exists>st' l'. al_removeByLocation st1 [Some 1] (Some ''/m'') = Inr (st', l', 0)"
    using l d(2) by (simp add: al_removeByLocation_def ad_get_Some z_eq_def al_remove_at_def ad_setScanID_eq)
  then obtain st' l' where r: "al_removeByLocation st1 [Some 1] (Some ''/m'') = Inr (st', l', 0)" by blast
  have "al_inv st' l'" by (rule conjunct1 [OF autoscan_remove [OF i r]]) simp
  then show ?thesis using o r by auto
qed

text \<open>
  Removing what lies below \<open>/media/music\<close>, with the path that the content manager passes,
  also removes the autoscan directory \<open>/media/music2\<close>.
\<close>

theorem autoscan_sibling_removed:
  "bind_result (one_directory (Some ''/media/music2'')) (\<lambda>(st, l, _).
     bind_result (al_removeIfSubdir (\<lambda>_. 7) (\<lambda>_. 8) st l (Some ''/media/music'') False)
       (\<lambda>(_, l', rm). Inr (l, l', length rm))) = Inr ([Some 1], [], 1)"
  by (rule removeIfSubdir_takes_sibling)

text \<open>
  A media object that is copied into a new object of its type, as the cache and the storage
  do, equals the original in every member \<open>equals\<close> compares.
\<close>

theorem copied_object_equal:
  assumes "cds_inv ob"
  shows "\<exists>f f'. createObject (o_objectType ob) = Inr f \<and> copyTo ob f = Inr f'
    \<and> cds_equals ob f' exactly = Inr True"
  using assms by (rule clone_via_factory)

theorem copied_object_equal_witness:
  "\<exists>f f'. createObject (o_objectType demo_file) = Inr f \<and> copyTo demo_file f = Inr f'
    \<and> cds_equals demo_file f' True = Inr True"
  by (rule copied_object_equal)
    (simp add: demo_file_def new_Cds_defs new_item_part_def cds_inv_def d_inv_def r_inv_def new_CdsResource_def
      class_type_def)

text \<open>
  The name of an object type is read back as itself for all types but \<open>internal_url\<close>, whose
  objects are written as \<open>external_url\<close>: the test for external comes first and both bits are set.
\<close>

theorem object_type_names:
  "s \<in> {''container'', ''item'', ''active_item'', ''external_url'', ''internal_url''} \<Longrightarrow>
     bind_result (remapObjectType (Some s)) mapObjectType
       = Inr (Some (if s = ''internal_url'' then ''external_url'' else s))"
  using mapObjectType_remap [of s] mapObjectType_internal by auto

theorem object_type_names_witness:
  "bind_result (remapObjectType (Some ''internal_url'')) mapObjectType = Inr (Some ''external_url'')"
  using object_type_names [of "''internal_url''"] by simp

text \<open>
  C32. The textual form of a dictionary is decoded to the dictionary, in the same order,
  whatever characters its keys and values consist of.
\<close>

theorem dictionary_round_trip:
  assumes "d_inv d" "d_plain d"
  shows "d_decode [] (d_encode d) = d"
  using assms by (rule d_decode_encode)

theorem dictionary_round_trip_witness:
  "d_decode [] (d_encode [(Some ''a&b'', Some ''=''), (Some '''', Some ''%'')]) = [(Some ''a&b'', Some ''=''), (Some '''', Some ''%'')]"
  by (rule dictionary_round_trip) (simp_all add: d_inv_def d_plain_def z_key_def cstr_def)

text \<open>
  C33. After \<open>merge\<close> a key has the value the other dictionary gives it last, and the value it had
  before when the other dictionary does not mention it.
\<close>

theorem dictionary_merge:
  assumes "d_inv d"
  shows "d_inv (d_merge d (Some e)) \<and> d_get (d_merge d (Some e)) k =
    (case List.find (\<lambda>(k', v). z_eq k' k) (rev e) of
       None \<Rightarrow> d_get d k | Some (k', v) \<Rightarrow> v)"
  using assms by (rule d_get_merge)

theorem dictionary_merge_witness:
  "d_get (d_merge [(Some ''a'', Some ''1'')] (Some [(Some ''b'', Some ''2''), (Some ''a'', Some ''3'')])) (Some ''a'')
    = Some ''3''"
  using dictionary_merge [of "[(Some ''a'', Some ''1'')]" "[(Some ''b'', Some ''2''), (Some ''a'', Some ''3'')]" "Some ''a''"]
  by (simp add: d_inv_def z_key_def z_eq_def cstr_def)


text \<open>
  C34. The ring buffer is a queue for every start capacity greater than zero: any number of elements
  put into it is taken out in the same order, however often it grew or wrapped around in between.
\<close>

theorem ring_buffer_is_fifo:
  assumes "bq_inv q"
  shows "\<exists>q' q''. bqueue.enq_all q xs = Inr q'
    \<and> bqueue.deq_many q' (length (bq_list q) + length xs) = Inr (bq_list q @ xs, q'') \<and> bq_list q'' = []"
  using assms by (rule bqueue.fifo_order)

theorem ring_buffer_is_fifo_witness:
  "\<exists>q' q''. bqueue.enq_all (bq_init 2 0) [1, 2, 3 :: int] = Inr q' \<and> bqueue.deq_many q' 3 = Inr ([1, 2, 3], q'')"
proof -
  have "bq_inv (bq_init 2 (0 :: int)) \<and> bq_list (bq_init 2 (0 :: int)) = []" by (rule bq_inv_init) simp
  then show ?thesis using ring_buffer_is_fifo [of "bq_init 2 (0 :: int)" "[1, 2, 3]"] by (auto simp: eval_nat_numeral)
qed

text \<open>
  C35. An array of objects owns one reference for each of its entries: after a removal in its
  middle every count is again the number of owners; an object is in the heap exactly when it has an
  owner, so those that no one else owns are deleted and the others are not; and no entry that stays is
  touched.
\<close>

theorem object_array_remove:
  assumes "ba_inv a" "counts_owners h (E + owners (ba_list a))" "i + n \<le> length (ba_list a)" "0 < n"
  shows "\<exists>h' a'. oa_remove h a (int i) (int n) = Inr (h', a') \<and> ba_inv a'
    \<and> ba_list a' = take i (ba_list a) @ drop (i + n) (ba_list a)
    \<and> counts_owners h' (E + owners (ba_list a'))
    \<and> (\<forall>x. h' x = None \<longleftrightarrow> x \<notin># E + owners (ba_list a'))"
proof -
  from oa_remove_law [OF assms] obtain h' a' where *: "oa_remove h a (int i) (int n) = Inr (h', a')" "ba_inv a'"
    "ba_list a' = take i (ba_list a) @ drop (i + n) (ba_list a)" "counts_owners h' (E + owners (ba_list a'))"
    by blast
  have "h' x = None \<longleftrightarrow> x \<notin># E + owners (ba_list a')" for x
    using counts_owners_living [OF *(4), of x] by (cases "h' x") (simp_all add: alive_def)
  then show ?thesis using * by blast
qed

theorem object_array_remove_witness:
  \<comment> \<open>three objects of which the second is held elsewhere; the first two are removed\<close>
  "\<exists>h' a'. oa_remove [1 \<mapsto> 1, 2 \<mapsto> 2, 3 \<mapsto> 1]
       \<lparr>ba_arr = [Some (Some 1), Some (Some 2), Some (Some 3), None], ba_siz = 3, ba_capacity = 4\<rparr> 0 2 = Inr (h', a')
    \<and> ba_list a' = [Some 3] \<and> h' 1 = None \<and> h' 2 = Some 1 \<and> h' 3 = Some (1 :: nat)"
proof -
  let ?h = "[1 \<mapsto> 1, 2 \<mapsto> 2, 3 \<mapsto> 1] :: heap"
  let ?a = "\<lparr>ba_arr = [Some (Some 1), Some (Some 2), Some (Some 3), None], ba_siz = 3, ba_capacity = 4\<rparr> :: object_array"
  have l: "ba_list ?a = [Some 1, Some 2, Some 3]" "ba_inv ?a"
    by (simp_all add: ba_list_def ba_inv_def numeral_3_eq_3)
  have own: "owners (ba_list ?a) = {#1, 2, 3#}" unfolding l(1) by simp
  have "counts_owners ?h ({#2#} + owners (ba_list ?a))" unfolding own by (simp add: counts_owners_def)
  from object_array_remove [OF l(2) this, of 0 2] l(1) show ?thesis
    by (auto simp: counts_owners_def)
qed

text \<open>
  \<open>unescape\<close> undoes \<open>escape\<close> for every character that is escaped besides the
  backslash.
\<close>

theorem escape_round_trip:
  assumes "nul_free s" "c \<noteq> NUL"
  shows "bind_result (escape (Some s) (CHR 0x5C) c) (\<lambda>t. unescape t (CHR 0x5C)) = Inr (Some s)"
  using assms by (rule unescape_escape)

theorem escape_round_trip_witness:
  "bind_result (escape (Some ''/a/b'') (CHR 0x5C) (CHR ''/'')) (\<lambda>t. unescape t (CHR 0x5C)) = Inr (Some ''/a/b'')"
  by (rule escape_round_trip) simp_all

text \<open>
  C36. A duration of less than a thousand hours is read back from its text form
  \<open>H:MM:SS\<close>; writing it stays inside the ten bytes of its buffer.
\<close>

theorem duration_round_trip:
  assumes "0 \<le> n" "n < 3600000"
  shows "\<exists>t. secondsToHMS n = Inr t \<and> HMSToSeconds (Some t) = n"
  using assms by (rule HMS_round_trip)

theorem duration_round_trip_witness:
  "\<exists>t. secondsToHMS 3599999 = Inr t \<and> HMSToSeconds (Some t) = 3599999"
  by (rule duration_round_trip) simp_all


text \<open>
  C37. For every interleaving of the client and the thread, with memory copied outside the lock, the
  bytes the client of a \<open>BufferedIOHandler\<close> read so far, followed by those in the ring, are the bytes the
  underlying handler delivered, in their order: none is lost, doubled or overwritten. After \<open>close\<close>,
  which frees the ring, the bytes read are a prefix of those delivered.
  Neither side touches memory outside the block or reads a byte that was not written.
\<close>

theorem buffered_reader_in_order:
  assumes "new_BufferedIOHandler bufSize maxChunkSize initialFillSize = Inr s0" "bufSize < 2 ^ 31"
    and "buffered_reach s0 s"
  shows "(if bh_client s = Closed then \<exists>unread. bi_obtained s = bh_delivered s @ unread
      else bi_obtained s = bh_delivered s @ ring_contents s)
    \<and> bh_client s \<noteq> Failed \<and> bi_pc s \<noteq> B_failed"
proof -
  from buffered.reach_law [of s0 s] new_BufferedIOHandler_law [OF assms(1,2)] assms(3)
  consider (running) C where "bh_inv s C" "buffered_ok s C" "bi_obtained s = bh_delivered s @ C"
    | (closed) C where "bh_client s = Closed" "buffered_ended s" "bi_obtained s = bh_delivered s @ C" by auto
  then show ?thesis
  proof cases
    case running
    then have "ring_contents s = C" by (intro ring_holds_contents) (simp add: bh_inv_def)
    then show ?thesis using running by (auto simp: bh_inv_def client_ok_def buffered_ok_def)
  next
    case closed
    then show ?thesis by (auto simp: buffered_ended_def)
  qed
qed

theorem buffered_reader_in_order_witness:
  \<comment> \<open>the thread delivered two bytes, the client has read one\<close>
  "\<exists>s0 s. new_BufferedIOHandler 4 2 1 = Inr s0 \<and> buffered_reach s0 s \<and> bh_delivered s = ''a''
     \<and> ring_contents s = ''b'' \<and> bi_obtained s = ''ab''"
proof -
  obtain s0 s where r: "new_BufferedIOHandler 4 2 1 = Inr s0" "buffered_reach s0 s" "bh_client s = Idle"
    "bh_delivered s = ''a''" "ring_contents s = ''b''"
    using buffered_run by blast
  from buffered_reader_in_order [OF r(1) _ r(2)] r(3-5) have "bi_obtained s = ''ab''" by simp
  then show ?thesis using r by blast
qed

text \<open>
  C38. Whenever the client of a \<open>BufferedIOHandler\<close> waits in \<open>read\<close>, or in \<open>close\<close> for a thread
  that has not ended, the thread can take a step: the two never wait for each other, and no
  wake-up is lost.
\<close>

theorem buffered_never_stuck:
  assumes "new_BufferedIOHandler bufSize maxChunkSize initialFillSize = Inr s0" "bufSize < 2 ^ 31"
    and "buffered_reach s0 s" "bh_client s = In_wait (Read n) \<or> bh_client s = Joining \<and> \<not> buffered_ended s"
  shows "\<exists>s'. buffered_step s s'"
proof -
  obtain C where "bh_inv s C" "buffered_ok s C"
    using buffered.reach_law [of s0 s] new_BufferedIOHandler_law [OF assms(1,2)] assms(3,4) by auto
  then show ?thesis using buffered_thread_can_run buffered_reach_waits [OF assms(1-3)] assms(4) by blast
qed

theorem buffered_never_stuck_witness:
  "\<exists>s0 s'. new_BufferedIOHandler 4 2 1 = Inr s0
    \<and> buffered_step (wake_thread (s0\<lparr>bh_isOpen := False, bh_threadShutdown := True, bh_client := Joining\<rparr>)) s'"
proof -
  obtain s0 where s0: "new_BufferedIOHandler 4 2 1 = Inr s0"
    by (auto simp: new_BufferedIOHandler_def new_buffer_def)
  have f: "bh_client s0 = Idle" "bh_isOpen s0" "\<not> buffered_ended s0"
    using s0 by (auto simp: new_BufferedIOHandler_def new_buffer_def buffer_helper.extend_def buffered_ended_def)
  have "buffered_reach s0 (wake_thread (s0\<lparr>bh_isOpen := False, bh_threadShutdown := True, bh_client := Joining\<rparr>))"
    by (rule buffer_reach.client [OF buffer_reach.start read_step.close [OF f(1,2)]])
  from buffered_never_stuck [OF s0 _ this] f(3) s0 show ?thesis
    by (simp add: wake_thread_def buffered_ended_def)
qed

text \<open>
  The same order of the bytes for a \<open>CurlIOHandler\<close>, whose callback takes the bytes as curl
  hands them over and waits until all of them fit, as long as the client does not seek.
\<close>

theorem curl_reader_in_order:
  assumes "new_CurlIOHandler URL bufSize initialFillSize = Inr s0" "bufSize < 2 ^ 31" "curl_reach s0 s"
  shows "(\<exists>unread. ci_obtained s = bh_delivered s @ unread) \<and> bh_client s \<noteq> Failed \<and> ci_pc s \<noteq> C_failed"
proof -
  from curl.reach_law [of s0 s] new_CurlIOHandler_law [OF assms(1,2)] assms(3)
  consider (running) C where "bh_inv s C" "curl_ok s C" "ci_obtained s = bh_delivered s @ C"
    | (closed) C where "bh_client s = Closed" "curl_ended s" "ci_obtained s = bh_delivered s @ C" by auto
  then show ?thesis
  proof cases
    case running
    then show ?thesis by (auto simp: bh_inv_def client_ok_def curl_ok_def)
  next
    case closed
    then show ?thesis by (auto simp: curl_ended_def)
  qed
qed

theorem curl_reader_in_order_witness:
  "\<exists>s0. new_CurlIOHandler (Some ''http://a'') 20000 0 = Inr s0 \<and> ci_pc s0 \<noteq> C_failed"
proof -
  obtain s0 where s0: "new_CurlIOHandler (Some ''http://a'') 20000 0 = Inr s0"
    by (auto simp: new_CurlIOHandler_def new_buffer_def string_ok_def z_eq_def)
  from curl_reader_in_order [OF s0 _ buffer_reach.start] s0 show ?thesis by simp
qed

text \<open>
  The thread of a \<open>CurlIOHandler\<close> sends its last wake-up without the mutex: a client that found
  the buffer empty just before misses it and waits for ever, although the end of the transfer is
  recorded.
\<close>

theorem curl_end_not_noticed:
  assumes "new_CurlIOHandler URL bufSize 0 = Inr s0"
  shows "\<exists>s. curl_reach s0 s \<and> bh_client s = In_wait (Read 1) \<and> bh_eof s
    \<and> \<not> (\<exists>s'. curl_step s s' \<or> read_step s s')"
  using assms by (rule curl_end_missed)

theorem curl_end_not_noticed_witness:
  "\<exists>s0 s. new_CurlIOHandler (Some ''http://a'') 20000 0 = Inr s0 \<and> curl_reach s0 s
    \<and> bh_client s = In_wait (Read 1) \<and> bh_eof s"
proof -
  obtain s0 where s0: "new_CurlIOHandler (Some ''http://a'') 20000 0 = Inr s0"
    by (auto simp: new_CurlIOHandler_def new_buffer_def string_ok_def z_eq_def)
  from curl_end_not_noticed [OF s0] s0 show ?thesis by auto
qed

text \<open>
  With an initial fill that is close to the size of the buffer, the client of a
  \<open>CurlIOHandler\<close> waits for the fill while the callback waits for room: both for ever.
\<close>

theorem curl_both_wait:
  assumes "new_CurlIOHandler URL CURL_MAX_WRITE_SIZE initialFillSize = Inr s0" "1 < initialFillSize"
  shows "\<exists>s. curl_reach s0 s \<and> bh_client s = In_wait (Read 1) \<and> bh_asleep s \<and> \<not> stops_waiting s
    \<and> \<not> (\<exists>s'. curl_step s s' \<or> read_step s s')"
  using assms by (rule curl_fill_deadlock)

theorem curl_both_wait_witness:
  "\<exists>s0 s. new_CurlIOHandler (Some ''http://a'') CURL_MAX_WRITE_SIZE 2 = Inr s0 \<and> curl_reach s0 s
    \<and> bh_client s = In_wait (Read 1) \<and> bh_asleep s"
proof -
  obtain s0 where s0: "new_CurlIOHandler (Some ''http://a'') CURL_MAX_WRITE_SIZE 2 = Inr s0"
    by (auto simp: new_CurlIOHandler_def new_buffer_def string_ok_def z_eq_def)
  have "1 < (2 :: nat)" by simp
  from curl_both_wait [OF s0 this] s0 show ?thesis by auto
qed

text \<open>
  A seek back to a position that lies before the start of the memory block counts as one inside
  the buffer, and the \<open>read\<close> after it uses an offset outside the block.
\<close>

theorem backward_seek_leaves_block:
  fixes s :: "'x buffer_helper_scheme"
  assumes "ring_holds s C" "C \<noteq> []" "bh_seekEnabled s" "bh_isOpen s" "0 \<le> offset"
    and "offset + int (bh_a s) < bh_posRead s" "bh_posRead s < 2 ^ 31" "0 < n"
  shows "\<exists>s1. seek_call offset SEEK_SET s = Inr s1
    \<and> \<not> bh_doSeek (seek_in_buffer s1) \<and> read_copy n (bh_b (seek_in_buffer s1)) (seek_in_buffer s1) = Inl Abort"
  using assms by (rule backward_seek_faults)

definition two_unread :: buffer_helper where
  \<comment> \<open>after two bytes were read and two more arrived at the start of the block\<close>
  "two_unread = \<lparr>bh_bufSize = 4, bh_initialFillSize = 0, bh_buffer = map Some ''cdab'', bh_isOpen = True,
     bh_eof = False, bh_readError = False, bh_waitForInitialFillSize = False, bh_signalAfterEveryRead = True,
     bh_checkSocket = False, bh_empty = False, bh_a = 0, bh_b = 2, bh_posRead = 2, bh_seekEnabled = True,
     bh_doSeek = False, bh_seekOffset = 0, bh_seekWhence = SEEK_SET, bh_threadShutdown = False,
     bh_asleep = False, bh_client = Idle, bh_returned = Some 2, bh_delivered = ''ab''\<rparr>"

theorem backward_seek_leaves_block_witness:
  "\<exists>s1. seek_call 1 SEEK_SET two_unread = Inr s1 \<and> read_copy 1 (bh_b (seek_in_buffer s1)) (seek_in_buffer s1) = Inl Abort"
proof -
  have "ring_holds two_unread ''cd''"
    by (auto simp: ring_holds_def two_unread_def less_Suc_eq)
  from backward_seek_leaves_block [OF this, of 1 1] show ?thesis by (auto simp: two_unread_def)
qed

section \<open>Properties of the tables\<close>

definition empty_sql :: sql_state where
  \<comment> \<open>without a cache and without buffering\<close>
  "empty_sql = \<lparr>ss_cache = None, ss_insertBufferOn = False, ss_insertBufferEmpty = True,
     ss_insertBufferStatementCount = 0, ss_insertBufferByteCount = 0, ss_insertBuffer = None, ss_executed = []\<rparr>"

definition table_of :: "table_row list \<Rightarrow> store" where
  "table_of rows = \<lparr>st_rows = rows, st_pending = [], st_active = (\<lambda>_. None), st_autoscans = [],
     st_lastID = 10, st_sql = empty_sql, st_fresh = 0,
     st_fsRootName = None, st_settings = Map.empty\<rparr>"

definition row_with :: "(string \<times> string) list \<Rightarrow> table_row" where
  "row_with cols = map_of cols"

text \<open>
  C9. \<open>addContainerChain\<close> of a path of titles does what the abstract operation does on a map from
  paths to IDs: it takes the longest part of the path that exists and gives the containers below it
  the next IDs, so no path ever gets a second container. Titles and parents keep matching the paths.
\<close>

theorem container_chain_refines:
  assumes "chain_ok ts" "lastRefID \<le> 0" "plain_pending st" "CDS_ID_FS_ROOT \<le> st_lastID st"
    "st_lastID st + int (length ts) < 2 ^ 31" "titles_match st"
  shows "\<exists>i upd' st'. addContainerChain (Some (chain_path ts)) lastClass lastRefID upd st = (Inr (i, upd'), st')
    \<and> chain_spec (rev ts) (virtual_map st) = (i, virtual_map st')
    \<and> plain_pending st' \<and> titles_match st' \<and> (ts \<noteq> [] \<longrightarrow> virtual_at st' (vpath ts) = Some i)"
  using assms by (rule addContainerChain_chain)

theorem container_chain_refines_witness:
  "\<exists>i upd' st'. addContainerChain (Some (chain_path [''Audio'', ''AC/DC'', ''Back''])) None INVALID_OBJECT_ID None (table_of [])
      = (Inr (i, upd'), st') \<and> virtual_at st' (vpath [''Audio'', ''AC/DC'', ''Back'']) = Some i"
proof -
  have "chain_ok [''Audio'', ''AC/DC'', ''Back'']" "plain_pending (table_of [])" "titles_match (table_of [])"
    by (auto simp: chain_ok_def title_ok_def nul_free_def plain_pending_def titles_match_def table_of_def)
  from container_chain_refines [OF this(1) _ this(2) _ _ this(3), of INVALID_OBJECT_ID None None]
  show ?thesis by (auto simp: table_of_def)
qed

text \<open>
  A title that ends with the separator is not kept apart from the title behind it: the two
  paths name the same container, whatever the table holds.
\<close>

theorem separator_titles_merge:
  assumes "\<forall>t \<in> set ts. nul_free t" "nul_free t" "nul_free u" "u \<noteq> []"
  shows "addContainerChain (Some (vpath (ts @ [t @ ''/'', u]))) cls ref upd st
    = addContainerChain (Some (vpath (ts @ [t @ ''/'' @ u]))) cls ref upd st"
  using assms by (rule separator_title_merged)

theorem separator_titles_merge_witness:
  "addContainerChain (Some (vpath [''Artists'', ''AC/'', ''DC''])) None INVALID_OBJECT_ID None (table_of [])
    = addContainerChain (Some (vpath [''Artists'', ''AC/DC''])) None INVALID_OBJECT_ID None (table_of [])"
  using separator_titles_merge [of "[''Artists'']" "''AC''" "''DC''"] by (simp add: nul_free_def)

text \<open>
  C19. A container that was just created is loaded with the title, path, parent and class it was
  created with, whatever bytes they hold, in a store without a cache in which no autoscan names the ID
  it gets.
\<close>

theorem new_container_round_trip:
  assumes "nul_free title" "nul_free path" "- (2 ^ 31) \<le> parent" "parent < 2 ^ 31"
    and "CDS_ID_FS_ROOT \<le> st_lastID st" "st_lastID st + 1 < 2 ^ 31"
    and "ids_below st" "ss_cache (st_sql st) = None"
    and "\<forall>a \<in> set (st_autoscans st). a ''obj_id'' \<noteq> Some (show_int (st_lastID st + 1))"
  shows "\<exists>st' st''. createContainer parent (Some title) (Some path) isVirtual cls INVALID_OBJECT_ID st
      = (Inr (st_lastID st + 1), st')
    \<and> loadObject (st_lastID st + 1) st' = (Inr (loaded_container (st_lastID st + 1) parent title path isVirtual cls), st'')"
  using assms by (rule created_container_found)

theorem new_container_round_trip_witness:
  "\<exists>st' st''. createContainer 0 (Some [CHR 0x27]) (Some (CHR ''/'' # [CHR 0x27])) True None INVALID_OBJECT_ID (table_of [])
      = (Inr 11, st')
    \<and> loadObject 11 st' = (Inr (loaded_container 11 0 [CHR 0x27] (CHR ''/'' # [CHR 0x27]) True None), st'')"
proof -
  have "nul_free [CHR 0x27]" "nul_free (CHR ''/'' # [CHR 0x27])" "ids_below (table_of [])"
    by (simp_all add: nul_free_def ids_below_def table_of_def table_def)
  from new_container_round_trip [OF this(1,2) _ _ _ _ this(3), of 0 True None]
  show ?thesis by (simp add: table_of_def empty_sql_def)
qed

text \<open>
  C17. \<open>browse\<close> of a container reports as many matches as it has children of the kinds asked for,
  counts the ones in the insert buffer, and returns the requested page of them in the order of the
  query.
\<close>

theorem browse_lists_children:
  assumes "p = \<lparr>bp_flags = f, bp_objectID = i, bp_startingIndex = start, bp_requestedCount = cnt\<rparr>"
    and "bp_getFlag p BROWSE_DIRECT_CHILDREN"
    and "cs = bp_getFlag p BROWSE_CONTAINERS" "its = bp_getFlag p BROWSE_ITEMS" "h = bp_getFlag p BROWSE_HIDE_FS_ROOT"
    and "cs \<or> its"
    and "st_pending (flush st) = []"
    and "find (with_id i) (table st) = Some r" "is_container_row r"
    and "cache_right st i"
    and "\<And>a b rows. mset (order a b rows) = mset rows"
    and "\<forall>r \<in> set (table st). listed_child i cs its h r \<longrightarrow> readable (flush st) r"
  shows "\<exists>arr st'. browse order p st
      = (Inr (arr, int (length (filter (listed_child i cs its h) (table st)))), st')
    \<and> map o_id arr = map row_id (limit_offset cnt start
        (order (cs \<and> its) (bp_getFlag p BROWSE_TRACK_SORT) (filter (listed_child i cs its h) (table st))))"
  using browse_children [OF assms] mset_eq_length [OF assms(11)] by simp

theorem browse_lists_children_witness:
  "\<exists>arr st'. browse (\<lambda>_ _ rows. rows) (new_BrowseParam 5 (BROWSE_DIRECT_CHILDREN OR BROWSE_CONTAINERS OR BROWSE_ITEMS))
     (table_of [container_row 5 0 (Some ''Audio'') (Some ''V/Audio'') None (- 333),
       container_row 6 5 (Some ''All'') (Some ''V/Audio/All'') None (- 333)]) = (Inr (arr, 1), st') \<and> map o_id arr = [6]"
proof -
  let ?a = "container_row 5 0 (Some ''Audio'') (Some ''V/Audio'') None (- 333)"
  let ?b = "container_row 6 5 (Some ''All'') (Some ''V/Audio/All'') None (- 333)"
  let ?st = "table_of [?a, ?b]"
  let ?p = "new_BrowseParam 5 (BROWSE_DIRECT_CHILDREN OR BROWSE_CONTAINERS OR BROWSE_ITEMS)"
  have fl: "flush ?st = ?st" by (simp add: flush_def set_sql_def table_of_def empty_sql_def flushInsertBuffer_def)
  have t: "table ?st = [?a, ?b]" by (simp add: table_def table_of_def)
  have n: "show_int 5 \<noteq> show_int 6" "show_int 5 \<noteq> show_int 0" using show_int_inj by fastforce+
  have id: "with_id 5 ?a" "is_container_row ?a" "child_of 5 ?b" "\<not> child_of 5 ?a"
    using n by (simp_all add: with_id_def is_container_row_def child_of_def col_is_def container_row_cols sql_uint_int)
  have ch: "listed_child 5 True True False ?b" "\<not> listed_child 5 True True False ?a"
    using id by (simp_all add: listed_child_def)
  have j: "joined_row ?st ?b = select_row ?b (\<lambda>_. None) None"
    by (simp add: joined_row_def table_of_def container_row_cols)
  have "nul_free ''All''" "nul_free ''/Audio/All''" by (simp_all add: nul_free_def)
  from read_container [OF this, of 5 6 "\<lambda>_. None" True None]
  have rd: "readable ?st ?b" unfolding readable_def j by (simp add: table_of_def)
  have ri: "row_id ?b = 6" by (rule container_row_id) simp_all
  have "\<exists>arr st'. browse (\<lambda>_ _ rows. rows) ?p ?st
      = (Inr (arr, int (length (filter (listed_child 5 True True False) (table ?st)))), st')
    \<and> map o_id arr = map row_id (limit_offset 0 0 (filter (listed_child 5 True True False) (table ?st)))"
    by (rule browse_lists_children [where f = "BROWSE_DIRECT_CHILDREN OR BROWSE_CONTAINERS OR BROWSE_ITEMS" and r = ?a])
      (use fl t id ch rd in \<open>auto simp: new_BrowseParam_def bp_getFlag_def cache_right_def cached_def table_of_def empty_sql_def\<close>)
  then show ?thesis unfolding t using ch ri by (simp add: limit_offset_def)
qed

text \<open>
  C18. Adding an autoscan directory keeps the autoscans apart: no directory is scanned twice, and none
  lies below one that is scanned recursively, as long as parents have smaller IDs than their children.
\<close>

theorem autoscans_never_overlap:
  assumes "addAutoscanDirectory adir st = (Inr adir', st')"
    and "scans_ok st" "parents_first st" "st_pending st = []"
    and "i = ad_objectID adir" "0 < i" "i < 2 ^ 31"
    and "if z_eq (ad_location adir) (Some ''/'') then i = CDS_ID_FS_ROOT
      else fst (findObjectIDByPath (z_append_char (ad_location adir) DIR_SEPARATOR) st) = Inr i"
  shows "scans_ok st' \<and> parents_first st'"
  using assms by (rule addAutoscanDirectory_keeps)

definition root_scan :: autoscan_directory where
  "root_scan = \<lparr>ad_location = Some ''/'', ad_mode = Timed, ad_level = Full, ad_recursive = True,
     ad_hidden = False, ad_persistent = True, ad_interval = 60, ad_taskCount = 0, ad_scanID = 0, ad_objectID = 1,
     ad_storageID = - 333, ad_last_mod_previous_scan = 0, ad_last_mod_current_scan = 0, ad_timer_parameter = 0\<rparr>"

theorem autoscans_never_overlap_witness:
  "\<exists>adir' st'. addAutoscanDirectory root_scan (table_of []) = (Inr adir', st') \<and> scans_ok st'"
proof -
  have "path_ids (table_of []) 1 [] = Some [1]" by (simp add: path_ids_step parent_of_def table_of_def)
  then have "\<exists>adir' st'. addAutoscanDirectory root_scan (table_of []) = (Inr adir', st')"
    by (simp add: addAutoscanDirectory_def checkOverlappingAutoscans_def root_scan_def Let_def table_of_def
        getPathIDs_def autoscanChangePersistentFlag_def flush_def set_sql_def empty_sql_def flushInsertBuffer_def z_eq_def
        and_then_def look_def change_def rows_where_def)
  then obtain adir' st' where r: "addAutoscanDirectory root_scan (table_of []) = (Inr adir', st')" by blast
  have "scans_ok st' \<and> parents_first st'"
    by (rule autoscans_never_overlap [OF r])
      (simp_all add: scans_ok_def parents_first_def parent_of_def table_of_def root_scan_def z_eq_def cstr_def)
  then show ?thesis using r by blast
qed

text \<open>
  C39. The loop of \<open>getPathIDs\<close> ends for every object when the parents have smaller IDs, as
  \<open>getNextID\<close> gives them, and returns the IDs from the object up to below the root.
\<close>

theorem path_to_root_ends:
  assumes "parents_first st" "0 \<le> i"
  shows "\<exists>ps. path_ids st i acc = Some (acc @ ps) \<and> is_path st i ps \<and> sorted_wrt (>) ps \<and> (\<forall>p \<in> set ps. 0 < p \<and> p \<le> i)"
  using assms by (rule path_ids_ends)

theorem path_to_root_ends_witness:
  "\<exists>ps. path_ids (table_of [row_with [(''id'', ''1''), (''parent_id'', ''0'')], row_with [(''id'', ''5''), (''parent_id'', ''1'')]]) 5 []
     = Some ps \<and> sorted_wrt (>) ps"
proof -
  let ?a = "row_with [(''id'', ''1''), (''parent_id'', ''0'')]" and ?b = "row_with [(''id'', ''5''), (''parent_id'', ''1'')]"
  have num: "z_toInt (Some ''0'') = 0" "z_toInt (Some ''1'') = 1" by code_simp+
  have "z_toInt (x ''parent_id'') < z_toInt (x ''id'') \<and> 0 \<le> z_toInt (x ''parent_id'')"
    if "x = ?a \<or> x = ?b" for x
  proof -
    have "z_toInt (Some ''5'') = 5" by code_simp
    then show ?thesis using that num by (auto simp: row_with_def)
  qed
  note less = this
  have "parents_first (table_of [?a, ?b])"
    unfolding parents_first_def
  proof (intro allI impI)
    fix i q assume q: "0 < i" "parent_of (table_of [?a, ?b]) i = Some q"
    then obtain x where x: "find (with_id i) [?a, ?b] = Some x" "q = z_toInt (x ''parent_id'')"
      by (auto simp: parent_of_def table_of_def)
    then have "x = ?a \<or> x = ?b" "with_id i x" by (auto split: if_splits)
    moreover have "z_toInt (x ''id'') = i \<or> \<not> i < 2 ^ 31"
      using \<open>with_id i x\<close> q(1) by (auto simp: with_id_def col_is_def)
    moreover have "i < 2 ^ 31"
    proof (rule ccontr)
      assume "\<not> i < 2 ^ 31"
      moreover have "show_int i \<in> {''1'', ''5''}" using \<open>with_id i x\<close> \<open>x = ?a \<or> x = ?b\<close>
        by (auto simp: with_id_def col_is_def row_with_def)
      moreover have "show_int 1 = ''1''" "show_int 5 = ''5''" by code_simp+
      ultimately have "i = 1 \<or> i = 5" using show_int_inj [of i 1] show_int_inj [of i 5] by fastforce
      then show False using \<open>\<not> i < 2 ^ 31\<close> by auto
    qed
    ultimately show "0 \<le> q \<and> q < i" using less x(2) by auto
  qed
  from path_to_root_ends [OF this, of 5 "[]"] show ?thesis by auto
qed

text \<open>
  A cycle through the object with ID -1, which the tables of a new database contain, never ends.
\<close>

theorem path_of_cycle_never_ends:
  assumes "parent_of st (- 1) = Some (- 1)"
  shows "path_ids st (- 1) acc = None"
  using assms by (rule cycle_does_not_end)

text \<open>
  C16. Removing containers, with or without items given beside them, takes away exactly the containers,
  everything that hangs below them at any depth, and every reference to an item that goes.
\<close>

theorem removal_exact:
  assumes "tidy (st_rows st)" "\<forall>r \<in> set (st_rows st). row_text r \<in> set C \<longrightarrow> is_cont r" "C \<noteq> []"
    and "level (st_rows st) C m = {}" "m \<le> MAX_REMOVE_RECURSION"
  shows "\<exists>out st'. recursiveRemove I C False st = (Inr out, st')
    \<and> st_rows st' = filter (\<lambda>r. \<not> doomed (st_rows st) I C r) (st_rows st)"
  using assms by (rule removes_containers)

definition demo_rows :: "table_row list" where
  \<comment> \<open>a container with an item, a reference to that item elsewhere, and an item of its own\<close>
  "demo_rows = map row_with
     [[(''id'', ''5''), (''parent_id'', ''0''), (''object_type'', ''1'')],
      [(''id'', ''6''), (''parent_id'', ''5''), (''object_type'', ''2'')],
      [(''id'', ''7''), (''parent_id'', ''3''), (''object_type'', ''2''), (''ref_id'', ''6'')],
      [(''id'', ''8''), (''parent_id'', ''3''), (''object_type'', ''2'')]]"

lemma demo_rows_ok:
  "tidy demo_rows" "\<forall>r \<in> set demo_rows. row_text r \<in> set [''5''] \<longrightarrow> is_cont r" "level demo_rows [''5''] 1 = {}"
proof -
  have "z_toInt (Some ''1'') = 1" "z_toInt (Some ''2'') = 2" by code_simp+
  then show "tidy demo_rows" "\<forall>r \<in> set demo_rows. row_text r \<in> set [''5''] \<longrightarrow> is_cont r" "level demo_rows [''5''] 1 = {}"
    by (auto simp: tidy_def demo_rows_def row_with_def col_text_def is_cont_def row_type_def IS_CDS_defs)
qed

theorem removal_exact_witness:
  "\<exists>out st'. recursiveRemove [] [''5''] False (table_of demo_rows) = (Inr out, st')
    \<and> st_rows st' = filter (\<lambda>r. \<not> doomed demo_rows [] [''5''] r) demo_rows"
  using removal_exact [of "table_of demo_rows" "[''5'']" 1 "[]"] demo_rows_ok by (simp add: table_of_def)

text \<open>
  C40. An item that is removed in one call together with a container stays in the table, unless it
  lies below that container: the query for the parents of the containers empties the buffer the item
  was in.
\<close>

theorem item_beside_container_stays:
  assumes "tidy (st_rows st)" "\<forall>r \<in> set (st_rows st). row_text r \<in> set C \<longrightarrow> is_cont r" "C \<noteq> []"
    and "level (st_rows st) C m = {}" "m \<le> MAX_REMOVE_RECURSION"
    and "r \<in> set (st_rows st)" "row_text r \<in> set I" "row_text r \<notin> set C"
    and "\<forall>p \<in> below (st_rows st) C. r ''parent_id'' \<noteq> Some p" "r ''ref_id'' = None"
  shows "\<exists>out st'. recursiveRemove I C False st = (Inr out, st') \<and> r \<in> set (st_rows st')"
  using assms by (rule items_left_over)

theorem item_beside_container_stays_witness:
  "\<exists>out st'. recursiveRemove [''8''] [''5''] False (table_of demo_rows) = (Inr out, st')
    \<and> demo_rows ! 3 \<in> set (st_rows st')"
proof -
  have "level demo_rows [''5''] n \<subseteq> {''5''}" for n
    using demo_rows_ok(3) by (induction n) auto
  then have "below demo_rows [''5''] \<subseteq> {''5''}" by (auto simp: below_def)
  moreover have "demo_rows ! 3 \<in> set demo_rows" "row_text (demo_rows ! 3) = ''8''"
    "(demo_rows ! 3) ''parent_id'' = Some ''3''" "(demo_rows ! 3) ''ref_id'' = None"
    by (simp_all add: demo_rows_def row_with_def col_text_def)
  ultimately show ?thesis
    using item_beside_container_stays [of "table_of demo_rows" "[''5'']" 1 "demo_rows ! 3" "[''8'']"] demo_rows_ok
    by (auto simp: table_of_def)
qed

text \<open>
  A container that refers to an item, as an album to its first track, is removed with the item,
  but what it holds stays in the table without a parent.
\<close>

theorem album_leaves_orphans:
  assumes "(\<forall>r \<in> set (st_rows st). r ''id'' \<noteq> None) \<and> inj_on row_text (set (st_rows st))"
    and "c \<in> set (st_rows st)" "c ''ref_id'' = Some i"
    and "r \<in> set (st_rows st)" "r ''parent_id'' = Some (row_text c)" "row_text r \<noteq> i" "r ''ref_id'' \<noteq> Some i"
  shows "\<exists>out st'. recursiveRemove [i] [] False st = (Inr out, st')
    \<and> c \<notin> set (st_rows st') \<and> r \<in> set (st_rows st')"
  using assms by (rule album_orphans)

theorem album_leaves_orphans_witness:
  "let album = row_with [(''id'', ''5''), (''ref_id'', ''4'')]; track = row_with [(''id'', ''6''), (''parent_id'', ''5'')]
   in \<exists>out st'. recursiveRemove [''4''] [] False (table_of [album, track]) = (Inr out, st')
      \<and> album \<notin> set (st_rows st') \<and> track \<in> set (st_rows st')"
  unfolding Let_def by (rule album_leaves_orphans) (auto simp: table_of_def row_with_def col_text_def)

section \<open>Adding, importing and the tasks\<close>

text \<open>
  C11. Whatever a row holds, an object that is read from it is of the class its column \<open>object_type\<close>
  names: for the type of a class it is that class, and it is a container exactly when the bit for
  containers is set. Its ID, parent, reference and title are those of the row, its own type is that of
  its class, and no dictionary of it has two entries for a key.
\<close>

theorem loaded_object_typed:
  assumes "createObjectFromRow scan_info row = Inr ob"
    and "t = (word_of_int (z_toInt (row col_object_type)) :: 32 word)"
  shows "(t \<in> {0x1, 0x2, 0x6, 0xA, 0x1A} \<longrightarrow> class_type (o_part ob) = t)
    \<and> ((\<exists>c. o_part ob = CdsContainer c) \<longleftrightarrow> odd t)
    \<and> o_id ob = z_toInt (row col_id) \<and> o_refID ob = z_toInt (row col_ref_id)
    \<and> o_parentID ob = z_toInt (row col_parent_id) \<and> o_title ob = row col_dc_title
    \<and> cds_inv ob"
proof -
  obtain o1 where o1: "createObject t = Inr o1"
    and tag: "row_tag ob = (z_toInt (row col_id), z_toInt (row col_ref_id), z_toInt (row col_parent_id), row col_dc_title, o_objectType o1)"
    using createObjectFromRow_tag [OF assms(1)] assms(2) by blast
  have inv: "cds_inv ob" by (rule createObjectFromRow_typed [OF assms(1)])
  then have c: "class_type (o_part ob) = o_objectType o1" using tag by (simp add: cds_inv_def)
  have "(\<exists>c. o_part ob = CdsContainer c) \<longleftrightarrow> class_type (o_part ob) = 1"
    by (cases "o_part ob") (simp_all add: class_type_def)
  then show ?thesis using createObject_type [OF o1] tag inv c by simp
qed

theorem loaded_object_typed_witness:
  "\<exists>ob. createObjectFromRow (\<lambda>_. None) (select_row (demo_file_row ''/a.mp3'' 7) (\<lambda>_. None) None) = Inr ob
     \<and> class_type (o_part ob) = 0x2 \<and> o_id ob = 7 \<and> cds_inv ob"
proof -
  let ?row = "select_row (demo_file_row ''/a.mp3'' 7) (\<lambda>_. None) None"
  have nf: "nul_free ''/a.mp3''" by (simp add: nul_free_def)
  have "createObjectFromRow (\<lambda>_. None) ?row = Inr (as_stored 7 1 (demo_import\<lparr>o_location := Some ''/a.mp3''\<rparr>))"
    by (simp add: demo_file_row_def read_stored_item demo_file_plain nf)
  moreover have "z_toInt (?row col_object_type) = 2"
    using stored_item(2) [OF demo_file_plain [OF nf], of 1 7] z_toInt_show [of 2]
    by (simp add: demo_file_row_def select_row_def select_columns_def)
  moreover have "z_toInt (?row col_id) = 7"
    using demo_file_cols(2) [OF nf, of 7] z_toInt_show [of 7] by (simp add: select_row_def select_columns_def sql_int_def)
  ultimately show ?thesis
    using loaded_object_typed [of "\<lambda>_. None" ?row "as_stored 7 1 (demo_import\<lparr>o_location := Some ''/a.mp3''\<rparr>)" 2] by simp
qed

text \<open>
  C10. \<open>addObject\<close> of a plain file whose directory is there or can be made returns with an ID larger
  than all before, leaves every row with an ID of its own, and \<open>loadObject\<close> of that ID returns the
  file as it was, apart from the members the table has no column for; for a store without a cache.
\<close>

theorem added_file_is_loaded:
  assumes "plain_item ob i" "o_id ob = INVALID_OBJECT_ID" "ids_unique st" "no_cache st"
    and "split_path (o_location ob) = Inr pa"
    and "ensurePathExistence f2i (Some (pa ! 0)) st = (Inr (p, ch), st1)" "0 \<le> p" "p < 2 ^ 31"
    and "st_lastID st1 + 1 < 2 ^ 31"
    and "\<forall>a \<in> set (st_autoscans st). \<forall>n > st_lastID st. a ''obj_id'' \<noteq> Some (show_int n)"
  shows "\<exists>ob' st' st''. addObject f2i ob st = (Inr (ob', ch), st') \<and> st_lastID st < o_id ob' \<and> ids_unique st'
    \<and> loadObject (o_id ob') st' = (Inr (as_stored (o_id ob') p ob), st'')"
proof -
  have "CDS_ID_FS_ROOT \<le> st_lastID st1"
    using keepsD [OF keeps_ensurePathExistence, of "{}" st f2i "Some (pa ! 0)"] assms(3,6) by (simp add: ids_unique_def)
  then obtain ob' st' where run: "addObject f2i ob st = (Inr (ob', ch), st')" and p: "o_parentID ob' = p"
    using addObject_succeeds [OF assms(1,5,6)] assms(2,7,9) by fastforce
  have "st_lastID st < o_id ob' \<and> ids_unique st'
    \<and> (\<exists>st''. loadObject (o_id ob') st' = (Inr (as_stored (o_id ob') p ob), st''))"
    using added_file_loads [OF assms(1) run assms(3,4,10)] assms(7,8) by (simp add: p)
  then show ?thesis using run by blast
qed

definition song_file :: cds_object where
  "song_file = new_CdsItem\<lparr>o_title := Some ''it's'', o_location := Some ''/a.mp3'',
     o_metadata := [(Some ''dc:date'', Some ''1=2&3'')], o_resources := [new_CdsResource 0]\<rparr>"

lemma plain_song_file: "plain_item song_file new_item_part"
  by (simp add: plain_item_def song_file_def new_Cds_defs new_item_part_def cds_inv_def d_inv_def d_plain_def
      r_inv_def r_plain_def new_CdsResource_def class_type_def getFlag_def)

lemma in_the_root: "ensurePathExistence f2i (Some ''/'') st = (Inr (CDS_ID_FS_ROOT, INVALID_OBJECT_ID), st)"
proof -
  have "z_reduce (Some ''/'') DIR_SEPARATOR = Inr (Some ''/'')"
    by (subst z_reduce_squeeze) (simp_all add: nul_free_def)
  then show ?thesis
    by (subst ensurePathExistence.simps) (simp add: clean_path_def z_eq_char_def byte_at_def)
qed

lemma root_of_song: "split_path (Some ''/a.mp3'') = Inr [''/'', ''a.mp3'']"
  by (simp add: split_path_def z_rindex_def z_substring_from_def z_substring_def strncpy_def cstr_def Let_def
      string_ok_def z_eq_def)

theorem added_file_is_loaded_witness:
  "\<exists>ob' st' st''. addObject (\<lambda>z. z) song_file (table_of []) = (Inr (ob', INVALID_OBJECT_ID), st')
     \<and> 10 < o_id ob' \<and> ids_unique st' \<and> loadObject (o_id ob') st' = (Inr (as_stored (o_id ob') CDS_ID_FS_ROOT song_file), st'')"
proof -
  have "ids_unique (table_of [])" "no_cache (table_of [])"
    by (simp_all add: ids_unique_def table_of_def table_def no_cache_def empty_sql_def)
  note demo = this
  have ob: "o_id song_file = INVALID_OBJECT_ID" "split_path (o_location song_file) = Inr [''/'', ''a.mp3'']"
    by (simp_all add: song_file_def new_Cds_defs root_of_song)
  have dir: "ensurePathExistence (\<lambda>z. z) (Some ([''/'', ''a.mp3''] ! 0)) (table_of [])
      = (Inr (CDS_ID_FS_ROOT, INVALID_OBJECT_ID), table_of [])"
    by (simp add: in_the_root)
  have "\<exists>ob' st' st''. addObject (\<lambda>z. z) song_file (table_of []) = (Inr (ob', INVALID_OBJECT_ID), st')
     \<and> st_lastID (table_of []) < o_id ob' \<and> ids_unique st'
     \<and> loadObject (o_id ob') st' = (Inr (as_stored (o_id ob') CDS_ID_FS_ROOT song_file), st'')"
    by (rule added_file_is_loaded [OF plain_song_file ob(1) demo ob(2) dir]) (simp_all add: table_of_def)
  then show ?thesis by (simp add: table_of_def)
qed


text \<open>
  C4. While a file or a whole directory is added, with or without the built-in layout, and whether
  the call returns or fails, no row of the object table is changed or lost, and every row keeps an ID
  of its own.
\<close>

theorem import_keeps_rows:
  assumes "ids_unique (cm_store s)" "lay = None \<or> lay = Some (fallback_layout env)"
    and "addFile env lay path rootpath recursive hidden task s = (out, s')"
  shows "ids_unique (cm_store s') \<and> set (table (cm_store s)) \<subseteq> set (table (cm_store s'))"
proof -
  have "keeps (rows_kept (set (table (cm_store s)))) (addFile env lay path rootpath recursive hidden task)"
    by (rule built_in.keeps_addFile) (use assms(2) in blast)
  from keepsD [OF this, of s] show ?thesis using assms(1,3) by (auto simp: rows_kept_def kept_def)
qed

definition manager_of :: "table_row list \<Rightarrow> manager" where
  "manager_of rows = \<lparr>cm_store = table_of rows, cm_upnp = [], cm_ui = [], cm_totalFiles = 0\<rparr>"

theorem import_keeps_rows_witness:
  "let s = manager_of [container_row 5 1 (Some ''m'') (Some ''D/m'') None INVALID_OBJECT_ID];
     s' = snd (addFile demo_env (Some (fallback_layout demo_env)) ''/m'' None True False None s)
   in ids_unique (cm_store s') \<and> set (table (cm_store s)) \<subseteq> set (table (cm_store s'))"
proof -
  let ?row = "container_row 5 1 (Some ''m'') (Some ''D/m'') None INVALID_OBJECT_ID"
  have "row_id ?row = 5" by simp
  then have u: "ids_unique (cm_store (manager_of [?row]))"
    by (simp add: ids_unique_def manager_of_def table_of_def table_def)
  show ?thesis unfolding Let_def
    by (rule import_keeps_rows [OF u, where env = demo_env and out = "fst (addFile demo_env (Some (fallback_layout demo_env)) ''/m'' None True False None (manager_of [?row]))"])
      simp_all
qed

text \<open>
  \<open>addAudio\<close> files a song under eight containers: when it returns, each of the containers has a
  row, made where it was missing, and in each there is a row under the title of the song, or under
  its artist, album and title, that refers to another object; when it fails the IDs are in order.
\<close>

theorem song_filed:
  assumes "song_item ob" "song_of ob = Inr sg" "ids_unique (cm_store s)"
  shows "case addAudio f2i cp ob s of
     (Inl e, s') \<Rightarrow> ids_unique (cm_store s')
   | (Inr ob', s') \<Rightarrow> ids_unique (cm_store s') \<and> (\<exists>places. audio_places sg = Inr places \<and> length places = 8
       \<and> (\<forall>(chain, title) \<in> set places. filed (cm_store s') (the chain) title))"
proof -
  obtain out s' where run: "addAudio f2i cp ob s = (out, s')" by fastforce
  have start: "filed_in {} s" using assms(3) by (simp add: filed_in_def)
  have "ids_unique (cm_store s')"
    using keepsD [OF keeps_addAudio, of "{}" s f2i cp ob] assms(3) run by (simp add: rows_kept_def)
  moreover have "\<exists>places. audio_places sg = Inr places \<and> length places = 8
       \<and> (\<forall>(chain, title) \<in> set places. filed (cm_store s') (the chain) title)" if "out = Inr ob'" for ob'
  proof -
    from returnsD [OF addAudio_files [OF assms(1,2)] start, of f2i cp ob' s'] run that
    obtain places where p: "audio_places sg = Inr places" "filed_in ((\<lambda>(chain, title). (the chain, title)) ` set places) s'"
      by blast
    then have "\<forall>(chain, title) \<in> set places. filed (cm_store s') (the chain) title"
      by (fastforce simp: filed_in_def)
    moreover have "length places = 8" using p(1) by (auto simp: audio_places_def bind_result_def Let_def split: sum.splits)
    ultimately show ?thesis using p(1) by blast
  qed
  ultimately show ?thesis by (cases out) (simp_all add: run)
qed

theorem song_filed_witness:
  "\<exists>sg. song_of demo_song = Inr sg \<and> sg_date sg = Some ''1995'' \<and> sg_album sg = Some ''Unknown''
    \<and> (case addAudio (\<lambda>z. z) (\<lambda>_. True) demo_song (manager_of []) of
         (Inl e, s') \<Rightarrow> ids_unique (cm_store s')
       | (Inr ob', s') \<Rightarrow> ids_unique (cm_store s') \<and> (\<exists>places. audio_places sg = Inr places \<and> length places = 8
           \<and> (\<forall>(chain, title) \<in> set places. filed (cm_store s') (the chain) title)))"
proof -
  obtain sg where sg: "song_of demo_song = Inr sg" "sg_date sg = Some ''1995''" "sg_album sg = Some ''Unknown''"
    using song_of_demo by simp
  have ids: "ids_unique (cm_store (manager_of []))" by (simp add: ids_unique_def manager_of_def table_of_def table_def)
  have song: "song_item demo_song" by (simp add: song_item_def demo_song_def new_Cds_defs IS_CDS_defs)
  show ?thesis
    by (intro exI [of _ sg] conjI sg) (rule song_filed [OF song sg(1) ids])
qed

text \<open>
  C13. When the thread of the content manager sleeps, both queues are empty and no shutdown was asked
  for, whatever calls came before; and at every moment the tasks added with a priority are those that
  were taken followed by those that wait, in the order in which they were added.
\<close>

theorem tasks_in_order:
  assumes "cm_reach s"
  shows "(tp_pc s = Waiting \<longrightarrow> tp_queue1 s = [] \<and> tp_queue2 s = [] \<and> \<not> tp_shutdownFlag s)
    \<and> tp_added s False = tp_taken s False @ map t_ID (tp_queue1 s)
    \<and> tp_added s True = tp_taken s True @ map t_ID (tp_queue2 s)"
  using cm_reach_inv [OF assms] by (simp add: pool_inv_def fifo_inv_def)

definition pool_with_task :: task_pool where
  "pool_with_task = addTask (new_GenericTask AddFile True (Some ''/a'')) True
     (new_task_pool\<lparr>tp_currentTask := None, tp_working := False, tp_pc := Waiting\<rparr>)"

lemma pool_with_task_reach: "cm_reach pool_with_task"
proof -
  have "worker_step new_task_pool (new_task_pool\<lparr>tp_currentTask := None, tp_pc := At_Dequeue\<rparr>)"
    using worker_step.check [of new_task_pool] by (simp add: new_task_pool_def)
  note 1 = cm_reach.thread [OF cm_reach.init this]
  have "worker_step (new_task_pool\<lparr>tp_currentTask := None, tp_pc := At_Dequeue\<rparr>)
     (new_task_pool\<lparr>tp_currentTask := None, tp_working := False, tp_pc := Waiting\<rparr>)"
    using worker_step.sleep [of "new_task_pool\<lparr>tp_currentTask := None, tp_pc := At_Dequeue\<rparr>"]
    by (simp add: new_task_pool_def)
  note 2 = cm_reach.thread [OF 1 this]
  show ?thesis unfolding pool_with_task_def
    by (rule cm_reach.call [OF 2 pool_call.add]) (simp add: has_mutex_def)
qed

theorem tasks_in_order_witness:
  "tp_added pool_with_task True = tp_taken pool_with_task True @ map t_ID (tp_queue2 pool_with_task)
    \<and> tp_queue2 pool_with_task \<noteq> []"
  using tasks_in_order [OF pool_with_task_reach] by (simp add: pool_with_task_def addTask_def notify_one_def)


text \<open>
  C3. \<open>_addFile\<close> of a file that is not in the database, for which an object can be made and whose
  directory can be made and read, returns; the ID it returns is that of a row for the file, which no
  other row has, and all earlier rows are as they were (without a cache and a layout).
\<close>

theorem imported_file_has_row:
  assumes "get_filename (Some path) = Inr filename" "hidden \<or> \<not> (string_ok filename \<and> byte_at (the filename) 0 = CHR ''.'')"
    and "\<not> z_eq (ie_configFilename env) (Some path)"
    and "findObjectByPath (Some path) (cm_store s) = (Inr None, st0)" "no_cache st0" "ids_unique (cm_store s)"
    and "createObjectFromFile env path True False = Inr (Some ob)" "plain_item ob i" "o_id ob = INVALID_OBJECT_ID"
    and "o_location ob = Some path" "validate (\<lambda>z. check_path env z False) ob = Inr ()"
    and "squeeze DIR_SEPARATOR path = path" "split_path (Some path) = Inr pa"
    and "ensurePathExistence (ie_f2i env) (Some (pa ! 0)) st0 = (Inr (p, ch), st1)" "directory_at p st1"
    and "p \<noteq> INVALID_OBJECT_ID" "st_lastID st1 + 1 < 2 ^ 31"
  shows "\<exists>n s'. addFile env None path rootpath recursive hidden task s = (Inr n, s')
    \<and> file_at (cm_store s') path n \<and> ids_unique (cm_store s') \<and> set (table (cm_store s)) \<subseteq> set (table (cm_store s'))"
proof -
  have u: "ids_unique st0"
    using grows_to_unique [OF grows_to_findObjectByPath [of "cm_store s" "Some path"]] assms(4,6) by simp
  have "CDS_ID_FS_ROOT \<le> st_lastID st1"
    using keepsD [OF keeps_ensurePathExistence, of "{}" st0 "ie_f2i env" "Some (pa ! 0)"] u assms(14)
    by (simp add: ids_unique_def)
  from addFile_succeeds [OF assms(1-4,7-13) assms(5) u assms(14-16) this assms(17)]
  obtain s' where run: "addFile env None path rootpath recursive hidden task s = (Inr (st_lastID st1 + 1), s')"
    "file_at (cm_store s') path (st_lastID st1 + 1)" by blast
  have "keeps (rows_kept (set (table (cm_store s)))) (addFile env None path rootpath recursive hidden task)"
    by (rule built_in.keeps_addFile) blast
  from keepsD [OF this, of s] show ?thesis using assms(6) run by (auto simp: rows_kept_def kept_def)
qed

theorem imported_file_has_row_witness:
  "\<exists>n s'. addFile demo_env None ''/a.mp3'' None False False None (manager_of [demo_root]) = (Inr n, s')
    \<and> file_at (cm_store s') ''/a.mp3'' n \<and> ids_unique (cm_store s') \<and> demo_root \<in> set (table (cm_store s'))"
proof -
  let ?s = "manager_of [demo_root]"
  have st: "cm_store ?s = table_of [demo_root]" "ss_cache (st_sql (table_of [demo_root])) = None" "st_autoscans (table_of [demo_root]) = []"
    "st_rows (table_of [demo_root]) = [demo_root]" "st_lastID (table_of [demo_root]) = 10" "no_cache (table_of [demo_root])"
    "table (table_of [demo_root]) = [demo_root]"
    by (simp_all add: manager_of_def table_of_def empty_sql_def no_cache_def table_def)
  have "row_id demo_root = 1" by (simp add: demo_root_def)
  then have u: "ids_unique (cm_store ?s)" by (simp add: st ids_unique_def)
  have found: "findObjectByPath (Some ''/a.mp3'') (cm_store ?s) = (Inr None, table_of [demo_root])"
    using demo_not_found [of "\<lambda>_. True"] by (simp add: findObjectByPath_def demo_location cached_at_def st split: if_splits)
  have dir: "ensurePathExistence (ie_f2i demo_env) (Some ([''/'', ''a.mp3''] ! 0)) (table_of [demo_root])
      = (Inr (CDS_ID_FS_ROOT, INVALID_OBJECT_ID), table_of [demo_root])"
    by (simp add: in_the_root)
  have ob: "o_id demo_import = INVALID_OBJECT_ID" "o_location demo_import = Some ''/a.mp3''"
    by (simp_all add: demo_import_def new_Cds_defs)
  have "directory_at CDS_ID_FS_ROOT (table_of [demo_root])" by (rule demo_directory [OF st(2-4)])
  note run = imported_file_has_row [OF demo_name _ _ found st(6) u demo_made demo_plain ob demo_valid _ root_of_song dir this]
  have "\<exists>n s'. addFile demo_env None ''/a.mp3'' None False False None ?s = (Inr n, s')
    \<and> file_at (cm_store s') ''/a.mp3'' n \<and> ids_unique (cm_store s') \<and> set (table (cm_store ?s)) \<subseteq> set (table (cm_store s'))"
    by (rule run) (simp_all add: st demo_env_simps byte_at_def)
  then show ?thesis by (simp add: st)
qed

text \<open>
  C12. With a cache, \<open>addObject\<close> of a plain file returns and \<open>loadObject\<close> of the new ID then answers
  at once, from the cache, with an object that equals the one that was added, also while the INSERT
  statement still waits in the buffer.
\<close>

theorem added_object_is_cached:
  assumes "plain_item ob i" "o_id ob = INVALID_OBJECT_ID" "ids_unique st" "cache_on st"
    and "split_path (o_location ob) = Inr pa"
    and "ensurePathExistence f2i (Some (pa ! 0)) st = (Inr (p, ch), st1)" "p \<noteq> INVALID_OBJECT_ID"
    and "st_lastID st1 + 1 < 2 ^ 31"
  shows "\<exists>ob' ob'' st'. addObject f2i ob st = (Inr (ob', ch), st') \<and> o_id ob' = st_lastID st1 + 1
    \<and> loadObject (o_id ob') st' = (Inr ob'', st') \<and> cds_equals ob' ob'' exactly = Inr True"
proof -
  have low: "CDS_ID_FS_ROOT \<le> st_lastID st1"
    using keepsD [OF keeps_ensurePathExistence, of "{}" st f2i "Some (pa ! 0)"] assms(3,6) by (simp add: ids_unique_def)
  obtain ob' st' where run: "addObject f2i ob st = (Inr (ob', ch), st')" and i: "o_id ob' = st_lastID st1 + 1"
    using addObject_succeeds [OF assms(1,5,6,7) low assms(8,2)] by fastforce
  have "o_id ob' \<noteq> INVALID_OBJECT_ID" "cds_inv ob" using i low assms(1) by (simp_all add: plain_item_def)
  then show ?thesis using added_object_cached [OF run _ assms(4)] run i by blast
qed

definition cached_table :: store where
  \<comment> \<open>an empty table, with a cache and buffering\<close>
  "cached_table = (table_of [])\<lparr>st_sql := empty_sql\<lparr>ss_cache := Some new_StorageCache, ss_insertBufferOn := True\<rparr>\<rparr>"

theorem added_object_is_cached_witness:
  "\<exists>ob' ob'' st'. addObject (\<lambda>z. z) song_file cached_table = (Inr (ob', INVALID_OBJECT_ID), st') \<and> o_id ob' = 11
    \<and> loadObject (o_id ob') st' = (Inr ob'', st') \<and> cds_equals ob' ob'' True = Inr True"
proof -
  have "ids_unique cached_table" "cache_on cached_table" "st_lastID cached_table = 10"
    by (simp_all add: ids_unique_def cached_table_def table_of_def table_def cache_on_def)
  note demo = this
  have ob: "o_id song_file = INVALID_OBJECT_ID" "split_path (o_location song_file) = Inr [''/'', ''a.mp3'']"
    by (simp_all add: song_file_def new_Cds_defs root_of_song)
  have dir: "ensurePathExistence (\<lambda>z. z) (Some ([''/'', ''a.mp3''] ! 0)) cached_table
      = (Inr (CDS_ID_FS_ROOT, INVALID_OBJECT_ID), cached_table)"
    by (simp add: in_the_root)
  have "\<exists>ob' ob'' st'. addObject (\<lambda>z. z) song_file cached_table = (Inr (ob', INVALID_OBJECT_ID), st')
    \<and> o_id ob' = st_lastID cached_table + 1
    \<and> loadObject (o_id ob') st' = (Inr ob'', st') \<and> cds_equals ob' ob'' True = Inr True"
    by (rule added_object_is_cached [OF plain_song_file ob(1) demo(1,2) ob(2) dir]) (simp_all add: demo(3))
  then show ?thesis by (simp add: demo(3))
qed

text \<open>
  C14. Once a shutdown was asked for, the thread of the content manager ends: from every state that
  can be reached it takes at most two more steps, and it can take one until it has ended.
\<close>

theorem thread_ends_after_shutdown:
  assumes "cm_reach s" "tp_shutdownFlag s" "(worker_step ^^ n) s s'"
  shows "n \<le> 2 \<and> (tp_pc s' = Finished \<or> (\<exists>s''. worker_step s' s''))"
proof -
  have "cm_reach s' \<and> tp_shutdownFlag s' \<and> n + steps_left (tp_pc s') \<le> steps_left (tp_pc s)"
    using assms
  proof (induction n arbitrary: s')
    case (Suc n)
    then obtain u where u: "(worker_step ^^ n) s u" "worker_step u s'" by auto
    note IH = Suc.IH [OF Suc.prems(1,2) u(1)]
    have "tp_pc u \<noteq> Finished" using u(2) by (auto elim: worker_stepE)
    with IH shutdown_ends [of u] cm_reach_inv [of u] u(2)
    have "tp_shutdownFlag s'" "steps_left (tp_pc s') < steps_left (tp_pc u)" by blast+
    then show ?case using IH cm_reach.thread [OF _ u(2)] by auto
  qed simp
  moreover have "steps_left (tp_pc s) \<le> 2" by (cases "tp_pc s") simp_all
  ultimately show ?thesis using shutdown_ends [of s'] cm_reach_inv [of s'] by fastforce
qed

theorem thread_ends_after_shutdown_witness:
  "tp_pc (pool_with_task\<lparr>tp_shutdownFlag := True\<rparr>) = Woken
    \<and> (\<exists>s''. worker_step (notify_one (pool_with_task\<lparr>tp_shutdownFlag := True\<rparr>)) s'')"
proof -
  have pc: "tp_pc pool_with_task = Woken" by (simp add: pool_with_task_def)
  then have "cm_reach (notify_one (pool_with_task\<lparr>tp_shutdownFlag := True\<rparr>))"
    by (intro cm_reach.shutdown pool_with_task_reach) (simp add: has_mutex_def)
  from thread_ends_after_shutdown [OF this, of 0] show ?thesis using pc by simp
qed

text \<open>
  C27. The thread of the task processor can miss its shutdown: \<open>TaskProcessor::shutdown\<close> sets the
  flag and notifies without the mutex, and when both happen between the test of the flag and
  \<open>cond.wait\<close>, the thread sleeps for good and \<open>pthread_join\<close> never returns.
\<close>

theorem shutdown_missed:
  "\<exists>s. tp_reach s \<and> tp_shutdownFlag s \<and> \<not> tp_notifying s \<and> tp_pc s = Waiting \<and> \<not> (\<exists>s'. worker_step s s')"
  by (rule missed_shutdown)

text \<open>
  C15. \<open>cacheURL\<close> keeps one entry for an object and at most \<open>MAX_CACHED_URLS\<close> entries, and the URL
  it was given is what \<open>getCachedURL\<close> then answers; it fails only when the cache is full of URLs of
  other objects that were all used in the current second.
\<close>

theorem url_cache_answers:
  assumes "url_cache_inv urls" "later \<noteq> -1"
  shows "case cacheURL now url urls of
     Inl e \<Rightarrow> length urls = MAX_CACHED_URLS \<and> cu_objectID url \<notin> set (map cu_objectID urls)
       \<and> (\<forall>c \<in> set urls. now \<le> cu_lastAccessTime c)
   | Inr (urls', _) \<Rightarrow> url_cache_inv urls' \<and> set urls' \<subseteq> insert url (set urls)
       \<and> fst (getCachedURL err later (cu_objectID url) urls') = Inr (cu_url url)"
proof (cases "cacheURL now url urls")
  case (Inl e)
  then show ?thesis using assms(1) cacheURL_fails [of urls now url e] by (auto simp: url_cache_inv_def)
next
  case (Inr r)
  obtain urls' b where r: "r = (urls', b)" by fastforce
  note result = cacheURL_result [OF Inr [unfolded r] assms(1)]
  then have "fst (getCachedURL err later (cu_objectID url) urls') = Inr (cu_url url)"
    using getCachedURL_found [of urls' url later err] assms(2) by (simp add: url_cache_inv_def)
  then show ?thesis using result by (auto simp: Inr r)
qed

theorem url_cache_answers_witness:
  "case cacheURL 100 \<lparr>cu_objectID = 7, cu_url = Some ''http://u'', cu_creationTime = 100, cu_lastAccessTime = 100\<rparr>
      [\<lparr>cu_objectID = 7, cu_url = Some ''http://t'', cu_creationTime = 3, cu_lastAccessTime = 4\<rparr>] of
     Inl e \<Rightarrow> False
   | Inr (urls', _) \<Rightarrow> fst (getCachedURL ''error'' 101 7 urls') = Inr (Some ''http://u'')"
proof -
  let ?u = "\<lparr>cu_objectID = 7, cu_url = Some ''http://u'', cu_creationTime = 100, cu_lastAccessTime = 100\<rparr>"
  let ?old = "[\<lparr>cu_objectID = 7, cu_url = Some ''http://t'', cu_creationTime = 3, cu_lastAccessTime = 4\<rparr>]"
  have "url_cache_inv ?old" by (simp add: url_cache_inv_def MAX_CACHED_URLS_def)
  from url_cache_answers [OF this, where later = 101 and now = 100 and url = ?u and err = "''error''"]
  show ?thesis by (auto simp: MAX_CACHED_URLS_def split: sum.splits)
qed

text \<open>
  C6. Whatever a scan of an autoscan directory finds, adds and removes, and whether it ends, returns
  early or fails, and also when autoscan directories are set and edited, every row of the object table
  has an ID of its own, below the next one.
\<close>

theorem rescan_keeps_ids:
  assumes "built_in_layout env" "ids_unique (cm_store (sn_cm s))"
  shows "ids_unique (cm_store (sn_cm (snd (run_rescan env objectID scanID m s))))
    \<and> ids_unique (cm_store (sn_cm (snd (sn_setAutoscanDirectory env a copy s))))"
  using keepsD [OF keeps_run_rescan [OF assms(1)], of s objectID scanID m] assms(2)
    keepsD [OF keeps_sn_setAutoscanDirectory, of s env a copy]
  by (simp_all add: in_order_def)

definition demo_scanner :: scanner where
  \<comment> \<open>the root of the file system is scanned; one of its songs is gone\<close>
  "demo_scanner =
     \<lparr>sn_cm = manager_of [demo_root, demo_file_row ''/a.mp3'' 7, demo_file_row ''/b.mp3'' 8],
      sn_dirs = \<lparr>st_dirs = [0 \<mapsto> \<lparr>ad_location = Some ''/'', ad_mode = Timed, ad_level = Full, ad_recursive = True,
          ad_hidden = False, ad_persistent = False, ad_interval = 60, ad_taskCount = 1, ad_scanID = 0,
          ad_objectID = 1, ad_storageID = 1, ad_last_mod_previous_scan = 6, ad_last_mod_current_scan = 6,
          ad_timer_parameter = 0\<rparr>], st_params = [0 \<mapsto> 0]\<rparr>,
      sn_timed = [Some 0], sn_inotify = [], sn_tasks = [], sn_timer = [], sn_watches = []\<rparr>"

lemma demo_scanner_rows: "demo_rows_of (cm_store (sn_cm demo_scanner))"
  by (simp add: demo_rows_of_def demo_scanner_def manager_of_def table_of_def unbuffered_def no_cache_def empty_sql_def)

theorem rescan_keeps_ids_witness:
  "ids_unique (cm_store (sn_cm (snd (run_rescan demo_scan 1 0 Timed demo_scanner))))"
proof -
  have "row_id demo_root = 1" "row_id (demo_file_row p 7) = 7" "row_id (demo_file_row p 8) = 8" for p
    by (simp_all add: demo_root_def demo_file_row_def)
  then have "ids_unique (cm_store (sn_cm demo_scanner))"
    by (simp add: ids_unique_def demo_scanner_def manager_of_def table_of_def table_def)
  moreover have "built_in_layout demo_scan" by (simp add: built_in_layout_def demo_scan_def)
  ultimately show ?thesis using rescan_keeps_ids by blast
qed

text \<open>
  C5. When every entry of a scanned directory is hidden or a regular file with a row (for a full scan:
  not later than the last one), \<open>_rescanDirectory\<close> removes from the table the children of the container
  that it has not found on the disk, with what refers to them, and no other item; when all are there
  the table stays as it is. No task is added, and the time of the scan is set, unless the search for
  containers that are now empty fails after its 500 rounds. It is assumed that there is no cache, that
  nobody interferes and the task is not cancelled, that the rows have IDs of their own, and that what is
  gone are items and not one of the two roots.
\<close>

theorem scan_removes_what_is_gone:
  assumes "scanID \<noteq> INVALID_SCAN_ID" "al_get (list_of m s) scanID = Some a" "st_dirs (sn_dirs s) a = Some d"
    and "ad_scanID d \<noteq> INVALID_SCAN_ID" "c \<noteq> INVALID_OBJECT_ID" "st = cm_store (sn_cm s)" "fst (loadObject c st) = Inr ob"
    and "IS_CDS_CONTAINER (o_objectType ob)" "(if c = CDS_ID_FS_ROOT then Some ''/'' else o_location ob) = Some loc"
    and "string_ok (Some loc)" "opendir (se_import env) (cstr loc) = Inr names" "\<And>p. ie_alive (se_import env) p"
    and "\<And>name. name \<in> set names \<Longrightarrow> known_entry env lvl d loc st (ad_last_mod_previous_scan d) i name"
    and "unbuffered st" "numbered st" "se_running env" "\<And>p ds. se_others env p ds = ds"
    and "G = gone_IDs st c d i names" "\<forall>i \<in> G. CDS_ID_FS_ROOT < i" "\<forall>r \<in> set (st_rows st). row_id r \<in> G \<longrightarrow> \<not> is_cont r"
  shows "\<exists>q s'. rescan env c scanID m lvl s = (q, s')
    \<and> items_of (cm_store (sn_cm s')) = filter (\<lambda>r. \<not> goes_with G r) (items_of st)
    \<and> set (st_rows (cm_store (sn_cm s'))) \<subseteq> {r \<in> set (st_rows st). \<not> goes_with G r}
    \<and> (G = {} \<longrightarrow> st_rows (cm_store (sn_cm s')) = st_rows st) \<and> sn_tasks s' = sn_tasks s
    \<and> (q = Inr () \<and> st_dirs (sn_dirs s') a = Some (ad_setCurrentLMT d (ad_last_mod_previous_scan d))
       \<or> q = Inl endless \<and> G \<noteq> {})"
proof -
  obtain k where "rescan env c scanID m lvl s
    = scan_end env a (Some (map_option (filter (\<lambda>x. x \<notin> found_IDs d i names))
        (children_IDs st c (\<not> ad_recursive d)), ad_last_mod_previous_scan d)) (on_fresh k s)"
    using known_files_scanned [OF assms(1-5,7-13) assms(6,14,17)] by blast
  from known_scan_done [OF this assms(6,14,15,16,3)] assms(18-20)
  have "scan_done G a (ad_setCurrentLMT d (ad_last_mod_previous_scan d)) s (rescan env c scanID m lvl s)" by simp
  then show ?thesis unfolding scan_done_def assms(6) by (cases "rescan env c scanID m lvl s") simp
qed

theorem scan_removes_what_is_gone_witness:
  \<comment> \<open>of two songs the second is gone\<close>
  "\<exists>q s'. rescan demo_scan 1 0 Timed Full demo_scanner = (q, s')
     \<and> items_of (cm_store (sn_cm s')) = [demo_file_row ''/a.mp3'' 7]
     \<and> demo_file_row ''/b.mp3'' 8 \<in> set (st_rows (cm_store (sn_cm demo_scanner)))
     \<and> demo_file_row ''/b.mp3'' 8 \<notin> set (st_rows (cm_store (sn_cm s')))"
proof -
  let ?st = "cm_store (sn_cm demo_scanner)" let ?d = "the (st_dirs (sn_dirs demo_scanner) 0)"
  note rows = demo_scanner_rows
  have d: "st_dirs (sn_dirs demo_scanner) 0 = Some ?d" "ad_scanID ?d = 0" "ad_recursive ?d" "\<not> ad_hidden ?d"
    "ad_last_mod_previous_scan ?d = 6" "list_of Timed demo_scanner = [Some 0]"
    by (simp_all add: demo_scanner_def list_of_def)
  have e: "opendir (se_import demo_scan) (cstr ''/'') = Inr [''.'', ''..'', ''a.mp3'']" "ie_alive (se_import demo_scan) p"
    "se_others demo_scan q ds = ds" "se_running demo_scan" for p q ds
    by (simp_all add: demo_scan_def demo_env_def opendir_def PATH_MAX_def cstr_def)
  have u: "unbuffered ?st" using rows by (simp add: demo_rows_of_def)
  have G: "{8} = gone_IDs ?st 1 ?d (\<lambda>_. 7) [''.'', ''..'', ''a.mp3'']"
    unfolding demo_rows_numbered(7) [OF rows d(3)] demo_found [OF d(4)] by simp
  have one: "\<forall>r \<in> set (st_rows ?st). row_id r \<in> {8} \<longrightarrow> \<not> is_cont r"
    by (intro ballI impI) (use demo_rows_numbered(4,8) [OF rows] in simp)
  have "\<exists>q s'. rescan demo_scan 1 0 Timed Full demo_scanner = (q, s')
    \<and> items_of (cm_store (sn_cm s')) = filter (\<lambda>r. \<not> goes_with {8} r) (items_of ?st)
    \<and> set (st_rows (cm_store (sn_cm s'))) \<subseteq> {r \<in> set (st_rows ?st). \<not> goes_with {8} r}
    \<and> ({8} = ({} :: int set) \<longrightarrow> st_rows (cm_store (sn_cm s')) = st_rows ?st) \<and> sn_tasks s' = sn_tasks demo_scanner
    \<and> (q = Inr () \<and> st_dirs (sn_dirs s') 0 = Some (ad_setCurrentLMT ?d (ad_last_mod_previous_scan ?d))
       \<or> q = Inl endless \<and> {8} \<noteq> ({} :: int set))"
    by (rule scan_removes_what_is_gone [OF _ _ d(1) _ _ refl demo_root_read [OF rows] _ _ _ e(1,2)
          demo_known [OF rows] u demo_rows_numbered(1) [OF rows] e(4) e(3) G _ one])
      (use d in \<open>simp_all add: al_get_def loaded_container_def new_Cds_defs IS_CDS_defs string_ok_def z_eq_def\<close>)
  then obtain q s' where r: "rescan demo_scan 1 0 Timed Full demo_scanner = (q, s')"
    "items_of (cm_store (sn_cm s')) = filter (\<lambda>r. \<not> goes_with {8} r) (items_of ?st)"
    "set (st_rows (cm_store (sn_cm s'))) \<subseteq> {r \<in> set (st_rows ?st). \<not> goes_with {8} r}"
    by blast
  have "items_of (cm_store (sn_cm s')) = [demo_file_row ''/a.mp3'' 7]"
    unfolding r(2) demo_rows_numbered(2) [OF rows] using demo_rows_numbered(5,6) [OF rows] by simp
  moreover have "demo_file_row ''/b.mp3'' 8 \<notin> set (st_rows (cm_store (sn_cm s')))"
    using r(3) demo_rows_numbered(6) [OF rows] by blast
  moreover have "demo_file_row ''/b.mp3'' 8 \<in> set (st_rows ?st)" using rows by (simp add: demo_rows_of_def)
  ultimately show ?thesis using r(1) by blast
qed

text \<open>
  C7. A full scan overlooks a change: \<open>last_modified_current_max\<close> is raised while the directory is
  read, so once a file of time \<open>t1\<close> was read, a known file that was changed after the last scan, but not
  after \<open>t1\<close>, is not added again.
\<close>

theorem older_change_overlooked:
  assumes "scan_file env Full path1 location hidden t1 (list, lmt) s = (Inr (Some (list1, lmt1)), s1)"
    and "\<not> z_eq (ie_configFilename (se_import env)) (Some path1)"
    and "unbuffered (cm_store (sn_cm s1))" "fst (findObjectIDByPath (Some path2) (cm_store (sn_cm s1))) = Inr i" "0 < i"
    and "lmt < t2" "t2 \<le> t1"
  shows "\<exists>k. scan_file env Full path2 location hidden t2 (list1, lmt1) s1
    = (Inr (Some (erase_id i list1, lmt1)), on_fresh k s1)"
proof -
  have s1: "s1 = on_fresh (st_fresh (cm_store (sn_cm s1))) s1" by (simp add: on_fresh_def)
  have "t2 \<le> lmt1" using scan_raises_time [OF assms(1) refl assms(2)] assms(7) by simp
  then have "Full = Full \<longrightarrow> t2 \<le> lmt1" by simp
  from known_file_scanned [OF assms(3-5) this, of env location hidden list1 "st_fresh (cm_store (sn_cm s1))"]
  show ?thesis using s1 by simp
qed

theorem older_change_overlooked_witness:
  "\<exists>k. scan_file demo_scan Full ''//a.mp3'' (Some ''/'') False 5 (Some [7], 9) demo_scanner
    = (Inr (Some (Some [], 9)), on_fresh k demo_scanner)"
proof -
  have "unbuffered (cm_store (sn_cm demo_scanner))" using demo_scanner_rows by (simp add: demo_rows_of_def)
  moreover have "\<not> z_eq (ie_configFilename (se_import demo_scan)) (Some ''/x.bin'')"
    by (simp add: demo_scan_def demo_env_def z_eq_def)
  ultimately show ?thesis
    using older_change_overlooked [OF demo_other_scanned [OF demo_scanner_rows] _ _ demo_song_found [OF demo_scanner_rows], of 5]
    by (simp add: erase_id_def)
qed

end
